(* ===== verification/Prelude.thy ===== *)
theory Prelude
  imports Complex_Main "HOL-Library.AList"
begin

text \<open>
  Shared vocabulary of the development: the data of the TypeScript runtime that the
  components use (arbitrary values, insertion-ordered maps and sets, numbers, strings,
  results of calls that may throw) and the generic lemmas on them.

  \<^item> A \<open>number\<close> is a \<^typ>\<open>real\<close>. Rounding of IEEE doubles is not modelled; where the code
    tests for \<open>NaN\<close> or infinities the value is a \<open>jsnum\<close>.
  \<^item> A \<open>Map\<close> is an association list in insertion order: \<open>set\<close> replaces in place or
    appends, which is exactly \<^const>\<open>AList.update\<close>.
  \<^item> A \<open>Set\<close> is a list without repetitions in insertion order.
  \<^item> A call that may throw returns \<open>exn + 'a\<close>.
\<close>

named_theorems js_defs \<open>definitions of the runtime operations\<close>
named_theorems inv_rules \<open>invariant preservation rules\<close>

section \<open>Values\<close>

datatype jval =
    JUndef
  | JNull
  | JBool bool
  | JNum real
  | JBig int
  | JStr string
  | JArr "jval list"
  | JObj "(string \<times> jval) list"

type_synonym json_object = "(string \<times> jval) list"

datatype jsnum = Fin real | PosInf | NegInf | NaN

section \<open>Thrown errors\<close>

text \<open>
  An \<open>Error\<close> is its name and message; \<open>AbortError\<close> is the name the abort helpers set.
\<close>

record exn =
  ename :: string
  emsg :: string

type_synonym 'a throws = "exn + 'a"

definition mk_error :: "string \<Rightarrow> exn" where
  "mk_error msg = \<lparr>ename = ''Error'', emsg = msg\<rparr>"

section \<open>Insertion-ordered maps and sets\<close>

type_synonym ('k, 'v) jsmap = "('k \<times> 'v) list"

definition jset_add :: "'a \<Rightarrow> 'a list \<Rightarrow> 'a list" where
  [js_defs]: "jset_add x xs = (if x \<in> set xs then xs else xs @ [x])"

lemma set_jset_add [simp]: "set (jset_add x xs) = insert x (set xs)"
  by (auto simp: jset_add_def)

lemma distinct_jset_add [simp]: "distinct (jset_add x xs) = distinct xs"
  by (auto simp: jset_add_def)

definition jset_of :: "'a list \<Rightarrow> 'a list" where
  [js_defs]: "jset_of xs = foldl (\<lambda>acc x. jset_add x acc) [] xs"

lemma set_foldl_jset_add: "set (foldl (\<lambda>acc x. jset_add x acc) acc xs) = set acc \<union> set xs"
  by (induction xs arbitrary: acc) auto

lemma distinct_foldl_jset_add:
  "distinct acc \<Longrightarrow> distinct (foldl (\<lambda>acc x. jset_add x acc) acc xs)"
  by (induction xs arbitrary: acc) auto

lemma set_jset_of [simp]: "set (jset_of xs) = set xs"
  by (simp add: jset_of_def set_foldl_jset_add)

lemma distinct_jset_of [simp]: "distinct (jset_of xs)"
  by (simp add: jset_of_def distinct_foldl_jset_add)

lemma length_jset_of: "length (jset_of xs) = card (set xs)"
  using distinct_card [OF distinct_jset_of, of xs] by simp

lemma keys_update [simp]: "set (map fst (AList.update k v m)) = insert k (set (map fst m))"
  by (induction m) auto

lemma keys_update_image [simp]: "fst ` set (AList.update k v m) = insert k (fst ` set m)"
  using keys_update [of k v m] by simp

lemma map_of_update_same [simp]: "map_of (AList.update k v m) k = Some v"
  by (simp add: update_conv)

lemma map_of_update_other [simp]: "k \<noteq> k' \<Longrightarrow> map_of (AList.update k v m) k' = map_of m k'"
  by (simp add: update_conv)

lemma map_filter_mem: "y \<in> set (List.map_filter f xs) \<longleftrightarrow> (\<exists>x \<in> set xs. f x = Some y)"
  by (induction xs) (auto split: option.splits)

section \<open>Numbers\<close>

text \<open>\<open>Math.round\<close> rounds a half upwards: \<open>floor (x + 0.5)\<close>.\<close>

definition js_round :: "real \<Rightarrow> int" where
  [js_defs]: "js_round x = \<lfloor>x + 1 / 2\<rfloor>"

lemma js_round_of_int [simp]: "js_round (of_int n) = n"
  by (simp add: js_round_def floor_eq_iff)

lemma js_round_mono: "x \<le> y \<Longrightarrow> js_round x \<le> js_round y"
  by (auto simp: js_round_def intro: floor_mono)

lemma js_round_error: "\<bar>of_int (js_round x) - x\<bar> \<le> 1 / 2"
  unfolding js_round_def by linarith

definition clamp :: "real \<Rightarrow> real \<Rightarrow> real \<Rightarrow> real" where
  [js_defs]: "clamp n lo hi = max lo (min hi n)"

lemma clamp_bounds: "lo \<le> hi \<Longrightarrow> lo \<le> clamp n lo hi \<and> clamp n lo hi \<le> hi"
  by (auto simp: clamp_def)

section \<open>Strings\<close>

text \<open>
  Strings are character lists; \<open>toLowerCase\<close> and \<open>trim\<close> are modelled on the ASCII letters
  and white space, which are the characters the code compares against.
\<close>

definition char_lower :: "char \<Rightarrow> char" where
  [js_defs]: "char_lower c =
     (if 65 \<le> (of_char c :: nat) \<and> (of_char c :: nat) \<le> 90 then char_of (of_char c + 32 :: nat) else c)"

definition to_lower :: "string \<Rightarrow> string" where
  [js_defs]: "to_lower s = map char_lower s"

definition is_space :: "char \<Rightarrow> bool" where
  [js_defs]: "is_space c =
     (c = CHR '' '' \<or> (9 \<le> (of_char c :: nat) \<and> (of_char c :: nat) \<le> 13))"

definition trim :: "string \<Rightarrow> string" where
  [js_defs]: "trim s = rev (dropWhile is_space (rev (dropWhile is_space s)))"

fun starts_with :: "string \<Rightarrow> string \<Rightarrow> bool" where
  "starts_with [] s = True"
| "starts_with (p # ps) [] = False"
| "starts_with (p # ps) (c # cs) = (p = c \<and> starts_with ps cs)"

fun js_includes :: "string \<Rightarrow> string \<Rightarrow> bool" where
  "js_includes p [] = (p = [])"
| "js_includes p (c # cs) = (starts_with p (c # cs) \<or> js_includes p cs)"

definition ends_with :: "string \<Rightarrow> string \<Rightarrow> bool" where
  [js_defs]: "ends_with p s = starts_with (rev p) (rev s)"

fun join :: "string \<Rightarrow> string list \<Rightarrow> string" where
  "join sep [] = []"
| "join sep [x] = x"
| "join sep (x # y # ys) = x @ sep @ join sep (y # ys)"

lemma length_to_lower [simp]: "length (to_lower s) = length s"
  by (simp add: to_lower_def)

lemma starts_with_append [simp]: "starts_with p (p @ s)"
  by (induction p) auto

lemma starts_with_iff: "starts_with p s \<longleftrightarrow> (\<exists>r. s = p @ r)"
  by (induction p s rule: starts_with.induct) auto

lemma includes_iff: "js_includes p s \<longleftrightarrow> (\<exists>a b. s = a @ p @ b)"
proof (induction p s rule: js_includes.induct)
  case (1 p)
  then show ?case by auto
next
  case (2 p c cs)
  have "(\<exists>a b. c # cs = a @ p @ b) \<longleftrightarrow> (\<exists>b. c # cs = p @ b) \<or> (\<exists>a b. cs = a @ p @ b)"
  proof
    assume "\<exists>a b. c # cs = a @ p @ b"
    then obtain a b where ab: "c # cs = a @ p @ b" by blast
    then show "(\<exists>b. c # cs = p @ b) \<or> (\<exists>a b. cs = a @ p @ b)"
      by (cases a) auto
  next
    assume "(\<exists>b. c # cs = p @ b) \<or> (\<exists>a b. cs = a @ p @ b)"
    then show "\<exists>a b. c # cs = a @ p @ b"
    proof
      assume "\<exists>b. c # cs = p @ b"
      then obtain b where "c # cs = [] @ p @ b" by auto
      then show ?thesis by blast
    next
      assume "\<exists>a b. cs = a @ p @ b"
      then obtain a b where "c # cs = (c # a) @ p @ b" by auto
      then show ?thesis by blast
    qed
  qed
  with 2 show ?case by (simp add: starts_with_iff)
qed

text \<open>Decimal rendering of a natural number, as template strings print it.\<close>

fun show_nat :: "nat \<Rightarrow> string" where
  "show_nat n =
     (if n < 10 then [char_of (48 + n)] else show_nat (n div 10) @ [char_of (48 + n mod 10)])"

declare show_nat.simps [simp del]

text \<open>Different numbers are rendered differently, since the digits can be read back.\<close>

definition dec_value :: "string \<Rightarrow> nat" where
  "dec_value s = foldl (\<lambda>n c. 10 * n + ((of_char c :: nat) - 48)) 0 s"

lemma dec_value_snoc: "dec_value (s @ [c]) = 10 * dec_value s + ((of_char c :: nat) - 48)"
  by (simp add: dec_value_def)

lemma dec_value_show_nat: "dec_value (show_nat n) = n"
proof (induction n rule: show_nat.induct)
  case (1 n)
  show ?case
  proof (cases "n < 10")
    case True
    then show ?thesis by (subst show_nat.simps) (simp add: dec_value_def)
  next
    case False
    then show ?thesis using 1 by (subst show_nat.simps) (simp add: dec_value_snoc)
  qed
qed

lemma show_nat_inj [simp]: "show_nat m = show_nat n \<longleftrightarrow> m = n"
  by (metis dec_value_show_nat)

lemma show_nat_nonempty [simp]: "show_nat n \<noteq> []"
  by (subst show_nat.simps) simp

definition show_int :: "int \<Rightarrow> string" where
  "show_int n = (if n < 0 then CHR ''-'' # show_nat (nat (- n)) else show_nat (nat n))"

section \<open>Integers from numbers\<close>

text \<open>\<open>BigInt(x)\<close> throws a \<open>RangeError\<close> on a number that is not an integer.\<close>

definition js_bigint :: "jsnum \<Rightarrow> int throws" where
  [js_defs]: "js_bigint n =
     (case n of
        Fin x \<Rightarrow> if x = of_int \<lfloor>x\<rfloor> then Inr \<lfloor>x\<rfloor>
                 else Inl \<lparr>ename = ''RangeError'', emsg = ''The number cannot be converted to a BigInt''\<rparr>
      | _ \<Rightarrow> Inl \<lparr>ename = ''RangeError'', emsg = ''The number cannot be converted to a BigInt''\<rparr>)"

lemma js_bigint_of_int [simp]: "js_bigint (Fin (of_int k)) = Inr k"
  by (simp add: js_bigint_def)

end
