(* ===== verification/Runtime.thy ===== *)
theory Runtime
  imports Prelude
begin

text \<open>
  More of the TypeScript runtime: numbers with infinities and \<open>NaN\<close>, \<open>Array.prototype.sort\<close>
  with a comparator, \<open>split\<close> and the word-boundary regular expressions.
\<close>

section \<open>Numbers with infinities\<close>

fun js_minus :: "jsnum \<Rightarrow> jsnum \<Rightarrow> jsnum" where
  "js_minus (Fin x) (Fin y) = Fin (x - y)"
| "js_minus NaN y = NaN"
| "js_minus x NaN = NaN"
| "js_minus PosInf PosInf = NaN"
| "js_minus NegInf NegInf = NaN"
| "js_minus PosInf y = PosInf"
| "js_minus NegInf y = NegInf"
| "js_minus (Fin x) PosInf = NegInf"
| "js_minus (Fin x) NegInf = PosInf"

fun js_lt :: "jsnum \<Rightarrow> jsnum \<Rightarrow> bool" where
  "js_lt (Fin x) (Fin y) = (x < y)"
| "js_lt NaN y = False"
| "js_lt x NaN = False"
| "js_lt PosInf y = False"
| "js_lt x NegInf = False"
| "js_lt NegInf y = True"
| "js_lt x PosInf = True"

definition js_eq :: "jsnum \<Rightarrow> jsnum \<Rightarrow> bool" where
  [js_defs]: "js_eq x y = (x = y \<and> x \<noteq> NaN)"

definition js_le :: "jsnum \<Rightarrow> jsnum \<Rightarrow> bool" where
  [js_defs]: "js_le x y = (js_lt x y \<or> js_eq x y)"

definition js_finite :: "jsnum \<Rightarrow> bool" where
  [js_defs]: "js_finite x = (case x of Fin _ \<Rightarrow> True | _ \<Rightarrow> False)"

definition js_truthy :: "jsnum \<Rightarrow> bool" where
  [js_defs]: "js_truthy x = (x \<noteq> Fin 0 \<and> x \<noteq> NaN)"

text \<open>\<open>a || b\<close> on numbers.\<close>

definition js_or :: "jsnum \<Rightarrow> jsnum \<Rightarrow> jsnum" where
  [js_defs]: "js_or x y = (if js_truthy x then x else y)"

lemma js_finite_iff: "js_finite x \<longleftrightarrow> (\<exists>r. x = Fin r)"
  by (auto simp: js_finite_def split: jsnum.splits)

lemma js_le_Fin [simp]: "js_le (Fin x) (Fin y) \<longleftrightarrow> x \<le> y"
  by (auto simp: js_le_def js_eq_def)

lemma js_lt_PosInf [simp]: "js_lt PosInf x = False"
  by (cases x) auto

lemma js_lt_minus_Fin [simp]: "js_lt g (js_minus (Fin x) (Fin y)) \<longleftrightarrow> js_lt g (Fin (x - y))"
  by simp

lemma js_lt_Fin_mono: "js_lt g (Fin x) \<Longrightarrow> x \<le> y \<Longrightarrow> js_lt g (Fin y)"
  by (cases g) auto

section \<open>Sorting\<close>

text \<open>
  \<open>xs.sort(cmp)\<close> is stable: a later element moves in front of an earlier one only when the
  comparator says the earlier one is greater. For a comparator that is a total preorder the
  result is determined, and insertion computes it.
\<close>

fun insert_by :: "('a \<Rightarrow> 'a \<Rightarrow> jsnum) \<Rightarrow> 'a \<Rightarrow> 'a list \<Rightarrow> 'a list" where
  "insert_by cmp x [] = [x]"
| "insert_by cmp x (y # ys) = (if js_lt (Fin 0) (cmp x y) then y # insert_by cmp x ys else x # y # ys)"

definition js_sort :: "('a \<Rightarrow> 'a \<Rightarrow> jsnum) \<Rightarrow> 'a list \<Rightarrow> 'a list" where
  "js_sort cmp xs = foldr (insert_by cmp) xs []"

lemma js_sort_simps [simp]:
  "js_sort cmp [] = []"
  "js_sort cmp (x # xs) = insert_by cmp x (js_sort cmp xs)"
  by (simp_all add: js_sort_def)

lemma set_insert_by [simp]: "set (insert_by cmp x ys) = insert x (set ys)"
  by (induction ys) auto

lemma mset_insert_by [simp]: "length (insert_by cmp x ys) = Suc (length ys)"
  by (induction ys) auto

lemma set_js_sort [simp]: "set (js_sort cmp xs) = set xs"
  by (induction xs) auto

lemma length_js_sort [simp]: "length (js_sort cmp xs) = length xs"
  by (induction xs) auto

lemma distinct_insert_by [simp]: "distinct (insert_by cmp x ys) \<longleftrightarrow> x \<notin> set ys \<and> distinct ys"
  by (induction ys) auto

lemma distinct_js_sort [simp]: "distinct (js_sort cmp xs) = distinct xs"
  by (induction xs) auto

text \<open>
  If the comparator never orders two elements against \<open>R\<close>, the result is sorted by \<open>R\<close>; the
  laws of the whole comparator do not matter.
\<close>

lemma sorted_insert_by:
  assumes up: "\<And>x y. x \<in> A \<Longrightarrow> y \<in> A \<Longrightarrow> \<not> js_lt (Fin 0) (cmp x y) \<Longrightarrow> R x y"
    and down: "\<And>x y. x \<in> A \<Longrightarrow> y \<in> A \<Longrightarrow> js_lt (Fin 0) (cmp x y) \<Longrightarrow> R y x"
    and trans: "\<And>x y z. x \<in> A \<Longrightarrow> y \<in> A \<Longrightarrow> z \<in> A \<Longrightarrow> R x y \<Longrightarrow> R y z \<Longrightarrow> R x z"
    and A: "x \<in> A" "set ys \<subseteq> A"
    and s: "sorted_wrt R ys"
  shows "sorted_wrt R (insert_by cmp x ys)"
  using A s
proof (induction ys)
  case Nil
  then show ?case by simp
next
  case (Cons y ys)
  show ?case
  proof (cases "js_lt (Fin 0) (cmp x y)")
    case True
    with Cons down [of x y] show ?thesis by auto
  next
    case False
    then have "R x y" using Cons.prems up by auto
    moreover have "\<forall>z \<in> set ys. R x z"
      using Cons.prems \<open>R x y\<close> trans [of x y] by auto
    ultimately show ?thesis using False Cons.prems by simp
  qed
qed

lemma sorted_js_sort:
  assumes "\<And>x y. x \<in> set xs \<Longrightarrow> y \<in> set xs \<Longrightarrow> \<not> js_lt (Fin 0) (cmp x y) \<Longrightarrow> R x y"
    and "\<And>x y. x \<in> set xs \<Longrightarrow> y \<in> set xs \<Longrightarrow> js_lt (Fin 0) (cmp x y) \<Longrightarrow> R y x"
    and "\<And>x y z. x \<in> set xs \<Longrightarrow> y \<in> set xs \<Longrightarrow> z \<in> set xs \<Longrightarrow> R x y \<Longrightarrow> R y z \<Longrightarrow> R x z"
  shows "sorted_wrt R (js_sort cmp xs)"
proof -
  have "set ys \<subseteq> set xs \<Longrightarrow> sorted_wrt R (js_sort cmp ys)" for ys
  proof (induction ys)
    case Nil
    then show ?case by simp
  next
    case (Cons y ys)
    then have "sorted_wrt R (js_sort cmp ys)" "y \<in> set xs" "set (js_sort cmp ys) \<subseteq> set xs"
      by auto
    from sorted_insert_by [where A = "set xs", OF assms this(2,3,1)] show ?case by simp
  qed
  then show ?thesis by simp
qed

section \<open>Splitting strings\<close>

text \<open>\<open>s.split(sep)\<close> for a one-character separator.\<close>

fun js_split :: "char \<Rightarrow> string \<Rightarrow> string list" where
  "js_split sep [] = [[]]"
| "js_split sep (c # cs) =
     (if c = sep then [] # js_split sep cs
      else (case js_split sep cs of [] \<Rightarrow> [[c]] | w # ws \<Rightarrow> (c # w) # ws))"

section \<open>Whole words in regular expressions\<close>

text \<open>
  Matching of \<open>\b w \b\<close> for a word \<open>w\<close> that starts and ends with a word character, and of
  \<open>\b w\<close> without the second boundary.
\<close>

definition is_word :: "char \<Rightarrow> bool" where
  [js_defs]: "is_word c =
     (let n = (of_char c :: nat) in
      (48 \<le> n \<and> n \<le> 57) \<or> (65 \<le> n \<and> n \<le> 90) \<or> (97 \<le> n \<and> n \<le> 122) \<or> n = 95)"

fun word_start :: "string \<Rightarrow> bool" where
  "word_start [] = False"
| "word_start (c # cs) = is_word c"

text \<open>\<open>prev\<close>: the character before the rest is a word character.\<close>

fun has_word :: "string \<Rightarrow> bool \<Rightarrow> string \<Rightarrow> bool" where
  "has_word w prev [] = False"
| "has_word w prev (c # cs) =
     ((\<not> prev \<and> starts_with w (c # cs) \<and> \<not> word_start (drop (length w) (c # cs))) \<or>
      has_word w (is_word c) cs)"

fun has_word_prefix :: "string \<Rightarrow> bool \<Rightarrow> string \<Rightarrow> bool" where
  "has_word_prefix w prev [] = False"
| "has_word_prefix w prev (c # cs) =
     ((\<not> prev \<and> starts_with w (c # cs)) \<or> has_word_prefix w (is_word c) cs)"

lemma has_word_iff:
  "w \<noteq> [] \<Longrightarrow> has_word w prev s \<longleftrightarrow>
     (\<exists>p q. s = p @ w @ q \<and> (if p = [] then \<not> prev else \<not> is_word (last p)) \<and> \<not> word_start q)"
proof (induction s arbitrary: prev)
  case Nil
  then show ?case by simp
next
  case (Cons c cs)
  let ?R = "\<lambda>prev s p q. s = p @ w @ q \<and> (if p = [] then \<not> prev else \<not> is_word (last p)) \<and> \<not> word_start q"
  have here: "(\<exists>q. ?R prev (c # cs) [] q) \<longleftrightarrow>
      \<not> prev \<and> starts_with w (c # cs) \<and> \<not> word_start (drop (length w) (c # cs))"
    by (auto simp: starts_with_iff)
  have there: "(\<exists>p' q. ?R prev (c # cs) (c # p') q) \<longleftrightarrow> (\<exists>p q. ?R (is_word c) cs p q)"
    by (auto split: if_splits)
  have "(\<exists>p q. ?R prev (c # cs) p q) \<longleftrightarrow> (\<exists>q. ?R prev (c # cs) [] q) \<or> (\<exists>p' q. ?R prev (c # cs) (c # p') q)"
  proof
    assume "\<exists>p q. ?R prev (c # cs) p q"
    then obtain p q where pq: "?R prev (c # cs) p q" by blast
    show "(\<exists>q. ?R prev (c # cs) [] q) \<or> (\<exists>p' q. ?R prev (c # cs) (c # p') q)"
    proof (cases p)
      case Nil
      with pq show ?thesis by blast
    next
      case (Cons d p')
      with pq have "?R prev (c # cs) (c # p') q" by auto
      then show ?thesis by blast
    qed
  qed blast
  then show ?case using Cons.IH [OF Cons.prems] here there by simp
qed

section \<open>Conversion to strings\<close>

text \<open>\<open>String(v)\<close>, given how a number is written.\<close>

fun js_string :: "(real \<Rightarrow> string) \<Rightarrow> jval \<Rightarrow> string" where
  "js_string numString (JStr s) = s"
| "js_string numString (JNum x) = numString x"
| "js_string numString (JBig n) = show_int n"
| "js_string numString (JBool b) = (if b then ''true'' else ''false'')"
| "js_string numString JNull = ''null''"
| "js_string numString JUndef = ''undefined''"
| "js_string numString (JArr vs) = join '','' (map (\<lambda>v. case v of JNull \<Rightarrow> [] | JUndef \<Rightarrow> [] | _ \<Rightarrow> js_string numString v) vs)"
| "js_string numString (JObj fs) = ''[object Object]''"

definition nullish :: "jval \<Rightarrow> bool" where
  "nullish v = (v = JNull \<or> v = JUndef)"

section \<open>Fixed-point notation\<close>

text \<open>\<open>x.toFixed(k)\<close>.\<close>

definition to_fixed :: "nat \<Rightarrow> real \<Rightarrow> string" where
  "to_fixed k x =
     (let n = nat (js_round (\<bar>x\<bar> * 10 ^ k)); frac = show_nat (n mod 10 ^ k) in
      (if x < 0 then ''-'' else []) @ show_nat (n div 10 ^ k) @
      (if k = 0 then [] else ''.'' @ replicate (k - length frac) (CHR ''0'') @ frac))"

text \<open>\<open>Number(x.toFixed(d))\<close>: the nearest multiple of \<open>10\<close> to the power \<open>-d\<close>, halves away from zero.\<close>

definition fixed_number :: "nat \<Rightarrow> real \<Rightarrow> real" where
  "fixed_number d x =
     (if x < 0 then - (of_int \<lfloor>- x * 10 ^ d + 1 / 2\<rfloor> / 10 ^ d) else of_int \<lfloor>x * 10 ^ d + 1 / 2\<rfloor> / 10 ^ d)"

end
