(* ===== verification/Dag.thy ===== *)
theory Dag
  imports Prelude "HOL-Library.Multiset"
begin

text \<open>
  \<open>packages/thalamus/src/services/dag-validation.ts\<close> and the level scheduler of
  \<open>thalamus-executor.service.ts\<close>: the nodes of a research plan, \<open>validateDag\<close> with its
  depth-first search, and \<open>topologicalLevels\<close>.

  The search keeps the code's three structures: \<open>visited\<close>, \<open>visiting\<close> and \<open>stack\<close>. The
  code adds a name to the last two before it descends and removes it after, so the model
  passes them down; only \<open>visited\<close> is threaded through the loop over the dependencies.
  The search terminates because every descent adds a key of \<open>byName\<close> to \<open>visiting\<close>.
\<close>

section \<open>Data\<close>

record dag_node =
  cortex :: string
  params :: "(string, jval) jsmap"
  dependsOn :: "string list"

datatype query_complexity = Simple | Moderate | Deep

record dag_plan =
  intent :: string
  nodes :: "dag_node list"
  complexity :: query_complexity

text \<open>\<open>DagValidationError\<close>: its code together with the details the code attaches.\<close>

datatype dag_error =
    EmptyDag
  | UnknownCortex string
  | DuplicateCortex string
  | SelfDependency string
  | MissingDependency string string
  | CircularDependency "string list"

section \<open>validateDag\<close>

text \<open>Lines 33 to 52: the name table, refusing unknown and repeated cortices.\<close>

fun build_by_name ::
  "string set option \<Rightarrow> dag_node list \<Rightarrow> (string, dag_node) jsmap \<Rightarrow> dag_error + (string, dag_node) jsmap" where
  "build_by_name known [] byName = Inr byName"
| "build_by_name known (node # ns) byName =
     (if (case known of None \<Rightarrow> False | Some K \<Rightarrow> cortex node \<notin> K)
      then Inl (UnknownCortex (cortex node))
      else if cortex node \<in> fst ` set byName
      then Inl (DuplicateCortex (cortex node))
      else build_by_name known ns (AList.update (cortex node) node byName))"

text \<open>Lines 54 to 71: self and missing dependencies.\<close>

fun check_node_deps :: "string set \<Rightarrow> string \<Rightarrow> string list \<Rightarrow> dag_error option" where
  "check_node_deps names c [] = None"
| "check_node_deps names c (dep # deps) =
     (if dep = c then Some (SelfDependency c)
      else if dep \<notin> names then Some (MissingDependency c dep)
      else check_node_deps names c deps)"

fun check_deps :: "string set \<Rightarrow> dag_node list \<Rightarrow> dag_error option" where
  "check_deps names [] = None"
| "check_deps names (node # ns) =
     (case check_node_deps names (cortex node) (dependsOn node) of
        Some e \<Rightarrow> Some e
      | None \<Rightarrow> check_deps names ns)"

lemma visiting_shrinks:
  assumes "name \<notin> visiting" and "map_of byName name = Some node"
  shows "card (fst ` set byName - insert name visiting) < card (fst ` set byName - visiting)"
proof -
  have "name \<in> fst ` set byName"
    using assms(2) by (metis map_of_eq_None_iff option.distinct(1))
  then have "fst ` set byName - insert name visiting \<subset> fst ` set byName - visiting"
    using assms(1) by blast
  then show ?thesis by (intro psubset_card_mono) auto
qed

text \<open>
  Lines 77 to 100: \<open>visit\<close>. On a name that is being visited the cycle is the stack from
  that name on, closed by the name.
\<close>

function (sequential)
  visit :: "(string, dag_node) jsmap \<Rightarrow> string set \<Rightarrow> string list \<Rightarrow> string set \<Rightarrow> string \<Rightarrow> dag_error + string set" and
  visit_deps :: "(string, dag_node) jsmap \<Rightarrow> string set \<Rightarrow> string list \<Rightarrow> string set \<Rightarrow> string list \<Rightarrow> dag_error + string set" where
  "visit byName visiting stack visited name =
     (if name \<in> visited then Inr visited
      else if name \<in> visiting
      then Inl (CircularDependency (dropWhile (\<lambda>s. s \<noteq> name) stack @ [name]))
      else (case map_of byName name of
              None \<Rightarrow> Inr visited
            | Some node \<Rightarrow>
                (case visit_deps byName (insert name visiting) (stack @ [name]) visited (dependsOn node) of
                   Inl e \<Rightarrow> Inl e
                 | Inr visited' \<Rightarrow> Inr (insert name visited'))))"
| "visit_deps byName visiting stack visited [] = Inr visited"
| "visit_deps byName visiting stack visited (dep # deps) =
     (case visit byName visiting stack visited dep of
        Inl e \<Rightarrow> Inl e
      | Inr visited' \<Rightarrow> visit_deps byName visiting stack visited' deps)"
  by pat_completeness auto

termination
  by (relation "measures
        [case_sum (\<lambda>(byName, visiting, stack, visited, name). card (fst ` set byName - visiting))
                  (\<lambda>(byName, visiting, stack, visited, deps). card (fst ` set byName - visiting)),
         case_sum (\<lambda>_. 0) (\<lambda>(byName, visiting, stack, visited, deps). Suc (length deps))]")
    (auto dest: visiting_shrinks)

declare visit.simps [simp del] visit_deps.simps [simp del]

text \<open>Lines 102 to 104: every name of the table, in insertion order.\<close>

fun visit_all :: "(string, dag_node) jsmap \<Rightarrow> string set \<Rightarrow> string list \<Rightarrow> dag_error + string set" where
  "visit_all byName visited [] = Inr visited"
| "visit_all byName visited (name # names) =
     (case visit byName {} [] visited name of
        Inl e \<Rightarrow> Inl e
      | Inr visited' \<Rightarrow> visit_all byName visited' names)"

definition validateDag :: "bool \<Rightarrow> string set option \<Rightarrow> dag_node list \<Rightarrow> dag_error + unit" where
  "validateDag allowEmpty known ns =
     (if \<not> allowEmpty \<and> ns = [] then Inl EmptyDag
      else (case build_by_name known ns [] of
              Inl e \<Rightarrow> Inl e
            | Inr byName \<Rightarrow>
                (case check_deps (fst ` set byName) ns of
                   Some e \<Rightarrow> Inl e
                 | None \<Rightarrow>
                     (case visit_all byName {} (map fst byName) of
                        Inl e \<Rightarrow> Inl e
                      | Inr _ \<Rightarrow> Inr ()))))"

section \<open>topologicalLevels\<close>

text \<open>
  The inner loop runs the index from the end of \<open>remaining\<close> to 0, pushing a ready node on
  \<open>level\<close> and splicing it out. \<open>scan_level placed i remaining level\<close> has \<open>i\<close> entries left
  to look at.
\<close>

definition deps_resolved :: "string set \<Rightarrow> dag_node \<Rightarrow> bool" where
  "deps_resolved placed node = (\<forall>dep \<in> set (dependsOn node). dep \<in> placed)"

primrec scan_level :: "string set \<Rightarrow> nat \<Rightarrow> dag_node list \<Rightarrow> dag_node list \<Rightarrow> dag_node list \<times> dag_node list" where
  "scan_level placed 0 remaining level = (level, remaining)"
| "scan_level placed (Suc i) remaining level =
     (let node = remaining ! i in
      if deps_resolved placed node
      then scan_level placed i (take i remaining @ drop (Suc i) remaining) (level @ [node])
      else scan_level placed i remaining level)"

lemma scan_level_filter:
  "i \<le> length remaining \<Longrightarrow>
   scan_level placed i remaining level =
     (level @ rev (filter (deps_resolved placed) (take i remaining)),
      filter (\<lambda>n. \<not> deps_resolved placed n) (take i remaining) @ drop i remaining)"
proof (induction i arbitrary: remaining level)
  case 0
  then show ?case by simp
next
  case (Suc i)
  then have i: "i < length remaining" by simp
  then have t: "take (Suc i) remaining = take i remaining @ [remaining ! i]"
    and d: "drop i remaining = remaining ! i # drop (Suc i) remaining"
    by (simp_all add: take_Suc_conv_app_nth Cons_nth_drop_Suc)
  have "take i (take i remaining @ drop (Suc i) remaining) = take i remaining"
    and "drop i (take i remaining @ drop (Suc i) remaining) = drop (Suc i) remaining"
    using i by simp_all
  with Suc.IH [of "take i remaining @ drop (Suc i) remaining" "level @ [remaining ! i]"]
    Suc.IH [of remaining level] i t d
  show ?case by (simp add: Let_def)
qed

lemma scan_level_eq:
  "scan_level placed (length remaining) remaining [] =
     (rev (filter (deps_resolved placed) remaining), filter (\<lambda>n. \<not> deps_resolved placed n) remaining)"
  by (simp add: scan_level_filter)

function levels_loop :: "string set \<Rightarrow> dag_node list \<Rightarrow> dag_error + dag_node list list" where
  "levels_loop placed remaining =
     (if remaining = [] then Inr []
      else (let (level, remaining') = scan_level placed (length remaining) remaining [] in
            if level = [] then Inl (CircularDependency (map cortex remaining'))
            else (case levels_loop (placed \<union> cortex ` set level) remaining' of
                    Inl e \<Rightarrow> Inl e
                  | Inr levels \<Rightarrow> Inr (level # levels))))"
  by pat_completeness auto
termination
proof (relation "measure (\<lambda>(placed, remaining). length remaining)")
  show "wf (measure (\<lambda>(placed :: string set, remaining :: dag_node list). length remaining))"
    by simp
next
  fix placed :: "string set" and remaining x level remaining' :: "dag_node list" and z :: "dag_node list \<times> dag_node list"
  assume ne: "remaining \<noteq> []" and z: "z = scan_level placed (length remaining) remaining []"
    and p: "(level, remaining') = z" and l: "level \<noteq> []"
  from z p have *: "level = rev (filter (deps_resolved placed) remaining)"
    "remaining' = filter (\<lambda>n. \<not> deps_resolved placed n) remaining"
    by (simp_all add: scan_level_eq)
  from l * have "filter (deps_resolved placed) remaining \<noteq> []" by simp
  then have "length remaining' < length remaining"
    using * sum_length_filter_compl [of "deps_resolved placed" remaining] by (metis add.commute length_0_conv less_add_same_cancel1 neq0_conv)
  then show "((placed \<union> cortex ` set level, remaining'), (placed, remaining))
      \<in> measure (\<lambda>(placed, remaining). length remaining)" by simp
qed

declare levels_loop.simps [simp del]

definition topologicalLevels :: "dag_node list \<Rightarrow> dag_error + dag_node list list" where
  "topologicalLevels ns = levels_loop {} ns"

section \<open>What the validation guarantees\<close>

text \<open>An edge leads from a dependency to the cortex that needs it.\<close>

definition dep_edges :: "dag_node list \<Rightarrow> (string \<times> string) set" where
  "dep_edges ns = {(d, c). \<exists>n \<in> set ns. cortex n = c \<and> d \<in> set (dependsOn n)}"

definition dag_ok :: "string set option \<Rightarrow> dag_node list \<Rightarrow> bool" where
  "dag_ok known ns \<longleftrightarrow>
     (\<forall>K. known = Some K \<longrightarrow> cortex ` set ns \<subseteq> K) \<and>
     distinct (map cortex ns) \<and>
     (\<forall>n \<in> set ns. set (dependsOn n) \<subseteq> cortex ` set ns) \<and>
     acyclic (dep_edges ns)"

definition is_cycle :: "(string \<times> string) set \<Rightarrow> string list \<Rightarrow> bool" where
  "is_cycle E cyc \<longleftrightarrow> 2 \<le> length cyc \<and> hd cyc = last cyc \<and> successively (\<lambda>a b. (b, a) \<in> E) cyc"

subsection \<open>The name table\<close>

definition name_table :: "dag_node list \<Rightarrow> (string, dag_node) jsmap" where
  "name_table ns = map (\<lambda>n. (cortex n, n)) ns"

lemma fst_name_table [simp]:
  "map fst (name_table ns) = map cortex ns" "fst ` set (name_table ns) = cortex ` set ns"
  by (auto simp: name_table_def comp_def image_image)

lemma update_fresh: "k \<notin> fst ` set m \<Longrightarrow> AList.update k v m = m @ [(k, v)]"
  by (induction m) auto

lemma build_by_name_iff:
  "build_by_name known ns acc = Inr m \<longleftrightarrow>
     (\<forall>K. known = Some K \<longrightarrow> cortex ` set ns \<subseteq> K) \<and>
     distinct (map cortex ns) \<and> cortex ` set ns \<inter> fst ` set acc = {} \<and> m = acc @ name_table ns"
proof (induction known ns acc rule: build_by_name.induct)
  case (1 known byName)
  then show ?case by (auto simp: name_table_def)
next
  case (2 known node ns byName)
  show ?case
  proof (cases "(\<exists>K. known = Some K \<and> cortex node \<notin> K) \<or> cortex node \<in> fst ` set byName")
    case True
    then show ?thesis by (auto split: option.splits)
  next
    case False
    then have "build_by_name known (node # ns) byName
        = build_by_name known ns (byName @ [(cortex node, node)])"
      by (auto simp: update_fresh split: option.splits)
    with 2 False show ?thesis by (auto simp: name_table_def update_fresh split: option.splits)
  qed
qed

lemma build_by_name_error:
  "build_by_name known ns acc = Inl e \<Longrightarrow>
     \<exists>n \<in> set ns. e = UnknownCortex (cortex n) \<or> e = DuplicateCortex (cortex n)"
  by (induction known ns acc rule: build_by_name.induct) (auto split: if_splits option.splits)

lemma in_name_table [simp]: "(c, n) \<in> set (name_table ns) \<longleftrightarrow> n \<in> set ns \<and> cortex n = c"
  by (auto simp: name_table_def)

lemma map_of_name_table:
  "distinct (map cortex ns) \<Longrightarrow> map_of (name_table ns) c = Some n \<longleftrightarrow> n \<in> set ns \<and> cortex n = c"
  by simp

lemma check_node_deps_None:
  "check_node_deps names c deps = None \<longleftrightarrow> c \<notin> set deps \<and> set deps \<subseteq> names"
  by (induction names c deps rule: check_node_deps.induct) auto

lemma check_deps_None:
  "check_deps names ns = None \<longleftrightarrow>
     (\<forall>n \<in> set ns. cortex n \<notin> set (dependsOn n) \<and> set (dependsOn n) \<subseteq> names)"
proof (induction names ns rule: check_deps.induct)
  case (2 names node ns)
  then show ?case
    using check_node_deps_None [of names "cortex node" "dependsOn node"]
    by (cases "check_node_deps names (cortex node) (dependsOn node)") auto
qed simp

lemma check_node_deps_not_circular: "check_node_deps names c deps \<noteq> Some (CircularDependency cyc)"
  by (induction names c deps rule: check_node_deps.induct) auto

lemma check_deps_not_circular: "check_deps names ns \<noteq> Some (CircularDependency cyc)"
  by (induction names ns rule: check_deps.induct)
    (auto split: option.splits dest: check_node_deps_not_circular [THEN notE])

subsection \<open>The depth-first search\<close>

definition tbl_edges :: "(string, dag_node) jsmap \<Rightarrow> (string \<times> string) set" where
  "tbl_edges m = {(d, c). \<exists>n. map_of m c = Some n \<and> d \<in> set (dependsOn n)}"

lemma tbl_edges_name_table: "distinct (map cortex ns) \<Longrightarrow> tbl_edges (name_table ns) = dep_edges ns"
  by (auto simp: tbl_edges_def dep_edges_def map_of_name_table)

definition keys_closed :: "(string, dag_node) jsmap \<Rightarrow> bool" where
  "keys_closed m \<longleftrightarrow> (\<forall>c n. map_of m c = Some n \<longrightarrow> set (dependsOn n) \<subseteq> fst ` set m)"

definition explored :: "(string, dag_node) jsmap \<Rightarrow> string set \<Rightarrow> bool" where
  "explored m V \<longleftrightarrow>
     (\<forall>d c. (d, c) \<in> tbl_edges m \<longrightarrow> c \<in> V \<longrightarrow> d \<in> V) \<and> acyclic (tbl_edges m \<inter> V \<times> V)"

lemma explored_empty [simp]: "explored m {}"
  by (simp add: explored_def acyclic_def)

lemma acyclic_add_sink:
  assumes "acyclic R" and sink: "\<And>x. (a, x) \<notin> R \<union> D \<times> {a}"
  shows "acyclic (R \<union> D \<times> {a})"
proof -
  let ?S = "R \<union> D \<times> {a}"
  have path: "(x, y) \<in> R\<^sup>+" if "(x, y) \<in> ?S\<^sup>+" "y \<noteq> a" for x y
    using that
  proof (induction rule: trancl_induct)
    case (base y)
    then show ?case by auto
  next
    case (step y z)
    from step.hyps(2) step.prems have "(y, z) \<in> R" by auto
    moreover have "y \<noteq> a" using step.hyps(2) sink by blast
    ultimately show ?case using step.IH by (meson trancl_into_trancl)
  qed
  show ?thesis
  proof (rule acyclicI, rule allI, rule notI)
    fix x assume c: "(x, x) \<in> ?S\<^sup>+"
    then obtain y where "(x, y) \<in> ?S" by (meson tranclD)
    then have "x \<noteq> a" using sink by blast
    with path [OF c] assms(1) show False by (simp add: acyclic_def)
  qed
qed

lemma explored_insert:
  assumes V: "explored m V" and n: "map_of m name = Some node" "name \<notin> V" "set (dependsOn node) \<subseteq> V"
  shows "explored m (insert name V)"
proof -
  have deps: "(d, name) \<in> tbl_edges m \<longleftrightarrow> d \<in> set (dependsOn node)" for d
    using n(1) by (simp add: tbl_edges_def)
  have closed: "(d, c) \<in> tbl_edges m \<Longrightarrow> c \<in> V \<Longrightarrow> d \<in> V" for d c
    using V by (auto simp: explored_def)
  have eq: "tbl_edges m \<inter> insert name V \<times> insert name V
      = (tbl_edges m \<inter> V \<times> V) \<union> set (dependsOn node) \<times> {name}"
    using deps closed n(2,3) by blast
  have "acyclic ((tbl_edges m \<inter> V \<times> V) \<union> set (dependsOn node) \<times> {name})"
    using V n(2,3) by (intro acyclic_add_sink) (auto simp: explored_def)
  with eq deps closed n(3) show ?thesis by (auto simp: explored_def)
qed

lemma visit_sound:
  shows "keys_closed m \<Longrightarrow> name \<in> fst ` set m \<Longrightarrow> visited \<inter> visiting = {} \<Longrightarrow> explored m visited \<Longrightarrow>
     visit m visiting stack visited name = Inr V \<Longrightarrow>
     visited \<subseteq> V \<and> name \<in> V \<and> V \<inter> visiting = {} \<and> explored m V"
    and "keys_closed m \<Longrightarrow> set deps \<subseteq> fst ` set m \<Longrightarrow> visited \<inter> visiting = {} \<Longrightarrow> explored m visited \<Longrightarrow>
     visit_deps m visiting stack visited deps = Inr V \<Longrightarrow>
     visited \<subseteq> V \<and> set deps \<subseteq> V \<and> V \<inter> visiting = {} \<and> explored m V"
proof (induction m visiting stack visited name and m visiting stack visited deps
    arbitrary: V and V rule: visit_visit_deps.induct)
  case (1 byName visiting stack visited name)
  show ?case
  proof (cases "name \<in> visited")
    case True
    with "1.prems" show ?thesis by (simp add: visit.simps)
  next
    case False
    show ?thesis
    proof (cases "name \<in> visiting")
      case True
      with False "1.prems" show ?thesis by (simp add: visit.simps)
    next
      case nv: False
      from "1.prems"(2) obtain node where node: "map_of byName name = Some node"
        by (metis map_of_eq_None_iff not_None_eq)
      with "1.prems"(5) False nv obtain V' where
        V': "visit_deps byName (insert name visiting) (stack @ [name]) visited (dependsOn node) = Inr V'"
        and V: "V = insert name V'"
        by (auto simp: visit.simps split: sum.splits)
      have "set (dependsOn node) \<subseteq> fst ` set byName"
        using "1.prems"(1) node unfolding keys_closed_def by blast
      with "1.IH" [OF False nv node "1.prems"(1) _ _ "1.prems"(4) V'] "1.prems"(3) False
      have *: "visited \<subseteq> V'" "set (dependsOn node) \<subseteq> V'" "V' \<inter> insert name visiting = {}" "explored byName V'"
        by auto
      then show ?thesis using V node nv by (auto intro: explored_insert)
    qed
  qed
next
  case (2 byName visiting stack visited)
  then show ?case by (simp add: visit_deps.simps)
next
  case (3 byName visiting stack visited dep deps)
  from "3.prems"(5) obtain V1 where V1: "visit byName visiting stack visited dep = Inr V1"
    and V2: "visit_deps byName visiting stack V1 deps = Inr V"
    by (auto simp: visit_deps.simps split: sum.splits)
  from "3.IH"(1) [OF "3.prems"(1) _ "3.prems"(3,4) V1] "3.prems"(2)
  have a: "visited \<subseteq> V1" "dep \<in> V1" "V1 \<inter> visiting = {}" "explored byName V1" by auto
  from "3.IH"(2) [OF V1 "3.prems"(1) _ a(3,4) V2] "3.prems"(2)
  have "V1 \<subseteq> V" "set deps \<subseteq> V" "V \<inter> visiting = {}" "explored byName V" by auto
  with a show ?case by auto
qed

lemma successively_dropWhile: "successively P xs \<Longrightarrow> successively P (dropWhile Q xs)"
  by (induction xs) (auto simp: successively_Cons)

lemma dropWhile_append_hit: "\<exists>x \<in> set xs. \<not> Q x \<Longrightarrow> dropWhile Q (xs @ ys) = dropWhile Q xs @ ys"
  by (induction xs) auto

lemma stack_cycle:
  assumes "name \<in> set stack" and "successively (\<lambda>a b. (b, a) \<in> E) (stack @ [name])"
  shows "is_cycle E (dropWhile (\<lambda>s. s \<noteq> name) stack @ [name])"
proof -
  let ?d = "dropWhile (\<lambda>s. s \<noteq> name) stack"
  have ne: "?d \<noteq> []" using assms(1) by (auto simp: dropWhile_eq_Nil_conv)
  then have hd: "hd ?d = name" using hd_dropWhile [OF ne] by simp
  have "dropWhile (\<lambda>s. s \<noteq> name) (stack @ [name]) = ?d @ [name]"
    using assms(1) by (intro dropWhile_append_hit) auto
  with successively_dropWhile [OF assms(2), of "\<lambda>s. s \<noteq> name"]
  have "successively (\<lambda>a b. (b, a) \<in> E) (?d @ [name])" by simp
  with ne hd show ?thesis
    by (cases ?d) (auto simp: is_cycle_def)
qed

lemma visit_error:
  shows "visit m visiting stack visited name = Inl e \<Longrightarrow> set stack = visiting \<Longrightarrow>
     successively (\<lambda>a b. (b, a) \<in> tbl_edges m) (stack @ [name]) \<Longrightarrow>
     \<exists>cyc. e = CircularDependency cyc \<and> is_cycle (tbl_edges m) cyc"
    and "visit_deps m visiting stack visited deps = Inl e \<Longrightarrow> set stack = visiting \<Longrightarrow>
     (\<forall>d \<in> set deps. successively (\<lambda>a b. (b, a) \<in> tbl_edges m) (stack @ [d])) \<Longrightarrow>
     \<exists>cyc. e = CircularDependency cyc \<and> is_cycle (tbl_edges m) cyc"
proof (induction m visiting stack visited name and m visiting stack visited deps
    arbitrary: e and e rule: visit_visit_deps.induct)
  case (1 byName visiting stack visited name)
  show ?case
  proof (cases "name \<in> visiting")
    case True
    with "1.prems" have "e = CircularDependency (dropWhile (\<lambda>s. s \<noteq> name) stack @ [name])"
      by (auto simp: visit.simps split: if_splits)
    with True "1.prems"(2,3) show ?thesis using stack_cycle by blast
  next
    case nv: False
    with "1.prems"(1) obtain node where nd: "name \<notin> visited" "map_of byName name = Some node"
      and err: "visit_deps byName (insert name visiting) (stack @ [name]) visited (dependsOn node) = Inl e"
      by (auto simp: visit.simps split: if_splits option.splits sum.splits)
    have "\<forall>d \<in> set (dependsOn node).
        successively (\<lambda>a b. (b, a) \<in> tbl_edges byName) ((stack @ [name]) @ [d])"
      using "1.prems"(3) nd(2) by (auto simp: successively_append_iff tbl_edges_def)
    with "1.IH" [OF nd(1) nv nd(2) err] "1.prems"(2) show ?thesis by auto
  qed
next
  case (2 byName visiting stack visited)
  then show ?case by (simp add: visit_deps.simps)
next
  case (3 byName visiting stack visited dep deps)
  show ?case
  proof (cases "visit byName visiting stack visited dep")
    case (Inl e')
    with "3.prems" have "e' = e" by (simp add: visit_deps.simps)
    with "3.IH"(1) [of e] "3.prems"(2,3) Inl show ?thesis by auto
  next
    case (Inr V1)
    with "3.prems"(1) have "visit_deps byName visiting stack V1 deps = Inl e"
      by (simp add: visit_deps.simps)
    with "3.IH"(2) [OF Inr] "3.prems"(2,3) show ?thesis by auto
  qed
qed

lemma visit_all_sound:
  "keys_closed m \<Longrightarrow> set names \<subseteq> fst ` set m \<Longrightarrow> explored m visited \<Longrightarrow>
   visit_all m visited names = Inr V \<Longrightarrow> visited \<subseteq> V \<and> set names \<subseteq> V \<and> explored m V"
proof (induction m visited names rule: visit_all.induct)
  case (1 byName visited)
  then show ?case by simp
next
  case (2 byName visited name names)
  from "2.prems"(4) obtain V1 where V1: "visit byName {} [] visited name = Inr V1"
    and V2: "visit_all byName V1 names = Inr V"
    by (auto split: sum.splits)
  from visit_sound(1) [OF "2.prems"(1) _ _ "2.prems"(3) V1] "2.prems"(2)
  have "visited \<subseteq> V1" "name \<in> V1" "explored byName V1" by auto
  with "2.IH" [OF V1 "2.prems"(1) _ _ V2] "2.prems"(2) show ?case by auto
qed

lemma visit_all_error:
  "visit_all m visited names = Inl e \<Longrightarrow> \<exists>cyc. e = CircularDependency cyc \<and> is_cycle (tbl_edges m) cyc"
proof (induction m visited names rule: visit_all.induct)
  case (1 byName visited)
  then show ?case by simp
next
  case (2 byName visited name names)
  show ?case
  proof (cases "visit byName {} [] visited name")
    case (Inl e')
    with "2.prems" have "e' = e" by simp
    with visit_error(1) [OF Inl] show ?thesis by simp
  next
    case (Inr V1)
    with 2 show ?thesis by simp
  qed
qed

lemma chain_trancl:
  "successively (\<lambda>a b. (b, a) \<in> E) (x # xs) \<Longrightarrow> xs \<noteq> [] \<Longrightarrow> (last xs, x) \<in> E\<^sup>+"
proof (induction xs arbitrary: x)
  case Nil
  then show ?case by simp
next
  case (Cons y ys)
  then have "(y, x) \<in> E" by simp
  with Cons show ?case
    by (cases "ys = []") (auto intro: trancl_into_trancl2 trancl_trans)
qed

lemma is_cycle_not_acyclic: "is_cycle E cyc \<Longrightarrow> \<not> acyclic E"
proof -
  assume c: "is_cycle E cyc"
  then obtain x xs where cyc: "cyc = x # xs" "xs \<noteq> []"
    by (cases cyc) (auto simp: is_cycle_def neq_Nil_conv Suc_le_eq)
  with c have "(last xs, x) \<in> E\<^sup>+" "last xs = x"
    by (auto simp: is_cycle_def intro: chain_trancl)
  then show ?thesis by (auto simp: acyclic_def)
qed

lemma keys_closed_name_table:
  "distinct (map cortex ns) \<Longrightarrow>
   keys_closed (name_table ns) \<longleftrightarrow> (\<forall>n \<in> set ns. set (dependsOn n) \<subseteq> cortex ` set ns)"
  by (auto simp: keys_closed_def map_of_name_table)

subsection \<open>Soundness and completeness of the validation\<close>

lemma validateDag_Inr:
  "validateDag allowEmpty known ns = Inr u \<longleftrightarrow>
     (\<not> allowEmpty \<longrightarrow> ns \<noteq> []) \<and>
     (\<forall>K. known = Some K \<longrightarrow> cortex ` set ns \<subseteq> K) \<and> distinct (map cortex ns) \<and>
     check_deps (cortex ` set ns) ns = None \<and>
     (\<exists>V. visit_all (name_table ns) {} (map cortex ns) = Inr V)"
proof (cases "build_by_name known ns []")
  case (Inl e)
  then have "\<not> ((\<forall>K. known = Some K \<longrightarrow> cortex ` set ns \<subseteq> K) \<and> distinct (map cortex ns))"
    using build_by_name_iff [of known ns "[]" "name_table ns"] by simp
  with Inl show ?thesis by (auto simp: validateDag_def)
next
  case (Inr m)
  with build_by_name_iff [of known ns "[]" m] show ?thesis
    by (auto simp: validateDag_def split: sum.splits option.splits)
qed

lemma validateDag_imp_ok:
  assumes "validateDag allowEmpty known ns = Inr u"
  shows "dag_ok known ns"
proof -
  from assms obtain V where V: "visit_all (name_table ns) {} (map cortex ns) = Inr V"
    and d: "distinct (map cortex ns)" and c: "check_deps (cortex ` set ns) ns = None"
    and k: "\<forall>K. known = Some K \<longrightarrow> cortex ` set ns \<subseteq> K"
    by (auto simp: validateDag_Inr)
  from c have deps: "\<forall>n \<in> set ns. set (dependsOn n) \<subseteq> cortex ` set ns"
    by (auto simp: check_deps_None)
  with d have "keys_closed (name_table ns)" by (simp add: keys_closed_name_table)
  from visit_all_sound [OF this _ _ V] have "set (map cortex ns) \<subseteq> V" "explored (name_table ns) V"
    by auto
  moreover have "dep_edges ns \<subseteq> cortex ` set ns \<times> cortex ` set ns"
    using deps by (auto simp: dep_edges_def)
  ultimately have "acyclic (dep_edges ns \<inter> V \<times> V)" and "dep_edges ns \<inter> V \<times> V = dep_edges ns"
    using d by (auto simp: explored_def tbl_edges_name_table)
  then have "acyclic (dep_edges ns)" by simp
  with d deps k show ?thesis by (simp add: dag_ok_def)
qed

lemma ok_imp_validateDag:
  assumes "dag_ok known ns" and "\<not> allowEmpty \<longrightarrow> ns \<noteq> []"
  shows "validateDag allowEmpty known ns = Inr ()"
proof -
  have "cortex n \<notin> set (dependsOn n)" if "n \<in> set ns" for n
  proof
    assume "cortex n \<in> set (dependsOn n)"
    with that have "(cortex n, cortex n) \<in> dep_edges ns" by (auto simp: dep_edges_def)
    with assms(1) show False by (auto simp: dag_ok_def acyclic_def)
  qed
  with assms(1) have c: "check_deps (cortex ` set ns) ns = None"
    by (auto simp: check_deps_None dag_ok_def)
  have "\<exists>V. visit_all (name_table ns) {} (map cortex ns) = Inr V"
  proof (cases "visit_all (name_table ns) {} (map cortex ns)")
    case (Inl e)
    then obtain cyc where "is_cycle (tbl_edges (name_table ns)) cyc"
      using visit_all_error by blast
    with assms(1) have False
      by (auto simp: dag_ok_def tbl_edges_name_table dest: is_cycle_not_acyclic)
    then show ?thesis ..
  qed simp
  with assms c show ?thesis by (simp add: validateDag_Inr dag_ok_def)
qed

lemma validateDag_circular:
  assumes "validateDag allowEmpty known ns = Inl (CircularDependency cyc)"
  shows "is_cycle (dep_edges ns) cyc"
proof -
  from assms obtain m where m: "build_by_name known ns [] = Inr m"
    by (auto simp: validateDag_def split: if_splits sum.splits dest: build_by_name_error)
  then have d: "distinct (map cortex ns)" and mt: "m = name_table ns"
    using build_by_name_iff [of known ns "[]" m] by auto
  from assms m have "visit_all m {} (map fst m) = Inl (CircularDependency cyc)"
    using check_deps_not_circular
    by (auto simp: validateDag_def split: if_splits sum.splits option.splits)
  from visit_all_error [OF this] d mt show ?thesis by (simp add: tbl_edges_name_table)
qed

subsection \<open>The level scheduler on a validated plan\<close>

text \<open>
  Every level is non-empty and its nodes depend only on what earlier levels have placed.
\<close>

fun levels_ok :: "string set \<Rightarrow> dag_node list list \<Rightarrow> bool" where
  "levels_ok placed [] = True"
| "levels_ok placed (l # ls) =
     (l \<noteq> [] \<and> (\<forall>n \<in> set l. set (dependsOn n) \<subseteq> placed) \<and> levels_ok (placed \<union> cortex ` set l) ls)"

lemma ready_exists:
  assumes ac: "wf (dep_edges ns)" and sub: "set rest \<subseteq> set ns" and d: "distinct (map cortex ns)"
    and deps: "\<forall>n \<in> set rest. set (dependsOn n) \<subseteq> placed \<union> cortex ` set rest" and ne: "rest \<noteq> []"
  shows "\<exists>n \<in> set rest. deps_resolved placed n"
proof -
  from ne obtain c where "c \<in> cortex ` set rest" by (cases rest) auto
  with ac obtain z where z: "z \<in> cortex ` set rest"
    and min: "\<And>y. (y, z) \<in> dep_edges ns \<Longrightarrow> y \<notin> cortex ` set rest"
    by (rule wfE_min) blast
  from z obtain n where n: "n \<in> set rest" "cortex n = z" by auto
  have "set (dependsOn n) \<subseteq> placed"
  proof
    fix y assume y: "y \<in> set (dependsOn n)"
    with n sub have "(y, z) \<in> dep_edges ns" by (auto simp: dep_edges_def)
    with min have "y \<notin> cortex ` set rest" by blast
    with y n deps show "y \<in> placed" by blast
  qed
  with n show ?thesis by (auto simp: deps_resolved_def)
qed

lemma levels_loop_total:
  "wf (dep_edges ns) \<Longrightarrow> set rest \<subseteq> set ns \<Longrightarrow> distinct (map cortex ns) \<Longrightarrow>
   (\<forall>n \<in> set rest. set (dependsOn n) \<subseteq> placed \<union> cortex ` set rest) \<Longrightarrow>
   \<exists>levels. levels_loop placed rest = Inr levels"
proof (induction placed rest rule: levels_loop.induct)
  case (1 placed rest)
  show ?case
  proof (cases "rest = []")
    case True
    then show ?thesis by (simp add: levels_loop.simps)
  next
    case False
    let ?level = "rev (filter (deps_resolved placed) rest)"
    let ?rest = "filter (\<lambda>n. \<not> deps_resolved placed n) rest"
    have scan: "(?level, ?rest) = scan_level placed (length rest) rest []"
      by (simp add: scan_level_eq)
    from ready_exists [OF "1.prems"(1-4) False] have ne: "?level \<noteq> []"
      by (auto simp: filter_empty_conv)
    have "\<forall>n \<in> set ?rest. set (dependsOn n) \<subseteq> (placed \<union> cortex ` set ?level) \<union> cortex ` set ?rest"
      using "1.prems"(4) by fastforce
    with "1.IH" [OF False scan refl ne "1.prems"(1) _ "1.prems"(3)] "1.prems"(2)
    obtain levels where "levels_loop (placed \<union> cortex ` set ?level) ?rest = Inr levels" by auto
    with False ne show ?thesis by (subst levels_loop.simps) (simp add: scan_level_eq)
  qed
qed

lemma levels_loop_sound:
  "levels_loop placed rest = Inr levels \<Longrightarrow>
   levels_ok placed levels \<and> mset (concat levels) = mset rest"
proof (induction placed rest arbitrary: levels rule: levels_loop.induct)
  case (1 placed rest)
  show ?case
  proof (cases "rest = []")
    case True
    with "1.prems" show ?thesis by (simp add: levels_loop.simps)
  next
    case False
    let ?level = "rev (filter (deps_resolved placed) rest)"
    let ?rest = "filter (\<lambda>n. \<not> deps_resolved placed n) rest"
    have scan: "(?level, ?rest) = scan_level placed (length rest) rest []"
      by (simp add: scan_level_eq)
    from "1.prems" False obtain ls where ne: "?level \<noteq> []"
      and ls: "levels_loop (placed \<union> cortex ` set ?level) ?rest = Inr ls" and levels: "levels = ?level # ls"
      by (subst (asm) levels_loop.simps) (auto simp: scan_level_eq split: if_splits sum.splits)
    from "1.IH" [OF False scan refl ne ls] levels ne show ?thesis
      by (auto simp: deps_resolved_def simp flip: multiset_partition)
  qed
qed

lemma dep_edges_wf: "dag_ok known ns \<Longrightarrow> wf (dep_edges ns)"
proof -
  assume ok: "dag_ok known ns"
  then have "dep_edges ns \<subseteq> cortex ` set ns \<times> cortex ` set ns"
    by (auto simp: dag_ok_def dep_edges_def)
  then have "finite (dep_edges ns)" by (rule finite_subset) simp
  with ok show ?thesis by (simp add: dag_ok_def finite_acyclic_wf)
qed

lemma topologicalLevels_total:
  assumes "dag_ok known ns"
  shows "\<exists>levels. topologicalLevels ns = Inr levels \<and> levels_ok {} levels \<and> mset (concat levels) = mset ns"
proof -
  from assms have "\<exists>levels. topologicalLevels ns = Inr levels"
    unfolding topologicalLevels_def
    by (intro levels_loop_total) (auto simp: dag_ok_def dep_edges_wf)
  then show ?thesis using levels_loop_sound unfolding topologicalLevels_def by blast
qed

section \<open>Properties\<close>

text \<open>C17: \<open>validateDag\<close> accepts exactly the plans that are non-empty (unless empty plans are
  allowed), name only known and pairwise different cortices, depend only on cortices of the plan
  and have no dependency cycle.\<close>

theorem validateDag_accepts_iff:
  "validateDag allowEmpty known ns = Inr () \<longleftrightarrow> dag_ok known ns \<and> (allowEmpty \<or> ns \<noteq> [])"
proof
  assume a: "validateDag allowEmpty known ns = Inr ()"
  then have "allowEmpty \<or> ns \<noteq> []" by (auto simp: validateDag_def)
  with validateDag_imp_ok [OF a] show "dag_ok known ns \<and> (allowEmpty \<or> ns \<noteq> [])" by blast
next
  assume "dag_ok known ns \<and> (allowEmpty \<or> ns \<noteq> [])"
  then show "validateDag allowEmpty known ns = Inr ()" by (auto intro: ok_imp_validateDag)
qed

text \<open>A diamond: \<open>d\<close> needs \<open>b\<close> and \<open>c\<close>, which both need \<open>a\<close>.\<close>

definition diamond :: "dag_node list" where
  "diamond =
     [\<lparr>cortex = ''d'', params = [], dependsOn = [''b'', ''c'']\<rparr>,
      \<lparr>cortex = ''b'', params = [], dependsOn = [''a'']\<rparr>,
      \<lparr>cortex = ''c'', params = [], dependsOn = [''a'']\<rparr>,
      \<lparr>cortex = ''a'', params = [], dependsOn = []\<rparr>]"

lemma diamond_valid: "validateDag False None diamond = Inr ()"
  by code_simp

theorem validateDag_accepts_iff_witness: "dag_ok None diamond"
  using validateDag_accepts_iff [of False None diamond] diamond_valid by simp

text \<open>A \<open>CIRCULAR_DEPENDENCY\<close> error reports a real cycle: its details list at least two
  cortices, start and end with the same one, and each listed cortex depends on the next.\<close>

theorem validateDag_reports_real_cycle:
  assumes "validateDag allowEmpty known ns = Inl (CircularDependency cyc)"
  shows "is_cycle (dep_edges ns) cyc"
  using assms by (rule validateDag_circular)

definition three_cycle :: "dag_node list" where
  "three_cycle =
     [\<lparr>cortex = ''x'', params = [], dependsOn = [''a'']\<rparr>,
      \<lparr>cortex = ''a'', params = [], dependsOn = [''b'']\<rparr>,
      \<lparr>cortex = ''b'', params = [], dependsOn = [''a'']\<rparr>]"

theorem validateDag_reports_real_cycle_witness:
  "is_cycle (dep_edges three_cycle) [''a'', ''b'', ''a'']"
proof (rule validateDag_reports_real_cycle)
  show "validateDag False None three_cycle = Inl (CircularDependency [''a'', ''b'', ''a''])"
    by code_simp
qed

text \<open>C19: On a plan that \<open>validateDag\<close> accepted, \<open>topologicalLevels\<close> never throws; its levels
  are non-empty, hold every node of the plan exactly once, and every node comes after all the
  nodes it depends on.\<close>

theorem topologicalLevels_of_validated:
  assumes "validateDag allowEmpty known ns = Inr ()"
  shows "\<exists>levels. topologicalLevels ns = Inr levels \<and> levels_ok {} levels \<and> mset (concat levels) = mset ns"
  using topologicalLevels_total [OF validateDag_imp_ok [OF assms]] .

theorem topologicalLevels_of_validated_witness:
  "\<exists>levels. topologicalLevels diamond = Inr levels \<and> levels_ok {} levels \<and> mset (concat levels) = mset diamond"
  by (rule topologicalLevels_of_validated [OF diamond_valid])

end
