(* ===== verification/Cortex.thy ===== *)
theory Cortex
  imports Prelude
begin

text \<open>
  The vocabulary of the research kernel: \<open>packages/thalamus/src/cortices/types.ts\<close>, the
  enumerations of \<open>packages/shared/src/enum\<close>, the abort helpers of
  \<open>transports/abort.ts\<close>, the finding normaliser of \<open>cortices/strategies/helpers.ts\<close>
  and the dispatcher \<open>cortices/executor.ts\<close>.
\<close>

section \<open>Enumerations\<close>

datatype finding_type = Anomaly | Trend | Forecast | Insight | FAlert | Opportunity | Strategy
datatype urgency = Low | Medium | High | Critical
datatype relation = About | Compares | CausedBy | Affects | Supports | Contradicts | SimilarTo

definition finding_types :: "(string \<times> finding_type) list" where
  [js_defs]: "finding_types =
     [(''anomaly'', Anomaly), (''trend'', Trend), (''forecast'', Forecast), (''insight'', Insight),
      (''alert'', FAlert), (''opportunity'', Opportunity), (''strategy'', Strategy)]"

definition urgencies :: "(string \<times> urgency) list" where
  [js_defs]: "urgencies = [(''low'', Low), (''medium'', Medium), (''high'', High), (''critical'', Critical)]"

definition relations :: "(string \<times> relation) list" where
  [js_defs]: "relations =
     [(''about'', About), (''compares'', Compares), (''caused_by'', CausedBy), (''affects'', Affects),
      (''supports'', Supports), (''contradicts'', Contradicts), (''similar_to'', SimilarTo)]"

section \<open>Input, findings, output\<close>

record upstream_finding =
  u_title :: string
  u_summary :: string
  u_confidence :: real

datatype lang = Fr | En
datatype cycle_mode = Investment | Audit

text \<open>The optional \<open>context\<close> has one field, so it is an optional list of upstream findings.\<close>

record cortex_input =
  i_query :: string
  i_params :: "(string, jval) jsmap"
  i_cycleId :: int
  i_lang :: "lang option"
  i_mode :: "cycle_mode option"
  i_context :: "upstream_finding list option"

record evidence =
  ev_source :: string
  ev_data :: jval
  ev_weight :: real

text \<open>
  The \<open>entityId\<close> of an edge is whatever number the language model produced, so it may be
  fractional or infinite.
\<close>

record edge =
  e_entityType :: string
  e_entityId :: jsnum
  e_relation :: relation
  e_context :: "jval option"

record finding =
  f_title :: string
  f_summary :: string
  f_type :: finding_type
  f_urgency :: urgency
  f_evidence :: "evidence list"
  f_confidence :: real
  f_impactScore :: real
  f_sourceCortex :: "string option"
  f_extensions :: "(string, jval) jsmap option"
  f_dedupKey :: "string option"
  f_edges :: "edge list"

record metadata =
  m_tokensUsed :: real
  m_promptTokens :: "real option"
  m_completionTokens :: "real option"
  m_duration :: real
  m_model :: string

record cortex_output =
  o_findings :: "finding list"
  o_metadata :: metadata

section \<open>Abort helpers\<close>

text \<open>
  The reason an aborted signal carries is an \<open>Error\<close>, a string, or anything else. Reading a
  signal gives \<open>None\<close> while it is not aborted.
\<close>

datatype abort_reason = ReasonError exn | ReasonString string | ReasonOther

type_synonym signal = "abort_reason option"

definition abortError :: "string \<Rightarrow> exn" where
  [js_defs]: "abortError reason = \<lparr>ename = ''AbortError'', emsg = reason\<rparr>"

definition abortSignalReason :: "abort_reason \<Rightarrow> exn" where
  [js_defs]: "abortSignalReason r =
     (case r of ReasonError e \<Rightarrow> e
      | ReasonString s \<Rightarrow> abortError s
      | ReasonOther \<Rightarrow> abortError ''Operation aborted'')"

definition throwIfAborted :: "signal \<Rightarrow> unit throws" where
  [js_defs]: "throwIfAborted sig = (case sig of None \<Rightarrow> Inr () | Some r \<Rightarrow> Inl (abortSignalReason r))"

definition isAbortError :: "exn \<Rightarrow> bool" where
  [js_defs]: "isAbortError e =
     (ename e = ''AbortError'' \<or> js_includes ''aborted'' (to_lower (emsg e)) \<or>
      js_includes ''abort'' (to_lower (emsg e)))"

text \<open>
  \<open>abortableDelay\<close>: the signal when the delay starts, and whether it fires before the timer.
\<close>

definition abortableDelay :: "signal \<Rightarrow> signal \<Rightarrow> unit throws" where
  [js_defs]: "abortableDelay before during =
     (case throwIfAborted before of
        Inl e \<Rightarrow> Inl e
      | Inr _ \<Rightarrow> (case during of None \<Rightarrow> Inr () | Some r \<Rightarrow> Inl (abortSignalReason r)))"

lemma throwIfAborted_None [simp]: "throwIfAborted None = Inr ()"
  by (simp add: throwIfAborted_def)

lemma isAbortError_abortError [simp]: "isAbortError (abortError s)"
  by (simp add: isAbortError_def abortError_def)

section \<open>Conversion of values to numbers\<close>

definition is_digit :: "char \<Rightarrow> bool" where
  [js_defs]: "is_digit c = (48 \<le> (of_char c :: nat) \<and> (of_char c :: nat) \<le> 57)"

definition digits_value :: "string \<Rightarrow> nat" where
  [js_defs]: "digits_value ds = foldl (\<lambda>n c. 10 * n + ((of_char c :: nat) - 48)) 0 ds"

text \<open>An optional sign.\<close>

fun split_sign :: "string \<Rightarrow> bool \<times> string" where
  "split_sign [] = (False, [])"
| "split_sign (c # cs) =
     (if c = CHR ''-'' then (True, cs) else if c = CHR ''+'' then (False, cs) else (False, c # cs))"

text \<open>The exponent part: nothing, or \<open>e\<close>, a sign and digits.\<close>

fun parse_exponent :: "string \<Rightarrow> int option" where
  "parse_exponent [] = Some 0"
| "parse_exponent (c # cs) =
     (if c = CHR ''e'' \<or> c = CHR ''E''
      then (let (neg, ds) = split_sign cs in
            if ds \<noteq> [] \<and> list_all is_digit ds
            then Some (if neg then - int (digits_value ds) else int (digits_value ds))
            else None)
      else None)"

definition scale10 :: "real \<Rightarrow> int \<Rightarrow> real" where
  [js_defs]: "scale10 x e = (if 0 \<le> e then x * 10 ^ nat e else x / 10 ^ nat (- e))"

text \<open>Literals with a radix prefix: \<open>0x\<close>, \<open>0o\<close>, \<open>0b\<close> and at least one digit.\<close>

definition digit_in :: "nat \<Rightarrow> char \<Rightarrow> nat option" where
  [js_defs]: "digit_in base c =
     (let n = (of_char c :: nat);
          d = (if 48 \<le> n \<and> n \<le> 57 then n - 48
               else if 97 \<le> n \<and> n \<le> 102 then n - 87
               else if 65 \<le> n \<and> n \<le> 70 then n - 55 else 99)
      in if d < base then Some d else None)"

fun radix_digits :: "nat \<Rightarrow> nat \<Rightarrow> string \<Rightarrow> nat option" where
  "radix_digits base acc [] = Some acc"
| "radix_digits base acc (c # cs) =
     (case digit_in base c of None \<Rightarrow> None | Some d \<Rightarrow> radix_digits base (base * acc + d) cs)"

definition radix_of :: "char \<Rightarrow> nat option" where
  [js_defs]: "radix_of c =
     (if c \<in> {CHR ''x'', CHR ''X''} then Some 16
      else if c \<in> {CHR ''o'', CHR ''O''} then Some 8
      else if c \<in> {CHR ''b'', CHR ''B''} then Some 2 else None)"

fun radix_literal :: "string \<Rightarrow> jsnum option" where
  "radix_literal (z # p # c # cs) =
     (if z = CHR ''0''
      then (case radix_of p of
              None \<Rightarrow> None
            | Some b \<Rightarrow> (case radix_digits b 0 (c # cs) of None \<Rightarrow> None | Some n \<Rightarrow> Some (Fin (real n))))
      else None)"
| "radix_literal _ = None"

text \<open>
  \<open>Number(s)\<close> on a string: white space is trimmed, the empty string is 0, then a literal with
  a radix prefix, \<open>Infinity\<close> or a decimal literal; anything else is \<open>NaN\<close>.
\<close>

definition decimal_literal :: "string \<Rightarrow> jsnum" where
  [js_defs]: "decimal_literal t =
     (let (neg, u) = split_sign t;
          ds = takeWhile is_digit u;
          r = dropWhile is_digit u;
          (fs, r') = (case r of c # cs \<Rightarrow> if c = CHR ''.'' then (takeWhile is_digit cs, dropWhile is_digit cs)
                                         else ([], r)
                      | [] \<Rightarrow> ([], []))
      in if u = ''Infinity'' then (if neg then NegInf else PosInf)
         else if ds = [] \<and> fs = [] then NaN
         else (case parse_exponent r' of
                 None \<Rightarrow> NaN
               | Some e \<Rightarrow>
                   (let v = scale10 (real (digits_value (ds @ fs))) (e - int (length fs))
                    in Fin (if neg then - v else v))))"

definition number_of_string :: "string \<Rightarrow> jsnum" where
  [js_defs]: "number_of_string s =
     (let t = trim s in
      if t = [] then Fin 0
      else (case radix_literal t of Some n \<Rightarrow> n | None \<Rightarrow> decimal_literal t))"

text \<open>
  \<open>Number(v)\<close>. An array is converted through its string: no elements is the empty string,
  one element is the string of that element, and two or more contain a comma.
\<close>

fun to_number :: "jval \<Rightarrow> jsnum" where
  "to_number JUndef = NaN"
| "to_number JNull = Fin 0"
| "to_number (JBool b) = Fin (if b then 1 else 0)"
| "to_number (JNum x) = Fin x"
| "to_number (JBig n) = Fin (of_int n)"
| "to_number (JStr s) = number_of_string s"
| "to_number (JArr []) = Fin 0"
| "to_number (JArr [v]) =
     (case v of JUndef \<Rightarrow> Fin 0 | JNull \<Rightarrow> Fin 0 | JBool _ \<Rightarrow> NaN | JObj _ \<Rightarrow> NaN | _ \<Rightarrow> to_number v)"
| "to_number (JArr (v # w # vs)) = NaN"
| "to_number (JObj fs) = NaN"

section \<open>normalizeFinding\<close>

record raw_edge =
  re_entityType :: jval
  re_entityId :: jval
  re_relation :: jval
  re_context :: "jval option"

record raw_finding =
  r_title :: "string option"
  r_summary :: "string option"
  r_type :: jval
  r_urgency :: jval
  r_evidence :: "evidence list option"
  r_confidence :: jval
  r_impactScore :: jval
  r_extensions :: "(string, jval) jsmap option"
  r_dedupKey :: "string option"
  r_edges :: "raw_edge list option"

definition empty_raw :: raw_finding where
  "empty_raw = \<lparr>r_title = None, r_summary = None, r_type = JUndef, r_urgency = JUndef,
     r_evidence = None, r_confidence = JUndef, r_impactScore = JUndef, r_extensions = None,
     r_dedupKey = None, r_edges = None\<rparr>"

definition safeNumber :: "jval \<Rightarrow> real \<Rightarrow> real" where
  [js_defs]: "safeNumber val fallback = (case to_number val of Fin n \<Rightarrow> n | _ \<Rightarrow> fallback)"

definition validateEnum :: "jval \<Rightarrow> (string \<times> 'e) list \<Rightarrow> 'e \<Rightarrow> 'e" where
  [js_defs]: "validateEnum val enumObj fallback =
     (case val of JStr s \<Rightarrow> (case map_of enumObj s of Some e \<Rightarrow> e | None \<Rightarrow> fallback) | _ \<Rightarrow> fallback)"

definition normalize_edge :: "raw_edge \<Rightarrow> edge" where
  "normalize_edge e =
     \<lparr>e_entityType = (case re_entityType e of JStr s \<Rightarrow> if s \<noteq> [] then s else ''unknown'' | _ \<Rightarrow> ''unknown''),
      e_entityId = (case to_number (re_entityId e) of NaN \<Rightarrow> Fin 0 | n \<Rightarrow> n),
      e_relation = validateEnum (re_relation e) relations About,
      e_context = re_context e\<rparr>"

definition normalizeFinding :: "raw_finding option \<Rightarrow> string \<Rightarrow> finding" where
  "normalizeFinding raw0 cortexName =
     (let raw = (case raw0 of None \<Rightarrow> empty_raw | Some r \<Rightarrow> r) in
      \<lparr>f_title = (case r_title raw of Some t \<Rightarrow> t | None \<Rightarrow> ''Untitled finding''),
       f_summary = (case r_summary raw of Some t \<Rightarrow> t | None \<Rightarrow> ''''),
       f_type = validateEnum (r_type raw) finding_types Insight,
       f_urgency = validateEnum (r_urgency raw) urgencies Medium,
       f_evidence = (case r_evidence raw of Some es \<Rightarrow> es | None \<Rightarrow> []),
       f_confidence = clamp (safeNumber (r_confidence raw) (1 / 2)) 0 1,
       f_impactScore = clamp (safeNumber (r_impactScore raw) 5) 0 10,
       f_sourceCortex = Some cortexName,
       f_extensions = r_extensions raw,
       f_dedupKey = r_dedupKey raw,
       f_edges = (case r_edges raw of Some es \<Rightarrow> map normalize_edge es | None \<Rightarrow> [])\<rparr>)"

text \<open>What every finding that went through the normaliser satisfies.\<close>

definition finding_ok :: "finding \<Rightarrow> bool" where
  "finding_ok f \<longleftrightarrow>
     0 \<le> f_confidence f \<and> f_confidence f \<le> 1 \<and> 0 \<le> f_impactScore f \<and> f_impactScore f \<le> 10 \<and>
     f_sourceCortex f \<noteq> None \<and> (\<forall>e \<in> set (f_edges f). e_entityType e \<noteq> [] \<and> e_entityId e \<noteq> NaN)"

lemma normalizeFinding_ok [inv_rules]: "finding_ok (normalizeFinding raw c)"
proof -
  have "e_entityType (normalize_edge e) \<noteq> [] \<and> e_entityId (normalize_edge e) \<noteq> NaN" for e
    by (auto simp: normalize_edge_def split: jval.splits jsnum.splits)
  then show ?thesis
    using clamp_bounds [of 0 1] clamp_bounds [of 0 10]
    by (auto simp: finding_ok_def normalizeFinding_def Let_def split: option.splits)
qed

section \<open>Skills and dispatch\<close>

record skill =
  s_name :: string
  s_description :: string
  s_sqlHelper :: string
  s_params :: "(string, string) jsmap"
  s_body :: string
  s_filePath :: string

type_synonym registry = "(string, skill) jsmap"

definition reg_get :: "registry \<Rightarrow> string \<Rightarrow> skill option" where
  [js_defs]: "reg_get reg n = map_of reg n"

definition reg_has :: "registry \<Rightarrow> string \<Rightarrow> bool" where
  [js_defs]: "reg_has reg n = (n \<in> fst ` set reg)"

definition reg_names :: "registry \<Rightarrow> string list" where
  [js_defs]: "reg_names reg = map fst reg"

definition emptyOutput :: cortex_output where
  "emptyOutput =
     \<lparr>o_findings = [],
      o_metadata = \<lparr>m_tokensUsed = 0, m_promptTokens = None, m_completionTokens = None,
                     m_duration = 0, m_model = ''none''\<rparr>\<rparr>"

text \<open>
  \<open>CortexExecutor.execute\<close>. The strategies are an argument: each is its \<open>canHandle\<close> test and
  its pipeline, which may throw.
\<close>

type_synonym exec_strategy = "(string \<Rightarrow> bool) \<times> (skill \<Rightarrow> cortex_input \<Rightarrow> cortex_output throws)"

definition cortex_execute ::
  "string list \<Rightarrow> (string, bool option) jsmap \<Rightarrow> registry \<Rightarrow> exec_strategy list \<Rightarrow>
   string \<Rightarrow> cortex_input \<Rightarrow> cortex_output throws" where
  "cortex_execute disabledCortices enabledOverrides reg strategies cortexName input =
     (if cortexName \<in> set disabledCortices \<or> map_of enabledOverrides cortexName = Some (Some False)
      then Inr emptyOutput
      else (case reg_get reg cortexName of
              None \<Rightarrow> Inr emptyOutput
            | Some sk \<Rightarrow>
                (case List.find (\<lambda>s. fst s cortexName) strategies of
                   None \<Rightarrow> Inr emptyOutput
                 | Some strategy \<Rightarrow> snd strategy sk input)))"

lemma reg_has_get: "reg_has reg n \<longleftrightarrow> reg_get reg n \<noteq> None"
  by (auto simp: reg_has_def reg_get_def map_of_eq_None_iff)

lemma reg_names_has: "n \<in> set (reg_names reg) \<longleftrightarrow> reg_has reg n"
  by (simp add: reg_names_def reg_has_def)

end
