(* ===== verification/Budget.thy ===== *)
theory Budget
  imports Dag Cortex
begin

text \<open>
  The pure parts of the research loop: \<open>services/cost-estimator.ts\<close>,
  \<open>services/stop-criteria.service.ts\<close> with \<open>noveltyThreshold\<close> of \<open>cortices/config.ts\<close>, and
  \<open>services/thalamus-reflexion.service.ts\<close>.
\<close>

section \<open>Cost estimate\<close>

record pricing =
  promptUsdPerMillion :: real
  completionUsdPerMillion :: real

definition TOKENS_PER_MILLION :: real where "TOKENS_PER_MILLION = 1000000"
definition DEFAULT_PROMPT_SHARE :: real where "DEFAULT_PROMPT_SHARE = 3 / 4"
definition LEGACY_FLAT_USD_PER_MILLION :: real where "LEGACY_FLAT_USD_PER_MILLION = 2"

definition mk_pricing :: "real \<Rightarrow> real \<Rightarrow> pricing" where
  "mk_pricing p c = \<lparr>promptUsdPerMillion = p, completionUsdPerMillion = c\<rparr>"

definition openAiPricingForModel :: "string \<Rightarrow> pricing" where
  "openAiPricingForModel model =
     (if js_includes ''nano'' model then mk_pricing (5 / 100) (4 / 10)
      else if js_includes ''mini'' model then mk_pricing (4 / 10) (16 / 10)
      else mk_pricing (125 / 100) 10)"

definition pricingForModel :: "string \<Rightarrow> pricing" where
  "pricingForModel model =
     (let normalized = to_lower model in
      if normalized = ''none'' \<or> normalized = ''disabled'' \<or> normalized = ''error'' \<or>
         ends_with '':invalid'' normalized
      then mk_pricing 0 0
      else if js_includes ''local'' normalized then mk_pricing 0 0
      else if js_includes ''kimi'' normalized then mk_pricing (6 / 10) (25 / 10)
      else if js_includes ''minimax'' normalized then mk_pricing (3 / 10) (12 / 10)
      else if js_includes ''openai'' normalized \<or> js_includes ''gpt-'' normalized
      then openAiPricingForModel normalized
      else mk_pricing LEGACY_FLAT_USD_PER_MILLION LEGACY_FLAT_USD_PER_MILLION)"

definition nonneg_part :: "real option \<Rightarrow> real option" where
  "nonneg_part x = (case x of Some t \<Rightarrow> if t \<ge> 0 then Some t else None | None \<Rightarrow> None)"

text \<open>Prompt and completion tokens.\<close>

definition tokenSplit :: "real \<Rightarrow> real option \<Rightarrow> real option \<Rightarrow> real \<times> real" where
  "tokenSplit tokens promptTokens completionTokens =
     (case (nonneg_part promptTokens, nonneg_part completionTokens) of
        (Some p, Some c) \<Rightarrow> (p, c)
      | (Some p, None) \<Rightarrow> (p, max 0 (tokens - p))
      | (None, Some c) \<Rightarrow> (max 0 (tokens - c), c)
      | (None, None) \<Rightarrow>
          (let p = of_int (js_round (tokens * DEFAULT_PROMPT_SHARE)) in (p, max 0 (tokens - p))))"

definition estimateCortexOutputCostUsd :: "cortex_output \<Rightarrow> real" where
  "estimateCortexOutputCostUsd out =
     (let meta = o_metadata out; tokens = max 0 (m_tokensUsed meta) in
      if tokens = 0 then 0
      else (let pricing = pricingForModel (m_model meta) in
            if promptUsdPerMillion pricing = 0 \<and> completionUsdPerMillion pricing = 0 then 0
            else (let (p, c) = tokenSplit tokens (m_promptTokens meta) (m_completionTokens meta)
                  in (p * promptUsdPerMillion pricing + c * completionUsdPerMillion pricing) / TOKENS_PER_MILLION)))"

lemma mk_pricing_simps [simp]:
  "promptUsdPerMillion (mk_pricing p c) = p" "completionUsdPerMillion (mk_pricing p c) = c"
  by (simp_all add: mk_pricing_def)

lemma pricing_bounds:
  "0 \<le> promptUsdPerMillion (pricingForModel m)" "0 \<le> completionUsdPerMillion (pricingForModel m)"
  "promptUsdPerMillion (pricingForModel m) \<le> 2" "completionUsdPerMillion (pricingForModel m) \<le> 10"
  by (auto simp: pricingForModel_def openAiPricingForModel_def Let_def LEGACY_FLAT_USD_PER_MILLION_def)

lemma tokenSplit_nonneg:
  "0 \<le> tokens \<Longrightarrow> 0 \<le> fst (tokenSplit tokens p c) \<and> 0 \<le> snd (tokenSplit tokens p c)"
proof -
  assume "0 \<le> tokens"
  then have "js_round 0 \<le> js_round (tokens * DEFAULT_PROMPT_SHARE)"
    by (intro js_round_mono) (simp add: DEFAULT_PROMPT_SHARE_def)
  moreover have "js_round 0 = 0" using js_round_of_int [of 0] by simp
  ultimately show ?thesis
    by (auto simp: tokenSplit_def nonneg_part_def Let_def split: option.splits)
qed

lemma estimate_nonneg: "0 \<le> estimateCortexOutputCostUsd out"
  using tokenSplit_nonneg [of "max 0 (m_tokensUsed (o_metadata out))"]
    pricing_bounds [of "m_model (o_metadata out)"]
  by (auto simp: estimateCortexOutputCostUsd_def Let_def TOKENS_PER_MILLION_def split: prod.splits
      intro!: add_nonneg_nonneg mult_nonneg_nonneg) (metis fst_conv snd_conv)+

text \<open>With no token split reported, the whole count is charged, each part at its own price.\<close>

lemma tokenSplit_default_sum:
  assumes "0 \<le> tokens"
  shows "fst (tokenSplit tokens None None) + snd (tokenSplit tokens None None) \<le> tokens + 1"
proof -
  have "real_of_int (js_round (tokens * DEFAULT_PROMPT_SHARE)) \<le> tokens * DEFAULT_PROMPT_SHARE + 1 / 2"
    using js_round_error [of "tokens * DEFAULT_PROMPT_SHARE"] by linarith
  then show ?thesis using assms
    by (auto simp: tokenSplit_def nonneg_part_def Let_def DEFAULT_PROMPT_SHARE_def max_def)
qed

section \<open>Stop criteria\<close>

record iteration_budget =
  b_maxIterations :: int
  b_maxCost :: real
  b_confidenceTarget :: real
  b_coverageTarget :: real
  b_minFindingsToStop :: real

text \<open>The constants of \<open>THALAMUS_CONFIG.loop\<close> that the loop reads.\<close>

definition maxIterationsPerChain :: int where "maxIterationsPerChain = 10"
definition maxCostPerChain :: real where "maxCostPerChain = 1 / 10"
definition consecutiveZeroStop :: nat where "consecutiveZeroStop = 2"
definition GAP_PLATEAU_STOP :: nat where "GAP_PLATEAU_STOP = 2"

definition noveltyThreshold :: "real \<Rightarrow> real" where
  "noveltyThreshold iteration = 3 / 10 + 2 / 10 * exp (- (1 / 2) * iteration)"

text \<open>The exponential has no code equation; evaluation leaves the threshold as it is.\<close>

declare noveltyThreshold_def [code del]

text \<open>The reasons of \<open>StopDecision\<close> together with those the loop adds itself.\<close>

datatype stop_reason =
    Completed
  | ConsecutiveZeroRuns
  | CostExhausted
  | EagernessSatisfied
  | GapPlateau
  | ReflexionSufficient
  | MaxIterations

record stop_state =
  st_iteration :: nat
  st_totalCost :: real
  st_maxCost :: real
  st_consecutiveZeroRuns :: nat
  st_consecutiveIdenticalGaps :: nat
  st_allFindings :: "finding list"
  st_kept :: "finding list"
  st_plan :: dag_plan
  st_budget :: iteration_budget

record stop_metrics =
  sm_avgConfidence :: real
  sm_coverageRatio :: real
  sm_noveltyRatio :: real
  sm_noveltyThreshold :: real
  sm_corticesWithFindings :: nat
  sm_totalCorticesInPlan :: nat
  sm_novelFindings :: nat

definition avgConfidence :: "finding list \<Rightarrow> real" where
  "avgConfidence fs = (if fs = [] then 0 else sum_list (map f_confidence fs) / real (length fs))"

definition title_key :: "finding \<Rightarrow> string" where
  "title_key f = take 40 (to_lower (f_title f))"

text \<open>\<open>allFindings.slice(0, -kept.length || 0)\<close>: nothing at all when nothing was kept.\<close>

definition previous_findings :: "finding list \<Rightarrow> finding list \<Rightarrow> finding list" where
  "previous_findings allFindings kept =
     (if kept = [] then [] else take (length allFindings - length kept) allFindings)"

definition stop_metrics_of :: "stop_state \<Rightarrow> stop_metrics" where
  "stop_metrics_of s =
     (let allF = st_allFindings s; kept = st_kept s;
          withF = length (jset_of (map (\<lambda>f. case f_sourceCortex f of Some c \<Rightarrow> c | None \<Rightarrow> ''unknown'') allF));
          total = length (jset_of (map cortex (nodes (st_plan s))));
          prevTitles = jset_of (map title_key (previous_findings allF kept));
          novel = length (filter (\<lambda>f. title_key f \<notin> set prevTitles) kept)
      in \<lparr>sm_avgConfidence = avgConfidence allF,
          sm_coverageRatio = (if total > 0 then real withF / real total else 0),
          sm_noveltyRatio = (if length kept > 0 then real novel / real (length kept) else 0),
          sm_noveltyThreshold = noveltyThreshold (real (st_iteration s)),
          sm_corticesWithFindings = withF,
          sm_totalCorticesInPlan = total,
          sm_novelFindings = novel\<rparr>)"

definition eagernessSatisfied :: "stop_state \<Rightarrow> stop_metrics \<Rightarrow> bool" where
  "eagernessSatisfied s mt =
     (sm_avgConfidence mt \<ge> b_confidenceTarget (st_budget s) \<and>
      real (length (st_allFindings s)) \<ge> b_minFindingsToStop (st_budget s) \<and>
      sm_coverageRatio mt \<ge> b_coverageTarget (st_budget s) \<and>
      sm_noveltyRatio mt < sm_noveltyThreshold mt)"

text \<open>The reason to stop, if any, and the metrics, which only the last step computes.\<close>

definition shouldStop :: "stop_state \<Rightarrow> stop_reason option \<times> stop_metrics option" where
  "shouldStop s =
     (if st_consecutiveZeroRuns s \<ge> consecutiveZeroStop then (Some ConsecutiveZeroRuns, None)
      else if st_totalCost s \<ge> st_maxCost s then (Some CostExhausted, None)
      else if st_consecutiveIdenticalGaps s \<ge> GAP_PLATEAU_STOP then (Some GapPlateau, None)
      else (let mt = stop_metrics_of s in
            (if eagernessSatisfied s mt then Some EagernessSatisfied else None, Some mt)))"

lemma noveltyThreshold_strict: "x < y \<Longrightarrow> noveltyThreshold y < noveltyThreshold x"
  by (simp add: noveltyThreshold_def)

lemma noveltyThreshold_bounds:
  assumes "0 \<le> x" shows "3 / 10 < noveltyThreshold x \<and> noveltyThreshold x \<le> 1 / 2"
proof -
  have "0 < exp (- (1 / 2) * x)" "exp (- (1 / 2) * x) \<le> 1" using assms by simp_all
  then show ?thesis unfolding noveltyThreshold_def by linarith
qed

lemma shouldStop_zero: "consecutiveZeroStop \<le> st_consecutiveZeroRuns s \<Longrightarrow> fst (shouldStop s) = Some ConsecutiveZeroRuns"
  by (simp add: shouldStop_def)

lemma shouldStop_reasons:
  "fst (shouldStop s) = Some r \<Longrightarrow>
   r = ConsecutiveZeroRuns \<and> 2 \<le> st_consecutiveZeroRuns s \<or>
   r = CostExhausted \<and> st_maxCost s \<le> st_totalCost s \<or>
   r = GapPlateau \<and> 2 \<le> st_consecutiveIdenticalGaps s \<or> r = EagernessSatisfied"
  by (auto simp: shouldStop_def Let_def consecutiveZeroStop_def GAP_PLATEAU_STOP_def split: if_splits)

section \<open>Reflexion\<close>

text \<open>The object \<open>reflexionSchema\<close> describes.\<close>

record reflexion_result =
  rr_replan :: bool
  rr_notes :: string
  rr_gaps :: "string list option"
  rr_overallConfidence :: real

text \<open>
  \<open>evaluate\<close> (the dash in its two fixed notes is written in ASCII): \<open>response\<close> is the reply of the language model to the reflexion prompt, and
  \<open>parseJson\<close> reads it against \<open>reflexionSchema\<close>. The prompt text is left out.
\<close>

definition reflexion_evaluate ::
  "(string \<Rightarrow> reflexion_result throws) \<Rightarrow> string throws \<Rightarrow> finding list \<Rightarrow> finding list \<Rightarrow> reflexion_result throws" where
  "reflexion_evaluate parseJson response rawFindings keptFindings =
     (if rawFindings = []
      then Inr \<lparr>rr_replan = False, rr_notes = ''No findings produced - nothing to evaluate'',
                rr_gaps = None, rr_overallConfidence = 0\<rparr>
      else (case (case response of Inl e \<Rightarrow> Inl e | Inr content \<Rightarrow> parseJson content) of
              Inr result \<Rightarrow> Inr result
            | Inl err \<Rightarrow>
                if isAbortError err then Inl err
                else Inr \<lparr>rr_replan = False, rr_notes = ''Reflexion failed - approving findings as-is'',
                          rr_gaps = None, rr_overallConfidence = avgConfidence keptFindings\<rparr>))"

lemma avgConfidence_bounds:
  assumes "\<forall>f \<in> set fs. 0 \<le> f_confidence f \<and> f_confidence f \<le> 1"
  shows "0 \<le> avgConfidence fs \<and> avgConfidence fs \<le> 1"
proof (cases "fs = []")
  case False
  have "0 \<le> sum_list (map f_confidence fs)" using assms by (intro sum_list_nonneg) auto
  moreover have "sum_list (map f_confidence fs) \<le> sum_list (map (\<lambda>_. 1) fs)"
    using assms by (intro sum_list_mono) auto
  ultimately show ?thesis using False by (simp add: avgConfidence_def sum_list_triv)
qed (simp add: avgConfidence_def)

lemma reflexion_evaluate_bounds:
  assumes "reflexion_evaluate parseJson response raw kept = Inr r"
    and "\<And>s q. parseJson s = Inr q \<Longrightarrow> 0 \<le> rr_overallConfidence q \<and> rr_overallConfidence q \<le> 1"
    and "\<forall>f \<in> set kept. 0 \<le> f_confidence f \<and> f_confidence f \<le> 1"
  shows "0 \<le> rr_overallConfidence r \<and> rr_overallConfidence r \<le> 1"
  using assms(1) avgConfidence_bounds [OF assms(3)] assms(2)
  by (auto simp: reflexion_evaluate_def split: if_splits sum.splits)

end
