(* ===== verification/Executor.thy ===== *)
theory Executor
  imports Dag Cortex
begin

text \<open>
  \<open>packages/thalamus/src/services/thalamus-executor.service.ts\<close>: the adaptive timeout of a
  cortex, the execution of one node and of a whole plan, level by level.

  The environment of a run is explicit: what the abort signal reads at each of the points
  where the code looks at it (\<open>checkpoint\<close>), and which of the racing promises settles first
  for a cortex (\<open>race\<close>). Durations and log lines are left out.
\<close>

section \<open>computeTimeout\<close>

record planner_model_cfg =
  pm_provider :: string
  pm_model :: string
  pm_reasoningEffort :: string
  pm_thinking :: bool

record cortex_override =
  co_callTimeoutMs :: "real option"
  co_provider :: "string option"
  co_model :: "string option"
  co_reasoningEffort :: "string option"
  co_thinking :: "bool option"

definition CORTEX_TIMEOUT_OVERRIDES :: "(string, real) jsmap" where
  "CORTEX_TIMEOUT_OVERRIDES = [(''payload_profiler'', 180000)]"

definition no_override :: cortex_override where
  "no_override = \<lparr>co_callTimeoutMs = None, co_provider = None, co_model = None,
     co_reasoningEffort = None, co_thinking = None\<rparr>"

text \<open>\<open>a ?? b\<close>.\<close>

definition or_else :: "'a option \<Rightarrow> 'a \<Rightarrow> 'a" where
  [js_defs]: "or_else a b = (case a of Some x \<Rightarrow> x | None \<Rightarrow> b)"

definition timeout_mult :: "string \<Rightarrow> string \<Rightarrow> string \<Rightarrow> bool \<Rightarrow> real" where
  "timeout_mult effort provider model thinking =
     (let m0 = (if effort = ''xhigh'' then 6 else if effort = ''high'' then 3
                else if effort = ''medium'' then 3 / 2 else 1);
          m1 = (if provider = ''minimax'' then max m0 3 else m0);
          m2 = (if thinking then max m1 3 else m1)
      in if starts_with ''local/'' model then max m2 2 else m2)"

definition adaptiveTimeout :: "string \<Rightarrow> real \<Rightarrow> planner_model_cfg \<Rightarrow> cortex_override \<Rightarrow> real" where
  "adaptiveTimeout cortexName baseMs plannerCfg ovr =
     (case map_of CORTEX_TIMEOUT_OVERRIDES cortexName of
        Some staticOverride \<Rightarrow> staticOverride
      | None \<Rightarrow> of_int (js_round (baseMs * timeout_mult
           (or_else (co_reasoningEffort ovr) (pm_reasoningEffort plannerCfg))
           (or_else (co_provider ovr) (pm_provider plannerCfg))
           (or_else (co_model ovr) (pm_model plannerCfg))
           (or_else (co_thinking ovr) (pm_thinking plannerCfg)))))"

definition computeTimeout ::
  "string \<Rightarrow> real \<Rightarrow> planner_model_cfg \<Rightarrow> cortex_override option \<Rightarrow> real" where
  "computeTimeout cortexName baseMs plannerCfg cortexOverride =
     (let ovr = or_else cortexOverride no_override in
      case co_callTimeoutMs ovr of
        Some t \<Rightarrow> if t > 0 then t else adaptiveTimeout cortexName baseMs plannerCfg ovr
      | None \<Rightarrow> adaptiveTimeout cortexName baseMs plannerCfg ovr)"

lemma timeout_mult_bounds: "1 \<le> timeout_mult e p m t \<and> timeout_mult e p m t \<le> 6"
  by (auto simp: timeout_mult_def Let_def)

section \<open>One node\<close>

text \<open>
  The first promise of the race to settle: the cortex itself, the timer, or the abort of the
  parent signal.
\<close>

datatype race = Settled "cortex_output throws" | TimedOut | ParentAborted abort_reason

datatype exec_error = DagError dag_error | Thrown exn

datatype checkpoint = AtStart | BeforeLevel nat | AtNode string | AfterLevel nat

record exec_config =
  ec_cortexTimeoutMs :: real
  ec_planner :: planner_model_cfg
  ec_overrides :: "(string, cortex_override) jsmap"

record exec_env =
  ev_signal :: "checkpoint \<Rightarrow> signal"
  ev_config :: exec_config
  ev_race :: "string \<Rightarrow> cortex_input \<Rightarrow> real \<Rightarrow> race"

record run_ctx =
  rc_cycleId :: int
  rc_lang :: "lang option"
  rc_mode :: "cycle_mode option"
  rc_userId :: "int option"

type_synonym outputs = "(string, cortex_output) jsmap"

definition upstream_of :: "finding \<Rightarrow> upstream_finding" where
  "upstream_of f = \<lparr>u_title = f_title f, u_summary = f_summary f, u_confidence = f_confidence f\<rparr>"

definition previousFindings :: "(string \<Rightarrow> cortex_output option) \<Rightarrow> dag_node \<Rightarrow> upstream_finding list" where
  "previousFindings upstreamOutputs node =
     concat (map (\<lambda>dep. case upstreamOutputs dep of
                          None \<Rightarrow> []
                        | Some out \<Rightarrow> map upstream_of (o_findings out)) (dependsOn node))"

definition param_undefined :: "(string, jval) jsmap \<Rightarrow> string \<Rightarrow> bool" where
  "param_undefined ps k = (case map_of ps k of None \<Rightarrow> True | Some JUndef \<Rightarrow> True | _ \<Rightarrow> False)"

definition node_input :: "run_ctx \<Rightarrow> string \<Rightarrow> (string \<Rightarrow> cortex_output option) \<Rightarrow> dag_node \<Rightarrow> cortex_input" where
  "node_input ctx query upstreamOutputs node =
     (let prev = previousFindings upstreamOutputs node in
      \<lparr>i_query = query,
       i_params = (case rc_userId ctx of
                     Some u \<Rightarrow> if param_undefined (params node) ''userId''
                               then AList.update ''userId'' (JBig u) (params node) else params node
                   | None \<Rightarrow> params node),
       i_cycleId = rc_cycleId ctx,
       i_lang = rc_lang ctx,
       i_mode = rc_mode ctx,
       i_context = (if length prev > 0 then Some prev else None)\<rparr>)"

text \<open>
  The message of the timeout error is ``Cortex x timed out after n ms''; the number is not
  rendered here. Its name is \<open>AbortError\<close>.
\<close>

definition timeout_error :: "string \<Rightarrow> exn" where
  "timeout_error c = \<lparr>ename = ''AbortError'', emsg = ''Cortex '' @ c @ '' timed out''\<rparr>"

definition executeNode ::
  "exec_env \<Rightarrow> run_ctx \<Rightarrow> string \<Rightarrow> (string \<Rightarrow> cortex_output option) \<Rightarrow> dag_node \<Rightarrow> cortex_output throws" where
  "executeNode env ctx query upstreamOutputs node =
     (case throwIfAborted (ev_signal env (AtNode (cortex node))) of
        Inl e \<Rightarrow> Inl e
      | Inr _ \<Rightarrow>
          (let input = node_input ctx query upstreamOutputs node;
               timeout = computeTimeout (cortex node) (ec_cortexTimeoutMs (ev_config env))
                           (ec_planner (ev_config env)) (map_of (ec_overrides (ev_config env)) (cortex node))
           in case ev_race env (cortex node) input timeout of
                Settled r \<Rightarrow> r
              | TimedOut \<Rightarrow> Inl (timeout_error (cortex node))
              | ParentAborted r \<Rightarrow> Inl (abortSignalReason r)))"

section \<open>A plan\<close>

definition error_output :: cortex_output where
  "error_output =
     \<lparr>o_findings = [],
      o_metadata = \<lparr>m_tokensUsed = 0, m_promptTokens = None, m_completionTokens = None,
                     m_duration = 0, m_model = ''error''\<rparr>\<rparr>"

text \<open>Lines 151 to 169: the settled results of a level, in the order of the level.\<close>

fun collect :: "bool \<Rightarrow> (dag_node \<times> cortex_output throws) list \<Rightarrow> outputs \<Rightarrow> outputs throws" where
  "collect aborted [] outputs = Inr outputs"
| "collect aborted ((node, result) # rs) outputs =
     (case result of
        Inr out \<Rightarrow> collect aborted rs (AList.update (cortex node) out outputs)
      | Inl e \<Rightarrow> if aborted \<and> isAbortError e then Inl e
                 else collect aborted rs (AList.update (cortex node) error_output outputs))"

text \<open>
  Lines 125 to 170. All nodes of a level start from the outputs of the earlier levels; the
  results are only collected after all of them settled.
\<close>

fun run_levels :: "exec_env \<Rightarrow> run_ctx \<Rightarrow> string \<Rightarrow> nat \<Rightarrow> dag_node list list \<Rightarrow> outputs \<Rightarrow> outputs throws" where
  "run_levels env ctx query i [] outputs = Inr outputs"
| "run_levels env ctx query i (level # levels) outputs =
     (case throwIfAborted (ev_signal env (BeforeLevel i)) of
        Inl e \<Rightarrow> Inl e
      | Inr _ \<Rightarrow>
          (let results = map (\<lambda>node. (node, executeNode env ctx query (map_of outputs) node)) level in
           case throwIfAborted (ev_signal env (AfterLevel i)) of
             Inl e \<Rightarrow> Inl e
           | Inr _ \<Rightarrow>
               (case collect (ev_signal env (AfterLevel i) \<noteq> None) results outputs of
                  Inl e \<Rightarrow> Inl e
                | Inr outputs' \<Rightarrow> run_levels env ctx query (Suc i) levels outputs')))"

text \<open>
  \<open>knownCortices\<close> is what the executor answers, or \<open>None\<close> when it has no such method or the
  call throws.
\<close>

definition execute :: "exec_env \<Rightarrow> string list option \<Rightarrow> dag_plan \<Rightarrow> run_ctx \<Rightarrow> exec_error + outputs" where
  "execute env knownCortices plan ctx =
     (case throwIfAborted (ev_signal env AtStart) of
        Inl e \<Rightarrow> Inl (Thrown e)
      | Inr _ \<Rightarrow>
          (case validateDag False (map_option set knownCortices) (nodes plan) of
             Inl e \<Rightarrow> Inl (DagError e)
           | Inr _ \<Rightarrow>
               (case topologicalLevels (nodes plan) of
                  Inl e \<Rightarrow> Inl (DagError e)
                | Inr levels \<Rightarrow>
                    (case run_levels env ctx (intent plan) 0 levels [] of
                       Inl e \<Rightarrow> Inl (Thrown e)
                     | Inr outputs \<Rightarrow> Inr outputs))))"

section \<open>What a run without abort produces\<close>

definition never_aborted :: "exec_env \<Rightarrow> bool" where
  "never_aborted env \<longleftrightarrow> (\<forall>c. ev_signal env c = None)"

text \<open>The output a node contributes: its own, or the error stub.\<close>

definition node_output :: "cortex_output throws \<Rightarrow> cortex_output" where
  "node_output r = (case r of Inr out \<Rightarrow> out | Inl _ \<Rightarrow> error_output)"

lemma collect_unaborted:
  "collect False (map (\<lambda>n. (n, r n)) ns) outputs =
     Inr (foldl (\<lambda>m n. AList.update (cortex n) (node_output (r n)) m) outputs ns)"
  by (induction ns arbitrary: outputs) (auto simp: node_output_def split: sum.splits)

lemma map_of_foldl_update_other:
  "k \<notin> c ` set ns \<Longrightarrow> map_of (foldl (\<lambda>m n. AList.update (c n) (v n) m) outs ns) k = map_of outs k"
  by (induction ns arbitrary: outs) auto

lemma map_of_foldl_update:
  "distinct (map c ns) \<Longrightarrow> n \<in> set ns \<Longrightarrow>
   map_of (foldl (\<lambda>m n. AList.update (c n) (v n) m) outs ns) (c n) = Some (v n)"
proof (induction ns arbitrary: outs)
  case (Cons a ns)
  then show ?case by (cases "n = a") (auto simp: map_of_foldl_update_other)
qed simp

lemma keys_foldl_update:
  "fst ` set (foldl (\<lambda>m n. AList.update (c n) (v n) m) outs ns) = fst ` set outs \<union> c ` set ns"
  by (induction ns arbitrary: outs) auto

lemma distinct_foldl_update:
  "distinct (map fst outs) \<Longrightarrow> distinct (map fst (foldl (\<lambda>m n. AList.update (c n) (v n) m) outs ns))"
  by (induction ns arbitrary: outs) (auto intro: distinct_update)

lemma previousFindings_cong:
  "(\<And>d. d \<in> set (dependsOn n) \<Longrightarrow> up d = up' d) \<Longrightarrow> executeNode env ctx q up n = executeNode env ctx q up' n"
proof -
  assume a: "\<And>d. d \<in> set (dependsOn n) \<Longrightarrow> up d = up' d"
  have "previousFindings up n = previousFindings up' n"
    unfolding previousFindings_def by (rule arg_cong [of _ _ concat], rule map_cong) (auto simp: a)
  then show ?thesis unfolding executeNode_def node_input_def by (simp only:)
qed

text \<open>
  The final outputs satisfy the defining equation of the plan: the output of each node is
  what the node computes from the final outputs of its dependencies.
\<close>

lemma run_levels_unaborted:
  assumes "never_aborted env"
  shows "levels_ok (fst ` set outs) levels \<Longrightarrow> distinct (map cortex (concat levels)) \<Longrightarrow>
    cortex ` set (concat levels) \<inter> fst ` set outs = {} \<Longrightarrow> distinct (map fst outs) \<Longrightarrow>
    \<exists>final. run_levels env ctx q i levels outs = Inr final \<and>
      distinct (map fst final) \<and>
      fst ` set final = fst ` set outs \<union> cortex ` set (concat levels) \<and>
      (\<forall>k \<in> fst ` set outs. map_of final k = map_of outs k) \<and>
      (\<forall>n \<in> set (concat levels). map_of final (cortex n) = Some (node_output (executeNode env ctx q (map_of final) n)))"
proof (induction levels arbitrary: i outs)
  case Nil
  then show ?case by simp
next
  case (Cons l ls)
  define v where "v n = node_output (executeNode env ctx q (map_of outs) n)" for n
  define outs' where "outs' = foldl (\<lambda>m n. AList.update (cortex n) (v n) m) outs l"
  have keys: "fst ` set outs' = fst ` set outs \<union> cortex ` set l"
    by (simp add: outs'_def keys_foldl_update)
  have dl: "distinct (map cortex l)" and dls: "distinct (map cortex (concat ls))"
    and disj: "cortex ` set l \<inter> cortex ` set (concat ls) = {}"
    using Cons.prems(2) by auto
  have "levels_ok (fst ` set outs') ls" using Cons.prems(1) by (simp add: keys)
  moreover have "cortex ` set (concat ls) \<inter> fst ` set outs' = {}"
    using Cons.prems(3) disj unfolding keys by (simp add: image_Un Int_Un_distrib Int_Un_distrib2 Int_commute)
  moreover have "distinct (map fst outs')"
    using Cons.prems(4) by (simp add: outs'_def distinct_foldl_update)
  ultimately obtain final where run: "run_levels env ctx q (Suc i) ls outs' = Inr final"
    and fd: "distinct (map fst final)"
    and fk: "fst ` set final = fst ` set outs' \<union> cortex ` set (concat ls)"
    and keep: "\<forall>k \<in> fst ` set outs'. map_of final k = map_of outs' k"
    and eqs: "\<forall>n \<in> set (concat ls). map_of final (cortex n) = Some (node_output (executeNode env ctx q (map_of final) n))"
    using Cons.IH [of outs' "Suc i"] dls by blast
  have "collect False (map (\<lambda>n. (n, executeNode env ctx q (map_of outs) n)) l) outs = Inr outs'"
    by (simp add: collect_unaborted outs'_def v_def)
  then have "run_levels env ctx q i (l # ls) outs = Inr final"
    using assms run by (simp add: never_aborted_def)
  moreover have old: "\<forall>k \<in> fst ` set outs. map_of final k = map_of outs k"
  proof
    fix k assume k: "k \<in> fst ` set outs"
    with Cons.prems(3) have "k \<notin> cortex ` set l" by auto
    with k keep show "map_of final k = map_of outs k"
      by (simp add: keys) (simp add: outs'_def map_of_foldl_update_other)
  qed
  moreover have "map_of final (cortex n) = Some (node_output (executeNode env ctx q (map_of final) n))"
    if n: "n \<in> set l" for n
  proof -
    have "map_of final (cortex n) = map_of outs' (cortex n)" using n keep by (auto simp: keys)
    also have "\<dots> = Some (v n)" using n dl by (simp add: outs'_def map_of_foldl_update)
    also have "executeNode env ctx q (map_of outs) n = executeNode env ctx q (map_of final) n"
      using n old Cons.prems(1) by (intro previousFindings_cong) (metis levels_ok.simps(2) subsetD)
    then have "v n = node_output (executeNode env ctx q (map_of final) n)" by (simp add: v_def)
    finally show ?thesis .
  qed
  ultimately show ?case using fd fk eqs by (auto simp: keys)
qed

lemma execute_unaborted:
  assumes "never_aborted env" and v: "validateDag False (map_option set known) (nodes plan) = Inr ()"
  shows "\<exists>final. execute env known plan ctx = Inr final \<and>
      distinct (map fst final) \<and> fst ` set final = cortex ` set (nodes plan) \<and>
      (\<forall>n \<in> set (nodes plan). map_of final (cortex n) =
          Some (node_output (executeNode env ctx (intent plan) (map_of final) n)))"
proof -
  from v have ok: "dag_ok (map_option set known) (nodes plan)" by (rule validateDag_imp_ok)
  then obtain levels where l: "topologicalLevels (nodes plan) = Inr levels" "levels_ok {} levels"
    and ms: "mset (concat levels) = mset (nodes plan)"
    using topologicalLevels_total by blast
  from ms have st: "set (concat levels) = set (nodes plan)" by (rule mset_eq_setD)
  have "mset (map cortex (concat levels)) = mset (map cortex (nodes plan))" using ms by (simp only: mset_map)
  moreover from ok have "distinct (map cortex (nodes plan))" by (simp add: dag_ok_def)
  ultimately have "distinct (map cortex (concat levels))" by (metis mset_eq_imp_distinct_iff)
  with run_levels_unaborted [OF assms(1), of "[]" levels ctx "intent plan" 0] l st
  obtain final where "run_levels env ctx (intent plan) 0 levels [] = Inr final"
    and "distinct (map fst final)" "fst ` set final = cortex ` set (nodes plan)"
    and "\<forall>n \<in> set (nodes plan). map_of final (cortex n) =
          Some (node_output (executeNode env ctx (intent plan) (map_of final) n))"
    unfolding st by (metis Un_empty_left distinct.simps(1) image_empty inf_bot_right list.map(1) list.set(1))
  with assms v l show ?thesis by (simp add: execute_def never_aborted_def)
qed

text \<open>Once the signal is aborted when a level settles, the run throws the abort reason.\<close>

lemma run_levels_aborted:
  "ev_signal env (AfterLevel i) = Some r \<Longrightarrow> ev_signal env (BeforeLevel i) = None \<Longrightarrow>
   run_levels env ctx q i (l # ls) outs = Inl (abortSignalReason r)"
  by (simp add: throwIfAborted_def)

section \<open>Properties\<close>

text \<open>C9: Running a plan that \<open>validateDag\<close> accepts, with no abort, returns an output map with
  exactly the plan's cortices as keys, each once, and every cortex has the output it computes from
  the final outputs of its own dependencies. A cortex that throws or times out gets the empty
  error output and does not affect any cortex that does not depend on it.\<close>

theorem execute_computes_every_node:
  assumes "never_aborted env" and "validateDag False (map_option set known) (nodes plan) = Inr ()"
  shows "\<exists>final. execute env known plan ctx = Inr final \<and>
      distinct (map fst final) \<and> fst ` set final = cortex ` set (nodes plan) \<and>
      (\<forall>n \<in> set (nodes plan). map_of final (cortex n) =
          Some (node_output (executeNode env ctx (intent plan) (map_of final) n)))"
  using assms by (rule execute_unaborted)

definition diamond_plan :: dag_plan where
  "diamond_plan = \<lparr>intent = ''q'', nodes = diamond, complexity = Moderate\<rparr>"

definition demo_env :: exec_env where
  "demo_env =
     \<lparr>ev_signal = \<lambda>_. None,
      ev_config = \<lparr>ec_cortexTimeoutMs = 90000,
        ec_planner = \<lparr>pm_provider = ''kimi'', pm_model = ''k'', pm_reasoningEffort = ''low'', pm_thinking = False\<rparr>,
        ec_overrides = []\<rparr>,
      ev_race = \<lambda>c _ _. if c = ''b'' then TimedOut else Settled (Inr emptyOutput)\<rparr>"

theorem execute_computes_every_node_witness:
  "\<exists>final. execute demo_env None diamond_plan \<lparr>rc_cycleId = 1, rc_lang = None, rc_mode = None, rc_userId = None\<rparr>
     = Inr final \<and> fst ` set final = cortex ` set (nodes diamond_plan)"
  using execute_computes_every_node [of demo_env None diamond_plan
      "\<lparr>rc_cycleId = 1, rc_lang = None, rc_mode = None, rc_userId = None\<rparr>"] diamond_valid
  by (auto simp: never_aborted_def demo_env_def diamond_plan_def)

text \<open>Without a static or a positive configured timeout, the adaptive timeout of a cortex is
  at least the configured base and at most six times it, up to rounding; a positive configured
  timeout is taken as it is.\<close>

theorem computeTimeout_bounds:
  assumes "0 \<le> baseMs" and "map_of CORTEX_TIMEOUT_OVERRIDES c = None"
  shows "case co_callTimeoutMs (or_else ovr no_override) of
      Some t \<Rightarrow> (if 0 < t then computeTimeout c baseMs cfg ovr = t
                else js_round baseMs \<le> computeTimeout c baseMs cfg ovr \<and>
                     computeTimeout c baseMs cfg ovr \<le> js_round (6 * baseMs))
    | None \<Rightarrow> js_round baseMs \<le> computeTimeout c baseMs cfg ovr \<and>
                     computeTimeout c baseMs cfg ovr \<le> js_round (6 * baseMs)"
proof -
  have "baseMs * 1 \<le> baseMs * timeout_mult e p m t" "baseMs * timeout_mult e p m t \<le> baseMs * 6" for e p m t
    using timeout_mult_bounds [of e p m t] assms(1) by (auto intro: mult_left_mono simp del: mult_1_right)
  then have "js_round baseMs \<le> adaptiveTimeout c baseMs cfg o'" "adaptiveTimeout c baseMs cfg o' \<le> js_round (6 * baseMs)" for o'
    using assms(2) by (auto simp: adaptiveTimeout_def mult.commute [of baseMs 6] intro!: js_round_mono)
  then show ?thesis by (auto simp: computeTimeout_def Let_def split: option.splits)
qed

theorem computeTimeout_bounds_witness:
  "js_round 90000 \<le> computeTimeout ''catalog'' 90000 (ec_planner (ev_config demo_env)) None"
  using computeTimeout_bounds [where baseMs = 90000 and c = "''catalog''" and ovr = None
      and cfg = "ec_planner (ev_config demo_env)"]
  by (simp add: CORTEX_TIMEOUT_OVERRIDES_def or_else_def no_override_def)

end
