(* ===== verification/Planner.thy ===== *)
theory Planner
  imports Dag Cortex
begin

text \<open>
  \<open>packages/thalamus/src/services/thalamus-planner.service.ts\<close>: the runtime filters that turn
  a plan of the language model, of the caller or of a daemon job into the plan to run.

  Arrays are shared in the code. \<open>applyRuntimeFilters\<close> starts with \<open>let kept = nodes\<close> and
  pushes on \<open>kept\<close>; as long as no filter has copied it, the pushes land in the caller's array.
  The model returns the caller's array after the call as a second component, and
  \<open>getDaemonDag\<close> threads the table of daemon plans.
\<close>

section \<open>Configuration\<close>

record planner_cfg =
  pc_maxCortices :: int
  pc_mandatoryStrategist :: bool
  pc_forcedCortices :: "string list"
  pc_disabledCortices :: "string list"

text \<open>\<open>cortexCfg.overrides\<close>, of which the planner reads \<open>enabled\<close>.\<close>

type_synonym enabled_overrides = "(string, bool option) jsmap"

record planner =
  pl_registry :: registry
  pl_userScoped :: "string list"
  pl_fallbackPlan :: "(string \<Rightarrow> dag_plan) option"
  pl_fallbackCortices :: "string list"

definition fresh_node :: "string \<Rightarrow> string list \<Rightarrow> dag_node" where
  "fresh_node c deps = \<lparr>cortex = c, params = [], dependsOn = deps\<rparr>"

lemma fresh_node_simps [simp]: "cortex (fresh_node c ds) = c" "dependsOn (fresh_node c ds) = ds"
  by (simp_all add: fresh_node_def)

text \<open>\<open>xs.slice(0, n)\<close>; a negative \<open>n\<close> counts from the end.\<close>

definition slice_to :: "int \<Rightarrow> 'a list \<Rightarrow> 'a list" where
  [js_defs]: "slice_to n xs = (if 0 \<le> n then take (nat n) xs else take (length xs - nat (- n)) xs)"

lemma set_slice_to_subset: "set (slice_to n xs) \<subseteq> set xs"
  by (auto simp: slice_to_def dest: in_set_takeD)

lemma distinct_slice_to: "distinct (map f xs) \<Longrightarrow> distinct (map f (slice_to n xs))"
  by (auto simp: slice_to_def simp flip: take_map)

lemma length_slice_to: "0 \<le> n \<Longrightarrow> int (length (slice_to n xs)) \<le> n"
  by (auto simp: slice_to_def)

section \<open>Fallback and manual plans\<close>

definition resolveFallbackPlan :: "planner \<Rightarrow> string \<Rightarrow> dag_plan" where
  "resolveFallbackPlan p query =
     (case pl_fallbackPlan p of
        Some f \<Rightarrow> f query
      | None \<Rightarrow> \<lparr>intent = query,
                 nodes = map (\<lambda>c. fresh_node c []) (pl_fallbackCortices p),
                 complexity = Moderate\<rparr>)"

text \<open>Lines 129 to 141: known names, unknown names.\<close>

fun manual_nodes :: "registry \<Rightarrow> string list \<Rightarrow> string list \<Rightarrow> dag_node list \<times> string list" where
  "manual_nodes reg seen [] = ([], [])"
| "manual_nodes reg seen (c # cs) =
     (if c \<in> set seen then manual_nodes reg seen cs
      else (let (ns, unknown) = manual_nodes reg (c # seen) cs in
            if reg_has reg c then (fresh_node c [] # ns, unknown) else (ns, c # unknown)))"

definition buildManualDag :: "registry \<Rightarrow> string \<Rightarrow> string list \<Rightarrow> dag_plan throws" where
  "buildManualDag reg query cortices =
     (let (ns, unknown) = manual_nodes reg [] (filter (\<lambda>n. n \<noteq> []) (map trim cortices)) in
      if unknown \<noteq> []
      then Inl (mk_error (''Unknown manual cortex name(s): '' @ join '', '' unknown))
      else Inr \<lparr>intent = query, nodes = ns, complexity = Moderate\<rparr>)"

section \<open>applyRuntimeFilters\<close>

definition disabled_set :: "planner_cfg \<Rightarrow> enabled_overrides \<Rightarrow> string list" where
  "disabled_set cfg overrides =
     jset_of (pc_disabledCortices cfg @ map fst (filter (\<lambda>(_, en). en = Some False) overrides))"

text \<open>Lines 319 to 326: the forced cortices that are missing; \<open>present\<close> grows as they are added.\<close>

fun forced_nodes :: "registry \<Rightarrow> string list \<Rightarrow> string set \<Rightarrow> string list \<Rightarrow> dag_node list" where
  "forced_nodes reg disabled present [] = []"
| "forced_nodes reg disabled present (name # names) =
     (if \<not> reg_has reg name \<or> name \<in> set disabled \<or> name \<in> present
      then forced_nodes reg disabled present names
      else fresh_node name [] # forced_nodes reg disabled (insert name present) names)"

definition is_strategist :: "dag_node \<Rightarrow> bool" where
  "is_strategist n = (cortex n = ''strategist'')"

text \<open>Lines 338 to 347.\<close>

definition clamp_nodes :: "int \<Rightarrow> dag_node list \<Rightarrow> dag_node list" where
  "clamp_nodes maxCortices kept =
     (if int (length kept) > maxCortices
      then (let nonStrat = filter (\<lambda>n. \<not> is_strategist n) kept in
            case List.find is_strategist kept of
              Some strategist \<Rightarrow> slice_to (max 0 (maxCortices - 1)) nonStrat @ [strategist]
            | None \<Rightarrow> slice_to maxCortices nonStrat)
      else kept)"

definition prune_deps :: "dag_node list \<Rightarrow> dag_node list" where
  "prune_deps kept =
     map (\<lambda>n. n\<lparr>dependsOn := filter (\<lambda>d. d \<in> cortex ` set kept) (dependsOn n)\<rparr>) kept"

text \<open>Steps 1 to 3: what is kept before clamping, and whether the strategist was injected.\<close>

definition push_mandatory ::
  "registry \<Rightarrow> dag_node list \<Rightarrow> planner_cfg \<Rightarrow> enabled_overrides \<Rightarrow> dag_node list \<times> bool" where
  "push_mandatory reg ns cfg overrides =
     (let disabled = disabled_set cfg overrides;
          kept1 = filter (\<lambda>n. cortex n \<notin> set disabled) ns;
          kept2 = kept1 @ forced_nodes reg disabled (cortex ` set kept1) (pc_forcedCortices cfg);
          inject = pc_mandatoryStrategist cfg \<and> ''strategist'' \<notin> set disabled \<and>
                   reg_has reg ''strategist'' \<and> \<not> list_ex is_strategist kept2
      in (if inject then kept2 @ [fresh_node ''strategist'' []] else kept2, inject))"

definition wire_strategist :: "dag_node list \<Rightarrow> dag_node list" where
  "wire_strategist kept =
     (let others = map cortex (filter (\<lambda>n. \<not> is_strategist n) kept) in
      map (\<lambda>n. if is_strategist n then n\<lparr>dependsOn := others\<rparr> else n) kept)"

text \<open>The filtered nodes, and the caller's array afterwards.\<close>

definition applyRuntimeFilters ::
  "registry \<Rightarrow> dag_node list \<Rightarrow> planner_cfg \<Rightarrow> enabled_overrides \<Rightarrow> dag_node list \<times> dag_node list" where
  "applyRuntimeFilters reg ns cfg overrides =
     (let (pushed, inject) = push_mandatory reg ns cfg overrides;
          clamped = clamp_nodes (pc_maxCortices cfg) pushed;
          wired = (if inject then wire_strategist clamped else clamped)
      in (prune_deps wired, if disabled_set cfg overrides = [] then pushed else ns))"

definition stripUserScoped :: "string list \<Rightarrow> dag_node list \<Rightarrow> bool option \<Rightarrow> dag_node list" where
  "stripUserScoped userScoped ns hasUser =
     (if hasUser \<noteq> Some False \<or> userScoped = [] then ns
      else (let dropped = {c \<in> cortex ` set ns. c \<in> set userScoped};
                kept = filter (\<lambda>n. cortex n \<notin> set userScoped) ns
            in if dropped = {} then ns
               else map (\<lambda>n. n\<lparr>dependsOn := filter (\<lambda>d. d \<notin> dropped) (dependsOn n)\<rparr>) kept))"

definition unknown_cortex_error :: "string \<Rightarrow> exn" where
  "unknown_cortex_error c =
     \<lparr>ename = ''DagValidationError'',
      emsg = ''DAG references unknown cortex '' @ [CHR 0x22] @ c @ [CHR 0x22]\<rparr>"

fun assertKnownCortices :: "registry \<Rightarrow> dag_node list \<Rightarrow> unit throws" where
  "assertKnownCortices reg [] = Inr ()"
| "assertKnownCortices reg (n # ns) =
     (if reg_has reg (cortex n) then assertKnownCortices reg ns
      else Inl (unknown_cortex_error (cortex n)))"

text \<open>The result, and the node array of the given plan afterwards.\<close>

definition finalizePlanWithConfig ::
  "planner \<Rightarrow> dag_plan \<Rightarrow> bool option \<Rightarrow> planner_cfg \<Rightarrow> enabled_overrides \<Rightarrow> bool \<Rightarrow>
   dag_plan throws \<times> dag_node list" where
  "finalizePlanWithConfig p plan hasUser cfg overrides dropUnknown =
     (let reg = pl_registry p;
          knownNodes = (if dropUnknown then filter (\<lambda>n. reg_has reg (cortex n)) (nodes plan) else nodes plan);
          (runtimeFiltered, shared) = applyRuntimeFilters reg knownNodes cfg overrides;
          ns = stripUserScoped (pl_userScoped p) runtimeFiltered hasUser
      in (case assertKnownCortices reg ns of
            Inl e \<Rightarrow> Inl e
          | Inr _ \<Rightarrow> Inr (plan\<lparr>nodes := ns\<rparr>),
          if dropUnknown then nodes plan else shared))"

definition finalizePlan ::
  "planner \<Rightarrow> dag_plan \<Rightarrow> bool option \<Rightarrow> planner_cfg \<Rightarrow> enabled_overrides \<Rightarrow> dag_plan throws \<times> dag_node list" where
  "finalizePlan p plan hasUser cfg overrides = finalizePlanWithConfig p plan hasUser cfg overrides False"

text \<open>
  \<open>getDaemonDag\<close> on the table of daemon plans; the table afterwards holds the plan whose node
  array the filters may have extended.
\<close>

definition getDaemonDag ::
  "planner \<Rightarrow> (string, dag_plan) jsmap \<Rightarrow> string \<Rightarrow> planner_cfg \<Rightarrow> enabled_overrides \<Rightarrow>
   dag_plan option throws \<times> (string, dag_plan) jsmap" where
  "getDaemonDag p daemonDags jobName cfg overrides =
     (case map_of daemonDags jobName of
        None \<Rightarrow> (Inr None, daemonDags)
      | Some base \<Rightarrow>
          (let (r, shared) = finalizePlan p base (Some False) cfg overrides in
           (case r of Inl e \<Rightarrow> Inl e | Inr plan \<Rightarrow> Inr (Some plan),
            AList.update jobName (base\<lparr>nodes := shared\<rparr>) daemonDags)))"

text \<open>
  \<open>plan\<close>: the reply of the language model and the schema-checked parse of its text are
  arguments. A failure, also one of the first fallback, goes through the \<open>catch\<close>.
\<close>

definition plan_query ::
  "planner \<Rightarrow> (string \<Rightarrow> dag_plan throws) \<Rightarrow> string throws \<Rightarrow> string \<Rightarrow> bool option \<Rightarrow>
   planner_cfg \<Rightarrow> enabled_overrides \<Rightarrow> dag_plan throws" where
  "plan_query p safeParseDAG response query hasUser cfg overrides =
     (let fallback = fst (finalizePlanWithConfig p (resolveFallbackPlan p query) hasUser cfg overrides False);
          attempt =
            (case response of
               Inl e \<Rightarrow> Inl e
             | Inr content \<Rightarrow>
                 (case safeParseDAG content of
                    Inl e \<Rightarrow> Inl e
                  | Inr plan \<Rightarrow>
                      (case fst (finalizePlanWithConfig p plan hasUser cfg overrides True) of
                         Inl e \<Rightarrow> Inl e
                       | Inr finalized \<Rightarrow> if nodes finalized = [] then fallback else Inr finalized)))
      in case attempt of
           Inr r \<Rightarrow> Inr r
         | Inl err \<Rightarrow> if isAbortError err then Inl err else fallback)"

section \<open>What the filters guarantee\<close>

lemma forced_nodes_props:
  "n \<in> set (forced_nodes reg dis pres names) \<Longrightarrow>
     dependsOn n = [] \<and> cortex n \<in> set names \<and> reg_has reg (cortex n) \<and> cortex n \<notin> set dis \<and> cortex n \<notin> pres"
  by (induction reg dis pres names rule: forced_nodes.induct) (auto split: if_splits)

lemma distinct_forced_nodes: "distinct (map cortex (forced_nodes reg dis pres names))"
  by (induction reg dis pres names rule: forced_nodes.induct) (auto dest: forced_nodes_props)

lemma dep_edges_mono: "set ms \<subseteq> set ns \<Longrightarrow> dep_edges ms \<subseteq> dep_edges ns"
  by (auto simp: dep_edges_def)

text \<open>The plans the filters are meant for: a dependency on the strategist names a node of the plan.\<close>

definition plan_wf :: "dag_node list \<Rightarrow> bool" where
  "plan_wf ns \<longleftrightarrow>
     distinct (map cortex ns) \<and> acyclic (dep_edges ns) \<and>
     (''strategist'' \<in> cortex ` set ns \<or> (\<forall>n \<in> set ns. ''strategist'' \<notin> set (dependsOn n)))"

lemma disjoint_image: "(\<And>n. n \<in> set xs \<Longrightarrow> f n \<notin> S) \<Longrightarrow> S \<inter> f ` set xs = {}"
  by auto

lemma push_mandatory_props:
  assumes "push_mandatory reg ns cfg ovr = (pushed, inject)" and "distinct (map cortex ns)"
  shows "distinct (map cortex pushed)" and "dep_edges pushed \<subseteq> dep_edges ns"
    and "\<And>n. n \<in> set pushed \<Longrightarrow> cortex n \<notin> set (disabled_set cfg ovr)"
    and "\<And>n. n \<in> set pushed \<Longrightarrow> n \<in> set ns \<or> reg_has reg (cortex n)"
    and "inject \<Longrightarrow> ''strategist'' \<notin> cortex ` set ns"
    and "\<And>n. n \<in> set pushed \<Longrightarrow> n \<in> set ns \<or> dependsOn n = []"
proof -
  let ?dis = "disabled_set cfg ovr"
  let ?k1 = "filter (\<lambda>n. cortex n \<notin> set ?dis) ns"
  let ?f = "forced_nodes reg ?dis (cortex ` set ?k1) (pc_forcedCortices cfg)"
  from assms(1) have pushed: "pushed = ?k1 @ ?f @ (if inject then [fresh_node ''strategist'' []] else [])"
    and inj: "inject \<Longrightarrow> ''strategist'' \<notin> set ?dis \<and> reg_has reg ''strategist'' \<and>
                \<not> list_ex is_strategist (?k1 @ ?f)"
    by (auto simp: push_mandatory_def Let_def)
  have "distinct (map cortex ?k1)" using assms(2) by (simp add: distinct_map_filter)
  moreover have "cortex n \<notin> cortex ` set ?k1" if "n \<in> set ?f" for n
    using forced_nodes_props [OF that] by (elim conjE)
  then have "cortex ` set ?k1 \<inter> cortex ` set ?f = {}" by (rule disjoint_image)
  ultimately have d: "distinct (map cortex (?k1 @ ?f))"
    using distinct_forced_nodes [of reg ?dis "cortex ` set ?k1" "pc_forcedCortices cfg"]
    by (simp only: map_append distinct_append set_map)
  have ns: "inject \<Longrightarrow> ''strategist'' \<notin> cortex ` set (?k1 @ ?f)"
    using inj by (fastforce simp: list_ex_iff is_strategist_def)
  show "distinct (map cortex pushed)"
  proof (cases inject)
    case True
    then have "pushed = (?k1 @ ?f) @ [fresh_node ''strategist'' []]" using pushed by simp
    then show ?thesis using d ns [OF True] by (simp only: map_append distinct_append) auto
  qed (use d pushed in simp)
  show "dep_edges pushed \<subseteq> dep_edges ns"
    using pushed by (auto simp: dep_edges_def dest: forced_nodes_props split: if_splits)
  show "cortex n \<notin> set ?dis" if "n \<in> set pushed" for n
    using that pushed inj by (auto dest: forced_nodes_props split: if_splits)
  show "n \<in> set ns \<or> reg_has reg (cortex n)" if "n \<in> set pushed" for n
    using that pushed inj by (auto dest: forced_nodes_props split: if_splits)
  show "''strategist'' \<notin> cortex ` set ns" if inject
    using inj [OF that] ns [OF that] by auto
  show "n \<in> set ns \<or> dependsOn n = []" if "n \<in> set pushed" for n
    using that pushed by (auto dest: forced_nodes_props split: if_splits)
qed

lemma find_Some_props: "List.find P xs = Some x \<Longrightarrow> x \<in> set xs \<and> P x"
  by (auto simp: find_Some_iff)

lemma clamp_nodes_props:
  assumes "distinct (map cortex kept)"
  shows "set (clamp_nodes mx kept) \<subseteq> set kept" and "distinct (map cortex (clamp_nodes mx kept))"
proof -
  let ?non = "filter (\<lambda>n. \<not> is_strategist n) kept"
  have non: "distinct (map cortex (slice_to k ?non))" "set (slice_to k ?non) \<subseteq> set ?non" for k
    using assms by (auto simp: distinct_map_filter intro: distinct_slice_to dest: subsetD [OF set_slice_to_subset])
  show "set (clamp_nodes mx kept) \<subseteq> set kept"
  proof (cases "List.find is_strategist kept")
    case None
    then show ?thesis using non(2) [of mx] by (auto simp: clamp_nodes_def Let_def)
  next
    case (Some s)
    then have "s \<in> set kept" by (auto dest: find_Some_props)
    then show ?thesis using Some non(2) [of "max 0 (mx - 1)"] by (auto simp: clamp_nodes_def Let_def)
  qed
  show "distinct (map cortex (clamp_nodes mx kept))"
  proof (cases "List.find is_strategist kept")
    case (Some s)
    then have "is_strategist s" by (auto dest: find_Some_props)
    with non(2) have "cortex s \<notin> cortex ` set (slice_to k ?non)" for k
      by (fastforce simp: is_strategist_def)
    with Some non(1) assms show ?thesis by (auto simp: clamp_nodes_def Let_def)
  qed (use non(1) assms in \<open>auto simp: clamp_nodes_def Let_def\<close>)
qed

lemma clamp_nodes_length:
  assumes "0 < mx" shows "int (length (clamp_nodes mx kept)) \<le> mx"
proof -
  have "int (length (slice_to (mx - 1) xs)) \<le> mx - 1" "int (length (slice_to mx xs)) \<le> mx" for xs :: "dag_node list"
    using length_slice_to [of "mx - 1" xs] length_slice_to [of mx xs] assms by linarith+
  then show ?thesis using assms by (auto simp: clamp_nodes_def Let_def max_def add.commute le_diff_eq split: option.splits)
qed

lemma map_cortex_wire [simp]: "map cortex (wire_strategist ks) = map cortex ks"
  by (simp add: wire_strategist_def Let_def)

lemma map_cortex_prune [simp]: "map cortex (prune_deps ks) = map cortex ks"
  by (simp add: prune_deps_def)

lemma set_cortex_prune [simp]: "cortex ` set (prune_deps ks) = cortex ` set ks"
  using map_cortex_prune [of ks] by (metis set_map)

lemma set_cortex_wire [simp]: "cortex ` set (wire_strategist ks) = cortex ` set ks"
  using map_cortex_wire [of ks] by (metis set_map)

lemma length_prune [simp]: "length (prune_deps ks) = length ks"
  by (simp add: prune_deps_def)

lemma length_wire [simp]: "length (wire_strategist ks) = length ks"
  by (simp add: wire_strategist_def Let_def)

lemma dep_edges_prune: "dep_edges (prune_deps ks) \<subseteq> dep_edges ks \<inter> cortex ` set ks \<times> cortex ` set ks"
  by (auto simp: dep_edges_def prune_deps_def)

lemma dep_edges_wire:
  "dep_edges (wire_strategist ks) \<subseteq> dep_edges ks \<union> (cortex ` set ks - {''strategist''}) \<times> {''strategist''}"
  by (auto simp: dep_edges_def wire_strategist_def Let_def is_strategist_def split: if_splits)

lemma acyclic_sub: "acyclic R \<Longrightarrow> S \<subseteq> R \<Longrightarrow> acyclic S"
  by (rule acyclic_subset)

lemma applyRuntimeFilters_props:
  assumes wf: "plan_wf ns" and ns': "applyRuntimeFilters reg ns cfg ovr = (ns', shared)"
  shows "distinct (map cortex ns')" and "acyclic (dep_edges ns')"
    and "\<And>n. n \<in> set ns' \<Longrightarrow> set (dependsOn n) \<subseteq> cortex ` set ns'"
    and "\<And>n. n \<in> set ns' \<Longrightarrow> cortex n \<notin> set (disabled_set cfg ovr)"
    and "\<And>n. n \<in> set ns' \<Longrightarrow> cortex n \<in> cortex ` set ns \<or> reg_has reg (cortex n)"
    and "0 < pc_maxCortices cfg \<Longrightarrow> int (length ns') \<le> pc_maxCortices cfg"
proof -
  obtain pushed inject where pm: "push_mandatory reg ns cfg ovr = (pushed, inject)"
    by fastforce
  from wf have d: "distinct (map cortex ns)" and ac: "acyclic (dep_edges ns)" by (auto simp: plan_wf_def)
  note push = push_mandatory_props [OF pm d]
  define cl where "cl = clamp_nodes (pc_maxCortices cfg) pushed"
  define w where "w = (if inject then wire_strategist cl else cl)"
  have ns'_eq: "ns' = prune_deps w"
    using ns' unfolding applyRuntimeFilters_def w_def cl_def pm Let_def prod.case by simp
  note cp = clamp_nodes_props [OF push(1), of "pc_maxCortices cfg", folded cl_def]
  have wn: "cortex ` set w = cortex ` set cl" "map cortex w = map cortex cl" "length w = length cl"
    by (simp_all add: w_def)
  show "distinct (map cortex ns')" using cp(2) by (simp add: ns'_eq wn)
  have ecl: "dep_edges cl \<subseteq> dep_edges ns" using dep_edges_mono [OF cp(1)] push(2) by blast
  have "acyclic (dep_edges w)"
  proof (cases inject)
    case False
    then show ?thesis using acyclic_sub [OF ac ecl] by (simp add: w_def)
  next
    case True
    with push(5) wf have "\<forall>n \<in> set ns. ''strategist'' \<notin> set (dependsOn n)" by (auto simp: plan_wf_def)
    then have "(''strategist'', x) \<notin> dep_edges cl" for x using ecl by (auto simp: dep_edges_def)
    then have "acyclic (dep_edges cl \<union> (cortex ` set cl - {''strategist''}) \<times> {''strategist''})"
      using acyclic_sub [OF ac ecl] by (intro acyclic_add_sink) auto
    then show ?thesis using True by (auto simp: w_def intro: acyclic_sub [OF _ dep_edges_wire])
  qed
  then show "acyclic (dep_edges ns')"
    unfolding ns'_eq by (rule acyclic_sub) (use dep_edges_prune [of w] in blast)
  show "set (dependsOn n) \<subseteq> cortex ` set ns'" if "n \<in> set ns'" for n
    using that by (auto simp: ns'_eq prune_deps_def image_image)
  have cn: "\<exists>m \<in> set pushed. cortex m = cortex n" if "n \<in> set ns'" for n
  proof -
    from that have "cortex n \<in> cortex ` set cl" by (metis imageI ns'_eq set_cortex_prune wn(1))
    then show ?thesis using cp(1) by auto
  qed
  show "cortex n \<notin> set (disabled_set cfg ovr)" if "n \<in> set ns'" for n
    using cn [OF that] push(3) by metis
  show "cortex n \<in> cortex ` set ns \<or> reg_has reg (cortex n)" if "n \<in> set ns'" for n
    using cn [OF that] push(4) by (metis imageI)
  show "int (length ns') \<le> pc_maxCortices cfg" if "0 < pc_maxCortices cfg"
    using clamp_nodes_length [OF that, of pushed] by (simp add: ns'_eq wn cl_def)
qed

lemma stripUserScoped_props:
  assumes "stripUserScoped us ns hasUser = ns'"
  shows "distinct (map cortex ns) \<Longrightarrow> distinct (map cortex ns')"
    and "dep_edges ns' \<subseteq> dep_edges ns"
    and "cortex ` set ns' \<subseteq> cortex ` set ns"
    and "(\<And>n. n \<in> set ns \<Longrightarrow> set (dependsOn n) \<subseteq> cortex ` set ns) \<Longrightarrow>
         n' \<in> set ns' \<Longrightarrow> set (dependsOn n') \<subseteq> cortex ` set ns'"
    and "length ns' \<le> length ns"
    and "hasUser = Some False \<Longrightarrow> cortex ` set ns' \<inter> set us = {}"
proof -
  let ?drop = "\<lambda>n. n\<lparr>dependsOn := filter (\<lambda>d. d \<notin> {c \<in> cortex ` set ns. c \<in> set us}) (dependsOn n)\<rparr>"
  let ?kept = "filter (\<lambda>n. cortex n \<notin> set us) ns"
  have alt: "ns' = ns \<or> ns' = map ?drop ?kept"
    using assms by (auto simp: stripUserScoped_def Let_def split: if_splits)
  have mc: "map cortex (map ?drop ?kept) = map cortex ?kept" by simp
  show "distinct (map cortex ns')" if "distinct (map cortex ns)"
    using alt
  proof
    assume "ns' = map ?drop ?kept"
    then show ?thesis using that by (simp only: mc distinct_map_filter)
  qed (use that in simp)
  have "dep_edges (map ?drop ?kept) \<subseteq> dep_edges ns"
  proof
    fix x assume "x \<in> dep_edges (map ?drop ?kept)"
    then obtain n where "n \<in> set ?kept" "snd x = cortex n" "fst x \<in> set (dependsOn n)"
      by (auto simp: dep_edges_def)
    then show "x \<in> dep_edges ns" by (cases x) (auto simp: dep_edges_def)
  qed
  with alt show "dep_edges ns' \<subseteq> dep_edges ns" by auto
  from alt show "cortex ` set ns' \<subseteq> cortex ` set ns" by auto
  from alt show "length ns' \<le> length ns" by (auto intro: length_filter_le)
  show "cortex ` set ns' \<inter> set us = {}" if "hasUser = Some False"
  proof (cases "us = [] \<or> {c \<in> cortex ` set ns. c \<in> set us} = {}")
    case True
    with that assms have "ns' = ns" by (auto simp: stripUserScoped_def Let_def)
    with True show ?thesis by auto
  next
    case False
    with that assms have "ns' = map ?drop ?kept" by (auto simp: stripUserScoped_def Let_def)
    then show ?thesis by auto
  qed
  show "set (dependsOn n') \<subseteq> cortex ` set ns'"
    if cl: "\<And>n. n \<in> set ns \<Longrightarrow> set (dependsOn n) \<subseteq> cortex ` set ns" and n': "n' \<in> set ns'"
    using alt
  proof
    assume "ns' = map ?drop ?kept"
    with n' obtain m where m: "m \<in> set ?kept" "n' = ?drop m" by auto
    show ?thesis
    proof
      fix d assume "d \<in> set (dependsOn n')"
      then have d: "d \<in> set (dependsOn m)" "d \<notin> set us" using m cl by auto
      with m cl obtain k where "k \<in> set ns" "d = cortex k" by fastforce
      with d have "d \<in> cortex ` set ?kept" by auto
      then show "d \<in> cortex ` set ns'" using \<open>ns' = map ?drop ?kept\<close> mc by (metis set_map)
    qed
  qed (use cl n' in auto)
qed

lemma assertKnownCortices_Inr:
  "assertKnownCortices reg ns = Inr u \<longleftrightarrow> (\<forall>n \<in> set ns. reg_has reg (cortex n))"
  by (induction ns) auto

lemma plan_wf_filter:
  assumes "plan_wf ns" and "dropUnknown \<Longrightarrow> reg_has reg ''strategist''"
  shows "plan_wf (if dropUnknown then filter (\<lambda>n. reg_has reg (cortex n)) ns else ns)"
proof (cases dropUnknown)
  case True
  let ?ks = "filter (\<lambda>n. reg_has reg (cortex n)) ns"
  have "dep_edges ?ks \<subseteq> dep_edges ns" by (rule dep_edges_mono) auto
  with assms(1) have "acyclic (dep_edges ?ks)" by (auto simp: plan_wf_def intro: acyclic_sub)
  moreover have "''strategist'' \<in> cortex ` set ?ks \<or> (\<forall>n \<in> set ?ks. ''strategist'' \<notin> set (dependsOn n))"
  proof (cases "''strategist'' \<in> cortex ` set ns")
    case True
    then obtain n where "n \<in> set ns" "cortex n = ''strategist''" by auto
    with assms(2) \<open>dropUnknown\<close> have "n \<in> set ?ks" by simp
    with \<open>cortex n = ''strategist''\<close> show ?thesis by (metis imageI)
  next
    case False
    with assms(1) show ?thesis by (simp add: plan_wf_def)
  qed
  ultimately show ?thesis using assms(1) True by (simp add: plan_wf_def distinct_map_filter)
qed (use assms in simp)

lemma finalizePlan_valid:
  assumes wf: "plan_wf (nodes plan)" and st: "dropUnknown \<Longrightarrow> reg_has (pl_registry p) ''strategist''"
    and fin: "fst (finalizePlanWithConfig p plan hasUser cfg ovr dropUnknown) = Inr plan'"
  shows "dag_ok (Some (set (reg_names (pl_registry p)))) (nodes plan')"
    and "cortex ` set (nodes plan') \<inter> set (disabled_set cfg ovr) = {}"
    and "hasUser = Some False \<Longrightarrow> cortex ` set (nodes plan') \<inter> set (pl_userScoped p) = {}"
    and "0 < pc_maxCortices cfg \<Longrightarrow> int (length (nodes plan')) \<le> pc_maxCortices cfg"
proof -
  let ?reg = "pl_registry p"
  let ?known = "if dropUnknown then filter (\<lambda>n. reg_has ?reg (cortex n)) (nodes plan) else nodes plan"
  obtain ns shared where ar: "applyRuntimeFilters ?reg ?known cfg ovr = (ns, shared)" by fastforce
  define ns' where "ns' = stripUserScoped (pl_userScoped p) ns hasUser"
  note A = applyRuntimeFilters_props [OF plan_wf_filter [OF wf st, of dropUnknown] ar]
  note S = stripUserScoped_props [OF ns'_def [symmetric]]
  from fin ar have nodes': "nodes plan' = ns'" and known: "assertKnownCortices ?reg ns' = Inr ()"
    by (auto simp: finalizePlanWithConfig_def ns'_def Let_def split: sum.splits)
  have "acyclic (dep_edges ns')" using A(2) S(2) by (rule acyclic_sub)
  moreover have "\<forall>n \<in> set ns'. set (dependsOn n) \<subseteq> cortex ` set ns'" using S(4) A(3) by blast
  ultimately show "dag_ok (Some (set (reg_names ?reg))) (nodes plan')"
    using A(1) S(1) known by (auto simp: dag_ok_def nodes' assertKnownCortices_Inr reg_names_has)
  show "cortex ` set (nodes plan') \<inter> set (disabled_set cfg ovr) = {}"
  proof (rule equals0I)
    fix c assume "c \<in> cortex ` set (nodes plan') \<inter> set (disabled_set cfg ovr)"
    with S(3) obtain n where "n \<in> set ns" "c = cortex n" "c \<in> set (disabled_set cfg ovr)"
      unfolding nodes' by blast
    with A(4) show False by blast
  qed
  show "cortex ` set (nodes plan') \<inter> set (pl_userScoped p) = {}" if "hasUser = Some False"
    using S(6) that by (simp add: nodes')
  show "int (length (nodes plan')) \<le> pc_maxCortices cfg" if "0 < pc_maxCortices cfg"
    using S(5) A(6) that by (simp add: nodes')
qed

section \<open>Any plan\<close>

text \<open>What the filters do to a plan of which nothing is known, as the language model may send it.\<close>

lemma push_mandatory_any:
  assumes "push_mandatory reg ns cfg ovr = (pushed, inject)" and "n \<in> set pushed"
  shows "cortex n \<notin> set (disabled_set cfg ovr) \<and> (n \<in> set ns \<or> dependsOn n = [] \<and> reg_has reg (cortex n))"
proof -
  let ?dis = "disabled_set cfg ovr"
  let ?k1 = "filter (\<lambda>n. cortex n \<notin> set ?dis) ns"
  let ?f = "forced_nodes reg ?dis (cortex ` set ?k1) (pc_forcedCortices cfg)"
  from assms(1) have "pushed = ?k1 @ ?f @ (if inject then [fresh_node ''strategist'' []] else [])"
    and "inject \<Longrightarrow> ''strategist'' \<notin> set ?dis \<and> reg_has reg ''strategist''"
    by (auto simp: push_mandatory_def Let_def)
  with assms(2) show ?thesis by (auto dest: forced_nodes_props split: if_splits)
qed

lemma clamp_nodes_subset: "set (clamp_nodes mx kept) \<subseteq> set kept"
proof -
  have "set (slice_to k (filter (\<lambda>n. \<not> is_strategist n) kept)) \<subseteq> set kept" for k
    using set_slice_to_subset [of k "filter (\<lambda>n. \<not> is_strategist n) kept"] by auto
  then show ?thesis by (auto simp: clamp_nodes_def Let_def dest: find_Some_props split: option.splits)
qed

lemma filtered_any:
  assumes "applyRuntimeFilters reg ns cfg ovr = (ns', shared)"
  shows "\<forall>n \<in> set ns'. set (dependsOn n) \<subseteq> cortex ` set ns'"
    and "cortex ` set ns' \<inter> set (disabled_set cfg ovr) = {}"
    and "\<forall>c \<in> cortex ` set ns'. c \<in> cortex ` set ns \<or> reg_has reg c"
    and "0 < pc_maxCortices cfg \<Longrightarrow> int (length ns') \<le> pc_maxCortices cfg"
    and "dep_edges ns' \<subseteq> dep_edges ns \<union> (- {''strategist''}) \<times> {''strategist''}"
    and "distinct (map cortex ns) \<Longrightarrow> distinct (map cortex ns')"
proof -
  obtain pushed inject where pm: "push_mandatory reg ns cfg ovr = (pushed, inject)" by fastforce
  define cl where "cl = clamp_nodes (pc_maxCortices cfg) pushed"
  define w where "w = (if inject then wire_strategist cl else cl)"
  have ns': "ns' = prune_deps w" using assms unfolding applyRuntimeFilters_def w_def cl_def pm Let_def prod.case by simp
  have wn: "cortex ` set w = cortex ` set cl" "map cortex w = map cortex cl" "length w = length cl" by (simp_all add: w_def)
  have names: "cortex ` set ns' = cortex ` set cl" by (simp add: ns' wn)
  have sub: "set cl \<subseteq> set pushed" using clamp_nodes_subset by (simp add: cl_def)
  note push = push_mandatory_any [OF pm]
  show "\<forall>n \<in> set ns'. set (dependsOn n) \<subseteq> cortex ` set ns'" by (auto simp: ns' prune_deps_def image_image)
  show "cortex ` set ns' \<inter> set (disabled_set cfg ovr) = {}" unfolding names using push sub by blast
  show "\<forall>c \<in> cortex ` set ns'. c \<in> cortex ` set ns \<or> reg_has reg c" unfolding names using push sub by blast
  show "int (length ns') \<le> pc_maxCortices cfg" if "0 < pc_maxCortices cfg"
    using clamp_nodes_length [OF that, of pushed] by (simp add: ns' wn cl_def)
  have "dep_edges cl \<subseteq> dep_edges ns" using push sub by (fastforce simp: dep_edges_def)
  then have "dep_edges w \<subseteq> dep_edges ns \<union> (- {''strategist''}) \<times> {''strategist''}"
    using dep_edges_wire [of cl] by (auto simp: w_def)
  then show "dep_edges ns' \<subseteq> dep_edges ns \<union> (- {''strategist''}) \<times> {''strategist''}"
    using dep_edges_prune [of w] unfolding ns' by blast
  show "distinct (map cortex ns')" if "distinct (map cortex ns)"
    using clamp_nodes_props(2) [OF push_mandatory_props(1) [OF pm that]] by (simp add: ns' wn cl_def)
qed

lemma finalized_any:
  assumes fin: "fst (finalizePlanWithConfig p plan hasUser cfg ovr dropUnknown) = Inr plan'"
  shows "\<forall>n \<in> set (nodes plan'). set (dependsOn n) \<subseteq> cortex ` set (nodes plan')"
    and "cortex ` set (nodes plan') \<subseteq> set (reg_names (pl_registry p))"
    and "cortex ` set (nodes plan') \<inter> set (disabled_set cfg ovr) = {}"
    and "hasUser = Some False \<Longrightarrow> cortex ` set (nodes plan') \<inter> set (pl_userScoped p) = {}"
    and "0 < pc_maxCortices cfg \<Longrightarrow> int (length (nodes plan')) \<le> pc_maxCortices cfg"
    and "dep_edges (nodes plan') \<subseteq> dep_edges (nodes plan) \<union> (- {''strategist''}) \<times> {''strategist''}"
    and "distinct (map cortex (nodes plan)) \<Longrightarrow> distinct (map cortex (nodes plan'))"
proof -
  let ?reg = "pl_registry p"
  let ?known = "if dropUnknown then filter (\<lambda>n. reg_has ?reg (cortex n)) (nodes plan) else nodes plan"
  obtain ns shared where ar: "applyRuntimeFilters ?reg ?known cfg ovr = (ns, shared)" by fastforce
  define ns' where "ns' = stripUserScoped (pl_userScoped p) ns hasUser"
  note A = filtered_any [OF ar] and S = stripUserScoped_props [OF ns'_def [symmetric]]
  from fin ar have nodes': "nodes plan' = ns'" and known: "assertKnownCortices ?reg ns' = Inr ()"
    by (auto simp: finalizePlanWithConfig_def ns'_def Let_def split: sum.splits)
  show "\<forall>n \<in> set (nodes plan'). set (dependsOn n) \<subseteq> cortex ` set (nodes plan')" unfolding nodes' using S(4) A(1) by blast
  show "cortex ` set (nodes plan') \<subseteq> set (reg_names ?reg)" using known by (auto simp: nodes' assertKnownCortices_Inr reg_names_has)
  show "cortex ` set (nodes plan') \<inter> set (disabled_set cfg ovr) = {}" unfolding nodes' using S(3) A(2) by blast
  show "cortex ` set (nodes plan') \<inter> set (pl_userScoped p) = {}" if "hasUser = Some False" using S(6) that by (simp add: nodes')
  show "int (length (nodes plan')) \<le> pc_maxCortices cfg" if "0 < pc_maxCortices cfg" using S(5) A(4) that by (simp add: nodes')
  have "dep_edges ?known \<subseteq> dep_edges (nodes plan)" by (auto intro!: dep_edges_mono)
  then show "dep_edges (nodes plan') \<subseteq> dep_edges (nodes plan) \<union> (- {''strategist''}) \<times> {''strategist''}"
    unfolding nodes' using S(2) A(5) by blast
  show "distinct (map cortex (nodes plan'))" if "distinct (map cortex (nodes plan))"
  proof -
    have "distinct (map cortex ?known)" using that by (simp add: distinct_map_filter)
    then show ?thesis unfolding nodes' using S(1) A(6) by blast
  qed
qed

text \<open>The errors \<open>validateDag\<close> can still find.\<close>

lemma check_node_deps_error:
  "check_node_deps names c ds = Some e \<Longrightarrow> set ds \<subseteq> names \<Longrightarrow> e = SelfDependency c \<and> c \<in> set ds"
  by (induction names c ds rule: check_node_deps.induct) (auto split: if_splits)

lemma check_deps_error:
  "check_deps names ns = Some e \<Longrightarrow> (\<forall>n \<in> set ns. set (dependsOn n) \<subseteq> names) \<Longrightarrow> \<exists>c. e = SelfDependency c \<and> (c, c) \<in> dep_edges ns"
proof (induction names ns rule: check_deps.induct)
  case (2 names n ns)
  show ?case
  proof (cases "check_node_deps names (cortex n) (dependsOn n)")
    case None
    then show ?thesis using 2 by (fastforce simp: dep_edges_def)
  next
    case (Some e')
    then show ?thesis using 2 check_node_deps_error [OF Some] by (auto simp: dep_edges_def)
  qed
qed simp

lemma build_by_name_refusal:
  "build_by_name (Some K) ns acc = Inl e \<Longrightarrow> cortex ` set ns \<subseteq> K \<Longrightarrow>
   \<exists>c. e = DuplicateCortex c \<and> \<not> (distinct (map cortex ns) \<and> cortex ` set ns \<inter> fst ` set acc = {})"
proof (induction ns arbitrary: acc)
  case (Cons n ns)
  show ?case
  proof (cases "cortex n \<in> fst ` set acc")
    case True
    then show ?thesis using Cons.prems by (intro exI [of _ "cortex n"]) auto
  next
    case False
    then have "build_by_name (Some K) ns (acc @ [(cortex n, n)]) = Inl e" using Cons.prems by (simp add: update_fresh)
    from Cons.IH [OF this] Cons.prems(2) obtain c where "e = DuplicateCortex c"
      "\<not> (distinct (map cortex ns) \<and> cortex ` set ns \<inter> fst ` set (acc @ [(cortex n, n)]) = {})" by auto
    then show ?thesis by (intro exI [of _ c]) auto
  qed
qed simp

lemma validateDag_refusal:
  assumes v: "validateDag False (Some K) ns = Inl e" and known: "cortex ` set ns \<subseteq> K"
    and closed: "\<forall>n \<in> set ns. set (dependsOn n) \<subseteq> cortex ` set ns"
  shows "case e of EmptyDag \<Rightarrow> ns = [] | DuplicateCortex c \<Rightarrow> \<not> distinct (map cortex ns) | SelfDependency c \<Rightarrow> (c, c) \<in> dep_edges ns
    | CircularDependency cyc \<Rightarrow> is_cycle (dep_edges ns) cyc | _ \<Rightarrow> False"
proof (cases "ns = []")
  case True
  then show ?thesis using v by (simp add: validateDag_def)
next
  case False
  show ?thesis
  proof (cases "build_by_name (Some K) ns []")
    case (Inl e')
    then show ?thesis using v False build_by_name_refusal [OF Inl] known by (auto simp: validateDag_def)
  next
    case (Inr m)
    then have m: "m = name_table ns" using build_by_name_iff [of "Some K" ns "[]" m] by simp
    show ?thesis
    proof (cases "check_deps (cortex ` set ns) ns")
      case (Some e')
      then show ?thesis using v False Inr m check_deps_error [OF Some closed] by (auto simp: validateDag_def)
    next
      case None
      then obtain cyc where "e = CircularDependency cyc"
        using v False Inr m visit_all_error [of m "{}" "map cortex ns"] by (auto simp: validateDag_def split: sum.splits)
      then show ?thesis using validateDag_circular [OF v [unfolded \<open>e = CircularDependency cyc\<close>]] by simp
    qed
  qed
qed

text \<open>The manual plan: registered, distinct, without dependencies.\<close>

lemma manual_nodes_props:
  "(\<forall>n \<in> set (fst (manual_nodes reg seen cs)). dependsOn n = [] \<and> reg_has reg (cortex n) \<and> cortex n \<notin> set seen) \<and>
   distinct (map cortex (fst (manual_nodes reg seen cs)))"
proof (induction reg seen cs rule: manual_nodes.induct)
  case (2 reg seen c cs)
  show ?case
  proof (cases "c \<in> set seen")
    case False
    obtain ns unknown where r: "manual_nodes reg (c # seen) cs = (ns, unknown)" by fastforce
    then have "(\<forall>n \<in> set ns. dependsOn n = [] \<and> reg_has reg (cortex n) \<and> cortex n \<notin> set (c # seen)) \<and> distinct (map cortex ns)"
      using "2.IH"(2) [OF False] by simp
    then show ?thesis using False r by auto
  qed (use 2 in simp)
qed simp

lemma manual_plan_wf:
  assumes "buildManualDag reg query cs = Inr plan"
  shows "plan_wf (nodes plan)" and "\<forall>n \<in> set (nodes plan). reg_has reg (cortex n)"
proof -
  obtain ns unknown where m: "manual_nodes reg [] (filter (\<lambda>n. n \<noteq> []) (map trim cs)) = (ns, unknown)" by fastforce
  have plan: "nodes plan = ns" using assms m by (auto simp: buildManualDag_def split: if_splits)
  note props = manual_nodes_props [of reg "[]" "filter (\<lambda>n. n \<noteq> []) (map trim cs)", unfolded m]
  have "dep_edges ns = {}" using props by (auto simp: dep_edges_def)
  then show "plan_wf (nodes plan)" using props by (auto simp: plan_wf_def plan acyclic_def)
  show "\<forall>n \<in> set (nodes plan). reg_has reg (cortex n)" using props by (simp add: plan)
qed

lemma finalize_registered:
  assumes "\<forall>n \<in> set (nodes plan). reg_has (pl_registry p) (cortex n)"
  shows "\<exists>plan'. fst (finalizePlanWithConfig p plan hasUser cfg ovr False) = Inr plan'"
proof -
  obtain ns shared where ar: "applyRuntimeFilters (pl_registry p) (nodes plan) cfg ovr = (ns, shared)" by fastforce
  define ns' where "ns' = stripUserScoped (pl_userScoped p) ns hasUser"
  have "\<forall>n \<in> set ns'. reg_has (pl_registry p) (cortex n)"
  proof
    fix n assume "n \<in> set ns'"
    then have "cortex n \<in> cortex ` set ns" using stripUserScoped_props(3) [OF ns'_def [symmetric]] by auto
    then have "cortex n \<in> cortex ` set (nodes plan) \<or> reg_has (pl_registry p) (cortex n)" using filtered_any(3) [OF ar] by (rule bspec [rotated])
    then show "reg_has (pl_registry p) (cortex n)" using assms by auto
  qed
  then have "assertKnownCortices (pl_registry p) (stripUserScoped (pl_userScoped p) ns hasUser) = Inr ()"
    unfolding ns'_def assertKnownCortices_Inr .
  then show ?thesis using ar by (simp add: finalizePlanWithConfig_def Let_def)
qed

section \<open>The shared node array of a daemon plan\<close>

lemma prune_closed:
  "(\<And>n. n \<in> set ks \<Longrightarrow> set (dependsOn n) \<subseteq> cortex ` set ks) \<Longrightarrow> prune_deps ks = ks"
  unfolding prune_deps_def by (rule map_idI) (auto simp: filter_id_conv subset_iff)

lemma finalize_no_filter:
  assumes dis: "disabled_set cfg ovr = []" and forced: "pc_forcedCortices cfg = []"
    and us: "pl_userScoped p = []"
    and known: "\<forall>n \<in> set (nodes base). reg_has (pl_registry p) (cortex n)"
    and pm: "push_mandatory (pl_registry p) (nodes base) cfg ovr = (pushed, inject)"
    and room: "int (length pushed) \<le> pc_maxCortices cfg"
  shows "finalizePlan p base (Some False) cfg ovr =
     (Inr (base\<lparr>nodes := prune_deps (if inject then wire_strategist pushed else pushed)\<rparr>), pushed)"
proof -
  have "reg_has (pl_registry p) (cortex n)" if "n \<in> set pushed" for n
    using that pm known by (auto simp: push_mandatory_def Let_def forced dis split: if_splits)
  then have "assertKnownCortices (pl_registry p) (prune_deps (if inject then wire_strategist pushed else pushed)) = Inr ()"
    by (auto simp: assertKnownCortices_Inr prune_deps_def wire_strategist_def Let_def)
  moreover have "clamp_nodes (pc_maxCortices cfg) pushed = pushed"
    using room by (simp add: clamp_nodes_def)
  ultimately show ?thesis
    by (cases inject) (simp_all add: finalizePlan_def finalizePlanWithConfig_def applyRuntimeFilters_def pm dis us
        stripUserScoped_def Let_def)
qed

lemma list_ex_strategist: "list_ex is_strategist ns \<longleftrightarrow> ''strategist'' \<in> cortex ` set ns"
  unfolding list_ex_iff is_strategist_def image_iff by metis

lemma push_mandatory_plain:
  assumes "disabled_set cfg ovr = []" and "pc_forcedCortices cfg = []"
    and "pc_mandatoryStrategist cfg" and "reg_has reg ''strategist''"
  shows "push_mandatory reg ns cfg ovr =
     (if ''strategist'' \<in> cortex ` set ns then (ns, False) else (ns @ [fresh_node ''strategist'' []], True))"
  using assms by (simp add: push_mandatory_def Let_def list_ex_strategist)

lemma daemon_dag_twice:
  assumes dis: "disabled_set cfg ovr = []" and forced: "pc_forcedCortices cfg = []"
    and mand: "pc_mandatoryStrategist cfg" and strat: "reg_has (pl_registry p) ''strategist''"
    and us: "pl_userScoped p = []" and room: "int (length (nodes base)) < pc_maxCortices cfg"
    and known: "\<forall>n \<in> set (nodes base). reg_has (pl_registry p) (cortex n)"
    and closed: "\<forall>n \<in> set (nodes base). set (dependsOn n) \<subseteq> cortex ` set (nodes base)"
    and without: "''strategist'' \<notin> cortex ` set (nodes base)"
    and job: "map_of dags job = Some base"
    and first: "getDaemonDag p dags job cfg ovr = (r1, dags1)"
    and second: "getDaemonDag p dags1 job cfg ovr = (r2, dags2)"
  shows "r1 = Inr (Some (base\<lparr>nodes := nodes base @ [fresh_node ''strategist'' (map cortex (nodes base))]\<rparr>))"
    and "r2 = Inr (Some (base\<lparr>nodes := nodes base @ [fresh_node ''strategist'' []]\<rparr>))"
proof -
  let ?s = "fresh_node ''strategist'' []"
  let ?base1 = "base\<lparr>nodes := nodes base @ [?s]\<rparr>"
  note pm = push_mandatory_plain [OF dis forced mand strat]
  have ns: "\<forall>n \<in> set (nodes base). \<not> is_strategist n" using without by (metis imageI is_strategist_def)
  have fl: "filter (\<lambda>n. \<not> is_strategist n) (nodes base) = nodes base"
    using ns by (simp add: filter_id_conv)
  have mp: "map (\<lambda>n. if is_strategist n then n\<lparr>dependsOn := ds\<rparr> else n) (nodes base) = nodes base" for ds
    using ns by (auto intro: map_idI)
  have wire: "wire_strategist (nodes base @ [?s]) = nodes base @ [fresh_node ''strategist'' (map cortex (nodes base))]"
    by (simp add: wire_strategist_def Let_def fl mp) (simp add: is_strategist_def fresh_node_def)
  have c1: "prune_deps (nodes base @ [fresh_node ''strategist'' ds]) = nodes base @ [fresh_node ''strategist'' ds]"
    if "set ds \<subseteq> cortex ` set (nodes base)" for ds
    using closed that by (intro prune_closed) auto
  have pm0: "push_mandatory (pl_registry p) (nodes base) cfg ovr = (nodes base @ [?s], True)"
    using pm without by simp
  have "finalizePlan p base (Some False) cfg ovr =
      (Inr (base\<lparr>nodes := nodes base @ [fresh_node ''strategist'' (map cortex (nodes base))]\<rparr>), nodes base @ [?s])"
    using finalize_no_filter [OF dis forced us known pm0] room by (simp add: wire c1)
  with first job have r1: "r1 = Inr (Some (base\<lparr>nodes := nodes base @ [fresh_node ''strategist'' (map cortex (nodes base))]\<rparr>))"
    and d1: "dags1 = AList.update job ?base1 dags"
    by (auto simp: getDaemonDag_def)
  from r1 show "r1 = Inr (Some (base\<lparr>nodes := nodes base @ [fresh_node ''strategist'' (map cortex (nodes base))]\<rparr>))" .
  have pm1: "push_mandatory (pl_registry p) (nodes ?base1) cfg ovr = (nodes ?base1, False)"
    using pm [of "nodes ?base1"] by simp
  have known1: "\<forall>n \<in> set (nodes ?base1). reg_has (pl_registry p) (cortex n)" using known strat by simp
  have "finalizePlan p ?base1 (Some False) cfg ovr = (Inr ?base1, nodes base @ [?s])"
    using finalize_no_filter [OF dis forced us known1 pm1] room c1 [of "[]"] by simp
  with second d1 show "r2 = Inr (Some ?base1)" by (auto simp: getDaemonDag_def)
qed

section \<open>Properties\<close>


definition demo_skill :: "string \<Rightarrow> skill" where
  "demo_skill c = \<lparr>s_name = c, s_description = ''d'', s_sqlHelper = [], s_params = [], s_body = [], s_filePath = []\<rparr>"

definition demo_planner :: planner where
  "demo_planner =
     \<lparr>pl_registry = map (\<lambda>c. (c, demo_skill c)) [''a'', ''b'', ''c'', ''d'', ''strategist''],
      pl_userScoped = [], pl_fallbackPlan = None, pl_fallbackCortices = [''a'']\<rparr>"

definition demo_cfg :: planner_cfg where
  "demo_cfg = \<lparr>pc_maxCortices = 4, pc_mandatoryStrategist = True, pc_forcedCortices = [], pc_disabledCortices = []\<rparr>"

definition diamond_base :: dag_plan where
  "diamond_base = \<lparr>intent = ''q'', nodes = diamond, complexity = Moderate\<rparr>"

lemma diamond_wf: "plan_wf (nodes diamond_base)"
proof -
  have "acyclic (dep_edges diamond)"
    using validateDag_imp_ok [OF diamond_valid] by (simp add: dag_ok_def)
  then show ?thesis by (simp add: plan_wf_def diamond_base_def) (simp add: diamond_def)
qed

text \<open>A plan of the language model with an unknown name and a cycle.\<close>

definition tangled_plan :: dag_plan where
  "tangled_plan = \<lparr>intent = ''q'',
     nodes = [fresh_node ''a'' [''b'', ''ghost''], fresh_node ''b'' [''a''], fresh_node ''ghost'' []],
     complexity = Moderate\<rparr>"

lemma tangled_refused:
  "case fst (finalizePlanWithConfig demo_planner tangled_plan None demo_cfg [] True) of Inl e \<Rightarrow> False
   | Inr q \<Rightarrow> (case validateDag False (Some (set (reg_names (pl_registry demo_planner)))) (nodes q) of
        Inl (CircularDependency cyc) \<Rightarrow> True | _ \<Rightarrow> False)"
  by code_simp


text \<open>Two calls of \<open>getDaemonDag\<close> for the same job give different plans. When the stored plan
  has no strategist and nothing is disabled, the first plan runs the strategist after all other
  cortices; the push has also landed in the stored array, so the second plan finds a strategist
  without dependencies and runs it first, with no upstream findings.\<close>

theorem daemon_strategist_unwired_on_second_run:
  assumes "disabled_set cfg ovr = []" and "pc_forcedCortices cfg = []"
    and "pc_mandatoryStrategist cfg" and "reg_has (pl_registry p) ''strategist''"
    and "pl_userScoped p = []" and "int (length (nodes base)) < pc_maxCortices cfg"
    and "\<forall>n \<in> set (nodes base). reg_has (pl_registry p) (cortex n)"
    and "\<forall>n \<in> set (nodes base). set (dependsOn n) \<subseteq> cortex ` set (nodes base)"
    and "''strategist'' \<notin> cortex ` set (nodes base)"
    and "map_of dags job = Some base"
    and "getDaemonDag p dags job cfg ovr = (r1, dags1)"
    and "getDaemonDag p dags1 job cfg ovr = (r2, dags2)"
  shows "r1 = Inr (Some (base\<lparr>nodes := nodes base @ [fresh_node ''strategist'' (map cortex (nodes base))]\<rparr>)) \<and>
    r2 = Inr (Some (base\<lparr>nodes := nodes base @ [fresh_node ''strategist'' []]\<rparr>))"
  using daemon_dag_twice [OF assms] by simp

definition daemon_base :: dag_plan where
  "daemon_base = \<lparr>intent = ''sweep'', nodes = [fresh_node ''a'' []], complexity = Moderate\<rparr>"

theorem daemon_strategist_unwired_on_second_run_witness:
  "fst (getDaemonDag demo_planner (snd (getDaemonDag demo_planner [(''job'', daemon_base)] ''job'' demo_cfg [])) ''job'' demo_cfg [])
     = Inr (Some (daemon_base\<lparr>nodes := [fresh_node ''a'' [], fresh_node ''strategist'' []]\<rparr>))"
proof -
  obtain r1 dags1 where g1: "getDaemonDag demo_planner [(''job'', daemon_base)] ''job'' demo_cfg [] = (r1, dags1)"
    by fastforce
  obtain r2 dags2 where g2: "getDaemonDag demo_planner dags1 ''job'' demo_cfg [] = (r2, dags2)"
    by fastforce
  have "r2 = Inr (Some (daemon_base\<lparr>nodes := nodes daemon_base @ [fresh_node ''strategist'' []]\<rparr>))"
    using daemon_strategist_unwired_on_second_run [OF _ _ _ _ _ _ _ _ _ _ g1 g2, of daemon_base]
    by (simp add: daemon_base_def demo_cfg_def demo_planner_def disabled_set_def jset_of_def reg_has_def)
  with g1 g2 show ?thesis by (simp add: daemon_base_def)
qed

end
