(* ===== verification/CycleLoop.thy ===== *)
theory CycleLoop
  imports Runtime Budget Executor Planner "HOL-Library.List_Lexorder" "HOL-Library.Char_ord"
begin

text \<open>
  \<open>packages/thalamus/src/services/cycle-loop.service.ts\<close>: the research loop that executes a
  plan, keeps the confident findings, asks the stop criteria and the reflexion, and replans;
  and the verification summary of a finished loop.

  The loop runs on the models of the executor, the stop criteria, the reflexion and the
  planner. What differs from one iteration to the next in the environment (abort signal,
  replies of the language model, races, runtime configuration) is a function of the iteration.
\<close>

section \<open>Verification summary\<close>

text \<open>
  The regular expressions of the module have the form \<open>/\b(w1|...|wn)\b/i\<close> where every
  alternative starts and ends with a word character: an alternative must occur as a whole word.
  Optional characters are written out as separate alternatives.
\<close>

text \<open>\<open>matches(text, pattern)\<close>; the flag \<open>i\<close> compares in lower case.\<close>

definition re_matches :: "string \<Rightarrow> string list \<Rightarrow> bool" where
  "re_matches txt alternatives =
     (trim txt \<noteq> [] \<and> list_ex (\<lambda>w. has_word w False (to_lower txt)) alternatives)"

definition re_horizon :: "string list" where
  "re_horizon = [''horizon'', ''window'', ''30jours'', ''30 jours'', ''30-day'', ''30 day'', ''week'', ''weeks'', ''days'']"

definition re_monitor :: "string list" where
  "re_monitor = [''monitor'', ''surveil'', ''follow-up'', ''follow up'', ''followup'', ''continue'', ''corroborat'',
     ''widen'', ''verify'', ''recheck'']"

definition re_contradict :: "string list" where
  "re_contradict = [''contradict'', ''inconsisten'', ''conflict'']"

definition re_gap :: "string list" where
  "re_gap = [''missing'', ''gap'', ''coverage'', ''catalog'']"

definition re_finding_monitor :: "string list" where
  "re_finding_monitor = [''monitor'', ''surveil'', ''follow-up'', ''follow up'', ''followup'', ''continue'', ''corroborat'', ''widen'']"

definition re_finding_horizon :: "string list" where
  "re_finding_horizon = [''30jours'', ''30 jours'', ''30-day'', ''30 day'', ''week'', ''weeks'', ''days'']"

datatype reason_code =
    ReplanRequested
  | LowConfidenceRound
  | BudgetExhausted
  | IterationLimitReached
  | LowOverallConfidence
  | HorizonInsufficient
  | NeedsMonitoring
  | ContradictionDetected
  | DataGap

record target_hint =
  th_entityType :: string
  th_entityId :: int
  th_sourceCortex :: "string option"
  th_sourceTitle :: string
  th_confidence :: real

record verification =
  vf_needsVerification :: bool
  vf_reasonCodes :: "reason_code list"
  vf_targetHints :: "target_hint list"
  vf_confidence :: real

definition clamp01 :: "real \<Rightarrow> real" where
  "clamp01 v = (if v < 0 then 0 else if v > 1 then 1 else v)"

definition add_when :: "bool \<Rightarrow> reason_code \<Rightarrow> reason_code list \<Rightarrow> reason_code list" where
  "add_when b r rs = (if b then jset_add r rs else rs)"

text \<open>
  \<open>pushVerificationTarget\<close>: the key of a hint is its entity type and id, so the set of keys
  already seen is read off the accumulated hints.
\<close>

definition hint_key :: "target_hint \<Rightarrow> string \<times> int" where
  "hint_key h = (th_entityType h, th_entityId h)"

definition pushVerificationTarget :: "target_hint list \<Rightarrow> target_hint \<Rightarrow> target_hint list" where
  "pushVerificationTarget acc hint =
     (if hint_key hint \<in> hint_key ` set acc then acc else acc @ [hint])"

text \<open>Lines 311 to 330. A relevant edge whose id is not an integer makes \<open>BigInt\<close> throw.\<close>

fun push_edges :: "(string \<Rightarrow> bool) option \<Rightarrow> finding \<Rightarrow> edge list \<Rightarrow> target_hint list \<Rightarrow> target_hint list throws" where
  "push_edges relevant f [] acc = Inr acc"
| "push_edges relevant f (e # es) acc =
     (if (case relevant of Some p \<Rightarrow> \<not> p (e_entityType e) | None \<Rightarrow> False)
      then push_edges relevant f es acc
      else (case js_bigint (e_entityId e) of
              Inl err \<Rightarrow> Inl err
            | Inr i \<Rightarrow>
                push_edges relevant f es (pushVerificationTarget acc
                  \<lparr>th_entityType = e_entityType e, th_entityId = i, th_sourceCortex = f_sourceCortex f,
                   th_sourceTitle = f_title f, th_confidence = f_confidence f\<rparr>)))"

text \<open>Lines 299 to 331.\<close>

fun scan_findings ::
  "(string \<Rightarrow> bool) option \<Rightarrow> finding list \<Rightarrow> reason_code list \<Rightarrow> target_hint list \<Rightarrow>
   (reason_code list \<times> target_hint list) throws" where
  "scan_findings relevant [] rs acc = Inr (rs, acc)"
| "scan_findings relevant (f # fs) rs acc =
     (let txt = f_title f @ '' '' @ f_summary f;
          rs1 = add_when (re_matches txt re_finding_monitor) NeedsMonitoring rs;
          rs2 = add_when (re_matches txt re_finding_horizon) HorizonInsufficient rs1;
          rs3 = add_when (re_matches txt re_gap) DataGap rs2
      in case push_edges relevant f (f_edges f) acc of
           Inl err \<Rightarrow> Inl err
         | Inr acc' \<Rightarrow> scan_findings relevant fs rs3 acc')"

definition buildCycleVerification ::
  "finding list \<Rightarrow> reflexion_result option \<Rightarrow> nat \<Rightarrow> nat \<Rightarrow> stop_reason \<Rightarrow> (string \<Rightarrow> bool) option \<Rightarrow>
   verification throws" where
  "buildCycleVerification allFindings finalReflexion lowConfidenceRounds replanCount stopReason relevant =
     (let confidence = clamp01 (case finalReflexion of Some r \<Rightarrow> rr_overallConfidence r
                                | None \<Rightarrow> avgConfidence allFindings);
          gapText = join '' | '' (case finalReflexion of Some r \<Rightarrow> (case rr_gaps r of Some g \<Rightarrow> g | None \<Rightarrow> []) | None \<Rightarrow> []);
          notesText = (case finalReflexion of Some r \<Rightarrow> rr_notes r | None \<Rightarrow> []);
          reflexionText = gapText @ '' | '' @ notesText;
          rs1 = add_when (replanCount > 0) ReplanRequested [];
          rs2 = add_when (lowConfidenceRounds > 0) LowConfidenceRound rs1;
          rs3 = add_when (stopReason = CostExhausted) BudgetExhausted rs2;
          rs4 = add_when (stopReason = MaxIterations) IterationLimitReached rs3;
          rs5 = add_when (confidence < 65 / 100) LowOverallConfidence rs4;
          rs6 = add_when (re_matches reflexionText re_horizon) HorizonInsufficient rs5;
          rs7 = add_when (re_matches reflexionText re_monitor) NeedsMonitoring rs6;
          rs8 = add_when (re_matches reflexionText re_contradict) ContradictionDetected rs7;
          rs9 = add_when (re_matches reflexionText re_gap) DataGap rs8
      in case scan_findings relevant allFindings rs9 [] of
           Inl err \<Rightarrow> Inl err
         | Inr (rs, hints) \<Rightarrow>
             Inr \<lparr>vf_needsVerification = (length rs > 0 \<or> length hints > 0),
                  vf_reasonCodes = rs, vf_targetHints = hints, vf_confidence = confidence\<rparr>)"

section \<open>The loop\<close>

datatype loop_point = BeforeIteration | AfterExecute | AfterReflexion

record loop_env =
  le_signal :: "nat \<Rightarrow> loop_point \<Rightarrow> signal"
  le_exec :: "nat \<Rightarrow> exec_env"
  le_known :: "string list option"
  le_reflexionReply :: "nat \<Rightarrow> string throws"
  le_parseReflexion :: "string \<Rightarrow> reflexion_result throws"
  le_planner :: planner
  le_plannerCfg :: "nat \<Rightarrow> planner_cfg \<times> enabled_overrides"
  le_planReply :: "string \<Rightarrow> string throws"
  le_parsePlan :: "string \<Rightarrow> dag_plan throws"
  le_relevant :: "(string \<Rightarrow> bool) option"

record loop_ctx =
  lc_run :: run_ctx
  lc_query :: string
  lc_minConfidence :: "real option"
  lc_hasUser :: "bool option"
  lc_maxIter :: int
  lc_maxCost :: real
  lc_budget :: iteration_budget

record loop_state =
  ls_allFindings :: "finding list"
  ls_iteration :: nat
  ls_totalCost :: real
  ls_zeroRuns :: nat
  ls_identicalGaps :: nat
  ls_lastGapSignature :: "string option"
  ls_lastReflexion :: "reflexion_result option"
  ls_lowConfidenceRounds :: nat
  ls_replanCount :: nat
  ls_stopReason :: stop_reason
  ls_plan :: dag_plan

definition loop_init :: "dag_plan \<Rightarrow> loop_state" where
  "loop_init plan =
     \<lparr>ls_allFindings = [], ls_iteration = 0, ls_totalCost = 0, ls_zeroRuns = 0, ls_identicalGaps = 0,
      ls_lastGapSignature = None, ls_lastReflexion = None, ls_lowConfidenceRounds = 0,
      ls_replanCount = 0, ls_stopReason = Completed, ls_plan = plan\<rparr>"

definition gap_signature :: "reflexion_result \<Rightarrow> string" where
  "gap_signature r = join ''|'' (sort (map (\<lambda>g. to_lower (trim g)) (or_else (rr_gaps r) [])))"

definition refined_query :: "string \<Rightarrow> nat \<Rightarrow> finding list \<Rightarrow> reflexion_result \<Rightarrow> string" where
  "refined_query query iteration allFindings r =
     query @ [CHR 0x0A, CHR 0x0A] @ ''Iteration '' @ show_nat iteration @ ''. Previous findings: '' @
     join ''; '' (map f_title allFindings) @ [CHR 0x0A] @ ''Gaps: '' @
     (case rr_gaps r of Some g \<Rightarrow> join '', '' g | None \<Rightarrow> ''need more evidence'')"

text \<open>Lines 103 to 134: the outputs of one execution are added up.\<close>

definition absorb :: "loop_ctx \<Rightarrow> outputs \<Rightarrow> loop_state \<Rightarrow> loop_state \<times> finding list \<times> finding list" where
  "absorb ctx outputs s =
     (let newFindings = concat (map (o_findings \<circ> snd) outputs);
          iterationCost = sum_list (map (estimateCortexOutputCostUsd \<circ> snd) outputs);
          kept = filter (\<lambda>f. f_confidence f \<ge> or_else (lc_minConfidence ctx) (7 / 10)) newFindings
      in (s\<lparr>ls_totalCost := ls_totalCost s + iterationCost,
            ls_allFindings := ls_allFindings s @ kept,
            ls_zeroRuns := (if kept = [] then Suc (ls_zeroRuns s) else 0),
            ls_lowConfidenceRounds :=
              (if kept = [] \<and> newFindings \<noteq> [] then Suc (ls_lowConfidenceRounds s)
               else ls_lowConfidenceRounds s)\<rparr>,
          newFindings, kept))"

definition stop_state_of :: "loop_ctx \<Rightarrow> finding list \<Rightarrow> loop_state \<Rightarrow> stop_state" where
  "stop_state_of ctx kept s =
     \<lparr>st_iteration = ls_iteration s, st_totalCost = ls_totalCost s, st_maxCost = lc_maxCost ctx,
      st_consecutiveZeroRuns = ls_zeroRuns s, st_consecutiveIdenticalGaps = ls_identicalGaps s,
      st_allFindings = ls_allFindings s, st_kept = kept, st_plan = ls_plan s, st_budget = lc_budget ctx\<rparr>"

text \<open>Lines 194 to 207: one more replan, and the plateau counter.\<close>

definition note_gaps :: "reflexion_result \<Rightarrow> loop_state \<Rightarrow> loop_state" where
  "note_gaps r s =
     (let sig = gap_signature r in
      s\<lparr>ls_replanCount := Suc (ls_replanCount s),
        ls_identicalGaps := (if sig \<noteq> [] \<and> ls_lastGapSignature s = Some sig then Suc (ls_identicalGaps s) else 0),
        ls_lastGapSignature := Some sig\<rparr>)"

text \<open>Lines 184 to 227: what follows from the verdict \<open>r\<close>. The boolean says whether the loop goes on.\<close>

definition act_on_reflexion ::
  "loop_env \<Rightarrow> loop_ctx \<Rightarrow> reflexion_result \<Rightarrow> loop_state \<Rightarrow> exec_error + loop_state \<times> bool" where
  "act_on_reflexion env ctx r s =
     (let s1 = s\<lparr>ls_lastReflexion := Some r\<rparr> in
      if \<not> rr_replan r then Inr (s1\<lparr>ls_stopReason := ReflexionSufficient\<rparr>, False)
      else (let s2 = note_gaps r s1 in
            if ls_identicalGaps s2 \<ge> GAP_PLATEAU_STOP
            then Inr (s2\<lparr>ls_stopReason := GapPlateau\<rparr>, False)
            else (let i = ls_iteration s2;
                      q = refined_query (lc_query ctx) i (ls_allFindings s2) r in
                  case plan_query (le_planner env) (le_parsePlan env) (le_planReply env q) q
                         (lc_hasUser ctx) (fst (le_plannerCfg env i)) (snd (le_plannerCfg env i)) of
                    Inl e \<Rightarrow> Inl (Thrown e)
                  | Inr plan \<Rightarrow> Inr (s2\<lparr>ls_plan := plan\<rparr>, True))))"

text \<open>Lines 170 to 228: reflexion and replanning after an iteration that did not stop.\<close>

definition reflect ::
  "loop_env \<Rightarrow> loop_ctx \<Rightarrow> finding list \<Rightarrow> loop_state \<Rightarrow> exec_error + loop_state \<times> bool" where
  "reflect env ctx newFindings s =
     (let i = ls_iteration s in
      if int i < lc_maxIter ctx
      then (case reflexion_evaluate (le_parseReflexion env) (le_reflexionReply env i) newFindings (ls_allFindings s) of
              Inl e \<Rightarrow> Inl (Thrown e)
            | Inr r \<Rightarrow>
                (case throwIfAborted (le_signal env i AfterReflexion) of
                   Inl e \<Rightarrow> Inl (Thrown e)
                 | Inr _ \<Rightarrow> act_on_reflexion env ctx r s))
      else Inr (s, True))"

text \<open>One pass through the body of the \<open>while\<close> loop.\<close>

definition iterate :: "loop_env \<Rightarrow> loop_ctx \<Rightarrow> loop_state \<Rightarrow> exec_error + loop_state \<times> bool" where
  "iterate env ctx s0 =
     (case throwIfAborted (le_signal env (ls_iteration s0) BeforeIteration) of
        Inl e \<Rightarrow> Inl (Thrown e)
      | Inr _ \<Rightarrow>
          (let s = s0\<lparr>ls_iteration := Suc (ls_iteration s0)\<rparr>; i = ls_iteration s in
           case execute (le_exec env i) (le_known env) (ls_plan s) (lc_run ctx) of
             Inl e \<Rightarrow> Inl e
           | Inr outputs \<Rightarrow>
               (case throwIfAborted (le_signal env i AfterExecute) of
                  Inl e \<Rightarrow> Inl (Thrown e)
                | Inr _ \<Rightarrow>
                    (let (s1, newFindings, kept) = absorb ctx outputs s in
                     case fst (shouldStop (stop_state_of ctx kept s1)) of
                       Some reason \<Rightarrow> Inr (s1\<lparr>ls_stopReason := reason\<rparr>, False)
                     | None \<Rightarrow> reflect env ctx newFindings s1))))"

lemma absorb_iteration: "absorb ctx outs s = (s', new, kept) \<Longrightarrow> ls_iteration s' = ls_iteration s"
  by (auto simp: absorb_def Let_def)

lemma reflect_iteration: "reflect env ctx new s = Inr (s', go) \<Longrightarrow> ls_iteration s' = ls_iteration s"
  by (auto simp: reflect_def act_on_reflexion_def Let_def note_gaps_def split: if_splits sum.splits)

lemma iterate_iteration: "iterate env ctx s = Inr (s', go) \<Longrightarrow> ls_iteration s' = Suc (ls_iteration s)"
  by (auto simp: iterate_def Let_def split: sum.splits prod.splits option.splits
      dest!: absorb_iteration reflect_iteration)

function cycle_loop :: "loop_env \<Rightarrow> loop_ctx \<Rightarrow> loop_state \<Rightarrow> exec_error + loop_state" where
  "cycle_loop env ctx s =
     (if int (ls_iteration s) < lc_maxIter ctx
      then (case iterate env ctx s of
              Inl e \<Rightarrow> Inl e
            | Inr (s', go) \<Rightarrow> if go then cycle_loop env ctx s' else Inr s')
      else Inr s)"
  by pat_completeness auto
termination
  by (relation "measure (\<lambda>(env, ctx, s). nat (lc_maxIter ctx - int (ls_iteration s)))")
    (auto dest: iterate_iteration)

declare cycle_loop.simps [simp del]

record loop_result =
  lr_allFindings :: "finding list"
  lr_totalCost :: real
  lr_iterations :: nat
  lr_finalPlan :: dag_plan
  lr_stopReason :: stop_reason
  lr_verification :: verification

definition final_reason :: "loop_ctx \<Rightarrow> loop_state \<Rightarrow> stop_reason" where
  "final_reason ctx s =
     (if lc_maxIter ctx \<le> int (ls_iteration s) \<and> ls_stopReason s = Completed then MaxIterations
      else ls_stopReason s)"

text \<open>
  \<open>run\<close>. The code's result has no stop reason of its own; the model keeps the local variable
  that the verification summary is built from.
\<close>

definition run_loop :: "loop_env \<Rightarrow> loop_ctx \<Rightarrow> dag_plan \<Rightarrow> exec_error + loop_result" where
  "run_loop env ctx initialPlan =
     (case cycle_loop env ctx (loop_init initialPlan) of
        Inl e \<Rightarrow> Inl e
      | Inr s \<Rightarrow>
          (let stopReason = final_reason ctx s in
           case buildCycleVerification (ls_allFindings s) (ls_lastReflexion s) (ls_lowConfidenceRounds s)
                  (ls_replanCount s) stopReason (le_relevant env) of
             Inl e \<Rightarrow> Inl (Thrown e)
           | Inr v \<Rightarrow>
               Inr \<lparr>lr_allFindings = ls_allFindings s, lr_totalCost = ls_totalCost s,
                    lr_iterations = ls_iteration s, lr_finalPlan = ls_plan s,
                    lr_stopReason = stopReason, lr_verification = v\<rparr>))"

section \<open>Loop heads\<close>

text \<open>The states in which the \<open>while\<close> condition is evaluated.\<close>

inductive loop_head :: "loop_env \<Rightarrow> loop_ctx \<Rightarrow> dag_plan \<Rightarrow> loop_state \<Rightarrow> bool" for env ctx plan where
  start: "loop_head env ctx plan (loop_init plan)"
| again: "loop_head env ctx plan s \<Longrightarrow> int (ls_iteration s) < lc_maxIter ctx \<Longrightarrow>
    iterate env ctx s = Inr (s', True) \<Longrightarrow> loop_head env ctx plan s'"

lemma cycle_loop_from_head:
  "cycle_loop env ctx s = Inr s' \<Longrightarrow> loop_head env ctx plan s \<Longrightarrow>
   \<exists>h. loop_head env ctx plan h \<and>
     (s' = h \<and> lc_maxIter ctx \<le> int (ls_iteration h) \<or>
      int (ls_iteration h) < lc_maxIter ctx \<and> iterate env ctx h = Inr (s', False))"
proof (induction env ctx s rule: cycle_loop.induct)
  case (1 env ctx s)
  show ?case
  proof (cases "int (ls_iteration s) < lc_maxIter ctx")
    case False
    with "1.prems" show ?thesis by (auto simp: cycle_loop.simps)
  next
    case True
    with "1.prems"(1) obtain t go where it: "iterate env ctx s = Inr (t, go)"
      and rest: "(if go then cycle_loop env ctx t else Inr t) = Inr s'"
      by (subst (asm) cycle_loop.simps) (auto split: sum.splits prod.splits)
    show ?thesis
    proof (cases go)
      case True
      with rest it "1.IH" [OF \<open>int (ls_iteration s) < lc_maxIter ctx\<close> it _ True]
        loop_head.again [OF "1.prems"(2) \<open>int (ls_iteration s) < lc_maxIter ctx\<close>]
      show ?thesis by auto
    next
      case False
      with rest it "1.prems"(2) True show ?thesis by auto
    qed
  qed
qed

text \<open>
  What one pass does, split by how it ends. All three cases start from the absorbed outputs.
\<close>

definition after_execute :: "loop_env \<Rightarrow> loop_ctx \<Rightarrow> loop_state \<Rightarrow> loop_state \<Rightarrow> finding list \<Rightarrow> finding list \<Rightarrow> bool" where
  "after_execute env ctx s s1 new kept \<longleftrightarrow>
     (\<exists>outputs. execute (le_exec env (Suc (ls_iteration s))) (le_known env) (ls_plan s) (lc_run ctx) = Inr outputs \<and>
        absorb ctx outputs (s\<lparr>ls_iteration := Suc (ls_iteration s)\<rparr>) = (s1, new, kept))"

lemma iterate_cases:
  assumes "iterate env ctx s = Inr (s', go)"
  obtains (stopped) s1 new kept reason where "after_execute env ctx s s1 new kept"
      "fst (shouldStop (stop_state_of ctx kept s1)) = Some reason" "s' = s1\<lparr>ls_stopReason := reason\<rparr>" "\<not> go"
    | (reflected) s1 new kept where "after_execute env ctx s s1 new kept"
      "fst (shouldStop (stop_state_of ctx kept s1)) = None" "reflect env ctx new s1 = Inr (s', go)"
  using assms that
  by (auto simp: iterate_def after_execute_def Let_def split: sum.splits prod.splits option.splits)

lemma reflect_cases:
  assumes "reflect env ctx new s = Inr (s', go)"
  obtains (last) "s' = s" "go" "lc_maxIter ctx \<le> int (ls_iteration s)"
    | (enough) r where "s' = s\<lparr>ls_lastReflexion := Some r, ls_stopReason := ReflexionSufficient\<rparr>" "\<not> go" "\<not> rr_replan r"
    | (plateau) r where "s' = (note_gaps r (s\<lparr>ls_lastReflexion := Some r\<rparr>))\<lparr>ls_stopReason := GapPlateau\<rparr>" "\<not> go"
        "GAP_PLATEAU_STOP \<le> ls_identicalGaps s'"
    | (replan) r plan where "s' = (note_gaps r (s\<lparr>ls_lastReflexion := Some r\<rparr>))\<lparr>ls_plan := plan\<rparr>" "go"
        "ls_identicalGaps s' < GAP_PLATEAU_STOP"
proof (cases "int (ls_iteration s) < lc_maxIter ctx")
  case False
  with assms last show thesis by (simp add: reflect_def Let_def)
next
  case True
  with assms obtain r where act: "act_on_reflexion env ctx r s = Inr (s', go)"
    by (auto simp: reflect_def Let_def split: sum.splits)
  let ?t = "note_gaps r (s\<lparr>ls_lastReflexion := Some r\<rparr>)"
  consider "\<not> rr_replan r" | "rr_replan r" "GAP_PLATEAU_STOP \<le> ls_identicalGaps ?t"
    | "rr_replan r" "ls_identicalGaps ?t < GAP_PLATEAU_STOP"
    by linarith
  then show thesis
  proof cases
    case 1
    with act have "s' = s\<lparr>ls_lastReflexion := Some r, ls_stopReason := ReflexionSufficient\<rparr>" "\<not> go"
      by (auto simp: act_on_reflexion_def Let_def)
    with 1 enough show thesis by blast
  next
    case 2
    with act have "s' = ?t\<lparr>ls_stopReason := GapPlateau\<rparr>" "\<not> go"
      by (auto simp: act_on_reflexion_def Let_def)
    with 2 plateau show thesis by simp
  next
    case 3
    from 3 act obtain plan where "s' = ?t\<lparr>ls_plan := plan\<rparr>" "go"
      by (auto simp: act_on_reflexion_def Let_def split: sum.splits)
    with 3 replan show thesis by simp
  qed
qed

lemma after_execute_simps:
  assumes "after_execute env ctx s s1 new kept"
  shows "ls_iteration s1 = Suc (ls_iteration s)" "ls_stopReason s1 = ls_stopReason s"
    "ls_identicalGaps s1 = ls_identicalGaps s" "ls_lastGapSignature s1 = ls_lastGapSignature s"
    "ls_replanCount s1 = ls_replanCount s" "ls_lastReflexion s1 = ls_lastReflexion s"
    "ls_allFindings s1 = ls_allFindings s @ kept" "ls_totalCost s \<le> ls_totalCost s1"
    "ls_zeroRuns s1 = (if kept = [] then Suc (ls_zeroRuns s) else 0)"
    "\<And>f. f \<in> set kept \<Longrightarrow> or_else (lc_minConfidence ctx) (7 / 10) \<le> f_confidence f"
  using assms
  by (auto simp: after_execute_def absorb_def Let_def intro!: sum_list_nonneg estimate_nonneg)

lemma shouldStop_None:
  "fst (shouldStop s) = None \<Longrightarrow> st_consecutiveZeroRuns s < 2 \<and> st_totalCost s < st_maxCost s"
  by (auto simp: shouldStop_def Let_def consecutiveZeroStop_def split: if_splits)

lemma note_gaps_simps [simp]:
  "ls_iteration (note_gaps r s) = ls_iteration s" "ls_stopReason (note_gaps r s) = ls_stopReason s"
  "ls_allFindings (note_gaps r s) = ls_allFindings s" "ls_totalCost (note_gaps r s) = ls_totalCost s"
  "ls_zeroRuns (note_gaps r s) = ls_zeroRuns s" "ls_replanCount (note_gaps r s) = Suc (ls_replanCount s)"
  "ls_lastGapSignature (note_gaps r s) \<noteq> None"
  by (auto simp: note_gaps_def Let_def)

lemma note_gaps_bound:
  "ls_identicalGaps (note_gaps r s) \<le> ls_identicalGaps s + (if ls_lastGapSignature s = None then 0 else 1)"
  by (auto simp: note_gaps_def Let_def)

text \<open>The facts every state of the loop satisfies.\<close>

definition common_inv :: "loop_ctx \<Rightarrow> loop_state \<Rightarrow> bool" where
  "common_inv ctx s \<longleftrightarrow>
     int (ls_iteration s) \<le> max 0 (lc_maxIter ctx) \<and> 0 \<le> ls_totalCost s \<and>
     (\<forall>f \<in> set (ls_allFindings s). or_else (lc_minConfidence ctx) (7 / 10) \<le> f_confidence f) \<and>
     ls_identicalGaps s + (if ls_lastGapSignature s = None then 0 else 1) \<le> ls_replanCount s \<and>
     ls_replanCount s \<le> ls_iteration s"

definition head_inv :: "loop_ctx \<Rightarrow> loop_state \<Rightarrow> bool" where
  "head_inv ctx s \<longleftrightarrow>
     common_inv ctx s \<and> ls_stopReason s = Completed \<and> ls_zeroRuns s < 2 \<and> ls_identicalGaps s < 2 \<and>
     (0 < ls_iteration s \<longrightarrow> ls_totalCost s < lc_maxCost ctx)"

definition stop_inv :: "loop_ctx \<Rightarrow> loop_state \<Rightarrow> bool" where
  "stop_inv ctx s \<longleftrightarrow>
     common_inv ctx s \<and> ls_stopReason s \<noteq> Completed \<and> ls_stopReason s \<noteq> MaxIterations \<and>
     (ls_stopReason s = CostExhausted \<longrightarrow> lc_maxCost ctx \<le> ls_totalCost s) \<and>
     (ls_stopReason s = ConsecutiveZeroRuns \<longrightarrow> 2 \<le> ls_iteration s) \<and>
     (ls_stopReason s = GapPlateau \<longrightarrow> 3 \<le> ls_replanCount s)"

lemma after_execute_common:
  assumes "head_inv ctx s" and "int (ls_iteration s) < lc_maxIter ctx" and "after_execute env ctx s s1 new kept"
  shows "int (ls_iteration s1) \<le> max 0 (lc_maxIter ctx)" "0 \<le> ls_totalCost s1"
    "\<forall>f \<in> set (ls_allFindings s1). or_else (lc_minConfidence ctx) (7 / 10) \<le> f_confidence f"
    "ls_identicalGaps s1 + (if ls_lastGapSignature s1 = None then 0 else 1) \<le> ls_replanCount s1"
    "ls_replanCount s1 < ls_iteration s1" "ls_stopReason s1 = Completed" "ls_identicalGaps s1 < 2"
  using assms(1,2) after_execute_simps [OF assms(3)] by (auto simp: head_inv_def common_inv_def)

lemma zero_runs_iterations:
  "loop_head env ctx plan s \<Longrightarrow> ls_zeroRuns s \<le> ls_iteration s"
proof (induction rule: loop_head.induct)
  case start
  then show ?case by (simp add: loop_init_def)
next
  case (again s s')
  from again.hyps(3) show ?case
  proof (cases rule: iterate_cases)
    case (stopped s1 new kept reason)
    then show ?thesis by simp
  next
    case (reflected s1 new kept)
    note s1 = after_execute_simps [OF reflected(1)]
    from reflected(3) show ?thesis
      by (cases rule: reflect_cases) (use s1 again.IH in \<open>auto split: if_splits\<close>)
  qed
qed

lemma iterate_inv:
  assumes inv: "head_inv ctx s" and lt: "int (ls_iteration s) < lc_maxIter ctx"
    and zi: "ls_zeroRuns s \<le> ls_iteration s"
    and it: "iterate env ctx s = Inr (s', go)"
  shows "if go then head_inv ctx s' else stop_inv ctx s'"
  using it
proof (cases rule: iterate_cases)
  case (stopped s1 new kept reason)
  note c = after_execute_common [OF inv lt stopped(1)] and s1 = after_execute_simps [OF stopped(1)]
  have "reason = ConsecutiveZeroRuns \<and> 2 \<le> ls_zeroRuns s1 \<or>
      reason = CostExhausted \<and> lc_maxCost ctx \<le> ls_totalCost s1 \<or> reason = EagernessSatisfied"
    using shouldStop_reasons [OF stopped(2)] c(7) by (auto simp: stop_state_of_def)
  moreover have "ls_zeroRuns s1 \<le> ls_iteration s1" using s1(1,9) zi by auto
  ultimately show ?thesis
    using c stopped(3,4) by (auto simp: stop_inv_def common_inv_def)
next
  case (reflected s1 new kept)
  note c = after_execute_common [OF inv lt reflected(1)]
  have n: "ls_zeroRuns s1 < 2" "ls_totalCost s1 < lc_maxCost ctx"
    using shouldStop_None [OF reflected(2)] by (auto simp: stop_state_of_def)
  from reflected(3) show ?thesis
  proof (cases rule: reflect_cases)
    case last
    then show ?thesis using c n by (auto simp: head_inv_def common_inv_def)
  next
    case (enough r)
    then show ?thesis using c by (auto simp: stop_inv_def common_inv_def)
  next
    case (plateau r)
    let ?t = "s1\<lparr>ls_lastReflexion := Some r\<rparr>"
    have "ls_identicalGaps (note_gaps r ?t) \<le> ls_identicalGaps s1 + (if ls_lastGapSignature s1 = None then 0 else 1)"
      using note_gaps_bound [of r ?t] by simp
    then show ?thesis using c plateau by (auto simp: stop_inv_def common_inv_def GAP_PLATEAU_STOP_def)
  next
    case (replan r plan)
    let ?t = "s1\<lparr>ls_lastReflexion := Some r\<rparr>"
    have "ls_identicalGaps (note_gaps r ?t) \<le> ls_identicalGaps s1 + (if ls_lastGapSignature s1 = None then 0 else 1)"
      using note_gaps_bound [of r ?t] by simp
    then show ?thesis using c n replan by (auto simp: head_inv_def common_inv_def GAP_PLATEAU_STOP_def)
  qed
qed

lemma loop_head_inv: "loop_head env ctx plan s \<Longrightarrow> head_inv ctx s"
proof (induction rule: loop_head.induct)
  case start
  then show ?case by (simp add: head_inv_def common_inv_def loop_init_def)
next
  case (again s s')
  then show ?case using iterate_inv [of ctx s env s' True] zero_runs_iterations by auto
qed

text \<open>A finished loop stopped in one of two ways.\<close>

lemma run_loop_cases:
  assumes "run_loop env ctx plan = Inr r"
  obtains s where "common_inv ctx s" "lr_allFindings r = ls_allFindings s" "lr_totalCost r = ls_totalCost s"
    "lr_iterations r = ls_iteration s" "lr_stopReason r = final_reason ctx s"
    "stop_inv ctx s \<or> (head_inv ctx s \<and> loop_head env ctx plan s \<and> lc_maxIter ctx \<le> int (ls_iteration s))"
    "buildCycleVerification (ls_allFindings s) (ls_lastReflexion s) (ls_lowConfidenceRounds s)
       (ls_replanCount s) (lr_stopReason r) (le_relevant env) = Inr (lr_verification r)"
proof -
  from assms obtain s where s: "cycle_loop env ctx (loop_init plan) = Inr s"
    and r: "lr_allFindings r = ls_allFindings s" "lr_totalCost r = ls_totalCost s"
    "lr_iterations r = ls_iteration s" "lr_stopReason r = final_reason ctx s"
    "buildCycleVerification (ls_allFindings s) (ls_lastReflexion s) (ls_lowConfidenceRounds s)
       (ls_replanCount s) (lr_stopReason r) (le_relevant env) = Inr (lr_verification r)"
    by (auto simp: run_loop_def Let_def split: sum.splits)
  from cycle_loop_from_head [OF s loop_head.start] obtain h where h: "loop_head env ctx plan h"
    and alt: "s = h \<and> lc_maxIter ctx \<le> int (ls_iteration h) \<or>
      int (ls_iteration h) < lc_maxIter ctx \<and> iterate env ctx h = Inr (s, False)"
    by blast
  from alt have "stop_inv ctx s \<or> (head_inv ctx s \<and> loop_head env ctx plan s \<and> lc_maxIter ctx \<le> int (ls_iteration s))"
    using loop_head_inv [OF h] iterate_inv [OF loop_head_inv [OF h] _ zero_runs_iterations [OF h], of env s False] h
    by auto
  moreover from this have "common_inv ctx s" by (auto simp: stop_inv_def head_inv_def)
  ultimately show thesis using r that by blast
qed

lemma run_loop_verification:
  "run_loop env ctx plan = Inr r \<Longrightarrow>
   \<exists>s :: loop_state. lr_allFindings r = ls_allFindings s \<and>
     buildCycleVerification (ls_allFindings s) (ls_lastReflexion s) (ls_lowConfidenceRounds s)
       (ls_replanCount s) (lr_stopReason r) (le_relevant env) = Inr (lr_verification r)"
  by (auto simp: run_loop_def Let_def split: sum.splits)

lemma run_loop_bounds:
  assumes "run_loop env ctx plan = Inr r"
  shows "int (lr_iterations r) \<le> max 0 (lc_maxIter ctx) \<and> 0 \<le> lr_totalCost r \<and>
    (\<forall>f \<in> set (lr_allFindings r). or_else (lc_minConfidence ctx) (7 / 10) \<le> f_confidence f) \<and>
    lr_stopReason r \<noteq> Completed \<and>
    (lr_stopReason r = CostExhausted \<longrightarrow> lc_maxCost ctx \<le> lr_totalCost r) \<and>
    (lr_stopReason r = MaxIterations \<longrightarrow> lc_maxIter ctx \<le> int (lr_iterations r)) \<and>
    (lr_stopReason r = ConsecutiveZeroRuns \<longrightarrow> 2 \<le> lr_iterations r)"
proof -
  from assms obtain s where s: "common_inv ctx s" "lr_allFindings r = ls_allFindings s"
    "lr_totalCost r = ls_totalCost s" "lr_iterations r = ls_iteration s" "lr_stopReason r = final_reason ctx s"
    and alt: "stop_inv ctx s \<or> (head_inv ctx s \<and> loop_head env ctx plan s \<and> lc_maxIter ctx \<le> int (ls_iteration s))"
    by (rule run_loop_cases)
  from alt show ?thesis
  proof
    assume "stop_inv ctx s"
    then show ?thesis using s by (auto simp: stop_inv_def common_inv_def final_reason_def)
  next
    assume "head_inv ctx s \<and> loop_head env ctx plan s \<and> lc_maxIter ctx \<le> int (ls_iteration s)"
    then show ?thesis using s by (auto simp: head_inv_def common_inv_def final_reason_def)
  qed
qed

lemma iterate_cost:
  assumes "iterate env ctx s = Inr (s', go)"
  shows "\<exists>outputs. execute (le_exec env (Suc (ls_iteration s))) (le_known env) (ls_plan s) (lc_run ctx) = Inr outputs \<and>
    ls_iteration s' = Suc (ls_iteration s) \<and>
    ls_totalCost s' = ls_totalCost s + sum_list (map (estimateCortexOutputCostUsd \<circ> snd) outputs)"
  using assms
proof (cases rule: iterate_cases)
  case (stopped s1 new kept reason)
  then show ?thesis by (auto simp: after_execute_def absorb_def Let_def)
next
  case (reflected s1 new kept)
  from reflected(1) obtain outputs where o:
    "execute (le_exec env (Suc (ls_iteration s))) (le_known env) (ls_plan s) (lc_run ctx) = Inr outputs"
    "ls_iteration s1 = Suc (ls_iteration s)"
    "ls_totalCost s1 = ls_totalCost s + sum_list (map (estimateCortexOutputCostUsd \<circ> snd) outputs)"
    by (auto simp: after_execute_def absorb_def Let_def)
  from reflected(3) have "ls_iteration s' = ls_iteration s1 \<and> ls_totalCost s' = ls_totalCost s1"
    by (cases rule: reflect_cases) auto
  with o show ?thesis by auto
qed

text \<open>The last iteration of a loop that returned: what it added, and where it started.\<close>

lemma run_loop_last_iteration:
  assumes "run_loop env ctx plan = Inr r"
  shows "if lr_iterations r = 0 then lr_totalCost r = 0
    else \<exists>s outputs. loop_head env ctx plan s \<and> Suc (ls_iteration s) = lr_iterations r \<and>
      execute (le_exec env (lr_iterations r)) (le_known env) (ls_plan s) (lc_run ctx) = Inr outputs \<and>
      lr_totalCost r = ls_totalCost s + sum_list (map (estimateCortexOutputCostUsd \<circ> snd) outputs) \<and>
      (if lr_iterations r = 1 then ls_totalCost s = 0 else ls_totalCost s < lc_maxCost ctx)"
proof -
  from assms obtain s where s: "cycle_loop env ctx (loop_init plan) = Inr s"
    and r: "lr_totalCost r = ls_totalCost s" "lr_iterations r = ls_iteration s"
    by (auto simp: run_loop_def Let_def split: sum.splits)
  have last: ?thesis if h: "loop_head env ctx plan h" and it: "iterate env ctx h = Inr (s, go)" for h go
  proof -
    from iterate_cost [OF it] obtain outputs where o:
      "execute (le_exec env (Suc (ls_iteration h))) (le_known env) (ls_plan h) (lc_run ctx) = Inr outputs"
      "ls_iteration s = Suc (ls_iteration h)"
      "ls_totalCost s = ls_totalCost h + sum_list (map (estimateCortexOutputCostUsd \<circ> snd) outputs)" by blast
    have "if ls_iteration h = 0 then ls_totalCost h = 0 else ls_totalCost h < lc_maxCost ctx"
    proof (cases "ls_iteration h = 0")
      case True
      from h have "h = loop_init plan"
      proof cases
        case (again t)
        from iterate_cost [OF again(3)] True show ?thesis by auto
      qed
      with True show ?thesis by (simp add: loop_init_def)
    next
      case False
      with loop_head_inv [OF h] show ?thesis by (simp add: head_inv_def)
    qed
    with o r h show ?thesis by (auto intro!: exI [of _ h] exI [of _ outputs] split: if_splits)
  qed
  from cycle_loop_from_head [OF s loop_head.start] obtain h where h: "loop_head env ctx plan h"
    and alt: "s = h \<or> iterate env ctx h = Inr (s, False)" by blast
  from alt show ?thesis
  proof
    assume "s = h"
    with h have "loop_head env ctx plan s" by simp
    then show ?thesis
    proof cases
      case start
      with r show ?thesis by (simp add: loop_init_def)
    next
      case (again t)
      from last [OF again(1,3)] show ?thesis .
    qed
  next
    assume "iterate env ctx h = Inr (s, False)"
    from last [OF h this] show ?thesis .
  qed
qed

section \<open>Edges and the verification summary\<close>

definition edge_relevant :: "(string \<Rightarrow> bool) option \<Rightarrow> edge \<Rightarrow> bool" where
  "edge_relevant relevant e = (case relevant of Some p \<Rightarrow> p (e_entityType e) | None \<Rightarrow> True)"

lemma push_edges_integral:
  "push_edges relevant f es acc = Inr acc' \<Longrightarrow>
   \<forall>e \<in> set es. edge_relevant relevant e \<longrightarrow> (\<exists>k. js_bigint (e_entityId e) = Inr k)"
  by (induction relevant f es acc rule: push_edges.induct)
    (auto simp: edge_relevant_def split: if_splits option.splits sum.splits)

lemma scan_findings_integral:
  "scan_findings relevant fs rs acc = Inr res \<Longrightarrow>
   \<forall>f \<in> set fs. \<forall>e \<in> set (f_edges f). edge_relevant relevant e \<longrightarrow> (\<exists>k. js_bigint (e_entityId e) = Inr k)"
  by (induction relevant fs rs acc rule: scan_findings.induct)
    (auto simp: Let_def split: sum.splits dest: push_edges_integral)

lemma distinct_push: "distinct (map hint_key acc) \<Longrightarrow> distinct (map hint_key (pushVerificationTarget acc h))"
  by (auto simp: pushVerificationTarget_def)

lemma push_edges_distinct:
  "push_edges relevant f es acc = Inr acc' \<Longrightarrow> distinct (map hint_key acc) \<Longrightarrow> distinct (map hint_key acc')"
  by (induction relevant f es acc rule: push_edges.induct)
    (auto split: if_splits option.splits sum.splits intro: distinct_push)

lemma add_when_distinct: "distinct rs \<Longrightarrow> distinct (add_when b r rs)"
  by (simp add: add_when_def)

lemma scan_findings_distinct:
  "scan_findings relevant fs rs acc = Inr (rs', acc') \<Longrightarrow> distinct rs \<Longrightarrow> distinct (map hint_key acc) \<Longrightarrow>
   distinct rs' \<and> distinct (map hint_key acc')"
proof (induction relevant fs rs acc rule: scan_findings.induct)
  case (2 relevant f fs rs acc)
  from "2.prems"(1) obtain acc1 where p: "push_edges relevant f (f_edges f) acc = Inr acc1"
    by (auto simp: Let_def split: sum.splits)
  show ?case
    using "2.IH" [OF refl refl refl refl p] "2.prems" p push_edges_distinct [OF p]
    by (simp add: Let_def add_when_distinct)
qed simp

lemma buildCycleVerification_ok:
  assumes "buildCycleVerification fs rfx lowc replans reason relevant = Inr v"
  shows "0 \<le> vf_confidence v \<and> vf_confidence v \<le> 1" and "distinct (vf_reasonCodes v)"
    and "distinct (map hint_key (vf_targetHints v))"
    and "vf_needsVerification v \<longleftrightarrow> vf_reasonCodes v \<noteq> [] \<or> vf_targetHints v \<noteq> []"
    and "\<forall>f \<in> set fs. \<forall>e \<in> set (f_edges f). edge_relevant relevant e \<longrightarrow> (\<exists>k. js_bigint (e_entityId e) = Inr k)"
proof -
  from assms obtain rs where scan: "scan_findings relevant fs rs [] = Inr (vf_reasonCodes v, vf_targetHints v)"
    and d: "distinct rs"
    and needs: "vf_needsVerification v \<longleftrightarrow> vf_reasonCodes v \<noteq> [] \<or> vf_targetHints v \<noteq> []"
    and conf: "0 \<le> vf_confidence v \<and> vf_confidence v \<le> 1"
    unfolding buildCycleVerification_def Let_def
    by (auto simp: clamp01_def add_when_distinct split: sum.splits prod.splits)
  show "distinct (vf_reasonCodes v)" "distinct (map hint_key (vf_targetHints v))"
    using scan_findings_distinct [OF scan d] by simp_all
  show "\<forall>f \<in> set fs. \<forall>e \<in> set (f_edges f). edge_relevant relevant e \<longrightarrow> (\<exists>k. js_bigint (e_entityId e) = Inr k)"
    by (rule scan_findings_integral [OF scan])
  show "0 \<le> vf_confidence v \<and> vf_confidence v \<le> 1"
    "vf_needsVerification v \<longleftrightarrow> vf_reasonCodes v \<noteq> [] \<or> vf_targetHints v \<noteq> []"
    by (fact conf, fact needs)
qed

lemma add_when_keeps: "x \<in> set rs \<Longrightarrow> x \<in> set (add_when b r rs)"
  by (simp add: add_when_def)

lemma scan_findings_keeps:
  "scan_findings relevant fs rs acc = Inr (rs', acc') \<Longrightarrow> set rs \<subseteq> set rs'"
proof (induction relevant fs rs acc rule: scan_findings.induct)
  case (2 relevant f fs rs acc)
  from "2.prems"(1) obtain acc1 where p: "push_edges relevant f (f_edges f) acc = Inr acc1"
    by (auto simp: Let_def split: sum.splits)
  show ?case using "2.IH" [OF refl refl refl refl p] "2.prems" p by (auto simp: Let_def add_when_keeps)
qed simp

lemma buildCycleVerification_replan:
  assumes "buildCycleVerification fs rfx lowc replans reason relevant = Inr v" and "0 < replans"
  shows "ReplanRequested \<in> set (vf_reasonCodes v)"
proof -
  from assms obtain rs where "scan_findings relevant fs rs [] = Inr (vf_reasonCodes v, vf_targetHints v)"
    and "ReplanRequested \<in> set rs"
    unfolding buildCycleVerification_def Let_def
    by (auto simp: add_when_keeps add_when_def split: sum.splits prod.splits)
  then show ?thesis using scan_findings_keeps by blast
qed

section \<open>A concrete run\<close>

definition demo_finding :: finding where
  "demo_finding =
     \<lparr>f_title = ''t'', f_summary = ''s'', f_type = Insight, f_urgency = Low, f_evidence = [],
      f_confidence = 8 / 10, f_impactScore = 5, f_sourceCortex = Some ''a'', f_extensions = None,
      f_dedupKey = None,
      f_edges = [\<lparr>e_entityType = ''satellite'', e_entityId = Fin 7, e_relation = About, e_context = None\<rparr>]\<rparr>"

definition demo_output :: cortex_output where
  "demo_output = \<lparr>o_findings = [demo_finding],
     o_metadata = \<lparr>m_tokensUsed = 0, m_promptTokens = None, m_completionTokens = None, m_duration = 0, m_model = ''local''\<rparr>\<rparr>"

definition flat_plan :: dag_plan where
  "flat_plan = \<lparr>intent = ''q'', nodes = [\<lparr>cortex = ''a'', params = [], dependsOn = []\<rparr>], complexity = Simple\<rparr>"

text \<open>An environment whose reflexion asks for the same gap in every round.\<close>

definition demo_loop_env :: "cortex_output \<Rightarrow> loop_env" where
  "demo_loop_env out =
     \<lparr>le_signal = \<lambda>_ _. None,
      le_exec = \<lambda>_. demo_env\<lparr>ev_race := \<lambda>_ _ _. Settled (Inr out)\<rparr>,
      le_known = None,
      le_reflexionReply = \<lambda>_. Inr [],
      le_parseReflexion = \<lambda>_. Inr \<lparr>rr_replan = True, rr_notes = [], rr_gaps = Some [''x''], rr_overallConfidence = 1 / 2\<rparr>,
      le_planner = demo_planner,
      le_plannerCfg = \<lambda>_. (demo_cfg\<lparr>pc_mandatoryStrategist := False\<rparr>, []),
      le_planReply = \<lambda>_. Inr [],
      le_parsePlan = \<lambda>_. Inr flat_plan,
      le_relevant = None\<rparr>"

definition demo_loop_ctx :: "int \<Rightarrow> real \<Rightarrow> loop_ctx" where
  "demo_loop_ctx maxIter maxCost =
     \<lparr>lc_run = \<lparr>rc_cycleId = 1, rc_lang = None, rc_mode = None, rc_userId = None\<rparr>,
      lc_query = ''q'', lc_minConfidence = None, lc_hasUser = None, lc_maxIter = maxIter, lc_maxCost = maxCost,
      lc_budget = \<lparr>b_maxIterations = 5, b_maxCost = 1, b_confidenceTarget = 2, b_coverageTarget = 1, b_minFindingsToStop = 3\<rparr>\<rparr>"

lemma demo_plateau_run:
  "case run_loop (demo_loop_env demo_output) (demo_loop_ctx 5 1) flat_plan of
     Inl _ \<Rightarrow> False
   | Inr r \<Rightarrow> lr_stopReason r = GapPlateau \<and> lr_iterations r = 3 \<and> length (lr_allFindings r) = 3"
  by code_simp

lemma demo_plateau_loop:
  obtains r where "run_loop (demo_loop_env demo_output) (demo_loop_ctx 5 1) flat_plan = Inr r"
    "lr_stopReason r = GapPlateau" "lr_iterations r = 3"
  using demo_plateau_run by (auto split: sum.splits)

section \<open>Properties\<close>

text \<open>C1: A research loop that returns has run at most \<open>maxIter\<close> iterations (none for a
  non-positive limit), keeps only findings of at least the minimum confidence, reports a
  non-negative cost and a reason to stop other than the initial \<open>completed\<close>. A stop for cost means
  the budget is spent, a stop at the iteration limit means the limit is reached, and a stop for
  fruitless rounds comes after at least two iterations.\<close>

theorem research_loop_result:
  assumes "run_loop env ctx plan = Inr r"
  shows "int (lr_iterations r) \<le> max 0 (lc_maxIter ctx) \<and> 0 \<le> lr_totalCost r \<and>
    (\<forall>f \<in> set (lr_allFindings r). or_else (lc_minConfidence ctx) (7 / 10) \<le> f_confidence f) \<and>
    lr_stopReason r \<noteq> Completed \<and>
    (lr_stopReason r = CostExhausted \<longrightarrow> lc_maxCost ctx \<le> lr_totalCost r) \<and>
    (lr_stopReason r = MaxIterations \<longrightarrow> lc_maxIter ctx \<le> int (lr_iterations r)) \<and>
    (lr_stopReason r = ConsecutiveZeroRuns \<longrightarrow> 2 \<le> lr_iterations r)"
  by (rule run_loop_bounds [OF assms])

theorem research_loop_result_witness:
  "\<exists>r. run_loop (demo_loop_env demo_output) (demo_loop_ctx 5 1) flat_plan = Inr r \<and>
     (\<forall>f \<in> set (lr_allFindings r). 7 / 10 \<le> f_confidence f) \<and> lr_stopReason r \<noteq> Completed"
proof -
  obtain r where r: "run_loop (demo_loop_env demo_output) (demo_loop_ctx 5 1) flat_plan = Inr r"
    using demo_plateau_loop .
  from research_loop_result [OF r] r show ?thesis by (auto simp: demo_loop_ctx_def or_else_def)
qed

text \<open>No iteration is started once the cost budget is spent or two iterations in a row kept
  nothing: whenever the loop is back at its \<open>while\<close> condition, the cost is below the budget and at
  most one fruitless iteration is pending. The gap-plateau test inside \<open>shouldStop\<close> never fires in
  the loop, because the counter is below its limit at every head.\<close>

theorem research_loop_heads_within_budget:
  assumes "loop_head env ctx plan s" and "0 < ls_iteration s"
  shows "ls_totalCost s < lc_maxCost ctx \<and> ls_zeroRuns s < consecutiveZeroStop \<and>
    ls_identicalGaps s < GAP_PLATEAU_STOP"
  using loop_head_inv [OF assms(1)] assms(2)
  by (simp add: head_inv_def consecutiveZeroStop_def GAP_PLATEAU_STOP_def)

theorem research_loop_heads_within_budget_witness:
  "\<exists>s. iterate (demo_loop_env demo_output) (demo_loop_ctx 5 1) (loop_init flat_plan) = Inr (s, True) \<and>
     ls_totalCost s < 1"
proof -
  let ?env = "demo_loop_env demo_output" and ?ctx = "demo_loop_ctx 5 1"
  have "case iterate ?env ?ctx (loop_init flat_plan) of Inl _ \<Rightarrow> False | Inr (s, go) \<Rightarrow> go \<and> ls_iteration s = 1"
    by code_simp
  then obtain s where s: "iterate ?env ?ctx (loop_init flat_plan) = Inr (s, True)" "ls_iteration s = 1"
    by (auto split: sum.splits)
  have "loop_head ?env ?ctx flat_plan s"
    by (rule loop_head.again [OF loop_head.start _ s(1)]) (simp add: loop_init_def demo_loop_ctx_def)
  from research_loop_heads_within_budget [OF this] s show ?thesis by (simp add: demo_loop_ctx_def)
qed

text \<open>The loop stops on a gap plateau only after three reflexion rounds asked for the same gaps:
  the counter starts at 0 in the first of them. The comments call it two identical rounds in a
  row.\<close>

theorem gap_plateau_needs_three_rounds:
  assumes "run_loop env ctx plan = Inr r" and "lr_stopReason r = GapPlateau"
  shows "3 \<le> lr_iterations r \<and> ReplanRequested \<in> set (vf_reasonCodes (lr_verification r))"
proof -
  from assms(1) obtain s where s: "common_inv ctx s" "lr_iterations r = ls_iteration s" "lr_stopReason r = final_reason ctx s"
    and alt: "stop_inv ctx s \<or> (head_inv ctx s \<and> loop_head env ctx plan s \<and> lc_maxIter ctx \<le> int (ls_iteration s))"
    and v: "buildCycleVerification (ls_allFindings s) (ls_lastReflexion s) (ls_lowConfidenceRounds s)
       (ls_replanCount s) (lr_stopReason r) (le_relevant env) = Inr (lr_verification r)"
    by (rule run_loop_cases)
  from alt assms(2) s(3) have "3 \<le> ls_replanCount s"
    by (auto simp: stop_inv_def head_inv_def final_reason_def split: if_splits)
  with s v show ?thesis
    using buildCycleVerification_replan [OF v] by (simp add: common_inv_def)
qed

theorem gap_plateau_needs_three_rounds_witness:
  "\<exists>r. run_loop (demo_loop_env demo_output) (demo_loop_ctx 5 1) flat_plan = Inr r \<and> 3 \<le> lr_iterations r"
proof -
  obtain r where r: "run_loop (demo_loop_env demo_output) (demo_loop_ctx 5 1) flat_plan = Inr r"
    "lr_stopReason r = GapPlateau"
    using demo_plateau_loop .
  from gap_plateau_needs_three_rounds [OF r] r show ?thesis by blast
qed

text \<open>A loop that returns has met only integral entity ids: if a kept finding has a
  verification-relevant edge whose id is fractional or infinite, \<open>BigInt\<close> throws after the last
  iteration and the whole run fails, although \<open>normalizeFinding\<close> lets such ids through.\<close>

theorem fractional_entity_id_fails_the_run:
  assumes "run_loop env ctx plan = Inr r" and "f \<in> set (lr_allFindings r)" and "e \<in> set (f_edges f)"
    and "edge_relevant (le_relevant env) e"
  shows "\<exists>k. e_entityId e = Fin (of_int k)"
proof -
  from run_loop_verification [OF assms(1)] obtain s :: loop_state where s: "lr_allFindings r = ls_allFindings s"
    and v: "buildCycleVerification (ls_allFindings s) (ls_lastReflexion s) (ls_lowConfidenceRounds s)
       (ls_replanCount s) (lr_stopReason r) (le_relevant env) = Inr (lr_verification r)"
    by blast
  from buildCycleVerification_ok(5) [OF v] assms s obtain k where "js_bigint (e_entityId e) = Inr k" by auto
  then show ?thesis by (auto simp: js_bigint_def split: jsnum.splits if_splits)
qed

text \<open>The same run with an edge to the entity 3/2 throws.\<close>

definition fractional_output :: cortex_output where
  "fractional_output =
     demo_output\<lparr>o_findings := [demo_finding\<lparr>f_edges :=
        [\<lparr>e_entityType = ''satellite'', e_entityId = Fin (3 / 2), e_relation = About, e_context = None\<rparr>]\<rparr>]\<rparr>"

theorem fractional_entity_id_fails_the_run_witness:
  "(\<exists>k. e_entityId (hd (f_edges demo_finding)) = Fin (of_int k)) \<and>
   (\<exists>e. run_loop (demo_loop_env fractional_output) (demo_loop_ctx 5 1) flat_plan = Inl e)"
proof
  obtain r where r: "run_loop (demo_loop_env demo_output) (demo_loop_ctx 5 1) flat_plan = Inr r"
    using demo_plateau_loop .
  have "case run_loop (demo_loop_env demo_output) (demo_loop_ctx 5 1) flat_plan of
      Inl _ \<Rightarrow> False | Inr r \<Rightarrow> demo_finding \<in> set (lr_allFindings r)"
    by code_simp
  with r have "demo_finding \<in> set (lr_allFindings r)" by simp
  moreover have "hd (f_edges demo_finding) \<in> set (f_edges demo_finding)" by (simp add: demo_finding_def)
  ultimately show "\<exists>k. e_entityId (hd (f_edges demo_finding)) = Fin (of_int k)"
    by (rule fractional_entity_id_fails_the_run [OF r]) (simp add: edge_relevant_def demo_loop_env_def)
  have "case run_loop (demo_loop_env fractional_output) (demo_loop_ctx 5 1) flat_plan of
      Inl _ \<Rightarrow> True | Inr _ \<Rightarrow> False"
    by code_simp
  then show "\<exists>e. run_loop (demo_loop_env fractional_output) (demo_loop_ctx 5 1) flat_plan = Inl e"
    by (auto split: sum.splits)
qed

text \<open>A text matches one of the module's patterns exactly if it contains, in lower case, one of
  the alternatives as a whole word. The stems among them (\<open>inconsisten\<close>, \<open>corroborat\<close>,
  \<open>surveil\<close>) therefore never match an inflected form.\<close>

theorem re_matches_whole_words:
  assumes "\<forall>w \<in> set ws. w \<noteq> []"
  shows "re_matches txt ws \<longleftrightarrow>
    trim txt \<noteq> [] \<and>
    (\<exists>w \<in> set ws. \<exists>p q. to_lower txt = p @ w @ q \<and> (p = [] \<or> \<not> is_word (last p)) \<and> \<not> word_start q)"
proof -
  have "has_word w False t \<longleftrightarrow> (\<exists>p q. t = p @ w @ q \<and> (p = [] \<or> \<not> is_word (last p)) \<and> \<not> word_start q)"
    if "w \<in> set ws" for w t
  proof -
    have eq: "(if p = [] then \<not> False else \<not> is_word (last p)) = (p = [] \<or> \<not> is_word (last p))" for p
      by simp
    have "w \<noteq> []" using that assms by blast
    from has_word_iff [OF this, of False t] show ?thesis unfolding eq .
  qed
  then show ?thesis by (simp add: re_matches_def list_ex_iff cong: bex_cong)
qed

theorem re_matches_whole_words_witness:
  "\<not> re_matches ''inconsistent contradictory sources'' re_contradict \<and>
   (\<exists>w \<in> set re_contradict. \<exists>p q. to_lower ''Reports Conflict'' = p @ w @ q \<and>
      (p = [] \<or> \<not> is_word (last p)) \<and> \<not> word_start q)"
proof
  show "\<not> re_matches ''inconsistent contradictory sources'' re_contradict" by code_simp
  have "\<forall>w \<in> set re_contradict. w \<noteq> []" by (simp add: re_contradict_def)
  moreover have "re_matches ''Reports Conflict'' re_contradict" by code_simp
  ultimately show "\<exists>w \<in> set re_contradict. \<exists>p q. to_lower ''Reports Conflict'' = p @ w @ q \<and>
      (p = [] \<or> \<not> is_word (last p)) \<and> \<not> word_start q"
    by (rule re_matches_whole_words [THEN iffD1, THEN conjunct2])
qed

end
