(* ===== verification/Confidence.thy ===== *)
theory Confidence
  imports Prelude
begin

text \<open>
  \<open>packages/thalamus/src/cortices/confidence.ts\<close>, the confidence of knowledge-graph edges
  with its provenance log, and \<open>field-correlation.ts\<close>, which turns field events into
  promotions and demotions. Dates are milliseconds.
\<close>

section \<open>Data\<close>

datatype source_class =
    SIM_UNCORROBORATED
  | SIM_CORROBORATED
  | OSINT_UNCORROBORATED
  | OSINT_CORROBORATED
  | FIELD_LOW
  | FIELD_HIGH

record edge_conf =
  cf_value :: real
  cf_class :: source_class
  cf_lastPromotedAt :: "int option"
  cf_lastDemotedAt :: "int option"
  cf_corroborationCount :: int
  cf_fieldEventId :: "string option"

datatype actor = OsintSwarm | FieldCorrelation | Analyst | Sweep | SimFish

type_synonym conf_point = "real \<times> source_class"

datatype reason =
    InitialWrite | OsintCorroboration | FieldMatch | SimInference | ReviewerAccept
  | FieldContradiction | AnalystOverride | FreshnessExpired

record provenance =
  pv_edgeId :: int
  pv_actor :: actor
  pv_reason :: reason
  pv_previous :: conf_point
  pv_next :: conf_point
  pv_at :: int

datatype field_policy = CriticalPolicy | PartialPolicy

datatype promote_evidence =
    PromoteOsint "string list"
  | PromoteField string string "field_policy option"
  | PromoteSim int real
  | PromoteReviewer int string

datatype demote_evidence =
    DemoteContradiction string
  | DemoteAnalyst int string
  | DemoteFreshness

record band =
  bd_min :: real
  bd_typical :: real
  bd_max :: real

fun BANDS :: "source_class \<Rightarrow> band" where
  "BANDS SIM_UNCORROBORATED = \<lparr>bd_min = 10 / 100, bd_typical = 20 / 100, bd_max = 35 / 100\<rparr>"
| "BANDS SIM_CORROBORATED = \<lparr>bd_min = 30 / 100, bd_typical = 42 / 100, bd_max = 49 / 100\<rparr>"
| "BANDS OSINT_UNCORROBORATED = \<lparr>bd_min = 10 / 100, bd_typical = 30 / 100, bd_max = 50 / 100\<rparr>"
| "BANDS OSINT_CORROBORATED = \<lparr>bd_min = 40 / 100, bd_typical = 55 / 100, bd_max = 75 / 100\<rparr>"
| "BANDS FIELD_LOW = \<lparr>bd_min = 65 / 100, bd_typical = 75 / 100, bd_max = 85 / 100\<rparr>"
| "BANDS FIELD_HIGH = \<lparr>bd_min = 85 / 100, bd_typical = 92 / 100, bd_max = 1\<rparr>"

definition CLASS_ORDER :: "source_class list" where
  "CLASS_ORDER = [SIM_UNCORROBORATED, SIM_CORROBORATED, OSINT_UNCORROBORATED, OSINT_CORROBORATED, FIELD_LOW, FIELD_HIGH]"

text \<open>\<open>CLASS_ORDER.indexOf(sc)\<close>; every class occurs in the list.\<close>

definition classRank :: "source_class \<Rightarrow> nat" where
  "classRank sc = length (takeWhile (\<lambda>c. c \<noteq> sc) CLASS_ORDER)"

definition isFieldClass :: "source_class \<Rightarrow> bool" where
  "isFieldClass sc = (sc = FIELD_HIGH \<or> sc = FIELD_LOW)"

text \<open>The classes in the order of \<open>CLASS_ORDER\<close>.\<close>

instantiation source_class :: linorder
begin

definition less_eq_source_class :: "source_class \<Rightarrow> source_class \<Rightarrow> bool" where
  "less_eq_source_class a b = (classRank a \<le> classRank b)"

definition less_source_class :: "source_class \<Rightarrow> source_class \<Rightarrow> bool" where
  "less_source_class a b = (classRank a < classRank b)"

instance
proof
  fix x y z :: source_class
  show "x < y \<longleftrightarrow> x \<le> y \<and> \<not> y \<le> x" "x \<le> x" "x \<le> y \<or> y \<le> x"
    by (auto simp: less_eq_source_class_def less_source_class_def)
  show "x \<le> y \<Longrightarrow> y \<le> z \<Longrightarrow> x \<le> z" by (auto simp: less_eq_source_class_def)
  show "x \<le> y \<Longrightarrow> y \<le> x \<Longrightarrow> x = y"
    by (cases x; cases y) (simp_all add: less_eq_source_class_def classRank_def CLASS_ORDER_def)
qed

end

lemmas class_order_defs = less_eq_source_class_def less_source_class_def classRank_def CLASS_ORDER_def

record edge_record =
  er_confidence :: edge_conf
  er_createdAt :: int

record conf_state =
  cs_edges :: "(int, edge_record) jsmap"
  cs_history :: "provenance list"

section \<open>ConfidenceService\<close>

definition conf_error :: "string \<Rightarrow> exn" where
  "conf_error what = mk_error (''edge '' @ what)"

definition initialWrite :: "int \<Rightarrow> int \<Rightarrow> conf_state \<Rightarrow> edge_conf throws \<times> conf_state" where
  "initialWrite edgeId now s =
     (if edgeId \<in> fst ` set (cs_edges s) then (Inl (conf_error ''already exists''), s)
      else (let nxt = \<lparr>cf_value = bd_typical (BANDS OSINT_UNCORROBORATED), cf_class = OSINT_UNCORROBORATED,
                       cf_lastPromotedAt = None, cf_lastDemotedAt = None, cf_corroborationCount = 1,
                       cf_fieldEventId = None\<rparr>
            in (Inr nxt,
                s\<lparr>cs_edges := AList.update edgeId \<lparr>er_confidence = nxt, er_createdAt = now\<rparr> (cs_edges s),
                  cs_history := cs_history s @
                    [\<lparr>pv_edgeId = edgeId, pv_actor = OsintSwarm, pv_reason = InitialWrite,
                      pv_previous = (0, OSINT_UNCORROBORATED), pv_next = (cf_value nxt, cf_class nxt), pv_at = now\<rparr>]\<rparr>)))"

definition read_edge :: "int \<Rightarrow> conf_state \<Rightarrow> edge_conf throws" where
  "read_edge edgeId s =
     (case map_of (cs_edges s) edgeId of
        None \<Rightarrow> Inl (conf_error ''not found'')
      | Some rec \<Rightarrow> Inr (er_confidence rec))"

definition history :: "int \<Rightarrow> conf_state \<Rightarrow> provenance list" where
  "history edgeId s = filter (\<lambda>e. pv_edgeId e = edgeId) (cs_history s)"

record query_filter =
  qf_minConfidence :: "real option"
  qf_sourceClasses :: "source_class list option"
  qf_olderThan :: "int option"

definition query_edges :: "query_filter \<Rightarrow> conf_state \<Rightarrow> (int \<times> edge_conf) list" where
  "query_edges f s =
     map (\<lambda>(i, rec). (i, er_confidence rec))
       (filter (\<lambda>(i, rec).
          (case qf_minConfidence f of Some m \<Rightarrow> m \<le> cf_value (er_confidence rec) | None \<Rightarrow> True) \<and>
          (case qf_sourceClasses f of Some cs \<Rightarrow> cf_class (er_confidence rec) \<in> set cs | None \<Rightarrow> True) \<and>
          (case qf_olderThan f of Some t \<Rightarrow> er_createdAt rec < t | None \<Rightarrow> True)) (cs_edges s))"

text \<open>
  The \<open>switch\<close> of \<open>promote\<close>: \<open>None\<close> where the code returns the previous confidence, otherwise the
  next class and value, the corroboration count, the field event and the actor.
\<close>

record conf_change =
  ch_class :: source_class
  ch_value :: real
  ch_count :: int
  ch_event :: "string option"
  ch_actor :: actor

fun promote_change :: "edge_conf \<Rightarrow> promote_evidence \<Rightarrow> conf_change option" where
  "promote_change prev (PromoteOsint sources) =
     (if isFieldClass (cf_class prev) then None
      else (let cnt = cf_corroborationCount prev + max 1 (int (length sources));
                band = BANDS OSINT_CORROBORATED;
                climb = bd_typical band + (of_int cnt - 2) * (5 / 100)
            in Some \<lparr>ch_class = OSINT_CORROBORATED, ch_value = clamp climb (bd_min band) (bd_max band),
                     ch_count = cnt, ch_event = cf_fieldEventId prev, ch_actor = OsintSwarm\<rparr>))"
| "promote_change prev (PromoteField fieldEventId stream policy) =
     (let cls = (case policy of Some PartialPolicy \<Rightarrow> FIELD_LOW | _ \<Rightarrow> FIELD_HIGH)
      in Some \<lparr>ch_class = cls, ch_value = bd_typical (BANDS cls), ch_count = cf_corroborationCount prev,
               ch_event = Some fieldEventId, ch_actor = FieldCorrelation\<rparr>)"
| "promote_change prev (PromoteSim fishCount dispersion) =
     (if cf_class prev = OSINT_CORROBORATED \<or> isFieldClass (cf_class prev) then None
      else (let cls = (if dispersion \<le> 15 / 100 then SIM_CORROBORATED else SIM_UNCORROBORATED);
                band = BANDS cls;
                tilt = 1 - clamp dispersion 0 (1 / 2) / (1 / 2)
            in Some \<lparr>ch_class = cls, ch_value = bd_min band + (bd_max band - bd_min band) * tilt,
                     ch_count = max (cf_corroborationCount prev) fishCount,
                     ch_event = cf_fieldEventId prev, ch_actor = SimFish\<rparr>))"
| "promote_change prev (PromoteReviewer analystId citation) =
     (if isFieldClass (cf_class prev) then None
      else Some \<lparr>ch_class = OSINT_CORROBORATED, ch_value = bd_typical (BANDS OSINT_CORROBORATED),
                 ch_count = cf_corroborationCount prev + 1, ch_event = cf_fieldEventId prev, ch_actor = Analyst\<rparr>)"

fun promote_reason :: "promote_evidence \<Rightarrow> reason" where
  "promote_reason (PromoteOsint _) = OsintCorroboration"
| "promote_reason (PromoteField _ _ _) = FieldMatch"
| "promote_reason (PromoteSim _ _) = SimInference"
| "promote_reason (PromoteReviewer _ _) = ReviewerAccept"

text \<open>The write both operations end with: the new confidence and its provenance event.\<close>

definition commit :: "int \<Rightarrow> edge_record \<Rightarrow> edge_conf \<Rightarrow> actor \<Rightarrow> reason \<Rightarrow> int \<Rightarrow> conf_state \<Rightarrow> conf_state" where
  "commit edgeId rec nxt actor reason now s =
     s\<lparr>cs_edges := AList.update edgeId (rec\<lparr>er_confidence := nxt\<rparr>) (cs_edges s),
       cs_history := cs_history s @
         [\<lparr>pv_edgeId = edgeId, pv_actor = actor, pv_reason = reason,
           pv_previous = (cf_value (er_confidence rec), cf_class (er_confidence rec)),
           pv_next = (cf_value nxt, cf_class nxt), pv_at = now\<rparr>]\<rparr>"

definition promote :: "promote_evidence \<Rightarrow> int \<Rightarrow> int \<Rightarrow> conf_state \<Rightarrow> edge_conf throws \<times> conf_state" where
  "promote ev now edgeId s =
     (case map_of (cs_edges s) edgeId of
        None \<Rightarrow> (Inl (conf_error ''not found''), s)
      | Some rec \<Rightarrow>
          (let prev = er_confidence rec in
           case promote_change prev ev of
             None \<Rightarrow> (Inr prev, s)
           | Some ch \<Rightarrow>
               (let nxt = \<lparr>cf_value = clamp (ch_value ch) 0 1, cf_class = ch_class ch,
                           cf_lastPromotedAt = Some now, cf_lastDemotedAt = cf_lastDemotedAt prev,
                           cf_corroborationCount = ch_count ch, cf_fieldEventId = ch_event ch\<rparr>
                in (Inr nxt, commit edgeId rec nxt (ch_actor ch) (promote_reason ev) now s))))"

fun demote_change :: "edge_conf \<Rightarrow> demote_evidence \<Rightarrow> source_class \<times> real \<times> actor \<times> reason" where
  "demote_change prev (DemoteContradiction fieldEventId) =
     (OSINT_UNCORROBORATED, 15 / 100, FieldCorrelation, FieldContradiction)"
| "demote_change prev (DemoteAnalyst analystId note) =
     (OSINT_UNCORROBORATED, min (cf_value prev) (bd_max (BANDS OSINT_UNCORROBORATED)), Analyst, AnalystOverride)"
| "demote_change prev DemoteFreshness =
     (let cls = CLASS_ORDER ! (classRank (cf_class prev) - 1)
      in (cls, bd_max (BANDS cls), Sweep, FreshnessExpired))"

definition demote :: "demote_evidence \<Rightarrow> int \<Rightarrow> int \<Rightarrow> conf_state \<Rightarrow> edge_conf throws \<times> conf_state" where
  "demote ev now edgeId s =
     (case map_of (cs_edges s) edgeId of
        None \<Rightarrow> (Inl (conf_error ''not found''), s)
      | Some rec \<Rightarrow>
          (let prev = er_confidence rec; (cls, v, actor, reason) = demote_change prev ev;
               nxt = \<lparr>cf_value = clamp v 0 1, cf_class = cls, cf_lastPromotedAt = cf_lastPromotedAt prev,
                      cf_lastDemotedAt = Some now, cf_corroborationCount = cf_corroborationCount prev,
                      cf_fieldEventId = (if isFieldClass cls then cf_fieldEventId prev else None)\<rparr>
           in (Inr nxt, commit edgeId rec nxt actor reason now s)))"

section \<open>Bands\<close>

definition in_band :: "edge_conf \<Rightarrow> bool" where
  "in_band c \<longleftrightarrow> bd_min (BANDS (cf_class c)) \<le> cf_value c \<and> cf_value c \<le> bd_max (BANDS (cf_class c))"

lemma bands_unit: "0 \<le> bd_min (BANDS c)" "bd_max (BANDS c) \<le> 1" "bd_min (BANDS c) \<le> bd_typical (BANDS c)"
  "bd_typical (BANDS c) \<le> bd_max (BANDS c)" "10 / 100 \<le> bd_min (BANDS c)"
  by (cases c; simp)+

lemma sim_tilt:
  "0 \<le> 1 - clamp d 0 (1 / 2) / (1 / 2) \<and> 1 - clamp d 0 (1 / 2) / (1 / 2) \<le> 1"
  using clamp_bounds [of 0 "1 / 2" d] by simp

lemma lerp_bounds: "a \<le> b \<Longrightarrow> 0 \<le> t \<Longrightarrow> t \<le> 1 \<Longrightarrow> a \<le> a + (b - a) * t \<and> a + (b - a) * t \<le> (b :: real)"
  using mult_left_mono [of t 1 "b - a"] by auto

lemma promote_change_band:
  assumes "promote_change prev ev = Some ch"
  shows "bd_min (BANDS (ch_class ch)) \<le> ch_value ch \<and> ch_value ch \<le> bd_max (BANDS (ch_class ch))"
proof (cases ev)
  case (PromoteOsint sources)
  then show ?thesis using assms clamp_bounds [of "40 / 100" "75 / 100"] by (auto simp: Let_def split: if_splits)
next
  case (PromoteField e st p)
  then show ?thesis using assms bands_unit by (auto simp: Let_def)
next
  case (PromoteSim k d)
  have "bd_min (BANDS c) \<le> bd_max (BANDS c)" for c by (cases c) simp_all
  then show ?thesis using assms PromoteSim sim_tilt [of d] lerp_bounds
    by (auto simp: Let_def simp del: BANDS.simps split: if_splits)
next
  case (PromoteReviewer a c)
  then show ?thesis using assms by (auto split: if_splits)
qed

lemma demote_change_band:
  assumes "demote_change prev ev = (c, v, a, r)" and "in_band prev"
  shows "bd_min (BANDS c) \<le> v \<and> v \<le> bd_max (BANDS c)"
proof (cases ev)
  case (DemoteAnalyst i n)
  then show ?thesis using assms bands_unit(5) [of "cf_class prev"] by (auto simp: in_band_def)
next
  case DemoteFreshness
  have "bd_min (BANDS c) \<le> bd_max (BANDS c)" for c by (cases c) simp_all
  then show ?thesis using assms DemoteFreshness by (auto simp: Let_def simp del: BANDS.simps)
qed (use assms in auto)

lemma clamp_id: "lo \<le> x \<Longrightarrow> x \<le> hi \<Longrightarrow> clamp x lo hi = x"
  by (simp add: clamp_def)

lemma clamp_band:
  assumes "bd_min (BANDS c) \<le> v \<and> v \<le> bd_max (BANDS c)"
  shows "bd_min (BANDS c) \<le> clamp v 0 1 \<and> clamp v 0 1 \<le> bd_max (BANDS c)"
proof -
  have "clamp v 0 1 = v" using assms bands_unit [of c] by (intro clamp_id) linarith+
  with assms show ?thesis by simp
qed

section \<open>The invariant of the service\<close>

text \<open>
  The events of an edge form a chain: each starts where the one before it ended. The chain
  ends at the confidence the edge has.
\<close>

fun chain_to :: "conf_point \<Rightarrow> provenance list \<Rightarrow> conf_point \<Rightarrow> bool" where
  "chain_to p [] q = (p = q)"
| "chain_to p (e # es) q = (pv_previous e = p \<and> chain_to (pv_next e) es q)"

lemma chain_to_append: "chain_to p (es @ fs) q \<longleftrightarrow> (\<exists>r. chain_to p es r \<and> chain_to r fs q)"
  by (induction es arbitrary: p) auto

definition point_of :: "edge_conf \<Rightarrow> conf_point" where
  "point_of c = (cf_value c, cf_class c)"

definition conf_ok :: "conf_state \<Rightarrow> bool" where
  "conf_ok s \<longleftrightarrow>
     distinct (map fst (cs_edges s)) \<and>
     (\<forall>i rec. map_of (cs_edges s) i = Some rec \<longrightarrow>
        in_band (er_confidence rec) \<and> chain_to (0, OSINT_UNCORROBORATED) (history i s) (point_of (er_confidence rec))) \<and>
     (\<forall>i. i \<notin> fst ` set (cs_edges s) \<longrightarrow> history i s = [])"

definition conf_empty :: conf_state where
  "conf_empty = \<lparr>cs_edges = [], cs_history = []\<rparr>"

lemma conf_empty_ok [inv_rules]: "conf_ok conf_empty"
  by (simp add: conf_ok_def conf_empty_def history_def)

lemma commit_ok:
  assumes ok: "conf_ok s" and rec: "map_of (cs_edges s) i = Some rec" and band: "in_band nxt"
  shows "conf_ok (commit i rec nxt a r now s)"
proof -
  have i: "i \<in> fst ` set (cs_edges s)" using rec by (metis map_of_eq_None_iff option.distinct(1))
  have "chain_to (0, OSINT_UNCORROBORATED) (history i s) (point_of (er_confidence rec))"
    using ok rec by (auto simp: conf_ok_def)
  then have "chain_to (0, OSINT_UNCORROBORATED) (history i (commit i rec nxt a r now s)) (point_of nxt)"
    by (auto simp: history_def commit_def chain_to_append point_of_def)
  moreover have "history j (commit i rec nxt a r now s) = history j s" if "j \<noteq> i" for j
    using that by (simp add: history_def commit_def)
  ultimately show ?thesis
    using ok band i
    by (auto simp: conf_ok_def commit_def update_conv distinct_update history_def split: if_splits)
qed

lemma initialWrite_ok [inv_rules]: "conf_ok s \<Longrightarrow> conf_ok (snd (initialWrite i now s))"
  by (auto simp: conf_ok_def initialWrite_def Let_def history_def in_band_def point_of_def update_conv
      intro: distinct_update split: if_splits)

lemma promote_ok [inv_rules]: "conf_ok s \<Longrightarrow> conf_ok (snd (promote ev now i s))"
proof -
  assume ok: "conf_ok s"
  show ?thesis
  proof (cases "map_of (cs_edges s) i")
    case (Some rec)
    show ?thesis
    proof (cases "promote_change (er_confidence rec) ev")
      case (Some ch)
      from clamp_band [OF promote_change_band [OF this]] have "in_band \<lparr>cf_value = clamp (ch_value ch) 0 1, cf_class = ch_class ch,
          cf_lastPromotedAt = Some now, cf_lastDemotedAt = cf_lastDemotedAt (er_confidence rec),
          cf_corroborationCount = ch_count ch, cf_fieldEventId = ch_event ch\<rparr>"
        by (simp add: in_band_def)
      with ok Some \<open>map_of (cs_edges s) i = Some rec\<close> show ?thesis
        by (simp add: promote_def Let_def commit_ok)
    qed (use ok Some in \<open>simp add: promote_def Let_def\<close>)
  qed (use ok in \<open>simp add: promote_def\<close>)
qed

lemma demote_ok [inv_rules]: "conf_ok s \<Longrightarrow> conf_ok (snd (demote ev now i s))"
proof -
  assume ok: "conf_ok s"
  show ?thesis
  proof (cases "map_of (cs_edges s) i")
    case (Some rec)
    obtain c v a r where ch: "demote_change (er_confidence rec) ev = (c, v, a, r)" by (metis prod_cases4)
    have "in_band (er_confidence rec)" using ok Some by (auto simp: conf_ok_def)
    from clamp_band [OF demote_change_band [OF ch this]]
    have "bd_min (BANDS c) \<le> clamp v 0 1 \<and> clamp v 0 1 \<le> bd_max (BANDS c)" .
    then have "in_band \<lparr>cf_value = clamp v 0 1, cf_class = c, cf_lastPromotedAt = p, cf_lastDemotedAt = d,
          cf_corroborationCount = n, cf_fieldEventId = e\<rparr>" for p d n e
      by (simp add: in_band_def)
    with ok Some ch show ?thesis by (simp add: demote_def Let_def commit_ok)
  qed (use ok in \<open>simp add: demote_def\<close>)
qed

section \<open>How the class of an edge moves\<close>

lemma promote_change_rank:
  assumes "promote_change prev ev = Some ch"
  shows "ch_class ch < cf_class prev \<longleftrightarrow>
     (cf_class prev = FIELD_HIGH \<and> (\<exists>e st. ev = PromoteField e st (Some PartialPolicy))) \<or>
     (cf_class prev = OSINT_UNCORROBORATED \<and> (\<exists>k d. ev = PromoteSim k d)) \<or>
     (cf_class prev = SIM_CORROBORATED \<and> (\<exists>k d. ev = PromoteSim k d \<and> 15 / 100 < d))"
  using assms
  by (cases ev; cases "cf_class prev")
    (auto simp: Let_def isFieldClass_def class_order_defs split: if_splits option.splits field_policy.splits)

section \<open>FieldCorrelator\<close>

datatype priority = CriticalPriority | Routine | Background
datatype field_outcome = Confirms | Contradicts | Partial

record field_event =
  fe_id :: string
  fe_stream :: string
  fe_priority :: priority
  fe_outcome :: field_outcome

fun LATENCY_BUDGET_MS :: "priority \<Rightarrow> int" where
  "LATENCY_BUDGET_MS CriticalPriority = 500"
| "LATENCY_BUDGET_MS Routine = 2000"
| "LATENCY_BUDGET_MS Background = 10000"

datatype correlation_outcome =
    Promoted source_class
  | Demoted source_class
  | NoMatch
  | LatencyBreach int int

record correlation_result =
  cr_eventId :: string
  cr_matchedEdgeIds :: "int list"
  cr_outcome :: correlation_outcome
  cr_latencyMs :: int

datatype metric = MatchHit priority | MatchMiss | LatencyBreachMetric string priority int int

text \<open>The queue holds an event with the time it was enqueued; metrics are collected in order.\<close>

record correlator =
  fc_processed :: "string list"
  fc_unmatched :: "(field_event \<times> int) list"
  fc_conf :: conf_state
  fc_metrics :: "metric list"

record correlator_opts =
  fo_unmatchedTtlMs :: int
  fo_unmatchedMaxSize :: int

text \<open>The \<open>while\<close> loop that drops the oldest entries.\<close>

function drop_oldest :: "int \<Rightarrow> 'a list \<Rightarrow> 'a list" where
  "drop_oldest mx xs = (if int (length xs) > mx \<and> xs \<noteq> [] then drop_oldest mx (tl xs) else xs)"
  by pat_completeness auto
termination by (relation "measure (\<lambda>(mx, xs). length xs)") auto

declare drop_oldest.simps [simp del]

definition enqueueUnmatched :: "correlator_opts \<Rightarrow> field_event \<Rightarrow> int \<Rightarrow> correlator \<Rightarrow> correlator" where
  "enqueueUnmatched opts event now c =
     c\<lparr>fc_unmatched := drop_oldest (fo_unmatchedMaxSize opts) (fc_unmatched c @ [(event, now)])\<rparr>"

text \<open>
  The loops over the candidate edges: put each in turn, remember the class of the last one,
  and stop with the state so far when a write throws.
\<close>

fun write_all ::
  "(int \<Rightarrow> 's \<Rightarrow> edge_conf throws \<times> 's) \<Rightarrow> int list \<Rightarrow> source_class \<Rightarrow> 's \<Rightarrow> source_class throws \<times> 's" where
  "write_all put [] lastClass s = (Inr lastClass, s)"
| "write_all put (edgeId # ids) lastClass s =
     (case put edgeId s of
        (Inl e, s') \<Rightarrow> (Inl e, s')
      | (Inr nxt, s') \<Rightarrow> write_all put ids (cf_class nxt) s')"

definition field_policy_of :: "field_event \<Rightarrow> field_policy" where
  "field_policy_of event =
     (if fe_outcome event = Partial \<or> fe_priority event \<noteq> CriticalPriority then PartialPolicy else CriticalPolicy)"

text \<open>
  \<open>process\<close>: \<open>candidates\<close> is what the injected lookup answers, \<open>latency\<close> the difference of the
  two clock readings, \<open>now\<close> the wall clock.
\<close>

definition process ::
  "correlator_opts \<Rightarrow> int list \<Rightarrow> int \<Rightarrow> int \<Rightarrow> field_event \<Rightarrow> correlator \<Rightarrow> correlation_result throws \<times> correlator" where
  "process opts candidates latency now event c =
     (if fe_id event \<in> set (fc_processed c)
      then (Inr \<lparr>cr_eventId = fe_id event, cr_matchedEdgeIds = [], cr_outcome = NoMatch, cr_latencyMs = 0\<rparr>, c)
      else if candidates = []
      then (let c1 = enqueueUnmatched opts event now (c\<lparr>fc_processed := jset_add (fe_id event) (fc_processed c)\<rparr>)
            in (Inr \<lparr>cr_eventId = fe_id event, cr_matchedEdgeIds = [], cr_outcome = NoMatch, cr_latencyMs = latency\<rparr>,
                c1\<lparr>fc_metrics := fc_metrics c1 @ [MatchMiss]\<rparr>))
      else
        (let budget = LATENCY_BUDGET_MS (fe_priority event);
             (written, conf) =
               (if fe_outcome event = Contradicts
                then write_all (demote (DemoteContradiction (fe_id event)) now) candidates OSINT_UNCORROBORATED (fc_conf c)
                else write_all (promote (PromoteField (fe_id event) (fe_stream event) (Some (field_policy_of event))) now)
                       candidates OSINT_UNCORROBORATED (fc_conf c))
         in case written of
              Inl e \<Rightarrow> (Inl e, c\<lparr>fc_conf := conf\<rparr>)
            | Inr lastClass \<Rightarrow>
                (let c1 = c\<lparr>fc_conf := conf, fc_processed := jset_add (fe_id event) (fc_processed c),
                            fc_metrics := fc_metrics c @ [MatchHit (fe_priority event)]\<rparr>;
                     outcome = (if fe_outcome event = Contradicts then Demoted lastClass else Promoted lastClass)
                 in if latency > budget
                    then (Inr \<lparr>cr_eventId = fe_id event, cr_matchedEdgeIds = candidates,
                               cr_outcome = LatencyBreach budget latency, cr_latencyMs = latency\<rparr>,
                          c1\<lparr>fc_metrics := fc_metrics c1 @
                               [LatencyBreachMetric (fe_id event) (fe_priority event) budget latency]\<rparr>)
                    else (Inr \<lparr>cr_eventId = fe_id event, cr_matchedEdgeIds = candidates,
                               cr_outcome = outcome, cr_latencyMs = latency\<rparr>, c1))))"

definition sweepUnmatched :: "correlator_opts \<Rightarrow> int \<Rightarrow> correlator \<Rightarrow> nat \<times> correlator" where
  "sweepUnmatched opts now c =
     (let kept = filter (\<lambda>(_, t). t \<ge> now - fo_unmatchedTtlMs opts) (fc_unmatched c)
      in (length kept, c\<lparr>fc_unmatched := kept\<rparr>))"

definition unmatchedSize :: "correlator \<Rightarrow> nat" where
  "unmatchedSize c = length (fc_unmatched c)"

definition listUnmatched :: "correlator \<Rightarrow> field_event list" where
  "listUnmatched c = map fst (fc_unmatched c)"

section \<open>The writes a correlator relies on\<close>

text \<open>
  The correlator only needs of the confidence service that a write keeps its invariant and,
  when it succeeds, leaves the written edge in the class it answers.
\<close>

locale edge_writer =
  fixes put :: "int \<Rightarrow> 's \<Rightarrow> edge_conf throws \<times> 's"
    and good :: "'s \<Rightarrow> bool"
    and class_of :: "'s \<Rightarrow> int \<Rightarrow> source_class option"
  assumes write_good: "good s \<Longrightarrow> good (snd (put i s))"
    and write_class: "put i s = (Inr c, s') \<Longrightarrow> class_of s' i = Some (cf_class c)"
    and write_other: "put i s = (r, s') \<Longrightarrow> j \<noteq> i \<Longrightarrow> class_of s' j = class_of s j"
begin

lemma write_all_good: "good s \<Longrightarrow> good (snd (write_all put ids l0 s))"
proof (induction ids arbitrary: l0 s)
  case (Cons i ids)
  obtain r s' where w: "put i s = (r, s')" by fastforce
  have "good s'" using write_good [OF Cons.prems, of i] w by simp
  with Cons.IH w show ?case by (auto split: sum.splits)
qed simp

lemma write_all_other: "write_all put ids l0 s = (r, s') \<Longrightarrow> j \<notin> set ids \<Longrightarrow> class_of s' j = class_of s j"
proof (induction ids arbitrary: l0 s)
  case (Cons i ids)
  obtain q t where w: "put i s = (q, t)" by fastforce
  have "class_of t j = class_of s j" using write_other [OF w] Cons.prems(2) by simp
  with Cons w show ?case by (auto split: sum.splits)
qed simp

lemma write_all_last:
  "write_all put ids l0 s = (Inr c, s') \<Longrightarrow> ids \<noteq> [] \<Longrightarrow> class_of s' (List.last ids) = Some c"
proof (induction ids arbitrary: l0 s)
  case (Cons i ids)
  from Cons.prems(1) obtain q t where w: "put i s = (Inr q, t)" and rest: "write_all put ids (cf_class q) t = (Inr c, s')"
    by (auto split: prod.splits sum.splits)
  show ?case
  proof (cases "ids = []")
    case True
    with rest write_class [OF w] show ?thesis by simp
  next
    case False
    with Cons.IH [OF rest] show ?thesis by simp
  qed
qed simp

end

definition edge_class :: "conf_state \<Rightarrow> int \<Rightarrow> source_class option" where
  "edge_class s i = map_option (cf_class \<circ> er_confidence) (map_of (cs_edges s) i)"

lemma edge_class_commit:
  "edge_class (commit i rec nxt a r now s) j = (if j = i then Some (cf_class nxt) else edge_class s j)"
  by (simp add: edge_class_def commit_def update_conv)

interpretation promoter: edge_writer "promote ev now" conf_ok edge_class
proof
  show "conf_ok s \<Longrightarrow> conf_ok (snd (promote ev now i s))" for s i by (rule promote_ok)
  show "promote ev now i s = (Inr c, s') \<Longrightarrow> edge_class s' i = Some (cf_class c)" for i s c s'
    by (auto simp: promote_def Let_def edge_class_commit split: option.splits) (auto simp: edge_class_def)
  show "promote ev now i s = (r, s') \<Longrightarrow> j \<noteq> i \<Longrightarrow> edge_class s' j = edge_class s j" for i s r s' j
    by (auto simp: promote_def Let_def edge_class_commit split: option.splits)
qed

interpretation demoter: edge_writer "demote ev now" conf_ok edge_class
proof
  show "conf_ok s \<Longrightarrow> conf_ok (snd (demote ev now i s))" for s i by (rule demote_ok)
  show "demote ev now i s = (Inr c, s') \<Longrightarrow> edge_class s' i = Some (cf_class c)" for i s c s'
    by (auto simp: demote_def Let_def edge_class_commit split: option.splits prod.splits)
  show "demote ev now i s = (r, s') \<Longrightarrow> j \<noteq> i \<Longrightarrow> edge_class s' j = edge_class s j" for i s r s' j
    by (auto simp: demote_def Let_def edge_class_commit split: option.splits prod.splits)
qed

section \<open>The invariant of the correlator\<close>

lemma drop_oldest_length: "0 \<le> mx \<Longrightarrow> int (length (drop_oldest mx xs)) \<le> mx"
  by (induction mx xs rule: drop_oldest.induct) (subst drop_oldest.simps, auto)

lemma drop_oldest_suffix: "\<exists>n. drop_oldest mx xs = drop n xs"
proof (induction mx xs rule: drop_oldest.induct)
  case (1 mx xs)
  show ?case
  proof (cases "int (length xs) > mx \<and> xs \<noteq> []")
    case True
    with 1 obtain n where "drop_oldest mx (tl xs) = drop n (tl xs)" by blast
    then have "drop_oldest mx xs = drop (Suc n) xs"
      using True by (subst drop_oldest.simps) (simp add: drop_Suc)
    then show ?thesis by blast
  next
    case False
    then have "drop_oldest mx xs = drop 0 xs" by (subst drop_oldest.simps) auto
    then show ?thesis by blast
  qed
qed

definition correlator_ok :: "correlator_opts \<Rightarrow> correlator \<Rightarrow> bool" where
  "correlator_ok opts c \<longleftrightarrow>
     conf_ok (fc_conf c) \<and> distinct (fc_processed c) \<and> int (length (fc_unmatched c)) \<le> fo_unmatchedMaxSize opts \<and>
     (\<forall>(ev, t) \<in> set (fc_unmatched c). fe_id ev \<in> set (fc_processed c))"

lemma enqueue_set: "set (fc_unmatched (enqueueUnmatched opts event now c)) \<subseteq> insert (event, now) (set (fc_unmatched c))"
proof -
  obtain n where "drop_oldest (fo_unmatchedMaxSize opts) (fc_unmatched c @ [(event, now)])
      = drop n (fc_unmatched c @ [(event, now)])"
    using drop_oldest_suffix by blast
  then show ?thesis
    using set_drop_subset [of n "fc_unmatched c @ [(event, now)]"] by (simp add: enqueueUnmatched_def)
qed

lemma process_ok [inv_rules]:
  assumes "correlator_ok opts c" and "0 \<le> fo_unmatchedMaxSize opts"
  shows "correlator_ok opts (snd (process opts candidates latency now event c))"
proof -
  consider (replay) "fe_id event \<in> set (fc_processed c)"
    | (miss) "fe_id event \<notin> set (fc_processed c)" "candidates = []"
    | (hit) "fe_id event \<notin> set (fc_processed c)" "candidates \<noteq> []"
    by blast
  then show ?thesis
  proof cases
    case replay
    with assms show ?thesis by (simp add: process_def)
  next
    case miss
    let ?c1 = "c\<lparr>fc_processed := jset_add (fe_id event) (fc_processed c)\<rparr>"
    have "set (fc_unmatched (enqueueUnmatched opts event now ?c1)) \<subseteq> insert (event, now) (set (fc_unmatched c))"
      using enqueue_set [of opts event now ?c1] by simp
    moreover have "int (length (fc_unmatched (enqueueUnmatched opts event now ?c1))) \<le> fo_unmatchedMaxSize opts"
      using assms(2) by (simp add: enqueueUnmatched_def drop_oldest_length)
    moreover have "fc_conf (enqueueUnmatched opts event now ?c1) = fc_conf c"
      "fc_processed (enqueueUnmatched opts event now ?c1) = jset_add (fe_id event) (fc_processed c)"
      by (simp_all add: enqueueUnmatched_def)
    ultimately show ?thesis
      using assms(1) miss by (auto simp: process_def Let_def correlator_ok_def)
  next
    case hit
    obtain w conf where wc: "(if fe_outcome event = Contradicts
        then write_all (demote (DemoteContradiction (fe_id event)) now) candidates OSINT_UNCORROBORATED (fc_conf c)
        else write_all (promote (PromoteField (fe_id event) (fe_stream event) (Some (field_policy_of event))) now)
               candidates OSINT_UNCORROBORATED (fc_conf c)) = (w, conf)"
      by fastforce
    have "conf_ok (fc_conf c)" using assms(1) by (simp add: correlator_ok_def)
    with wc have "conf_ok conf"
      using demoter.write_all_good promoter.write_all_good by (metis snd_conv)
    then show ?thesis using hit assms(1) wc
      by (auto simp: process_def Let_def correlator_ok_def split: sum.splits)
  qed
qed

section \<open>Properties\<close>

text \<open>The states the service reaches from the empty one by any sequence of its operations.\<close>

inductive conf_reach :: "conf_state \<Rightarrow> bool" where
  empty: "conf_reach conf_empty"
| initial: "conf_reach s \<Longrightarrow> conf_reach (snd (initialWrite i now s))"
| promoted: "conf_reach s \<Longrightarrow> conf_reach (snd (promote pe now i s))"
| demoted: "conf_reach s \<Longrightarrow> conf_reach (snd (demote de now i s))"

lemma conf_reach_ok: "conf_reach s \<Longrightarrow> conf_ok s"
  by (induction rule: conf_reach.induct) (auto intro: inv_rules)

text \<open>C30: After any sequence of writes, promotions and demotions every edge's value lies in the band
  of its class, and its provenance events form an unbroken chain from the initial point to the
  confidence the edge has now: no change of an edge is missing from the log.\<close>

theorem confidence_in_band_and_logged:
  assumes "conf_reach s" and "read_edge i s = Inr c"
  shows "bd_min (BANDS (cf_class c)) \<le> cf_value c \<and> cf_value c \<le> bd_max (BANDS (cf_class c)) \<and>
    chain_to (0, OSINT_UNCORROBORATED) (history i s) (cf_value c, cf_class c)"
proof -
  from assms(2) obtain rec where "map_of (cs_edges s) i = Some rec" "er_confidence rec = c"
    by (auto simp: read_edge_def split: option.splits)
  with conf_reach_ok [OF assms(1)] show ?thesis by (auto simp: conf_ok_def in_band_def point_of_def)
qed

definition two_writes :: conf_state where
  "two_writes = snd (promote (PromoteField ''ev'' ''st'' None) 5 1 (snd (initialWrite 1 0 conf_empty)))"

theorem confidence_in_band_and_logged_witness:
  "\<exists>c. read_edge 1 two_writes = Inr c \<and> cf_class c = FIELD_HIGH \<and> 85 / 100 \<le> cf_value c"
proof -
  have "case read_edge 1 two_writes of Inl _ \<Rightarrow> False | Inr c \<Rightarrow> cf_class c = FIELD_HIGH"
    by code_simp
  then obtain c where c: "read_edge 1 two_writes = Inr c" "cf_class c = FIELD_HIGH"
    by (auto split: sum.splits)
  have "conf_reach two_writes"
    unfolding two_writes_def by (intro conf_reach.promoted conf_reach.initial conf_reach.empty)
  from confidence_in_band_and_logged [OF this c(1)] c show ?thesis by auto
qed

text \<open>\<open>promote\<close> lowers the class of an edge in exactly three cases: a partial field match on a
  \<open>FIELD_HIGH\<close> edge, a dispersed simulation on a \<open>SIM_CORROBORATED\<close> edge, and any simulation on an
  \<open>OSINT_UNCORROBORATED\<close> edge, although the comment there excludes all observed edges. Field edges
  and corroborated OSINT edges are never overwritten by a simulation.\<close>

theorem promote_lowers_class_iff:
  assumes "promote ev now i s = (Inr c, s')" and "read_edge i s = Inr prev"
  shows "cf_class c < cf_class prev \<longleftrightarrow>
     (cf_class prev = FIELD_HIGH \<and> (\<exists>e st. ev = PromoteField e st (Some PartialPolicy))) \<or>
     (cf_class prev = OSINT_UNCORROBORATED \<and> (\<exists>k d. ev = PromoteSim k d)) \<or>
     (cf_class prev = SIM_CORROBORATED \<and> (\<exists>k d. ev = PromoteSim k d \<and> 15 / 100 < d))"
proof -
  from assms(2) obtain rec where rec: "map_of (cs_edges s) i = Some rec" "er_confidence rec = prev"
    by (auto simp: read_edge_def split: option.splits)
  show ?thesis
  proof (cases "promote_change prev ev")
    case None
    with assms(1) rec have "c = prev" by (simp add: promote_def)
    moreover from None have "cf_class prev \<noteq> OSINT_UNCORROBORATED \<or> (\<forall>k d. ev \<noteq> PromoteSim k d)"
      "cf_class prev \<noteq> SIM_CORROBORATED \<or> (\<forall>k d. ev \<noteq> PromoteSim k d)"
      "\<forall>e st p. ev \<noteq> PromoteField e st p"
      by (auto simp: isFieldClass_def Let_def)
    ultimately show ?thesis by auto
  next
    case (Some ch)
    with assms(1) rec have "cf_class c = ch_class ch" by (auto simp: promote_def Let_def)
    with promote_change_rank [OF Some] show ?thesis by simp
  qed
qed

theorem promote_lowers_class_iff_witness:
  "\<exists>c. fst (promote (PromoteSim 10 (4 / 10)) 5 1 (snd (initialWrite 1 0 conf_empty))) = Inr c \<and>
     cf_class c < OSINT_UNCORROBORATED"
proof -
  let ?s = "snd (initialWrite 1 0 conf_empty)"
  have "case promote (PromoteSim 10 (4 / 10)) 5 1 ?s of (Inr c, _) \<Rightarrow> True | _ \<Rightarrow> False" by code_simp
  then obtain c s' where p: "promote (PromoteSim 10 (4 / 10)) 5 1 ?s = (Inr c, s')"
    by (auto split: sum.splits prod.splits)
  have "case read_edge 1 ?s of Inr q \<Rightarrow> cf_class q = OSINT_UNCORROBORATED | Inl _ \<Rightarrow> False" by code_simp
  then obtain q where q: "read_edge 1 ?s = Inr q" "cf_class q = OSINT_UNCORROBORATED"
    by (auto split: sum.splits)
  have "cf_class c < cf_class q" using promote_lowers_class_iff [OF p q(1)] q(2) by blast
  with p q show ?thesis by simp
qed

text \<open>A demotion for expired freshness sets the value to the maximum of the class below (of the
  same class at the bottom), so it raises every edge whose value was below that maximum; the band
  below can reach higher than the edge's own value.\<close>

theorem freshness_demotion_raises_iff:
  assumes "demote DemoteFreshness now i s = (Inr c, s')" and "read_edge i s = Inr prev"
  shows "cf_class c \<le> cf_class prev \<and>
    (cf_value prev < cf_value c \<longleftrightarrow> cf_value prev < bd_max (BANDS (cf_class c)))"
proof -
  from assms(2) obtain rec where rec: "map_of (cs_edges s) i = Some rec" "er_confidence rec = prev"
    by (auto simp: read_edge_def split: option.splits)
  then have c: "cf_class c = CLASS_ORDER ! (classRank (cf_class prev) - 1)"
    and v: "cf_value c = clamp (bd_max (BANDS (cf_class c))) 0 1"
    using assms(1) by (auto simp: demote_def Let_def)
  have "cf_class c \<le> cf_class prev" unfolding c by (cases "cf_class prev") (simp_all add: class_order_defs)
  moreover have "clamp (bd_max (BANDS k)) 0 1 = bd_max (BANDS k)" for k by (cases k) (simp_all add: clamp_def)
  ultimately show ?thesis using v by simp
qed

definition contradicted :: conf_state where
  "contradicted = snd (demote (DemoteContradiction ''ev'') 1 1 (snd (initialWrite 1 0 conf_empty)))"

theorem freshness_demotion_raises_iff_witness:
  "\<exists>prev c. read_edge 1 contradicted = Inr prev \<and> fst (demote DemoteFreshness 2 1 contradicted) = Inr c \<and>
     cf_class c < cf_class prev \<and> cf_value prev < cf_value c"
proof -
  have "case read_edge 1 contradicted of Inr q \<Rightarrow> cf_value q = 15 / 100 \<and> cf_class q = OSINT_UNCORROBORATED
      | Inl _ \<Rightarrow> False"
    by code_simp
  then obtain q where q: "read_edge 1 contradicted = Inr q" "cf_value q = 15 / 100" "cf_class q = OSINT_UNCORROBORATED"
    by (auto split: sum.splits)
  have "case demote DemoteFreshness 2 1 contradicted of (Inr c, _) \<Rightarrow> cf_class c = SIM_CORROBORATED | _ \<Rightarrow> False"
    by code_simp
  then obtain c s' where c: "demote DemoteFreshness 2 1 contradicted = (Inr c, s')" "cf_class c = SIM_CORROBORATED"
    by (auto split: sum.splits prod.splits)
  from freshness_demotion_raises_iff [OF c(1) q(1)] q c show ?thesis
    by (auto simp: class_order_defs)
qed

text \<open>Processing keeps the correlator's invariant (edges in band and logged, an unmatched queue
  within its bound whose events all count as processed); an event that was processed without an
  error is idempotent from then on: a replay answers \<open>no-match\<close> and changes nothing. After a
  success the last candidate edge has the class the outcome reports.\<close>

theorem correlator_process_sound:
  assumes "correlator_ok opts c" and "0 \<le> fo_unmatchedMaxSize opts"
    and "process opts candidates latency now event c = (Inr r, c')"
  shows "correlator_ok opts c' \<and>
    process opts candidates2 latency2 now2 event c' =
      (Inr \<lparr>cr_eventId = fe_id event, cr_matchedEdgeIds = [], cr_outcome = NoMatch, cr_latencyMs = 0\<rparr>, c') \<and>
    (\<forall>k. cr_outcome r = Promoted k \<or> cr_outcome r = Demoted k \<longrightarrow>
       edge_class (fc_conf c') (List.last candidates) = Some k)"
proof (intro conjI)
  show "correlator_ok opts c'" using process_ok [OF assms(1,2), of candidates latency now event] assms(3) by simp
  have "fe_id event \<in> set (fc_processed c')"
    using assms(3) by (auto simp: process_def Let_def enqueueUnmatched_def split: if_splits sum.splits prod.splits)
  then show "process opts candidates2 latency2 now2 event c' =
      (Inr \<lparr>cr_eventId = fe_id event, cr_matchedEdgeIds = [], cr_outcome = NoMatch, cr_latencyMs = 0\<rparr>, c')"
    by (simp add: process_def)
  show "\<forall>k. cr_outcome r = Promoted k \<or> cr_outcome r = Demoted k \<longrightarrow>
       edge_class (fc_conf c') (List.last candidates) = Some k"
    using assms(3)
    by (auto simp: process_def Let_def split: if_splits sum.splits prod.splits
        dest: promoter.write_all_last demoter.write_all_last)
qed

definition demo_opts :: correlator_opts where
  "demo_opts = \<lparr>fo_unmatchedTtlMs = 60000, fo_unmatchedMaxSize = 10\<rparr>"

definition demo_event :: field_event where
  "demo_event = \<lparr>fe_id = ''e'', fe_stream = ''radar'', fe_priority = CriticalPriority, fe_outcome = Confirms\<rparr>"

definition demo_correlator :: correlator where
  "demo_correlator = \<lparr>fc_processed = [], fc_unmatched = [], fc_conf = snd (initialWrite 1 0 conf_empty), fc_metrics = []\<rparr>"

theorem correlator_process_sound_witness:
  "edge_class (fc_conf (snd (process demo_opts [1] 20 5 demo_event demo_correlator))) 1 = Some FIELD_HIGH"
proof -
  have "case process demo_opts [1] 20 5 demo_event demo_correlator of (Inr r, _) \<Rightarrow> cr_outcome r = Promoted FIELD_HIGH
      | _ \<Rightarrow> False"
    by code_simp
  then obtain r c' where p: "process demo_opts [1] 20 5 demo_event demo_correlator = (Inr r, c')"
    "cr_outcome r = Promoted FIELD_HIGH"
    by (auto split: sum.splits prod.splits)
  have "conf_ok (snd (initialWrite 1 0 conf_empty))" by (intro inv_rules)
  then have "correlator_ok demo_opts demo_correlator"
    by (simp add: correlator_ok_def demo_correlator_def demo_opts_def)
  from correlator_process_sound [OF this _ p(1)] p show ?thesis by (simp add: demo_opts_def)
qed

end
