(* ===== verification/SweepStore.thy ===== *)
theory SweepStore
  imports Runtime Prelude "HOL-Library.List_Lexorder" "HOL-Library.Product_Lexorder" "HOL-Library.Char_ord"
begin

text \<open>
  \<open>packages/sweep/src/repositories/sweep.repository.ts\<close>: reviewable suggestions in Redis.

  The store keeps the Redis structures the module names: the hash of each suggestion, the
  legacy index \<open>sweep:index:all\<close>, the set \<open>sweep:index:pending\<close>, the ranked sorted sets, the
  counter, the feedback list and the resolution locks. The keys of the ranked sorted sets are
  a datatype instead of strings: \<open>indexKeyPart\<close> encodes injectively into a segment without a
  colon, so different keys are different strings, and the pattern of a scope matches exactly
  the keys of that scope. A pipeline is the sequence of its commands.

  What belongs to the JavaScript runtime is an argument of the operations (\<open>repo_env\<close>): the
  rendering of numbers and dates, \<open>JSON.stringify\<close> and \<open>JSON.parse\<close>, and the domain schema.
\<close>

section \<open>Sorted sets\<close>

type_synonym zset = "(string \<times> int) list"

definition zadd :: "int \<Rightarrow> string \<Rightarrow> zset \<Rightarrow> zset" where
  "zadd score member z = AList.update member score z"

definition zrem :: "string \<Rightarrow> zset \<Rightarrow> zset" where
  "zrem member z = AList.delete member z"

definition zcard :: "zset \<Rightarrow> nat" where
  "zcard z = length z"

text \<open>Members from the highest score down; equal scores in descending order of the member.\<close>

definition zrev :: "zset \<Rightarrow> string list" where
  "zrev z = map fst (rev (sort_key (\<lambda>(member, score). (score, member)) z))"

text \<open>\<open>ZREVRANGE key start stop\<close> for \<open>start \<ge> 0\<close>: the entries from \<open>start\<close> to \<open>stop\<close> inclusive.\<close>

definition zrevrange :: "nat \<Rightarrow> nat \<Rightarrow> zset \<Rightarrow> string list" where
  "zrevrange start count z = take count (drop start (zrev z))"

section \<open>State\<close>

datatype index_scope = AllScope | PendingScope | ReviewedScope

datatype index_key =
    ScopeIndex index_scope
  | SeverityIndex index_scope string
  | CategoryIndex index_scope string

type_synonym rhash = "(string, string) jsmap"

record feedback_row =
  fb_wasAccepted :: bool
  fb_reviewerNote :: "string option"
  fb_domainFields :: "(string, jval) jsmap"

record store =
  ss_hash :: "(string, rhash) jsmap"
  ss_all :: zset
  ss_pending :: "string list"
  ss_ranked :: "(index_key, zset) jsmap"
  ss_counter :: nat
  ss_feedback :: "feedback_row list"
  ss_locks :: "(string, string) jsmap"

definition empty_store :: store where
  "empty_store = \<lparr>ss_hash = [], ss_all = [], ss_pending = [], ss_ranked = [], ss_counter = 0,
     ss_feedback = [], ss_locks = []\<rparr>"

definition ranked :: "store \<Rightarrow> index_key \<Rightarrow> zset" where
  "ranked s k = (case map_of (ss_ranked s) k of Some z \<Rightarrow> z | None \<Rightarrow> [])"

record domain_schema =
  ds_serialize :: "(string, jval) jsmap \<Rightarrow> (string, jval) jsmap \<times> (string, jval) jsmap"
  ds_deserialize :: "(string, string option) jsmap \<Rightarrow> (string, jval) jsmap \<Rightarrow> (string, jval) jsmap"

record repo_env =
  re_schema :: "domain_schema option"
  re_domain :: string
  re_numString :: "real \<Rightarrow> string"
  re_stringify :: "(string, jval) jsmap \<Rightarrow> string"
  re_parse :: "string \<Rightarrow> jval option"
  re_iso :: "int \<Rightarrow> string"
  re_parseDate :: "string \<Rightarrow> int option"

record insert_suggestion =
  is_domain :: string
  is_domainFields :: "(string, jval) jsmap"
  is_resolutionPayload :: "string option"
  is_simSwarmId :: "string option"
  is_simDistribution :: "string option"

record sugg_row =
  sg_id :: string
  sg_domain :: string
  sg_createdAt :: string
  sg_accepted :: "bool option"
  sg_reviewedAt :: "string option"
  sg_reviewerNote :: "string option"
  sg_resolutionStatus :: string
  sg_resolvedAt :: "string option"
  sg_resolutionErrors :: "string option"
  sg_simSwarmId :: "string option"
  sg_simDistribution :: "string option"
  sg_domainFields :: "(string, jval) jsmap"
  sg_resolutionPayload :: "string option"

section \<open>Domain fields\<close>

definition DOMAIN_BLOB :: string where "DOMAIN_BLOB = ''domainBlob''"

definition RESERVED_HASH_KEYS :: "string list" where
  "RESERVED_HASH_KEYS =
     [''id'', ''domain'', ''accepted'', ''reviewerNote'', ''reviewedAt'', ''createdAt'', ''resolutionPayload'',
      ''resolutionStatus'', ''resolvedAt'', ''resolutionErrors'', ''pendingSelections'', ''simSwarmId'',
      ''simDistribution'', DOMAIN_BLOB]"

text \<open>\<open>fallbackSerializeDomainFields\<close>: the flat fields and the blob.\<close>

fun is_flat :: "jval \<Rightarrow> bool" where
  "is_flat (JArr _) = False"
| "is_flat (JObj _) = False"
| "is_flat _ = True"

definition fallbackSerialize ::
  "(real \<Rightarrow> string) \<Rightarrow> (string, jval) jsmap \<Rightarrow> (string, jval) jsmap \<times> (string, jval) jsmap" where
  "fallbackSerialize numString input =
     (map (\<lambda>(k, v). (k, if nullish v then JNull
                        else case v of JBool _ \<Rightarrow> JStr (js_string numString v)
                                     | JBig _ \<Rightarrow> JStr (js_string numString v)
                                     | _ \<Rightarrow> v)) (filter (\<lambda>(_, v). is_flat v) input),
      filter (\<lambda>(_, v). \<not> is_flat v) input)"

definition reserved_error :: "string list \<Rightarrow> exn" where
  "reserved_error ks = mk_error (''Sweep domain field(s) use reserved storage key(s): '' @ join '', '' ks)"

definition serializeDomainFields ::
  "repo_env \<Rightarrow> (string, jval) jsmap \<Rightarrow> ((string, string option) jsmap \<times> (string, jval) jsmap) throws" where
  "serializeDomainFields env input =
     (let (flat0, blob) = (case re_schema env of
                             Some sch \<Rightarrow> ds_serialize sch input
                           | None \<Rightarrow> fallbackSerialize (re_numString env) input);
          flat = map (\<lambda>(k, v). (k, if nullish v then None else Some (js_string (re_numString env) v))) flat0;
          reserved = filter (\<lambda>k. k \<in> set RESERVED_HASH_KEYS) (map fst flat)
      in if reserved \<noteq> [] then Inl (reserved_error reserved) else Inr (flat, blob))"

definition extractFlatFields :: "rhash \<Rightarrow> (string, string option) jsmap" where
  "extractFlatFields d =
     map (\<lambda>(k, v). (k, if v = [] then None else Some v)) (filter (\<lambda>(k, _). k \<notin> set RESERVED_HASH_KEYS) d)"

text \<open>The value of a field, the empty string when it is absent (both are falsy in the code).\<close>

definition hfield :: "rhash \<Rightarrow> string \<Rightarrow> string" where
  "hfield d k = (case map_of d k of Some v \<Rightarrow> v | None \<Rightarrow> [])"

definition parseBlob :: "repo_env \<Rightarrow> string \<Rightarrow> (string, jval) jsmap" where
  "parseBlob env raw =
     (if raw = [] then []
      else (case re_parse env raw of Some (JObj fs) \<Rightarrow> fs | _ \<Rightarrow> []))"

definition spread :: "('k, 'v) jsmap \<Rightarrow> ('k, 'v) jsmap \<Rightarrow> ('k, 'v) jsmap" where
  "spread m kvs = foldl (\<lambda>acc (k, v). AList.update k v acc) m kvs"

definition deserializeDomainFields :: "repo_env \<Rightarrow> rhash \<Rightarrow> (string, jval) jsmap" where
  "deserializeDomainFields env d =
     (let flat = extractFlatFields d; blob = parseBlob env (hfield d DOMAIN_BLOB) in
      case re_schema env of
        Some sch \<Rightarrow> ds_deserialize sch flat blob
      | None \<Rightarrow> spread (map (\<lambda>(k, v). (k, case v of None \<Rightarrow> JNull | Some t \<Rightarrow> JStr t)) flat) blob)"

section \<open>Rows\<close>

definition none_if_empty :: "string \<Rightarrow> string option" where
  "none_if_empty s = (if s = [] then None else Some s)"

definition opt_string :: "string option \<Rightarrow> string" where
  "opt_string x = (case x of Some s \<Rightarrow> s | None \<Rightarrow> [])"

definition toHash :: "repo_env \<Rightarrow> insert_suggestion \<Rightarrow> nat \<Rightarrow> string \<Rightarrow> rhash throws" where
  "toHash env sug i createdAt =
     (case serializeDomainFields env (is_domainFields sug) of
        Inl e \<Rightarrow> Inl e
      | Inr (flat, blob) \<Rightarrow>
          Inr (spread
            [(''id'', show_nat i),
             (''domain'', if is_domain sug \<noteq> [] then is_domain sug else re_domain env),
             (''accepted'', []), (''reviewerNote'', []), (''reviewedAt'', []), (''createdAt'', createdAt),
             (''resolutionPayload'', opt_string (is_resolutionPayload sug)),
             (''resolutionStatus'', []), (''resolvedAt'', []), (''resolutionErrors'', []), (''pendingSelections'', []),
             (''simSwarmId'', opt_string (is_simSwarmId sug)),
             (''simDistribution'', opt_string (is_simDistribution sug)),
             (DOMAIN_BLOB, if blob = [] then [] else re_stringify env blob)]
            (map (\<lambda>(k, v). (k, opt_string v)) flat)))"

definition toRow :: "repo_env \<Rightarrow> rhash \<Rightarrow> sugg_row option" where
  "toRow env d =
     (if hfield d ''id'' = [] then None
      else Some
       \<lparr>sg_id = hfield d ''id'',
        sg_domain = (if hfield d ''domain'' \<noteq> [] then hfield d ''domain'' else re_domain env),
        sg_createdAt = hfield d ''createdAt'',
        sg_accepted = (if hfield d ''accepted'' = ''true'' then Some True
                       else if hfield d ''accepted'' = ''false'' then Some False else None),
        sg_reviewedAt = none_if_empty (hfield d ''reviewedAt''),
        sg_reviewerNote = none_if_empty (hfield d ''reviewerNote''),
        sg_resolutionStatus = (if hfield d ''resolutionStatus'' \<noteq> [] then hfield d ''resolutionStatus'' else ''pending''),
        sg_resolvedAt = none_if_empty (hfield d ''resolvedAt''),
        sg_resolutionErrors = none_if_empty (hfield d ''resolutionErrors''),
        sg_simSwarmId = none_if_empty (hfield d ''simSwarmId''),
        sg_simDistribution = none_if_empty (hfield d ''simDistribution''),
        sg_domainFields = deserializeDomainFields env d,
        sg_resolutionPayload = none_if_empty (hfield d ''resolutionPayload'')\<rparr>)"

definition hgetall :: "store \<Rightarrow> string \<Rightarrow> rhash" where
  "hgetall s i = (case map_of (ss_hash s) i of Some d \<Rightarrow> d | None \<Rightarrow> [])"

definition getById :: "repo_env \<Rightarrow> store \<Rightarrow> string \<Rightarrow> sugg_row option" where
  "getById env s i = toRow env (hgetall s i)"

definition rowsByIds :: "repo_env \<Rightarrow> store \<Rightarrow> string list \<Rightarrow> sugg_row list" where
  "rowsByIds env s ids = List.map_filter (getById env s) ids"

section \<open>Indexes\<close>

text \<open>\<open>normalizeFilter\<close> on a string; an absent value is \<open>None\<close>.\<close>

definition normalizeFilter :: "string option \<Rightarrow> string option" where
  "normalizeFilter v = (case v of None \<Rightarrow> None | Some t \<Rightarrow> none_if_empty (to_lower (trim t)))"

definition severityPriority :: "string option \<Rightarrow> int" where
  "severityPriority severity =
     (case normalizeFilter severity of
        Some n \<Rightarrow> if n = ''critical'' then 3 else if n = ''warning'' then 2 else if n = ''info'' then 1 else 0
      | None \<Rightarrow> 0)"

definition rankedScore :: "repo_env \<Rightarrow> string \<Rightarrow> string option \<Rightarrow> int" where
  "rankedScore env createdAt severity =
     (let timeScore = (case re_parseDate env createdAt of Some t \<Rightarrow> max 0 t | None \<Rightarrow> 0)
      in severityPriority severity * 10000000000000 + timeScore)"

text \<open>The three fields of a hash that indexing reads.\<close>

record index_fields =
  xf_createdAt :: string
  xf_severity :: "string option"
  xf_category :: "string option"

definition fields_of_hash :: "rhash \<Rightarrow> index_fields" where
  "fields_of_hash d = \<lparr>xf_createdAt = hfield d ''createdAt'', xf_severity = map_of d ''severity'', xf_category = map_of d ''category''\<rparr>"

definition keys_for :: "index_fields \<Rightarrow> index_scope \<Rightarrow> index_key list" where
  "keys_for x scope =
     ScopeIndex scope #
     (case normalizeFilter (xf_severity x) of Some v \<Rightarrow> [SeverityIndex scope v] | None \<Rightarrow> []) @
     (case normalizeFilter (xf_category x) of Some v \<Rightarrow> [CategoryIndex scope v] | None \<Rightarrow> [])"

definition on_ranked :: "index_key \<Rightarrow> (zset \<Rightarrow> zset) \<Rightarrow> store \<Rightarrow> store" where
  "on_ranked k f s = s\<lparr>ss_ranked := AList.update k (f (ranked s k)) (ss_ranked s)\<rparr>"

definition indexSuggestion :: "repo_env \<Rightarrow> string \<Rightarrow> index_fields \<Rightarrow> index_scope list \<Rightarrow> store \<Rightarrow> store" where
  "indexSuggestion env i x scopes s =
     foldl (\<lambda>s k. on_ranked k (zadd (rankedScore env (xf_createdAt x) (xf_severity x)) i) s) s
       (concat (map (keys_for x) scopes))"

definition unindexSuggestion :: "string \<Rightarrow> index_fields \<Rightarrow> index_scope list \<Rightarrow> store \<Rightarrow> store" where
  "unindexSuggestion i x scopes s =
     foldl (\<lambda>s k. on_ranked k (zrem i) s) s (concat (map (keys_for x) scopes))"

section \<open>Writes\<close>

text \<open>\<open>enqueueWrite\<close>: nothing is sent before the pipeline runs, so a throw leaves the store alone.\<close>

definition enqueueWrite :: "repo_env \<Rightarrow> insert_suggestion \<Rightarrow> nat \<Rightarrow> int \<Rightarrow> store \<Rightarrow> store throws" where
  "enqueueWrite env sug i now s =
     (case toHash env sug i (re_iso env now) of
        Inl e \<Rightarrow> Inl e
      | Inr d \<Rightarrow>
          Inr (indexSuggestion env (show_nat i) (fields_of_hash d) [AllScope, PendingScope]
            (s\<lparr>ss_hash := AList.update (show_nat i) (spread (hgetall s (show_nat i)) d) (ss_hash s),
               ss_all := zadd now (show_nat i) (ss_all s),
               ss_pending := jset_add (show_nat i) (ss_pending s)\<rparr>)))"

fun enqueue_all :: "repo_env \<Rightarrow> insert_suggestion list \<Rightarrow> nat \<Rightarrow> int \<Rightarrow> store \<Rightarrow> store throws" where
  "enqueue_all env [] i now s = Inr s"
| "enqueue_all env (sug # sugs) i now s =
     (case enqueueWrite env sug i now s of
        Inl e \<Rightarrow> Inl e
      | Inr s' \<Rightarrow> enqueue_all env sugs (Suc i) now s')"

text \<open>The counter is incremented before the hashes are built and stays so when one throws.\<close>

definition insertMany :: "repo_env \<Rightarrow> insert_suggestion list \<Rightarrow> int \<Rightarrow> store \<Rightarrow> nat throws \<times> store" where
  "insertMany env sugs now s =
     (if sugs = [] then (Inr 0, s)
      else (let s1 = s\<lparr>ss_counter := ss_counter s + length sugs\<rparr>;
                firstId = ss_counter s1 - length sugs + 1
            in case enqueue_all env sugs firstId now s1 of
                 Inl e \<Rightarrow> (Inl e, s1)
               | Inr s2 \<Rightarrow> (Inr (length sugs), s2)))"

definition insertGeneric :: "repo_env \<Rightarrow> insert_suggestion \<Rightarrow> int \<Rightarrow> store \<Rightarrow> string throws \<times> store" where
  "insertGeneric env sug now s =
     (let i = ss_counter s + 1; s1 = s\<lparr>ss_counter := i\<rparr> in
      case enqueueWrite env sug i now s1 of
        Inl e \<Rightarrow> (Inl e, s1)
      | Inr s2 \<Rightarrow> (Inr (show_nat i), s2))"

definition review :: "repo_env \<Rightarrow> string \<Rightarrow> bool \<Rightarrow> string option \<Rightarrow> int \<Rightarrow> store \<Rightarrow> bool \<times> store" where
  "review env i accepted note now s =
     (let current = hgetall s i in
      if hfield current ''id'' = [] then (False, s)
      else (let patch = [(''accepted'', if accepted then ''true'' else ''false''),
                         (''reviewerNote'', opt_string note), (''reviewedAt'', re_iso env now)];
                patched = spread current patch;
                s1 = s\<lparr>ss_hash := AList.update i patched (ss_hash s),
                       ss_pending := removeAll i (ss_pending s)\<rparr>;
                s2 = unindexSuggestion i (fields_of_hash patched) [PendingScope] s1;
                s3 = indexSuggestion env i (fields_of_hash patched) [ReviewedScope] s2;
                row = toRow env patched;
                fb = \<lparr>fb_wasAccepted = accepted, fb_reviewerNote = note,
                      fb_domainFields = (case row of Some r \<Rightarrow> sg_domainFields r | None \<Rightarrow> [])\<rparr>
            in (True, s3\<lparr>ss_feedback := take 200 (fb # ss_feedback s3)\<rparr>)))"

text \<open>
  \<open>LRANGE 0 (limit - 1)\<close>: a limit of 0 asks for the range up to \<open>-1\<close>, which is the whole list. The
  rows are kept as records; their JSON text is not modelled.
\<close>

definition loadPastFeedback :: "nat \<Rightarrow> store \<Rightarrow> feedback_row list" where
  "loadPastFeedback limit s = (if limit = 0 then ss_feedback s else take limit (ss_feedback s))"

text \<open>\<open>updateResolution\<close>; the two lists arrive as the JSON texts the code stores.\<close>

record resolution_update =
  ru_status :: string
  ru_resolvedAt :: "string option"
  ru_errors :: "string option"
  ru_pendingSelections :: "string option"

definition updateResolution :: "string \<Rightarrow> resolution_update \<Rightarrow> store \<Rightarrow> store" where
  "updateResolution i u s =
     s\<lparr>ss_hash := AList.update i
         (spread (hgetall s i)
           [(''resolutionStatus'', ru_status u), (''resolvedAt'', opt_string (ru_resolvedAt u)),
            (''resolutionErrors'', opt_string (ru_errors u)),
            (''pendingSelections'', opt_string (ru_pendingSelections u))]) (ss_hash s)\<rparr>"

text \<open>\<open>SET key token PX ttl NX\<close> and the compare-and-delete script. Expiry is a step of its own.\<close>

definition claimResolutionLock :: "string \<Rightarrow> string \<Rightarrow> store \<Rightarrow> bool \<times> store" where
  "claimResolutionLock i token s =
     (if map_of (ss_locks s) i = None then (True, s\<lparr>ss_locks := AList.update i token (ss_locks s)\<rparr>)
      else (False, s))"

definition releaseResolutionLock :: "string \<Rightarrow> string \<Rightarrow> store \<Rightarrow> store" where
  "releaseResolutionLock i token s =
     (if map_of (ss_locks s) i = Some token then s\<lparr>ss_locks := AList.delete i (ss_locks s)\<rparr> else s)"

text \<open>The expiry of a suggestion hash after \<open>TTL_SECS\<close>: Redis deletes that key and nothing else.\<close>

definition expire_hash :: "string \<Rightarrow> store \<Rightarrow> store" where
  "expire_hash i s = s\<lparr>ss_hash := AList.delete i (ss_hash s)\<rparr>"

section \<open>Reads\<close>

definition scopeFromReviewed :: "bool option \<Rightarrow> index_scope" where
  "scopeFromReviewed reviewed =
     (case reviewed of Some False \<Rightarrow> PendingScope | Some True \<Rightarrow> ReviewedScope | None \<Rightarrow> AllScope)"

record list_filters =
  lf_reviewed :: "bool option"
  lf_severity :: "string option"
  lf_category :: "string option"

text \<open>\<open>normalizeFilter\<close> on a domain field of a row.\<close>

definition row_filter_value :: "repo_env \<Rightarrow> sugg_row \<Rightarrow> string \<Rightarrow> string option" where
  "row_filter_value env row k =
     (case map_of (sg_domainFields row) k of
        None \<Rightarrow> None
      | Some v \<Rightarrow> if nullish v then None else normalizeFilter (Some (js_string (re_numString env) v)))"

definition matchesListFilters :: "repo_env \<Rightarrow> list_filters \<Rightarrow> sugg_row \<Rightarrow> bool" where
  "matchesListFilters env f row =
     (\<not> (lf_reviewed f = Some True \<and> sg_reviewedAt row = None) \<and>
      \<not> (lf_reviewed f = Some False \<and> sg_reviewedAt row \<noteq> None) \<and>
      \<not> (lf_severity f \<noteq> None \<and> row_filter_value env row ''severity'' \<noteq> lf_severity f) \<and>
      \<not> (lf_category f \<noteq> None \<and> row_filter_value env row ''category'' \<noteq> lf_category f))"

definition directListIndex :: "index_scope \<Rightarrow> list_filters \<Rightarrow> index_key option" where
  "directListIndex scope f =
     (case (lf_severity f, lf_category f) of
        (Some _, Some _) \<Rightarrow> None
      | (Some sev, None) \<Rightarrow> Some (SeverityIndex scope sev)
      | (None, Some cat) \<Rightarrow> Some (CategoryIndex scope cat)
      | (None, None) \<Rightarrow> Some (ScopeIndex scope))"

text \<open>The stable sort by size keeps the severity index first on a tie.\<close>

definition smallestCandidateIndex :: "store \<Rightarrow> index_scope \<Rightarrow> list_filters \<Rightarrow> index_key" where
  "smallestCandidateIndex s scope f =
     (let candidates = (case lf_severity f of Some v \<Rightarrow> [SeverityIndex scope v] | None \<Rightarrow> []) @
                       (case lf_category f of Some v \<Rightarrow> [CategoryIndex scope v] | None \<Rightarrow> [])
      in case sort_key (\<lambda>k. zcard (ranked s k)) candidates of
           [] \<Rightarrow> ScopeIndex scope
         | k # _ \<Rightarrow> k)"

definition FILTER_SCAN_BATCH :: nat where "FILTER_SCAN_BATCH = 100"
definition LEGACY_INDEX_SCAN_BATCH :: nat where "LEGACY_INDEX_SCAN_BATCH = 500"

text \<open>Lines 494 to 498: one batch; \<open>n\<close> is the code's \<open>total\<close>, it counts the matching rows seen so far.\<close>

fun scan_rows :: "(sugg_row \<Rightarrow> bool) \<Rightarrow> nat \<Rightarrow> nat \<Rightarrow> sugg_row list \<Rightarrow> sugg_row list \<times> nat \<Rightarrow> sugg_row list \<times> nat" where
  "scan_rows p offset limit [] acc = acc"
| "scan_rows p offset limit (row # rest) (rows, n) =
     (if \<not> p row then scan_rows p offset limit rest (rows, n)
      else scan_rows p offset limit rest
             (if n \<ge> offset \<and> length rows < limit then rows @ [row] else rows, n + 1))"

text \<open>The \<open>while (true)\<close> loops over an index in batches, as the list of the batches they visit.\<close>

function batches :: "nat \<Rightarrow> nat \<Rightarrow> 'a list \<Rightarrow> 'a list list" where
  "batches n start xs =
     (let ids = take n (drop start xs) in
      if ids = [] then []
      else ids # (if length ids < n then [] else batches n (start + n) xs))"
  by pat_completeness auto
termination by (relation "measure (\<lambda>(n, start, xs). length xs - start)") auto

declare batches.simps [simp del]

definition scanFilteredIndex ::
  "repo_env \<Rightarrow> store \<Rightarrow> index_key \<Rightarrow> list_filters \<Rightarrow> nat \<Rightarrow> nat \<Rightarrow> sugg_row list \<times> nat" where
  "scanFilteredIndex env s key f offset limit =
     foldl (\<lambda>acc ids. scan_rows (matchesListFilters env f) offset limit (rowsByIds env s ids) acc) ([], 0)
       (batches FILTER_SCAN_BATCH 0 (zrev (ranked s key)))"

definition scope_of_key :: "index_key \<Rightarrow> index_scope" where
  "scope_of_key k = (case k of ScopeIndex c \<Rightarrow> c | SeverityIndex c _ \<Rightarrow> c | CategoryIndex c _ \<Rightarrow> c)"

definition deleteRankedScopeIndexes :: "index_scope \<Rightarrow> store \<Rightarrow> store" where
  "deleteRankedScopeIndexes scope s = s\<lparr>ss_ranked := filter (\<lambda>(k, _). scope_of_key k \<noteq> scope) (ss_ranked s)\<rparr>"

definition row_index_fields :: "repo_env \<Rightarrow> sugg_row \<Rightarrow> index_fields" where
  "row_index_fields env row =
     (let val = (\<lambda>k. case map_of (sg_domainFields row) k of
                       None \<Rightarrow> [] | Some v \<Rightarrow> if nullish v then [] else js_string (re_numString env) v)
      in \<lparr>xf_createdAt = sg_createdAt row, xf_severity = Some (val ''severity''), xf_category = Some (val ''category'')\<rparr>)"

definition rebuildRankedIndexesFromLegacy :: "repo_env \<Rightarrow> store \<Rightarrow> store" where
  "rebuildRankedIndexesFromLegacy env s =
     (let s0 = foldl (\<lambda>s sc. deleteRankedScopeIndexes sc s) s [AllScope, PendingScope, ReviewedScope] in
      foldl (\<lambda>s ids.
          foldl (\<lambda>s row.
              indexSuggestion env (sg_id row) (row_index_fields env row)
                [if sg_reviewedAt row \<noteq> None then ReviewedScope else PendingScope]
                (indexSuggestion env (sg_id row) (row_index_fields env row) [AllScope] s))
            s (rowsByIds env s ids))
        s0 (batches LEGACY_INDEX_SCAN_BATCH 0 (zrev (ss_all s0))))"

definition pendingRankedSampleMatchesSet :: "store \<Rightarrow> bool" where
  "pendingRankedSampleMatchesSet s =
     (let ids = zrevrange 0 20 (ranked s (ScopeIndex PendingScope))
      in ids \<noteq> [] \<and> list_all (\<lambda>i. i \<in> set (ss_pending s)) ids)"

definition ensurePendingRankedIndexForRead :: "repo_env \<Rightarrow> store \<Rightarrow> store" where
  "ensurePendingRankedIndexForRead env s =
     (if ss_pending s = [] then deleteRankedScopeIndexes PendingScope s
      else if zcard (ranked s (ScopeIndex PendingScope)) = length (ss_pending s) \<and> pendingRankedSampleMatchesSet s
      then s
      else foldl (\<lambda>s row. indexSuggestion env (sg_id row) (row_index_fields env row) [PendingScope] s)
             (deleteRankedScopeIndexes PendingScope s) (rowsByIds env s (ss_pending s)))"

definition ensureRankedIndexesForRead :: "repo_env \<Rightarrow> index_scope \<Rightarrow> store \<Rightarrow> store" where
  "ensureRankedIndexesForRead env scope s =
     (if zcard (ranked s (ScopeIndex AllScope)) = 0 \<and> zcard (ss_all s) > 0
      then rebuildRankedIndexesFromLegacy env s
      else if scope = PendingScope then ensurePendingRankedIndexForRead env s else s)"

record list_opts =
  lo_page :: "nat option"
  lo_limit :: "nat option"
  lo_category :: "string option"
  lo_severity :: "string option"
  lo_reviewed :: "bool option"

definition list_suggestions :: "repo_env \<Rightarrow> list_opts \<Rightarrow> store \<Rightarrow> (sugg_row list \<times> nat) \<times> store" where
  "list_suggestions env opts s0 =
     (let page = max 1 (case lo_page opts of Some p \<Rightarrow> p | None \<Rightarrow> 1);
          limit = max 1 (case lo_limit opts of Some l \<Rightarrow> l | None \<Rightarrow> 20);
          offset = (page - 1) * limit;
          scope = scopeFromReviewed (lo_reviewed opts);
          s = ensureRankedIndexesForRead env scope s0;
          f = \<lparr>lf_reviewed = lo_reviewed opts, lf_severity = normalizeFilter (lo_severity opts),
               lf_category = normalizeFilter (lo_category opts)\<rparr>
      in case directListIndex scope f of
           Some key \<Rightarrow>
             ((filter (matchesListFilters env f) (rowsByIds env s (zrevrange offset limit (ranked s key))),
               zcard (ranked s key)), s)
         | None \<Rightarrow> (scanFilteredIndex env s (smallestCandidateIndex s scope f) f offset limit, s))"

record sweep_stats =
  sw_total :: nat
  sw_pending :: nat
  sw_accepted :: nat
  sw_rejected :: nat
  sw_bySeverity :: "(string, nat) jsmap"
  sw_byCategory :: "(string, nat) jsmap"

definition bump :: "string \<Rightarrow> (string, nat) jsmap \<Rightarrow> (string, nat) jsmap" where
  "bump k m = (if k = [] then m else AList.update k (Suc (case map_of m k of Some n \<Rightarrow> n | None \<Rightarrow> 0)) m)"

definition count_row :: "rhash \<Rightarrow> sweep_stats \<Rightarrow> sweep_stats" where
  "count_row d st =
     st\<lparr>sw_accepted := sw_accepted st + (if hfield d ''accepted'' = ''true'' then 1 else 0),
        sw_rejected := sw_rejected st + (if hfield d ''accepted'' = ''false'' then 1 else 0),
        sw_bySeverity := bump (hfield d ''severity'') (sw_bySeverity st),
        sw_byCategory := bump (hfield d ''category'') (sw_byCategory st)\<rparr>"

definition getStats :: "store \<Rightarrow> sweep_stats" where
  "getStats s =
     foldl (\<lambda>st ids. foldl (\<lambda>st i. count_row (hgetall s i) st) st ids)
       \<lparr>sw_total = zcard (ss_all s), sw_pending = length (ss_pending s), sw_accepted = 0, sw_rejected = 0,
        sw_bySeverity = [], sw_byCategory = []\<rparr>
       (batches LEGACY_INDEX_SCAN_BATCH 0 (zrev (ss_all s)))"

section \<open>Scanning in batches\<close>

lemma concat_batches:
  "0 < n \<Longrightarrow> concat (batches n start xs) = drop start xs"
proof (induction n start xs rule: batches.induct)
  case (1 n start xs)
  let ?ids = "take n (drop start xs)"
  show ?case
  proof (cases "?ids = []")
    case True
    with "1.prems" show ?thesis by (subst batches.simps) (simp add: Let_def)
  next
    case False
    have "concat (batches n start xs) = ?ids @ (if length ?ids < n then [] else drop (start + n) xs)"
      using False "1.IH" [OF refl False] "1.prems" by (subst batches.simps) (auto simp: Let_def)
    also have "\<dots> = drop start xs"
    proof (cases "length ?ids < n")
      case True
      then have "?ids = drop start xs" by simp
      with True show ?thesis by simp
    next
      case False
      then show ?thesis by (simp add: False) (metis add.commute append_take_drop_id drop_drop)
    qed
    finally show ?thesis .
  qed
qed

lemma scan_rows_append: "scan_rows p o' l (xs @ ys) acc = scan_rows p o' l ys (scan_rows p o' l xs acc)"
  by (induction p o' l xs acc rule: scan_rows.induct) auto

lemma scan_rows_spec:
  "scan_rows p offset limit xs (rows, n) =
     (rows @ take (limit - length rows) (drop (offset - n) (filter p xs)), n + length (filter p xs))"
proof (induction xs arbitrary: rows n)
  case (Cons x xs)
  show ?case
  proof (cases "p x")
    case True
    consider "offset \<le> n" "length rows < limit" | "offset \<le> n" "limit \<le> length rows" | "n < offset"
      by linarith
    then show ?thesis
    proof cases
      case 1
      then have "limit - length rows = Suc (limit - Suc (length rows))" by simp
      with 1 True Cons.IH show ?thesis by simp
    next
      case 2
      with True Cons.IH show ?thesis by simp
    next
      case 3
      then have "offset - n = Suc (offset - Suc n)" by simp
      with 3 True Cons.IH show ?thesis by simp
    qed
  qed (use Cons.IH in simp)
qed simp

lemma rowsByIds_append: "rowsByIds env s (a @ b) = rowsByIds env s a @ rowsByIds env s b"
  by (simp add: rowsByIds_def map_filter_def)

lemma foldl_scan_batches:
  "foldl (\<lambda>acc ids. scan_rows p o' l (rowsByIds env s ids) acc) acc bs =
     scan_rows p o' l (rowsByIds env s (concat bs)) acc"
proof (induction bs arbitrary: acc)
  case Nil
  then show ?case by (cases acc) (simp add: rowsByIds_def map_filter_def)
qed (simp add: rowsByIds_append scan_rows_append)

lemma scanFilteredIndex_eq:
  "scanFilteredIndex env s key f offset limit =
     (let rows = filter (matchesListFilters env f) (rowsByIds env s (zrev (ranked s key)))
      in (take limit (drop offset rows), length rows))"
  by (simp add: scanFilteredIndex_def foldl_scan_batches concat_batches FILTER_SCAN_BATCH_def scan_rows_spec Let_def)


section \<open>Spreading fields\<close>

lemma map_of_spread: "map_of (spread m kvs) k = (case map_of (rev kvs) k of Some v \<Rightarrow> Some v | None \<Rightarrow> map_of m k)"
proof (induction kvs arbitrary: m)
  case (Cons kv kvs)
  obtain a b where "kv = (a, b)" by fastforce
  with Cons [of "AList.update a b m"] show ?case
    by (auto simp: spread_def update_conv map_add_def split: option.splits)
qed (simp add: spread_def)

lemma map_of_spread_other: "k \<notin> fst ` set kvs \<Longrightarrow> map_of (spread m kvs) k = map_of m k"
proof -
  assume "k \<notin> fst ` set kvs"
  then have "map_of (rev kvs) k = None" by (simp add: map_of_eq_None_iff)
  then show ?thesis by (simp add: map_of_spread)
qed

lemma hfield_spread_other: "k \<notin> fst ` set kvs \<Longrightarrow> hfield (spread m kvs) k = hfield m k"
  by (simp add: hfield_def map_of_spread_other)

lemma serializeDomainFields_keys:
  "serializeDomainFields env input = Inr (flat, blob) \<Longrightarrow> k \<in> set RESERVED_HASH_KEYS \<Longrightarrow> k \<notin> fst ` set flat"
  unfolding serializeDomainFields_def Let_def
  by (auto simp: filter_empty_conv split: prod.splits if_splits)

text \<open>Domain fields cannot shadow a field of the store.\<close>

lemma toHash_reserved:
  assumes "toHash env sug i c = Inr d"
  shows "hfield d ''id'' = show_nat i" "hfield d ''reviewedAt'' = []" "hfield d ''accepted'' = []"
    "hfield d ''resolutionStatus'' = []" "hfield d ''createdAt'' = c"
    "hfield d ''resolutionPayload'' = opt_string (is_resolutionPayload sug)"
proof -
  from assms obtain flat blob where ser: "serializeDomainFields env (is_domainFields sug) = Inr (flat, blob)"
    by (auto simp: toHash_def split: sum.splits)
  have k: "k \<notin> fst ` set (map (\<lambda>(k, v). (k, opt_string v)) flat)" if "k \<in> set RESERVED_HASH_KEYS" for k
    using serializeDomainFields_keys [OF ser that] by force
  from assms ser show "hfield d ''id'' = show_nat i" "hfield d ''reviewedAt'' = []" "hfield d ''accepted'' = []"
    "hfield d ''resolutionStatus'' = []" "hfield d ''createdAt'' = c"
    "hfield d ''resolutionPayload'' = opt_string (is_resolutionPayload sug)"
    by (auto simp: toHash_def hfield_spread_other [OF k] RESERVED_HASH_KEYS_def) (simp_all add: hfield_def DOMAIN_BLOB_def)
qed

section \<open>Ranked indexes\<close>

lemma ranked_on_ranked: "ranked (on_ranked k f s) k' = (if k' = k then f (ranked s k) else ranked s k')"
  by (simp add: ranked_def on_ranked_def update_conv)

lemma ranked_foldl:
  "distinct ks \<Longrightarrow> ranked (foldl (\<lambda>s k. on_ranked k f s) s ks) k = (if k \<in> set ks then f (ranked s k) else ranked s k)"
  by (induction ks arbitrary: s) (auto simp: ranked_on_ranked)

lemma on_ranked_other [simp]:
  "ss_hash (on_ranked k f s) = ss_hash s" "ss_all (on_ranked k f s) = ss_all s"
  "ss_pending (on_ranked k f s) = ss_pending s" "ss_counter (on_ranked k f s) = ss_counter s"
  "ss_locks (on_ranked k f s) = ss_locks s" "ss_feedback (on_ranked k f s) = ss_feedback s"
  by (simp_all add: on_ranked_def)

lemma foldl_on_ranked_other [simp]:
  "ss_hash (foldl (\<lambda>s k. on_ranked k f s) s ks) = ss_hash s" "ss_all (foldl (\<lambda>s k. on_ranked k f s) s ks) = ss_all s"
  "ss_pending (foldl (\<lambda>s k. on_ranked k f s) s ks) = ss_pending s"
  "ss_counter (foldl (\<lambda>s k. on_ranked k f s) s ks) = ss_counter s"
  "ss_locks (foldl (\<lambda>s k. on_ranked k f s) s ks) = ss_locks s"
  "ss_feedback (foldl (\<lambda>s k. on_ranked k f s) s ks) = ss_feedback s"
  by (induction ks arbitrary: s) simp_all

lemma keys_for_scope: "k \<in> set (keys_for x sc) \<Longrightarrow> scope_of_key k = sc"
  by (auto simp: keys_for_def scope_of_key_def split: option.splits)

lemma distinct_keys_for: "distinct (keys_for x sc)"
  by (auto simp: keys_for_def split: option.splits)

lemma distinct_keys_scopes: "distinct scs \<Longrightarrow> distinct (concat (map (keys_for x) scs))"
proof (induction scs)
  case (Cons sc scs)
  then show ?case by (auto simp: distinct_keys_for dest!: keys_for_scope)
qed simp

lemma in_keys_scopes: "k \<in> set (concat (map (keys_for x) scs)) \<longleftrightarrow> scope_of_key k \<in> set scs \<and> k \<in> set (keys_for x (scope_of_key k))"
  by (auto dest: keys_for_scope)

lemma ranked_index:
  "distinct scs \<Longrightarrow> ranked (indexSuggestion env i x scs s) k =
     (if scope_of_key k \<in> set scs \<and> k \<in> set (keys_for x (scope_of_key k))
      then zadd (rankedScore env (xf_createdAt x) (xf_severity x)) i (ranked s k) else ranked s k)"
  unfolding indexSuggestion_def using ranked_foldl [OF distinct_keys_scopes] in_keys_scopes by simp

lemma ranked_unindex:
  "distinct scs \<Longrightarrow> ranked (unindexSuggestion i x scs s) k =
     (if scope_of_key k \<in> set scs \<and> k \<in> set (keys_for x (scope_of_key k)) then zrem i (ranked s k) else ranked s k)"
  unfolding unindexSuggestion_def using ranked_foldl [OF distinct_keys_scopes] in_keys_scopes by simp

lemma index_other [simp]:
  "ss_hash (indexSuggestion env i x scs s) = ss_hash s" "ss_all (indexSuggestion env i x scs s) = ss_all s"
  "ss_pending (indexSuggestion env i x scs s) = ss_pending s" "ss_counter (indexSuggestion env i x scs s) = ss_counter s"
  by (simp_all add: indexSuggestion_def)

lemma unindex_other [simp]:
  "ss_hash (unindexSuggestion i x scs s) = ss_hash s" "ss_all (unindexSuggestion i x scs s) = ss_all s"
  "ss_pending (unindexSuggestion i x scs s) = ss_pending s" "ss_counter (unindexSuggestion i x scs s) = ss_counter s"
  by (simp_all add: unindexSuggestion_def)

section \<open>The index invariant\<close>

definition in_scope :: "index_scope \<Rightarrow> rhash \<Rightarrow> bool" where
  "in_scope sc d = (case sc of AllScope \<Rightarrow> True | PendingScope \<Rightarrow> hfield d ''reviewedAt'' = []
                    | ReviewedScope \<Rightarrow> hfield d ''reviewedAt'' \<noteq> [])"

text \<open>The keys a stored suggestion belongs under.\<close>

definition belongs :: "rhash \<Rightarrow> index_key \<Rightarrow> bool" where
  "belongs d k = (in_scope (scope_of_key k) d \<and> k \<in> set (keys_for (fields_of_hash d) (scope_of_key k)))"

definition hash_score :: "repo_env \<Rightarrow> rhash \<Rightarrow> int" where
  "hash_score env d = rankedScore env (hfield d ''createdAt'') (map_of d ''severity'')"

definition store_ok :: "repo_env \<Rightarrow> store \<Rightarrow> bool" where
  "store_ok env s \<longleftrightarrow>
     distinct (map fst (ss_hash s)) \<and> fst ` set (ss_hash s) \<subseteq> show_nat ` {1..ss_counter s} \<and>
     (\<forall>i d. map_of (ss_hash s) i = Some d \<longrightarrow> hfield d ''id'' = i) \<and>
     distinct (map fst (ss_all s)) \<and> fst ` set (ss_all s) = fst ` set (ss_hash s) \<and>
     distinct (ss_pending s) \<and>
     (\<forall>i. i \<in> set (ss_pending s) \<longleftrightarrow> (\<exists>d. map_of (ss_hash s) i = Some d \<and> hfield d ''reviewedAt'' = [])) \<and>
     (\<forall>k. distinct (map fst (ranked s k)) \<and>
        (\<forall>i v. map_of (ranked s k) i = Some v \<longleftrightarrow>
           (\<exists>d. map_of (ss_hash s) i = Some d \<and> belongs d k \<and> v = hash_score env d)))"

lemma store_okI:
  assumes "distinct (map fst (ss_hash s))" and "fst ` set (ss_hash s) \<subseteq> show_nat ` {1..ss_counter s}"
    and "\<And>i d. map_of (ss_hash s) i = Some d \<Longrightarrow> hfield d ''id'' = i"
    and "distinct (map fst (ss_all s))" and "fst ` set (ss_all s) = fst ` set (ss_hash s)"
    and "distinct (ss_pending s)"
    and "\<And>i. i \<in> set (ss_pending s) \<longleftrightarrow> (\<exists>d. map_of (ss_hash s) i = Some d \<and> hfield d ''reviewedAt'' = [])"
    and "\<And>k. distinct (map fst (ranked s k)) \<and>
        (\<forall>i v. map_of (ranked s k) i = Some v \<longleftrightarrow>
           (\<exists>d. map_of (ss_hash s) i = Some d \<and> belongs d k \<and> v = hash_score env d))"
  shows "store_ok env s"
  unfolding store_ok_def using assms by blast

lemma store_okD:
  assumes "store_ok env s"
  shows "distinct (map fst (ss_hash s))" and "fst ` set (ss_hash s) \<subseteq> show_nat ` {1..ss_counter s}"
    and "\<And>i d. map_of (ss_hash s) i = Some d \<Longrightarrow> hfield d ''id'' = i"
    and "distinct (map fst (ss_all s))" and "fst ` set (ss_all s) = fst ` set (ss_hash s)"
    and "distinct (ss_pending s)"
    and "\<And>i. i \<in> set (ss_pending s) \<longleftrightarrow> (\<exists>d. map_of (ss_hash s) i = Some d \<and> hfield d ''reviewedAt'' = [])"
    and "\<And>k. distinct (map fst (ranked s k))"
    and "\<And>k i v. map_of (ranked s k) i = Some v \<longleftrightarrow>
           (\<exists>d. map_of (ss_hash s) i = Some d \<and> belongs d k \<and> v = hash_score env d)"
  using assms unfolding store_ok_def by blast+

lemma empty_store_ok [inv_rules]: "store_ok env empty_store"
  by (simp add: store_ok_def empty_store_def ranked_def)

lemma map_of_zadd: "map_of (zadd v i z) j = (if j = i then Some v else map_of z j)"
  by (simp add: zadd_def update_conv)

lemma map_of_zrem: "map_of (zrem i z) j = (if j = i then None else map_of z j)"
  by (simp add: zrem_def delete_conv)

lemma distinct_zadd: "distinct (map fst z) \<Longrightarrow> distinct (map fst (zadd v i z))"
  by (simp add: zadd_def distinct_update)

lemma distinct_zrem: "distinct (map fst z) \<Longrightarrow> distinct (map fst (zrem i z))"
  by (simp add: zrem_def distinct_delete)

lemma keys_zadd: "fst ` set (zadd v i z) = insert i (fst ` set z)"
  by (simp add: zadd_def)

lemma fields_of_hash_score: "rankedScore env (xf_createdAt (fields_of_hash d)) (xf_severity (fields_of_hash d)) = hash_score env d"
  by (simp add: fields_of_hash_def hash_score_def)

lemma update_fresh_key: "k \<notin> fst ` set m \<Longrightarrow> AList.update k v m = m @ [(k, v)]"
  by (induction m) auto

lemma spread_Nil: "distinct (map fst d) \<Longrightarrow> spread [] d = d"
proof (induction d rule: rev_induct)
  case (snoc kv d)
  obtain k v where kv: "kv = (k, v)" by fastforce
  have "spread [] (d @ [kv]) = AList.update k v (spread [] d)" by (simp add: spread_def kv)
  with snoc kv show ?case by (simp add: update_fresh_key)
qed (simp add: spread_def)

lemma distinct_spread: "distinct (map fst m) \<Longrightarrow> distinct (map fst (spread m kvs))"
proof (induction kvs arbitrary: m)
  case (Cons kv kvs)
  obtain a b where "kv = (a, b)" by fastforce
  with Cons.IH [of "AList.update a b m"] Cons.prems show ?case by (simp add: spread_def distinct_update)
qed (simp add: spread_def)

lemma toHash_distinct: "toHash env sug i c = Inr d \<Longrightarrow> distinct (map fst d)"
  by (auto simp: toHash_def DOMAIN_BLOB_def split: sum.splits intro!: distinct_spread)

lemma belongs_new: "hfield d ''reviewedAt'' = [] \<Longrightarrow>
  belongs d k \<longleftrightarrow> scope_of_key k \<in> set [AllScope, PendingScope] \<and> k \<in> set (keys_for (fields_of_hash d) (scope_of_key k))"
  by (cases "scope_of_key k") (auto simp: belongs_def in_scope_def)

lemma enqueueWrite_ok:
  assumes ok: "store_ok env s" and i: "1 \<le> i" "i \<le> ss_counter s"
    and new: "show_nat i \<notin> fst ` set (ss_hash s)" and w: "enqueueWrite env sug i now s = Inr s'"
  shows "store_ok env s' \<and> fst ` set (ss_hash s') = insert (show_nat i) (fst ` set (ss_hash s)) \<and>
    ss_counter s' = ss_counter s"
proof -
  let ?i = "show_nat i"
  from w obtain d where d: "toHash env sug i (re_iso env now) = Inr d"
    and s': "s' = indexSuggestion env ?i (fields_of_hash d) [AllScope, PendingScope]
      (s\<lparr>ss_hash := AList.update ?i (spread (hgetall s ?i) d) (ss_hash s), ss_all := zadd now ?i (ss_all s),
         ss_pending := jset_add ?i (ss_pending s)\<rparr>)"
    by (auto simp: enqueueWrite_def split: sum.splits)
  have none: "map_of (ss_hash s) ?i = None" using new by (simp add: map_of_eq_None_iff)
  then have sp: "spread (hgetall s ?i) d = d" using toHash_distinct [OF d] by (simp add: hgetall_def spread_Nil)
  note r = toHash_reserved [OF d]
  have h: "map_of (ss_hash s') j = (if j = ?i then Some d else map_of (ss_hash s) j)" for j
    by (simp add: s' sp update_conv)
  have rk: "ranked s' k = (if belongs d k then zadd (hash_score env d) ?i (ranked s k) else ranked s k)" for k
    unfolding s' using ranked_index [of "[AllScope, PendingScope]"] belongs_new [OF r(2)]
    by (simp add: fields_of_hash_score) (simp add: ranked_def)
  have "distinct (map fst (ranked s' k)) \<and>
      (\<forall>j v. map_of (ranked s' k) j = Some v \<longleftrightarrow>
         (\<exists>e. map_of (ss_hash s') j = Some e \<and> belongs e k \<and> v = hash_score env e))" for k
  proof (intro conjI allI)
    have old: "distinct (map fst (ranked s k))"
      "\<And>j v. map_of (ranked s k) j = Some v \<longleftrightarrow>
         (\<exists>e. map_of (ss_hash s) j = Some e \<and> belongs e k \<and> v = hash_score env e)"
      using ok by (auto simp: store_ok_def)
    show "distinct (map fst (ranked s' k))" using old(1) by (simp add: rk distinct_zadd)
    fix j v
    show "map_of (ranked s' k) j = Some v \<longleftrightarrow>
         (\<exists>e. map_of (ss_hash s') j = Some e \<and> belongs e k \<and> v = hash_score env e)"
      using old(2) [of j v] none by (auto simp: rk h map_of_zadd)
  qed
  then show ?thesis
    using ok i r(1,2) none unfolding store_ok_def h
    by (auto simp: s' sp distinct_update distinct_zadd keys_zadd)
qed

lemma store_ok_counter: "store_ok env s \<Longrightarrow> ss_counter s \<le> n \<Longrightarrow> store_ok env (s\<lparr>ss_counter := n\<rparr>)"
  by (auto simp: store_ok_def ranked_def)

lemma fresh_id: "store_ok env s \<Longrightarrow> ss_counter s < i \<Longrightarrow> show_nat i \<notin> fst ` set (ss_hash s)"
  by (auto simp: store_ok_def)

lemma insertGeneric_ok [inv_rules]: "store_ok env s \<Longrightarrow> store_ok env (snd (insertGeneric env sug now s))"
proof -
  assume ok: "store_ok env s"
  let ?s1 = "s\<lparr>ss_counter := ss_counter s + 1\<rparr>"
  have ok1: "store_ok env ?s1" using ok by (intro store_ok_counter) auto
  have new: "show_nat (ss_counter s + 1) \<notin> fst ` set (ss_hash ?s1)" using fresh_id [OF ok] by simp
  show ?thesis
  proof (cases "enqueueWrite env sug (ss_counter s + 1) now ?s1")
    case (Inl e)
    then show ?thesis using ok1 by (simp add: insertGeneric_def Let_def)
  next
    case (Inr t)
    with enqueueWrite_ok [OF ok1 _ _ new Inr] show ?thesis by (simp add: insertGeneric_def Let_def)
  qed
qed

lemma enqueue_all_ok:
  "store_ok env s \<Longrightarrow> 1 \<le> i \<Longrightarrow> i + length sugs \<le> ss_counter s + 1 \<Longrightarrow>
   (\<forall>j. i \<le> j \<longrightarrow> show_nat j \<notin> fst ` set (ss_hash s)) \<Longrightarrow>
   enqueue_all env sugs i now s = Inr s' \<Longrightarrow> store_ok env s'"
proof (induction env sugs i now s rule: enqueue_all.induct)
  case (2 env sug sugs i now s)
  from "2.prems"(5) obtain t where t: "enqueueWrite env sug i now s = Inr t"
    and rest: "enqueue_all env sugs (Suc i) now t = Inr s'"
    by (auto split: sum.splits)
  have t': "store_ok env t \<and> fst ` set (ss_hash t) = insert (show_nat i) (fst ` set (ss_hash s)) \<and> ss_counter t = ss_counter s"
    using enqueueWrite_ok [OF "2.prems"(1,2) _ _ t] "2.prems"(3,4) by auto
  have "\<forall>j. Suc i \<le> j \<longrightarrow> show_nat j \<notin> fst ` set (ss_hash t)"
  proof (intro allI impI)
    fix j assume "Suc i \<le> j"
    with "2.prems"(4) have "show_nat j \<notin> fst ` set (ss_hash s)" "show_nat j \<noteq> show_nat i" by auto
    with t' show "show_nat j \<notin> fst ` set (ss_hash t)" by simp
  qed
  with "2.IH" [OF t _ _ _ _ rest] t' "2.prems" show ?case by simp
qed simp

lemma insertMany_ok [inv_rules]: "store_ok env s \<Longrightarrow> store_ok env (snd (insertMany env sugs now s))"
proof -
  assume ok: "store_ok env s"
  let ?s1 = "s\<lparr>ss_counter := ss_counter s + length sugs\<rparr>"
  have ok1: "store_ok env ?s1" using ok by (intro store_ok_counter) auto
  have "store_ok env t" if "enqueue_all env sugs (Suc (ss_counter s)) now ?s1 = Inr t" for t
    using that fresh_id [OF ok] by (intro enqueue_all_ok [OF ok1 _ _ _ that]) auto
  with ok ok1 show ?thesis by (auto simp: insertMany_def Let_def split: sum.splits)
qed

lemma keys_for_cong:
  "xf_severity x = xf_severity y \<Longrightarrow> xf_category x = xf_category y \<Longrightarrow> keys_for x sc = keys_for y sc"
  by (simp add: keys_for_def)

text \<open>A hash keeps its id, its creation date and its domain fields under the two kinds of update.\<close>

definition same_domain :: "rhash \<Rightarrow> rhash \<Rightarrow> bool" where
  "same_domain d e \<longleftrightarrow>
     hfield d ''id'' = hfield e ''id'' \<and> hfield d ''createdAt'' = hfield e ''createdAt'' \<and>
     map_of d ''severity'' = map_of e ''severity'' \<and> map_of d ''category'' = map_of e ''category''"

lemma same_domain_spread:
  "{''id'', ''createdAt'', ''severity'', ''category''} \<inter> fst ` set kvs = {} \<Longrightarrow> same_domain (spread d kvs) d"
  by (auto simp: same_domain_def hfield_spread_other map_of_spread_other)

lemma same_domain_fields: "same_domain d e \<Longrightarrow> fields_of_hash d = fields_of_hash e"
  by (simp add: same_domain_def fields_of_hash_def)

lemma same_domain_score: "same_domain d e \<Longrightarrow> hash_score env d = hash_score env e"
  by (simp add: same_domain_def hash_score_def)

lemma review_ok [inv_rules]:
  assumes ok: "store_ok env s" and iso: "re_iso env now \<noteq> []"
  shows "store_ok env (snd (review env i acc note now s))"
proof (cases "hfield (hgetall s i) ''id'' = []")
  case True
  with ok show ?thesis by (simp add: review_def)
next
  case False
  then obtain d where d: "map_of (ss_hash s) i = Some d" "hgetall s i = d"
    by (auto simp: hgetall_def hfield_def split: option.splits)
  define p where "p = spread d [(''accepted'', if acc then ''true'' else ''false''),
      (''reviewerNote'', opt_string note), (''reviewedAt'', re_iso env now)]"
  have sd: "same_domain p d" unfolding p_def by (rule same_domain_spread) auto
  have rp: "hfield p ''reviewedAt'' \<noteq> []" using iso by (simp add: p_def hfield_def map_of_spread)
  define s1 where "s1 = s\<lparr>ss_hash := AList.update i p (ss_hash s), ss_pending := removeAll i (ss_pending s)\<rparr>"
  define s' where "s' = snd (review env i acc note now s)"
  let ?u = "unindexSuggestion i (fields_of_hash p) [PendingScope] s1"
  have s': "ss_hash s' = AList.update i p (ss_hash s)" "ss_all s' = ss_all s" "ss_counter s' = ss_counter s"
    "ss_pending s' = removeAll i (ss_pending s)"
    "\<And>k. ranked s' k = ranked (indexSuggestion env i (fields_of_hash p) [ReviewedScope] ?u) k"
    using False d(2) by (simp_all add: s'_def review_def Let_def p_def [symmetric] s1_def [symmetric] ranked_def)
      (simp_all add: s1_def)
  have rk: "ranked s' k =
      (if scope_of_key k = ReviewedScope \<and> belongs p k then zadd (hash_score env p) i (ranked s k)
       else if scope_of_key k = PendingScope \<and> k \<in> set (keys_for (fields_of_hash p) PendingScope) then zrem i (ranked s k)
       else ranked s k)" for k
    using rp unfolding s'(5)
    by (auto simp: ranked_index ranked_unindex fields_of_hash_score belongs_def in_scope_def s1_def)
      (simp_all add: ranked_def)
  have h: "map_of (ss_hash s') j = (if j = i then Some p else map_of (ss_hash s) j)" for j
    by (simp add: s'(1) update_conv)
  have bel: "belongs p k \<longleftrightarrow> (case scope_of_key k of AllScope \<Rightarrow> belongs d k | PendingScope \<Rightarrow> False
      | ReviewedScope \<Rightarrow> k \<in> set (keys_for (fields_of_hash d) ReviewedScope))" for k
    using rp same_domain_fields [OF sd] by (cases "scope_of_key k") (auto simp: belongs_def in_scope_def)
  have "distinct (map fst (ranked s' k)) \<and>
      (\<forall>j v. map_of (ranked s' k) j = Some v \<longleftrightarrow>
         (\<exists>e. map_of (ss_hash s') j = Some e \<and> belongs e k \<and> v = hash_score env e))" for k
  proof (intro conjI allI)
    have old: "distinct (map fst (ranked s k))"
      "\<And>j v. map_of (ranked s k) j = Some v \<longleftrightarrow>
         (\<exists>e. map_of (ss_hash s) j = Some e \<and> belongs e k \<and> v = hash_score env e)"
      using ok by (auto simp: store_ok_def)
    show "distinct (map fst (ranked s' k))" using old(1) by (simp add: rk distinct_zadd distinct_zrem)
    fix j v
    have bk: "belongs d k \<Longrightarrow> k \<in> set (keys_for (fields_of_hash d) (scope_of_key k))" by (simp add: belongs_def)
    have bd: "scope_of_key k = PendingScope \<Longrightarrow> belongs d k \<Longrightarrow> k \<in> set (keys_for (fields_of_hash p) PendingScope)"
      using same_domain_fields [OF sd] by (simp add: belongs_def)
    show "map_of (ranked s' k) j = Some v \<longleftrightarrow>
         (\<exists>e. map_of (ss_hash s') j = Some e \<and> belongs e k \<and> v = hash_score env e)"
    proof (cases "j = i")
      case False
      then show ?thesis using old(2) [of j v] by (simp add: rk h map_of_zadd map_of_zrem)
    next
      case True
      then show ?thesis using old(2) [of i v] d(1) bd bk same_domain_score [OF sd, of env]
        by (cases "scope_of_key k") (auto simp: rk h map_of_zadd map_of_zrem bel)
    qed
  qed
  moreover have "hfield p ''id'' = i" using sd ok d(1) by (auto simp: same_domain_def store_ok_def)
  moreover have "i \<in> fst ` set (ss_hash s)" using d(1) by (metis map_of_eq_None_iff option.distinct(1))
  moreover have "distinct (removeAll i (ss_pending s))" using store_okD(6) [OF ok] by (simp add: distinct_removeAll)
  ultimately have "store_ok env s'"
    using store_okD [OF ok] rp d(1)
    by (intro store_okI) (auto simp: s'(1-4) distinct_update update_conv insert_absorb simp del: map_of_eq_Some_iff
        split: if_splits)
  then show ?thesis by (simp add: s'_def)
qed

lemma updateResolution_ok [inv_rules]:
  assumes ok: "store_ok env s" and i: "i \<in> fst ` set (ss_hash s)"
  shows "store_ok env (updateResolution i u s)"
proof -
  obtain d where d: "map_of (ss_hash s) i = Some d" using i by (metis map_of_eq_None_iff not_None_eq)
  define p where "p = spread d [(''resolutionStatus'', ru_status u), (''resolvedAt'', opt_string (ru_resolvedAt u)),
            (''resolutionErrors'', opt_string (ru_errors u)), (''pendingSelections'', opt_string (ru_pendingSelections u))]"
  have sd: "same_domain p d" unfolding p_def by (rule same_domain_spread) auto
  have rp: "hfield p ''reviewedAt'' = hfield d ''reviewedAt''" unfolding p_def by (rule hfield_spread_other) auto
  have up: "updateResolution i u s = s\<lparr>ss_hash := AList.update i p (ss_hash s)\<rparr>"
    by (simp add: updateResolution_def hgetall_def d p_def)
  have bel: "belongs p k = belongs d k" for k
    using same_domain_fields [OF sd] rp by (cases "scope_of_key k") (simp_all add: belongs_def in_scope_def)
  have idp: "hfield p ''id'' = i" using sd ok d by (auto simp: same_domain_def store_ok_def)
  have rk: "ranked (s\<lparr>ss_hash := AList.update i p (ss_hash s)\<rparr>) k = ranked s k" for k by (simp add: ranked_def)
  show ?thesis
    unfolding up using store_okD [OF ok] d i rp idp bel same_domain_score [OF sd, of env]
    by (intro store_okI) (auto simp: rk update_conv distinct_update insert_absorb simp del: map_of_eq_Some_iff
        split: if_splits)
qed

lemma store_ok_locks: "store_ok env (s\<lparr>ss_locks := l\<rparr>) = store_ok env s"
proof -
  have "ranked (s\<lparr>ss_locks := l\<rparr>) k = ranked s k" for k by (simp add: ranked_def)
  then show ?thesis by (simp add: store_ok_def)
qed

lemma locks_ok [inv_rules]:
  "store_ok env s \<Longrightarrow> store_ok env (snd (claimResolutionLock i t s))"
  "store_ok env s \<Longrightarrow> store_ok env (releaseResolutionLock i t s)"
  by (simp_all add: store_ok_locks claimResolutionLock_def releaseResolutionLock_def)

text \<open>The stores that the operations reach while no hash has expired.\<close>

inductive store_reach :: "repo_env \<Rightarrow> store \<Rightarrow> bool" for env where
  empty: "store_reach env empty_store"
| inserted: "store_reach env s \<Longrightarrow> store_reach env (snd (insertGeneric env sug now s))"
| inserted_many: "store_reach env s \<Longrightarrow> store_reach env (snd (insertMany env sugs now s))"
| reviewed: "store_reach env s \<Longrightarrow> re_iso env now \<noteq> [] \<Longrightarrow> store_reach env (snd (review env i acc note now s))"
| resolved: "store_reach env s \<Longrightarrow> i \<in> fst ` set (ss_hash s) \<Longrightarrow> store_reach env (updateResolution i u s)"
| claimed: "store_reach env s \<Longrightarrow> store_reach env (snd (claimResolutionLock i t s))"
| released: "store_reach env s \<Longrightarrow> store_reach env (releaseResolutionLock i t s)"

lemma store_reach_ok: "store_reach env s \<Longrightarrow> store_ok env s"
  by (induction rule: store_reach.induct) (auto intro: inv_rules)

lemma map_of_dom_iff: "i \<in> fst ` set m \<longleftrightarrow> (\<exists>v. map_of m i = Some v)"
  by (metis map_of_eq_None_iff not_None_eq)

lemma ranked_members:
  assumes "store_ok env s"
  shows "i \<in> fst ` set (ranked s k) \<longleftrightarrow> (\<exists>d. map_of (ss_hash s) i = Some d \<and> belongs d k)"
  using assms unfolding map_of_dom_iff by (auto simp: store_ok_def)

lemma set_zrev [simp]: "set (zrev z) = fst ` set z"
  by (simp add: zrev_def)

lemma length_zrev [simp]: "length (zrev z) = zcard z"
  by (simp add: zrev_def zcard_def)

lemma zcard_dom: "distinct (map fst z) \<Longrightarrow> zcard z = card (fst ` set z)"
  by (metis distinct_card length_map set_map zcard_def)

section \<open>Ranking\<close>

text \<open>The ids of a ranked index come out in descending order of the score.\<close>

lemma zrev_sorted:
  assumes "distinct (map fst z)"
  shows "sorted_wrt (\<lambda>i j. the (map_of z j) \<le> the (map_of z i)) (zrev z)"
proof -
  let ?xs = "sort_key (\<lambda>(m, v). (v :: int, m :: string)) z"
  have "sorted (map (\<lambda>(m, v). (v, m)) ?xs)" by simp
  then have "sorted_wrt (\<lambda>x y. snd x \<le> snd y) ?xs"
    unfolding sorted_wrt_map
    by (rule sorted_wrt_mono_rel [rotated]) (auto simp: less_eq_prod_def)
  then have "sorted_wrt (\<lambda>x y. snd y \<le> snd x) (rev ?xs)" by (simp add: sorted_wrt_rev)
  then have "sorted_wrt (\<lambda>x y. the (map_of z (fst y)) \<le> the (map_of z (fst x))) (rev ?xs)"
    by (rule sorted_wrt_mono_rel [rotated]) (use assms in auto)
  then show ?thesis by (simp add: zrev_def sorted_wrt_map)
qed

lemma severity_dominates:
  assumes "severityPriority b < severityPriority a"
    and "\<And>t. re_parseDate env cb = Some t \<Longrightarrow> t < 10000000000000"
  shows "rankedScore env cb b < rankedScore env ca a"
proof -
  define ta where "ta = (case re_parseDate env ca of Some t \<Rightarrow> max 0 t | None \<Rightarrow> 0)"
  define tb where "tb = (case re_parseDate env cb of Some t \<Rightarrow> max 0 t | None \<Rightarrow> 0)"
  have "0 \<le> ta" by (simp add: ta_def split: option.splits)
  moreover have "tb < 10000000000000" using assms(2) by (auto simp: tb_def split: option.splits)
  ultimately show ?thesis
    using assms(1) by (simp add: rankedScore_def Let_def ta_def [symmetric] tb_def [symmetric])
qed

section \<open>Expired hashes\<close>

lemma expired_list_total:
  assumes ok: "store_ok env s" and i: "map_of (ss_hash s) i = Some d"
    and opts: "lo_reviewed opts = None" "lo_severity opts = None" "lo_category opts = None"
  shows "snd (fst (list_suggestions env opts (expire_hash i s))) = Suc (length (ss_hash (expire_hash i s)))"
proof -
  let ?s = "expire_hash i s" and ?all = "ScopeIndex AllScope"
  have rk: "ranked ?s k = ranked s k" for k by (simp add: expire_hash_def ranked_def)
  have members: "fst ` set (ranked s ?all) = fst ` set (ss_hash s)"
    using ranked_members [OF ok, of _ ?all]
    by (intro set_eqI) (simp only: map_of_dom_iff [of _ "ss_hash s"], simp add: belongs_def in_scope_def keys_for_def scope_of_key_def)
  have "i \<in> fst ` set (ss_hash s)" using i map_of_dom_iff by metis
  then have pos: "zcard (ranked s ?all) \<noteq> 0" using members by (auto simp: zcard_def)
  then have "ensureRankedIndexesForRead env AllScope ?s = ?s"
    by (simp add: ensureRankedIndexesForRead_def rk)
  then have "snd (fst (list_suggestions env opts ?s)) = zcard (ranked s ?all)"
    using opts by (simp add: list_suggestions_def Let_def scopeFromReviewed_def normalizeFilter_def directListIndex_def rk)
  also have "\<dots> = length (ss_hash s)"
    using store_okD(1) [OF ok] store_okD(8) [OF ok] members
    by (metis distinct_card length_map set_map zcard_dom)
  also have "\<dots> = Suc (length (ss_hash ?s))"
  proof -
    have "length (AList.delete i m) + 1 = length m" if "distinct (map fst m)" "i \<in> fst ` set m" for m :: "(string, rhash) jsmap"
      using that
    proof (induction m)
      case (Cons a m)
      show ?case
      proof (cases "fst a = i")
        case True
        with Cons.prems have "i \<notin> fst ` set m" by auto
        then have "AList.delete i m = m" by (simp add: delete_id image_iff)
        with True show ?thesis by (cases a) (simp add: AList.delete_eq)
      next
        case False
        with Cons show ?thesis by (cases a) (auto simp: AList.delete_eq)
      qed
    qed simp
    from this [OF store_okD(1) [OF ok] \<open>i \<in> fst ` set (ss_hash s)\<close>] show ?thesis by (simp add: expire_hash_def)
  qed
  finally show ?thesis .
qed

section \<open>Properties\<close>

definition demo_repo :: repo_env where
  "demo_repo = \<lparr>re_schema = None, re_domain = ''generic'', re_numString = \<lambda>_. ''0'', re_stringify = \<lambda>_. ''{}'',
     re_parse = \<lambda>_. Some (JObj []), re_iso = \<lambda>t. show_int t,
     re_parseDate = \<lambda>s. if s = ''-'' then None else Some (int (dec_value s))\<rparr>"

definition demo_suggestion :: "string \<Rightarrow> insert_suggestion" where
  "demo_suggestion sev = \<lparr>is_domain = [], is_domainFields = [(''severity'', JStr sev), (''category'', JStr ''mass'')],
     is_resolutionPayload = Some ''p'', is_simSwarmId = None, is_simDistribution = None\<rparr>"

definition demo_store :: store where
  "demo_store = snd (insertGeneric demo_repo (demo_suggestion ''Critical'') 5
     (snd (insertGeneric demo_repo (demo_suggestion ''info'') 9 empty_store)))"

lemma demo_store_reach: "store_reach demo_repo demo_store"
  unfolding demo_store_def by (intro store_reach.inserted store_reach.empty)

text \<open>C25: In every store that inserts, reviews and resolutions reach, the indexes agree with the stored
  suggestions: the legacy index and the ranked index of all hold every suggestion, the pending set and
  the pending ranked index exactly the unreviewed ones, the reviewed index exactly the reviewed ones,
  and a severity or category index of a scope exactly the suggestions of the scope with that
  normalised value. The sizes the listing reports as totals are these counts.\<close>

theorem sweep_indexes_agree:
  assumes "store_reach env s"
  shows "fst ` set (ss_all s) = fst ` set (ss_hash s) \<and>
    (\<forall>i. i \<in> set (ss_pending s) \<longleftrightarrow> (\<exists>d. map_of (ss_hash s) i = Some d \<and> hfield d ''reviewedAt'' = [])) \<and>
    (\<forall>k. set (zrev (ranked s k)) = {i. \<exists>d. map_of (ss_hash s) i = Some d \<and> belongs d k} \<and>
         zcard (ranked s k) = card {i. \<exists>d. map_of (ss_hash s) i = Some d \<and> belongs d k})"
proof (intro conjI allI)
  note ok = store_reach_ok [OF assms]
  show "fst ` set (ss_all s) = fst ` set (ss_hash s)" using store_okD(5) [OF ok] .
  show "i \<in> set (ss_pending s) \<longleftrightarrow> (\<exists>d. map_of (ss_hash s) i = Some d \<and> hfield d ''reviewedAt'' = [])" for i
    using store_okD(7) [OF ok] .
  fix k
  show *: "set (zrev (ranked s k)) = {i. \<exists>d. map_of (ss_hash s) i = Some d \<and> belongs d k}"
    using ranked_members [OF ok] by auto
  show "zcard (ranked s k) = card {i. \<exists>d. map_of (ss_hash s) i = Some d \<and> belongs d k}"
    using zcard_dom [OF store_okD(8) [OF ok]] * by (metis set_zrev)
qed

theorem sweep_indexes_agree_witness:
  "''2'' \<in> set (zrev (ranked demo_store (SeverityIndex PendingScope ''critical'')))"
proof -
  have "set (zrev (ranked demo_store (SeverityIndex PendingScope ''critical''))) =
      {i. \<exists>d. map_of (ss_hash demo_store) i = Some d \<and> belongs d (SeverityIndex PendingScope ''critical'')}"
    using sweep_indexes_agree [OF demo_store_reach] by blast
  moreover have "case map_of (ss_hash demo_store) ''2'' of None \<Rightarrow> False
      | Some d \<Rightarrow> belongs d (SeverityIndex PendingScope ''critical'')"
    by code_simp
  then have "\<exists>d. map_of (ss_hash demo_store) ''2'' = Some d \<and> belongs d (SeverityIndex PendingScope ''critical'')"
    by (auto split: option.splits)
  ultimately show ?thesis by blast
qed

text \<open>Scanning an index in batches of 100 returns what one pass over the whole index would: the
  requested page of the matching rows in index order, and the number of all matching rows.\<close>

theorem scanFilteredIndex_paginates:
  "scanFilteredIndex env s key f offset limit =
     (let rows = filter (matchesListFilters env f) (rowsByIds env s (zrev (ranked s key)))
      in (take limit (drop offset rows), length rows))"
  by (rule scanFilteredIndex_eq)

text \<open>Listing orders by severity first: in a reachable store whose creation dates are below 10^13
  milliseconds, every ranked index lists critical suggestions before warnings, warnings before infos,
  and those before all others.\<close>

theorem ranked_index_orders_by_severity:
  assumes "store_reach env s" and "\<And>c t. re_parseDate env c = Some t \<Longrightarrow> t < 10000000000000"
  shows "sorted_wrt (\<lambda>i j. severityPriority (map_of (hgetall s j) ''severity'')
           \<le> severityPriority (map_of (hgetall s i) ''severity'')) (zrev (ranked s k))"
proof -
  note ok = store_reach_ok [OF assms(1)]
  have srt: "sorted_wrt (\<lambda>i j. the (map_of (ranked s k) j) \<le> the (map_of (ranked s k) i)) (zrev (ranked s k))"
    by (rule zrev_sorted [OF store_okD(8) [OF ok]])
  have score: "the (map_of (ranked s k) i) = hash_score env (hgetall s i)" if "i \<in> set (zrev (ranked s k))" for i
  proof -
    from that obtain v where v: "map_of (ranked s k) i = Some v" by (auto simp: map_of_dom_iff simp del: map_of_eq_Some_iff)
    with store_okD(9) [OF ok, of k i v] show ?thesis by (auto simp: hgetall_def simp del: map_of_eq_Some_iff)
  qed
  show ?thesis
  proof (rule sorted_wrt_mono_rel [OF _ srt])
    fix i j assume ij: "i \<in> set (zrev (ranked s k))" "j \<in> set (zrev (ranked s k))"
      and le: "the (map_of (ranked s k) j) \<le> the (map_of (ranked s k) i)"
    show "severityPriority (map_of (hgetall s j) ''severity'') \<le> severityPriority (map_of (hgetall s i) ''severity'')"
    proof (rule ccontr)
      assume "\<not> ?thesis"
      then have "rankedScore env (hfield (hgetall s i) ''createdAt'') (map_of (hgetall s i) ''severity'')
          < rankedScore env (hfield (hgetall s j) ''createdAt'') (map_of (hgetall s j) ''severity'')"
        by (intro severity_dominates) (auto intro: assms(2))
      with le score ij show False by (simp add: hash_score_def)
    qed
  qed
qed

definition fixed_date_repo :: repo_env where
  "fixed_date_repo = demo_repo\<lparr>re_parseDate := \<lambda>_. Some 7\<rparr>"

theorem ranked_index_orders_by_severity_witness:
  "sorted_wrt (\<lambda>i j. severityPriority (map_of (hgetall (snd (insertGeneric fixed_date_repo (demo_suggestion ''info'') 9 empty_store)) j) ''severity'')
      \<le> severityPriority (map_of (hgetall (snd (insertGeneric fixed_date_repo (demo_suggestion ''info'') 9 empty_store)) i) ''severity''))
     (zrev (ranked (snd (insertGeneric fixed_date_repo (demo_suggestion ''info'') 9 empty_store)) (ScopeIndex AllScope)))"
proof (rule ranked_index_orders_by_severity)
  show "store_reach fixed_date_repo (snd (insertGeneric fixed_date_repo (demo_suggestion ''info'') 9 empty_store))"
    by (intro store_reach.inserted store_reach.empty)
  show "re_parseDate fixed_date_repo c = Some t \<Longrightarrow> t < 10000000000000" for c t
    by (simp add: fixed_date_repo_def)
qed

text \<open>When Redis expires the hash of a suggestion its ids stay in the indexes: the suggestion can no
  longer be read, but the unfiltered listing still counts it, so its total is one more than the number
  of suggestions in the store.\<close>

theorem expired_suggestion_still_counted:
  assumes "store_reach env s" and "map_of (ss_hash s) i = Some d"
    and "lo_reviewed opts = None" and "lo_severity opts = None" and "lo_category opts = None"
  shows "getById env (expire_hash i s) i = None \<and>
    snd (fst (list_suggestions env opts (expire_hash i s))) = Suc (length (ss_hash (expire_hash i s)))"
  using expired_list_total [OF store_reach_ok [OF assms(1)] assms(2-5)]
  by (simp add: getById_def hgetall_def expire_hash_def delete_conv toRow_def hfield_def)

definition plain_list :: list_opts where
  "plain_list = \<lparr>lo_page = None, lo_limit = None, lo_category = None, lo_severity = None, lo_reviewed = None\<rparr>"

theorem expired_suggestion_still_counted_witness:
  "getById demo_repo (expire_hash ''1'' demo_store) ''1'' = None \<and>
   snd (fst (list_suggestions demo_repo plain_list (expire_hash ''1'' demo_store))) = 2"
proof -
  have "case map_of (ss_hash demo_store) ''1'' of None \<Rightarrow> False | Some d \<Rightarrow> True" by code_simp
  then obtain d where d: "map_of (ss_hash demo_store) ''1'' = Some d" by (auto split: option.splits)
  have "length (ss_hash (expire_hash ''1'' demo_store)) = 1" by code_simp
  with expired_suggestion_still_counted [OF demo_store_reach d, of plain_list] show ?thesis
    by (simp add: plain_list_def)
qed

text \<open>The domain fields of a suggestion never overwrite the store's own fields: a suggestion with a
  flat domain field under a reserved key is refused, and otherwise the id, the review state, the
  resolution state, the creation date and the resolution payload of the hash are those of the store.\<close>

theorem domain_fields_cannot_shadow:
  assumes "toHash env sug i c = Inr d"
  shows "hfield d ''id'' = show_nat i \<and> hfield d ''reviewedAt'' = [] \<and> hfield d ''accepted'' = [] \<and>
    hfield d ''resolutionStatus'' = [] \<and> hfield d ''createdAt'' = c \<and>
    hfield d ''resolutionPayload'' = opt_string (is_resolutionPayload sug)"
  using toHash_reserved [OF assms] by simp

theorem domain_fields_cannot_shadow_witness:
  "(\<exists>d. toHash demo_repo (demo_suggestion ''info'') 3 ''t'' = Inr d \<and> hfield d ''id'' = show_nat 3) \<and>
   (\<exists>e. toHash demo_repo ((demo_suggestion ''info'')\<lparr>is_domainFields := [(''accepted'', JStr ''true'')]\<rparr>) 3 ''t'' = Inl e)"
proof
  have "case toHash demo_repo (demo_suggestion ''info'') 3 ''t'' of Inl _ \<Rightarrow> False | Inr d \<Rightarrow> True" by code_simp
  then obtain d where d: "toHash demo_repo (demo_suggestion ''info'') 3 ''t'' = Inr d" by (auto split: sum.splits)
  with domain_fields_cannot_shadow [OF d]
  show "\<exists>d. toHash demo_repo (demo_suggestion ''info'') 3 ''t'' = Inr d \<and> hfield d ''id'' = show_nat 3" by blast
  have "case toHash demo_repo ((demo_suggestion ''info'')\<lparr>is_domainFields := [(''accepted'', JStr ''true'')]\<rparr>) 3 ''t'' of
      Inl _ \<Rightarrow> True | Inr d \<Rightarrow> False"
    by code_simp
  then show "\<exists>e. toHash demo_repo ((demo_suggestion ''info'')\<lparr>is_domainFields := [(''accepted'', JStr ''true'')]\<rparr>) 3 ''t'' = Inl e"
    by (auto split: sum.splits)
qed

end
