(* ===== verification/SweepResolution.thy ===== *)
theory SweepResolution
  imports SweepStore
begin

text \<open>
  \<open>packages/sweep/src/services/sweep-resolution.service.ts\<close>: the resolution of an accepted
  suggestion. The service sees the store through \<open>SweepResolutionStorePort\<close>, here a record of
  functions on a store type; the laws it needs are the locale \<open>resolution_store\<close>, interpreted
  on the repository of theory \<open>SweepStore\<close>.

  The handlers are arguments. Because they act on a database, the model keeps a log of the
  dispatched actions, and the answer of a handler may depend on the length of that log.
\<close>

section \<open>Data\<close>

text \<open>An action: its kind and the whole object.\<close>

type_synonym res_action = "string \<times> jval"

datatype payload_parse = MalformedJson | InvalidPayload string | PayloadActions "res_action list"

record handler_result =
  hr_ok :: bool
  hr_affectedRows :: int
  hr_pending :: "jval list option"
  hr_errors :: "string list option"

record promotion_result =
  pm_ok :: bool
  pm_errors :: "string list option"

record resolution_result =
  rs_status :: string
  rs_resolvedAt :: "string option"
  rs_affectedRows :: int
  rs_errors :: "string list option"
  rs_pendingSelections :: "jval list option"

definition failed_with :: "string \<Rightarrow> resolution_result" where
  "failed_with msg = \<lparr>rs_status = ''failed'', rs_resolvedAt = None, rs_affectedRows = 0, rs_errors = Some [msg],
     rs_pendingSelections = None\<rparr>"

definition busy_result :: resolution_result where
  "busy_result = \<lparr>rs_status = ''pending_selection'', rs_resolvedAt = None, rs_affectedRows = 0,
     rs_errors = Some [''Resolution already in progress''], rs_pendingSelections = None\<rparr>"

record res_env =
  rv_parsePayload :: "string \<Rightarrow> payload_parse"
  rv_handler :: "string \<Rightarrow> (nat \<Rightarrow> res_action \<Rightarrow> (string \<times> string) option \<Rightarrow> handler_result throws) option"
  rv_promote :: "sugg_row \<Rightarrow> promotion_result throws"
  rv_errorsJson :: "string list \<Rightarrow> string"
  rv_pendingJson :: "jval list \<Rightarrow> string"
  rv_parseJson :: "string \<Rightarrow> jval option"
  rv_now :: string

record 's store_port =
  sp_get :: "'s \<Rightarrow> string \<Rightarrow> sugg_row option"
  sp_update :: "string \<Rightarrow> resolution_update \<Rightarrow> 's \<Rightarrow> 's"
  sp_lock :: "((string \<Rightarrow> string \<Rightarrow> 's \<Rightarrow> bool \<times> 's) \<times> (string \<Rightarrow> string \<Rightarrow> 's \<Rightarrow> 's)) option"

text \<open>The store and the log of dispatched actions.\<close>

type_synonym dispatch_log = "(string \<times> string) list"

section \<open>Preflight\<close>

definition parseResolutionErrors :: "res_env \<Rightarrow> string option \<Rightarrow> string list option" where
  "parseResolutionErrors env raw =
     (case raw of
        None \<Rightarrow> None
      | Some t \<Rightarrow>
          if t = [] then None
          else (case rv_parseJson env t of
                  Some (JArr vs) \<Rightarrow>
                    (let errs = List.map_filter (\<lambda>v. case v of JStr e \<Rightarrow> Some e | _ \<Rightarrow> None) vs
                     in if errs = [] then None else Some errs)
                | _ \<Rightarrow> Some [t]))"

definition toTerminalResolutionResult :: "res_env \<Rightarrow> sugg_row \<Rightarrow> resolution_result option" where
  "toTerminalResolutionResult env row =
     (if sg_resolutionStatus row \<in> {''success'', ''partial''}
      then Some \<lparr>rs_status = sg_resolutionStatus row, rs_resolvedAt = sg_resolvedAt row, rs_affectedRows = 0,
                 rs_errors = parseResolutionErrors env (sg_resolutionErrors row), rs_pendingSelections = None\<rparr>
      else None)"

definition preflightResolutionRow :: "res_env \<Rightarrow> sugg_row \<Rightarrow> resolution_result option" where
  "preflightResolutionRow env row =
     (if sg_accepted row \<noteq> Some True then Some (failed_with ''Suggestion not accepted'')
      else (case toTerminalResolutionResult env row of
              Some r \<Rightarrow> Some r
            | None \<Rightarrow>
                (case sg_resolutionPayload row of
                   None \<Rightarrow> Some (failed_with ''No resolution payload'')
                 | Some p \<Rightarrow> if p = [] then Some (failed_with ''No resolution payload'') else None)))"

section \<open>resolveLoaded\<close>

record dispatch_acc =
  da_total :: int
  da_errors :: "string list"
  da_pending :: "jval list"

definition opt_list :: "'a list option \<Rightarrow> 'a list" where
  "opt_list x = (case x of Some l \<Rightarrow> l | None \<Rightarrow> [])"

text \<open>Lines 167 to 201: one action. An unknown kind is not dispatched.\<close>

definition dispatch_one ::
  "res_env \<Rightarrow> string \<Rightarrow> (string \<times> string) option \<Rightarrow> res_action \<Rightarrow> dispatch_acc \<times> dispatch_log \<Rightarrow> dispatch_acc \<times> dispatch_log" where
  "dispatch_one env i selections action st =
     (let (acc, lg) = st in
      case rv_handler env (fst action) of
        None \<Rightarrow> (acc\<lparr>da_errors := da_errors acc @ [''Unknown action: '' @ fst action]\<rparr>, lg)
      | Some handle \<Rightarrow>
          (let lg' = lg @ [(i, fst action)] in
           case handle (length lg) action selections of
             Inl err \<Rightarrow> (acc\<lparr>da_errors := da_errors acc @ [fst action @ '': '' @ emsg err]\<rparr>, lg')
           | Inr hr \<Rightarrow>
               (acc\<lparr>da_total := da_total acc + hr_affectedRows hr,
                    da_pending := da_pending acc @ opt_list (hr_pending hr),
                    da_errors := da_errors acc @ (if hr_ok hr then [] else opt_list (hr_errors hr))\<rparr>, lg')))"

definition dispatch_all ::
  "res_env \<Rightarrow> string \<Rightarrow> (string \<times> string) option \<Rightarrow> res_action list \<Rightarrow> dispatch_log \<Rightarrow> dispatch_acc \<times> dispatch_log" where
  "dispatch_all env i selections actions lg =
     foldl (\<lambda>st a. dispatch_one env i selections a st) (\<lparr>da_total = 0, da_errors = [], da_pending = []\<rparr>, lg) actions"

definition final_status :: "dispatch_acc \<Rightarrow> string" where
  "final_status acc = (if da_errors acc = [] then ''success'' else if da_total acc > 0 then ''partial'' else ''failed'')"

text \<open>Lines 203 to 271: what follows the dispatch.\<close>

definition conclude ::
  "'s store_port \<Rightarrow> res_env \<Rightarrow> string \<Rightarrow> sugg_row \<Rightarrow> (string \<times> string) option \<Rightarrow> dispatch_acc \<Rightarrow> 's \<Rightarrow>
   resolution_result \<times> 's" where
  "conclude port env i generic selections acc s =
     (if da_pending acc \<noteq> [] \<and> selections = None
      then (\<lparr>rs_status = ''pending_selection'', rs_resolvedAt = None, rs_affectedRows = 0, rs_errors = None,
              rs_pendingSelections = Some (da_pending acc)\<rparr>,
            sp_update port i \<lparr>ru_status = ''pending_selection'', ru_resolvedAt = None, ru_errors = None,
              ru_pendingSelections = Some (rv_pendingJson env (da_pending acc))\<rparr> s)
      else (let status = final_status acc;
                promoted = (if status \<noteq> ''failed''
                            then (case rv_promote env generic of
                                    Inl _ \<Rightarrow> []
                                  | Inr pr \<Rightarrow> if pm_ok pr then [] else opt_list (pm_errors pr))
                            else []);
                errors = da_errors acc @ promoted;
                errs = (if errors \<noteq> [] then Some errors else None)
            in (\<lparr>rs_status = status, rs_resolvedAt = Some (rv_now env), rs_affectedRows = da_total acc,
                  rs_errors = errs, rs_pendingSelections = None\<rparr>,
                sp_update port i \<lparr>ru_status = status, ru_resolvedAt = Some (rv_now env),
                  ru_errors = map_option (rv_errorsJson env) errs, ru_pendingSelections = None\<rparr> s)))"

definition resolveLoaded ::
  "'s store_port \<Rightarrow> res_env \<Rightarrow> string \<Rightarrow> sugg_row \<Rightarrow> (string \<times> string) option \<Rightarrow> 's \<times> dispatch_log \<Rightarrow>
   resolution_result \<times> ('s \<times> dispatch_log)" where
  "resolveLoaded port env i generic selections st =
     (let (s, lg) = st in
      case sg_resolutionPayload generic of
        None \<Rightarrow> (failed_with ''No resolution payload'', st)
      | Some p \<Rightarrow>
          if p = [] then (failed_with ''No resolution payload'', st)
          else (case rv_parsePayload env p of
                  MalformedJson \<Rightarrow> (failed_with ''Malformed payload JSON'', st)
                | InvalidPayload msg \<Rightarrow> (failed_with (''Invalid payload: '' @ msg), st)
                | PayloadActions actions \<Rightarrow>
                    (let (acc, lg') = dispatch_all env i selections actions lg;
                         (r, s') = conclude port env i generic selections acc s
                     in (r, (s', lg')))))"

section \<open>resolve\<close>

text \<open>
  One call running alone. The \<open>finally\<close> block releases the lock as soon as the promise of
  \<open>resolveLoaded\<close> exists, not when it settles; alone, that makes no difference to the result.
\<close>

definition resolve ::
  "'s store_port \<Rightarrow> res_env \<Rightarrow> string \<Rightarrow> (string \<times> string) option \<Rightarrow> string \<Rightarrow> 's \<times> dispatch_log \<Rightarrow>
   resolution_result \<times> ('s \<times> dispatch_log)" where
  "resolve port env i selections token st =
     (case sp_get port (fst st) i of
        None \<Rightarrow> (failed_with ''Suggestion not found'', st)
      | Some generic \<Rightarrow>
          (case preflightResolutionRow env generic of
             Some r \<Rightarrow> (r, st)
           | None \<Rightarrow>
               (case sp_lock port of
                  None \<Rightarrow> resolveLoaded port env i generic selections st
                | Some (claim, release) \<Rightarrow>
                    (let (claimed, s1) = claim i token (fst st) in
                     if \<not> claimed
                     then (busy_result, (s1, snd st))
                     else (case sp_get port s1 i of
                             None \<Rightarrow> (failed_with ''Suggestion not found'', (release i token s1, snd st))
                           | Some refreshed \<Rightarrow>
                               (case preflightResolutionRow env refreshed of
                                  Some r \<Rightarrow> (r, (release i token s1, snd st))
                                | None \<Rightarrow> resolveLoaded port env i refreshed selections (release i token s1, snd st)))))))"

section \<open>The store the service relies on\<close>

definition row_after :: "resolution_update \<Rightarrow> sugg_row \<Rightarrow> sugg_row" where
  "row_after u r =
     r\<lparr>sg_resolutionStatus := ru_status u, sg_resolvedAt := none_if_empty (opt_string (ru_resolvedAt u)),
       sg_resolutionErrors := none_if_empty (opt_string (ru_errors u))\<rparr>"

text \<open>
  A resolution update changes exactly the resolution fields of the row that was read; taking and
  releasing the lock changes no row.
\<close>

locale resolution_store =
  fixes port :: "'s store_port"
  assumes get_update: "sp_get port s i = Some r \<Longrightarrow> ru_status u \<noteq> [] \<Longrightarrow> sp_get port (sp_update port i u s) i = Some (row_after u r)"
    and get_claim: "sp_lock port = Some (claim, release) \<Longrightarrow> sp_get port (snd (claim i t s)) j = sp_get port s j"
    and get_release: "sp_lock port = Some (claim, release) \<Longrightarrow> sp_get port (release i t s) j = sp_get port s j"
begin

lemma conclude_terminal:
  assumes "conclude port env i g sel acc s = (r, s')" and "sp_get port s i = Some row"
    and "rs_status r \<in> {''success'', ''partial''}"
  shows "\<exists>row'. sp_get port s' i = Some row' \<and> sg_accepted row' = sg_accepted row \<and>
    sg_resolutionStatus row' = rs_status r"
proof -
  from assms(1,3) obtain u where s': "s' = sp_update port i u s" and u: "ru_status u = rs_status r"
    by (auto simp: conclude_def Let_def split: if_splits)
  have "ru_status u \<noteq> []" using u assms(3) by auto
  with get_update [OF assms(2)] u s' show ?thesis by (auto simp: row_after_def)
qed

lemma resolveLoaded_terminal:
  assumes "resolveLoaded port env i g sel (s, lg) = (r, (s', lg'))" and "sp_get port s i = Some row"
    and "rs_status r \<in> {''success'', ''partial''}"
  shows "\<exists>row'. sp_get port s' i = Some row' \<and> sg_accepted row' = sg_accepted row \<and>
    sg_resolutionStatus row' = rs_status r"
proof -
  from assms(1,3) obtain acc where "conclude port env i g sel acc s = (r, s')"
    by (auto simp: resolveLoaded_def Let_def failed_with_def split: option.splits if_splits payload_parse.splits prod.splits)
  from conclude_terminal [OF this assms(2,3)] show ?thesis .
qed

text \<open>The ways a call of \<open>resolve\<close> ends.\<close>

lemma resolve_cases:
  assumes "resolve port env i sel token (s, lg) = (r, (s', lg'))"
  obtains (quiet) "lg' = lg" "\<And>j. sp_get port s' j = sp_get port s j"
      "sp_get port s i = None \<or> (\<exists>row. sp_get port s i = Some row \<and>
        (preflightResolutionRow env row = Some r \<or> rs_status r \<notin> {''success'', ''partial''}))"
    | (ran) row s1 where "sp_get port s i = Some row" "preflightResolutionRow env row = None"
      "\<And>j. sp_get port s1 j = sp_get port s j" "resolveLoaded port env i row sel (s1, lg) = (r, (s', lg'))"
proof (cases "sp_get port s i")
  case None
  with assms quiet show thesis by (auto simp: resolve_def)
next
  case (Some row)
  show thesis
  proof (cases "preflightResolutionRow env row")
    case (Some p)
    with assms \<open>sp_get port s i = Some row\<close> quiet show thesis by (auto simp: resolve_def)
  next
    case None
    show thesis
    proof (cases "sp_lock port")
      case None
      with assms Some \<open>preflightResolutionRow env row = None\<close> ran show thesis by (auto simp: resolve_def)
    next
      case (Some lock)
      obtain claim release where l: "sp_lock port = Some (claim, release)" using Some by fastforce
      obtain ok s1 where c: "claim i token s = (ok, s1)" by fastforce
      have g1: "sp_get port s1 j = sp_get port s j" for j using get_claim [OF l, of i token s j] c by simp
      have g2: "sp_get port (release i token s1) j = sp_get port s j" for j using get_release [OF l] g1 by simp
      show thesis
      proof (cases ok)
        case True
        with assms \<open>sp_get port s i = Some row\<close> None l c g1
        have "resolveLoaded port env i row sel (release i token s1, lg) = (r, (s', lg'))"
          by (simp add: resolve_def)
        with ran \<open>sp_get port s i = Some row\<close> None g2 show thesis by blast
      next
        case False
        with assms \<open>sp_get port s i = Some row\<close> None l c
        have "s' = s1" "lg' = lg" "rs_status r = ''pending_selection''" by (auto simp: resolve_def busy_result_def)
        with g1 quiet \<open>sp_get port s i = Some row\<close> show thesis by auto
      qed
    qed
  qed
qed

lemma preflight_accepted: "preflightResolutionRow env row = None \<Longrightarrow> sg_accepted row = Some True"
  by (simp add: preflightResolutionRow_def split: if_splits)

lemma preflight_terminal:
  "preflightResolutionRow env row = Some r \<Longrightarrow> rs_status r \<in> {''success'', ''partial''} \<Longrightarrow>
   sg_accepted row = Some True \<and> sg_resolutionStatus row = rs_status r"
  by (auto simp: preflightResolutionRow_def toTerminalResolutionResult_def failed_with_def split: if_splits option.splits)

lemma terminal_preflight:
  "sg_accepted row = Some True \<Longrightarrow> sg_resolutionStatus row \<in> {''success'', ''partial''} \<Longrightarrow>
   \<exists>r. preflightResolutionRow env row = Some r \<and> rs_status r = sg_resolutionStatus row \<and> rs_affectedRows r = 0"
  by (simp add: preflightResolutionRow_def toTerminalResolutionResult_def)

text \<open>After a call that ended in a terminal status, a later call dispatches nothing.\<close>

lemma resolve_once:
  assumes first: "resolve port env i sel token (s, lg) = (r, (s', lg'))" and "rs_status r \<in> {''success'', ''partial''}"
  shows "\<exists>r2. resolve port env i sel2 token2 (s', lg') = (r2, (s', lg')) \<and> rs_status r2 = rs_status r \<and> rs_affectedRows r2 = 0"
proof -
  have "\<exists>row. sp_get port s' i = Some row \<and> sg_accepted row = Some True \<and> sg_resolutionStatus row = rs_status r"
    using first
  proof (cases rule: resolve_cases)
    case quiet
    have "sp_get port s i \<noteq> None"
    proof
      assume "sp_get port s i = None"
      with first assms(2) show False by (auto simp: resolve_def failed_with_def)
    qed
    with quiet assms(2) show ?thesis using preflight_terminal by fastforce
  next
    case (ran row s1)
    then have "sp_get port s1 i = Some row" by simp
    from resolveLoaded_terminal [OF ran(4) this assms(2)] preflight_accepted [OF ran(2)] show ?thesis by auto
  qed
  then obtain row where row: "sp_get port s' i = Some row" "sg_accepted row = Some True" "sg_resolutionStatus row = rs_status r"
    by blast
  then obtain r2 where "preflightResolutionRow env row = Some r2" "rs_status r2 = rs_status r" "rs_affectedRows r2 = 0"
    using terminal_preflight [of row env] assms(2) by auto
  with row show ?thesis by (auto simp: resolve_def)
qed

lemma resolve_only_accepted:
  assumes "resolve port env i sel token (s, lg) = (r, (s', lg'))" and "lg' \<noteq> lg"
  shows "\<exists>row. sp_get port s i = Some row \<and> sg_accepted row = Some True \<and>
    sg_resolutionStatus row \<notin> {''success'', ''partial''}"
  using assms(1)
proof (cases rule: resolve_cases)
  case (ran row s1)
  then show ?thesis using preflight_accepted [OF ran(2)]
    by (auto simp: preflightResolutionRow_def toTerminalResolutionResult_def split: if_splits)
qed (use assms(2) in simp)

end

section \<open>The repository as that store\<close>

definition repo_port :: "repo_env \<Rightarrow> store store_port" where
  "repo_port renv = \<lparr>sp_get = getById renv, sp_update = updateResolution,
     sp_lock = Some (claimResolutionLock, releaseResolutionLock)\<rparr>"

lemma filter_update_other: "\<not> P k \<Longrightarrow> filter (\<lambda>(k, _). P k) (AList.update k v d) = filter (\<lambda>(k, _). P k) d"
  by (induction d) auto

lemma filter_spread_other:
  "\<forall>k \<in> fst ` set kvs. \<not> P k \<Longrightarrow> filter (\<lambda>(k, _). P k) (spread d kvs) = filter (\<lambda>(k, _). P k) d"
proof (induction kvs arbitrary: d)
  case (Cons kv kvs)
  obtain k v where "kv = (k, v)" by fastforce
  with Cons filter_update_other [of P k v d] show ?case by (simp add: spread_def)
qed (simp add: spread_def)

definition update_fields :: "resolution_update \<Rightarrow> rhash" where
  "update_fields u =
     [(''resolutionStatus'', ru_status u), (''resolvedAt'', opt_string (ru_resolvedAt u)),
      (''resolutionErrors'', opt_string (ru_errors u)), (''pendingSelections'', opt_string (ru_pendingSelections u))]"

lemma toRow_update:
  assumes "toRow env d = Some r" and "ru_status u \<noteq> []"
  shows "toRow env (spread d (update_fields u)) = Some (row_after u r)"
proof -
  have keys: "fst ` set (update_fields u) = {''resolutionStatus'', ''resolvedAt'', ''resolutionErrors'', ''pendingSelections''}"
    by (auto simp: update_fields_def)
  have hf: "hfield (spread d (update_fields u)) k = hfield d k"
    if "k \<notin> {''resolutionStatus'', ''resolvedAt'', ''resolutionErrors'', ''pendingSelections''}" for k
    using that by (intro hfield_spread_other) (simp add: keys)
  have hu: "hfield (spread d (update_fields u)) ''resolutionStatus'' = ru_status u"
    "hfield (spread d (update_fields u)) ''resolvedAt'' = opt_string (ru_resolvedAt u)"
    "hfield (spread d (update_fields u)) ''resolutionErrors'' = opt_string (ru_errors u)"
    by (simp_all add: hfield_def map_of_spread update_fields_def)
  have "extractFlatFields (spread d (update_fields u)) = extractFlatFields d"
    unfolding extractFlatFields_def
    by (subst filter_spread_other) (auto simp: keys RESERVED_HASH_KEYS_def)
  then have "deserializeDomainFields env (spread d (update_fields u)) = deserializeDomainFields env d"
    by (simp add: deserializeDomainFields_def hf DOMAIN_BLOB_def)
  then show ?thesis using assms hu
    by (simp add: toRow_def hf row_after_def split: if_splits) auto
qed

interpretation repo: resolution_store "repo_port renv"
proof
  show "sp_get (repo_port renv) s i = Some r \<Longrightarrow> ru_status u \<noteq> [] \<Longrightarrow>
      sp_get (repo_port renv) (sp_update (repo_port renv) i u s) i = Some (row_after u r)" for s i r u
    using toRow_update [of renv "hgetall s i" r u]
    by (simp add: repo_port_def getById_def updateResolution_def update_fields_def hgetall_def update_conv)
  show "sp_lock (repo_port renv) = Some (claim, release) \<Longrightarrow>
      sp_get (repo_port renv) (snd (claim i t s)) j = sp_get (repo_port renv) s j" for claim release i t s j
    by (auto simp: repo_port_def claimResolutionLock_def getById_def hgetall_def)
  show "sp_lock (repo_port renv) = Some (claim, release) \<Longrightarrow>
      sp_get (repo_port renv) (release i t s) j = sp_get (repo_port renv) s j" for claim release i t s j
    by (auto simp: repo_port_def releaseResolutionLock_def getById_def hgetall_def)
qed

section \<open>Overlapping calls\<close>

text \<open>
  Two or more calls of \<open>resolve\<close> for one suggestion, interleaved at the points where the code
  awaits. After the refresh the code evaluates \<open>return this.resolveLoaded(..)\<close>: the first
  handler is called and the \<open>finally\<close> block starts to release the lock, while the remaining
  actions are still to come; so from \<open>Running\<close> on the release and the dispatches are
  independent.
\<close>

datatype call_phase =
    AtStart
  | AtClaim
  | AtRefresh
  | Running bool sugg_row "res_action list" dispatch_acc
  | Releasing resolution_result
  | Returned resolution_result

record sys =
  sy_store :: store
  sy_log :: dispatch_log
  sy_phase :: "string \<Rightarrow> call_phase"

definition set_phase :: "string \<Rightarrow> call_phase \<Rightarrow> sys \<Rightarrow> sys" where
  "set_phase t p y = y\<lparr>sy_phase := (sy_phase y)(t := p)\<rparr>"

text \<open>A call is named by its lock token.\<close>

inductive call_step :: "repo_env \<Rightarrow> res_env \<Rightarrow> string \<Rightarrow> sys \<Rightarrow> sys \<Rightarrow> bool" for renv env i where
  load: "sy_phase y t = AtStart \<Longrightarrow> getById renv (sy_store y) i = Some row \<Longrightarrow>
    preflightResolutionRow env row = None \<Longrightarrow> call_step renv env i y (set_phase t AtClaim y)"
| refuse: "sy_phase y t = AtStart \<Longrightarrow> getById renv (sy_store y) i = Some row \<Longrightarrow>
    preflightResolutionRow env row = Some r \<Longrightarrow> call_step renv env i y (set_phase t (Returned r) y)"
| claim: "sy_phase y t = AtClaim \<Longrightarrow> claimResolutionLock i t (sy_store y) = (True, s') \<Longrightarrow>
    call_step renv env i y (set_phase t AtRefresh (y\<lparr>sy_store := s'\<rparr>))"
| busy: "sy_phase y t = AtClaim \<Longrightarrow> claimResolutionLock i t (sy_store y) = (False, s') \<Longrightarrow>
    call_step renv env i y (set_phase t (Returned busy_result) y)"
| run: "sy_phase y t = AtRefresh \<Longrightarrow> getById renv (sy_store y) i = Some row \<Longrightarrow>
    preflightResolutionRow env row = None \<Longrightarrow> sg_resolutionPayload row = Some p \<Longrightarrow>
    rv_parsePayload env p = PayloadActions (a # actions) \<Longrightarrow>
    dispatch_one env i None a (\<lparr>da_total = 0, da_errors = [], da_pending = []\<rparr>, sy_log y) = (acc, lg') \<Longrightarrow>
    call_step renv env i y (set_phase t (Running True row actions acc) (y\<lparr>sy_log := lg'\<rparr>))"
| release: "sy_phase y t = Running True row as acc \<Longrightarrow>
    call_step renv env i y (set_phase t (Running False row as acc) (y\<lparr>sy_store := releaseResolutionLock i t (sy_store y)\<rparr>))"
| dispatch: "sy_phase y t = Running held row (a # as) acc \<Longrightarrow>
    dispatch_one env i None a (acc, sy_log y) = (acc', lg') \<Longrightarrow>
    call_step renv env i y (set_phase t (Running held row as acc') (y\<lparr>sy_log := lg'\<rparr>))"
| finish: "sy_phase y t = Running held row [] acc \<Longrightarrow>
    conclude (repo_port renv) env i row None acc (sy_store y) = (r, s') \<Longrightarrow>
    call_step renv env i y (set_phase t (if held then Releasing r else Returned r) (y\<lparr>sy_store := s'\<rparr>))"
| release_late: "sy_phase y t = Releasing r \<Longrightarrow>
    call_step renv env i y (set_phase t (Returned r) (y\<lparr>sy_store := releaseResolutionLock i t (sy_store y)\<rparr>))"

inductive_cases call_step_cases: "call_step renv env i y y'"

abbreviation call_steps :: "repo_env \<Rightarrow> res_env \<Rightarrow> string \<Rightarrow> sys \<Rightarrow> sys \<Rightarrow> bool" where
  "call_steps renv env i \<equiv> (call_step renv env i)\<^sup>*\<^sup>*"

definition idle :: "store \<Rightarrow> sys" where
  "idle s = \<lparr>sy_store = s, sy_log = [], sy_phase = \<lambda>_. AtStart\<rparr>"

lemma set_phase_simps [simp]:
  "sy_store (set_phase t p y) = sy_store y" "sy_log (set_phase t p y) = sy_log y"
  "sy_phase (set_phase t p y) u = (if u = t then p else sy_phase y u)"
  by (simp_all add: set_phase_def)

lemma getById_locks: "getById renv (s\<lparr>ss_locks := l\<rparr>) i = getById renv s i"
  by (simp add: getById_def hgetall_def)

text \<open>One call gets as far as its first dispatch and gives the lock back.\<close>

lemma call_reaches_dispatch:
  assumes ph: "sy_phase y t = AtStart" and free: "map_of (ss_locks (sy_store y)) i = None"
    and row: "getById renv (sy_store y) i = Some row" and pre: "preflightResolutionRow env row = None"
    and pay: "sg_resolutionPayload row = Some p" and acts: "rv_parsePayload env p = PayloadActions (a # actions)"
    and hd: "rv_handler env (fst a) = Some handle"
  shows "\<exists>y'. call_steps renv env i y y' \<and> sy_log y' = sy_log y @ [(i, fst a)] \<and>
    map_of (ss_locks (sy_store y')) i = None \<and> (\<forall>j. getById renv (sy_store y') j = getById renv (sy_store y) j) \<and>
    (\<forall>u. u \<noteq> t \<longrightarrow> sy_phase y' u = sy_phase y u)"
proof -
  obtain acc lg' where d: "dispatch_one env i None a (\<lparr>da_total = 0, da_errors = [], da_pending = []\<rparr>, sy_log y) = (acc, lg')"
    by fastforce
  then have lg: "lg' = sy_log y @ [(i, fst a)]"
    using hd by (auto simp: dispatch_one_def Let_def split: sum.splits)
  let ?y1 = "set_phase t AtClaim y"
  obtain s1 where c: "claimResolutionLock i t (sy_store y) = (True, s1)"
    and s1: "s1 = sy_store y\<lparr>ss_locks := AList.update i t (ss_locks (sy_store y))\<rparr>"
    using free by (simp add: claimResolutionLock_def)
  let ?y2 = "set_phase t AtRefresh (?y1\<lparr>sy_store := s1\<rparr>)"
  let ?y3 = "set_phase t (Running True row actions acc) (?y2\<lparr>sy_log := lg'\<rparr>)"
  let ?y4 = "set_phase t (Running False row actions acc) (?y3\<lparr>sy_store := releaseResolutionLock i t (sy_store ?y3)\<rparr>)"
  have "call_step renv env i y ?y1" by (rule call_step.load [OF ph row pre])
  moreover have "call_step renv env i ?y1 ?y2" by (rule call_step.claim) (simp_all add: c)
  moreover have "call_step renv env i ?y2 ?y3"
    by (rule call_step.run [OF _ _ pre pay acts]) (simp_all add: row s1 getById_locks d)
  moreover have "call_step renv env i ?y3 ?y4" by (rule call_step.release) simp
  ultimately have "call_steps renv env i y ?y4" by (meson r_into_rtranclp rtranclp_trans)
  moreover have "map_of (ss_locks (sy_store ?y4)) i = None"
    by (simp add: releaseResolutionLock_def s1 update_conv delete_conv)
  moreover have "getById renv (sy_store ?y4) j = getById renv (sy_store y) j" for j
    by (simp add: releaseResolutionLock_def s1 getById_locks)
  ultimately show ?thesis using lg by (intro exI [of _ ?y4]) simp
qed

section \<open>Properties\<close>

text \<open>C12: Resolving is at most once for calls that do not overlap: after a call that ended in
  \<open>success\<close> or \<open>partial\<close>, every later call for the suggestion reports the same status with no affected
  rows, dispatches no action and leaves the store as it is.\<close>

theorem resolve_at_most_once:
  assumes "resolve (repo_port renv) env i sel token (s, lg) = (r, (s', lg'))"
    and "rs_status r \<in> {''success'', ''partial''}"
  shows "\<exists>r2. resolve (repo_port renv) env i sel2 token2 (s', lg') = (r2, (s', lg')) \<and>
    rs_status r2 = rs_status r \<and> rs_affectedRows r2 = 0"
  using assms by (rule repo.resolve_once)

definition demo_res_env :: res_env where
  "demo_res_env =
     \<lparr>rv_parsePayload = \<lambda>_. PayloadActions [(''set_mass'', JNull)],
      rv_handler = \<lambda>k. if k = ''set_mass'' then Some (\<lambda>_ _ _. Inr \<lparr>hr_ok = True, hr_affectedRows = 1,
        hr_pending = None, hr_errors = None\<rparr>) else None,
      rv_promote = \<lambda>_. Inr \<lparr>pm_ok = True, pm_errors = None\<rparr>,
      rv_errorsJson = \<lambda>_. ''[]'', rv_pendingJson = \<lambda>_. ''[]'', rv_parseJson = \<lambda>_. None, rv_now = ''now''\<rparr>"

definition accepted_store :: store where
  "accepted_store = snd (review demo_repo ''1'' True None 7 demo_store)"

theorem resolve_at_most_once_witness:
  "\<exists>r st. resolve (repo_port demo_repo) demo_res_env ''1'' None ''t'' (accepted_store, []) = (r, st) \<and>
     rs_status r = ''success'' \<and> length (snd st) = 1 \<and>
     (\<exists>r2. resolve (repo_port demo_repo) demo_res_env ''1'' None ''u'' st = (r2, st))"
proof -
  obtain r s' lg' where r: "resolve (repo_port demo_repo) demo_res_env ''1'' None ''t'' (accepted_store, []) = (r, (s', lg'))"
    by (metis prod.exhaust)
  have "case resolve (repo_port demo_repo) demo_res_env ''1'' None ''t'' (accepted_store, []) of
      (r, (s', lg')) \<Rightarrow> rs_status r = ''success'' \<and> length lg' = 1"
    by code_simp
  with r have "rs_status r = ''success''" "length lg' = 1" by simp_all
  with resolve_at_most_once [OF r, of None "''u''"] r show ?thesis by auto
qed

text \<open>No handler runs for a suggestion that a reviewer has not accepted, or that is already
  resolved.\<close>

theorem resolve_dispatches_only_accepted:
  assumes "resolve (repo_port renv) env i sel token (s, lg) = (r, (s', lg'))" and "lg' \<noteq> lg"
  shows "\<exists>row. getById renv s i = Some row \<and> sg_accepted row = Some True \<and>
    sg_resolutionStatus row \<notin> {''success'', ''partial''}"
  using repo.resolve_only_accepted [OF assms] by (simp add: repo_port_def)

theorem resolve_dispatches_only_accepted_witness:
  "\<exists>row. getById demo_repo accepted_store ''1'' = Some row \<and> sg_accepted row = Some True"
proof -
  obtain r s' lg' where r: "resolve (repo_port demo_repo) demo_res_env ''1'' None ''t'' (accepted_store, []) = (r, (s', lg'))"
    by (metis prod.exhaust)
  have "case resolve (repo_port demo_repo) demo_res_env ''1'' None ''t'' (accepted_store, []) of
      (r, (s', lg')) \<Rightarrow> length lg' = 1"
    by code_simp
  with r have "lg' \<noteq> []" by auto
  from resolve_dispatches_only_accepted [OF r this] show ?thesis by blast
qed

text \<open>C13: The lock does not prevent two overlapping calls from both executing the resolution: because
  the promise of \<open>resolveLoaded\<close> is returned without being awaited, the \<open>finally\<close> block releases the
  lock while the actions run. From any store in which the suggestion can be resolved and its lock is
  free, an interleaving dispatches its first action twice.\<close>

theorem overlapping_resolves_dispatch_twice:
  assumes "getById renv s i = Some row" and "preflightResolutionRow env row = None"
    and "sg_resolutionPayload row = Some p" and "rv_parsePayload env p = PayloadActions (a # actions)"
    and "rv_handler env (fst a) = Some handle" and "map_of (ss_locks s) i = None"
  shows "\<exists>y. call_steps renv env i (idle s) y \<and> sy_log y = [(i, fst a), (i, fst a)]"
proof -
  have "sy_phase (idle s) ''t1'' = AtStart" "map_of (ss_locks (sy_store (idle s))) i = None"
    "getById renv (sy_store (idle s)) i = Some row"
    using assms by (simp_all add: idle_def)
  from call_reaches_dispatch [OF this assms(2-5)] obtain y1 where
    y1: "call_steps renv env i (idle s) y1" "sy_log y1 = [(i, fst a)]" "map_of (ss_locks (sy_store y1)) i = None"
      "\<And>j. getById renv (sy_store y1) j = getById renv s j" "sy_phase y1 ''t2'' = AtStart"
    by (auto simp: idle_def)
  have "getById renv (sy_store y1) i = Some row" using y1(4) assms(1) by simp
  from call_reaches_dispatch [OF y1(5,3) this assms(2-5)] obtain y2 where
    "call_steps renv env i y1 y2" "sy_log y2 = sy_log y1 @ [(i, fst a)]"
    by blast
  with y1(1,2) show ?thesis by (intro exI [of _ y2]) (auto intro: rtranclp_trans)
qed

theorem overlapping_resolves_dispatch_twice_witness:
  "\<exists>y. call_steps demo_repo demo_res_env ''1'' (idle accepted_store) y \<and>
     sy_log y = [(''1'', ''set_mass''), (''1'', ''set_mass'')]"
proof -
  have "case getById demo_repo accepted_store ''1'' of None \<Rightarrow> False
      | Some row \<Rightarrow> preflightResolutionRow demo_res_env row = None \<and> sg_resolutionPayload row = Some ''p''"
    by code_simp
  then obtain row where row: "getById demo_repo accepted_store ''1'' = Some row"
    "preflightResolutionRow demo_res_env row = None" "sg_resolutionPayload row = Some ''p''"
    by (auto split: option.splits)
  have "map_of (ss_locks accepted_store) ''1'' = None" by code_simp
  then show ?thesis
    using overlapping_resolves_dispatch_twice [OF row, of "(''set_mass'', JNull)" "[]"]
    by (auto simp: demo_res_env_def)
qed

end
