(* ===== verification/TemporalEvents.thy ===== *)
theory TemporalEvents
  imports Runtime
begin

text \<open>
  The data of \<open>packages/temporal/src\<close> (\<open>types.ts\<close>), the event signatures
  (\<open>event-signature.ts\<close>) and the windows and event sets built from a stream of events
  (\<open>episode-windows.ts\<close>).

  \<open>localeCompare\<close> is the collation of the host, the argument \<open>lc\<close>; no law of it is needed.
  The SHA-256 digest of \<open>node:crypto\<close> is the argument \<open>sha\<close>.
\<close>

section \<open>Data\<close>

datatype source_domain = Production | Simulation | SimulationSeeded | MixedDomain

datatype order_quality = RealTimeOrdered | TurnOrdered | SameTimestampOrdered | SyntheticOrdered

record temporal_event =
  te_id :: string
  te_type :: string
  te_source :: string
  te_fish_index :: "jsnum option"
  te_turn_index :: "jsnum option"
  te_order_index :: "jsnum option"
  te_timestamp :: jsnum
  te_action_kind :: "string option"
  te_review_outcome :: "string option"
  te_terminal_status :: "string option"
  te_seeded_by :: "string option"
  te_domain :: source_domain
  te_quality :: "order_quality option"
  te_source_table :: string
  te_source_pk :: string
  te_metadata :: "(string \<times> jval) list option"

record event_set =
  es_timestamp :: jsnum
  es_order_index :: nat
  es_quality :: order_quality
  es_events :: "temporal_event list"

record outcome_window =
  ow_outcome :: temporal_event
  ow_preEvents :: "temporal_event list"

section \<open>Signatures\<close>

definition opt_or_none :: "string option \<Rightarrow> string" where
  "opt_or_none x = (case x of Some s \<Rightarrow> s | None \<Rightarrow> ''none'')"

definition canonicalEventSignature :: "temporal_event \<Rightarrow> string" where
  "canonicalEventSignature e =
     join ''|'' [te_type e, te_source e, opt_or_none (te_action_kind e), opt_or_none (te_terminal_status e)]"

definition preEventSignature :: "temporal_event \<Rightarrow> string" where
  "preEventSignature e =
     join ''|'' [te_type e, te_source e, opt_or_none (te_action_kind e), ''none'']"

definition outcomeLabel :: "temporal_event \<Rightarrow> string option" where
  "outcomeLabel e = te_terminal_status e"

text \<open>
  The patterns of \<open>TARGET_PROXY_EVENT_PATTERNS\<close>: whole words, and one prefix of a word. All are
  matched without regard to case.
\<close>

definition target_proxy_words :: "string list" where
  "target_proxy_words =
     [''risk_high'', ''max_risk_high'', ''risk_increase'', ''risk_increased'',
      ''pc_estimate_above_threshold'', ''terminal_status'', ''review_outcome'', ''promotion_outcome'']"

definition signatureContainsTargetProxy :: "string \<Rightarrow> bool" where
  "signatureContainsTargetProxy s =
     (let t = to_lower s in
      list_ex (\<lambda>w. has_word w False t) target_proxy_words \<or> has_word_prefix ''outcome_'' False t)"

definition eventContainsTargetProxy :: "temporal_event \<Rightarrow> bool" where
  "eventContainsTargetProxy e =
     (if te_terminal_status e \<noteq> None then True
      else if te_review_outcome e \<noteq> None then True
      else signatureContainsTargetProxy (preEventSignature e))"

definition stableJoin :: "string list \<Rightarrow> string" where
  "stableJoin parts = join ''|'' (map (\<lambda>p. show_nat (length p) @ '':'' @ p) parts)"

definition canonicalTemporalEventId :: "(string \<Rightarrow> string) \<Rightarrow> temporal_event \<Rightarrow> string \<Rightarrow> string" where
  "canonicalTemporalEventId sha e projectionVersion =
     sha (stableJoin [projectionVersion, te_source_table e, te_source_pk e, te_type e])"

section \<open>Windows\<close>

definition normalizedOrderIndex :: "temporal_event \<Rightarrow> jsnum" where
  "normalizedOrderIndex e =
     (case te_order_index e of
        Some n \<Rightarrow> if js_finite n then n else Fin 0
      | None \<Rightarrow> Fin 0)"

definition event_order :: "(string \<Rightarrow> string \<Rightarrow> jsnum) \<Rightarrow> temporal_event \<Rightarrow> temporal_event \<Rightarrow> jsnum" where
  "event_order lc l r =
     js_or (js_minus (te_timestamp l) (te_timestamp r))
       (js_or (js_minus (normalizedOrderIndex l) (normalizedOrderIndex r))
         (lc (te_id l) (te_id r)))"

definition sortTemporalEventsStable ::
  "(string \<Rightarrow> string \<Rightarrow> jsnum) \<Rightarrow> temporal_event list \<Rightarrow> temporal_event list" where
  "sortTemporalEventsStable lc evs = js_sort (event_order lc) evs"

definition validTemporalEvents :: "temporal_event list \<Rightarrow> temporal_event list" where
  "validTemporalEvents evs = filter (\<lambda>e. js_finite (te_timestamp e)) evs"

definition in_window :: "jsnum \<Rightarrow> temporal_event \<Rightarrow> temporal_event \<Rightarrow> bool" where
  "in_window windowStart outc e =
     (js_le windowStart (te_timestamp e) \<and> js_lt (te_timestamp e) (te_timestamp outc) \<and>
      te_id e \<noteq> te_id outc)"

definition buildOutcomeWindows ::
  "(string \<Rightarrow> string \<Rightarrow> jsnum) \<Rightarrow> temporal_event list \<Rightarrow> string \<Rightarrow> real \<Rightarrow> outcome_window list" where
  "buildOutcomeWindows lc evs terminalStatus windowMs =
     (let ordered = sortTemporalEventsStable lc (validTemporalEvents evs) in
      map (\<lambda>outc. \<lparr>ow_outcome = outc,
                    ow_preEvents = filter (in_window (js_minus (te_timestamp outc) (Fin windowMs)) outc) ordered\<rparr>)
        (filter (\<lambda>outc. te_terminal_status outc = Some terminalStatus) ordered))"

fun quality_of_value :: "jval option \<Rightarrow> order_quality option" where
  "quality_of_value (Some (JStr s)) =
     (if s = ''real_time_ordered'' then Some RealTimeOrdered
      else if s = ''turn_ordered'' then Some TurnOrdered
      else if s = ''same_timestamp_ordered'' then Some SameTimestampOrdered
      else if s = ''synthetic_ordered'' then Some SyntheticOrdered
      else None)"
| "quality_of_value _ = None"

definition eventTemporalOrderQuality :: "temporal_event \<Rightarrow> order_quality" where
  "eventTemporalOrderQuality e =
     (case te_quality e of
        Some q \<Rightarrow> q
      | None \<Rightarrow>
          (case quality_of_value (case te_metadata e of Some m \<Rightarrow> map_of m ''temporal_order_quality'' | None \<Rightarrow> None) of
             Some q \<Rightarrow> q
           | None \<Rightarrow>
               if te_order_index e \<noteq> None \<or> te_turn_index e \<noteq> None \<or> te_fish_index e \<noteq> None
               then TurnOrdered else RealTimeOrdered))"

definition eventSetOrderQuality :: "temporal_event list \<Rightarrow> order_quality" where
  "eventSetOrderQuality evs =
     (let explicit = map eventTemporalOrderQuality evs in
      if SyntheticOrdered \<in> set explicit then SyntheticOrdered
      else if length evs > 1 then SameTimestampOrdered
      else if TurnOrdered \<in> set explicit then TurnOrdered
      else (case explicit of q # _ \<Rightarrow> q | [] \<Rightarrow> RealTimeOrdered))"

fun repeats_timestamp :: "temporal_event list \<Rightarrow> bool" where
  "repeats_timestamp (a # b # es) = (js_eq (te_timestamp b) (te_timestamp a) \<or> repeats_timestamp (b # es))"
| "repeats_timestamp _ = False"

definition temporalOrderQualityForEvents ::
  "(string \<Rightarrow> string \<Rightarrow> jsnum) \<Rightarrow> temporal_event list \<Rightarrow> order_quality" where
  "temporalOrderQualityForEvents lc evs =
     (if evs = [] then RealTimeOrdered
      else
        let explicit = map eventTemporalOrderQuality evs in
        if SyntheticOrdered \<in> set explicit then SyntheticOrdered
        else if SameTimestampOrdered \<in> set explicit then SameTimestampOrdered
        else
          let ordered = sortTemporalEventsStable lc evs in
          if list_ex (\<lambda>e. te_quality e = Some SyntheticOrdered) ordered then SyntheticOrdered
          else if repeats_timestamp ordered then SameTimestampOrdered
          else if TurnOrdered \<in> set explicit then TurnOrdered
          else if list_ex (\<lambda>e. te_turn_index e \<noteq> None \<or> te_fish_index e \<noteq> None \<or> te_order_index e \<noteq> None) ordered
          then TurnOrdered
          else RealTimeOrdered)"

text \<open>The \<open>Map\<close> from time stamps to buckets.\<close>

definition add_to_group ::
  "(jsnum, temporal_event list) jsmap \<Rightarrow> temporal_event \<Rightarrow> (jsnum, temporal_event list) jsmap" where
  "add_to_group m e =
     AList.update (te_timestamp e)
       ((case map_of m (te_timestamp e) of Some b \<Rightarrow> b | None \<Rightarrow> []) @ [e]) m"

definition number_sets :: "(jsnum \<times> temporal_event list) list \<Rightarrow> event_set list" where
  "number_sets entries =
     map (\<lambda>(i, t, bucket).
        \<lparr>es_timestamp = t, es_order_index = i, es_quality = eventSetOrderQuality bucket, es_events = bucket\<rparr>)
       (enumerate 0 entries)"

definition buildTemporalEventSets ::
  "(string \<Rightarrow> string \<Rightarrow> jsnum) \<Rightarrow> temporal_event list \<Rightarrow> event_set list" where
  "buildTemporalEventSets lc evs =
     number_sets
       (js_sort (\<lambda>a b. js_minus (fst a) (fst b))
         (foldl add_to_group [] (sortTemporalEventsStable lc (validTemporalEvents evs))))"

section \<open>Sorted streams\<close>

definition ts :: "temporal_event \<Rightarrow> real" where
  "ts e = (case te_timestamp e of Fin x \<Rightarrow> x | _ \<Rightarrow> 0)"

definition timed :: "temporal_event list \<Rightarrow> bool" where
  "timed evs = list_all (\<lambda>e. js_finite (te_timestamp e)) evs"

lemma timed_Fin: "js_finite (te_timestamp e) \<Longrightarrow> te_timestamp e = Fin (ts e)"
  by (auto simp: js_finite_iff ts_def)

lemma timed_simps [simp]:
  "timed []"
  "timed (e # es) \<longleftrightarrow> js_finite (te_timestamp e) \<and> timed es"
  "timed (xs @ ys) \<longleftrightarrow> timed xs \<and> timed ys"
  by (simp_all add: timed_def)

lemma timed_mem: "timed evs \<Longrightarrow> e \<in> set evs \<Longrightarrow> te_timestamp e = Fin (ts e)"
  by (auto simp: timed_def list_all_iff intro: timed_Fin)

lemma timed_subset: "timed evs \<Longrightarrow> set es \<subseteq> set evs \<Longrightarrow> timed es"
  by (auto simp: timed_def list_all_iff)

lemma timed_valid [simp]: "timed (validTemporalEvents evs)"
  by (simp add: timed_def validTemporalEvents_def list_all_iff)

lemma valid_of_timed: "timed evs \<Longrightarrow> validTemporalEvents evs = evs"
  by (simp add: timed_def validTemporalEvents_def list_all_iff)

lemma set_sortTemporal [simp]: "set (sortTemporalEventsStable lc evs) = set evs"
  by (simp add: sortTemporalEventsStable_def)

lemma timed_sort [simp]: "timed (sortTemporalEventsStable lc evs) = timed evs"
  by (simp add: timed_def list_all_iff)

lemma event_order_le:
  assumes "te_timestamp x = Fin (ts x)" "te_timestamp y = Fin (ts y)"
  shows "\<not> js_lt (Fin 0) (event_order lc x y) \<Longrightarrow> ts x \<le> ts y"
    and "js_lt (Fin 0) (event_order lc x y) \<Longrightarrow> ts y \<le> ts x"
  using assms by (auto simp: event_order_def js_or_def js_truthy_def split: if_splits)

lemma sorted_sortTemporal:
  assumes "timed evs"
  shows "sorted_wrt (\<lambda>a b. ts a \<le> ts b) (sortTemporalEventsStable lc evs)"
  unfolding sortTemporalEventsStable_def
proof (rule sorted_js_sort)
  fix x y
  assume "x \<in> set evs" "y \<in> set evs"
  then have f: "te_timestamp x = Fin (ts x)" "te_timestamp y = Fin (ts y)"
    using timed_mem [OF assms] by blast+
  show "\<not> js_lt (Fin 0) (event_order lc x y) \<Longrightarrow> ts x \<le> ts y"
    by (rule event_order_le(1) [OF f])
  show "js_lt (Fin 0) (event_order lc x y) \<Longrightarrow> ts y \<le> ts x"
    by (rule event_order_le(2) [OF f])
qed auto

section \<open>Event sets\<close>

lemma update_append_key:
  "k \<notin> fst ` set m \<Longrightarrow> AList.update k v (m @ (k, b) # m') = m @ (k, v) # m'"
  by (induction m) auto

lemma update_new_key: "k \<notin> fst ` set m \<Longrightarrow> AList.update k v m = m @ [(k, v)]"
  by (induction m) auto

definition groups_ok :: "(jsnum, temporal_event list) jsmap \<Rightarrow> bool" where
  "groups_ok m =
     (sorted_wrt (\<lambda>a b. js_lt (fst a) (fst b)) m \<and>
      (\<forall>(k, b) \<in> set m. b \<noteq> [] \<and> js_finite k \<and> (\<forall>e \<in> set b. te_timestamp e = k)))"

lemma groups_ok_snoc:
  assumes "groups_ok m" "js_finite (te_timestamp x)"
    and "\<forall>e \<in> set (concat (map snd m)). ts e \<le> ts x"
  shows "groups_ok (add_to_group m x) \<and> concat (map snd (add_to_group m x)) = concat (map snd m) @ [x]"
proof (cases m rule: rev_cases)
  case Nil
  with assms(2) show ?thesis by (simp add: groups_ok_def add_to_group_def)
next
  case (snoc m' kb)
  obtain k b where kb: "kb = (k, b)" by fastforce
  have b: "b \<noteq> []" "js_finite k" "\<forall>e \<in> set b. te_timestamp e = k"
    and m': "\<forall>(k', b') \<in> set m'. js_lt k' k \<and> b' \<noteq> [] \<and> js_finite k' \<and> (\<forall>e \<in> set b'. te_timestamp e = k')"
    and srt: "sorted_wrt (\<lambda>a b. js_lt (fst a) (fst b)) m'"
    using assms(1) by (auto simp: groups_ok_def snoc kb sorted_wrt_append)
  obtain e where e: "e \<in> set b" using b(1) by (cases b) auto
  then have ke: "k = Fin (ts e)" using b timed_Fin by metis
  have le: "ts e \<le> ts x" using assms(3) e by (auto simp: snoc kb)
  have x: "te_timestamp x = Fin (ts x)" by (rule timed_Fin [OF assms(2)])
  have k': "k \<notin> fst ` set m'"
  proof
    assume "k \<in> fst ` set m'"
    then obtain b' where "(k, b') \<in> set m'" by auto
    then have "js_lt k k" using m' by blast
    then show False using ke by simp
  qed
  show ?thesis
  proof (cases "te_timestamp x = k")
    case True
    then have "add_to_group m x = m' @ [(k, b @ [x])]"
      using k' update_append_key [OF k', of _ b "[]"]
      by (simp add: add_to_group_def snoc kb map_add_def split: option.splits)
        (metis map_of_eq_None_iff option.distinct(1))
    then show ?thesis using b m' srt True
      by (auto simp: groups_ok_def sorted_wrt_append snoc kb)
  next
    case False
    then have lt: "ts e < ts x" using le ke x by auto
    have "te_timestamp x \<notin> fst ` set m"
    proof
      assume "te_timestamp x \<in> fst ` set m"
      then obtain b' where "(te_timestamp x, b') \<in> set m'" using False by (auto simp: snoc kb)
      then have "js_lt (te_timestamp x) k" using m' by auto
      then show False using ke x lt by simp
    qed
    then have new: "map_of m (te_timestamp x) = None" "te_timestamp x \<notin> fst ` set m"
      by (auto simp: map_of_eq_None_iff)
    then have upd: "add_to_group m x = m @ [(te_timestamp x, [x])]"
      by (simp add: add_to_group_def update_new_key)
    have "js_lt k' (te_timestamp x)" if "(k', b') \<in> set m" for k' b'
    proof (cases "(k', b') \<in> set m'")
      case True
      with m' have "js_lt k' k" "js_finite k'" by auto
      then show ?thesis using lt ke x by (auto simp: js_finite_iff)
    next
      case False
      with that have "k' = k" by (simp add: snoc kb)
      then show ?thesis using lt ke x by simp
    qed
    then show ?thesis using assms(1) x
      by (auto simp: upd groups_ok_def sorted_wrt_append js_finite_iff)
  qed
qed

lemma groups_of_sorted:
  "timed evs \<Longrightarrow> sorted_wrt (\<lambda>a b. ts a \<le> ts b) evs \<Longrightarrow>
   groups_ok (foldl add_to_group [] evs) \<and> concat (map snd (foldl add_to_group [] evs)) = evs"
proof (induction evs rule: rev_induct)
  case Nil
  then show ?case by (simp add: groups_ok_def)
next
  case (snoc x xs)
  then have "groups_ok (foldl add_to_group [] xs)" "concat (map snd (foldl add_to_group [] xs)) = xs"
    by (auto simp: sorted_wrt_append)
  then show ?case using groups_ok_snoc [of "foldl add_to_group [] xs" x] snoc.prems
    by (auto simp: sorted_wrt_append)
qed

lemma js_sort_sorted:
  "sorted_wrt (\<lambda>x y. \<not> js_lt (Fin 0) (cmp x y)) xs \<Longrightarrow> js_sort cmp xs = xs"
proof (induction xs)
  case Nil
  then show ?case by simp
next
  case (Cons x xs)
  then show ?case by (cases xs) auto
qed

lemma groups_already_sorted:
  assumes "groups_ok m"
  shows "js_sort (\<lambda>a b. js_minus (fst a) (fst b)) m = m"
proof (rule js_sort_sorted, rule sorted_wrt_mono_rel [where P = "\<lambda>a b. js_lt (fst a) (fst b)"])
  fix x y assume "x \<in> set m" "y \<in> set m" "js_lt (fst x) (fst y)"
  moreover from this assms have "js_finite (fst x)" "js_finite (fst y)"
    by (auto simp: groups_ok_def)
  ultimately show "\<not> js_lt (Fin 0) (js_minus (fst x) (fst y))" by (auto simp: js_finite_iff)
qed (use assms in \<open>simp add: groups_ok_def\<close>)

lemma number_sets_nth:
  "length (number_sets es) = length es"
  "i < length es \<Longrightarrow> number_sets es ! i =
     \<lparr>es_timestamp = fst (es ! i), es_order_index = i,
      es_quality = eventSetOrderQuality (snd (es ! i)), es_events = snd (es ! i)\<rparr>"
  by (auto simp: number_sets_def nth_enumerate_eq split: prod.splits)

lemma number_sets_events: "map es_events (number_sets es) = map snd es"
  by (rule nth_equalityI) (auto simp: number_sets_nth)

section \<open>Canonical identifiers\<close>

lemma show_nat_digits: "c \<in> set (show_nat n) \<Longrightarrow> 48 \<le> (of_char c :: nat) \<and> (of_char c :: nat) < 58"
proof (induction n rule: show_nat.induct)
  case (1 n)
  show ?case
  proof (cases "n < 10")
    case True
    with 1(2) show ?thesis by (subst (asm) show_nat.simps) simp
  next
    case False
    with 1 show ?thesis by (subst (asm) (2) show_nat.simps) auto
  qed
qed

lemma takeWhile_show_nat: "takeWhile (\<lambda>c. c \<noteq> CHR '':'') (show_nat n @ CHR '':'' # s) = show_nat n"
  using show_nat_digits [of _ n] by (subst takeWhile_append2) fastforce+

lemma netstring_parse:
  assumes "show_nat (length p) @ CHR '':'' # p @ r = show_nat (length q) @ CHR '':'' # q @ s"
  shows "p = q \<and> r = s"
proof -
  have "show_nat (length p) = show_nat (length q)"
    using assms takeWhile_show_nat by metis
  then show ?thesis using assms by simp
qed

lemma join_cons: "xs \<noteq> [] \<Longrightarrow> join sep (x # xs) = x @ sep @ join sep xs"
  by (cases xs) auto

lemma stableJoin_Nil_iff: "stableJoin xs = [] \<longleftrightarrow> xs = []"
proof (cases xs)
  case (Cons x ys)
  then show ?thesis by (cases ys) (simp_all add: stableJoin_def)
qed (simp add: stableJoin_def)

lemma stableJoin_Cons:
  "stableJoin (x # xs) =
     show_nat (length x) @ CHR '':'' # x @ (if xs = [] then [] else CHR ''|'' # stableJoin xs)"
  by (simp add: stableJoin_def join_cons)

lemma stableJoin_injective: "stableJoin xs = stableJoin ys \<Longrightarrow> xs = ys"
proof (induction xs arbitrary: ys)
  case Nil
  then show ?case using stableJoin_Nil_iff by metis
next
  case (Cons x xs)
  then obtain y ys' where ys: "ys = y # ys'" using stableJoin_Nil_iff by (metis neq_Nil_conv)
  from netstring_parse [OF Cons.prems [unfolded ys stableJoin_Cons]]
  have "x = y" "xs = [] \<longleftrightarrow> ys' = []" "stableJoin xs = stableJoin ys'"
    by (auto split: if_splits)
  then show ?case using Cons.IH [of ys'] ys by simp
qed

section \<open>Properties\<close>

text \<open>The event sets are the sorted stream of events with a finite time stamp cut into blocks:
  their concatenation is that stream, their time stamps increase strictly, they are numbered from
  0, and every set is non-empty and holds events of its own time stamp only.\<close>

theorem event_sets_partition_the_stream:
  "concat (map es_events (buildTemporalEventSets lc evs)) = sortTemporalEventsStable lc (validTemporalEvents evs) \<and>
   sorted_wrt (\<lambda>a b. js_lt (es_timestamp a) (es_timestamp b)) (buildTemporalEventSets lc evs) \<and>
   map es_order_index (buildTemporalEventSets lc evs) = [0..<length (buildTemporalEventSets lc evs)] \<and>
   list_all (\<lambda>s. es_events s \<noteq> [] \<and> list_all (\<lambda>e. te_timestamp e = es_timestamp s) (es_events s))
     (buildTemporalEventSets lc evs)"
proof -
  let ?es = "sortTemporalEventsStable lc (validTemporalEvents evs)"
  let ?m = "foldl add_to_group [] ?es"
  have m: "groups_ok ?m" "concat (map snd ?m) = ?es"
    using groups_of_sorted [of ?es] sorted_sortTemporal [OF timed_valid, of lc] by simp_all
  have sets: "buildTemporalEventSets lc evs = number_sets ?m"
    by (simp add: buildTemporalEventSets_def groups_already_sorted [OF m(1)])
  have "sorted_wrt (\<lambda>a b. js_lt (es_timestamp a) (es_timestamp b)) (number_sets ?m)"
    using m(1) by (simp add: groups_ok_def sorted_wrt_iff_nth_less number_sets_nth)
  moreover have "map es_order_index (number_sets ?m) = [0..<length (number_sets ?m)]"
    by (rule nth_equalityI) (simp_all add: number_sets_nth)
  moreover have "list_all (\<lambda>s. es_events s \<noteq> [] \<and> list_all (\<lambda>e. te_timestamp e = es_timestamp s) (es_events s))
      (number_sets ?m)"
    unfolding list_all_length number_sets_nth(1)
  proof (intro allI impI)
    fix i assume i: "i < length ?m"
    obtain k b where kb: "?m ! i = (k, b)" by fastforce
    then have "(k, b) \<in> set ?m" using i nth_mem by metis
    then have "b \<noteq> []" "\<forall>e \<in> set b. te_timestamp e = k" using m(1) by (auto simp: groups_ok_def)
    then show "es_events (number_sets ?m ! i) \<noteq> [] \<and>
        (\<forall>n<length (es_events (number_sets ?m ! i)).
           te_timestamp (es_events (number_sets ?m ! i) ! n) = es_timestamp (number_sets ?m ! i))"
      using i kb by (simp add: number_sets_nth)
  qed
  ultimately show ?thesis using m(2) by (simp add: sets number_sets_events)
qed

text \<open>C40: The text that is hashed into a canonical event id determines the projection version, the
  source table, the source key and the event type: the length prefixes make the join injective,
  whatever characters the parts contain.\<close>

theorem stableJoin_is_injective: "stableJoin xs = stableJoin ys \<longleftrightarrow> xs = ys"
  using stableJoin_injective by auto

end
