(* ===== verification/TemporalMining.thy ===== *)
theory TemporalMining
  imports TemporalEvents "HOL-Library.Sublist"
begin

text \<open>
  \<open>packages/temporal/src/temporal-episode-miner.ts\<close>, which lists the event sequences that occur
  in a window, and \<open>negative-evidence.ts\<close>, which asks whether a given sequence occurs in one.

  The index ranges \<open>nextIndex ..\<close> of the code are suffixes of the event list.
\<close>

section \<open>Mining\<close>

record mining_options =
  mo_max_steps :: real
  mo_max_span_ms :: "real option"
  mo_max_gap_ms :: "real option"
  mo_max_candidates :: "real option"

record mined_episode =
  me_key :: string
  me_sequence :: "string list"
  me_events :: "temporal_event list"
  me_quality :: order_quality

text \<open>The limits after the defaults are filled in.\<close>

record limits =
  lm_steps :: int
  lm_span :: jsnum
  lm_gap :: jsnum
  lm_candidates :: real

definition limit_or_inf :: "real option \<Rightarrow> jsnum" where
  "limit_or_inf x = (case x of Some r \<Rightarrow> Fin r | None \<Rightarrow> PosInf)"

definition js_trunc :: "real \<Rightarrow> int" where
  "js_trunc x = (if x < 0 then \<lceil>x\<rceil> else \<lfloor>x\<rfloor>)"

definition mining_limits :: "mining_options \<Rightarrow> limits" where
  "mining_limits opts =
     \<lparr>lm_steps = js_trunc (mo_max_steps opts),
      lm_span = limit_or_inf (mo_max_span_ms opts),
      lm_gap = limit_or_inf (mo_max_gap_ms opts),
      lm_candidates = (case mo_max_candidates opts of Some c \<Rightarrow> c | None \<Rightarrow> 5000)\<rparr>"

definition negative :: "real option \<Rightarrow> bool" where
  "negative x = (case x of Some r \<Rightarrow> r < 0 | None \<Rightarrow> False)"

definition non_positive :: "real option \<Rightarrow> bool" where
  "non_positive x = (case x of Some r \<Rightarrow> r \<le> 0 | None \<Rightarrow> False)"

definition assertMiningOptions :: "mining_options \<Rightarrow> unit throws" where
  "assertMiningOptions opts =
     (if mo_max_steps opts \<le> 0 then Inl (mk_error ''max_steps must be positive'')
      else if negative (mo_max_span_ms opts) then Inl (mk_error ''max_span_ms must be non-negative'')
      else if negative (mo_max_gap_ms opts) then Inl (mk_error ''max_gap_ms must be non-negative'')
      else if non_positive (mo_max_candidates opts)
      then Inl (mk_error ''max_candidates_per_window must be positive'')
      else Inr ())"

definition unit_separator :: string where
  "unit_separator = [CHR 0x1F]"

definition sequence_key :: "string list \<Rightarrow> string" where
  "sequence_key sigs = join unit_separator sigs"

text \<open>The set of keys seen and the episodes found.\<close>

type_synonym mine_state = "string list \<times> mined_episode list"

definition mk_episode :: "(string \<Rightarrow> string \<Rightarrow> jsnum) \<Rightarrow> temporal_event list \<Rightarrow> mined_episode" where
  "mk_episode lc evs =
     \<lparr>me_key = sequence_key (map preEventSignature evs),
      me_sequence = map preEventSignature evs,
      me_events = evs,
      me_quality = temporalOrderQualityForEvents lc evs\<rparr>"

definition addEpisode ::
  "(string \<Rightarrow> string \<Rightarrow> jsnum) \<Rightarrow> temporal_event list \<Rightarrow> mine_state \<Rightarrow> mine_state" where
  "addEpisode lc evs st =
     (let key = sequence_key (map preEventSignature evs) in
      if key \<in> set (fst st) then st
      else (fst st @ [key], snd st @ [mk_episode lc evs]))"

definition full :: "limits \<Rightarrow> mine_state \<Rightarrow> bool" where
  "full lm st = (lm_candidates lm \<le> real (length (snd st)))"

text \<open>A step from \<open>prev\<close> to \<open>e\<close> in an episode that starts with \<open>first\<close>.\<close>

definition beyond_span :: "limits \<Rightarrow> temporal_event \<Rightarrow> temporal_event \<Rightarrow> bool" where
  "beyond_span lm first e = js_lt (lm_span lm) (js_minus (te_timestamp e) (te_timestamp first))"

definition beyond_gap :: "limits \<Rightarrow> temporal_event \<Rightarrow> temporal_event \<Rightarrow> bool" where
  "beyond_gap lm prev e = js_lt (lm_gap lm) (js_minus (te_timestamp e) (te_timestamp prev))"

function (sequential) extendEpisode ::
  "(string \<Rightarrow> string \<Rightarrow> jsnum) \<Rightarrow> limits \<Rightarrow> temporal_event list \<Rightarrow> temporal_event list \<Rightarrow>
   mine_state \<Rightarrow> mine_state"
and extend_with ::
  "(string \<Rightarrow> string \<Rightarrow> jsnum) \<Rightarrow> limits \<Rightarrow> temporal_event list \<Rightarrow> temporal_event list \<Rightarrow>
   mine_state \<Rightarrow> mine_state" where
  "extendEpisode lc lm current rest st =
     (let st' = addEpisode lc current st in
      if lm_steps lm \<le> int (length current) \<or> full lm st' then st'
      else extend_with lc lm current rest st')"
| "extend_with lc lm current [] st = st"
| "extend_with lc lm current (e # rest) st =
     (if full lm st then st
      else if beyond_span lm (hd current) e then st
      else if beyond_gap lm (last current) e then st
      else extend_with lc lm current rest (extendEpisode lc lm (current @ [e]) rest st))"
  by pat_completeness auto
termination
  by (relation "measure (\<lambda>x. case x of Inl (lc, lm, c, r, s) \<Rightarrow> 2 * length r + 1
                               | Inr (lc, lm, c, r, s) \<Rightarrow> 2 * length r)") auto

declare extendEpisode.simps [simp del] extend_with.simps [simp del]

fun mine_starts ::
  "(string \<Rightarrow> string \<Rightarrow> jsnum) \<Rightarrow> limits \<Rightarrow> temporal_event list \<Rightarrow> mine_state \<Rightarrow> mine_state" where
  "mine_starts lc lm [] st = st"
| "mine_starts lc lm (e # rest) st =
     (let st' = extendEpisode lc lm [e] rest st in
      if full lm st' then st' else mine_starts lc lm rest st')"

definition minable :: "(string \<Rightarrow> string \<Rightarrow> jsnum) \<Rightarrow> temporal_event list \<Rightarrow> temporal_event list" where
  "minable lc evs = filter (\<lambda>e. te_terminal_status e = None) (sortTemporalEventsStable lc evs)"

definition mineOrderedTemporalEpisodes ::
  "(string \<Rightarrow> string \<Rightarrow> jsnum) \<Rightarrow> temporal_event list \<Rightarrow> mining_options \<Rightarrow> mined_episode list throws" where
  "mineOrderedTemporalEpisodes lc evs opts =
     (case assertMiningOptions opts of
        Inl err \<Rightarrow> Inl err
      | Inr _ \<Rightarrow> Inr (snd (mine_starts lc (mining_limits opts) (minable lc evs) ([], []))))"

section \<open>Negative evidence\<close>

record match_options =
  mt_max_span_ms :: "real option"
  mt_max_gap_ms :: "real option"

definition match_limits :: "match_options \<Rightarrow> limits" where
  "match_limits opts =
     \<lparr>lm_steps = 0, lm_span = limit_or_inf (mt_max_span_ms opts),
      lm_gap = limit_or_inf (mt_max_gap_ms opts), lm_candidates = 0\<rparr>"

text \<open>The inner loop: the signatures still to be met and the events still to be scanned.\<close>

fun match_rest :: "limits \<Rightarrow> temporal_event \<Rightarrow> temporal_event \<Rightarrow> string list \<Rightarrow> temporal_event list \<Rightarrow> bool" where
  "match_rest lm first prev [] evs = True"
| "match_rest lm first prev (s # ss) [] = False"
| "match_rest lm first prev (s # ss) (e # evs) =
     (if beyond_span lm first e then False
      else if beyond_gap lm prev e then False
      else if preEventSignature e \<noteq> s then match_rest lm first prev (s # ss) evs
      else match_rest lm first e ss evs)"

fun match_starts :: "limits \<Rightarrow> string list \<Rightarrow> temporal_event list \<Rightarrow> bool" where
  "match_starts lm sigs [] = False"
| "match_starts lm sigs (e # evs) =
     (if preEventSignature e \<noteq> hd sigs then match_starts lm sigs evs
      else match_rest lm e e (tl sigs) evs \<or> match_starts lm sigs evs)"

definition containsOrderedEpisode ::
  "(string \<Rightarrow> string \<Rightarrow> jsnum) \<Rightarrow> temporal_event list \<Rightarrow> string list \<Rightarrow> match_options \<Rightarrow> bool" where
  "containsOrderedEpisode lc evs sigs opts =
     (if sigs = [] then False else match_starts (match_limits opts) sigs (minable lc evs))"

section \<open>Episodes\<close>

text \<open>Every event lies within the span of \<open>first\<close> and within the gap of its predecessor.\<close>

fun chained :: "limits \<Rightarrow> temporal_event \<Rightarrow> temporal_event \<Rightarrow> temporal_event list \<Rightarrow> bool" where
  "chained lm first prev [] = True"
| "chained lm first prev (e # es) =
     (\<not> beyond_span lm first e \<and> \<not> beyond_gap lm prev e \<and> chained lm first e es)"

text \<open>An episode of a stream: a selection of its events in order, within the limits.\<close>

definition episode_of :: "limits \<Rightarrow> temporal_event list \<Rightarrow> temporal_event list \<Rightarrow> bool" where
  "episode_of lm stream es =
     (es \<noteq> [] \<and> subseq es stream \<and> chained lm (hd es) (hd es) (tl es))"

definition short_enough :: "limits \<Rightarrow> temporal_event list \<Rightarrow> bool" where
  "short_enough lm es = (length es = 1 \<or> int (length es) \<le> lm_steps lm)"

section \<open>The miner\<close>

definition ekey :: "temporal_event list \<Rightarrow> string" where
  "ekey es = sequence_key (map preEventSignature es)"

definition mine_ok :: "mine_state \<Rightarrow> bool" where
  "mine_ok st = (map me_key (snd st) = fst st \<and> distinct (fst st))"

lemma me_key_mk [simp]: "me_key (mk_episode lc es) = ekey es"
  by (simp add: mk_episode_def ekey_def)

lemma addEpisode_ok: "mine_ok st \<Longrightarrow> mine_ok (addEpisode lc es st)"
  by (auto simp: mine_ok_def addEpisode_def Let_def ekey_def)

lemma addEpisode_key [simp]: "set (fst (addEpisode lc es st)) = insert (ekey es) (set (fst st))"
  by (auto simp: addEpisode_def ekey_def Let_def)

lemma addEpisode_mem: "ep \<in> set (snd (addEpisode lc es st)) \<Longrightarrow> ep \<in> set (snd st) \<or> ep = mk_episode lc es"
  by (auto simp: addEpisode_def Let_def split: if_splits)

lemma addEpisode_length: "length (snd st) \<le> length (snd (addEpisode lc es st))"
  by (simp add: addEpisode_def Let_def)

lemma mine_ok_steps:
  "mine_ok st \<Longrightarrow> mine_ok (extendEpisode lc lm cur rest st)"
  "mine_ok st \<Longrightarrow> mine_ok (extend_with lc lm cur rest st)"
  by (induction lc lm cur rest st and lc lm cur rest st rule: extendEpisode_extend_with.induct)
    (auto simp: extendEpisode.simps extend_with.simps Let_def addEpisode_ok)

lemma mine_grows:
  "set (fst st) \<subseteq> set (fst (extendEpisode lc lm cur rest st)) \<and>
   length (snd st) \<le> length (snd (extendEpisode lc lm cur rest st))"
  "set (fst st) \<subseteq> set (fst (extend_with lc lm cur rest st)) \<and>
   length (snd st) \<le> length (snd (extend_with lc lm cur rest st))"
proof (induction lc lm cur rest st and lc lm cur rest st rule: extendEpisode_extend_with.induct)
  case (1 lc lm cur rest st)
  then show ?case using addEpisode_length [of st lc cur]
    by (auto simp: extendEpisode.simps Let_def)
qed (auto simp: extend_with.simps)

lemma full_mono: "full lm st \<Longrightarrow> length (snd st) \<le> length (snd st') \<Longrightarrow> full lm st'"
  by (simp add: full_def)

lemma mine_grows_full:
  "\<not> full lm (extendEpisode lc lm cur rest st) \<Longrightarrow> \<not> full lm st"
  "\<not> full lm (extend_with lc lm cur rest st) \<Longrightarrow> \<not> full lm st"
  using mine_grows full_mono by blast+

text \<open>Soundness: what is found extends the current episode within the limits.\<close>

definition found_from ::
  "(string \<Rightarrow> string \<Rightarrow> jsnum) \<Rightarrow> limits \<Rightarrow> temporal_event list \<Rightarrow> temporal_event list \<Rightarrow> mined_episode \<Rightarrow> bool" where
  "found_from lc lm cur rest ep =
     (\<exists>es. subseq es rest \<and> chained lm (hd cur) (last cur) es \<and>
        (es = [] \<or> int (length cur + length es) \<le> lm_steps lm) \<and> ep = mk_episode lc (cur @ es))"

lemma found_from_here: "found_from lc lm cur rest (mk_episode lc cur)"
  unfolding found_from_def by (rule exI [of _ "[]"]) simp

lemma found_from_later: "found_from lc lm cur rest ep \<Longrightarrow> found_from lc lm cur (e # rest) ep"
  unfolding found_from_def by (blast intro: list_emb_Cons)

lemma found_from_push:
  assumes "found_from lc lm (cur @ [e]) rest ep" "cur \<noteq> []"
    "\<not> beyond_span lm (hd cur) e" "\<not> beyond_gap lm (last cur) e" "int (length cur) < lm_steps lm"
  shows "found_from lc lm cur (e # rest) ep"
proof -
  obtain es where es: "subseq es rest" "chained lm (hd cur) e es"
    "es = [] \<or> int (length (cur @ [e]) + length es) \<le> lm_steps lm" "ep = mk_episode lc ((cur @ [e]) @ es)"
    using assms(1,2) by (auto simp: found_from_def)
  then show ?thesis unfolding found_from_def using assms
    by (intro exI [of _ "e # es"]) auto
qed

lemma mine_sound:
  "ep \<in> set (snd (extendEpisode lc lm cur rest st)) \<Longrightarrow> cur \<noteq> [] \<Longrightarrow>
   ep \<in> set (snd st) \<or> found_from lc lm cur rest ep"
  "ep \<in> set (snd (extend_with lc lm cur rest st)) \<Longrightarrow> cur \<noteq> [] \<Longrightarrow> int (length cur) < lm_steps lm \<Longrightarrow>
   ep \<in> set (snd st) \<or> found_from lc lm cur rest ep"
proof (induction lc lm cur rest st and lc lm cur rest st rule: extendEpisode_extend_with.induct)
  case (1 lc lm cur rest st)
  then show ?case using found_from_here [of lc lm cur rest]
    by (auto simp: extendEpisode.simps Let_def not_le split: if_splits dest!: addEpisode_mem)
next
  case (2 lc lm cur st)
  then show ?case by (simp add: extend_with.simps)
next
  case (3 lc lm cur e rest st)
  show ?case
  proof (cases "full lm st \<or> beyond_span lm (hd cur) e \<or> beyond_gap lm (last cur) e")
    case True
    then have "extend_with lc lm cur (e # rest) st = st" by (auto simp: extend_with.simps)
    with 3(3) show ?thesis by simp
  next
    case False
    then have "ep \<in> set (snd (extend_with lc lm cur rest (extendEpisode lc lm (cur @ [e]) rest st)))"
      using 3(3) by (simp add: extend_with.simps)
    with 3 False consider "found_from lc lm cur rest ep" | "ep \<in> set (snd st)"
      | "found_from lc lm (cur @ [e]) rest ep"
      by auto
    then show ?thesis
      using found_from_later found_from_push 3(4,5) False by cases blast+
  qed
qed

text \<open>Completeness: unless the candidate limit is reached, nothing is missed.\<close>

lemma beyond_mono:
  assumes "te_timestamp e = Fin (ts e)" "te_timestamp x = Fin (ts x)" "te_timestamp p = Fin (ts p)"
    and "ts e \<le> ts x"
  shows "beyond_span lm p e \<Longrightarrow> beyond_span lm p x" "beyond_gap lm p e \<Longrightarrow> beyond_gap lm p x"
  using assms js_lt_Fin_mono [of _ "ts e - ts p" "ts x - ts p"]
  by (simp_all add: beyond_span_def beyond_gap_def)

lemma chained_prefix_beyond:
  assumes "timed (first # prev # stream)" "sorted_wrt (\<lambda>a b. ts a \<le> ts b) (e # stream)"
    and "beyond_span lm first e \<or> beyond_gap lm prev e" "js_finite (te_timestamp e)"
    and "subseq (x # xs) (e # stream)"
  shows "\<not> chained lm first prev (x # xs)"
proof -
  have "x \<in> set (e # stream)" using list_emb_set [OF assms(5), of x] by auto
  then have le: "ts e \<le> ts x" and "js_finite (te_timestamp x)"
    using assms(1,2,4) by (auto simp: timed_def list_all_iff)
  then have fin: "te_timestamp e = Fin (ts e)" "te_timestamp x = Fin (ts x)"
    "te_timestamp first = Fin (ts first)" "te_timestamp prev = Fin (ts prev)"
    using assms(1,4) by (auto intro: timed_Fin)
  have "beyond_span lm first x \<or> beyond_gap lm prev x"
    using assms(3) beyond_mono(1) [OF fin(1,2,3) le] beyond_mono(2) [OF fin(1,2,4) le] by blast
  then show ?thesis by auto
qed

lemma mine_complete:
  "\<not> full lm (extendEpisode lc lm cur rest st) \<Longrightarrow> cur \<noteq> [] \<Longrightarrow> timed (cur @ rest) \<Longrightarrow>
   sorted_wrt (\<lambda>a b. ts a \<le> ts b) rest \<Longrightarrow> subseq es rest \<Longrightarrow> chained lm (hd cur) (last cur) es \<Longrightarrow>
   es = [] \<or> int (length cur + length es) \<le> lm_steps lm \<Longrightarrow>
   ekey (cur @ es) \<in> set (fst (extendEpisode lc lm cur rest st))"
  "\<not> full lm (extend_with lc lm cur rest st) \<Longrightarrow> cur \<noteq> [] \<Longrightarrow> timed (cur @ rest) \<Longrightarrow>
   sorted_wrt (\<lambda>a b. ts a \<le> ts b) rest \<Longrightarrow> subseq es rest \<Longrightarrow> chained lm (hd cur) (last cur) es \<Longrightarrow>
   es \<noteq> [] \<Longrightarrow> int (length cur + length es) \<le> lm_steps lm \<Longrightarrow>
   ekey (cur @ es) \<in> set (fst (extend_with lc lm cur rest st))"
proof (induction lc lm cur rest st and lc lm cur rest st arbitrary: es and es
    rule: extendEpisode_extend_with.induct)
  case (1 lc lm cur rest st)
  let ?st = "addEpisode lc cur st"
  show ?case
  proof (cases "es = []")
    case True
    then show ?thesis using mine_grows(2) [of ?st lc lm cur rest]
      by (auto simp: extendEpisode.simps Let_def)
  next
    case False
    then have len: "\<not> lm_steps lm \<le> int (length cur)"
      using 1(8) by (cases es) auto
    have nf: "\<not> full lm ?st" and nf': "\<not> full lm (extend_with lc lm cur rest ?st)"
      using 1(2) len mine_grows_full(2) by (auto simp: extendEpisode.simps Let_def split: if_splits)
    have "ekey (cur @ es) \<in> set (fst (extend_with lc lm cur rest ?st))"
      by (rule 1(1)) (use 1 len nf nf' False in auto)
    then show ?thesis using len nf by (simp add: extendEpisode.simps Let_def)
  qed
next
  case (2 lc lm cur st)
  then show ?case by simp
next
  case (3 lc lm cur e rest st)
  obtain x xs where es: "es = x # xs" using 3(9) by (cases es) auto
  have nf: "\<not> full lm st" using 3(3) mine_grows_full(2) by blast
  have t: "timed (hd cur # last cur # rest)" "js_finite (te_timestamp e)"
    using 3(4,5) by (auto intro: timed_subset simp: timed_def list_all_iff)
  have in_limits: "\<not> beyond_span lm (hd cur) e" "\<not> beyond_gap lm (last cur) e"
    using chained_prefix_beyond [OF t(1) 3(6) _ t(2)] 3(7,8) es by blast+
  let ?st = "extendEpisode lc lm (cur @ [e]) rest st"
  have eq: "extend_with lc lm cur (e # rest) st = extend_with lc lm cur rest ?st"
    using nf in_limits by (simp add: extend_with.simps)
  show ?case
  proof (cases "subseq es rest")
    case True
    then show ?thesis
      unfolding eq by (intro 3(2)) (use 3 nf in_limits eq in auto)
  next
    case False
    then have xe: "x = e" "subseq xs rest" using 3(7) es by (auto split: if_splits)
    have "ekey ((cur @ [e]) @ xs) \<in> set (fst ?st)"
    proof (rule 3(1))
      show "\<not> full lm ?st" using 3(3) eq mine_grows_full(2) by metis
    qed (use 3 nf in_limits es xe in auto)
    then show ?thesis using eq mine_grows(2) [of ?st lc lm cur rest] es xe by auto
  qed
qed

lemma mine_starts_grows: "set (fst st) \<subseteq> set (fst (mine_starts lc lm evs st))"
proof (induction lc lm evs st rule: mine_starts.induct)
  case (2 lc lm e rest st)
  then show ?case using mine_grows(1) [of st lc lm "[e]" rest] by (auto simp: Let_def)
qed simp

lemma mine_starts_ok: "mine_ok st \<Longrightarrow> mine_ok (mine_starts lc lm evs st)"
  by (induction lc lm evs st rule: mine_starts.induct) (auto simp: Let_def mine_ok_steps)

lemma episode_of_Cons:
  "subseq es evs \<Longrightarrow> chained lm e e es \<Longrightarrow> episode_of lm (e # evs) (e # es)"
  by (simp add: episode_of_def)

lemma episode_of_later: "episode_of lm evs es \<Longrightarrow> episode_of lm (e # evs) es"
  by (auto simp: episode_of_def intro: list_emb_Cons)

lemma mine_starts_sound:
  "ep \<in> set (snd (mine_starts lc lm evs st)) \<Longrightarrow>
   ep \<in> set (snd st) \<or> (\<exists>es. episode_of lm evs es \<and> short_enough lm es \<and> ep = mk_episode lc es)"
proof (induction lc lm evs st rule: mine_starts.induct)
  case (1 lc lm st)
  then show ?case by simp
next
  case (2 lc lm e rest st)
  let ?st = "extendEpisode lc lm [e] rest st"
  have here: ?case if "ep \<in> set (snd ?st)"
  proof (cases "ep \<in> set (snd st)")
    case False
    with mine_sound(1) [OF that] obtain xs where xs: "subseq xs rest" "chained lm e e xs"
      "xs = [] \<or> int (length [e] + length xs) \<le> lm_steps lm" "ep = mk_episode lc (e # xs)"
      by (auto simp: found_from_def)
    then have "short_enough lm (e # xs)" by (auto simp: short_enough_def)
    then show ?thesis using xs episode_of_Cons [OF xs(1,2)] by blast
  qed simp
  show ?case
  proof (cases "full lm ?st")
    case True
    with 2(2) here show ?thesis by (simp add: Let_def)
  next
    case False
    with 2 have "ep \<in> set (snd ?st) \<or> (\<exists>es. episode_of lm rest es \<and> short_enough lm es \<and> ep = mk_episode lc es)"
      by (simp add: Let_def)
    then show ?thesis using here episode_of_later by blast
  qed
qed

lemma mine_starts_complete:
  assumes "\<not> full lm (mine_starts lc lm evs st)" "timed evs" "sorted_wrt (\<lambda>a b. ts a \<le> ts b) evs"
    "episode_of lm evs es" "short_enough lm es"
  shows "ekey es \<in> set (fst (mine_starts lc lm evs st))"
  using assms
proof (induction lc lm evs st rule: mine_starts.induct)
  case (1 lc lm st)
  then show ?case by (cases es) (auto simp: episode_of_def)
next
  case (2 lc lm e rest st)
  let ?st = "extendEpisode lc lm [e] rest st"
  have nf: "\<not> full lm ?st" using 2(2) by (auto simp: Let_def split: if_splits)
  then have eq: "mine_starts lc lm (e # rest) st = mine_starts lc lm rest ?st"
    by (simp add: Let_def)
  show ?case
  proof (cases "subseq es rest")
    case True
    then have "episode_of lm rest es" using 2(5) by (simp add: episode_of_def)
    then show ?thesis unfolding eq by (intro 2(1)) (use 2 nf eq in auto)
  next
    case False
    obtain xs where es: "es = e # xs" "subseq xs rest" "chained lm e e xs"
      using 2(5) False by (cases es) (auto simp: episode_of_def split: if_splits)
    have "ekey ([e] @ xs) \<in> set (fst ?st)"
      by (rule mine_complete(1)) (use 2 nf es in \<open>auto simp: short_enough_def\<close>)
    then show ?thesis unfolding eq using mine_starts_grows [of ?st lc lm rest] es by auto
  qed
qed

lemma mine_bound:
  "\<not> full lm st \<Longrightarrow> real (length (snd (extendEpisode lc lm cur rest st))) < lm_candidates lm + 1"
  "real (length (snd st)) < lm_candidates lm + 1 \<Longrightarrow>
   real (length (snd (extend_with lc lm cur rest st))) < lm_candidates lm + 1"
proof (induction lc lm cur rest st and lc lm cur rest st rule: extendEpisode_extend_with.induct)
  case (1 lc lm cur rest st)
  have "length (snd (addEpisode lc cur st)) \<le> Suc (length (snd st))"
    by (simp add: addEpisode_def Let_def)
  then have "real (length (snd (addEpisode lc cur st))) < lm_candidates lm + 1"
    using 1(2) by (simp add: full_def)
  then show ?case using 1(1) by (simp add: extendEpisode.simps Let_def)
next
  case (2 lc lm cur st)
  then show ?case by (simp add: extend_with.simps)
next
  case (3 lc lm cur e rest st)
  then show ?case by (simp add: extend_with.simps)
qed

lemma mine_starts_bound:
  "\<not> full lm st \<Longrightarrow> real (length (snd (mine_starts lc lm evs st))) < lm_candidates lm + 1"
proof (induction lc lm evs st rule: mine_starts.induct)
  case (1 lc lm st)
  then show ?case by (simp add: full_def)
next
  case (2 lc lm e rest st)
  then show ?case using mine_bound(1) [of lm st lc "[e]" rest] by (simp add: Let_def)
qed

lemma minable_sorted: "timed evs \<Longrightarrow> sorted_wrt (\<lambda>a b. ts a \<le> ts b) (minable lc evs)"
  unfolding minable_def by (rule sorted_wrt_filter) (rule sorted_sortTemporal)

lemma minable_timed: "timed evs \<Longrightarrow> timed (minable lc evs)"
  by (rule timed_subset [of evs]) (auto simp: minable_def)

lemma mined_result:
  assumes "mineOrderedTemporalEpisodes lc evs opts = Inr eps"
  shows "0 < mo_max_steps opts" "0 < lm_candidates (mining_limits opts)"
    "eps = snd (mine_starts lc (mining_limits opts) (minable lc evs) ([], []))"
  using assms
  by (auto simp: mineOrderedTemporalEpisodes_def assertMiningOptions_def mining_limits_def
      non_positive_def split: sum.splits if_splits option.splits)

lemma mined_sound:
  "mineOrderedTemporalEpisodes lc evs opts = Inr eps \<Longrightarrow> ep \<in> set eps \<Longrightarrow>
   \<exists>es. episode_of (mining_limits opts) (minable lc evs) es \<and> short_enough (mining_limits opts) es \<and>
     ep = mk_episode lc es"
  using mine_starts_sound [of ep lc "mining_limits opts" "minable lc evs" "([], [])"] mined_result(3)
  by force

lemma mined_complete:
  assumes "mineOrderedTemporalEpisodes lc evs opts = Inr eps" "timed evs"
    "real (length eps) < lm_candidates (mining_limits opts)"
    "episode_of (mining_limits opts) (minable lc evs) es" "short_enough (mining_limits opts) es"
  shows "ekey es \<in> set (map me_key eps)"
proof -
  let ?st = "mine_starts lc (mining_limits opts) (minable lc evs) ([], [])"
  have eps: "eps = snd ?st" by (rule mined_result(3) [OF assms(1)])
  have "ekey es \<in> set (fst ?st)"
    by (rule mine_starts_complete)
      (use assms eps in \<open>auto simp: full_def minable_sorted minable_timed\<close>)
  then show ?thesis using mine_starts_ok [of "([], [])" lc "mining_limits opts" "minable lc evs"]
    by (simp add: mine_ok_def eps)
qed

section \<open>Matching\<close>

lemma match_rest_sound:
  "match_rest lm first prev sigs evs \<Longrightarrow>
   \<exists>es. subseq es evs \<and> chained lm first prev es \<and> map preEventSignature es = sigs"
proof (induction lm first prev sigs evs rule: match_rest.induct)
  case (1 lm first prev evs)
  show ?case by (rule exI [of _ "[]"]) simp
next
  case (2 lm first prev s ss)
  then show ?case by simp
next
  case (3 lm first prev s ss e evs)
  then have in_limits: "\<not> beyond_span lm first e" "\<not> beyond_gap lm prev e" by (auto split: if_splits)
  show ?case
  proof (cases "preEventSignature e = s")
    case True
    then obtain es where "subseq es evs" "chained lm first e es" "map preEventSignature es = ss"
      using 3 in_limits by auto
    then show ?thesis using in_limits True by (intro exI [of _ "e # es"]) simp
  next
    case False
    then show ?thesis using 3 in_limits by (auto intro: list_emb_Cons)
  qed
qed

lemma match_starts_sound:
  "match_starts lm sigs evs \<Longrightarrow> sigs \<noteq> [] \<Longrightarrow>
   \<exists>es. episode_of lm evs es \<and> map preEventSignature es = sigs"
proof (induction lm sigs evs rule: match_starts.induct)
  case (2 lm sigs e evs)
  show ?case
  proof (cases "preEventSignature e = hd sigs \<and> match_rest lm e e (tl sigs) evs")
    case True
    then obtain es where "subseq es evs" "chained lm e e es" "map preEventSignature es = tl sigs"
      using match_rest_sound by blast
    then show ?thesis using True 2(4) episode_of_Cons by (intro exI [of _ "e # es"]) auto
  next
    case False
    then have "match_starts lm sigs evs" using 2(3) by (auto split: if_splits)
    then obtain es where "episode_of lm evs es" "map preEventSignature es = sigs"
      using 2(1,2,4) by (cases "preEventSignature e = hd sigs") auto
    then show ?thesis using episode_of_later by blast
  qed
qed simp

text \<open>Taking the first match is never wrong as long as only the span is limited.\<close>

lemma match_rest_complete:
  assumes "lm_gap lm = PosInf" "subseq es evs" "chained lm first p es" "map preEventSignature es = sigs"
    "timed (first # prev # evs)" "sorted_wrt (\<lambda>a b. ts a \<le> ts b) evs"
  shows "match_rest lm first prev sigs evs"
  using assms
proof (induction lm first prev sigs evs arbitrary: es p rule: match_rest.induct)
  case (3 lm first prev s ss e evs)
  obtain x xs where es: "es = x # xs" using 3(6) by (cases es) auto
  have no_gap: "\<not> beyond_gap lm a b" for a b using 3(3) by (simp add: beyond_gap_def)
  have x: "\<not> beyond_span lm first x" "chained lm first x xs" "preEventSignature x = s"
    "map preEventSignature xs = ss" using 3(5,6) es by auto
  have mem: "x \<in> set (e # evs)" using list_emb_set [OF 3(4), of x] es by auto
  have fin: "te_timestamp e = Fin (ts e)" "te_timestamp x = Fin (ts x)" "te_timestamp first = Fin (ts first)"
    using 3(7) mem by (auto simp: timed_def list_all_iff intro: timed_Fin)
  have "ts e \<le> ts x" using 3(8) mem by auto
  then have sp: "\<not> beyond_span lm first e" using beyond_mono(1) [OF fin] x(1) by blast
  show ?case
  proof (cases "preEventSignature e = s")
    case True
    have "subseq xs evs" using 3(4) es by (auto split: if_splits dest: subseq_Cons')
    then have "match_rest lm first e ss evs"
      using 3(2) [OF sp no_gap _ _ _ x(2,4)] True 3(3,7,8) by simp
    then show ?thesis using True sp no_gap by simp
  next
    case False
    then have "subseq es evs" using 3(4) es x(3) by (auto split: if_splits)
    then have "match_rest lm first prev (s # ss) evs"
      using 3(1) [OF sp no_gap _ _ _ 3(5,6)] False 3(3,7,8) by simp
    then show ?thesis using False sp no_gap by simp
  qed
qed auto

lemma match_starts_complete:
  assumes "lm_gap lm = PosInf" "episode_of lm evs es" "map preEventSignature es = sigs"
    "timed evs" "sorted_wrt (\<lambda>a b. ts a \<le> ts b) evs"
  shows "match_starts lm sigs evs"
  using assms
proof (induction lm sigs evs rule: match_starts.induct)
  case (1 lm sigs)
  then show ?case by (cases es) (auto simp: episode_of_def)
next
  case (2 lm sigs e evs)
  show ?case
  proof (cases "subseq es evs")
    case True
    then show ?thesis using 2 by (auto simp: episode_of_def)
  next
    case False
    then obtain xs where es: "es = e # xs" "subseq xs evs" "chained lm e e xs"
      using 2(4) by (cases es) (auto simp: episode_of_def split: if_splits)
    then have "match_rest lm e e (tl sigs) evs"
      by (intro match_rest_complete) (use 2 in auto)
    then show ?thesis using 2(5) es by auto
  qed
qed

section \<open>Properties\<close>

text \<open>C31: Mining a window yields each signature sequence once, at most one more than the candidate
  limit, and only sequences of real episodes: events of the window in order, none a terminal one,
  within the span of the first event and the gap of the previous one, and not longer than
  \<open>max_steps\<close> unless it is a single event. If fewer than the limit are returned, none is missing.\<close>

theorem mining_is_exact:
  assumes "mineOrderedTemporalEpisodes lc evs opts = Inr eps" and "timed evs"
  shows "distinct (map me_key eps) \<and>
     real (length eps) < lm_candidates (mining_limits opts) + 1 \<and>
     (\<forall>ep \<in> set eps. \<exists>es. episode_of (mining_limits opts) (minable lc evs) es \<and>
        short_enough (mining_limits opts) es \<and> ep = mk_episode lc es) \<and>
     (real (length eps) < lm_candidates (mining_limits opts) \<longrightarrow>
        (\<forall>es. episode_of (mining_limits opts) (minable lc evs) es \<and> short_enough (mining_limits opts) es \<longrightarrow>
           sequence_key (map preEventSignature es) \<in> set (map me_key eps)))"
proof -
  let ?st = "mine_starts lc (mining_limits opts) (minable lc evs) ([], [])"
  have eps: "eps = snd ?st" by (rule mined_result(3) [OF assms(1)])
  have "mine_ok ?st" by (rule mine_starts_ok) (simp add: mine_ok_def)
  then have "distinct (map me_key eps)" by (simp add: eps mine_ok_def)
  moreover have "real (length eps) < lm_candidates (mining_limits opts) + 1"
    unfolding eps by (rule mine_starts_bound) (use mined_result(2) [OF assms(1)] in \<open>simp add: full_def\<close>)
  moreover have "\<forall>ep \<in> set eps. \<exists>es. episode_of (mining_limits opts) (minable lc evs) es \<and>
      short_enough (mining_limits opts) es \<and> ep = mk_episode lc es"
    using mined_sound [OF assms(1)] by blast
  ultimately show ?thesis
    using mined_complete [OF assms] unfolding ekey_def by blast
qed

text \<open>Events of one type at a given time.\<close>

definition event_at :: "string \<Rightarrow> string \<Rightarrow> real \<Rightarrow> temporal_event" where
  "event_at ident ty t =
     \<lparr>te_id = ident, te_type = ty, te_source = ''sim'', te_fish_index = None, te_turn_index = None,
      te_order_index = None, te_timestamp = Fin t, te_action_kind = None, te_review_outcome = None,
      te_terminal_status = None, te_seeded_by = None, te_domain = Simulation, te_quality = None,
      te_source_table = ''turns'', te_source_pk = ident, te_metadata = None\<rparr>"

definition gap_options :: "real \<Rightarrow> mining_options" where
  "gap_options g = \<lparr>mo_max_steps = 3, mo_max_span_ms = None, mo_max_gap_ms = Some g, mo_max_candidates = None\<rparr>"

theorem mining_is_exact_witness:
  "\<exists>eps. mineOrderedTemporalEpisodes (\<lambda>a b. Fin 0) [event_at ''1'' ''a'' 0, event_at ''2'' ''b'' 4] (gap_options 5) = Inr eps \<and>
     length eps = 3 \<and> distinct (map me_key eps)"
proof -
  let ?evs = "[event_at ''1'' ''a'' 0, event_at ''2'' ''b'' 4]"
  have run: "(case mineOrderedTemporalEpisodes (\<lambda>a b. Fin 0) ?evs (gap_options 5) of
      Inr eps \<Rightarrow> length eps = 3 | Inl _ \<Rightarrow> False)"
    by code_simp
  then obtain eps where eps: "mineOrderedTemporalEpisodes (\<lambda>a b. Fin 0) ?evs (gap_options 5) = Inr eps" "length eps = 3"
    by (auto split: sum.splits)
  have "timed ?evs" by (simp add: event_at_def js_finite_def)
  from mining_is_exact [OF eps(1) this] eps show ?thesis by blast
qed

text \<open>A sequence that \<open>containsOrderedEpisode\<close> reports does occur in the events within the
  limits. Without a gap limit the converse holds too, so that matching from left to right with the
  first suitable event decides exactly whether the sequence occurs.\<close>

theorem ordered_episode_matching_exact:
  "(containsOrderedEpisode lc evs sigs opts \<longrightarrow>
      (\<exists>es. episode_of (match_limits opts) (minable lc evs) es \<and> map preEventSignature es = sigs)) \<and>
   (mt_max_gap_ms opts = None \<and> timed evs \<longrightarrow>
      containsOrderedEpisode lc evs sigs opts =
      (\<exists>es. episode_of (match_limits opts) (minable lc evs) es \<and> map preEventSignature es = sigs))"
proof -
  let ?P = "\<exists>es. episode_of (match_limits opts) (minable lc evs) es \<and> map preEventSignature es = sigs"
  have sound: "containsOrderedEpisode lc evs sigs opts \<longrightarrow> ?P"
    using match_starts_sound by (auto simp: containsOrderedEpisode_def split: if_splits)
  have complete: "containsOrderedEpisode lc evs sigs opts"
    if gap: "mt_max_gap_ms opts = None" and t: "timed evs"
      and es: "episode_of (match_limits opts) (minable lc evs) es" "map preEventSignature es = sigs" for es
  proof -
    have "lm_gap (match_limits opts) = PosInf" by (simp add: match_limits_def limit_or_inf_def gap)
    from match_starts_complete [OF this es minable_timed [OF t] minable_sorted [OF t]]
    show ?thesis using es by (auto simp: containsOrderedEpisode_def episode_of_def)
  qed
  show ?thesis using sound complete by blast
qed

theorem ordered_episode_matching_exact_witness:
  "containsOrderedEpisode (\<lambda>a b. Fin 0) [event_at ''1'' ''a'' 0, event_at ''2'' ''b'' 4]
     [preEventSignature (event_at ''1'' ''a'' 0)] \<lparr>mt_max_span_ms = Some 9, mt_max_gap_ms = None\<rparr>"
proof -
  let ?a = "event_at ''1'' ''a'' 0" and ?b = "event_at ''2'' ''b'' 4"
  let ?opts = "\<lparr>mt_max_span_ms = Some (9::real), mt_max_gap_ms = None\<rparr>"
  have m: "minable (\<lambda>a b. Fin 0) [?a, ?b] = [?a, ?b]"
    by (simp add: minable_def sortTemporalEventsStable_def event_order_def event_at_def js_or_def js_truthy_def)
  have "episode_of (match_limits ?opts) (minable (\<lambda>a b. Fin 0) [?a, ?b]) [?a]"
    by (simp add: m episode_of_def)
  moreover have "timed [?a, ?b]" by (simp add: event_at_def js_finite_def)
  ultimately show ?thesis
    using ordered_episode_matching_exact [of "\<lambda>a b. Fin 0" "[?a, ?b]" "[preEventSignature ?a]" ?opts]
    by force
qed

text \<open>An \<open>a\<close>, two \<open>b\<close>s and a \<open>c\<close>; with a gap limit of 6 only the second \<open>b\<close> leads to the \<open>c\<close>.\<close>

definition two_b_window :: "temporal_event list" where
  "two_b_window =
     [event_at ''1'' ''a'' 0, event_at ''2'' ''b'' 1, event_at ''3'' ''b'' 5, event_at ''4'' ''c'' 10]"

definition abc :: "string list" where
  "abc = map preEventSignature [event_at ''1'' ''a'' 0, event_at ''3'' ''b'' 5, event_at ''4'' ''c'' 10]"

text \<open>With a gap limit the two sides of the evidence disagree: the miner finds \<open>a b c\<close> in this
  window, which counts as support for a target outcome, but \<open>containsOrderedEpisode\<close> denies, under
  the same limits, that the same window contains it, so the window never counts against. The
  matcher commits to the first \<open>b\<close> and gives up at the gap after it.\<close>

theorem gap_limit_hides_counterevidence:
  "(\<exists>eps ep. mineOrderedTemporalEpisodes (\<lambda>a b. Fin 0) two_b_window (gap_options 6) = Inr eps \<and>
      ep \<in> set eps \<and> me_sequence ep = abc) \<and>
   \<not> containsOrderedEpisode (\<lambda>a b. Fin 0) two_b_window abc \<lparr>mt_max_span_ms = None, mt_max_gap_ms = Some 6\<rparr>"
proof
  have "(case mineOrderedTemporalEpisodes (\<lambda>a b. Fin 0) two_b_window (gap_options 6) of
      Inr eps \<Rightarrow> list_ex (\<lambda>ep. me_sequence ep = abc) eps | Inl _ \<Rightarrow> False)"
    by code_simp
  then show "\<exists>eps ep. mineOrderedTemporalEpisodes (\<lambda>a b. Fin 0) two_b_window (gap_options 6) = Inr eps \<and>
      ep \<in> set eps \<and> me_sequence ep = abc"
    by (auto split: sum.splits simp: list_ex_iff)
  show "\<not> containsOrderedEpisode (\<lambda>a b. Fin 0) two_b_window abc \<lparr>mt_max_span_ms = None, mt_max_gap_ms = Some 6\<rparr>"
    by code_simp
qed

end
