(* ===== verification/TemporalLearning.thy ===== *)
theory TemporalLearning
  imports TemporalMining
begin

text \<open>
  \<open>packages/temporal/src/stdp-like-scorer.ts\<close>: temporal patterns learned from the windows before
  the outcomes of interest, with negative evidence, scores and the final ranking; and the progress
  tracker of \<open>progress.ts\<close>.

  \<open>localeCompare\<close> and the SHA-256 digest of the pattern identity are the arguments \<open>ln_lc\<close> and
  \<open>ln_hash\<close>. Progress reports do not influence the result; the tracker is modelled by itself.
\<close>

section \<open>Data\<close>

record stdp_params =
  sp_window_ms :: real
  sp_decay_ms :: real
  sp_learning_rate :: real
  sp_activation_threshold :: real
  sp_min_support :: real
  sp_max_steps :: real
  sp_max_span_ms :: "real option"
  sp_max_gap_ms :: "real option"
  sp_max_candidates :: "real option"
  sp_version :: string

record pattern_identity =
  pi_version :: string
  pi_domain :: source_domain
  pi_terminal_status :: string
  pi_window_ms :: real
  pi_sequence :: "string list"

record learn_env =
  ln_lc :: "string \<Rightarrow> string \<Rightarrow> jsnum"
  ln_hash :: "pattern_identity \<Rightarrow> string"

datatype pattern_status = CandidatePattern | ReviewablePattern

record pattern_step =
  ps_index :: nat
  ps_signature :: string
  ps_avg_delta_ms :: int
  ps_support :: nat

record score_components =
  sc_temporal_weight :: real
  sc_support_factor :: real
  sc_lift_factor :: real
  sc_negative_penalty :: real
  sc_stability_factor :: real

record hypothesis =
  hy_hash :: string
  hy_version :: string
  hy_status :: pattern_status
  hy_domain :: source_domain
  hy_terminal_status :: string
  hy_window_ms :: real
  hy_score :: real
  hy_support :: nat
  hy_negative_support :: nat
  hy_baseline_rate :: real
  hy_pattern_rate :: real
  hy_lift :: real
  hy_best_component :: "(string \<times> real) option"
  hy_sequence_lift :: "real option"
  hy_lead_avg :: "int option"
  hy_lead_p50 :: "int option"
  hy_lead_p95 :: "int option"
  hy_quality :: order_quality
  hy_target_proxy :: bool
  hy_singleton_only :: bool
  hy_sources :: "string list"
  hy_examples :: "string list"
  hy_counterexamples :: "string list"
  hy_sequence :: "pattern_step list"
  hy_components :: score_components
  hy_hypothesis :: bool
  hy_decisionAuthority :: bool

record candidate =
  ca_sequence :: "string list"
  ca_windows :: "string list"
  ca_examples :: "string list"
  ca_weight :: real
  ca_deltas :: "real list"
  ca_leads :: "real list"
  ca_quality :: order_quality
  ca_proxy :: bool

record negative_support =
  ng_count :: nat
  ng_events :: "string list"

record component_evidence =
  ce_signature :: string
  ce_positive :: nat
  ce_negative :: nat
  ce_rate :: real

record learn_input =
  li_events :: "temporal_event list"
  li_params :: stdp_params
  li_domain :: "source_domain option"
  li_outcomes :: "string list option"

section \<open>Numbers\<close>

definition roundScore :: "real \<Rightarrow> real" where
  "roundScore x = fixed_number 6 x"

definition assertParams :: "stdp_params \<Rightarrow> unit throws" where
  "assertParams p =
     (if trim (sp_version p) = [] then Inl (mk_error ''pattern_version is required for deterministic THL scoring'')
      else if sp_window_ms p \<le> 0 then Inl (mk_error ''pattern_window_ms must be positive'')
      else if sp_decay_ms p \<le> 0 then Inl (mk_error ''pre_trace_decay_ms must be positive'')
      else if sp_learning_rate p \<le> 0 then Inl (mk_error ''learning_rate must be positive'')
      else if sp_min_support p \<le> 0 then Inl (mk_error ''min_support must be positive'')
      else if sp_max_steps p \<le> 0 then Inl (mk_error ''max_steps must be positive'')
      else if negative (sp_max_span_ms p) then Inl (mk_error ''max_span_ms must be non-negative'')
      else if negative (sp_max_gap_ms p) then Inl (mk_error ''max_gap_ms must be non-negative'')
      else if non_positive (sp_max_candidates p)
      then Inl (mk_error ''max_candidates_per_window must be positive'')
      else Inr ())"

definition sortedUnique :: "(string \<Rightarrow> string \<Rightarrow> jsnum) \<Rightarrow> string list \<Rightarrow> string list" where
  "sortedUnique lc xs = js_sort lc (jset_of xs)"

fun quality_rank :: "order_quality \<Rightarrow> nat" where
  "quality_rank RealTimeOrdered = 0"
| "quality_rank TurnOrdered = 1"
| "quality_rank SameTimestampOrdered = 2"
| "quality_rank SyntheticOrdered = 3"

definition mergeTemporalOrderQuality :: "order_quality \<Rightarrow> order_quality \<Rightarrow> order_quality" where
  "mergeTemporalOrderQuality l r = (if quality_rank r > quality_rank l then r else l)"

section \<open>Positive candidates\<close>

text \<open>\<open>deltaByStep[index] += delta\<close>; equal keys have equally many steps.\<close>

fun add_deltas :: "real list \<Rightarrow> real list \<Rightarrow> real list" where
  "add_deltas (d # ds) (x # xs) = (d + x) # add_deltas ds xs"
| "add_deltas ds [] = ds"
| "add_deltas [] (x # xs) = []"

definition new_candidate :: "mined_episode \<Rightarrow> candidate" where
  "new_candidate ep =
     \<lparr>ca_sequence = me_sequence ep, ca_windows = [], ca_examples = [], ca_weight = 0,
      ca_deltas = replicate (length (me_sequence ep)) 0, ca_leads = [], ca_quality = me_quality ep,
      ca_proxy = list_ex signatureContainsTargetProxy (me_sequence ep)\<rparr>"

text \<open>The events of a window have finite time stamps, so \<open>ts\<close> reads them.\<close>

definition support_candidate :: "stdp_params \<Rightarrow> outcome_window \<Rightarrow> mined_episode \<Rightarrow> candidate \<Rightarrow> candidate" where
  "support_candidate p w ep c =
     (let deltas = map (\<lambda>e. ts (ow_outcome w) - ts e) (me_events ep);
          weight = sum_list (map (\<lambda>d. exp (- d / sp_decay_ms p)) deltas)
      in c\<lparr>ca_windows := jset_add (te_id (ow_outcome w)) (ca_windows c),
           ca_examples := foldl (\<lambda>s e. jset_add (te_id e) s) (ca_examples c) (me_events ep),
           ca_weight := ca_weight c + weight / real (length (me_events ep)),
           ca_deltas := add_deltas (ca_deltas c) deltas,
           ca_leads := ca_leads c @ [ts (ow_outcome w) - ts (hd (me_events ep))],
           ca_quality := mergeTemporalOrderQuality (ca_quality c) (me_quality ep),
           ca_proxy := ca_proxy c \<or> list_ex signatureContainsTargetProxy (me_sequence ep)\<rparr>)"

definition add_mined ::
  "stdp_params \<Rightarrow> outcome_window \<Rightarrow> (string, candidate) jsmap \<Rightarrow> mined_episode \<Rightarrow> (string, candidate) jsmap" where
  "add_mined p w m ep =
     AList.update (me_key ep)
       (support_candidate p w ep (case map_of m (me_key ep) of Some c \<Rightarrow> c | None \<Rightarrow> new_candidate ep)) m"

definition window_span :: "stdp_params \<Rightarrow> real" where
  "window_span p = (case sp_max_span_ms p of Some s \<Rightarrow> s | None \<Rightarrow> sp_window_ms p)"

definition learn_mining_options :: "stdp_params \<Rightarrow> mining_options" where
  "learn_mining_options p =
     \<lparr>mo_max_steps = sp_max_steps p, mo_max_span_ms = Some (window_span p),
      mo_max_gap_ms = sp_max_gap_ms p, mo_max_candidates = sp_max_candidates p\<rparr>"

fun collectPositiveCandidates ::
  "(string \<Rightarrow> string \<Rightarrow> jsnum) \<Rightarrow> stdp_params \<Rightarrow> outcome_window list \<Rightarrow> (string, candidate) jsmap \<Rightarrow>
   (string, candidate) jsmap throws" where
  "collectPositiveCandidates lc p [] m = Inr m"
| "collectPositiveCandidates lc p (w # ws) m =
     (case mineOrderedTemporalEpisodes lc (sortTemporalEventsStable lc (ow_preEvents w)) (learn_mining_options p) of
        Inl err \<Rightarrow> Inl err
      | Inr eps \<Rightarrow> collectPositiveCandidates lc p ws (foldl (add_mined p w) m eps))"

section \<open>Negative evidence\<close>

definition buildOtherOutcomeWindows :: "temporal_event list \<Rightarrow> string \<Rightarrow> real \<Rightarrow> outcome_window list" where
  "buildOtherOutcomeWindows evs terminalStatus windowMs =
     map (\<lambda>outc. \<lparr>ow_outcome = outc,
                   ow_preEvents = filter (in_window (js_minus (te_timestamp outc) (Fin windowMs)) outc) evs\<rparr>)
       (filter (\<lambda>e. te_terminal_status e \<noteq> None \<and> te_terminal_status e \<noteq> Some terminalStatus) evs)"

definition learn_match_options :: "stdp_params \<Rightarrow> match_options" where
  "learn_match_options p = \<lparr>mt_max_span_ms = Some (window_span p), mt_max_gap_ms = sp_max_gap_ms p\<rparr>"

definition negative_of ::
  "(string \<Rightarrow> string \<Rightarrow> jsnum) \<Rightarrow> stdp_params \<Rightarrow> outcome_window list \<Rightarrow> candidate \<Rightarrow> negative_support" where
  "negative_of lc p ws c =
     (let hits = filter (\<lambda>w. containsOrderedEpisode lc (ow_preEvents w) (ca_sequence c) (learn_match_options p)) ws
      in \<lparr>ng_count = length hits, ng_events = jset_of (concat (map (\<lambda>w. map te_id (ow_preEvents w)) hits))\<rparr>)"

definition collectNegativeSupport ::
  "(string \<Rightarrow> string \<Rightarrow> jsnum) \<Rightarrow> stdp_params \<Rightarrow> outcome_window list \<Rightarrow> (string, candidate) jsmap \<Rightarrow>
   (string, negative_support) jsmap" where
  "collectNegativeSupport lc p ws m = map (\<lambda>(k, c). (k, negative_of lc p ws c)) m"

section \<open>Components\<close>

definition signaturesInWindow :: "temporal_event list \<Rightarrow> string list" where
  "signaturesInWindow evs = jset_of (map preEventSignature (filter (\<lambda>e. te_terminal_status e = None) evs))"

definition count_signature ::
  "(nat \<times> nat \<Rightarrow> nat \<times> nat) \<Rightarrow> (string, nat \<times> nat) jsmap \<Rightarrow> string \<Rightarrow> (string, nat \<times> nat) jsmap" where
  "count_signature bump m s =
     AList.update s (bump (case map_of m s of Some c \<Rightarrow> c | None \<Rightarrow> (0, 0))) m"

definition count_window ::
  "(nat \<times> nat \<Rightarrow> nat \<times> nat) \<Rightarrow> (string, nat \<times> nat) jsmap \<Rightarrow> outcome_window \<Rightarrow> (string, nat \<times> nat) jsmap" where
  "count_window bump m w = foldl (count_signature bump) m (signaturesInWindow (ow_preEvents w))"

definition collectComponentEvidence ::
  "outcome_window list \<Rightarrow> outcome_window list \<Rightarrow> (string, component_evidence) jsmap" where
  "collectComponentEvidence pos neg =
     (let counts = foldl (count_window (\<lambda>(p, n). (p, Suc n)))
                     (foldl (count_window (\<lambda>(p, n). (Suc p, n))) [] pos) neg
      in map (\<lambda>(s, p, n). (s, \<lparr>ce_signature = s, ce_positive = p, ce_negative = n,
                                  ce_rate = real p / max 1 (real (p + n))\<rparr>)) counts)"

definition component_order ::
  "(string \<Rightarrow> string \<Rightarrow> jsnum) \<Rightarrow> component_evidence \<Rightarrow> component_evidence \<Rightarrow> jsnum" where
  "component_order lc l r =
     (if ce_rate r \<noteq> ce_rate l then Fin (ce_rate r - ce_rate l)
      else if ce_positive r \<noteq> ce_positive l then Fin (real (ce_positive r) - real (ce_positive l))
      else lc (ce_signature l) (ce_signature r))"

definition bestComponentForSequence ::
  "(string \<Rightarrow> string \<Rightarrow> jsnum) \<Rightarrow> string list \<Rightarrow> (string, component_evidence) jsmap \<Rightarrow> component_evidence option" where
  "bestComponentForSequence lc sq evidence =
     (case js_sort (component_order lc) (List.map_filter (map_of evidence) sq) of
        [] \<Rightarrow> None
      | b # _ \<Rightarrow> Some b)"

section \<open>Scores\<close>

definition percentile :: "real list \<Rightarrow> real \<Rightarrow> real" where
  "percentile srt p =
     (if srt = [] then 0
      else srt ! nat (min (int (length srt) - 1) (max 0 \<lfloor>(real (length srt) - 1) * p\<rfloor>)))"

record lead_stats =
  lt_avg :: "int option"
  lt_p50 :: "int option"
  lt_p95 :: "int option"

definition leadTimeStats :: "real list \<Rightarrow> lead_stats" where
  "leadTimeStats values =
     (if values = [] then \<lparr>lt_avg = None, lt_p50 = None, lt_p95 = None\<rparr>
      else
        let srt = js_sort (\<lambda>l r. Fin (l - r)) values in
        \<lparr>lt_avg = Some (js_round (sum_list srt / real (length srt))),
         lt_p50 = Some (js_round (percentile srt (1 / 2))),
         lt_p95 = Some (js_round (percentile srt (95 / 100)))\<rparr>)"

definition scoreComponents :: "real \<Rightarrow> nat \<Rightarrow> nat \<Rightarrow> real \<Rightarrow> stdp_params \<Rightarrow> score_components" where
  "scoreComponents temporalWeight supportCount negativeCount lift p =
     \<lparr>sc_temporal_weight = roundScore (min 1 (temporalWeight * (1 + sp_learning_rate p))),
      sc_support_factor = roundScore (min 1 (real supportCount / sp_min_support p)),
      sc_lift_factor = roundScore (min 1 (ln (1 + max 0 lift) / ln (1 + 2))),
      sc_negative_penalty = roundScore (real supportCount / max 1 (real (supportCount + negativeCount))),
      sc_stability_factor = 1\<rparr>"

section \<open>Learning\<close>

record outcome_ctx =
  oc_params :: stdp_params
  oc_domain :: source_domain
  oc_terminal_status :: string
  oc_baseline :: real
  oc_negatives :: "(string, negative_support) jsmap"
  oc_components :: "(string, component_evidence) jsmap"

record evaluation =
  va_negative :: negative_support
  va_support :: nat
  va_rate :: real
  va_lift :: real
  va_components :: score_components
  va_score :: real

text \<open>Lines 153 to 181: the numbers of one candidate.\<close>

definition evaluate :: "outcome_ctx \<Rightarrow> candidate \<Rightarrow> evaluation" where
  "evaluate oc c =
     (let neg = (case map_of (oc_negatives oc) (sequence_key (ca_sequence c)) of
                   Some n \<Rightarrow> n | None \<Rightarrow> \<lparr>ng_count = 0, ng_events = []\<rparr>);
          support = length (ca_windows c);
          rate = real support / max 1 (real (support + ng_count neg));
          lift = rate / max (1 / 1000000) (oc_baseline oc);
          comps = scoreComponents (ca_weight c / real support) support (ng_count neg) lift (oc_params oc)
      in \<lparr>va_negative = neg, va_support = support, va_rate = rate, va_lift = lift, va_components = comps,
          va_score = roundScore (sc_temporal_weight comps * sc_support_factor comps * sc_lift_factor comps *
                       sc_negative_penalty comps * sc_stability_factor comps)\<rparr>)"

text \<open>Lines 194 to 241.\<close>

definition hypothesis_of :: "learn_env \<Rightarrow> outcome_ctx \<Rightarrow> candidate \<Rightarrow> evaluation \<Rightarrow> hypothesis" where
  "hypothesis_of env oc c v =
     (let best = bestComponentForSequence (ln_lc env) (ca_sequence c) (oc_components oc);
          lead = leadTimeStats (ca_leads c)
      in \<lparr>hy_hash = ln_hash env \<lparr>pi_version = sp_version (oc_params oc), pi_domain = oc_domain oc,
                      pi_terminal_status = oc_terminal_status oc, pi_window_ms = sp_window_ms (oc_params oc),
                      pi_sequence = ca_sequence c\<rparr>,
          hy_version = sp_version (oc_params oc),
          hy_status = (if length (ca_sequence c) = 1 then CandidatePattern else ReviewablePattern),
          hy_domain = oc_domain oc,
          hy_terminal_status = oc_terminal_status oc,
          hy_window_ms = sp_window_ms (oc_params oc),
          hy_score = va_score v,
          hy_support = va_support v,
          hy_negative_support = ng_count (va_negative v),
          hy_baseline_rate = roundScore (oc_baseline oc),
          hy_pattern_rate = roundScore (va_rate v),
          hy_lift = roundScore (va_lift v),
          hy_best_component = map_option (\<lambda>b. (ce_signature b, roundScore (ce_rate b))) best,
          hy_sequence_lift = map_option (\<lambda>b. roundScore (va_rate v - ce_rate b)) best,
          hy_lead_avg = lt_avg lead, hy_lead_p50 = lt_p50 lead, hy_lead_p95 = lt_p95 lead,
          hy_quality = ca_quality c,
          hy_target_proxy = ca_proxy c,
          hy_singleton_only = (length (ca_sequence c) = 1),
          hy_sources = sortedUnique (ln_lc env)
            (map (\<lambda>s. case js_split CHR ''|'' s of _ # src # _ \<Rightarrow> src | _ \<Rightarrow> ''unknown'') (ca_sequence c)),
          hy_examples = sortedUnique (ln_lc env) (ca_examples c),
          hy_counterexamples = sortedUnique (ln_lc env) (ng_events (va_negative v)),
          hy_sequence = map (\<lambda>(i, s). \<lparr>ps_index = i, ps_signature = s,
              ps_avg_delta_ms = js_round (ca_deltas c ! i / real (va_support v)), ps_support = va_support v\<rparr>)
            (enumerate 0 (ca_sequence c)),
          hy_components = va_components v,
          hy_hypothesis = True,
          hy_decisionAuthority = False\<rparr>)"

text \<open>Lines 183 to 192: the \<open>continue\<close> below the thresholds is \<open>None\<close>.\<close>

definition materialize :: "learn_env \<Rightarrow> outcome_ctx \<Rightarrow> candidate \<Rightarrow> hypothesis option" where
  "materialize env oc c =
     (let v = evaluate oc c in
      if real (va_support v) < sp_min_support (oc_params oc) \<or>
         va_score v < sp_activation_threshold (oc_params oc) then None
      else Some (hypothesis_of env oc c v))"

definition learnForOutcome ::
  "learn_env \<Rightarrow> temporal_event list \<Rightarrow> stdp_params \<Rightarrow> source_domain \<Rightarrow> string \<Rightarrow> hypothesis list throws" where
  "learnForOutcome env evs p domain terminalStatus =
     (let windows = buildOutcomeWindows (ln_lc env) evs terminalStatus (sp_window_ms p);
          comparable = length (filter (\<lambda>e. te_terminal_status e \<noteq> None) evs)
      in if windows = [] \<or> comparable = 0 then Inr []
         else
           (case collectPositiveCandidates (ln_lc env) p windows [] of
              Inl err \<Rightarrow> Inl err
            | Inr candidates \<Rightarrow>
                let others = buildOtherOutcomeWindows evs terminalStatus (sp_window_ms p);
                    oc = \<lparr>oc_params = p, oc_domain = domain, oc_terminal_status = terminalStatus,
                          oc_baseline = real (length windows) / real comparable,
                          oc_negatives = collectNegativeSupport (ln_lc env) p others candidates,
                          oc_components = collectComponentEvidence windows others\<rparr>
                in Inr (List.map_filter (materialize env oc) (map snd candidates))))"

definition falsy_string :: "string option \<Rightarrow> bool" where
  "falsy_string x = (x = None \<or> x = Some [])"

definition learningEventsForDomain :: "temporal_event list \<Rightarrow> source_domain \<Rightarrow> temporal_event list" where
  "learningEventsForDomain evs d =
     filter (\<lambda>e. if d = Production then te_domain e = Production \<and> falsy_string (te_seeded_by e)
                  else te_domain e = d) evs"

fun domain_name :: "source_domain \<Rightarrow> string" where
  "domain_name Production = ''production''"
| "domain_name Simulation = ''simulation''"
| "domain_name SimulationSeeded = ''simulation_seeded''"
| "domain_name MixedDomain = ''mixed''"

definition uniqueDomains :: "(string \<Rightarrow> string \<Rightarrow> jsnum) \<Rightarrow> temporal_event list \<Rightarrow> source_domain list" where
  "uniqueDomains lc evs = js_sort (\<lambda>l r. lc (domain_name l) (domain_name r)) (jset_of (map te_domain evs))"

definition default_target_outcomes :: "string list" where
  "default_target_outcomes =
     [''reject'', ''timeout'', ''anomaly'', ''promotion'', ''drift'', ''resolved'', ''pc_low'', ''pc_high'']"

fun learn_outcomes ::
  "learn_env \<Rightarrow> temporal_event list \<Rightarrow> stdp_params \<Rightarrow> source_domain \<Rightarrow> string list \<Rightarrow> hypothesis list throws" where
  "learn_outcomes env evs p d [] = Inr []"
| "learn_outcomes env evs p d (t # tss) =
     (case learnForOutcome env evs p d t of
        Inl err \<Rightarrow> Inl err
      | Inr hs \<Rightarrow> map_sum id (append hs) (learn_outcomes env evs p d tss))"

fun learn_domains ::
  "learn_env \<Rightarrow> temporal_event list \<Rightarrow> stdp_params \<Rightarrow> string list \<Rightarrow> source_domain list \<Rightarrow> hypothesis list throws" where
  "learn_domains env evs p outcomes [] = Inr []"
| "learn_domains env evs p outcomes (d # ds) =
     (case learn_outcomes env (learningEventsForDomain evs d) p d outcomes of
        Inl err \<Rightarrow> Inl err
      | Inr hs \<Rightarrow> map_sum id (append hs) (learn_domains env evs p outcomes ds))"

definition hypothesis_order :: "(string \<Rightarrow> string \<Rightarrow> jsnum) \<Rightarrow> hypothesis \<Rightarrow> hypothesis \<Rightarrow> jsnum" where
  "hypothesis_order lc l r = js_or (Fin (hy_score r - hy_score l)) (lc (hy_hash l) (hy_hash r))"

definition learnTemporalPatterns :: "learn_env \<Rightarrow> learn_input \<Rightarrow> hypothesis list throws" where
  "learnTemporalPatterns env inp =
     (case assertParams (li_params inp) of
        Inl err \<Rightarrow> Inl err
      | Inr _ \<Rightarrow>
          let domains = (case li_domain inp of
                           Some d \<Rightarrow> [d]
                         | None \<Rightarrow> filter (\<lambda>d. d \<noteq> MixedDomain) (uniqueDomains (ln_lc env) (li_events inp)));
              outcomes = (case li_outcomes inp of Some os \<Rightarrow> os | None \<Rightarrow> default_target_outcomes)
          in map_sum id (js_sort (hypothesis_order (ln_lc env)))
               (learn_domains env (li_events inp) (li_params inp) outcomes domains))"

section \<open>Progress\<close>

datatype progress_status = PStarted | PProgress | PCompleted

record progress_event =
  pg_status :: progress_status
  pg_completed :: real
  pg_total :: "real option"
  pg_elapsed_ms :: real
  pg_eta_ms :: "int option"
  pg_rate_per_sec :: "real option"

record tracker =
  tk_total :: "real option"
  tk_min_interval :: real
  tk_started_at :: real
  tk_last_reported :: jsnum
  tk_completed :: real
  tk_reports :: "(real \<times> progress_event) list"

definition estimateTemporalEtaMs :: "real \<Rightarrow> real option \<Rightarrow> real \<Rightarrow> int option" where
  "estimateTemporalEtaMs completed tot elapsed =
     (case tot of
        None \<Rightarrow> None
      | Some t \<Rightarrow>
          if completed \<le> 0 \<or> t \<le> completed then None
          else Some (max 0 (js_round (elapsed / completed * (t - completed)))))"

definition ratePerSec :: "real \<Rightarrow> real \<Rightarrow> real option" where
  "ratePerSec completed elapsed =
     (if completed \<le> 0 \<or> elapsed \<le> 0 then None else Some (fixed_number 3 (completed / (elapsed / 1000))))"

text \<open>\<open>emit\<close> reads the clock itself; the reports are kept with that reading.\<close>

definition emit :: "progress_status \<Rightarrow> real \<Rightarrow> real \<Rightarrow> tracker \<Rightarrow> tracker" where
  "emit status completed now tk =
     (let elapsed = max 0 (now - tk_started_at tk);
          ev = \<lparr>pg_status = status, pg_completed = completed, pg_total = tk_total tk, pg_elapsed_ms = elapsed,
                 pg_eta_ms = estimateTemporalEtaMs completed (tk_total tk) elapsed,
                 pg_rate_per_sec = ratePerSec completed elapsed\<rparr>
      in tk\<lparr>tk_reports := tk_reports tk @ [(now, ev)], tk_last_reported := Fin now\<rparr>)"

definition startTemporalProgressPhase :: "real option \<Rightarrow> real option \<Rightarrow> real \<Rightarrow> real \<Rightarrow> tracker" where
  "startTemporalProgressPhase tot interval now1 now2 =
     emit PStarted 0 now2
       \<lparr>tk_total = tot, tk_min_interval = (case interval of Some i \<Rightarrow> i | None \<Rightarrow> 5000), tk_started_at = now1,
        tk_last_reported = NegInf, tk_completed = 0, tk_reports = []\<rparr>"

definition tracker_finished :: "tracker \<Rightarrow> real \<Rightarrow> bool" where
  "tracker_finished tk completed = (case tk_total tk of Some t \<Rightarrow> t \<le> completed | None \<Rightarrow> False)"

definition tracker_progress :: "real \<Rightarrow> real \<Rightarrow> real \<Rightarrow> tracker \<Rightarrow> tracker" where
  "tracker_progress completed now1 now2 tk0 =
     (let tk = tk0\<lparr>tk_completed := completed\<rparr> in
      if \<not> tracker_finished tk completed \<and>
         js_lt (js_minus (Fin now1) (tk_last_reported tk)) (Fin (tk_min_interval tk))
      then tk else emit PProgress completed now2 tk)"

definition tracker_complete :: "real \<Rightarrow> tracker \<Rightarrow> tracker" where
  "tracker_complete now tk =
     emit PCompleted (case tk_total tk of Some t \<Rightarrow> t | None \<Rightarrow> tk_completed tk) now tk"

section \<open>Candidates\<close>

lemma set_update_distinct:
  "distinct (map fst m) \<Longrightarrow> set (AList.update k v m) = insert (k, v) {kv \<in> set m. fst kv \<noteq> k}"
  by (induction m) force+

definition mined_from :: "(string \<Rightarrow> string \<Rightarrow> jsnum) \<Rightarrow> stdp_params \<Rightarrow> outcome_window \<Rightarrow> mined_episode list" where
  "mined_from lc p w =
     (case mineOrderedTemporalEpisodes lc (sortTemporalEventsStable lc (ow_preEvents w)) (learn_mining_options p) of
        Inr eps \<Rightarrow> eps | Inl _ \<Rightarrow> [])"

text \<open>The outcomes whose window contains, according to the miner, the sequence with key \<open>k\<close>.\<close>

definition supporting :: "(string \<Rightarrow> string \<Rightarrow> jsnum) \<Rightarrow> stdp_params \<Rightarrow> outcome_window list \<Rightarrow> string \<Rightarrow> string set" where
  "supporting lc p ws k = {te_id (ow_outcome w) |w. w \<in> set ws \<and> k \<in> set (map me_key (mined_from lc p w))}"

definition cand_ok :: "stdp_params \<Rightarrow> string set \<Rightarrow> string set \<Rightarrow> string \<times> candidate \<Rightarrow> bool" where
  "cand_ok p ids sids kc =
     (case kc of (k, c) \<Rightarrow>
        k = sequence_key (ca_sequence c) \<and> ca_sequence c \<noteq> [] \<and>
        (length (ca_sequence c) = 1 \<or> int (length (ca_sequence c)) \<le> js_trunc (sp_max_steps p)) \<and>
        0 \<le> ca_weight c \<and> distinct (ca_windows c) \<and> set (ca_windows c) = sids \<and> sids \<noteq> {} \<and>
        set (ca_examples c) \<subseteq> ids)"

definition cands_ok :: "stdp_params \<Rightarrow> string set \<Rightarrow> (string \<Rightarrow> string set) \<Rightarrow> (string, candidate) jsmap \<Rightarrow> bool" where
  "cands_ok p ids R m =
     (distinct (map fst m) \<and> (\<forall>kc \<in> set m. cand_ok p ids (R (fst kc)) kc) \<and>
      (\<forall>k. k \<notin> fst ` set m \<longrightarrow> R k = {}))"

lemma examples_of_support:
  "set (foldl (\<lambda>s e. jset_add (te_id e) s) xs es) = set xs \<union> te_id ` set es"
  by (induction es arbitrary: xs) auto

lemma support_weight: "0 \<le> sum_list (map (\<lambda>d. exp (- d / r)) ds) / real n"
  by (intro divide_nonneg_nonneg sum_list_nonneg) auto

lemma assertParams_ok:
  assumes "assertParams p = Inr u"
  shows "0 < sp_window_ms p" "0 < sp_decay_ms p" "0 < sp_learning_rate p" "0 < sp_min_support p"
    "0 < sp_max_steps p" "\<not> negative (sp_max_span_ms p)" "\<not> negative (sp_max_gap_ms p)"
    "\<not> non_positive (sp_max_candidates p)"
  using assms by (auto simp: assertParams_def split: if_splits)

lemma mining_never_throws:
  assumes "assertParams p = Inr u"
  shows "mineOrderedTemporalEpisodes lc evs (learn_mining_options p) \<noteq> Inl err"
proof -
  have "\<not> negative (Some (window_span p))"
    using assertParams_ok [OF assms] by (auto simp: negative_def window_span_def split: option.splits)
  then have "assertMiningOptions (learn_mining_options p) = Inr ()"
    using assertParams_ok [OF assms] by (simp add: assertMiningOptions_def learn_mining_options_def)
  then show ?thesis by (simp add: mineOrderedTemporalEpisodes_def)
qed

lemma subseq_set: "subseq es xs \<Longrightarrow> set es \<subseteq> set xs"
proof
  fix x assume "subseq es xs" "x \<in> set es"
  from list_emb_set [OF this] show "x \<in> set xs" by auto
qed

lemma mined_from_props:
  assumes "ep \<in> set (mined_from lc p w)"
  shows "me_key ep = sequence_key (me_sequence ep)" "me_sequence ep \<noteq> []" "me_events ep \<noteq> []"
    "length (me_sequence ep) = 1 \<or> int (length (me_sequence ep)) \<le> js_trunc (sp_max_steps p)"
    "set (me_events ep) \<subseteq> set (ow_preEvents w)"
proof -
  obtain eps where "mineOrderedTemporalEpisodes lc (sortTemporalEventsStable lc (ow_preEvents w))
      (learn_mining_options p) = Inr eps" "ep \<in> set eps"
    using assms unfolding mined_from_def
    by (cases "mineOrderedTemporalEpisodes lc (sortTemporalEventsStable lc (ow_preEvents w)) (learn_mining_options p)") auto
  from mined_sound [OF this] obtain es where es:
    "episode_of (mining_limits (learn_mining_options p)) (minable lc (sortTemporalEventsStable lc (ow_preEvents w))) es"
    "short_enough (mining_limits (learn_mining_options p)) es" "ep = mk_episode lc es" by blast
  have "set es \<subseteq> set (ow_preEvents w)"
    using es(1) by (auto simp: episode_of_def minable_def dest!: subseq_set)
  then show "set (me_events ep) \<subseteq> set (ow_preEvents w)" using es(3) by (simp add: mk_episode_def)
  show "length (me_sequence ep) = 1 \<or> int (length (me_sequence ep)) \<le> js_trunc (sp_max_steps p)"
    using es(2,3) by (simp add: mk_episode_def short_enough_def mining_limits_def learn_mining_options_def)
  show "me_key ep = sequence_key (me_sequence ep)" "me_sequence ep \<noteq> []" "me_events ep \<noteq> []"
    using es by (auto simp: mk_episode_def episode_of_def)
qed

lemma add_mined_ok:
  assumes m: "cands_ok p ids R m" and ep: "ep \<in> set (mined_from lc p w)"
    and ids: "te_id ` set (ow_preEvents w) \<subseteq> ids"
  shows "cands_ok p ids (R(me_key ep := insert (te_id (ow_outcome w)) (R (me_key ep)))) (add_mined p w m ep)"
proof -
  let ?k = "me_key ep" and ?id = "te_id (ow_outcome w)"
  let ?c = "case map_of m ?k of Some c \<Rightarrow> c | None \<Rightarrow> new_candidate ep"
  note ep' = mined_from_props [OF ep]
  have old: "?k = sequence_key (ca_sequence ?c) \<and> ca_sequence ?c \<noteq> [] \<and>
      (length (ca_sequence ?c) = 1 \<or> int (length (ca_sequence ?c)) \<le> js_trunc (sp_max_steps p)) \<and>
      0 \<le> ca_weight ?c \<and> distinct (ca_windows ?c) \<and> set (ca_windows ?c) = R ?k \<and> set (ca_examples ?c) \<subseteq> ids"
  proof (cases "map_of m ?k")
    case None
    then have "R ?k = {}" using m by (simp add: cands_ok_def map_of_eq_None_iff)
    then show ?thesis using None ep' by (simp add: new_candidate_def)
  next
    case (Some c)
    then have "(?k, c) \<in> set m" by (rule map_of_SomeD)
    then have "cand_ok p ids (R ?k) (?k, c)" using m by (fastforce simp: cands_ok_def)
    then show ?thesis using Some by (auto simp: cand_ok_def)
  qed
  have "te_id ` set (me_events ep) \<subseteq> ids" using ep'(5) ids by auto
  moreover have "0 \<le> ca_weight ?c + sum_list (map (\<lambda>d. exp (- d / sp_decay_ms p))
      (map (\<lambda>e. ts (ow_outcome w) - ts e) (me_events ep))) / real (length (me_events ep))"
    by (intro add_nonneg_nonneg support_weight) (use old in simp)
  ultimately have new: "cand_ok p ids (insert ?id (R ?k)) (?k, support_candidate p w ep ?c)"
    using old by (simp add: cand_ok_def support_candidate_def Let_def examples_of_support)
  have "set (add_mined p w m ep) = insert (?k, support_candidate p w ep ?c) {kc \<in> set m. fst kc \<noteq> ?k}"
    using m unfolding add_mined_def cands_ok_def by (simp add: set_update_distinct)
  moreover have "distinct (map fst (add_mined p w m ep))"
    using m by (simp add: add_mined_def cands_ok_def distinct_update)
  moreover have "fst ` set (add_mined p w m ep) = insert ?k (fst ` set m)"
    by (simp add: add_mined_def)
  ultimately show ?thesis using m new unfolding cands_ok_def by fastforce
qed

lemma add_all_mined_ok:
  "cands_ok p ids R m \<Longrightarrow> set eps \<subseteq> set (mined_from lc p w) \<Longrightarrow> te_id ` set (ow_preEvents w) \<subseteq> ids \<Longrightarrow>
   cands_ok p ids (\<lambda>k. R k \<union> (if k \<in> set (map me_key eps) then {te_id (ow_outcome w)} else {}))
     (foldl (add_mined p w) m eps)"
proof (induction eps arbitrary: R m)
  case Nil
  then show ?case by simp
next
  case (Cons ep eps)
  let ?R = "R(me_key ep := insert (te_id (ow_outcome w)) (R (me_key ep)))"
  have "cands_ok p ids ?R (add_mined p w m ep)"
    by (rule add_mined_ok [OF Cons.prems(1) _ Cons.prems(3), where lc = lc]) (use Cons.prems(2) in simp)
  from Cons.IH [OF this] Cons.prems
  have "cands_ok p ids (\<lambda>k. ?R k \<union> (if k \<in> set (map me_key eps) then {te_id (ow_outcome w)} else {}))
      (foldl (add_mined p w) (add_mined p w m ep) eps)" by simp
  moreover have "(\<lambda>k. ?R k \<union> (if k \<in> set (map me_key eps) then {te_id (ow_outcome w)} else {})) =
      (\<lambda>k. R k \<union> (if k \<in> set (map me_key (ep # eps)) then {te_id (ow_outcome w)} else {}))"
    by (rule ext) auto
  ultimately show ?case by simp
qed

lemma supporting_Cons:
  "supporting lc p (w # ws) k =
     (if k \<in> set (map me_key (mined_from lc p w)) then {te_id (ow_outcome w)} else {}) \<union> supporting lc p ws k"
  by (auto simp: supporting_def)

lemma collect_ok:
  assumes "assertParams p = Inr u" "cands_ok p ids R m" "\<forall>w \<in> set ws. te_id ` set (ow_preEvents w) \<subseteq> ids"
  shows "\<exists>m'. collectPositiveCandidates lc p ws m = Inr m' \<and> cands_ok p ids (\<lambda>k. R k \<union> supporting lc p ws k) m'"
  using assms(2,3)
proof (induction ws arbitrary: R m)
  case Nil
  then show ?case by (simp add: supporting_def)
next
  case (Cons w ws)
  obtain eps where eps: "mineOrderedTemporalEpisodes lc (sortTemporalEventsStable lc (ow_preEvents w))
      (learn_mining_options p) = Inr eps"
    using mining_never_throws [OF assms(1)] by (meson sum.exhaust)
  then have mf: "mined_from lc p w = eps" by (simp add: mined_from_def)
  have "cands_ok p ids (\<lambda>k. R k \<union> (if k \<in> set (map me_key eps) then {te_id (ow_outcome w)} else {}))
      (foldl (add_mined p w) m eps)"
    using add_all_mined_ok [OF Cons.prems(1), of eps lc w] Cons.prems(2) mf by simp
  from Cons.IH [OF this] Cons.prems(2) show ?case
    by (simp add: eps supporting_Cons mf Un_assoc)
qed

section \<open>Bounds of the scores\<close>

lemma roundScore_bounds: "0 \<le> x \<Longrightarrow> x \<le> 1 \<Longrightarrow> 0 \<le> roundScore x \<and> roundScore x \<le> 1"
proof -
  assume x: "0 \<le> x" "x \<le> 1"
  have "\<lfloor>0::real\<rfloor> \<le> \<lfloor>x * 10 ^ 6 + 1 / 2\<rfloor>" "\<lfloor>x * 10 ^ 6 + 1 / 2\<rfloor> \<le> \<lfloor>1000000 + 1 / 2 :: real\<rfloor>"
    by (rule floor_mono; use x in simp)+
  then have "0 \<le> \<lfloor>x * 10 ^ 6 + 1 / 2\<rfloor>" "\<lfloor>x * 10 ^ 6 + 1 / 2\<rfloor> \<le> 1000000"
    by simp_all
  then have "0 \<le> real_of_int \<lfloor>x * 10 ^ 6 + 1 / 2\<rfloor>" "real_of_int \<lfloor>x * 10 ^ 6 + 1 / 2\<rfloor> \<le> 1000000"
    by linarith+
  then show ?thesis using x by (simp add: roundScore_def fixed_number_def)
qed

lemma rate_bounds: "0 \<le> real n / max 1 (real (n + k)) \<and> real n / max 1 (real (n + k)) \<le> 1"
proof -
  have "real n \<le> max 1 (real (n + k))" "0 < max 1 (real (n + k))" by auto
  then show ?thesis by (simp only: divide_le_eq_1_pos) simp
qed

lemma lift_factor_bounds: "0 \<le> min 1 (ln (1 + max 0 l) / ln (1 + 2)) \<and> min 1 (ln (1 + max 0 l) / ln (1 + 2)) \<le> (1::real)"
  by simp

lemma score_bounds:
  assumes "0 \<le> w" "0 < sp_learning_rate p" "0 < sp_min_support p" and s: "s = scoreComponents w n k l p"
  shows "0 \<le> sc_temporal_weight s * sc_support_factor s * sc_lift_factor s * sc_negative_penalty s * sc_stability_factor s"
    and "sc_temporal_weight s * sc_support_factor s * sc_lift_factor s * sc_negative_penalty s * sc_stability_factor s \<le> 1"
proof -
  have "0 \<le> min 1 (w * (1 + sp_learning_rate p))" "0 \<le> min 1 (real n / sp_min_support p)"
    using assms by auto
  then have b: "0 \<le> sc_temporal_weight s \<and> sc_temporal_weight s \<le> 1"
    "0 \<le> sc_support_factor s \<and> sc_support_factor s \<le> 1"
    "0 \<le> sc_lift_factor s \<and> sc_lift_factor s \<le> 1"
    "0 \<le> sc_negative_penalty s \<and> sc_negative_penalty s \<le> 1"
    "sc_stability_factor s = 1"
    using roundScore_bounds lift_factor_bounds [of l] rate_bounds [of n k]
    by (simp_all add: s scoreComponents_def)
  then show "0 \<le> sc_temporal_weight s * sc_support_factor s * sc_lift_factor s * sc_negative_penalty s * sc_stability_factor s"
    by simp
  from b show "sc_temporal_weight s * sc_support_factor s * sc_lift_factor s * sc_negative_penalty s * sc_stability_factor s \<le> 1"
    by (simp add: mult_le_one)
qed

section \<open>Hypotheses\<close>

definition domain_ids :: "temporal_event list \<Rightarrow> source_domain \<Rightarrow> string set" where
  "domain_ids evs d = te_id ` set (learningEventsForDomain evs d)"

text \<open>What the learner promises of a hypothesis, given the events of its domain.\<close>

definition windows_with :: "learn_env \<Rightarrow> stdp_params \<Rightarrow> string list \<Rightarrow> outcome_window list \<Rightarrow> nat" where
  "windows_with env p sigs ws =
     length (filter (\<lambda>w. containsOrderedEpisode (ln_lc env) (ow_preEvents w) sigs (learn_match_options p)) ws)"

definition sound_hypothesis :: "learn_env \<Rightarrow> stdp_params \<Rightarrow> temporal_event list \<Rightarrow> hypothesis \<Rightarrow> bool" where
  "sound_hypothesis env p evs h =
     (let sigs = map ps_signature (hy_sequence h);
          pos = buildOutcomeWindows (ln_lc env) evs (hy_terminal_status h) (sp_window_ms p);
          neg = buildOtherOutcomeWindows evs (hy_terminal_status h) (sp_window_ms p)
      in hy_support h = card (supporting (ln_lc env) p pos (sequence_key sigs)) \<and>
         hy_negative_support h = windows_with env p sigs neg \<and>
         hy_pattern_rate h = roundScore (real (hy_support h) / real (hy_support h + hy_negative_support h)) \<and>
         sp_min_support p \<le> real (hy_support h) \<and> 0 < hy_support h \<and>
         sp_activation_threshold p \<le> hy_score h \<and> 0 \<le> hy_score h \<and> hy_score h \<le> 1 \<and>
         sigs \<noteq> [] \<and> (length sigs = 1 \<or> int (length sigs) \<le> js_trunc (sp_max_steps p)) \<and>
         (hy_status h = CandidatePattern \<longleftrightarrow> length sigs = 1) \<and>
         hy_hypothesis h \<and> \<not> hy_decisionAuthority h \<and>
         set (hy_examples h) \<union> set (hy_counterexamples h) \<subseteq> te_id ` set evs)"

lemma map_signature_enumerate:
  "map ps_signature (map (\<lambda>(i, s). \<lparr>ps_index = i, ps_signature = s, ps_avg_delta_ms = f i, ps_support = n\<rparr>)
     (enumerate j xs)) = xs"
  by (induction xs arbitrary: j) auto

lemma map_of_negatives:
  "map_of (collectNegativeSupport lc p ws m) k = map_option (negative_of lc p ws) (map_of m k)"
  by (induction m) (auto simp: collectNegativeSupport_def)

lemma negative_events_subset:
  "\<forall>w \<in> set ws. te_id ` set (ow_preEvents w) \<subseteq> ids \<Longrightarrow> set (ng_events (negative_of lc p ws c)) \<subseteq> ids"
  by (auto simp: negative_of_def Let_def) 

lemma set_sortedUnique [simp]: "set (sortedUnique lc xs) = set xs"
  by (simp add: sortedUnique_def)

lemma other_windows_subset:
  "w \<in> set (buildOtherOutcomeWindows evs t r) \<Longrightarrow> te_id ` set (ow_preEvents w) \<subseteq> te_id ` set evs"
  by (auto simp: buildOtherOutcomeWindows_def)

lemma outcome_windows_subset:
  "w \<in> set (buildOutcomeWindows lc evs t r) \<Longrightarrow> te_id ` set (ow_preEvents w) \<subseteq> te_id ` set evs"
  by (auto simp: buildOutcomeWindows_def Let_def validTemporalEvents_def)

lemma hypothesis_of_fields:
  "hy_support (hypothesis_of env oc c v) = va_support v"
  "hy_negative_support (hypothesis_of env oc c v) = ng_count (va_negative v)"
  "hy_score (hypothesis_of env oc c v) = va_score v"
  "hy_pattern_rate (hypothesis_of env oc c v) = roundScore (va_rate v)"
  "map ps_signature (hy_sequence (hypothesis_of env oc c v)) = ca_sequence c"
  "hy_domain (hypothesis_of env oc c v) = oc_domain oc"
  "hy_terminal_status (hypothesis_of env oc c v) = oc_terminal_status oc"
  "hy_hypothesis (hypothesis_of env oc c v)" "\<not> hy_decisionAuthority (hypothesis_of env oc c v)"
  "hy_status (hypothesis_of env oc c v) =
     (if length (ca_sequence c) = 1 then CandidatePattern else ReviewablePattern)"
  "set (hy_examples (hypothesis_of env oc c v)) = set (ca_examples c)"
  "set (hy_counterexamples (hypothesis_of env oc c v)) = set (ng_events (va_negative v))"
  unfolding hypothesis_of_def Let_def
  by (simp_all add: map_signature_enumerate del: map_map)

lemma evaluate_bounds:
  assumes "0 \<le> ca_weight c" "assertParams (oc_params oc) = Inr u"
  shows "0 \<le> va_score (evaluate oc c) \<and> va_score (evaluate oc c) \<le> 1"
  unfolding evaluate_def Let_def evaluation.simps
  by (intro roundScore_bounds score_bounds [OF _ _ _ refl])
    (use assms assertParams_ok [OF assms(2)] in auto)

lemma materialize_sound:
  assumes p: "assertParams p = Inr u" "oc_params oc = p"
    and m: "cands_ok p (te_id ` set evs)
        (supporting (ln_lc env) p (buildOutcomeWindows (ln_lc env) evs (oc_terminal_status oc) (sp_window_ms p))) m"
    and neg: "oc_negatives oc = collectNegativeSupport (ln_lc env) p
        (buildOtherOutcomeWindows evs (oc_terminal_status oc) (sp_window_ms p)) m"
    and c: "c \<in> set (map snd m)" and h: "materialize env oc c = Some h"
  shows "sound_hypothesis env p evs h \<and> hy_domain h = oc_domain oc \<and> hy_terminal_status h = oc_terminal_status oc"
proof -
  let ?lc = "ln_lc env"
  let ?pos = "buildOutcomeWindows ?lc evs (oc_terminal_status oc) (sp_window_ms p)"
  let ?others = "buildOtherOutcomeWindows evs (oc_terminal_status oc) (sp_window_ms p)"
  let ?v = "evaluate oc c"
  obtain k where kc: "(k, c) \<in> set m" using c by auto
  then have "cand_ok p (te_id ` set evs) (supporting ?lc p ?pos k) (k, c)"
    using m by (fastforce simp: cands_ok_def)
  then have key: "k = sequence_key (ca_sequence c)"
    and ok: "ca_sequence c \<noteq> []" "length (ca_sequence c) = 1 \<or> int (length (ca_sequence c)) \<le> js_trunc (sp_max_steps p)"
      "0 \<le> ca_weight c" "distinct (ca_windows c)" "set (ca_examples c) \<subseteq> te_id ` set evs"
    and wins: "set (ca_windows c) = supporting ?lc p ?pos (sequence_key (ca_sequence c))" "ca_windows c \<noteq> []"
    by (auto simp: cand_ok_def)
  have "map_of m k = Some c" using kc m by (simp add: cands_ok_def)
  then have "map_of (oc_negatives oc) (sequence_key (ca_sequence c)) = Some (negative_of ?lc p ?others c)"
    by (simp add: neg map_of_negatives key)
  then have v: "va_negative ?v = negative_of ?lc p ?others c" "va_support ?v = length (ca_windows c)"
    "va_rate ?v = real (va_support ?v) / max 1 (real (va_support ?v + ng_count (va_negative ?v)))"
    by (simp_all add: evaluate_def Let_def)
  have n: "va_support ?v = card (supporting ?lc p ?pos (sequence_key (ca_sequence c)))" "0 < va_support ?v"
    using v(2) wins distinct_card [OF ok(4)] by auto
  then have rate: "va_rate ?v = real (va_support ?v) / real (va_support ?v + ng_count (va_negative ?v))"
    unfolding v(3) by simp
  have ng: "ng_count (va_negative ?v) = windows_with env p (ca_sequence c) ?others"
    by (simp add: v(1) negative_of_def windows_with_def Let_def)
  have ids: "set (ng_events (va_negative ?v)) \<subseteq> te_id ` set evs"
    unfolding v(1) by (rule negative_events_subset) (use other_windows_subset in blast)
  have above: "sp_min_support p \<le> real (va_support ?v)" "sp_activation_threshold p \<le> va_score ?v"
    and hv: "h = hypothesis_of env oc c ?v"
    using h p(2) by (auto simp: materialize_def Let_def split: if_splits)
  have score: "0 \<le> va_score ?v" "va_score ?v \<le> 1"
    using evaluate_bounds [OF ok(3), of oc u] p by auto
  show ?thesis
    unfolding sound_hypothesis_def Let_def hv hypothesis_of_fields ng [symmetric] n(1) [symmetric] rate
    using ok n(2) ids above score hypothesis_of_fields(8,9) by auto
qed

lemma learnForOutcome_total:
  assumes "assertParams p = Inr u"
  shows "\<exists>hs. learnForOutcome env evs p d t = Inr hs \<and>
    (\<forall>h \<in> set hs. sound_hypothesis env p evs h \<and> hy_domain h = d \<and> hy_terminal_status h = t)"
proof -
  let ?lc = "ln_lc env"
  let ?ws = "buildOutcomeWindows ?lc evs t (sp_window_ms p)"
  have "cands_ok p (te_id ` set evs) (\<lambda>k. {}) []" by (simp add: cands_ok_def)
  then obtain m where m: "collectPositiveCandidates ?lc p ?ws [] = Inr m"
    "cands_ok p (te_id ` set evs) (supporting ?lc p ?ws) m"
    using collect_ok [OF assms, of "te_id ` set evs" "\<lambda>k. {}" "[]" ?ws ?lc] outcome_windows_subset
    by fastforce
  define oc where "oc = \<lparr>oc_params = p, oc_domain = d, oc_terminal_status = t,
    oc_baseline = real (length ?ws) / real (length (filter (\<lambda>e. te_terminal_status e \<noteq> None) evs)),
    oc_negatives = collectNegativeSupport ?lc p (buildOtherOutcomeWindows evs t (sp_window_ms p)) m,
    oc_components = collectComponentEvidence ?ws (buildOtherOutcomeWindows evs t (sp_window_ms p))\<rparr>"
  have sound: "sound_hypothesis env p evs h \<and> hy_domain h = d \<and> hy_terminal_status h = t"
    if "h \<in> set (List.map_filter (materialize env oc) (map snd m))" for h
    using that materialize_sound [of p u oc evs env m] assms m(2)
    by (auto simp: map_filter_mem oc_def)
  show ?thesis
    using sound by (simp add: learnForOutcome_def Let_def m(1) oc_def)
qed

lemma learn_outcomes_total:
  assumes "assertParams p = Inr u"
  shows "\<exists>hs. learn_outcomes env evs p d outcomes = Inr hs \<and>
    (\<forall>h \<in> set hs. sound_hypothesis env p evs h \<and> hy_domain h = d \<and> hy_terminal_status h \<in> set outcomes)"
proof (induction outcomes)
  case Nil
  then show ?case by simp
next
  case (Cons t outcomes)
  then show ?case using learnForOutcome_total [OF assms, of env evs d t] by fastforce
qed

lemma learn_domains_total:
  assumes "assertParams p = Inr u"
  shows "\<exists>hs. learn_domains env evs p outcomes ds = Inr hs \<and>
    (\<forall>h \<in> set hs. sound_hypothesis env p (learningEventsForDomain evs (hy_domain h)) h \<and>
       hy_domain h \<in> set ds \<and> hy_terminal_status h \<in> set outcomes)"
proof (induction ds)
  case Nil
  then show ?case by simp
next
  case (Cons d ds)
  then show ?case using learn_outcomes_total [OF assms, of env "learningEventsForDomain evs d" d outcomes]
    by fastforce
qed

lemma sorted_hypotheses: "sorted_wrt (\<lambda>a b. hy_score b \<le> hy_score a) (js_sort (hypothesis_order lc) hs)"
  by (rule sorted_js_sort) (auto simp: hypothesis_order_def js_or_def js_truthy_def split: if_splits)

lemma learn_total:
  assumes "assertParams (li_params inp) = Inr u"
  shows "\<exists>hs. learnTemporalPatterns env inp = Inr hs \<and> sorted_wrt (\<lambda>a b. hy_score b \<le> hy_score a) hs \<and>
    (\<forall>h \<in> set hs. sound_hypothesis env (li_params inp) (learningEventsForDomain (li_events inp) (hy_domain h)) h \<and>
       (case li_domain inp of Some d \<Rightarrow> hy_domain h = d | None \<Rightarrow> hy_domain h \<noteq> MixedDomain))"
proof -
  let ?ds = "case li_domain inp of Some d \<Rightarrow> [d]
    | None \<Rightarrow> filter (\<lambda>d. d \<noteq> MixedDomain) (uniqueDomains (ln_lc env) (li_events inp))"
  let ?os = "case li_outcomes inp of Some os \<Rightarrow> os | None \<Rightarrow> default_target_outcomes"
  obtain hs where hs: "learn_domains env (li_events inp) (li_params inp) ?os ?ds = Inr hs"
    "\<forall>h \<in> set hs. sound_hypothesis env (li_params inp) (learningEventsForDomain (li_events inp) (hy_domain h)) h \<and>
       hy_domain h \<in> set ?ds \<and> hy_terminal_status h \<in> set ?os"
    using learn_domains_total [OF assms] by blast
  have "learnTemporalPatterns env inp = Inr (js_sort (hypothesis_order (ln_lc env)) hs)"
    using assms hs(1) by (simp add: learnTemporalPatterns_def Let_def)
  then show ?thesis using hs(2) sorted_hypotheses by (fastforce split: option.splits)
qed

section \<open>Properties\<close>

text \<open>C14: Every learned hypothesis is backed by the evidence it reports: its support is the number of
  distinct outcomes whose window contains the sequence, its negative support the number of windows
  of other outcomes in which the matcher finds it, its rate the rounded quotient; both thresholds
  are met, the score lies in [0, 1], the sequence is no longer than \<open>max_steps\<close> unless it is a single
  step, it is marked as a hypothesis without decision authority, and its examples and
  counterexamples are events of the domain it was learned from.\<close>

theorem learned_hypotheses_are_backed:
  assumes "learnTemporalPatterns env inp = Inr hs" and "h \<in> set hs"
  shows "sound_hypothesis env (li_params inp) (learningEventsForDomain (li_events inp) (hy_domain h)) h \<and>
    sorted_wrt (\<lambda>a b. hy_score b \<le> hy_score a) hs"
proof -
  from assms(1) obtain u where "assertParams (li_params inp) = Inr u"
    by (auto simp: learnTemporalPatterns_def split: sum.splits)
  from learn_total [OF this, of env] assms show ?thesis by auto
qed

definition demo_params :: stdp_params where
  "demo_params =
     \<lparr>sp_window_ms = 10, sp_decay_ms = 5, sp_learning_rate = 1, sp_activation_threshold = 0, sp_min_support = 1,
      sp_max_steps = 1, sp_max_span_ms = None, sp_max_gap_ms = None, sp_max_candidates = None, sp_version = ''v1''\<rparr>"

definition demo_events :: "temporal_event list" where
  "demo_events =
     [event_at ''1'' ''a'' 0, (event_at ''2'' ''end'' 1)\<lparr>te_terminal_status := Some ''timeout''\<rparr>]"

definition demo_learn_env :: learn_env where
  "demo_learn_env = \<lparr>ln_lc = \<lambda>a b. Fin 0, ln_hash = pi_terminal_status\<rparr>"

definition demo_input :: learn_input where
  "demo_input =
     \<lparr>li_events = demo_events, li_params = demo_params, li_domain = Some Simulation, li_outcomes = Some [''timeout'']\<rparr>"

lemma demo_params_ok: "assertParams demo_params = Inr ()"
  by code_simp

lemma demo_windows:
  "buildOutcomeWindows (\<lambda>a b. Fin 0) demo_events ''timeout'' 10 =
     [\<lparr>ow_outcome = (event_at ''2'' ''end'' 1)\<lparr>te_terminal_status := Some ''timeout''\<rparr>,
       ow_preEvents = [event_at ''1'' ''a'' 0]\<rparr>]"
  by (simp add: buildOutcomeWindows_def demo_events_def event_at_def sortTemporalEventsStable_def event_order_def
      validTemporalEvents_def js_finite_def js_or_def js_truthy_def in_window_def)

lemma demo_mined:
  "mineOrderedTemporalEpisodes (\<lambda>a b. Fin 0) [event_at ''1'' ''a'' 0] (learn_mining_options demo_params) =
     Inr [mk_episode (\<lambda>a b. Fin 0) [event_at ''1'' ''a'' 0]]"
  by (simp add: mineOrderedTemporalEpisodes_def assertMiningOptions_def learn_mining_options_def demo_params_def
      negative_def non_positive_def window_span_def mining_limits_def js_trunc_def minable_def
      sortTemporalEventsStable_def event_at_def extendEpisode.simps addEpisode_def full_def Let_def)

lemma demo_hypotheses: "\<exists>h hs. learnTemporalPatterns demo_learn_env demo_input = Inr (h # hs)"
proof -
  let ?w = "\<lparr>ow_outcome = (event_at ''2'' ''end'' 1)\<lparr>te_terminal_status := Some ''timeout''\<rparr>,
       ow_preEvents = [event_at ''1'' ''a'' 0]\<rparr>"
  let ?ep = "mk_episode (\<lambda>a b. Fin 0) [event_at ''1'' ''a'' 0]"
  let ?c = "support_candidate demo_params ?w ?ep (new_candidate ?ep)"
  have dom: "learningEventsForDomain demo_events Simulation = demo_events"
    by (simp add: learningEventsForDomain_def demo_events_def event_at_def)
  have cands: "collectPositiveCandidates (\<lambda>a b. Fin 0) demo_params [?w] [] = Inr [(me_key ?ep, ?c)]"
    by (simp add: sortTemporalEventsStable_def demo_mined add_mined_def)
  have c: "0 \<le> ca_weight ?c" "length (ca_windows ?c) = 1"
    by (simp_all add: support_candidate_def new_candidate_def mk_episode_def Let_def jset_add_def)
  have some: "materialize demo_learn_env oc ?c \<noteq> None" if "oc_params oc = demo_params" for oc :: outcome_ctx
    using evaluate_bounds [OF c(1), of oc "()"] demo_params_ok that c(2)
    by (simp add: materialize_def Let_def) (simp add: evaluate_def Let_def demo_params_def)
  have env: "ln_lc demo_learn_env = (\<lambda>a b. Fin 0)" by (simp add: demo_learn_env_def)
  have w: "sp_window_ms demo_params = 10" by (simp add: demo_params_def)
  have n: "filter (\<lambda>e. te_terminal_status e \<noteq> None) demo_events \<noteq> []"
    by (simp add: demo_events_def event_at_def)
  have "\<exists>h. learnForOutcome demo_learn_env demo_events demo_params Simulation ''timeout'' = Inr [h]"
    unfolding learnForOutcome_def Let_def env w demo_windows cands
    using some n by (fastforce simp: map_filter_simps split: option.splits)
  then show ?thesis
    using demo_params_ok
    by (auto simp: learnTemporalPatterns_def demo_input_def dom)
qed

theorem learned_hypotheses_are_backed_witness:
  "\<exists>h hs. learnTemporalPatterns demo_learn_env demo_input = Inr (h # hs) \<and> hy_support h > 0 \<and>
     hy_score h \<le> 1 \<and> \<not> hy_decisionAuthority h"
proof -
  obtain h hs where run: "learnTemporalPatterns demo_learn_env demo_input = Inr (h # hs)"
    using demo_hypotheses by blast
  from learned_hypotheses_are_backed [OF run, of h] run show ?thesis
    by (auto simp: sound_hypothesis_def Let_def)
qed

text \<open>The learner throws exactly the errors of its parameter check; with accepted parameters it
  always returns, whatever the events are.\<close>

theorem learner_throws_only_on_parameters:
  "(learnTemporalPatterns env inp = Inl err) = (assertParams (li_params inp) = Inl err)"
proof (cases "assertParams (li_params inp)")
  case (Inl e)
  then show ?thesis by (simp add: learnTemporalPatterns_def)
next
  case (Inr u)
  from learn_total [OF this, of env] show ?thesis using Inr by auto
qed

text \<open>What is learned for production depends on nothing but the unseeded production events:
  removing every simulated event, and every production event seeded by an earlier pattern, from
  the input does not change the result.\<close>

theorem production_learning_ignores_simulation:
  assumes "li_domain inp = Some Production"
  shows "learnTemporalPatterns env inp =
    learnTemporalPatterns env
      (inp\<lparr>li_events := filter (\<lambda>e. te_domain e = Production \<and> falsy_string (te_seeded_by e)) (li_events inp)\<rparr>)"
proof -
  let ?evs = "filter (\<lambda>e. te_domain e = Production \<and> falsy_string (te_seeded_by e)) (li_events inp)"
  have "learningEventsForDomain ?evs Production = learningEventsForDomain (li_events inp) Production"
    by (simp add: learningEventsForDomain_def)
  then show ?thesis using assms
    by (cases "assertParams (li_params inp)") (simp_all add: learnTemporalPatterns_def split: sum.split)
qed

theorem production_learning_ignores_simulation_witness:
  "learnTemporalPatterns demo_learn_env (demo_input\<lparr>li_domain := Some Production\<rparr>) = Inr []"
proof -
  let ?inp = "demo_input\<lparr>li_domain := Some Production\<rparr>"
  have "learnTemporalPatterns demo_learn_env (?inp\<lparr>li_events := []\<rparr>) = Inr []"
    using demo_params_ok
    by (simp add: learnTemporalPatterns_def demo_input_def learningEventsForDomain_def learnForOutcome_def
        buildOutcomeWindows_def validTemporalEvents_def sortTemporalEventsStable_def)
  moreover have "filter (\<lambda>e. te_domain e = Production \<and> falsy_string (te_seeded_by e)) (li_events ?inp) = []"
    by (simp add: demo_input_def demo_events_def event_at_def)
  ultimately show ?thesis
    using production_learning_ignores_simulation [of ?inp demo_learn_env] by simp
qed

end
