(* ===== verification/SimStore.thy ===== *)
theory SimStore
  imports Runtime
begin

text \<open>
  The tables of the simulation (\<open>packages/db-schema/src/schema/sim.ts\<close>) and the repositories of
  \<open>apps/console-api/src/repositories/sim-*.repository.ts\<close> that read and write them, behind the
  service \<open>sim-runtime-store.service.ts\<close> the simulation kernel calls.

  A table is the list of its rows in insertion order; rows are never deleted. The model numbers the
  rows of a table 1, 2, and so on. A \<open>bigserial\<close> column also skips the numbers of inserts that failed; no
  property rests on the numbers being without gaps, only on their being distinct. Every statement is
  one atomic step; a violated key or reference throws and changes nothing. Where SQL leaves the order of equal rows open, the model keeps insertion order.
  The cosine distance of pgvector is the argument \<open>cosd\<close>.
\<close>

section \<open>Tables\<close>

datatype swarm_status = SwarmPending | SwarmRunning | SwarmDone | SwarmFailed

datatype run_status = RunPending | RunRunning | RunPaused | RunDone | RunFailed | RunTimeout

datatype actor_kind = AgentActor | GodActor | SystemActor

datatype memory_kind = SelfAction | Observation | Belief

text \<open>A turn action is a JSON object with a \<open>kind\<close>.\<close>

type_synonym turn_action = jval

fun field_of :: "jval \<Rightarrow> string \<Rightarrow> jval option" where
  "field_of (JObj fs) k = map_of fs k"
| "field_of _ k = None"

record swarm_config =
  wc_llmMode :: string
  wc_quorumPct :: "real option"
  wc_perFishTimeoutMs :: jsnum
  wc_fishConcurrency :: jsnum
  wc_nanoModel :: string
  wc_seed :: int
  wc_aggregates :: json_object

record sim_config =
  gc_turnsPerDay :: int
  gc_maxTurns :: int
  gc_llmMode :: string
  gc_seed :: int
  gc_nanoModel :: string
  gc_perFishTimeoutMs :: "jsnum option"

record swarm_row =
  sw_id :: int
  sw_kind :: string
  sw_title :: string
  sw_baseSeed :: json_object
  sw_perturbations :: "json_object list"
  sw_size :: int
  sw_config :: swarm_config
  sw_status :: swarm_status
  sw_reportFindingId :: "int option"
  sw_suggestionId :: "int option"
  sw_completedAt :: "int option"
  sw_createdBy :: "int option"

record run_row =
  rn_id :: int
  rn_swarm :: int
  rn_fish :: int
  rn_kind :: string
  rn_seed :: json_object
  rn_perturbation :: json_object
  rn_config :: sim_config
  rn_status :: run_status
  rn_completedAt :: "int option"

record agent_row =
  ag_id :: int
  ag_run :: int
  ag_operator :: "int option"
  ag_index :: int
  ag_persona :: string
  ag_goals :: "string list"
  ag_constraints :: json_object

record turn_row =
  tn_id :: int
  tn_run :: int
  tn_index :: int
  tn_actor :: actor_kind
  tn_agent :: "int option"
  tn_action :: turn_action
  tn_rationale :: string
  tn_summary :: string
  tn_createdAt :: int

record memory_row =
  mm_id :: int
  mm_run :: int
  mm_agent :: int
  mm_turn :: int
  mm_kind :: memory_kind
  mm_content :: string
  mm_embedding :: "real list option"

record sim_db =
  db_swarms :: "swarm_row list"
  db_runs :: "run_row list"
  db_agents :: "agent_row list"
  db_turns :: "turn_row list"
  db_memories :: "memory_row list"

definition next_id :: "'a list \<Rightarrow> int" where
  "next_id rows_of = int (length rows_of) + 1"

definition unique_violation :: exn where
  "unique_violation = mk_error ''duplicate key value violates unique constraint''"

definition reference_violation :: exn where
  "reference_violation = mk_error ''insert or update violates foreign key constraint''"

definition swarm_exists :: "sim_db \<Rightarrow> int \<Rightarrow> bool" where
  "swarm_exists db = (\<lambda>i. i \<in> set (map sw_id (db_swarms db)))"

definition run_exists :: "sim_db \<Rightarrow> int \<Rightarrow> bool" where
  "run_exists db = (\<lambda>i. i \<in> set (map rn_id (db_runs db)))"

definition agent_exists :: "sim_db \<Rightarrow> int \<Rightarrow> bool" where
  "agent_exists db = (\<lambda>i. i \<in> set (map ag_id (db_agents db)))"

text \<open>\<open>ORDER BY key DESC\<close>.\<close>

definition order_desc :: "('a \<Rightarrow> int) \<Rightarrow> 'a list \<Rightarrow> 'a list" where
  "order_desc key xs = sort_key (\<lambda>x. - key x) xs"

section \<open>Swarms\<close>

record swarm_write =
  xw_kind :: string
  xw_title :: string
  xw_baseSeed :: json_object
  xw_perturbations :: "json_object list"
  xw_size :: int
  xw_config :: swarm_config
  xw_status :: "swarm_status option"
  xw_createdBy :: "int option"

definition swarm_insert :: "swarm_write \<Rightarrow> sim_db \<Rightarrow> int \<times> sim_db" where
  "swarm_insert w db =
     (let i = next_id (db_swarms db) in
      (i, db\<lparr>db_swarms := db_swarms db @
        [\<lparr>sw_id = i, sw_kind = xw_kind w, sw_title = xw_title w, sw_baseSeed = xw_baseSeed w,
          sw_perturbations = xw_perturbations w, sw_size = xw_size w, sw_config = xw_config w,
          sw_status = (case xw_status w of Some s \<Rightarrow> s | None \<Rightarrow> SwarmPending),
          sw_reportFindingId = None, sw_suggestionId = None, sw_completedAt = None,
          sw_createdBy = xw_createdBy w\<rparr>]\<rparr>))"

definition swarm_findById :: "int \<Rightarrow> sim_db \<Rightarrow> swarm_row option" where
  "swarm_findById i db = find (\<lambda>s. sw_id s = i) (db_swarms db)"

definition update_swarm :: "(swarm_row \<Rightarrow> swarm_row) \<Rightarrow> int \<Rightarrow> sim_db \<Rightarrow> sim_db" where
  "update_swarm f i db = db\<lparr>db_swarms := map (\<lambda>s. if sw_id s = i then f s else s) (db_swarms db)\<rparr>"

record operator_query =
  oq_status :: "swarm_status option"
  oq_kind :: "string option"
  oq_cursor :: "int option"
  oq_limit :: nat

definition matches_opt :: "'a option \<Rightarrow> 'a \<Rightarrow> bool" where
  "matches_opt q x = (case q of None \<Rightarrow> True | Some v \<Rightarrow> x = v)"

text \<open>One row more than the page tells whether there is a next page.\<close>

definition listForOperator :: "operator_query \<Rightarrow> sim_db \<Rightarrow> swarm_row list \<times> int option" where
  "listForOperator q db =
     (let hits = order_desc sw_id
            (filter (\<lambda>s. matches_opt (oq_status q) (sw_status s) \<and> matches_opt (oq_kind q) (sw_kind s) \<and>
                         (case oq_cursor q of None \<Rightarrow> True | Some c \<Rightarrow> sw_id s < c)) (db_swarms db));
          fetched = take (oq_limit q + 1) hits;
          page = take (oq_limit q) fetched
      in (page, if length fetched > oq_limit q \<and> page \<noteq> [] then Some (sw_id (last page)) else None))"

text \<open>\<open>undefined\<close> leaves a column alone, \<open>null\<close> clears it.\<close>

record close_input =
  ki_status :: swarm_status
  ki_suggestionId :: "int option option"
  ki_reportFindingId :: "int option option"

definition patch_col :: "'a option \<Rightarrow> 'a \<Rightarrow> 'a" where
  "patch_col p x = (case p of Some v \<Rightarrow> v | None \<Rightarrow> x)"

definition closeSwarm :: "int \<Rightarrow> close_input \<Rightarrow> int \<Rightarrow> sim_db \<Rightarrow> sim_db" where
  "closeSwarm i k now db =
     update_swarm (\<lambda>s. s\<lparr>sw_status := ki_status k, sw_completedAt := Some now,
                         sw_suggestionId := patch_col (ki_suggestionId k) (sw_suggestionId s),
                         sw_reportFindingId := patch_col (ki_reportFindingId k) (sw_reportFindingId s)\<rparr>) i db"

definition markDone :: "int \<Rightarrow> int \<Rightarrow> sim_db \<Rightarrow> sim_db" where
  "markDone i now db =
     closeSwarm i \<lparr>ki_status = SwarmDone, ki_suggestionId = None, ki_reportFindingId = None\<rparr> now db"

definition markFailed :: "int \<Rightarrow> int \<Rightarrow> sim_db \<Rightarrow> sim_db" where
  "markFailed i now db =
     closeSwarm i \<lparr>ki_status = SwarmFailed, ki_suggestionId = None, ki_reportFindingId = None\<rparr> now db"

definition linkOutcome :: "int \<Rightarrow> int option option \<Rightarrow> int option option \<Rightarrow> sim_db \<Rightarrow> sim_db" where
  "linkOutcome i reportId suggestion db =
     (if reportId = None \<and> suggestion = None then db
      else update_swarm (\<lambda>s. s\<lparr>sw_reportFindingId := patch_col reportId (sw_reportFindingId s),
                               sw_suggestionId := patch_col suggestion (sw_suggestionId s)\<rparr>) i db)"

definition fail_open_runs :: "int \<Rightarrow> int \<Rightarrow> sim_db \<Rightarrow> sim_db" where
  "fail_open_runs i now db =
     db\<lparr>db_runs := map (\<lambda>r. if rn_swarm r = i \<and> rn_status r \<in> {RunPending, RunRunning}
                            then r\<lparr>rn_status := RunFailed, rn_completedAt := Some now\<rparr> else r) (db_runs db)\<rparr>"

definition abortSwarm :: "int \<Rightarrow> int \<Rightarrow> sim_db \<Rightarrow> sim_db" where
  "abortSwarm i now db =
     fail_open_runs i now
       (update_swarm (\<lambda>s. s\<lparr>sw_status := SwarmFailed, sw_completedAt := Some now\<rparr>) i db)"

definition aggregate_key_ok :: "string \<Rightarrow> bool" where
  "aggregate_key_ok key = (key \<noteq> [] \<and> list_all is_word key)"

text \<open>The code writes the aggregate under its key into the JSON column \<open>config\<close>, beside the configuration
  itself, so a key that names a field of the configuration would overwrite it. The model keeps what was written
  there apart, in \<open>wc_aggregates\<close>: the keys of the aggregation worker name no such field, and the route of
  the console with a key that does is outside the model.\<close>

definition snapshotAggregate :: "int \<Rightarrow> string \<Rightarrow> jval \<Rightarrow> sim_db \<Rightarrow> sim_db throws" where
  "snapshotAggregate i key value db =
     (if aggregate_key_ok key
      then Inr (update_swarm (\<lambda>s. s\<lparr>sw_config :=
             (sw_config s)\<lparr>wc_aggregates := AList.update key value (wc_aggregates (sw_config s))\<rparr>\<rparr>) i db)
      else Inl (mk_error (''invalid aggregate path key: '' @ key)))"

section \<open>Runs\<close>

record run_write =
  rw_swarm :: int
  rw_fish :: int
  rw_kind :: string
  rw_seed :: json_object
  rw_perturbation :: json_object
  rw_config :: sim_config
  rw_status :: "run_status option"

definition run_insert :: "run_write \<Rightarrow> sim_db \<Rightarrow> (int \<times> sim_db) throws" where
  "run_insert w db =
     (if list_ex (\<lambda>r. rn_swarm r = rw_swarm w \<and> rn_fish r = rw_fish w) (db_runs db) then Inl unique_violation
      else if \<not> swarm_exists db (rw_swarm w) then Inl reference_violation
      else
        let i = next_id (db_runs db) in
        Inr (i, db\<lparr>db_runs := db_runs db @
          [\<lparr>rn_id = i, rn_swarm = rw_swarm w, rn_fish = rw_fish w, rn_kind = rw_kind w, rn_seed = rw_seed w,
            rn_perturbation = rw_perturbation w, rn_config = rw_config w,
            rn_status = (case rw_status w of Some s \<Rightarrow> s | None \<Rightarrow> RunPending), rn_completedAt = None\<rparr>]\<rparr>))"

definition run_findById :: "int \<Rightarrow> sim_db \<Rightarrow> run_row option" where
  "run_findById i db = find (\<lambda>r. rn_id r = i) (db_runs db)"

definition findBySwarmFish :: "int \<Rightarrow> int \<Rightarrow> sim_db \<Rightarrow> run_row option" where
  "findBySwarmFish s f db = find (\<lambda>r. rn_swarm r = s \<and> rn_fish r = f) (db_runs db)"

definition updateStatus :: "int \<Rightarrow> run_status \<Rightarrow> int option option \<Rightarrow> sim_db \<Rightarrow> sim_db" where
  "updateStatus i st completed db =
     db\<lparr>db_runs := map (\<lambda>r. if rn_id r = i
                            then r\<lparr>rn_status := st, rn_completedAt := patch_col completed (rn_completedAt r)\<rparr>
                            else r) (db_runs db)\<rparr>"

definition getSeedApplied :: "int \<Rightarrow> sim_db \<Rightarrow> json_object option" where
  "getSeedApplied i db = map_option rn_seed (run_findById i db)"

record fish_counts =
  fk_done :: nat
  fk_failed :: nat
  fk_timeout :: nat
  fk_running :: nat
  fk_pending :: nat
  fk_paused :: nat

definition count_status :: "int \<Rightarrow> run_status \<Rightarrow> sim_db \<Rightarrow> nat" where
  "count_status i st db = length (filter (\<lambda>r. rn_swarm r = i \<and> rn_status r = st) (db_runs db))"

definition countFishByStatus :: "int \<Rightarrow> sim_db \<Rightarrow> fish_counts" where
  "countFishByStatus i db =
     \<lparr>fk_done = count_status i RunDone db, fk_failed = count_status i RunFailed db,
      fk_timeout = count_status i RunTimeout db, fk_running = count_status i RunRunning db,
      fk_pending = count_status i RunPending db, fk_paused = count_status i RunPaused db\<rparr>"

definition terminal_status :: "run_status \<Rightarrow> bool" where
  "terminal_status st = (st \<in> {RunDone, RunFailed, RunTimeout})"

definition listTerminalCompletedBetween :: "int \<Rightarrow> int \<Rightarrow> sim_db \<Rightarrow> run_row list" where
  "listTerminalCompletedBetween t0 t1 db =
     sort_key (\<lambda>r. the (rn_completedAt r))
       (filter (\<lambda>r. terminal_status (rn_status r) \<and>
                    (case rn_completedAt r of Some t \<Rightarrow> t0 \<le> t \<and> t < t1 | None \<Rightarrow> False)) (db_runs db))"

text \<open>The rows the \<open>UPDATE\<close> picks, lowest fish index first.\<close>

definition pick_pending :: "int \<Rightarrow> nat \<Rightarrow> sim_db \<Rightarrow> run_row list" where
  "pick_pending i n db =
     take n (sort_key rn_fish (filter (\<lambda>r. rn_swarm r = i \<and> rn_status r = RunPending) (db_runs db)))"

definition claimPendingFishForSwarm :: "int \<Rightarrow> int \<Rightarrow> sim_db \<Rightarrow> (int \<times> int) list \<times> sim_db" where
  "claimPendingFishForSwarm i limit db =
     (if limit < 1 then ([], db)
      else
        let picked = pick_pending i (nat limit) db in
        (map (\<lambda>r. (rn_id r, rn_fish r)) picked,
         db\<lparr>db_runs := map (\<lambda>r. if rn_id r \<in> set (map rn_id picked) then r\<lparr>rn_status := RunRunning\<rparr> else r)
                        (db_runs db)\<rparr>))"

definition failPendingAndRunningForSwarm :: "int \<Rightarrow> int \<Rightarrow> sim_db \<Rightarrow> sim_db" where
  "failPendingAndRunningForSwarm i now db = fail_open_runs i now db"

section \<open>Agents\<close>

record agent_write =
  aw_run :: int
  aw_operator :: "int option"
  aw_index :: int
  aw_persona :: string
  aw_goals :: "string list"
  aw_constraints :: json_object

definition agent_insert :: "agent_write \<Rightarrow> sim_db \<Rightarrow> (int \<times> sim_db) throws" where
  "agent_insert w db =
     (if list_ex (\<lambda>a. ag_run a = aw_run w \<and> ag_index a = aw_index w) (db_agents db) then Inl unique_violation
      else if \<not> run_exists db (aw_run w) then Inl reference_violation
      else
        let i = next_id (db_agents db) in
        Inr (i, db\<lparr>db_agents := db_agents db @
          [\<lparr>ag_id = i, ag_run = aw_run w, ag_operator = aw_operator w, ag_index = aw_index w,
            ag_persona = aw_persona w, ag_goals = aw_goals w, ag_constraints = aw_constraints w\<rparr>]\<rparr>))"

definition listByRun :: "int \<Rightarrow> sim_db \<Rightarrow> agent_row list" where
  "listByRun i db = sort_key ag_index (filter (\<lambda>a. ag_run a = i) (db_agents db))"

definition countForRun :: "int \<Rightarrow> sim_db \<Rightarrow> nat" where
  "countForRun i db = length (filter (\<lambda>a. ag_run a = i) (db_agents db))"

section \<open>Turns\<close>

record turn_write =
  uw_run :: int
  uw_index :: int
  uw_agent :: int
  uw_action :: turn_action
  uw_rationale :: string
  uw_summary :: string

definition insertAgentTurn :: "turn_write \<Rightarrow> int \<Rightarrow> sim_db \<Rightarrow> (int \<times> sim_db) throws" where
  "insertAgentTurn w now db =
     (if list_ex (\<lambda>t. tn_run t = uw_run w \<and> tn_index t = uw_index w \<and> tn_agent t = Some (uw_agent w)) (db_turns db)
      then Inl unique_violation
      else if \<not> run_exists db (uw_run w) \<or> \<not> agent_exists db (uw_agent w) then Inl reference_violation
      else
        let i = next_id (db_turns db) in
        Inr (i, db\<lparr>db_turns := db_turns db @
          [\<lparr>tn_id = i, tn_run = uw_run w, tn_index = uw_index w, tn_actor = AgentActor, tn_agent = Some (uw_agent w),
            tn_action = uw_action w, tn_rationale = uw_rationale w, tn_summary = uw_summary w,
            tn_createdAt = now\<rparr>]\<rparr>))"

record god_write =
  hw_run :: int
  hw_index :: int
  hw_action :: turn_action
  hw_rationale :: string
  hw_summary :: string

definition insertGodTurn :: "god_write \<Rightarrow> int \<Rightarrow> sim_db \<Rightarrow> (int \<times> sim_db) throws" where
  "insertGodTurn w now db =
     (if \<not> run_exists db (hw_run w) then Inl reference_violation
      else
        let i = next_id (db_turns db) in
        Inr (i, db\<lparr>db_turns := db_turns db @
          [\<lparr>tn_id = i, tn_run = hw_run w, tn_index = hw_index w, tn_actor = GodActor, tn_agent = None,
            tn_action = hw_action w, tn_rationale = hw_rationale w, tn_summary = hw_summary w,
            tn_createdAt = now\<rparr>]\<rparr>))"

definition turn_findById :: "int \<Rightarrow> sim_db \<Rightarrow> turn_row option" where
  "turn_findById i db = find (\<lambda>t. tn_id t = i) (db_turns db)"

definition turns_of :: "int \<Rightarrow> sim_db \<Rightarrow> turn_row list" where
  "turns_of i db = filter (\<lambda>t. tn_run t = i) (db_turns db)"

text \<open>Creation times grow with the serial key, so insertion order breaks ties.\<close>

definition listTimelineForRun :: "int \<Rightarrow> sim_db \<Rightarrow> turn_row list" where
  "listTimelineForRun i db = sort_key tn_index (turns_of i db)"

record memory_write =
  mw_run :: int
  mw_agent :: int
  mw_turn :: int
  mw_kind :: memory_kind
  mw_content :: string
  mw_embedding :: "real list option"

definition memory_insert :: "memory_write \<Rightarrow> sim_db \<Rightarrow> (int \<times> sim_db) throws" where
  "memory_insert w db =
     (if \<not> run_exists db (mw_run w) \<or> \<not> agent_exists db (mw_agent w) then Inl reference_violation
      else
        let i = next_id (db_memories db) in
        Inr (i, db\<lparr>db_memories := db_memories db @
          [\<lparr>mm_id = i, mm_run = mw_run w, mm_agent = mw_agent w, mm_turn = mw_turn w, mm_kind = mw_kind w,
            mm_content = mw_content w, mm_embedding = mw_embedding w\<rparr>]\<rparr>))"

text \<open>Row by row; the first error discards everything.\<close>

fun insert_all :: "('w \<Rightarrow> sim_db \<Rightarrow> (int \<times> sim_db) throws) \<Rightarrow> 'w list \<Rightarrow> sim_db \<Rightarrow> (int list \<times> sim_db) throws" where
  "insert_all ins [] db = Inr ([], db)"
| "insert_all ins (w # ws) db =
     (case ins w db of
        Inl err \<Rightarrow> Inl err
      | Inr (i, db') \<Rightarrow>
          (case insert_all ins ws db' of
             Inl err \<Rightarrow> Inl err
           | Inr (is, db'') \<Rightarrow> Inr (i # is, db'')))"

definition writeMany :: "memory_write list \<Rightarrow> sim_db \<Rightarrow> (int list \<times> sim_db) throws" where
  "writeMany ws db = insert_all memory_insert ws db"

definition persistTurnBatch :: "turn_write list \<Rightarrow> memory_write list \<Rightarrow> int \<Rightarrow> sim_db \<Rightarrow> (int list \<times> sim_db) throws" where
  "persistTurnBatch turns memories now db =
     (if turns = [] \<and> memories = [] then Inr ([], db)
      else
        (case insert_all (\<lambda>w. insertAgentTurn w now) turns db of
           Inl err \<Rightarrow> Inl err
         | Inr (ids, db') \<Rightarrow>
             (case insert_all memory_insert memories db' of
                Inl err \<Rightarrow> Inl err
              | Inr (_, db'') \<Rightarrow> Inr (ids, db''))))"

definition listGodEventsAtOrBefore :: "int \<Rightarrow> int \<Rightarrow> nat \<Rightarrow> sim_db \<Rightarrow> turn_row list" where
  "listGodEventsAtOrBefore i k n db =
     take n (sort_key tn_index (filter (\<lambda>t. tn_actor t = GodActor \<and> tn_index t \<le> k) (turns_of i db)))"

definition lastTurnCreatedAt :: "int \<Rightarrow> sim_db \<Rightarrow> int option" where
  "lastTurnCreatedAt i db =
     (case turns_of i db of [] \<Rightarrow> None | ts \<Rightarrow> Some (foldr (\<lambda>t m. max (tn_createdAt t) m) ts (tn_createdAt (hd ts))))"

definition countAgentTurnsForRun :: "int \<Rightarrow> sim_db \<Rightarrow> nat" where
  "countAgentTurnsForRun i db = length (filter (\<lambda>t. tn_actor t = AgentActor) (turns_of i db))"

text \<open>
  \<open>agent_id <> x\<close> is unknown, hence not true, on a row whose \<open>agent_id\<close> is null.
\<close>

definition sql_ne :: "int option \<Rightarrow> int \<Rightarrow> bool" where
  "sql_ne col x = (case col of None \<Rightarrow> False | Some v \<Rightarrow> v \<noteq> x)"

record observable_query =
  bq_run :: int
  bq_since :: int
  bq_exclude :: "int option"
  bq_limit :: nat

definition recentObservable :: "observable_query \<Rightarrow> sim_db \<Rightarrow> turn_row list" where
  "recentObservable q db =
     take (bq_limit q) (order_desc tn_index
       (filter (\<lambda>t. bq_since q < tn_index t \<and>
                    (case bq_exclude q of None \<Rightarrow> True | Some a \<Rightarrow> sql_ne (tn_agent t) a))
         (turns_of (bq_run q) db)))"

section \<open>Memories\<close>

definition memories_of :: "int \<Rightarrow> int \<Rightarrow> sim_db \<Rightarrow> memory_row list" where
  "memories_of i a db = filter (\<lambda>m. mm_run m = i \<and> mm_agent m = a) (db_memories db)"

definition topKByVector ::
  "(real list \<Rightarrow> real list \<Rightarrow> real) \<Rightarrow> int \<Rightarrow> int \<Rightarrow> real list \<Rightarrow> nat \<Rightarrow> sim_db \<Rightarrow> (memory_row \<times> real) list" where
  "topKByVector cosd i a vec k db =
     (let scored = List.map_filter (\<lambda>m. map_option (\<lambda>e. (m, cosd e vec)) (mm_embedding m)) (memories_of i a db)
      in map (\<lambda>(m, d). (m, 1 - d)) (take k (sort_key snd scored)))"

definition topKByRecency :: "int \<Rightarrow> int \<Rightarrow> nat \<Rightarrow> sim_db \<Rightarrow> memory_row list" where
  "topKByRecency i a k db = take k (order_desc mm_turn (memories_of i a db))"

section \<open>Terminal turns\<close>

record terminal_row =
  tr_run :: int
  tr_fish :: int
  tr_status :: run_status
  tr_agent_index :: "int option"
  tr_action :: "turn_action option"
  tr_summary :: "string option"
  tr_turns_played :: nat

text \<open>\<open>DISTINCT ON (run)\<close> after \<open>ORDER BY turn_index DESC NULLS LAST\<close>.\<close>

definition latest_agent_turn :: "int \<Rightarrow> sim_db \<Rightarrow> turn_row option" where
  "latest_agent_turn i db =
     (case order_desc tn_index (filter (\<lambda>t. tn_actor t = AgentActor) (turns_of i db)) of
        [] \<Rightarrow> None | t # _ \<Rightarrow> Some t)"

definition terminal_of :: "sim_db \<Rightarrow> run_row \<Rightarrow> terminal_row" where
  "terminal_of db r =
     (let latest = latest_agent_turn (rn_id r) db in
      \<lparr>tr_run = rn_id r, tr_fish = rn_fish r, tr_status = rn_status r,
       tr_agent_index = (case latest of
           None \<Rightarrow> None
         | Some t \<Rightarrow> map_option ag_index (find (\<lambda>a. Some (ag_id a) = tn_agent t) (db_agents db))),
       tr_action = map_option tn_action latest,
       tr_summary = map_option tn_summary latest,
       tr_turns_played = countAgentTurnsForRun (rn_id r) db\<rparr>)"

definition listTerminalsForSwarm :: "int \<Rightarrow> sim_db \<Rightarrow> terminal_row list" where
  "listTerminalsForSwarm i db =
     map (terminal_of db) (sort_key (\<lambda>r. rn_fish r) (sort_key rn_id (filter (\<lambda>r. rn_swarm r = i) (db_runs db))))"

definition listTerminalActionsForSwarm :: "int \<Rightarrow> sim_db \<Rightarrow> (int \<times> int \<times> run_status \<times> turn_action option) list" where
  "listTerminalActionsForSwarm i db =
     map (\<lambda>r. (rn_id r, rn_fish r, rn_status r, map_option tn_action (latest_agent_turn (rn_id r) db)))
       (sort_key (\<lambda>r. rn_fish r) (sort_key rn_id (filter (\<lambda>r. rn_swarm r = i) (db_runs db))))"

section \<open>The runtime store service\<close>

definition extractGodEventDetail :: "turn_action \<Rightarrow> string option" where
  "extractGodEventDetail action =
     (case field_of action ''detail'' of Some (JStr s) \<Rightarrow> Some s | _ \<Rightarrow> None)"

record god_event =
  gv_turn :: int
  gv_summary :: string
  gv_detail :: "string option"

definition store_listGodEvents :: "int \<Rightarrow> int \<Rightarrow> nat \<Rightarrow> sim_db \<Rightarrow> god_event list" where
  "store_listGodEvents i k n db =
     map (\<lambda>t. \<lparr>gv_turn = tn_index t, gv_summary = tn_summary t, gv_detail = extractGodEventDetail (tn_action t)\<rparr>)
       (listGodEventsAtOrBefore i k n db)"

section \<open>Integrity\<close>

text \<open>
  What the schema promises of its tables: serial keys, unique columns, and references that
  resolve; in addition only god and system turns lack an agent, and every agent belongs to the
  run whose turns and memories name it is left to the callers.
\<close>

definition serial :: "int list \<Rightarrow> bool" where
  "serial ids = (ids = map (\<lambda>k. int k + 1) [0..<length ids])"

definition db_ok :: "sim_db \<Rightarrow> bool" where
  "db_ok db =
     (serial (map sw_id (db_swarms db)) \<and> serial (map rn_id (db_runs db)) \<and>
      serial (map ag_id (db_agents db)) \<and> serial (map tn_id (db_turns db)) \<and> serial (map mm_id (db_memories db)) \<and>
      distinct (map (\<lambda>r. (rn_swarm r, rn_fish r)) (db_runs db)) \<and>
      distinct (map (\<lambda>a. (ag_run a, ag_index a)) (db_agents db)) \<and>
      distinct (map (\<lambda>t. (tn_run t, tn_index t, tn_agent t)) (filter (\<lambda>t. tn_agent t \<noteq> None) (db_turns db))) \<and>
      list_all (\<lambda>r. swarm_exists db (rn_swarm r)) (db_runs db) \<and>
      list_all (\<lambda>a. run_exists db (ag_run a)) (db_agents db) \<and>
      list_all (\<lambda>t. run_exists db (tn_run t) \<and> pred_option (agent_exists db) (tn_agent t) \<and>
                    (tn_actor t = AgentActor \<longrightarrow> tn_agent t \<noteq> None)) (db_turns db) \<and>
      list_all (\<lambda>m. run_exists db (mm_run m) \<and> agent_exists db (mm_agent m)) (db_memories db))"

definition empty_db :: sim_db where
  "empty_db = \<lparr>db_swarms = [], db_runs = [], db_agents = [], db_turns = [], db_memories = []\<rparr>"

lemma empty_db_ok: "db_ok empty_db"
  by (simp add: db_ok_def empty_db_def serial_def)

lemma serial_snoc: "serial ids \<Longrightarrow> serial (ids @ [int (length ids) + 1])"
  by (simp add: serial_def)

lemma serial_distinct: "serial ids \<Longrightarrow> distinct ids"
proof -
  assume s: "serial ids"
  have "distinct (map (\<lambda>k. int k + 1) [0..<length ids])" by (simp add: distinct_map inj_on_def)
  then show ?thesis using s unfolding serial_def by metis
qed

lemma serial_fresh: "serial ids \<Longrightarrow> int (length ids) + 1 \<notin> set ids"
proof
  assume s: "serial ids" and "int (length ids) + 1 \<in> set ids"
  then have "int (length ids) + 1 \<in> set (map (\<lambda>k. int k + 1) [0..<length ids])"
    unfolding serial_def by metis
  then show False by auto
qed

lemma runs_update_ok:
  assumes "\<And>r. rn_id (f r) = rn_id r" "\<And>r. rn_swarm (f r) = rn_swarm r" "\<And>r. rn_fish (f r) = rn_fish r"
  shows "db_ok (db\<lparr>db_runs := map f (db_runs db)\<rparr>) = db_ok db"
  using assms
  by (simp add: db_ok_def comp_def list.pred_map swarm_exists_def run_exists_def agent_exists_def
      cong: list.pred_cong option.case_cong)

lemma update_swarm_ok: "(\<And>s. sw_id (f s) = sw_id s) \<Longrightarrow> db_ok (update_swarm f i db) = db_ok db"
  by (simp add: update_swarm_def db_ok_def comp_def if_distrib swarm_exists_def run_exists_def agent_exists_def
      image_image cong: if_cong list.pred_cong option.case_cong)

lemma updateStatus_ok: "db_ok (updateStatus i st c db) = db_ok db"
  unfolding updateStatus_def by (rule runs_update_ok) auto

lemma fail_open_runs_ok: "db_ok (fail_open_runs i now db) = db_ok db"
  unfolding fail_open_runs_def by (rule runs_update_ok) auto

lemma claim_ok: "db_ok (snd (claimPendingFishForSwarm i n db)) = db_ok db"
  unfolding claimPendingFishForSwarm_def Let_def by (simp add: runs_update_ok)

lemma swarm_ops_ok:
  "db_ok (closeSwarm i k now db) = db_ok db"
  "db_ok (linkOutcome i a b db) = db_ok db"
  "db_ok (abortSwarm i now db) = db_ok db"
  "snapshotAggregate i key v db = Inr db' \<Longrightarrow> db_ok db' = db_ok db"
  by (auto simp: closeSwarm_def linkOutcome_def abortSwarm_def snapshotAggregate_def update_swarm_ok
      fail_open_runs_ok split: if_splits)

lemma swarm_insert_ok: "db_ok db \<Longrightarrow> db_ok (snd (swarm_insert w db))"
  by (auto simp: db_ok_def swarm_insert_def Let_def next_id_def swarm_exists_def run_exists_def agent_exists_def
      list_all_iff intro: serial_snoc [of "map sw_id (db_swarms db)", simplified])

lemma run_insert_ok: "run_insert w db = Inr (i, db') \<Longrightarrow> db_ok db \<Longrightarrow> db_ok db'"
  using serial_snoc [of "map rn_id (db_runs db)"]
  by (auto simp: db_ok_def run_insert_def Let_def next_id_def swarm_exists_def run_exists_def agent_exists_def
      list_all_iff list_ex_iff split: if_splits option.splits) blast+

lemma agent_insert_ok: "agent_insert w db = Inr (i, db') \<Longrightarrow> db_ok db \<Longrightarrow> db_ok db'"
  using serial_snoc [of "map ag_id (db_agents db)"]
  by (auto simp: db_ok_def agent_insert_def Let_def next_id_def swarm_exists_def run_exists_def agent_exists_def
      list_all_iff list_ex_iff option.pred_set split: if_splits option.splits) blast+

lemma agent_turn_insert_ok: "insertAgentTurn w now db = Inr (i, db') \<Longrightarrow> db_ok db \<Longrightarrow> db_ok db'"
  using serial_snoc [of "map tn_id (db_turns db)"]
  by (auto simp: db_ok_def insertAgentTurn_def Let_def next_id_def swarm_exists_def run_exists_def agent_exists_def
      list_all_iff list_ex_iff split: if_splits)

lemma god_turn_insert_ok: "insertGodTurn w now db = Inr (i, db') \<Longrightarrow> db_ok db \<Longrightarrow> db_ok db'"
  using serial_snoc [of "map tn_id (db_turns db)"]
  by (auto simp: db_ok_def insertGodTurn_def Let_def next_id_def swarm_exists_def run_exists_def agent_exists_def
      list_all_iff split: if_splits)

lemma memory_insert_ok: "memory_insert w db = Inr (i, db') \<Longrightarrow> db_ok db \<Longrightarrow> db_ok db'"
  using serial_snoc [of "map mm_id (db_memories db)"]
  by (auto simp: db_ok_def memory_insert_def Let_def next_id_def swarm_exists_def run_exists_def agent_exists_def
      list_all_iff split: if_splits)

lemma insert_all_ok:
  assumes "\<And>w db i db'. ins w db = Inr (i, db') \<Longrightarrow> db_ok db \<Longrightarrow> db_ok db'"
  shows "insert_all ins ws db = Inr (is, db') \<Longrightarrow> db_ok db \<Longrightarrow> db_ok db'"
proof (induction ws arbitrary: db "is")
  case Nil
  then show ?case by simp
next
  case (Cons w ws)
  then show ?case using assms by (auto split: sum.splits prod.splits)
qed

lemma persist_ok: "persistTurnBatch ts ms now db = Inr (is, db') \<Longrightarrow> db_ok db \<Longrightarrow> db_ok db'"
  unfolding persistTurnBatch_def
  by (auto split: if_splits sum.splits prod.splits
      intro: insert_all_ok [where ins = memory_insert, OF memory_insert_ok]
        insert_all_ok [where ins = "\<lambda>w. insertAgentTurn w now", OF agent_turn_insert_ok])

section \<open>Reachable databases\<close>

inductive db_reach :: "sim_db \<Rightarrow> bool" where
  reach_empty: "db_reach empty_db"
| reach_swarm: "db_reach db \<Longrightarrow> db_reach (snd (swarm_insert w db))"
| reach_run: "db_reach db \<Longrightarrow> run_insert rw db = Inr (i, db') \<Longrightarrow> db_reach db'"
| reach_agent: "db_reach db \<Longrightarrow> agent_insert aw db = Inr (i, db') \<Longrightarrow> db_reach db'"
| reach_turn: "db_reach db \<Longrightarrow> insertAgentTurn tw now db = Inr (i, db') \<Longrightarrow> db_reach db'"
| reach_god: "db_reach db \<Longrightarrow> insertGodTurn gw now db = Inr (i, db') \<Longrightarrow> db_reach db'"
| reach_batch: "db_reach db \<Longrightarrow> persistTurnBatch ts ms now db = Inr (is, db') \<Longrightarrow> db_reach db'"
| reach_memories: "db_reach db \<Longrightarrow> writeMany ms db = Inr (is, db') \<Longrightarrow> db_reach db'"
| reach_status: "db_reach db \<Longrightarrow> db_reach (updateStatus i st c db)"
| reach_claim: "db_reach db \<Longrightarrow> db_reach (snd (claimPendingFishForSwarm i n db))"
| reach_fail: "db_reach db \<Longrightarrow> db_reach (failPendingAndRunningForSwarm i now db)"
| reach_close: "db_reach db \<Longrightarrow> db_reach (closeSwarm i k now db)"
| reach_link: "db_reach db \<Longrightarrow> db_reach (linkOutcome i a b db)"
| reach_abort: "db_reach db \<Longrightarrow> db_reach (abortSwarm i now db)"
| reach_snapshot: "db_reach db \<Longrightarrow> snapshotAggregate i key v db = Inr db' \<Longrightarrow> db_reach db'"

lemma writeMany_ok: "writeMany ms db = Inr (is, db') \<Longrightarrow> db_ok db \<Longrightarrow> db_ok db'"
  unfolding writeMany_def by (rule insert_all_ok [OF memory_insert_ok])

lemma reachable_db_ok: "db_reach db \<Longrightarrow> db_ok db"
proof (induction rule: db_reach.induct)
  case reach_empty
  show ?case by (rule empty_db_ok)
next
  case reach_swarm
  show ?case by (rule swarm_insert_ok) (rule reach_swarm.IH)
next
  case reach_run
  from reach_run.hyps(2) reach_run.IH show ?case by (rule run_insert_ok)
next
  case reach_agent
  from reach_agent.hyps(2) reach_agent.IH show ?case by (rule agent_insert_ok)
next
  case reach_turn
  from reach_turn.hyps(2) reach_turn.IH show ?case by (rule agent_turn_insert_ok)
next
  case reach_god
  from reach_god.hyps(2) reach_god.IH show ?case by (rule god_turn_insert_ok)
next
  case reach_batch
  from reach_batch.hyps(2) reach_batch.IH show ?case by (rule persist_ok)
next
  case reach_memories
  from reach_memories.hyps(2) reach_memories.IH show ?case by (rule writeMany_ok)
next
  case reach_snapshot
  then show ?case using swarm_ops_ok(4) by blast
qed (simp_all add: updateStatus_ok claim_ok failPendingAndRunningForSwarm_def fail_open_runs_ok swarm_ops_ok)

text \<open>What the reads of one run return.\<close>

definition run_view ::
  "(real list \<Rightarrow> real list \<Rightarrow> real) \<Rightarrow> int \<Rightarrow> sim_db \<Rightarrow> int \<Rightarrow> observable_query \<Rightarrow> int \<Rightarrow> nat \<Rightarrow> real list \<Rightarrow>
   turn_row list \<times> turn_row list \<times> turn_row list \<times> (memory_row \<times> real) list \<times> memory_row list \<times> nat" where
  "run_view cosd i db a q t k vec =
     (listTimelineForRun i db, recentObservable (q\<lparr>bq_run := i\<rparr>) db, listGodEventsAtOrBefore i t k db,
      topKByVector cosd i a vec k db, topKByRecency i a k db, countAgentTurnsForRun i db)"

lemma run_view_cong:
  "turns_of i db' = turns_of i db \<Longrightarrow> memories_of i a db' = memories_of i a db \<Longrightarrow>
   run_view cosd i db' a q t k vec = run_view cosd i db a q t k vec"
  by (simp add: run_view_def listTimelineForRun_def recentObservable_def listGodEventsAtOrBefore_def
      topKByVector_def topKByRecency_def countAgentTurnsForRun_def)

lemma insert_all_turns_other:
  "insert_all (\<lambda>w. insertAgentTurn w now) ws db = Inr (ids, db') \<Longrightarrow> \<forall>w \<in> set ws. uw_run w \<noteq> i \<Longrightarrow>
   turns_of i db' = turns_of i db \<and> db_memories db' = db_memories db"
proof (induction ws arbitrary: db ids)
  case (Cons w ws)
  obtain k db1 ids1 where s: "insertAgentTurn w now db = Inr (k, db1)"
    "insert_all (\<lambda>w. insertAgentTurn w now) ws db1 = Inr (ids1, db')"
    using Cons.prems(1) by (auto split: sum.splits prod.splits)
  have "turns_of i db1 = turns_of i db \<and> db_memories db1 = db_memories db"
    using s(1) Cons.prems(2) by (auto simp: insertAgentTurn_def Let_def turns_of_def split: if_splits)
  then show ?case using Cons.IH [OF s(2)] Cons.prems(2) by simp
qed simp

lemma insert_all_memories_other:
  "insert_all memory_insert ws db = Inr (ids, db') \<Longrightarrow> \<forall>w \<in> set ws. mw_run w \<noteq> i \<Longrightarrow>
   memories_of i a db' = memories_of i a db \<and> db_turns db' = db_turns db"
proof (induction ws arbitrary: db ids)
  case (Cons w ws)
  obtain k db1 ids1 where s: "memory_insert w db = Inr (k, db1)"
    "insert_all memory_insert ws db1 = Inr (ids1, db')"
    using Cons.prems(1) by (auto split: sum.splits prod.splits)
  have "memories_of i a db1 = memories_of i a db \<and> db_turns db1 = db_turns db"
    using s(1) Cons.prems(2) by (auto simp: memory_insert_def Let_def memories_of_def split: if_splits)
  then show ?case using Cons.IH [OF s(2)] Cons.prems(2) by simp
qed simp

lemma batch_other_run:
  assumes "persistTurnBatch ts ms now db = Inr (ids, db')"
    and "\<forall>w \<in> set ts. uw_run w \<noteq> i" "\<forall>w \<in> set ms. mw_run w \<noteq> i"
  shows "run_view cosd i db' a q t k vec = run_view cosd i db a q t k vec"
proof (cases "ts = [] \<and> ms = []")
  case True
  with assms(1) show ?thesis by (simp add: persistTurnBatch_def)
next
  case False
  obtain db1 ids2 where s: "insert_all (\<lambda>w. insertAgentTurn w now) ts db = Inr (ids, db1)"
    "insert_all memory_insert ms db1 = Inr (ids2, db')"
    using assms(1) False by (auto simp: persistTurnBatch_def split: sum.splits prod.splits)
  have "turns_of i db' = turns_of i db" "memories_of i a db' = memories_of i a db"
    using insert_all_turns_other [OF s(1) assms(2)] insert_all_memories_other [OF s(2) assms(3), of a]
    by (simp_all add: turns_of_def memories_of_def)
  then show ?thesis by (rule run_view_cong)
qed

section \<open>Properties\<close>

definition demo_swarm_write :: swarm_write where
  "demo_swarm_write =
     \<lparr>xw_kind = ''uc3_conjunction'', xw_title = ''t'', xw_baseSeed = [], xw_perturbations = [], xw_size = 1,
      xw_config = \<lparr>wc_llmMode = ''cloud'', wc_quorumPct = Some (4 / 5), wc_perFishTimeoutMs = Fin 60000,
        wc_fishConcurrency = Fin 1, wc_nanoModel = ''nano'', wc_seed = 42, wc_aggregates = []\<rparr>,
      xw_status = Some SwarmRunning, xw_createdBy = None\<rparr>"

definition demo_run_write :: "int \<Rightarrow> run_write" where
  "demo_run_write fish =
     \<lparr>rw_swarm = 1, rw_fish = fish, rw_kind = ''uc3_conjunction'', rw_seed = [], rw_perturbation = [],
      rw_config = \<lparr>gc_turnsPerDay = 1, gc_maxTurns = 20, gc_llmMode = ''cloud'', gc_seed = 42,
        gc_nanoModel = ''nano'', gc_perFishTimeoutMs = None\<rparr>, rw_status = None\<rparr>"

text \<open>Fish do not bleed into each other: a batch of turns and memories written for other runs
  changes nothing that the reads of a run return, neither its timeline, nor what its agents
  observe, nor its god events, nor the memories recalled by similarity or recency.\<close>

theorem fish_memories_are_isolated:
  assumes "persistTurnBatch ts ms now db = Inr (ids, db')"
    and "\<forall>w \<in> set ts. uw_run w \<noteq> i" and "\<forall>w \<in> set ms. mw_run w \<noteq> i"
  shows "run_view cosd i db' a q t k vec = run_view cosd i db a q t k vec"
  by (rule batch_other_run [OF assms])

definition two_fish_db :: sim_db where
  "two_fish_db =
     (case run_insert (demo_run_write 0) (snd (swarm_insert demo_swarm_write empty_db)) of
        Inr (_, db) \<Rightarrow>
          (case run_insert (demo_run_write 1) db of
             Inr (_, db) \<Rightarrow>
               (case agent_insert \<lparr>aw_run = 1, aw_operator = None, aw_index = 0, aw_persona = ''p'', aw_goals = [],
                                   aw_constraints = []\<rparr> db of
                  Inr (_, db) \<Rightarrow> db
                | Inl _ \<Rightarrow> db)
           | Inl _ \<Rightarrow> db)
      | Inl _ \<Rightarrow> empty_db)"

theorem fish_memories_are_isolated_witness:
  "\<exists>ids db'. persistTurnBatch
       [\<lparr>uw_run = 1, uw_index = 0, uw_agent = 1, uw_action = JNull, uw_rationale = ''r'', uw_summary = ''s''\<rparr>]
       [] 0 two_fish_db = Inr (ids, db') \<and>
     recentObservable \<lparr>bq_run = 2, bq_since = - 1, bq_exclude = None, bq_limit = 5\<rparr> db' = []"
proof -
  let ?w = "\<lparr>uw_run = 1, uw_index = 0, uw_agent = 1, uw_action = JNull, uw_rationale = ''r'', uw_summary = ''s''\<rparr>"
  let ?q = "\<lparr>bq_run = 2, bq_since = - 1, bq_exclude = None, bq_limit = 5\<rparr>"
  have db: "db_turns two_fish_db = []" "map rn_id (db_runs two_fish_db) = [1, 2]" "map ag_id (db_agents two_fish_db) = [1]"
    by (simp_all add: two_fish_db_def run_insert_def agent_insert_def demo_run_write_def swarm_insert_def Let_def
        empty_db_def swarm_exists_def run_exists_def next_id_def)
  obtain ids db' where run: "persistTurnBatch [?w] [] 0 two_fish_db = Inr (ids, db')"
    using db by (simp add: persistTurnBatch_def insertAgentTurn_def Let_def run_exists_def agent_exists_def)
  from fish_memories_are_isolated [OF run, of 2 "\<lambda>_ _. 0" 0 ?q 0 0 "[]"]
  have "recentObservable (?q\<lparr>bq_run := 2\<rparr>) db' = recentObservable (?q\<lparr>bq_run := 2\<rparr>) two_fish_db"
    by (simp add: run_view_def)
  also have "\<dots> = []" by (simp add: recentObservable_def turns_of_def db order_desc_def)
  finally show ?thesis using run by auto
qed

end
