(* ===== verification/SimTurns.thy ===== *)
theory SimTurns
  imports SimStore
begin

text \<open>
  One turn of a simulation: \<open>packages/sweep/src/sim/turn-runner.utils.ts\<close> (the call of an agent
  with its retries, the parsing of the answer, the context of the prompt), \<open>memory.service.ts\<close>, and
  the two turn runners \<open>turn-runner-sequential.ts\<close> and \<open>turn-runner-dag.ts\<close>.

  The language model, the domain pack (prompt, skill selection, action schema, scenario), the
  embedder, the lenient JSON extraction and the readings of the abort signal are arguments.
\<close>

section \<open>Parsing an answer\<close>

record turn_response =
  tp_action :: jval
  tp_rationale :: string
  tp_summary :: string

definition is_record :: "jval \<Rightarrow> bool" where
  "is_record v = (case v of JObj _ \<Rightarrow> True | _ \<Rightarrow> False)"

definition nonEmptyString :: "jval option \<Rightarrow> nat \<Rightarrow> string option" where
  "nonEmptyString v minLength =
     (case v of Some (JStr s) \<Rightarrow> if minLength \<le> length (trim s) then Some (trim s) else None | _ \<Rightarrow> None)"

definition actionKind :: "jval \<Rightarrow> string" where
  "actionKind action = (case field_of action ''kind'' of Some (JStr k) \<Rightarrow> k | _ \<Rightarrow> ''unknown'')"

definition fallbackObservableSummary :: "jval \<Rightarrow> string" where
  "fallbackObservableSummary action = ''Returned '' @ actionKind action @ '' action directly.''"

text \<open>
  \<open>buildTurnResponseSchema\<close>: an object with an action the pack accepts, a rationale of at least
  10 characters and a summary of at least 5. \<open>schema\<close> is the pack's action schema.
\<close>

definition min_string :: "nat \<Rightarrow> jval option \<Rightarrow> string option" where
  "min_string n v = (case v of Some (JStr s) \<Rightarrow> if n \<le> length s then Some s else None | _ \<Rightarrow> None)"

definition responseSchema :: "(jval \<Rightarrow> jval option) \<Rightarrow> jval \<Rightarrow> turn_response option" where
  "responseSchema schema raw =
     (case (Option.bind (field_of raw ''action'') schema, min_string 10 (field_of raw ''rationale''),
            min_string 5 (field_of raw ''observableSummary'')) of
        (Some a, Some r, Some s) \<Rightarrow> Some \<lparr>tp_action = a, tp_rationale = r, tp_summary = s\<rparr>
      | _ \<Rightarrow> None)"

definition zod_error :: exn where
  "zod_error = \<lparr>ename = ''ZodError'', emsg = ''invalid turn response''\<rparr>"

definition or_else :: "'a option \<Rightarrow> 'a option \<Rightarrow> 'a option" where
  "or_else x y = (case x of None \<Rightarrow> y | Some _ \<Rightarrow> x)"

definition parseTurnResponseFromRaw :: "(jval \<Rightarrow> jval option) \<Rightarrow> jval \<Rightarrow> turn_response throws" where
  "parseTurnResponseFromRaw schema raw =
     (case responseSchema schema raw of
        Some r \<Rightarrow> Inr r
      | None \<Rightarrow>
          (case schema raw of
             None \<Rightarrow> Inl zod_error
           | Some action \<Rightarrow>
               let rationale =
                     (case or_else (nonEmptyString (field_of raw ''rationale'') 10)
                             (nonEmptyString (field_of raw ''reason'') 10) of
                        Some s \<Rightarrow> s
                      | None \<Rightarrow> ''Accepted direct '' @ actionKind action @ '' action response.'');
                   summary =
                     (case or_else (nonEmptyString (field_of raw ''observableSummary'') 5)
                             (nonEmptyString (field_of raw ''summary'') 5) of
                        Some s \<Rightarrow> s
                      | None \<Rightarrow> fallbackObservableSummary action)
               in (case responseSchema schema
                          (JObj [(''action'', action), (''rationale'', JStr rationale),
                                 (''observableSummary'', JStr summary)]) of
                     Some r \<Rightarrow> Inr r
                   | None \<Rightarrow> Inl zod_error)))"

section \<open>Calling an agent\<close>

record agent_context =
  ac_run :: int
  ac_agent :: int
  ac_agentIndex :: int
  ac_turn :: int
  ac_persona :: string
  ac_goals :: "string list"
  ac_constraints :: json_object
  ac_memories :: "(int \<times> memory_kind \<times> string) list"
  ac_observable :: "(int \<times> actor_kind \<times> string \<times> string) list"
  ac_godEvents :: "god_event list"
  ac_subject :: "json_object option"
  ac_scenario :: "jval option"

record cortex_hints =
  ch_hasScenario :: bool
  ch_hasTelemetryTarget :: bool
  ch_hasPcTarget :: bool
  ch_scenarioKeys :: "string list"
  ch_displayName :: "jval option"
  ch_attributeKeys :: "string list"

definition object_keys :: "jval option \<Rightarrow> string list" where
  "object_keys v = (case v of Some (JObj fs) \<Rightarrow> map fst fs | _ \<Rightarrow> [])"

definition opt_field :: "jval option \<Rightarrow> string \<Rightarrow> jval option" where
  "opt_field v k = Option.bind v (\<lambda>x. field_of x k)"

text \<open>A present field whose value is \<open>undefined\<close> counts as missing.\<close>

definition is_defined :: "jval option \<Rightarrow> bool" where
  "is_defined v = (v \<noteq> None \<and> v \<noteq> Some JUndef)"

definition buildCortexSelectionHints :: "(string list \<Rightarrow> string list) \<Rightarrow> agent_context \<Rightarrow> cortex_hints" where
  "buildCortexSelectionHints sorted_strings ctx =
     (let scenario = (case ac_scenario ctx of Some v \<Rightarrow> if is_record v then Some v else None | None \<Rightarrow> None);
          subject = map_option JObj (ac_subject ctx)
      in \<lparr>ch_hasScenario = (scenario \<noteq> None),
          ch_hasTelemetryTarget =
            (is_defined (opt_field scenario ''telemetryTarget'') \<or>
             is_defined (opt_field scenario ''telemetryTargetSatelliteId'')),
          ch_hasPcTarget =
            (is_defined (opt_field scenario ''pcEstimatorTarget'') \<or>
             is_defined (opt_field scenario ''conjunctionEvent'')),
          ch_scenarioKeys = sorted_strings (object_keys scenario),
          ch_displayName = opt_field subject ''displayName'',
          ch_attributeKeys = sorted_strings (object_keys (opt_field subject ''attributes''))\<rparr>)"

record nano_reply =
  nr_ok :: bool
  nr_text :: string
  nr_error :: "string option"

text \<open>Where the abort signal is read for one agent of a turn.\<close>

datatype checkpoint = ContextStart | ContextEnd | AtStart | BeforeAttempt nat | AfterAttempt nat

record call_env =
  cl_render :: "agent_context \<Rightarrow> string"
  cl_pick :: "int \<Rightarrow> cortex_hints \<Rightarrow> string"
  cl_registry :: "string \<Rightarrow> string option"
  cl_sort :: "string list \<Rightarrow> string list"
  cl_nano :: "string \<Rightarrow> string \<Rightarrow> int \<Rightarrow> nat \<Rightarrow> nano_reply throws"
  cl_extract :: "string \<Rightarrow> jval throws"
  cl_schema :: "jval \<Rightarrow> jval option"
  cl_aborted :: "int \<Rightarrow> checkpoint \<Rightarrow> exn option"

definition MAX_JSON_RETRIES :: nat where
  "MAX_JSON_RETRIES = 2"

definition attempt_result :: "call_env \<Rightarrow> nano_reply \<Rightarrow> turn_response throws" where
  "attempt_result env res =
     (if \<not> nr_ok res
      then Inl (mk_error (case nr_error res of Some e \<Rightarrow> e | None \<Rightarrow> ''nano call failed''))
      else
        (case cl_extract env (nr_text res) of
           Inl err \<Rightarrow> Inl err
         | Inr raw \<Rightarrow> parseTurnResponseFromRaw (cl_schema env) raw))"

text \<open>The loop over the attempts that are left.\<close>

fun attempts :: "call_env \<Rightarrow> string \<Rightarrow> string \<Rightarrow> int \<Rightarrow> nat list \<Rightarrow> exn option \<Rightarrow> turn_response throws \<times> nat" where
  "attempts env body prompt agent [] lastError =
     (Inl (mk_error (''response invalid after 3 attempts: '' @ (case lastError of Some e \<Rightarrow> emsg e | None \<Rightarrow> ''undefined''))), 0)"
| "attempts env body prompt agent (k # ks) lastError =
     (case cl_aborted env agent (BeforeAttempt k) of
        Some err \<Rightarrow> (Inl err, 0)
      | None \<Rightarrow>
          (case cl_nano env body prompt agent k of
             Inl err \<Rightarrow> (Inl err, 1)
           | Inr res \<Rightarrow>
               (case attempt_result env res of
                  Inr r \<Rightarrow> (Inr r, 1)
                | Inl err \<Rightarrow>
                    (case cl_aborted env agent (AfterAttempt k) of
                       Some err' \<Rightarrow> (Inl err', 1)
                     | None \<Rightarrow> map_prod id Suc (attempts env body prompt agent ks (Some err))))))"

text \<open>The answer and the number of calls of the language model.\<close>

definition callTurnAgent :: "call_env \<Rightarrow> agent_context \<Rightarrow> turn_response throws \<times> nat" where
  "callTurnAgent env ctx =
     (case cl_aborted env (ac_agent ctx) AtStart of
        Some err \<Rightarrow> (Inl err, 0)
      | None \<Rightarrow>
          let prompt = cl_render env ctx;
              cortexName = cl_pick env (ac_turn ctx) (buildCortexSelectionHints (cl_sort env) ctx)
          in (case cl_registry env cortexName of
                None \<Rightarrow> (Inl (mk_error (''Cortex skill '' @ cortexName @ '' not found in registry'')), 0)
              | Some body \<Rightarrow> attempts env body prompt (ac_agent ctx) [0..<MAX_JSON_RETRIES + 1] None))"

section \<open>Memory\<close>

record memory_env =
  me_embed :: "string \<Rightarrow> real list option throws"
  me_cosd :: "real list \<Rightarrow> real list \<Rightarrow> real"
  me_labels :: "int \<Rightarrow> string option"

definition safelyEmbed :: "memory_env \<Rightarrow> string \<Rightarrow> real list option" where
  "safelyEmbed env text = (case me_embed env text of Inr v \<Rightarrow> v | Inl _ \<Rightarrow> None)"

text \<open>Rows come without embeddings and are embedded on the way in.\<close>

definition memory_writeMany :: "memory_env \<Rightarrow> memory_write list \<Rightarrow> sim_db \<Rightarrow> (int list \<times> sim_db) throws" where
  "memory_writeMany env rows_in db =
     (if rows_in = [] then Inr ([], db)
      else writeMany (map (\<lambda>r. r\<lparr>mw_embedding := safelyEmbed env (mw_content r)\<rparr>) rows_in) db)"

definition memory_write_one :: "memory_env \<Rightarrow> memory_write \<Rightarrow> sim_db \<Rightarrow> (int \<times> sim_db) throws" where
  "memory_write_one env w db =
     (case writeMany [w\<lparr>mw_embedding := safelyEmbed env (mw_content w)\<rparr>] db of
        Inl err \<Rightarrow> Inl err
      | Inr ([], db') \<Rightarrow> Inl (mk_error ''Failed to insert sim_agent_memory'')
      | Inr (i # _, db') \<Rightarrow> Inr (i, db'))"

definition topK :: "memory_env \<Rightarrow> int \<Rightarrow> int \<Rightarrow> string \<Rightarrow> nat \<Rightarrow> sim_db \<Rightarrow> memory_row list" where
  "topK env run agent query k db =
     (case safelyEmbed env query of
        None \<Rightarrow> topKByRecency run agent k db
      | Some vec \<Rightarrow> map fst (topKByVector (me_cosd env) run agent vec k db))"

record observed_turn =
  ob_turn :: int
  ob_actor :: actor_kind
  ob_agent :: "int option"
  ob_author :: "string option"
  ob_summary :: string

definition memory_recentObservable :: "memory_env \<Rightarrow> observable_query \<Rightarrow> sim_db \<Rightarrow> observed_turn list" where
  "memory_recentObservable env q db =
     map (\<lambda>t. \<lparr>ob_turn = tn_index t, ob_actor = tn_actor t, ob_agent = tn_agent t,
               ob_author = Option.bind (tn_agent t) (me_labels env), ob_summary = tn_summary t\<rparr>)
       (recentObservable q db)"

section \<open>The context of a prompt\<close>

definition loadGodEvents :: "int \<Rightarrow> int \<Rightarrow> sim_db \<Rightarrow> god_event list" where
  "loadGodEvents run turn db = store_listGodEvents run turn 10 db"

record context_env =
  cx_memory :: memory_env
  cx_query :: string
  cx_scenario :: "int \<Rightarrow> jval option throws"
  cx_aborted :: "int \<Rightarrow> checkpoint \<Rightarrow> exn option"

definition author_label :: "observed_turn \<Rightarrow> string" where
  "author_label t =
     (case ob_author t of
        Some l \<Rightarrow> l
      | None \<Rightarrow> if ob_actor t = GodActor then ''GOD'' else ''SYSTEM'')"

definition agent_context_of ::
  "context_env \<Rightarrow> int \<Rightarrow> agent_row \<Rightarrow> int \<Rightarrow> json_object option \<Rightarrow> jval option \<Rightarrow> sim_db \<Rightarrow> agent_context" where
  "agent_context_of env run agent turn subject scenario db =
     \<lparr>ac_run = run, ac_agent = ag_id agent, ac_agentIndex = ag_index agent, ac_turn = turn,
      ac_persona = ag_persona agent, ac_goals = ag_goals agent, ac_constraints = ag_constraints agent,
      ac_memories = map (\<lambda>m. (mm_turn m, mm_kind m, mm_content m))
        (topK (cx_memory env) run (ag_id agent) (cx_query env) 8 db),
      ac_observable = map (\<lambda>t. (ob_turn t, ob_actor t, author_label t, ob_summary t))
        (memory_recentObservable (cx_memory env)
          \<lparr>bq_run = run, bq_since = turn - 6, bq_exclude = Some (ag_id agent), bq_limit = 20\<rparr> db),
      ac_godEvents = loadGodEvents run turn db,
      ac_subject = subject,
      ac_scenario = scenario\<rparr>"

definition buildTurnAgentContext ::
  "context_env \<Rightarrow> int \<Rightarrow> agent_row \<Rightarrow> int \<Rightarrow> json_object option \<Rightarrow> sim_db \<Rightarrow> agent_context throws" where
  "buildTurnAgentContext env run agent turn subject db =
     (case cx_aborted env (ag_id agent) ContextStart of
        Some err \<Rightarrow> Inl err
      | None \<Rightarrow>
          (case cx_scenario env run of
             Inl err \<Rightarrow> Inl err
           | Inr scenario \<Rightarrow>
               (case cx_aborted env (ag_id agent) ContextEnd of
                  Some err \<Rightarrow> Inl err
                | None \<Rightarrow> Inr (agent_context_of env run agent turn subject scenario db))))"

section \<open>The kinds of action\<close>

text \<open>The packs' actions are objects tagged by a string \<open>kind\<close>; a missing one prints as \<open>undefined\<close>.\<close>

definition kind_text :: "turn_action \<Rightarrow> string" where
  "kind_text action = (case field_of action ''kind'' of Some (JStr k) \<Rightarrow> k | _ \<Rightarrow> ''undefined'')"

definition isTerminal :: "turn_action \<Rightarrow> bool" where
  "isTerminal action =
     (field_of action ''kind'' = Some (JStr ''accept'') \<or> field_of action ''kind'' = Some (JStr ''reject''))"

definition isKgPromotable :: "turn_action \<Rightarrow> bool" where
  "isKgPromotable action =
     (field_of action ''kind'' \<in> {Some (JStr ''maneuver''), Some (JStr ''launch''), Some (JStr ''retire'')})"

section \<open>The rows of a turn\<close>

definition turn_row_of :: "int \<Rightarrow> int \<Rightarrow> int \<times> turn_response \<Rightarrow> turn_write" where
  "turn_row_of run turn s =
     \<lparr>uw_run = run, uw_index = turn, uw_agent = fst s, uw_action = tp_action (snd s),
      uw_rationale = tp_rationale (snd s), uw_summary = tp_summary (snd s)\<rparr>"

definition self_memory :: "int \<Rightarrow> int \<Rightarrow> int \<times> turn_response \<Rightarrow> memory_write" where
  "self_memory run turn s =
     \<lparr>mw_run = run, mw_agent = fst s, mw_turn = turn, mw_kind = SelfAction,
      mw_content = kind_text (tp_action (snd s)) @ '' - '' @ tp_rationale (snd s), mw_embedding = None\<rparr>"

definition observation_memory :: "int \<Rightarrow> int \<Rightarrow> turn_response \<Rightarrow> int \<Rightarrow> memory_write" where
  "observation_memory run turn r other =
     \<lparr>mw_run = run, mw_agent = other, mw_turn = turn, mw_kind = Observation,
      mw_content = tp_summary r, mw_embedding = None\<rparr>"

definition memory_rows :: "int \<Rightarrow> int \<Rightarrow> agent_row list \<Rightarrow> int \<times> turn_response \<Rightarrow> memory_write list" where
  "memory_rows run turn agents s =
     self_memory run turn s #
     map (observation_memory run turn (snd s)) (filter (\<lambda>i. i \<noteq> fst s) (map ag_id agents))"

section \<open>The sequential runner\<close>

record runner_env =
  ru_call :: call_env
  ru_ctx :: context_env
  ru_subject :: "int \<Rightarrow> json_object option"

record turn_result =
  rt_turnId :: int
  rt_agent :: int
  rt_action :: turn_action
  rt_terminal :: bool
  rt_promoted :: "int option"

text \<open>\<open>agents[turnIndex % agents.length]\<close>: the remainder takes the sign of \<open>turnIndex\<close>.\<close>

definition speaker_of :: "agent_row list \<Rightarrow> int \<Rightarrow> agent_row option" where
  "speaker_of agents turn =
     (let n = int (length agents) in
      if 0 \<le> turn \<or> turn mod n = 0 then Some (agents ! nat (turn mod n)) else None)"

definition no_agents :: exn where
  "no_agents = mk_error ''No agents for sim_run''"

definition type_error :: exn where
  "type_error = \<lparr>ename = ''TypeError'', emsg = ''Cannot read properties of undefined''\<rparr>"

definition close_if_terminal :: "bool \<Rightarrow> int \<Rightarrow> int \<Rightarrow> sim_db \<Rightarrow> sim_db" where
  "close_if_terminal t run now db = (if t then updateStatus run RunDone (Some (Some now)) db else db)"

definition persist_sequential ::
  "int \<Rightarrow> int \<Rightarrow> agent_row list \<Rightarrow> int \<times> turn_response \<Rightarrow> int \<Rightarrow> sim_db \<Rightarrow> (turn_result \<times> sim_db) throws" where
  "persist_sequential run turn agents s now db =
     (case persistTurnBatch [turn_row_of run turn s] (memory_rows run turn agents s) now db of
        Inl err \<Rightarrow> Inl err
      | Inr ([], db') \<Rightarrow> Inl (mk_error ''persistTurnBatch returned no sim_turn id'')
      | Inr (i # _, db') \<Rightarrow>
          let t = isTerminal (tp_action (snd s)) in
          Inr (\<lparr>rt_turnId = i, rt_agent = fst s, rt_action = tp_action (snd s), rt_terminal = t,
                rt_promoted = None\<rparr>,
               close_if_terminal t run now db'))"

definition sequential_answer ::
  "runner_env \<Rightarrow> int \<Rightarrow> agent_row \<Rightarrow> int \<Rightarrow> sim_db \<Rightarrow> turn_response throws" where
  "sequential_answer env run speaker turn db =
     (case buildTurnAgentContext (ru_ctx env) run speaker turn (ru_subject env (ag_id speaker)) db of
        Inl err \<Rightarrow> Inl err
      | Inr ctx \<Rightarrow> fst (callTurnAgent (ru_call env) ctx))"

definition sequential_runTurn ::
  "runner_env \<Rightarrow> int \<Rightarrow> int \<Rightarrow> int \<Rightarrow> sim_db \<Rightarrow> (turn_result \<times> sim_db) throws" where
  "sequential_runTurn env run turn now db =
     (let agents = listByRun run db in
      if agents = [] then Inl no_agents
      else
        (case speaker_of agents turn of
           None \<Rightarrow> Inl type_error
         | Some speaker \<Rightarrow>
             (case sequential_answer env run speaker turn db of
                Inl err \<Rightarrow> Inl err
              | Inr r \<Rightarrow> persist_sequential run turn agents (ag_id speaker, r) now db)))"

section \<open>The DAG runner\<close>

record dag_agent_result =
  dr_agent :: int
  dr_turnId :: "int option"
  dr_action :: "turn_action option"
  dr_error :: "string option"

text \<open>\<open>Promise.all\<close>: the model reports the first failure in agent order.\<close>

fun all_ok :: "'a throws list \<Rightarrow> 'a list throws" where
  "all_ok [] = Inr []"
| "all_ok (x # xs) =
     (case x of Inl err \<Rightarrow> Inl err | Inr v \<Rightarrow> (case all_ok xs of Inl err \<Rightarrow> Inl err | Inr vs \<Rightarrow> Inr (v # vs)))"

definition dag_successes :: "agent_row list \<Rightarrow> turn_response throws list \<Rightarrow> (int \<times> turn_response) list" where
  "dag_successes agents results =
     List.map_filter (\<lambda>(a, r). case r of Inr v \<Rightarrow> Some (ag_id a, v) | Inl _ \<Rightarrow> None) (zip agents results)"

definition dag_failures :: "agent_row list \<Rightarrow> turn_response throws list \<Rightarrow> (int \<times> string) list" where
  "dag_failures agents results =
     List.map_filter (\<lambda>(a, r). case r of Inl err \<Rightarrow> Some (ag_id a, emsg err) | Inr _ \<Rightarrow> None) (zip agents results)"

definition dag_memories :: "int \<Rightarrow> int \<Rightarrow> agent_row list \<Rightarrow> (int \<times> turn_response) list \<Rightarrow> memory_write list" where
  "dag_memories run turn agents ss = concat (map (memory_rows run turn agents) ss)"

definition dag_result ::
  "(int \<times> turn_response) list \<Rightarrow> (int \<times> string) list \<Rightarrow> int list \<Rightarrow> agent_row \<Rightarrow> dag_agent_result" where
  "dag_result ss fs ids a =
     (let s = find (\<lambda>s. fst s = ag_id a) ss in
      \<lparr>dr_agent = ag_id a,
       dr_turnId = (case s of None \<Rightarrow> None | Some _ \<Rightarrow> map_of (rev (zip (map fst ss) ids)) (ag_id a)),
       dr_action = map_option (\<lambda>s. tp_action (snd s)) s,
       dr_error = map_option snd (find (\<lambda>f. fst f = ag_id a) fs)\<rparr>)"

definition dag_answers :: "runner_env \<Rightarrow> int \<Rightarrow> agent_row list \<Rightarrow> int \<Rightarrow> sim_db \<Rightarrow> turn_response throws list throws" where
  "dag_answers env run agents turn db =
     (case all_ok (map (\<lambda>a. buildTurnAgentContext (ru_ctx env) run a turn (ru_subject env (ag_id a)) db) agents) of
        Inl err \<Rightarrow> Inl err
      | Inr contexts \<Rightarrow> Inr (map (\<lambda>ctx. fst (callTurnAgent (ru_call env) ctx)) contexts))"

definition all_failed :: "(int \<times> string) list \<Rightarrow> exn" where
  "all_failed fs = mk_error (''DAG turn failed for all agents: '' @ concat (map snd fs))"

definition persist_dag ::
  "int \<Rightarrow> int \<Rightarrow> agent_row list \<Rightarrow> (int \<times> turn_response) list \<Rightarrow> (int \<times> string) list \<Rightarrow> int \<Rightarrow> sim_db \<Rightarrow>
   ((dag_agent_result list \<times> int list) \<times> sim_db) throws" where
  "persist_dag run turn agents ss fs now db =
     (case persistTurnBatch (map (turn_row_of run turn) ss) (dag_memories run turn agents ss) now db of
        Inl err \<Rightarrow> Inl err
      | Inr (ids, db') \<Rightarrow>
          if length ids \<noteq> length ss
          then Inl (mk_error ''persistTurnBatch returned an unexpected sim_turn id count'')
          else Inr ((map (dag_result ss fs ids) agents, map fst fs), db'))"

definition dag_runTurn ::
  "runner_env \<Rightarrow> int \<Rightarrow> int \<Rightarrow> int \<Rightarrow> sim_db \<Rightarrow> ((dag_agent_result list \<times> int list) \<times> sim_db) throws" where
  "dag_runTurn env run turn now db =
     (let agents = listByRun run db in
      if agents = [] then Inl no_agents
      else
        (case dag_answers env run agents turn db of
           Inl err \<Rightarrow> Inl err
         | Inr results \<Rightarrow>
             let ss = dag_successes agents results; fs = dag_failures agents results in
             if ss = [] then Inl (all_failed fs) else persist_dag run turn agents ss fs now db))"

definition maybeCloseRun :: "int \<Rightarrow> int \<Rightarrow> int \<Rightarrow> int \<Rightarrow> sim_db \<Rightarrow> bool \<times> sim_db" where
  "maybeCloseRun run turn maxTurns now db =
     (if turn + 1 < maxTurns then (False, db)
      else (True, updateStatus run RunDone (Some (Some now)) db))"

section \<open>Answers\<close>

definition answer_at :: "call_env \<Rightarrow> string \<Rightarrow> string \<Rightarrow> int \<Rightarrow> nat \<Rightarrow> turn_response throws" where
  "answer_at env body prompt agent k =
     (case cl_nano env body prompt agent k of Inl err \<Rightarrow> Inl err | Inr res \<Rightarrow> attempt_result env res)"

definition usable :: "'a throws \<Rightarrow> bool" where
  "usable x = (case x of Inr _ \<Rightarrow> True | Inl _ \<Rightarrow> False)"

definition valid_response :: "(jval \<Rightarrow> jval option) \<Rightarrow> turn_response \<Rightarrow> bool" where
  "valid_response schema r =
     ((\<exists>x. schema x = Some (tp_action r)) \<and> 10 \<le> length (tp_rationale r) \<and> 5 \<le> length (tp_summary r))"

lemma min_string_length: "min_string n v = Some s \<Longrightarrow> n \<le> length s"
  by (auto simp: min_string_def split: option.splits jval.splits if_splits)

lemma responseSchema_valid: "responseSchema schema raw = Some r \<Longrightarrow> valid_response schema r"
  by (auto simp: responseSchema_def valid_response_def bind_eq_Some_conv dest: min_string_length split: option.splits)

lemma parse_valid: "parseTurnResponseFromRaw schema raw = Inr r \<Longrightarrow> valid_response schema r"
  by (auto simp: parseTurnResponseFromRaw_def Let_def intro: responseSchema_valid split: option.splits)

lemma attempt_valid: "attempt_result env res = Inr r \<Longrightarrow> valid_response (cl_schema env) r"
  by (auto simp: attempt_result_def intro: parse_valid split: if_splits sum.splits)

lemma attempts_bound: "snd (attempts env body prompt agent ks e) \<le> length ks"
  by (induction ks arbitrary: e) (auto split: option.splits sum.splits)

lemma attempts_valid: "fst (attempts env body prompt agent ks e) = Inr r \<Longrightarrow> valid_response (cl_schema env) r"
  by (induction ks arbitrary: e) (auto intro: attempt_valid split: option.splits sum.splits)

lemma attempts_first:
  assumes "\<forall>c. cl_aborted env agent c = None"
    and "\<forall>j \<in> set pre. \<not> usable (answer_at env body prompt agent j) \<and> (\<exists>res. cl_nano env body prompt agent j = Inr res)"
    and "usable (answer_at env body prompt agent k)"
  shows "attempts env body prompt agent (pre @ k # post) e = (answer_at env body prompt agent k, length pre + 1)"
  using assms(2)
proof (induction pre arbitrary: e)
  case Nil
  with assms(1,3) show ?case by (auto simp: answer_at_def usable_def split: sum.splits)
next
  case (Cons j pre)
  then obtain res where res: "cl_nano env body prompt agent j = Inr res" by auto
  with Cons.prems have "\<not> usable (attempt_result env res)" by (auto simp: answer_at_def)
  then obtain err where "attempt_result env res = Inl err" by (auto simp: usable_def split: sum.splits)
  then show ?case using Cons res assms(1) by simp
qed

lemma attempts_none:
  assumes "\<forall>c. cl_aborted env agent c = None"
    and "\<forall>j \<in> set ks. \<not> usable (answer_at env body prompt agent j) \<and> (\<exists>res. cl_nano env body prompt agent j = Inr res)"
  shows "\<exists>msg. attempts env body prompt agent ks e = (Inl (mk_error msg), length ks)"
  using assms(2)
proof (induction ks arbitrary: e)
  case Nil
  show ?case by auto
next
  case (Cons j ks)
  then obtain res where res: "cl_nano env body prompt agent j = Inr res" by auto
  with Cons.prems have "\<not> usable (attempt_result env res)" by (auto simp: answer_at_def)
  then obtain err where "attempt_result env res = Inl err" by (auto simp: usable_def split: sum.splits)
  moreover obtain msg where "attempts env body prompt agent ks (Some err) = (Inl (mk_error msg), length ks)"
    using Cons.IH [of "Some err"] Cons.prems by auto
  ultimately have "attempts env body prompt agent (j # ks) e = (Inl (mk_error msg), length (j # ks))"
    using res assms(1) by simp
  then show ?case by blast
qed

lemma callTurnAgent_run:
  assumes "\<forall>c. cl_aborted env (ac_agent ctx) c = None"
    and "cl_registry env (cl_pick env (ac_turn ctx) (buildCortexSelectionHints (cl_sort env) ctx)) = Some body"
  shows "callTurnAgent env ctx = attempts env body (cl_render env ctx) (ac_agent ctx) [0, 1, 2] None"
proof -
  have "[0..<MAX_JSON_RETRIES + 1] = [0, 1, 2]" by (simp add: MAX_JSON_RETRIES_def upt_rec)
  then show ?thesis using assms by (simp add: callTurnAgent_def Let_def del: attempts.simps)
qed

section \<open>What a batch leaves behind\<close>

definition written_memory :: "memory_row \<Rightarrow> memory_write" where
  "written_memory m =
     \<lparr>mw_run = mm_run m, mw_agent = mm_agent m, mw_turn = mm_turn m, mw_kind = mm_kind m,
      mw_content = mm_content m, mw_embedding = mm_embedding m\<rparr>"

definition written_turn :: "turn_row \<Rightarrow> turn_write" where
  "written_turn t =
     \<lparr>uw_run = tn_run t, uw_index = tn_index t, uw_agent = the (tn_agent t), uw_action = tn_action t,
      uw_rationale = tn_rationale t, uw_summary = tn_summary t\<rparr>"

definition agent_turn_rows :: "turn_row list \<Rightarrow> int \<Rightarrow> bool" where
  "agent_turn_rows ts now =
     list_all (\<lambda>t. tn_actor t = AgentActor \<and> tn_agent t \<noteq> None \<and> tn_createdAt t = now) ts"

lemma insert_memory_row:
  assumes "memory_insert w db = Inr (k, db1)"
  shows "\<exists>m. db1 = db\<lparr>db_memories := db_memories db @ [m]\<rparr> \<and> written_memory m = w"
proof -
  let ?m = "\<lparr>mm_id = k, mm_run = mw_run w, mm_agent = mw_agent w, mm_turn = mw_turn w, mm_kind = mw_kind w,
            mm_content = mw_content w, mm_embedding = mw_embedding w\<rparr>"
  have "db1 = db\<lparr>db_memories := db_memories db @ [?m]\<rparr>"
    using assms by (auto simp: memory_insert_def Let_def split: if_splits)
  moreover have "written_memory ?m = w" by (simp add: written_memory_def)
  ultimately show ?thesis by (intro exI [of _ ?m]) simp
qed

lemma insert_memories:
  "insert_all memory_insert ws db = Inr (ids, db') \<Longrightarrow>
   \<exists>new. db' = db\<lparr>db_memories := db_memories db @ new\<rparr> \<and> map written_memory new = ws"
proof (induction ws arbitrary: db ids)
  case Nil
  then show ?case by simp
next
  case (Cons w ws)
  obtain k db1 ids1 where s: "memory_insert w db = Inr (k, db1)" "insert_all memory_insert ws db1 = Inr (ids1, db')"
    using Cons.prems by (auto split: sum.splits prod.splits)
  from Cons.IH [OF s(2)] obtain new where new: "db' = db1\<lparr>db_memories := db_memories db1 @ new\<rparr>"
    "map written_memory new = ws" by blast
  from insert_memory_row [OF s(1)] obtain m where "db1 = db\<lparr>db_memories := db_memories db @ [m]\<rparr>"
    "written_memory m = w" by blast
  with new have "db' = db\<lparr>db_memories := db_memories db @ (m # new)\<rparr> \<and> map written_memory (m # new) = w # ws"
    by simp
  then show ?case by (rule exI [of _ "m # new"])
qed

lemma insert_turn_row:
  assumes "insertAgentTurn w now db = Inr (k, db1)"
  shows "\<exists>t. db1 = db\<lparr>db_turns := db_turns db @ [t]\<rparr> \<and> written_turn t = w \<and> tn_id t = k \<and> agent_turn_rows [t] now"
proof -
  let ?t = "\<lparr>tn_id = k, tn_run = uw_run w, tn_index = uw_index w, tn_actor = AgentActor, tn_agent = Some (uw_agent w),
            tn_action = uw_action w, tn_rationale = uw_rationale w, tn_summary = uw_summary w, tn_createdAt = now\<rparr>"
  have "db1 = db\<lparr>db_turns := db_turns db @ [?t]\<rparr>"
    using assms by (auto simp: insertAgentTurn_def Let_def split: if_splits)
  moreover have "written_turn ?t = w" "agent_turn_rows [?t] now" by (simp_all add: written_turn_def agent_turn_rows_def)
  ultimately show ?thesis by (intro exI [of _ ?t]) simp
qed

lemma insert_turns:
  "insert_all (\<lambda>w. insertAgentTurn w now) ws db = Inr (ids, db') \<Longrightarrow>
   \<exists>new. db' = db\<lparr>db_turns := db_turns db @ new\<rparr> \<and> map written_turn new = ws \<and> map tn_id new = ids \<and>
         agent_turn_rows new now"
proof (induction ws arbitrary: db ids)
  case Nil
  then show ?case by (simp add: agent_turn_rows_def)
next
  case (Cons w ws)
  obtain k db1 ids1 where s: "insertAgentTurn w now db = Inr (k, db1)"
    "insert_all (\<lambda>w. insertAgentTurn w now) ws db1 = Inr (ids1, db')" "ids = k # ids1"
    using Cons.prems by (auto split: sum.splits prod.splits)
  from Cons.IH [OF s(2)] obtain new where new: "db' = db1\<lparr>db_turns := db_turns db1 @ new\<rparr>"
    "map written_turn new = ws" "map tn_id new = ids1" "agent_turn_rows new now" by blast
  from insert_turn_row [OF s(1)] obtain t where t: "db1 = db\<lparr>db_turns := db_turns db @ [t]\<rparr>" "written_turn t = w"
    "tn_id t = k" "agent_turn_rows [t] now" by blast
  with new s(3) have "db' = db\<lparr>db_turns := db_turns db @ (t # new)\<rparr> \<and> map written_turn (t # new) = w # ws \<and>
      map tn_id (t # new) = ids \<and> agent_turn_rows (t # new) now"
    by (simp add: agent_turn_rows_def)
  then show ?case by (rule exI [of _ "t # new"])
qed

lemma persist_rows:
  assumes "persistTurnBatch ts ms now db = Inr (ids, db')"
  shows "\<exists>nt nm. db' = db\<lparr>db_turns := db_turns db @ nt, db_memories := db_memories db @ nm\<rparr> \<and>
    map written_turn nt = ts \<and> map tn_id nt = ids \<and> agent_turn_rows nt now \<and> map written_memory nm = ms"
proof (cases "ts = [] \<and> ms = []")
  case True
  with assms have "db' = db \<and> ids = []" by (simp add: persistTurnBatch_def)
  with True show ?thesis by (auto simp: agent_turn_rows_def)
next
  case False
  obtain db1 ids2 where s: "insert_all (\<lambda>w. insertAgentTurn w now) ts db = Inr (ids, db1)"
    "insert_all memory_insert ms db1 = Inr (ids2, db')"
    using assms False by (auto simp: persistTurnBatch_def split: sum.splits prod.splits)
  from insert_turns [OF s(1)] obtain nt where nt: "db1 = db\<lparr>db_turns := db_turns db @ nt\<rparr>"
    "map written_turn nt = ts" "map tn_id nt = ids" "agent_turn_rows nt now" by blast
  from insert_memories [OF s(2)] obtain nm where nm: "db' = db1\<lparr>db_memories := db_memories db1 @ nm\<rparr>"
    "map written_memory nm = ms" by blast
  have "db' = db\<lparr>db_turns := db_turns db @ nt, db_memories := db_memories db @ nm\<rparr>" using nt(1) nm(1) by simp
  then show ?thesis using nt nm by blast
qed

section \<open>The effect of a turn\<close>

text \<open>What a reader sees of a turn, and what an agent keeps of it.\<close>

definition turn_view :: "turn_row \<Rightarrow> int \<times> actor_kind \<times> int option \<times> turn_action \<times> string \<times> string" where
  "turn_view t = (tn_index t, tn_actor t, tn_agent t, tn_action t, tn_rationale t, tn_summary t)"

definition memory_view :: "memory_row \<Rightarrow> int \<times> memory_kind \<times> string" where
  "memory_view m = (mm_turn m, mm_kind m, mm_content m)"

definition spoken :: "int \<Rightarrow> int \<times> turn_response \<Rightarrow> int \<times> actor_kind \<times> int option \<times> turn_action \<times> string \<times> string" where
  "spoken turn s = (turn, AgentActor, Some (fst s), tp_action (snd s), tp_rationale (snd s), tp_summary (snd s))"

definition remembered :: "int \<Rightarrow> int \<Rightarrow> int \<times> turn_response \<Rightarrow> int \<times> memory_kind \<times> string" where
  "remembered turn a s =
     (if fst s = a then (turn, SelfAction, kind_text (tp_action (snd s)) @ '' - '' @ tp_rationale (snd s))
      else (turn, Observation, tp_summary (snd s)))"

lemma view_written_turn:
  "written_turn t = turn_row_of run turn s \<Longrightarrow> agent_turn_rows [t] now \<Longrightarrow> turn_view t = spoken turn s \<and> tn_run t = run"
  by (auto simp: written_turn_def turn_row_of_def turn_view_def spoken_def agent_turn_rows_def)

lemma view_written_turns:
  "map written_turn ts = map (turn_row_of run turn) ss \<Longrightarrow> agent_turn_rows ts now \<Longrightarrow>
   map turn_view ts = map (spoken turn) ss \<and> list_all (\<lambda>t. tn_run t = run) ts"
proof (induction ts arbitrary: ss)
  case (Cons t ts)
  then obtain s ss' where "ss = s # ss'" by (cases ss) auto
  with Cons view_written_turn [of t run turn s now] show ?case by (auto simp: agent_turn_rows_def)
qed (auto simp: agent_turn_rows_def)

definition share :: "int \<Rightarrow> int \<Rightarrow> int \<Rightarrow> int \<times> turn_response \<Rightarrow> memory_write" where
  "share run turn a s = (if fst s = a then self_memory run turn s else observation_memory run turn (snd s) a)"

definition write_view :: "memory_write \<Rightarrow> int \<times> memory_kind \<times> string" where
  "write_view w = (mw_turn w, mw_kind w, mw_content w)"

lemma view_of_share: "write_view (share run turn a s) = remembered turn a s"
  by (simp add: write_view_def share_def remembered_def self_memory_def observation_memory_def)

lemma view_of_written: "write_view (written_memory m) = memory_view m"
  by (simp add: write_view_def written_memory_def memory_view_def)

lemma filter_others:
  "distinct xs \<Longrightarrow> filter (\<lambda>x. x = a \<and> x \<noteq> b) xs = (if a \<in> set xs \<and> a \<noteq> b then [a] else [])"
  by (induction xs) auto

lemma rows_for_agent:
  assumes "distinct (map ag_id agents)" "a \<in> set (map ag_id agents)"
  shows "filter (\<lambda>w. mw_run w = run \<and> mw_agent w = a) (memory_rows run turn agents s) = [share run turn a s]"
proof -
  have obs: "filter (\<lambda>w. mw_run w = run \<and> mw_agent w = a)
      (map (observation_memory run turn r) (filter (\<lambda>i. i \<noteq> b) xs)) =
     map (observation_memory run turn r) (filter (\<lambda>x. x = a \<and> x \<noteq> b) xs)" for r b and xs :: "int list"
    by (induction xs) (auto simp: observation_memory_def)
  show ?thesis
    using assms filter_others [OF assms(1), of a "fst s"]
    by (auto simp: memory_rows_def obs self_memory_def share_def)
qed

lemma batch_rows_for_agent:
  assumes "distinct (map ag_id agents)" "a \<in> set (map ag_id agents)"
  shows "filter (\<lambda>w. mw_run w = run \<and> mw_agent w = a) (dag_memories run turn agents ss) = map (share run turn a) ss"
  by (induction ss) (simp_all add: dag_memories_def rows_for_agent [OF assms])

lemma agent_ids_distinct: "db_ok db \<Longrightarrow> distinct (map ag_id (listByRun run db))"
proof -
  assume "db_ok db"
  then have "distinct (map ag_id (db_agents db))" by (simp add: db_ok_def serial_distinct)
  then have "distinct (map ag_id (filter (\<lambda>a. ag_run a = run) (db_agents db)))" by (rule distinct_map_filter)
  then show ?thesis by (simp add: listByRun_def distinct_map)
qed

definition batch_effect :: "int \<Rightarrow> int \<Rightarrow> (int \<times> turn_response) list \<Rightarrow> sim_db \<Rightarrow> sim_db \<Rightarrow> bool" where
  "batch_effect run turn ss db db' =
     (map turn_view (turns_of run db') = map turn_view (turns_of run db) @ map (spoken turn) ss \<and>
      list_all (\<lambda>a. map memory_view (memories_of run (ag_id a) db') =
                    map memory_view (memories_of run (ag_id a) db) @ map (remembered turn (ag_id a)) ss)
        (listByRun run db))"

lemma persist_effect:
  assumes ok: "db_ok db"
    and p: "persistTurnBatch (map (turn_row_of run turn) ss) (dag_memories run turn (listByRun run db) ss) now db =
      Inr (ids, db')"
  shows "batch_effect run turn ss db db'" "db_runs db' = db_runs db" "length ids = length ss"
proof -
  let ?agents = "listByRun run db"
  from persist_rows [OF p] obtain nt nm where db': "db' = db\<lparr>db_turns := db_turns db @ nt, db_memories := db_memories db @ nm\<rparr>"
    and nt: "map written_turn nt = map (turn_row_of run turn) ss" "map tn_id nt = ids" "agent_turn_rows nt now"
    and nm: "map written_memory nm = dag_memories run turn ?agents ss" by blast
  from db' show "db_runs db' = db_runs db" by simp
  show "length ids = length ss" using nt(1,2) map_eq_imp_length_eq by fastforce
  from view_written_turns [OF nt(1,3)]
  have "map turn_view (turns_of run db') = map turn_view (turns_of run db) @ map (spoken turn) ss"
    by (simp add: turns_of_def db' list_all_iff cong: filter_cong)
  moreover have "map memory_view (memories_of run (ag_id a) db') =
      map memory_view (memories_of run (ag_id a) db) @ map (remembered turn (ag_id a)) ss" if a: "a \<in> set ?agents" for a
  proof -
    have "map memory_view (filter (\<lambda>m. mm_run m = run \<and> mm_agent m = ag_id a) nm) =
        map write_view (filter (\<lambda>w. mw_run w = run \<and> mw_agent w = ag_id a) (map written_memory nm))"
      by (induction nm) (auto simp: view_of_written, simp_all add: written_memory_def)
    also have "\<dots> = map (remembered turn (ag_id a)) ss"
      using a by (simp add: nm batch_rows_for_agent agent_ids_distinct [OF ok] view_of_share)
    finally show ?thesis by (simp add: memories_of_def db')
  qed
  ultimately show "batch_effect run turn ss db db'" by (simp add: batch_effect_def list_all_iff)
qed

lemma sequential_cases:
  assumes "sequential_runTurn env run turn now db = Inr (res, db')"
  obtains speaker r db1 i js where "listByRun run db \<noteq> []" "speaker_of (listByRun run db) turn = Some speaker"
    "sequential_answer env run speaker turn db = Inr r"
    "persistTurnBatch [turn_row_of run turn (ag_id speaker, r)] (memory_rows run turn (listByRun run db) (ag_id speaker, r))
       now db = Inr (i # js, db1)"
    "res = \<lparr>rt_turnId = i, rt_agent = ag_id speaker, rt_action = tp_action r, rt_terminal = isTerminal (tp_action r),
            rt_promoted = None\<rparr>"
    "db' = close_if_terminal (isTerminal (tp_action r)) run now db1"
  using assms
  by (auto simp: sequential_runTurn_def persist_sequential_def Let_def
      split: if_splits option.splits sum.splits prod.splits list.splits)

lemma dag_cases:
  assumes "dag_runTurn env run turn now db = Inr ((results, failed), db')"
  obtains answers ids where "listByRun run db \<noteq> []" "dag_answers env run (listByRun run db) turn db = Inr answers"
    "dag_successes (listByRun run db) answers \<noteq> []"
    "persistTurnBatch (map (turn_row_of run turn) (dag_successes (listByRun run db) answers))
       (dag_memories run turn (listByRun run db) (dag_successes (listByRun run db) answers)) now db = Inr (ids, db')"
    "results = map (dag_result (dag_successes (listByRun run db) answers) (dag_failures (listByRun run db) answers) ids)
       (listByRun run db)"
    "failed = map fst (dag_failures (listByRun run db) answers)"
  using assms
  by (auto simp: dag_runTurn_def persist_dag_def Let_def split: if_splits sum.splits prod.splits)

lemma close_if_terminal_rows:
  "db_turns (close_if_terminal t run now db) = db_turns db"
  "db_memories (close_if_terminal t run now db) = db_memories db"
  "map (\<lambda>r. (rn_id r, rn_status r)) (db_runs (close_if_terminal t run now db)) =
   map (\<lambda>r. (rn_id r, if t \<and> rn_id r = run then RunDone else rn_status r)) (db_runs db)"
  by (simp_all add: close_if_terminal_def updateStatus_def)

lemma batch_effect_cong:
  "db_turns db2 = db_turns db1 \<Longrightarrow> db_memories db2 = db_memories db1 \<Longrightarrow>
   batch_effect run turn ss db db1 \<Longrightarrow> batch_effect run turn ss db db2"
  by (simp add: batch_effect_def turns_of_def memories_of_def)

lemma single_batch: "memory_rows run turn agents s = dag_memories run turn agents [s]"
  by (simp add: dag_memories_def)

lemma call_valid: "fst (callTurnAgent env ctx) = Inr r \<Longrightarrow> valid_response (cl_schema env) r"
  unfolding callTurnAgent_def Let_def by (auto intro: attempts_valid split: option.splits)

lemma answer_valid: "sequential_answer env run speaker turn db = Inr r \<Longrightarrow> valid_response (cl_schema (ru_call env)) r"
  by (auto simp: sequential_answer_def intro: call_valid split: sum.splits)

lemma all_ok_length: "all_ok xs = Inr vs \<Longrightarrow> length vs = length xs"
  by (induction xs arbitrary: vs) (auto split: sum.splits)

lemma dag_answers_props:
  assumes "dag_answers env run agents turn db = Inr answers"
  shows "length answers = length agents" "\<forall>x \<in> set answers. \<forall>r. x = Inr r \<longrightarrow> valid_response (cl_schema (ru_call env)) r"
proof -
  from assms obtain contexts where "answers = map (\<lambda>ctx. fst (callTurnAgent (ru_call env) ctx)) contexts"
    "length contexts = length agents"
    by (auto simp: dag_answers_def dest: all_ok_length split: sum.splits)
  then show "length answers = length agents"
    "\<forall>x \<in> set answers. \<forall>r. x = Inr r \<longrightarrow> valid_response (cl_schema (ru_call env)) r"
    using call_valid by auto
qed

lemma dag_partition:
  assumes "length answers = length agents" "distinct (map ag_id agents)"
  shows "fst ` set (dag_successes agents answers) \<union> fst ` set (dag_failures agents answers) = ag_id ` set agents \<and>
         fst ` set (dag_successes agents answers) \<inter> fst ` set (dag_failures agents answers) = {}"
  using assms
proof (induction agents answers rule: list_induct2')
  case (4 a as x xs)
  have sub: "fst ` set (dag_successes as xs) \<subseteq> ag_id ` set as" "fst ` set (dag_failures as xs) \<subseteq> ag_id ` set as"
    using 4 by auto
  have "dag_successes (a # as) (x # xs) = (case x of Inr v \<Rightarrow> [(ag_id a, v)] | Inl _ \<Rightarrow> []) @ dag_successes as xs"
    "dag_failures (a # as) (x # xs) = (case x of Inl e \<Rightarrow> [(ag_id a, emsg e)] | Inr _ \<Rightarrow> []) @ dag_failures as xs"
    by (simp_all add: dag_successes_def dag_failures_def map_filter_simps split: sum.splits)
  with 4 sub show ?case by (cases x) auto
qed (simp_all add: dag_successes_def dag_failures_def map_filter_simps)

lemma dag_successes_valid:
  "\<forall>x \<in> set answers. \<forall>r. x = Inr r \<longrightarrow> P r \<Longrightarrow> \<forall>s \<in> set (dag_successes agents answers). P (snd s)"
  by (auto simp: dag_successes_def map_filter_def dest!: set_zip_rightD split: sum.splits)

lemma find_key: "(find (\<lambda>s. fst s = k) xs = None) = (k \<notin> fst ` set xs)"
  by (induction xs) auto

lemma dag_result_reports:
  assumes "length ids = length ss"
  shows "dr_agent (dag_result ss fs ids a) = ag_id a"
    and "dr_action (dag_result ss fs ids a) \<noteq> None \<longleftrightarrow> ag_id a \<in> fst ` set ss"
    and "dr_turnId (dag_result ss fs ids a) \<noteq> None \<longleftrightarrow> ag_id a \<in> fst ` set ss"
    and "dr_error (dag_result ss fs ids a) \<noteq> None \<longleftrightarrow> ag_id a \<in> fst ` set fs"
proof -
  have dom: "map_of (rev (zip (map fst ss) ids)) k = None \<longleftrightarrow> k \<notin> fst ` set ss" for k
  proof -
    have "map fst (zip (map fst ss) ids) = map fst ss" using assms by simp
    then have "fst ` set (rev (zip (map fst ss) ids)) = fst ` set ss" by (metis list.set_map set_rev)
    then show ?thesis by (simp add: map_of_eq_None_iff)
  qed
  show "dr_agent (dag_result ss fs ids a) = ag_id a" by (simp add: dag_result_def Let_def)
  show "dr_action (dag_result ss fs ids a) \<noteq> None \<longleftrightarrow> ag_id a \<in> fst ` set ss"
    using find_key [of "ag_id a" ss] by (simp add: dag_result_def Let_def)
  show "dr_turnId (dag_result ss fs ids a) \<noteq> None \<longleftrightarrow> ag_id a \<in> fst ` set ss"
    using find_key [of "ag_id a" ss] dom [of "ag_id a"]
    by (auto simp: dag_result_def Let_def split: option.splits simp del: not_None_eq)
  show "dr_error (dag_result ss fs ids a) \<noteq> None \<longleftrightarrow> ag_id a \<in> fst ` set fs"
    using find_key [of "ag_id a" fs] by (simp add: dag_result_def Let_def)
qed

section \<open>What agents recall\<close>

text \<open>The states the kernel reaches: the operations of the store that write no memories, and turns. Rows that a
  client posts to the memory route of the console (\<open>sim-memory.controller.ts\<close>), which may carry an embedding of
  its own, are not among them.\<close>

inductive kernel_reach :: "sim_db \<Rightarrow> bool" where
  kernel_empty: "kernel_reach empty_db"
| kernel_swarm: "kernel_reach db \<Longrightarrow> kernel_reach (snd (swarm_insert w db))"
| kernel_run: "kernel_reach db \<Longrightarrow> run_insert rw db = Inr (i, db') \<Longrightarrow> kernel_reach db'"
| kernel_agent: "kernel_reach db \<Longrightarrow> agent_insert aw db = Inr (i, db') \<Longrightarrow> kernel_reach db'"
| kernel_god: "kernel_reach db \<Longrightarrow> insertGodTurn gw now db = Inr (i, db') \<Longrightarrow> kernel_reach db'"
| kernel_sequential: "kernel_reach db \<Longrightarrow> sequential_runTurn env run turn now db = Inr (res, db') \<Longrightarrow> kernel_reach db'"
| kernel_dag: "kernel_reach db \<Longrightarrow> dag_runTurn env run turn now db = Inr (res', db') \<Longrightarrow> kernel_reach db'"
| kernel_status: "kernel_reach db \<Longrightarrow> kernel_reach (updateStatus i st c db)"
| kernel_claim: "kernel_reach db \<Longrightarrow> kernel_reach (snd (claimPendingFishForSwarm i n db))"
| kernel_close: "kernel_reach db \<Longrightarrow> kernel_reach (closeSwarm i k now db)"
| kernel_abort: "kernel_reach db \<Longrightarrow> kernel_reach (abortSwarm i now db)"
| kernel_snapshot: "kernel_reach db \<Longrightarrow> snapshotAggregate i key v db = Inr db' \<Longrightarrow> kernel_reach db'"

definition unembedded :: "sim_db \<Rightarrow> bool" where
  "unembedded db = list_all (\<lambda>m. mm_embedding m = None) (db_memories db)"

lemma dag_memories_unembedded: "\<forall>w \<in> set (dag_memories run turn agents ss). mw_embedding w = None"
  by (auto simp: dag_memories_def memory_rows_def self_memory_def observation_memory_def)

lemma persist_unembedded:
  assumes "persistTurnBatch ts (dag_memories run turn agents ss) now db = Inr (ids, db')" "unembedded db"
  shows "unembedded db'"
proof -
  from persist_rows [OF assms(1)] obtain nt nm where
    db': "db' = db\<lparr>db_turns := db_turns db @ nt, db_memories := db_memories db @ nm\<rparr>"
    and nm: "map written_memory nm = dag_memories run turn agents ss" by blast
  have "mm_embedding m = None" if "m \<in> set nm" for m
  proof -
    have "written_memory m \<in> set (dag_memories run turn agents ss)" using that nm by (metis image_eqI list.set_map)
    then show ?thesis using dag_memories_unembedded by (force simp: written_memory_def)
  qed
  then show ?thesis using db' assms(2) by (auto simp: unembedded_def list_all_iff)
qed

lemma unembedded_cong: "db_memories db' = db_memories db \<Longrightarrow> unembedded db' = unembedded db"
  by (simp add: unembedded_def)

lemma same_memories:
  "db_memories (snd (swarm_insert w db)) = db_memories db"
  "run_insert rw db = Inr (i, db') \<Longrightarrow> db_memories db' = db_memories db"
  "agent_insert aw db = Inr (i, db') \<Longrightarrow> db_memories db' = db_memories db"
  "insertGodTurn gw now db = Inr (i, db') \<Longrightarrow> db_memories db' = db_memories db"
  "db_memories (updateStatus j st c db) = db_memories db"
  "db_memories (snd (claimPendingFishForSwarm j n db)) = db_memories db"
  "db_memories (closeSwarm j k now db) = db_memories db"
  "db_memories (abortSwarm j now db) = db_memories db"
  "snapshotAggregate j key v db = Inr db' \<Longrightarrow> db_memories db' = db_memories db"
  by (auto simp: swarm_insert_def run_insert_def agent_insert_def insertGodTurn_def updateStatus_def
      claimPendingFishForSwarm_def closeSwarm_def abortSwarm_def fail_open_runs_def snapshotAggregate_def
      update_swarm_def Let_def split: if_splits)

lemma sequential_reach: "sequential_runTurn env run turn now db = Inr (res, db') \<Longrightarrow> db_reach db \<Longrightarrow> db_reach db'"
  by (elim sequential_cases) (auto simp: close_if_terminal_def intro: reach_status reach_batch)

lemma dag_reach: "dag_runTurn env run turn now db = Inr (res, db') \<Longrightarrow> db_reach db \<Longrightarrow> db_reach db'"
  by (cases res) (auto elim!: dag_cases intro: reach_batch)

lemma sequential_unembedded:
  "sequential_runTurn env run turn now db = Inr (res, db') \<Longrightarrow> unembedded db \<Longrightarrow> unembedded db'"
  by (elim sequential_cases)
    (simp add: single_batch unembedded_cong [OF close_if_terminal_rows(2)] persist_unembedded)

lemma dag_unembedded: "dag_runTurn env run turn now db = Inr (res, db') \<Longrightarrow> unembedded db \<Longrightarrow> unembedded db'"
  by (cases res) (auto elim!: dag_cases intro: persist_unembedded)

lemma kernel_memories: "kernel_reach db \<Longrightarrow> db_reach db \<and> unembedded db"
proof (induction rule: kernel_reach.induct)
  case kernel_empty
  show ?case by (simp add: reach_empty) (simp add: unembedded_def empty_db_def)
next
  case kernel_run
  then show ?case using same_memories(2) unembedded_cong reach_run by blast
next
  case kernel_agent
  then show ?case using same_memories(3) unembedded_cong reach_agent by blast
next
  case kernel_god
  then show ?case using same_memories(4) unembedded_cong reach_god by blast
next
  case kernel_sequential
  then show ?case using sequential_reach sequential_unembedded by blast
next
  case kernel_dag
  then show ?case using dag_reach dag_unembedded by blast
next
  case kernel_snapshot
  then show ?case using same_memories(9) unembedded_cong reach_snapshot by blast
qed (simp_all add: unembedded_cong [OF same_memories(1)] unembedded_cong [OF same_memories(5)]
    unembedded_cong [OF same_memories(6)] unembedded_cong [OF same_memories(7)] unembedded_cong [OF same_memories(8)]
    reach_swarm reach_status reach_claim reach_close reach_abort)

lemma topK_unembedded:
  "unembedded db \<Longrightarrow> me_embed env query = Inr (Some vec) \<Longrightarrow> topK env run agent query k db = []"
proof -
  assume u: "unembedded db" and e: "me_embed env query = Inr (Some vec)"
  have "List.map_filter (\<lambda>m. map_option (\<lambda>e. (m, me_cosd env e vec)) (mm_embedding m)) (memories_of run agent db) = []"
    using u by (auto simp: unembedded_def memories_of_def list_all_iff map_filter_def filter_empty_conv)
  then show ?thesis using e by (simp add: topK_def safelyEmbed_def topKByVector_def)
qed

lemma context_memories:
  "buildTurnAgentContext env run agent turn subject db = Inr ctx \<Longrightarrow>
   ac_memories ctx = map memory_view (topK (cx_memory env) run (ag_id agent) (cx_query env) 8 db)"
  by (auto simp: buildTurnAgentContext_def agent_context_of_def memory_view_def split: option.splits sum.splits)

lemma sequential_turn_facts:
  assumes "db_reach db" and "sequential_runTurn env run turn now db = Inr (res, db')" and "0 \<le> turn"
  shows "\<exists>speaker r. listByRun run db \<noteq> [] \<and>
    speaker = listByRun run db ! nat (turn mod int (length (listByRun run db))) \<and>
    sequential_answer env run speaker turn db = Inr r \<and> valid_response (cl_schema (ru_call env)) r \<and>
    rt_agent res = ag_id speaker \<and> rt_action res = tp_action r \<and> rt_terminal res = isTerminal (tp_action r) \<and>
    batch_effect run turn [(ag_id speaker, r)] db db' \<and>
    map (\<lambda>x. (rn_id x, rn_status x)) (db_runs db') =
      map (\<lambda>x. (rn_id x, if rt_terminal res \<and> rn_id x = run then RunDone else rn_status x)) (db_runs db)"
proof -
  have ok: "db_ok db" by (rule reachable_db_ok [OF assms(1)])
  from assms(2) show ?thesis
  proof (cases rule: sequential_cases)
    case (1 speaker r db1 i js)
    let ?agents = "listByRun run db"
    from persist_effect [OF ok, of run turn "[(ag_id speaker, r)]"] 1(4)
    have eff: "batch_effect run turn [(ag_id speaker, r)] db db1" "db_runs db1 = db_runs db"
      by (auto simp: single_batch)
    have "batch_effect run turn [(ag_id speaker, r)] db db'"
      using batch_effect_cong [OF close_if_terminal_rows(1,2) eff(1)] 1(6) by simp
    moreover have "map (\<lambda>x. (rn_id x, rn_status x)) (db_runs db') =
      map (\<lambda>x. (rn_id x, if rt_terminal res \<and> rn_id x = run then RunDone else rn_status x)) (db_runs db)"
      using close_if_terminal_rows(3) [of "isTerminal (tp_action r)" run now db1] eff(2) 1(5,6) by simp
    moreover have "speaker = ?agents ! nat (turn mod int (length ?agents))"
      using 1(2) assms(3) by (simp add: speaker_of_def Let_def)
    ultimately show ?thesis using 1(1,3,5) answer_valid [OF 1(3)]
      by (intro exI [of _ speaker] exI [of _ r]) simp
  qed
qed

section \<open>Properties\<close>

text \<open>An agent's call asks the language model at most three times, and returns the first of the
  three answers that is usable; when none is, it throws after the third. Whatever it returns, the
  action was accepted by the pack's schema and the two texts have their minimal lengths.\<close>

theorem agent_call_retries:
  assumes "\<forall>c. cl_aborted env (ac_agent ctx) c = None"
    and "cl_registry env (cl_pick env (ac_turn ctx) (buildCortexSelectionHints (cl_sort env) ctx)) = Some body"
    and "\<forall>k < 3. \<exists>res. cl_nano env body (cl_render env ctx) (ac_agent ctx) k = Inr res"
  defines "answer \<equiv> answer_at env body (cl_render env ctx) (ac_agent ctx)"
  shows "case filter (\<lambda>k. usable (answer k)) [0, 1, 2] of
      [] \<Rightarrow> \<exists>msg. callTurnAgent env ctx = (Inl (mk_error msg), 3)
    | k # _ \<Rightarrow> callTurnAgent env ctx = (answer k, k + 1) \<and>
        (\<exists>r. answer k = Inr r \<and> valid_response (cl_schema env) r)"
proof -
  have run: "callTurnAgent env ctx = attempts env body (cl_render env ctx) (ac_agent ctx) [0, 1, 2] None"
    by (rule callTurnAgent_run [OF assms(1,2)])
  have nano: "\<exists>res. cl_nano env body (cl_render env ctx) (ac_agent ctx) k = Inr res" if "k \<le> 2" for k
    using assms(3) that by simp
  have valid: "\<exists>r. answer k = Inr r \<and> valid_response (cl_schema env) r" if "usable (answer k)" for k
    using that by (auto simp: answer_def answer_at_def usable_def intro: attempt_valid split: sum.splits)
  note first = attempts_first [OF assms(1), where body = body and prompt = "cl_render env ctx" and e = None]
  consider "usable (answer 0)" | "\<not> usable (answer 0)" "usable (answer 1)"
    | "\<not> usable (answer 0)" "\<not> usable (answer 1)" "usable (answer 2)"
    | "\<forall>k \<in> set [0, 1, 2]. \<not> usable (answer k)" by auto
  then show ?thesis
  proof cases
    case 1
    then show ?thesis using first [of "[]" 0 "[1, 2]"] valid run by (simp add: answer_def)
  next
    case 2
    then show ?thesis using first [of "[0]" 1 "[2]"] valid run nano by (simp add: answer_def)
  next
    case 3
    then show ?thesis using first [of "[0, 1]" 2 "[]"] valid run nano by (simp add: answer_def)
  next
    case 4
    have "\<exists>msg. attempts env body (cl_render env ctx) (ac_agent ctx) [0, 1, 2] None = (Inl (mk_error msg), length [0, 1, 2 :: nat])"
      by (rule attempts_none [OF assms(1)]) (use 4 nano in \<open>auto simp: answer_def\<close>)
    then obtain msg where "attempts env body (cl_render env ctx) (ac_agent ctx) [0, 1, 2] None = (Inl (mk_error msg), 3)"
      by (auto simp del: attempts.simps)
    with run have "callTurnAgent env ctx = (Inl (mk_error msg), 3)" by simp
    then show ?thesis using 4 by (auto intro: exI [of _ msg])
  qed
qed

definition demo_extract :: "string \<Rightarrow> jval throws" where
  "demo_extract s =
     (if s = ''garbled'' then Inl (mk_error ''no JSON object'')
      else Inr (JObj [(''action'', JObj [(''kind'', JStr s)]), (''rationale'', JStr ''a long enough reason''),
                      (''observableSummary'', JStr ''did something'')]))"

definition demo_call_env :: "string \<Rightarrow> call_env" where
  "demo_call_env kind =
     \<lparr>cl_render = (\<lambda>_. ''prompt''), cl_pick = (\<lambda>_ _. ''agent''), cl_registry = (\<lambda>_. Some ''body''), cl_sort = id,
      cl_nano = (\<lambda>_ _ _ k. Inr \<lparr>nr_ok = True, nr_text = (if k = 0 then ''garbled'' else kind), nr_error = None\<rparr>),
      cl_extract = demo_extract,
      cl_schema = (\<lambda>v. case field_of v ''kind'' of Some (JStr k) \<Rightarrow> Some (JObj [(''kind'', JStr k)]) | _ \<Rightarrow> None),
      cl_aborted = (\<lambda>_ _. None)\<rparr>"

definition demo_context :: agent_context where
  "demo_context =
     \<lparr>ac_run = 1, ac_agent = 1, ac_agentIndex = 0, ac_turn = 0, ac_persona = ''p'', ac_goals = [], ac_constraints = [],
      ac_memories = [], ac_observable = [], ac_godEvents = [], ac_subject = None, ac_scenario = None\<rparr>"

theorem agent_call_retries_witness:
  "callTurnAgent (demo_call_env ''accept'') demo_context =
     (Inr \<lparr>tp_action = JObj [(''kind'', JStr ''accept'')], tp_rationale = ''a long enough reason'',
           tp_summary = ''did something''\<rparr>, 2)"
proof -
  let ?answer = "answer_at (demo_call_env ''accept'') ''body'' (cl_render (demo_call_env ''accept'') demo_context)
    (ac_agent demo_context)"
  have u: "\<not> usable (?answer 0)" by code_simp
  have v: "?answer 1 = Inr \<lparr>tp_action = JObj [(''kind'', JStr ''accept'')], tp_rationale = ''a long enough reason'',
           tp_summary = ''did something''\<rparr>" by code_simp
  have "case filter (\<lambda>k. usable (?answer k)) [0, 1, 2] of
      [] \<Rightarrow> \<exists>msg. callTurnAgent (demo_call_env ''accept'') demo_context = (Inl (mk_error msg), 3)
    | k # _ \<Rightarrow> callTurnAgent (demo_call_env ''accept'') demo_context = (?answer k, k + 1) \<and>
        (\<exists>r. ?answer k = Inr r \<and> valid_response (cl_schema (demo_call_env ''accept'')) r)"
    by (rule agent_call_retries) (simp_all add: demo_call_env_def)
  moreover have "usable (?answer 1)" by (simp only: v) (simp add: usable_def)
  ultimately show ?thesis using u v by simp
qed

text \<open>C18: A sequential turn lets the agent speak whose position is the turn modulo the number of
  agents. The timeline gains exactly its turn; the speaker remembers its own action and reasoning,
  every other agent only the public summary; the run is closed when the action accepts or rejects,
  and no other run changes its status.\<close>

theorem sequential_turn_effect:
  assumes "db_reach db" and "sequential_runTurn env run turn now db = Inr (res, db')" and "0 \<le> turn"
  shows "\<exists>speaker r. listByRun run db \<noteq> [] \<and>
    speaker = listByRun run db ! nat (turn mod int (length (listByRun run db))) \<and>
    sequential_answer env run speaker turn db = Inr r \<and> valid_response (cl_schema (ru_call env)) r \<and>
    rt_agent res = ag_id speaker \<and> rt_action res = tp_action r \<and> rt_terminal res = isTerminal (tp_action r) \<and>
    batch_effect run turn [(ag_id speaker, r)] db db' \<and>
    map (\<lambda>x. (rn_id x, rn_status x)) (db_runs db') =
      map (\<lambda>x. (rn_id x, if rt_terminal res \<and> rn_id x = run then RunDone else rn_status x)) (db_runs db)"
  by (rule sequential_turn_facts [OF assms])

text \<open>C20: A DAG turn that succeeds has at least one answer, every one of them valid. The timeline
  gains one turn per answer; each agent of the run gains one memory per answer, its own reasoning or
  the other's public summary. Every agent is reported either with its turn and action or with an
  error, never both, and no run changes its status. A turn without any answer changes nothing.\<close>

theorem dag_turn_effect:
  assumes "db_reach db" and "dag_runTurn env run turn now db = Inr ((results, failed), db')"
  shows "\<exists>answers. answers \<noteq> [] \<and> (\<forall>s \<in> set answers. valid_response (cl_schema (ru_call env)) (snd s)) \<and>
    batch_effect run turn answers db db' \<and> db_runs db' = db_runs db \<and>
    fst ` set answers \<union> set failed = ag_id ` set (listByRun run db) \<and> fst ` set answers \<inter> set failed = {} \<and>
    map dr_agent results = map ag_id (listByRun run db) \<and>
    (\<forall>d \<in> set results.
       (dr_turnId d \<noteq> None \<longleftrightarrow> dr_agent d \<in> fst ` set answers) \<and>
       (dr_action d \<noteq> None \<longleftrightarrow> dr_agent d \<in> fst ` set answers) \<and>
       (dr_error d \<noteq> None \<longleftrightarrow> dr_agent d \<in> set failed))"
proof -
  have ok: "db_ok db" by (rule reachable_db_ok [OF assms(1)])
  let ?agents = "listByRun run db"
  from assms(2) show ?thesis
  proof (cases rule: dag_cases)
    case (1 answers ids)
    let ?ss = "dag_successes ?agents answers" and ?fs = "dag_failures ?agents answers"
    note eff = persist_effect [OF ok 1(4)]
    note part = dag_partition [OF dag_answers_props(1) [OF 1(2)] agent_ids_distinct [OF ok]]
    have valid: "\<forall>s \<in> set ?ss. valid_response (cl_schema (ru_call env)) (snd s)"
      by (rule dag_successes_valid [OF dag_answers_props(2) [OF 1(2)]])
    have reports: "\<forall>d \<in> set results.
       (dr_turnId d \<noteq> None \<longleftrightarrow> dr_agent d \<in> fst ` set ?ss) \<and> (dr_action d \<noteq> None \<longleftrightarrow> dr_agent d \<in> fst ` set ?ss) \<and>
       (dr_error d \<noteq> None \<longleftrightarrow> dr_agent d \<in> set failed)"
      unfolding 1(5,6) using dag_result_reports [OF eff(3), of ?fs] by (simp del: not_None_eq)
    have "map dr_agent results = map ag_id ?agents"
      unfolding 1(5) using dag_result_reports(1) [OF eff(3), of ?fs] by simp
    then show ?thesis using 1(3,6) eff valid part reports by (intro exI [of _ ?ss]) (simp del: not_None_eq)
  qed
qed

definition demo_runner :: "string \<Rightarrow> (string \<Rightarrow> real list option throws) \<Rightarrow> runner_env" where
  "demo_runner kind emb =
     \<lparr>ru_call = demo_call_env kind,
      ru_ctx = \<lparr>cx_memory = \<lparr>me_embed = emb, me_cosd = (\<lambda>_ _. 0), me_labels = (\<lambda>_. None)\<rparr>, cx_query = ''recent'',
        cx_scenario = (\<lambda>_. Inr None), cx_aborted = (\<lambda>_ _. None)\<rparr>,
      ru_subject = (\<lambda>_. None)\<rparr>"

lemma two_fish_reach: "kernel_reach two_fish_db"
proof -
  let ?db0 = "snd (swarm_insert demo_swarm_write empty_db)"
  obtain i1 db1 where r1: "run_insert (demo_run_write 0) ?db0 = Inr (i1, db1)"
    by (simp add: run_insert_def demo_run_write_def swarm_insert_def Let_def empty_db_def swarm_exists_def next_id_def)
  obtain i2 db2 where r2: "run_insert (demo_run_write 1) db1 = Inr (i2, db2)"
    using r1 by (auto simp: run_insert_def demo_run_write_def swarm_insert_def Let_def empty_db_def swarm_exists_def next_id_def)
  let ?aw = "\<lparr>aw_run = 1, aw_operator = None, aw_index = 0, aw_persona = ''p'', aw_goals = [], aw_constraints = []\<rparr>"
  obtain i3 db3 where r3: "agent_insert ?aw db2 = Inr (i3, db3)"
    using r1 r2 by (auto simp: run_insert_def agent_insert_def demo_run_write_def swarm_insert_def Let_def empty_db_def
        swarm_exists_def run_exists_def next_id_def)
  have "two_fish_db = db3" using r1 r2 r3 by (simp add: two_fish_db_def)
  moreover have "kernel_reach db3"
    using kernel_agent [OF kernel_run [OF kernel_run [OF kernel_swarm [OF kernel_empty] r1] r2] r3] .
  ultimately show ?thesis by simp
qed

lemma sequential_demo:
  "case sequential_runTurn (demo_runner ''accept'' (\<lambda>_. Inr None)) 1 0 7 two_fish_db of
     Inl _ \<Rightarrow> False
   | Inr (res, db) \<Rightarrow> rt_terminal res \<and> map rn_status (db_runs db) = [RunDone, RunPending] \<and>
       map memory_view (memories_of 1 1 db) = [(0, SelfAction, ''accept - a long enough reason'')] \<and>
       map memory_view (topK (cx_memory (ru_ctx (demo_runner ''accept'' (\<lambda>_. Inr None)))) 1 1 ''q'' 8 db) =
         [(0, SelfAction, ''accept - a long enough reason'')]"
  by code_simp

lemma dag_demo:
  "case dag_runTurn (demo_runner ''hold'' (\<lambda>_. Inr None)) 1 0 7 two_fish_db of
     Inl _ \<Rightarrow> False
   | Inr ((results, failed), db) \<Rightarrow> failed = [] \<and> map dr_turnId results = [Some 1] \<and> map tn_summary (db_turns db) = [''did something'']"
  by code_simp

theorem sequential_turn_effect_witness:
  "\<exists>res db'. sequential_runTurn (demo_runner ''accept'' (\<lambda>_. Inr None)) 1 0 7 two_fish_db = Inr (res, db') \<and>
     rt_terminal res \<and> map (\<lambda>x. (rn_id x, rn_status x)) (db_runs db') = [(1, RunDone), (2, RunPending)]"
proof -
  obtain res db' where run: "sequential_runTurn (demo_runner ''accept'' (\<lambda>_. Inr None)) 1 0 7 two_fish_db = Inr (res, db')"
    and t: "rt_terminal res" using sequential_demo by (auto split: sum.splits)
  have start: "map (\<lambda>x. (rn_id x, rn_status x)) (db_runs two_fish_db) = [(1, RunPending), (2, RunPending)]" by code_simp
  have "map (\<lambda>x. (rn_id x, rn_status x)) (db_runs db') =
      map (\<lambda>x. (rn_id x, if rt_terminal res \<and> rn_id x = 1 then RunDone else rn_status x)) (db_runs two_fish_db)"
    using sequential_turn_effect [OF conjunct1 [OF kernel_memories [OF two_fish_reach]] run] by auto
  also have "\<dots> = map (\<lambda>(i, st). (i, if i = 1 then RunDone else st))
      (map (\<lambda>x. (rn_id x, rn_status x)) (db_runs two_fish_db))" using t by simp
  also have "\<dots> = [(1, RunDone), (2, RunPending)]" by (simp add: start)
  finally show ?thesis using run t by (intro exI [of _ res] exI [of _ db']) simp
qed

theorem dag_turn_effect_witness:
  "\<exists>results failed db'. dag_runTurn (demo_runner ''hold'' (\<lambda>_. Inr None)) 1 0 7 two_fish_db = Inr ((results, failed), db') \<and>
     map dr_agent results = [1] \<and> db_runs db' = db_runs two_fish_db"
proof -
  obtain results failed db' where
    run: "dag_runTurn (demo_runner ''hold'' (\<lambda>_. Inr None)) 1 0 7 two_fish_db = Inr ((results, failed), db')"
    using dag_demo by (auto split: sum.splits)
  have "map ag_id (listByRun 1 two_fish_db) = [1]" by code_simp
  then show ?thesis
    using run dag_turn_effect [OF conjunct1 [OF kernel_memories [OF two_fish_reach]] run] by auto
qed

text \<open>C22: Agents never recall anything while the embedder works. The two runners store every memory
  without an embedding, and the search by similarity skips such rows; so in every state the kernel
  reaches, whenever the query is embedded, the context of an agent holds no memories at all. Memories that
  a client posts to the console with an embedding of its own are outside this claim.\<close>

theorem memories_are_never_recalled:
  assumes "kernel_reach db" and "me_embed (cx_memory env) (cx_query env) = Inr (Some vec)"
    and "buildTurnAgentContext env run agent turn subject db = Inr ctx"
  shows "ac_memories ctx = []"
  using context_memories [OF assms(3)] topK_unembedded [OF conjunct2 [OF kernel_memories [OF assms(1)]] assms(2)]
  by simp

theorem memories_are_never_recalled_witness:
  "\<exists>res db ctx ctx'. sequential_runTurn (demo_runner ''accept'' (\<lambda>_. Inr None)) 1 0 7 two_fish_db = Inr (res, db) \<and>
     (\<exists>agent. buildTurnAgentContext (ru_ctx (demo_runner ''accept'' (\<lambda>_. Inr None))) 1 agent 1 None db = Inr ctx \<and>
        buildTurnAgentContext (ru_ctx (demo_runner ''accept'' (\<lambda>_. Inr (Some [])))) 1 agent 1 None db = Inr ctx') \<and>
     ac_memories ctx = [(0, SelfAction, ''accept - a long enough reason'')] \<and> ac_memories ctx' = []"
proof -
  let ?off = "ru_ctx (demo_runner ''accept'' (\<lambda>_. Inr None))" and ?on = "ru_ctx (demo_runner ''accept'' (\<lambda>_. Inr (Some [])))"
  let ?agent = "\<lparr>ag_id = 1, ag_run = 1, ag_operator = None, ag_index = 0, ag_persona = ''p'', ag_goals = [],
    ag_constraints = []\<rparr>"
  obtain res db where run: "sequential_runTurn (demo_runner ''accept'' (\<lambda>_. Inr None)) 1 0 7 two_fish_db = Inr (res, db)"
    and kept: "map memory_view (topK (cx_memory ?off) 1 1 ''q'' 8 db) = [(0, SelfAction, ''accept - a long enough reason'')]"
    using sequential_demo by (auto split: sum.splits)
  obtain ctx where off: "buildTurnAgentContext ?off 1 ?agent 1 None db = Inr ctx"
    by (simp add: buildTurnAgentContext_def demo_runner_def)
  obtain ctx' where on: "buildTurnAgentContext ?on 1 ?agent 1 None db = Inr ctx'"
    by (simp add: buildTurnAgentContext_def demo_runner_def)
  have "ac_memories ctx = [(0, SelfAction, ''accept - a long enough reason'')]"
    using context_memories [OF off] kept by (simp add: topK_def safelyEmbed_def demo_runner_def)
  moreover have "ac_memories ctx' = []"
    by (rule memories_are_never_recalled [OF kernel_sequential [OF two_fish_reach run] _ on]) (simp add: demo_runner_def)
  ultimately show ?thesis using run off on
    by (intro exI [of _ res] exI [of _ db] exI [of _ ctx] exI [of _ ctx']) auto
qed

end
