(* ===== verification/SimOrchestrator.thy ===== *)
theory SimOrchestrator
  imports SimTurns Cortex
begin

text \<open>
  Driving standalone simulations: \<open>packages/sweep/src/sim/sim-orchestrator.service.ts\<close> and
  \<open>agent-builder.ts\<close>, the worker \<open>jobs/workers/sim-turn.worker.ts\<close> that plays one turn per
  queued job, and the console's \<open>apps/console-api/src/services/sim-god-channel.service.ts\<close>.

  An operation runs on the tables, the keys of the aggregate gate in Redis and the log of accepted
  queue jobs, and ends with a value or a thrown error; what it did before the error stays. Subjects,
  personas and perturbations come from the domain pack and are arguments, as are failures of the
  queue.
\<close>

section \<open>Operations\<close>

datatype sim_job =
    TurnJob int int string
  | FishJob int int int string
  | AggregateJob int string

record sim_state =
  st_db :: sim_db
  st_gate :: "int list"
  st_jobs :: "sim_job list"

type_synonym 'a sim_op = "sim_state \<Rightarrow> 'a throws \<times> sim_state"

definition op_return :: "'a \<Rightarrow> 'a sim_op" where
  [js_defs]: "op_return x = (\<lambda>st. (Inr x, st))"

definition op_throw :: "exn \<Rightarrow> 'a sim_op" where
  [js_defs]: "op_throw e = (\<lambda>st. (Inl e, st))"

definition op_bind :: "'a sim_op \<Rightarrow> ('a \<Rightarrow> 'b sim_op) \<Rightarrow> 'b sim_op" where
  [js_defs]: "op_bind m f = (\<lambda>st. case m st of (Inl e, st') \<Rightarrow> (Inl e, st') | (Inr x, st') \<Rightarrow> f x st')"

definition op_then :: "unit sim_op \<Rightarrow> 'b sim_op \<Rightarrow> 'b sim_op" where
  [js_defs]: "op_then m k = op_bind m (\<lambda>_. k)"

definition op_read :: "(sim_db \<Rightarrow> 'a) \<Rightarrow> 'a sim_op" where
  [js_defs]: "op_read f = (\<lambda>st. (Inr (f (st_db st)), st))"

definition op_update :: "(sim_db \<Rightarrow> sim_db) \<Rightarrow> unit sim_op" where
  [js_defs]: "op_update f = (\<lambda>st. (Inr (), st\<lparr>st_db := f (st_db st)\<rparr>))"

definition op_insert :: "(sim_db \<Rightarrow> 'a \<times> sim_db) \<Rightarrow> 'a sim_op" where
  [js_defs]: "op_insert f = (\<lambda>st. (Inr (fst (f (st_db st))), st\<lparr>st_db := snd (f (st_db st))\<rparr>))"

text \<open>A statement that throws changes nothing.\<close>

definition op_try :: "(sim_db \<Rightarrow> ('a \<times> sim_db) throws) \<Rightarrow> 'a sim_op" where
  [js_defs]: "op_try f =
     (\<lambda>st. case f (st_db st) of Inl e \<Rightarrow> (Inl e, st) | Inr (x, db) \<Rightarrow> (Inr x, st\<lparr>st_db := db\<rparr>))"

definition op_lift :: "'a throws \<Rightarrow> 'a sim_op" where
  [js_defs]: "op_lift x = (case x of Inl e \<Rightarrow> op_throw e | Inr v \<Rightarrow> op_return v)"

text \<open>\<open>queue.enqueue\<close>: \<open>bad\<close> tells which jobs the queue refuses, and with which error.\<close>

definition op_enqueue :: "(sim_job \<Rightarrow> exn option) \<Rightarrow> sim_job \<Rightarrow> unit sim_op" where
  [js_defs]: "op_enqueue bad job =
     (\<lambda>st. case bad job of Some e \<Rightarrow> (Inl e, st) | None \<Rightarrow> (Inr (), st\<lparr>st_jobs := st_jobs st @ [job]\<rparr>))"

section \<open>Reading options\<close>

definition as_number :: "jval option \<Rightarrow> jsnum option" where
  "as_number v = (case v of Some (JNum x) \<Rightarrow> Some (Fin x) | _ \<Rightarrow> None)"

definition readPositiveInt :: "jsnum option \<Rightarrow> int \<Rightarrow> int" where
  "readPositiveInt v fallback =
     (case v of Some (Fin x) \<Rightarrow> if 0 < x then \<lfloor>x\<rfloor> else fallback | _ \<Rightarrow> fallback)"

definition readQuorumPct :: "jsnum option \<Rightarrow> real \<Rightarrow> real" where
  "readQuorumPct v fallback =
     (case v of Some (Fin x) \<Rightarrow> if 0 \<le> x \<and> x \<le> 1 then x else fallback | _ \<Rightarrow> fallback)"

definition safe_integer :: "jsnum \<Rightarrow> int option" where
  "safe_integer v =
     (case v of
        Fin x \<Rightarrow> if of_int \<lfloor>x\<rfloor> = x \<and> \<bar>\<lfloor>x\<rfloor>\<bar> \<le> 9007199254740991 then Some \<lfloor>x\<rfloor> else None
      | _ \<Rightarrow> None)"

definition readSubjectIds :: "json_object \<Rightarrow> int list" where
  "readSubjectIds seed =
     (case map_of seed ''subjectIds'' of
        Some (JArr vs) \<Rightarrow> List.map_filter (\<lambda>v. safe_integer (to_number v)) vs
      | _ \<Rightarrow> [])"

definition readSubjectKind :: "json_object \<Rightarrow> string option" where
  "readSubjectKind seed =
     (case map_of seed ''subjectKind'' of Some (JStr s) \<Rightarrow> if s \<noteq> [] then Some s else None | _ \<Rightarrow> None)"

definition getOr :: "'a \<Rightarrow> 'a option \<Rightarrow> 'a" where
  [js_defs]: "getOr d v = (case v of Some x \<Rightarrow> x | None \<Rightarrow> d)"

section \<open>Building agents and fish\<close>

record agent_hints =
  ah_riskProfile :: "string option"
  ah_constraintOverrides :: "json_object option"

record pack_event =
  pe_kind :: string
  pe_summary :: string
  pe_detail :: "string option"
  pe_targets :: "json_object option"

record god_input =
  gi_kind :: string
  gi_summary :: string
  gi_detail :: "string option"
  gi_targetEntityId :: "real option"
  gi_targetSubjectId :: "real option"

record swarm_defaults =
  sd_quorumPct :: "jsnum option"
  sd_perFishTimeoutMs :: "jsnum option"
  sd_fishConcurrency :: "jsnum option"

record orch_env =
  oe_defaults :: swarm_defaults
  oe_subject :: "string \<Rightarrow> int \<Rightarrow> json_object throws"
  oe_compose :: "json_object \<Rightarrow> agent_hints \<Rightarrow> bool \<Rightarrow> string \<times> string list \<times> json_object"
  oe_hints :: "json_object \<Rightarrow> nat \<Rightarrow> agent_hints option"
  oe_events :: "json_object \<Rightarrow> pack_event list"
  oe_refuses :: "sim_job \<Rightarrow> exn option"

record agent_opts =
  ao_run :: int
  ao_subject :: int
  ao_index :: nat
  ao_kind :: "string option"
  ao_hints :: "agent_hints option"
  ao_framing :: bool

definition no_hints :: agent_hints where
  "no_hints = \<lparr>ah_riskProfile = None, ah_constraintOverrides = None\<rparr>"

definition buildSimAgent :: "orch_env \<Rightarrow> agent_opts \<Rightarrow> (int \<times> json_object) sim_op" where
  "buildSimAgent env opts =
     op_bind (op_lift (oe_subject env (getOr ''subject'' (ao_kind opts)) (ao_subject opts))) (\<lambda>subject.
       case oe_compose env subject (getOr no_hints (ao_hints opts)) (ao_framing opts) of
         (persona, goals, constraints) \<Rightarrow>
           op_bind (op_try (agent_insert
               \<lparr>aw_run = ao_run opts, aw_operator = Some (ao_subject opts), aw_index = int (ao_index opts),
                aw_persona = persona, aw_goals = goals, aw_constraints = constraints\<rparr>))
             (\<lambda>agent. op_return (agent, subject)))"

fun build_agents ::
  "orch_env \<Rightarrow> int \<Rightarrow> string option \<Rightarrow> json_object \<Rightarrow> bool \<Rightarrow> nat \<Rightarrow> int list \<Rightarrow> (int \<times> json_object) list sim_op" where
  "build_agents env run kind perturbation framing i [] = op_return []"
| "build_agents env run kind perturbation framing i (sid # sids) =
     op_bind (buildSimAgent env
         \<lparr>ao_run = run, ao_subject = sid, ao_index = i, ao_kind = kind, ao_hints = oe_hints env perturbation i,
          ao_framing = framing\<rparr>)
       (\<lambda>b. op_bind (build_agents env run kind perturbation framing (Suc i) sids) (\<lambda>bs. op_return (b # bs)))"

definition god_action :: "string \<Rightarrow> string \<Rightarrow> turn_action" where
  "god_action prefix kind = JObj [(''kind'', JStr ''hold''), (''reason'', JStr (prefix @ kind))]"

definition writeGodTurn :: "int \<Rightarrow> int \<Rightarrow> god_input \<Rightarrow> int \<Rightarrow> int sim_op" where
  "writeGodTurn run turn event now =
     op_try (insertGodTurn
       \<lparr>hw_run = run, hw_index = turn, hw_action = god_action ''event injection: '' (gi_kind event),
        hw_rationale = getOr (gi_summary event) (gi_detail event), hw_summary = gi_summary event\<rparr> now)"

definition target_number :: "json_object option \<Rightarrow> string \<Rightarrow> real option" where
  "target_number targets key =
     (case targets of
        Some fs \<Rightarrow> (case map_of fs key of Some (JNum x) \<Rightarrow> Some x | _ \<Rightarrow> None)
      | None \<Rightarrow> None)"

definition god_input_of :: "pack_event \<Rightarrow> god_input" where
  "god_input_of e =
     \<lparr>gi_kind = pe_kind e, gi_summary = pe_summary e, gi_detail = pe_detail e,
      gi_targetEntityId = target_number (pe_targets e) ''targetEntityId'',
      gi_targetSubjectId = target_number (pe_targets e) ''targetSubjectId''\<rparr>"

fun write_events :: "int \<Rightarrow> int \<Rightarrow> pack_event list \<Rightarrow> unit sim_op" where
  "write_events run now [] = op_return ()"
| "write_events run now (e # es) = op_bind (writeGodTurn run 0 (god_input_of e) now) (\<lambda>_. write_events run now es)"

record fish_opts =
  fo_swarm :: int
  fo_fish :: int
  fo_kind :: string
  fo_seed :: json_object
  fo_perturbation :: json_object
  fo_config :: sim_config

definition createFish :: "orch_env \<Rightarrow> fish_opts \<Rightarrow> int \<Rightarrow> (int \<times> (int \<times> json_object) list) sim_op" where
  "createFish env opts now =
     (let subjectIds = readSubjectIds (fo_seed opts) in
      if subjectIds = [] then op_throw (mk_error ''createFish requires subjectIds in seedApplied'')
      else
        op_bind (op_try (run_insert
            \<lparr>rw_swarm = fo_swarm opts, rw_fish = fo_fish opts, rw_kind = fo_kind opts, rw_seed = fo_seed opts,
             rw_perturbation = fo_perturbation opts, rw_config = fo_config opts, rw_status = Some RunPending\<rparr>))
          (\<lambda>run. op_bind (build_agents env run (readSubjectKind (fo_seed opts)) (fo_perturbation opts)
                            (length subjectIds = 2) 0 subjectIds)
            (\<lambda>agents. op_then (write_events run now (oe_events env (fo_perturbation opts)))
              (op_return (run, agents)))))"

section \<open>Starting and scheduling a standalone run\<close>

record standalone_opts =
  sa_kind :: string
  sa_title :: string
  sa_subjectIds :: "int list"
  sa_baseSeed :: json_object
  sa_horizonDays :: "real option"
  sa_turnsPerDay :: "real option"
  sa_maxTurns :: "int option"
  sa_llmMode :: string
  sa_nanoModel :: "string option"
  sa_seed :: "int option"
  sa_createdBy :: "int option"
  sa_subjectKind :: "string option"

definition DEFAULT_MULTI_SUBJECT_MAX_TURNS :: int where
  "DEFAULT_MULTI_SUBJECT_MAX_TURNS = 15"

definition DEFAULT_NEGOTIATION_MAX_TURNS :: int where
  "DEFAULT_NEGOTIATION_MAX_TURNS = 20"

definition standalone_maxTurns :: "standalone_opts \<Rightarrow> int" where
  "standalone_maxTurns opts =
     getOr (if length (sa_subjectIds opts) = 2 then DEFAULT_NEGOTIATION_MAX_TURNS else DEFAULT_MULTI_SUBJECT_MAX_TURNS)
       (sa_maxTurns opts)"

definition standalone_swarm_config :: "swarm_defaults \<Rightarrow> standalone_opts \<Rightarrow> swarm_config" where
  "standalone_swarm_config d opts =
     \<lparr>wc_llmMode = sa_llmMode opts, wc_quorumPct = Some (readQuorumPct (sd_quorumPct d) 1),
      wc_perFishTimeoutMs = Fin (of_int (readPositiveInt (sd_perFishTimeoutMs d) 60000)),
      wc_fishConcurrency = Fin (of_int (readPositiveInt (sd_fishConcurrency d) 1)),
      wc_nanoModel = getOr ''gpt-5.4-nano'' (sa_nanoModel opts), wc_seed = getOr 42 (sa_seed opts),
      wc_aggregates = []\<rparr>"

definition standalone_seed :: "standalone_opts \<Rightarrow> json_object" where
  "standalone_seed opts =
     AList.update ''turnsPerDay'' (JNum (getOr 1 (sa_turnsPerDay opts)))
       (AList.update ''horizonDays'' (JNum (getOr 5 (sa_horizonDays opts)))
         (AList.update ''subjectKind'' (case sa_subjectKind opts of Some s \<Rightarrow> JStr s | None \<Rightarrow> JUndef)
           (AList.update ''subjectIds'' (JArr (map (\<lambda>i. JNum (of_int i)) (sa_subjectIds opts)))
             (sa_baseSeed opts))))"

definition noop_perturbation :: json_object where
  "noop_perturbation = [(''kind'', JStr ''noop'')]"

definition standalone_sim_config :: "swarm_config \<Rightarrow> standalone_opts \<Rightarrow> sim_config" where
  "standalone_sim_config sc opts =
     \<lparr>gc_turnsPerDay = readPositiveInt (as_number (map_of (standalone_seed opts) ''turnsPerDay'')) 1,
      gc_maxTurns = standalone_maxTurns opts, gc_llmMode = sa_llmMode opts, gc_seed = wc_seed sc,
      gc_nanoModel = wc_nanoModel sc, gc_perFishTimeoutMs = Some (wc_perFishTimeoutMs sc)\<rparr>"

definition turn_job :: "int \<Rightarrow> int \<Rightarrow> sim_job" where
  "turn_job run turn = TurnJob run turn (''sim-'' @ show_int run @ ''-t'' @ show_int turn)"

definition enqueueTurn :: "orch_env \<Rightarrow> int \<Rightarrow> int \<Rightarrow> unit sim_op" where
  "enqueueTurn env run turn = op_enqueue (oe_refuses env) (turn_job run turn)"

definition startStandalone :: "orch_env \<Rightarrow> standalone_opts \<Rightarrow> int \<Rightarrow> (int \<times> int \<times> int list) sim_op" where
  "startStandalone env opts now =
     (if length (sa_subjectIds opts) < 1 then op_throw (mk_error ''startStandalone requires at least 1 subjectId'')
      else
        let sc = standalone_swarm_config (oe_defaults env) opts; seed = standalone_seed opts in
        op_bind (op_insert (swarm_insert
            \<lparr>xw_kind = sa_kind opts, xw_title = sa_title opts, xw_baseSeed = seed,
             xw_perturbations = [noop_perturbation], xw_size = 1, xw_config = sc, xw_status = Some SwarmRunning,
             xw_createdBy = sa_createdBy opts\<rparr>))
          (\<lambda>swarm. op_bind (createFish env
              \<lparr>fo_swarm = swarm, fo_fish = 0, fo_kind = sa_kind opts, fo_seed = seed,
               fo_perturbation = noop_perturbation, fo_config = standalone_sim_config sc opts\<rparr> now)
            (\<lambda>(run, agents). op_then (op_update (updateStatus run RunRunning None))
              (op_then (enqueueTurn env run 0) (op_return (swarm, run, map fst agents))))))"

definition turns_completed :: "int \<Rightarrow> sim_db \<Rightarrow> int" where
  "turns_completed run db =
     (let n = length (listByRun run db) in
      if 0 < n then \<lceil>real (countAgentTurnsForRun run db) / real n\<rceil> else 0)"

fun status_text :: "run_status \<Rightarrow> string" where
  "status_text RunPending = ''pending''"
| "status_text RunRunning = ''running''"
| "status_text RunPaused = ''paused''"
| "status_text RunDone = ''done''"
| "status_text RunFailed = ''failed''"
| "status_text RunTimeout = ''timeout''"

definition status_reason :: "run_status \<Rightarrow> string" where
  "status_reason s = ''status='' @ status_text s"

definition schedule_turn :: "orch_env \<Rightarrow> run_row \<Rightarrow> int \<Rightarrow> int \<Rightarrow> (bool \<times> string option) sim_op" where
  "schedule_turn env r turns now =
     (if gc_maxTurns (rn_config r) \<le> turns
      then op_then (op_update (updateStatus (rn_id r) RunDone (Some (Some now))))
             (op_return (False, Some ''max_turns_reached''))
      else op_then (enqueueTurn env (rn_id r) turns) (op_return (True, None)))"

definition scheduleNext :: "orch_env \<Rightarrow> int \<Rightarrow> int \<Rightarrow> (bool \<times> string option) sim_op" where
  "scheduleNext env run now =
     op_bind (op_read (run_findById run)) (\<lambda>found.
       case found of
         None \<Rightarrow> op_return (False, Some ''run_not_found'')
       | Some r \<Rightarrow>
           if rn_status r \<noteq> RunRunning then op_return (False, Some (status_reason (rn_status r)))
           else op_bind (op_read (turns_completed run)) (\<lambda>turns. schedule_turn env r turns now))"

section \<open>Pausing, resuming, injecting\<close>

definition run_not_found :: "int \<Rightarrow> exn" where
  "run_not_found run = mk_error (''sim_run '' @ show_int run @ '' not found'')"

definition with_run :: "int \<Rightarrow> (run_row \<Rightarrow> 'a sim_op) \<Rightarrow> 'a sim_op" where
  "with_run run k =
     op_bind (op_read (run_findById run)) (\<lambda>found.
       case found of None \<Rightarrow> op_throw (run_not_found run) | Some r \<Rightarrow> k r)"

definition pause :: "int \<Rightarrow> unit sim_op" where
  "pause run =
     with_run run (\<lambda>r.
       if rn_status r \<noteq> RunRunning then op_throw (mk_error (''cannot pause: '' @ status_reason (rn_status r)))
       else op_update (updateStatus run RunPaused None))"

definition resume :: "orch_env \<Rightarrow> int \<Rightarrow> int \<Rightarrow> unit sim_op" where
  "resume env run now =
     with_run run (\<lambda>r.
       if rn_status r \<noteq> RunPaused then op_throw (mk_error (''cannot resume: '' @ status_reason (rn_status r)))
       else op_then (op_update (updateStatus run RunRunning None))
              (op_bind (scheduleNext env run now) (\<lambda>_. op_return ())))"

definition inject :: "int \<Rightarrow> god_input \<Rightarrow> int \<Rightarrow> int sim_op" where
  "inject run event now =
     with_run run (\<lambda>r.
       if rn_status r \<in> {RunDone, RunFailed, RunTimeout}
       then op_throw (mk_error (''cannot inject: '' @ status_reason (rn_status r)))
       else op_bind (op_read (turns_completed run)) (\<lambda>turns. writeGodTurn run turns event now))"

record sim_status =
  sx_swarm :: int
  sx_run :: int
  sx_status :: run_status
  sx_turnsPlayed :: int
  sx_maxTurns :: int
  sx_lastTurnAt :: "int option"

definition run_status_of :: "int \<Rightarrow> sim_db \<Rightarrow> sim_status option" where
  "run_status_of run db =
     map_option (\<lambda>r. \<lparr>sx_swarm = rn_swarm r, sx_run = run, sx_status = rn_status r,
                      sx_turnsPlayed = turns_completed run db, sx_maxTurns = gc_maxTurns (rn_config r),
                      sx_lastTurnAt = lastTurnCreatedAt run db\<rparr>) (run_findById run db)"

section \<open>The god channel of the console\<close>

text \<open>The console counts agents with its own query; the number is the same.\<close>

definition god_channel_inject :: "int \<Rightarrow> god_input \<Rightarrow> int \<Rightarrow> int sim_op" where
  "god_channel_inject run event now =
     with_run run (\<lambda>r.
       if rn_status r \<in> {RunDone, RunFailed}
       then op_throw (mk_error (''cannot inject: '' @ status_reason (rn_status r)))
       else op_bind (op_read (turns_completed run)) (\<lambda>turns.
              op_try (insertGodTurn
                \<lparr>hw_run = run, hw_index = turns, hw_action = god_action ''god event injection: '' (gi_kind event),
                 hw_rationale = getOr (gi_summary event) (gi_detail event), hw_summary = gi_summary event\<rparr> now)))"

section \<open>The turn worker\<close>

record driver =
  dv_sequential :: bool
  dv_singleTurn :: bool

datatype turn_outcome =
    TurnSkipped string
  | TurnTerminal int
  | TurnNext bool "string option"

definition schedule_after :: "orch_env \<Rightarrow> int \<Rightarrow> int \<Rightarrow> turn_outcome sim_op" where
  "schedule_after env run now = op_bind (scheduleNext env run now) (\<lambda>(b, why). op_return (TurnNext b why))"

definition processTurnJob ::
  "orch_env \<Rightarrow> runner_env \<Rightarrow> (string \<Rightarrow> driver) \<Rightarrow> int \<Rightarrow> int \<Rightarrow> int \<Rightarrow> turn_outcome sim_op" where
  "processTurnJob env renv drivers run turn now =
     op_bind (op_read (run_findById run)) (\<lambda>found.
       case found of
         None \<Rightarrow> op_return (TurnSkipped ''run_not_found'')
       | Some r \<Rightarrow>
           if rn_status r \<noteq> RunRunning then op_return (TurnSkipped (status_reason (rn_status r)))
           else if dv_sequential (drivers (rn_kind r))
           then op_bind (op_try (sequential_runTurn renv run turn now)) (\<lambda>res.
                  if rt_terminal res then op_return (TurnTerminal (rt_turnId res)) else schedule_after env run now)
           else op_bind (op_try (dag_runTurn renv run turn now)) (\<lambda>_. schedule_after env run now))"

section \<open>When a batch is accepted\<close>

text \<open>The rows of one turn, for agents that have not played it yet.\<close>

definition fresh_turn :: "int \<Rightarrow> int \<Rightarrow> int \<Rightarrow> sim_db \<Rightarrow> bool" where
  "fresh_turn run turn agent db =
     list_all (\<lambda>t. tn_run t = run \<and> tn_index t = turn \<longrightarrow> tn_agent t \<noteq> Some agent) (db_turns db)"

lemma insert_turns_accepted:
  assumes "run_exists db run" "\<forall>s \<in> set ss. agent_exists db (fst s)" "distinct (map fst ss)"
    "\<forall>s \<in> set ss. fresh_turn run turn (fst s) db"
  shows "\<exists>ids db'. insert_all (\<lambda>w. insertAgentTurn w now) (map (turn_row_of run turn) ss) db = Inr (ids, db') \<and>
    db_runs db' = db_runs db \<and> db_agents db' = db_agents db"
  using assms
proof (induction ss arbitrary: db)
  case Nil
  then show ?case by simp
next
  case (Cons s ss)
  let ?w = "turn_row_of run turn s"
  have ok: "\<not> list_ex (\<lambda>t. tn_run t = run \<and> tn_index t = turn \<and> tn_agent t = Some (fst s)) (db_turns db)"
    using Cons.prems(4) by (auto simp: fresh_turn_def list_all_iff list_ex_iff)
  then obtain k db1 where one: "insertAgentTurn ?w now db = Inr (k, db1)"
    using Cons.prems by (simp add: insertAgentTurn_def turn_row_of_def Let_def)
  from insert_turn_row [OF one] obtain t where t: "db1 = db\<lparr>db_turns := db_turns db @ [t]\<rparr>" "written_turn t = ?w"
    "agent_turn_rows [t] now" by blast
  have agent: "tn_agent t = Some (fst s)"
    using t(2,3) by (auto simp: written_turn_def turn_row_of_def agent_turn_rows_def)
  have "run_exists db1 run" "\<forall>s \<in> set ss. agent_exists db1 (fst s)" "distinct (map fst ss)"
    using Cons.prems t(1) by (auto simp: run_exists_def agent_exists_def)
  moreover have "\<forall>s \<in> set ss. fresh_turn run turn (fst s) db1"
    using Cons.prems(3,4) agent t(1) by (auto simp: fresh_turn_def list_all_iff image_iff)
  ultimately obtain ids db' where "insert_all (\<lambda>w. insertAgentTurn w now) (map (turn_row_of run turn) ss) db1 = Inr (ids, db')"
    "db_runs db' = db_runs db1" "db_agents db' = db_agents db1"
    using Cons.IH by blast
  then show ?case using one t(1) by simp
qed

lemma insert_memories_accepted:
  assumes "\<forall>w \<in> set ws. run_exists db (mw_run w) \<and> agent_exists db (mw_agent w)"
  shows "\<exists>ids db'. insert_all memory_insert ws db = Inr (ids, db')"
  using assms
proof (induction ws arbitrary: db)
  case Nil
  then show ?case by simp
next
  case (Cons w ws)
  obtain k db1 where one: "memory_insert w db = Inr (k, db1)"
    using Cons.prems by (simp add: memory_insert_def Let_def)
  from insert_memory_row [OF one] have "db_runs db1 = db_runs db" "db_agents db1 = db_agents db" by auto
  then have "\<forall>w \<in> set ws. run_exists db1 (mw_run w) \<and> agent_exists db1 (mw_agent w)"
    using Cons.prems by (simp add: run_exists_def agent_exists_def)
  with Cons.IH obtain ids db' where "insert_all memory_insert ws db1 = Inr (ids, db')" by blast
  then show ?case using one by simp
qed

lemma agents_of_run:
  assumes "db_ok db" "a \<in> set (listByRun run db)"
  shows "agent_exists db (ag_id a)" "run_exists db run"
  using assms by (auto simp: listByRun_def agent_exists_def db_ok_def list_all_iff)

lemma persist_accepted:
  assumes ok: "db_ok db" and "ss \<noteq> []" and sub: "fst ` set ss \<subseteq> ag_id ` set (listByRun run db)"
    and "distinct (map fst ss)" and "\<forall>s \<in> set ss. fresh_turn run turn (fst s) db"
  shows "\<exists>ids db'. persistTurnBatch (map (turn_row_of run turn) ss) (dag_memories run turn (listByRun run db) ss) now db =
    Inr (ids, db')"
proof -
  have agents: "agent_exists db (fst s) \<and> run_exists db run" if s: "s \<in> set ss" for s
  proof -
    from s sub obtain a where a: "a \<in> set (listByRun run db)" "fst s = ag_id a" by blast
    then show ?thesis using agents_of_run [OF ok a(1)] by simp
  qed
  obtain s where "s \<in> set ss" using assms(2) by (cases ss) auto
  then have run: "run_exists db run" using agents by blast
  from insert_turns_accepted [OF run _ assms(4,5), of now] agents obtain ids db1 where
    t: "insert_all (\<lambda>w. insertAgentTurn w now) (map (turn_row_of run turn) ss) db = Inr (ids, db1)"
    and same: "db_runs db1 = db_runs db" "db_agents db1 = db_agents db" by blast
  have "mw_run w = run \<and> agent_exists db (mw_agent w)" if w: "w \<in> set (dag_memories run turn (listByRun run db) ss)" for w
  proof -
    from w obtain s where s: "s \<in> set ss" "w \<in> set (memory_rows run turn (listByRun run db) s)"
      by (auto simp: dag_memories_def)
    then have "mw_agent w = fst s \<or> mw_agent w \<in> ag_id ` set (listByRun run db)" "mw_run w = run"
      by (auto simp: memory_rows_def self_memory_def observation_memory_def)
    then show ?thesis using agents [OF s(1)] agents_of_run(1) [OF ok] by auto
  qed
  then have "\<forall>w \<in> set (dag_memories run turn (listByRun run db) ss). run_exists db1 (mw_run w) \<and> agent_exists db1 (mw_agent w)"
    using run same by (simp add: run_exists_def agent_exists_def)
  from insert_memories_accepted [OF this] t assms(2) show ?thesis by (auto simp: persistTurnBatch_def)
qed

section \<open>A DAG turn in which every agent answers\<close>

definition always_answers :: "runner_env \<Rightarrow> bool" where
  "always_answers renv =
     ((\<forall>ctx. usable (fst (callTurnAgent (ru_call renv) ctx))) \<and>
      (\<forall>run agent turn subject db. usable (buildTurnAgentContext (ru_ctx renv) run agent turn subject db)))"

lemma usable_iff: "usable x \<longleftrightarrow> (\<exists>v. x = Inr v)"
  by (cases x) (auto simp: usable_def)

lemma all_ok_usable: "list_all usable xs \<Longrightarrow> \<exists>vs. all_ok xs = Inr vs \<and> length vs = length xs"
  by (induction xs) (auto simp: usable_iff)

lemma dag_answers_usable:
  assumes "always_answers renv"
  shows "\<exists>answers. dag_answers renv run agents turn db = Inr answers \<and> length answers = length agents \<and> list_all usable answers"
proof -
  let ?ctxs = "map (\<lambda>a. buildTurnAgentContext (ru_ctx renv) run a turn (ru_subject renv (ag_id a)) db) agents"
  have "list_all usable ?ctxs" using assms by (simp add: always_answers_def list_all_iff)
  then obtain vs where "all_ok ?ctxs = Inr vs" "length vs = length agents" using all_ok_usable by fastforce
  then show ?thesis using assms by (simp add: dag_answers_def always_answers_def list_all_iff)
qed

lemma all_succeed:
  "length answers = length agents \<Longrightarrow> list_all usable answers \<Longrightarrow>
   map fst (dag_successes agents answers) = map ag_id agents"
proof (induction agents answers rule: list_induct2')
  case (4 a as x xs)
  then show ?case by (auto simp: dag_successes_def map_filter_simps usable_iff)
qed (simp_all add: dag_successes_def map_filter_simps)

lemma dag_plays:
  assumes ok: "db_ok db" and ne: "listByRun run db \<noteq> []" and ans: "always_answers renv"
    and fresh: "\<forall>a \<in> set (listByRun run db). fresh_turn run turn (ag_id a) db"
  shows "\<exists>res db' ss. dag_runTurn renv run turn now db = Inr (res, db') \<and> map fst ss = map ag_id (listByRun run db) \<and>
    batch_effect run turn ss db db' \<and> db_runs db' = db_runs db \<and> db_agents db' = db_agents db \<and> db_ok db'"
proof -
  let ?agents = "listByRun run db"
  obtain answers where a: "dag_answers renv run ?agents turn db = Inr answers" "length answers = length ?agents"
    "list_all usable answers" using dag_answers_usable [OF ans] by blast
  let ?ss = "dag_successes ?agents answers" and ?fs = "dag_failures ?agents answers"
  have ids: "map fst ?ss = map ag_id ?agents" by (rule all_succeed [OF a(2,3)])
  have ss: "?ss \<noteq> []" "distinct (map fst ?ss)" using ids ne agent_ids_distinct [OF ok] by auto
  have ss3: "fst ` set ?ss = ag_id ` set ?agents" using ids by (metis list.set_map)
  have "\<forall>s \<in> set ?ss. fresh_turn run turn (fst s) db"
  proof
    fix s assume "s \<in> set ?ss"
    then have "fst s \<in> ag_id ` set ?agents" using ss3 by blast
    then show "fresh_turn run turn (fst s) db" using fresh by auto
  qed
  from persist_accepted [OF ok ss(1) _ ss(2) this] ss3 obtain ids db' where
    p: "persistTurnBatch (map (turn_row_of run turn) ?ss) (dag_memories run turn ?agents ?ss) now db = Inr (ids, db')"
    by blast
  note eff = persist_effect [OF ok p]
  have "db_agents db' = db_agents db" using persist_rows [OF p] by auto
  moreover have "dag_runTurn renv run turn now db =
      Inr ((map (dag_result ?ss ?fs ids) ?agents, map fst ?fs), db')"
    using ne a(1) ss(1) p eff(3) by (simp add: dag_runTurn_def persist_dag_def Let_def)
  ultimately show ?thesis using eff ids persist_ok [OF p ok]
    by (intro exI [of _ "(map (dag_result ?ss ?fs ids) ?agents, map fst ?fs)"] exI [of _ db'] exI [of _ ?ss]) simp
qed

section \<open>The chain of turn jobs\<close>

text \<open>The turns of the run so far: \<open>turn\<close> complete rounds, all before \<open>turn\<close>.\<close>

definition played_before :: "int \<Rightarrow> int \<Rightarrow> sim_db \<Rightarrow> bool" where
  "played_before run turn db = list_all (\<lambda>t. tn_agent t \<noteq> None \<longrightarrow> tn_index t < turn) (turns_of run db)"

definition rounds_played :: "int \<Rightarrow> run_row \<Rightarrow> int \<Rightarrow> sim_db \<Rightarrow> bool" where
  "rounds_played run r turn db =
     (db_ok db \<and> run_findById run db = Some r \<and> rn_status r = RunRunning \<and> listByRun run db \<noteq> [] \<and>
      played_before run turn db \<and> 0 \<le> turn \<and>
      countAgentTurnsForRun run db = length (listByRun run db) * nat turn)"

lemma played_fresh: "played_before run turn db \<Longrightarrow> fresh_turn run turn a db"
  by (auto simp: played_before_def fresh_turn_def turns_of_def list_all_iff)

lemma count_by_view:
  "countAgentTurnsForRun run db = length (filter (\<lambda>v. fst (snd v) = AgentActor) (map turn_view (turns_of run db)))"
  by (simp add: countAgentTurnsForRun_def filter_map comp_def turn_view_def)

lemma before_by_view:
  "played_before run turn db \<longleftrightarrow>
   list_all (\<lambda>v. fst (snd (snd v)) \<noteq> None \<longrightarrow> fst v < turn) (map turn_view (turns_of run db))"
  by (simp add: played_before_def list.pred_map comp_def turn_view_def)

lemma spoken_all:
  "length (filter (\<lambda>v. fst (snd v) = AgentActor) (map (spoken turn) ss)) = length ss"
  "list_all (\<lambda>v. fst (snd (snd v)) \<noteq> None \<longrightarrow> fst v < turn + 1) (map (spoken turn) ss)"
  by (simp_all add: spoken_def comp_def filter_map list.pred_map list_all_iff)

lemma batch_counts:
  assumes "batch_effect run turn ss db db'"
  shows "countAgentTurnsForRun run db' = countAgentTurnsForRun run db + length ss"
    and "played_before run turn db \<Longrightarrow> played_before run (turn + 1) db'"
proof -
  have v: "map turn_view (turns_of run db') = map turn_view (turns_of run db) @ map (spoken turn) ss"
    using assms by (simp add: batch_effect_def)
  show "countAgentTurnsForRun run db' = countAgentTurnsForRun run db + length ss"
    unfolding count_by_view v using spoken_all(1) [of turn ss] by simp
  show "played_before run turn db \<Longrightarrow> played_before run (turn + 1) db'"
    unfolding before_by_view v using spoken_all(2) [of turn ss] by (auto simp: list_all_iff)
qed

lemma listByRun_cong: "db_agents db' = db_agents db \<Longrightarrow> listByRun run db' = listByRun run db"
  by (simp add: listByRun_def)

lemma run_findById_cong: "db_runs db' = db_runs db \<Longrightarrow> run_findById run db' = run_findById run db"
  by (simp add: run_findById_def)

lemma find_id: "run_findById run db = Some r \<Longrightarrow> rn_id r = run"
  by (auto simp: run_findById_def find_Some_iff)

lemma find_updateStatus:
  "run_findById run (updateStatus run s c db) =
   map_option (\<lambda>r. r\<lparr>rn_status := s, rn_completedAt := patch_col c (rn_completedAt r)\<rparr>) (run_findById run db)"
proof -
  have "find (\<lambda>r. rn_id r = run) (map (\<lambda>r. if rn_id r = run then f r else r) rs) = map_option f (find (\<lambda>r. rn_id r = run) rs)"
    if "\<And>r. rn_id (f r) = rn_id r" for f rs
    using that by (induction rs) auto
  from this [of "\<lambda>r. r\<lparr>rn_status := s, rn_completedAt := patch_col c (rn_completedAt r)\<rparr>" "db_runs db"]
  show ?thesis by (simp add: run_findById_def updateStatus_def)
qed

lemma updateStatus_tables:
  "db_turns (updateStatus run s c db) = db_turns db" "db_agents (updateStatus run s c db) = db_agents db"
  by (simp_all add: updateStatus_def)

lemma count_cong: "db_turns db' = db_turns db \<Longrightarrow> countAgentTurnsForRun run db' = countAgentTurnsForRun run db"
  by (simp add: countAgentTurnsForRun_def turns_of_def)

lemma rounds_turns_completed:
  "countAgentTurnsForRun run db = length (listByRun run db) * nat turn \<Longrightarrow> listByRun run db \<noteq> [] \<Longrightarrow> 0 \<le> turn \<Longrightarrow>
   turns_completed run db = turn"
  by (simp add: turns_completed_def Let_def)

lemma dag_round:
  assumes "rounds_played run r turn db" "always_answers renv"
  shows "\<exists>res db'. dag_runTurn renv run turn now db = Inr (res, db') \<and> rounds_played run r (turn + 1) db' \<and>
    listByRun run db' = listByRun run db"
proof -
  have db: "db_ok db" "run_findById run db = Some r" "rn_status r = RunRunning" "listByRun run db \<noteq> []"
    "played_before run turn db" "0 \<le> turn" "countAgentTurnsForRun run db = length (listByRun run db) * nat turn"
    using assms(1) by (simp_all add: rounds_played_def)
  obtain res db' ss where p: "dag_runTurn renv run turn now db = Inr (res, db')"
    "map fst ss = map ag_id (listByRun run db)" "batch_effect run turn ss db db'" "db_runs db' = db_runs db"
    "db_agents db' = db_agents db" "db_ok db'"
    using dag_plays [OF db(1,4) assms(2), of turn now] played_fresh [OF db(5)] by blast
  have "length ss = length (listByRun run db)" using p(2) map_eq_imp_length_eq by blast
  then have "countAgentTurnsForRun run db' = length (listByRun run db) * nat (turn + 1)"
    using batch_counts(1) [OF p(3)] db(6,7) by (simp add: nat_add_distrib)
  then have "rounds_played run r (turn + 1) db'"
    using p(4,6) db batch_counts(2) [OF p(3) db(5)]
    by (simp add: rounds_played_def listByRun_cong [OF p(5)] run_findById_cong [OF p(4)])
  then show ?thesis using p(1) listByRun_cong [OF p(5)] by blast
qed

text \<open>One worker: play a job, then the job that it enqueued.\<close>

fun run_turn_jobs ::
  "nat \<Rightarrow> orch_env \<Rightarrow> runner_env \<Rightarrow> (string \<Rightarrow> driver) \<Rightarrow> (int \<Rightarrow> int) \<Rightarrow> int \<Rightarrow> int \<Rightarrow> sim_state \<Rightarrow> sim_state" where
  "run_turn_jobs 0 env renv drivers clock run turn st = st"
| "run_turn_jobs (Suc fuel) env renv drivers clock run turn st =
     (case processTurnJob env renv drivers run turn (clock turn) st of
        (Inr (TurnNext True why), st') \<Rightarrow>
          (case last (st_jobs st') of
             TurnJob run' turn' _ \<Rightarrow> run_turn_jobs fuel env renv drivers clock run' turn' st'
           | _ \<Rightarrow> st')
      | (_, st') \<Rightarrow> st')"

lemma schedule_running:
  assumes "run_findById run (st_db st) = Some r" "rn_status r = RunRunning" "oe_refuses env = (\<lambda>_. None)"
  shows "scheduleNext env run now st =
    (let turns = turns_completed run (st_db st) in
     if gc_maxTurns (rn_config r) \<le> turns
     then (Inr (False, Some ''max_turns_reached''), st\<lparr>st_db := updateStatus run RunDone (Some (Some now)) (st_db st)\<rparr>)
     else (Inr (True, None), st\<lparr>st_jobs := st_jobs st @ [turn_job run turns]\<rparr>))"
  using assms find_id [OF assms(1)]
  by (simp add: scheduleNext_def schedule_turn_def enqueueTurn_def js_defs Let_def)

lemma dag_job:
  assumes played: "rounds_played run r turn (st_db st)" and ans: "always_answers renv"
    and dag: "\<not> dv_sequential (drivers (rn_kind r))" and q: "oe_refuses env = (\<lambda>_. None)"
  shows "\<exists>db'. rounds_played run r (turn + 1) db' \<and> listByRun run db' = listByRun run (st_db st) \<and>
    processTurnJob env renv drivers run turn now st =
      (if gc_maxTurns (rn_config r) \<le> turn + 1
       then (Inr (TurnNext False (Some ''max_turns_reached'')),
             st\<lparr>st_db := updateStatus run RunDone (Some (Some now)) db'\<rparr>)
       else (Inr (TurnNext True None), st\<lparr>st_db := db', st_jobs := st_jobs st @ [turn_job run (turn + 1)]\<rparr>))"
proof -
  obtain res db' where p: "dag_runTurn renv run turn now (st_db st) = Inr (res, db')"
    "rounds_played run r (turn + 1) db'" "listByRun run db' = listByRun run (st_db st)"
    using dag_round [OF played ans] by blast
  have r: "run_findById run (st_db st) = Some r" "rn_status r = RunRunning" using played by (simp_all add: rounds_played_def)
  have r': "run_findById run db' = Some r" using p(2) by (simp add: rounds_played_def)
  have t: "turns_completed run db' = turn + 1" using p(2) by (auto simp: rounds_played_def intro: rounds_turns_completed)
  have "processTurnJob env renv drivers run turn now st = schedule_after env run now (st\<lparr>st_db := db'\<rparr>)"
    using r dag p(1) by (simp add: processTurnJob_def js_defs)
  also have "\<dots> = (if gc_maxTurns (rn_config r) \<le> turn + 1
       then (Inr (TurnNext False (Some ''max_turns_reached'')),
             st\<lparr>st_db := updateStatus run RunDone (Some (Some now)) db'\<rparr>)
       else (Inr (TurnNext True None), st\<lparr>st_db := db', st_jobs := st_jobs st @ [turn_job run (turn + 1)]\<rparr>))"
    using schedule_running [of run "st\<lparr>st_db := db'\<rparr>", OF _ r(2) q] r' t
    by (simp add: schedule_after_def op_bind_def op_return_def Let_def)
  finally show ?thesis using p(2,3) by blast
qed

lemma dag_chain:
  assumes ans: "always_answers renv" and dag: "\<not> dv_sequential (drivers (rn_kind r))" and q: "oe_refuses env = (\<lambda>_. None)"
  shows "rounds_played run r turn (st_db st) \<Longrightarrow> turn < maxTurns \<Longrightarrow> gc_maxTurns (rn_config r) \<le> maxTurns \<Longrightarrow>
    (turn + 1 < maxTurns \<longrightarrow> gc_maxTurns (rn_config r) = maxTurns) \<Longrightarrow> nat (maxTurns - turn) = fuel \<Longrightarrow>
    (let st' = run_turn_jobs fuel env renv drivers clock run turn st in
     map_option rn_status (run_findById run (st_db st')) = Some RunDone \<and>
     countAgentTurnsForRun run (st_db st') = length (listByRun run (st_db st)) * nat maxTurns \<and>
     st_jobs st' = st_jobs st @ map (turn_job run) [turn + 1..maxTurns - 1])"
proof (induction fuel arbitrary: turn st)
  case 0
  then show ?case by simp
next
  case (Suc fuel)
  obtain db' where p: "rounds_played run r (turn + 1) db'" "listByRun run db' = listByRun run (st_db st)"
    "processTurnJob env renv drivers run turn (clock turn) st =
      (if gc_maxTurns (rn_config r) \<le> turn + 1
       then (Inr (TurnNext False (Some ''max_turns_reached'')),
             st\<lparr>st_db := updateStatus run RunDone (Some (Some (clock turn))) db'\<rparr>)
       else (Inr (TurnNext True None), st\<lparr>st_db := db', st_jobs := st_jobs st @ [turn_job run (turn + 1)]\<rparr>))"
    using dag_job [where drivers = drivers and st = st and now = "clock turn", OF Suc.prems(1) ans dag q] by blast
  show ?case
  proof (cases "gc_maxTurns (rn_config r) \<le> turn + 1")
    case True
    then have last: "maxTurns = turn + 1" using Suc.prems(2,4) by linarith
    have "run_findById run db' = Some r" "countAgentTurnsForRun run db' = length (listByRun run db') * nat (turn + 1)"
      using p(1) by (simp_all add: rounds_played_def)
    then show ?thesis
      using p True last
      by (simp add: Let_def find_updateStatus count_cong [OF updateStatus_tables(1)])
  next
    case False
    let ?st = "st\<lparr>st_db := db', st_jobs := st_jobs st @ [turn_job run (turn + 1)]\<rparr>"
    have more_turns: "turn + 1 < maxTurns" using False Suc.prems(3) by linarith
    have "run_turn_jobs (Suc fuel) env renv drivers clock run turn st =
        run_turn_jobs fuel env renv drivers clock run (turn + 1) ?st"
      using p(3) False by (simp add: turn_job_def)
    moreover have "[turn + 1..maxTurns - 1] = (turn + 1) # [turn + 1 + 1..maxTurns - 1]"
      using more_turns by (simp add: upto_rec1)
    moreover have "rounds_played run r (turn + 1) (st_db ?st)" "nat (maxTurns - (turn + 1)) = fuel"
      using p(1) Suc.prems(5) by simp_all
    ultimately show ?thesis
      using Suc.IH [of "turn + 1" ?st] more_turns Suc.prems(3,4) p(2) by (simp add: Let_def)
  qed
qed

lemma sequential_job:
  assumes "processTurnJob env renv drivers run turn now st = (Inr (TurnNext True why), st')"
    and "run_findById run (st_db st) = Some r" and "dv_sequential (drivers (rn_kind r))"
  obtains res db1 r1 where "sequential_runTurn renv run turn now (st_db st) = Inr (res, db1)" "\<not> rt_terminal res"
    "rn_status r = RunRunning" "run_findById run db1 = Some r1"
    "st' = st\<lparr>st_db := db1, st_jobs := st_jobs st @ [turn_job run (turns_completed run db1)]\<rparr>"
proof -
  have run: "rn_status r = RunRunning" using assms by (auto simp: processTurnJob_def js_defs split: if_splits)
  obtain res db1 where s: "sequential_runTurn renv run turn now (st_db st) = Inr (res, db1)" "\<not> rt_terminal res"
    "schedule_after env run now (st\<lparr>st_db := db1\<rparr>) = (Inr (TurnNext True why), st')"
    using assms run by (auto simp: processTurnJob_def js_defs split: if_splits sum.splits prod.splits)
  then obtain r1 where r1: "run_findById run db1 = Some r1"
    by (auto simp: schedule_after_def scheduleNext_def js_defs split: option.splits)
  have "st' = st\<lparr>st_db := db1, st_jobs := st_jobs st @ [turn_job run (turns_completed run db1)]\<rparr>"
    using s(3) r1 find_id [OF r1]
    by (auto simp: schedule_after_def scheduleNext_def schedule_turn_def enqueueTurn_def js_defs
        split: if_splits option.splits)
  with s(1,2) run r1 show thesis by (rule that)
qed

lemma sequential_same_agents: "sequential_runTurn env run turn now db = Inr (res, db') \<Longrightarrow> db_agents db' = db_agents db"
proof (elim sequential_cases)
  fix speaker r db1 i js
  assume p: "persistTurnBatch [turn_row_of run turn (ag_id speaker, r)]
      (memory_rows run turn (listByRun run db) (ag_id speaker, r)) now db = Inr (i # js, db1)"
    and db': "db' = close_if_terminal (isTerminal (tp_action r)) run now db1"
  from persist_rows [OF p] have "db_agents db1 = db_agents db" by auto
  then show "db_agents db' = db_agents db" by (simp add: db' close_if_terminal_def updateStatus_def)
qed

text \<open>A turn that some speaker has already played is refused.\<close>

lemma replay_refused:
  assumes "speaker_of (listByRun run db) turn = Some speaker"
    and "list_ex (\<lambda>t. tn_run t = run \<and> tn_index t = turn \<and> tn_agent t = Some (ag_id speaker)) (db_turns db)"
  shows "\<exists>e. sequential_runTurn env run turn now db = Inl e"
proof (rule ccontr)
  assume "\<nexists>e. sequential_runTurn env run turn now db = Inl e"
  then obtain res db' where "sequential_runTurn env run turn now db = Inr (res, db')"
    by (metis old.prod.exhaust sum.exhaust)
  then show False
  proof (cases rule: sequential_cases)
    case (1 speaker' r db1 i js)
    then have "speaker' = speaker" using assms(1) by simp
    with 1(4) assms(2) show False
      by (simp add: persistTurnBatch_def insertAgentTurn_def turn_row_of_def split: sum.splits)
  qed
qed

lemma replay_job_fails:
  assumes "run_findById run (st_db st) = Some r" "rn_status r = RunRunning" "dv_sequential (drivers (rn_kind r))"
    and "\<exists>e. sequential_runTurn renv run turn now (st_db st) = Inl e"
  shows "\<exists>e. processTurnJob env renv drivers run turn now st = (Inl e, st)"
  using assms by (auto simp: processTurnJob_def js_defs)

lemma first_rounds:
  "0 < k \<Longrightarrow> k \<le> n \<Longrightarrow> countAgentTurnsForRun run db = k \<Longrightarrow> length (listByRun run db) = n \<Longrightarrow> turns_completed run db = 1"
  by (auto simp: turns_completed_def Let_def ceiling_eq_iff divide_simps)

lemma sequential_same_runs:
  "sequential_runTurn env run turn now db = Inr (res, db') \<Longrightarrow> \<not> rt_terminal res \<Longrightarrow> db_runs db' = db_runs db"
proof (elim sequential_cases)
  fix speaker r db1 i js
  assume p: "persistTurnBatch [turn_row_of run turn (ag_id speaker, r)]
      (memory_rows run turn (listByRun run db) (ag_id speaker, r)) now db = Inr (i # js, db1)"
    and db': "db' = close_if_terminal (isTerminal (tp_action r)) run now db1" and "\<not> rt_terminal res"
    and "res = \<lparr>rt_turnId = i, rt_agent = ag_id speaker, rt_action = tp_action r, rt_terminal = isTerminal (tp_action r),
            rt_promoted = None\<rparr>"
  from persist_rows [OF p] have "db_runs db1 = db_runs db" by auto
  with \<open>\<not> rt_terminal res\<close> \<open>res = _\<close> show "db_runs db' = db_runs db" by (simp add: db' close_if_terminal_def)
qed

text \<open>One sequential job that does not end the run.\<close>

lemma sequential_job_effect:
  assumes reach: "db_reach (st_db st)" and r: "run_findById run (st_db st) = Some r"
    and seq: "dv_sequential (drivers (rn_kind r))" and turn: "0 \<le> turn"
    and job: "processTurnJob env renv drivers run turn now st = (Inr (TurnNext True why), st')"
  defines "agents \<equiv> listByRun run (st_db st)"
  defines "speaker \<equiv> agents ! nat (turn mod int (length agents))"
  shows "db_reach (st_db st') \<and> run_findById run (st_db st') = Some r \<and> rn_status r = RunRunning \<and>
    listByRun run (st_db st') = agents \<and>
    countAgentTurnsForRun run (st_db st') = Suc (countAgentTurnsForRun run (st_db st)) \<and>
    st_jobs st' = st_jobs st @ [turn_job run (turns_completed run (st_db st'))] \<and>
    list_ex (\<lambda>t. tn_run t = run \<and> tn_index t = turn \<and> tn_agent t = Some (ag_id speaker)) (db_turns (st_db st'))"
proof -
  obtain res db1 r1 where s: "sequential_runTurn renv run turn now (st_db st) = Inr (res, db1)" "\<not> rt_terminal res"
    "rn_status r = RunRunning"
    "st' = st\<lparr>st_db := db1, st_jobs := st_jobs st @ [turn_job run (turns_completed run db1)]\<rparr>"
    using sequential_job [OF job r seq] by blast
  obtain a where eff: "batch_effect run turn [(ag_id speaker, a)] (st_db st) db1"
    using sequential_turn_facts [OF reach s(1) turn] unfolding speaker_def agents_def by blast
  have "spoken turn (ag_id speaker, a) \<in> set (map turn_view (turns_of run db1))"
    using eff by (simp add: batch_effect_def)
  then have "list_ex (\<lambda>t. tn_run t = run \<and> tn_index t = turn \<and> tn_agent t = Some (ag_id speaker)) (db_turns db1)"
    by (auto simp: turns_of_def list_ex_iff turn_view_def spoken_def)
  then show ?thesis
    using sequential_reach [OF s(1) reach] r s(3,4) batch_counts(1) [OF eff]
      listByRun_cong [OF sequential_same_agents [OF s(1)], of run]
      run_findById_cong [OF sequential_same_runs [OF s(1,2)], of run]
    by (simp add: agents_def)
qed

lemma sequential_two_turns:
  assumes "db_reach (st_db st)" and "run_findById run (st_db st) = Some r" and "dv_sequential (drivers (rn_kind r))"
    and "2 \<le> length (listByRun run (st_db st))" and "countAgentTurnsForRun run (st_db st) = 0"
    and "processTurnJob env renv drivers run 0 now st = (Inr (TurnNext True why), st1)"
    and "processTurnJob env renv' drivers run 1 now' st1 = (Inr (TurnNext True why'), st2)"
  shows "st_jobs st2 = st_jobs st @ [turn_job run 1, turn_job run 1]"
    and "\<exists>e. processTurnJob env renv'' drivers run 1 now'' st2 = (Inl e, st2)"
proof -
  let ?agents = "listByRun run (st_db st)"
  note one = sequential_job_effect [OF assms(1-3) _ assms(6), simplified]
  then have st1: "db_reach (st_db st1)" "run_findById run (st_db st1) = Some r" by blast+
  note two = sequential_job_effect [OF st1 assms(3) _ assms(7), simplified]
  have agents: "listByRun run (st_db st1) = ?agents" "listByRun run (st_db st2) = ?agents" using one two by simp_all
  have "turns_completed run (st_db st1) = 1"
    by (rule first_rounds [of 1 "length ?agents"]) (use one agents assms(4,5) in simp_all)
  moreover have "turns_completed run (st_db st2) = 1"
    by (rule first_rounds [of 2 "length ?agents"]) (use one two agents assms(4,5) in simp_all)
  ultimately show "st_jobs st2 = st_jobs st @ [turn_job run 1, turn_job run 1]" using one two by simp
  have "speaker_of (listByRun run (st_db st2)) 1 = Some (?agents ! nat (1 mod int (length ?agents)))"
    using agents by (simp add: speaker_of_def Let_def)
  moreover have "list_ex (\<lambda>t. tn_run t = run \<and> tn_index t = 1 \<and>
      tn_agent t = Some (ag_id (?agents ! nat (1 mod int (length ?agents))))) (db_turns (st_db st2))"
    using two agents by simp
  ultimately have "\<exists>e. sequential_runTurn renv'' run 1 now'' (st_db st2) = Inl e" by (rule replay_refused)
  then show "\<exists>e. processTurnJob env renv'' drivers run 1 now'' st2 = (Inl e, st2)"
    using two assms(3) by (intro replay_job_fails) auto
qed

section \<open>A demonstration run\<close>

definition demo_orch_env :: orch_env where
  "demo_orch_env =
     \<lparr>oe_defaults = \<lparr>sd_quorumPct = None, sd_perFishTimeoutMs = None, sd_fishConcurrency = None\<rparr>,
      oe_subject = (\<lambda>_ _. Inr []), oe_compose = (\<lambda>_ _ _. (''p'', [], [])), oe_hints = (\<lambda>_ _. None), oe_events = (\<lambda>_. []),
      oe_refuses = (\<lambda>_. None)\<rparr>"

definition solo_state :: sim_state where
  "solo_state = \<lparr>st_db = updateStatus 1 RunRunning None two_fish_db, st_gate = [], st_jobs = [turn_job 1 0]\<rparr>"

definition second_agent :: agent_write where
  "second_agent =
     \<lparr>aw_run = 1, aw_operator = None, aw_index = 1, aw_persona = ''q'', aw_goals = [], aw_constraints = []\<rparr>"

definition duo_db :: sim_db where
  "duo_db = (case agent_insert second_agent (st_db solo_state) of Inr (_, db) \<Rightarrow> db | Inl _ \<Rightarrow> empty_db)"

definition duo_state :: sim_state where
  "duo_state = solo_state\<lparr>st_db := duo_db\<rparr>"

lemma solo_reach: "db_reach (st_db solo_state)"
  using kernel_memories [OF two_fish_reach] by (simp add: solo_state_def reach_status)

lemma duo_reach: "db_reach (st_db duo_state)"
proof (cases "agent_insert second_agent (st_db solo_state)")
  case (Inl e)
  then show ?thesis by (simp add: duo_state_def duo_db_def reach_empty)
next
  case (Inr x)
  then show ?thesis using reach_agent [OF solo_reach, of second_agent "fst x" "snd x"]
    by (cases x) (simp add: duo_state_def duo_db_def)
qed

lemma demo_answers: "always_answers (demo_runner ''hold'' emb)"
proof -
  have bad: "\<exists>e. attempt_result (demo_call_env ''hold'') \<lparr>nr_ok = True, nr_text = ''garbled'', nr_error = None\<rparr> = Inl e"
    by (simp add: attempt_result_def demo_call_env_def demo_extract_def)
  have "usable (attempt_result (demo_call_env ''hold'') \<lparr>nr_ok = True, nr_text = ''hold'', nr_error = None\<rparr>)"
    by code_simp
  then obtain r where good: "attempt_result (demo_call_env ''hold'') \<lparr>nr_ok = True, nr_text = ''hold'', nr_error = None\<rparr> = Inr r"
    by (auto simp: usable_iff)
  have "usable (fst (callTurnAgent (demo_call_env ''hold'') ctx))" for ctx
    using bad good callTurnAgent_run [of "demo_call_env ''hold''" ctx "''body''"]
    by (auto simp: usable_iff) (simp add: demo_call_env_def)
  moreover have "usable (buildTurnAgentContext (ru_ctx (demo_runner ''hold'' emb)) run agent turn subject db)"
    for run agent turn subject db
    by (simp add: usable_def buildTurnAgentContext_def demo_runner_def)
  ultimately show ?thesis by (simp add: always_answers_def) (simp add: demo_runner_def)
qed

lemma solo_facts:
  "map_option (\<lambda>r. (rn_status r, gc_maxTurns (rn_config r))) (run_findById 1 (st_db solo_state)) = Some (RunRunning, 20)"
  "length (listByRun 1 (st_db solo_state)) = 1" "turns_of 1 (st_db solo_state) = []"
  "turns_completed 1 (st_db solo_state) = 0"
  by code_simp+

definition duo_after :: "nat \<Rightarrow> turn_outcome throws \<times> sim_state" where
  "duo_after k =
     (let job = (\<lambda>turn st. processTurnJob demo_orch_env (demo_runner ''hold'' (\<lambda>_. Inr None)) (\<lambda>_. \<lparr>dv_sequential = True, dv_singleTurn = False\<rparr>) 1 turn 7 st)
      in if k = 0 then job 0 duo_state else job 1 (snd (job 0 duo_state)))"

lemma duo_facts:
  "map_option rn_kind (run_findById 1 (st_db duo_state)) = Some ''uc3_conjunction''"
  "length (listByRun 1 (st_db duo_state)) = 2" "countAgentTurnsForRun 1 (st_db duo_state) = 0"
  "fst (duo_after 0) = Inr (TurnNext True None)" "fst (duo_after 1) = Inr (TurnNext True None)"
  by code_simp+

section \<open>Properties\<close>

text \<open>C10: A standalone run with a DAG driver, whose agents always answer and whose jobs the queue
  accepts, plays out by itself: from turn 0 the chain of jobs plays every turn up to the configured
  maximum (at least one), each with one agent turn per agent, enqueues each following turn exactly
  once, and leaves the run done.\<close>

theorem standalone_dag_run_completes:
  assumes "db_reach (st_db st)" and "run_findById run (st_db st) = Some r" and "rn_status r = RunRunning"
    and "listByRun run (st_db st) \<noteq> []" and "list_all (\<lambda>t. tn_agent t = None) (turns_of run (st_db st))"
    and "\<not> dv_sequential (drivers (rn_kind r))" and "always_answers renv" and "oe_refuses env = (\<lambda>_. None)"
  shows "let maxTurns = max 1 (gc_maxTurns (rn_config r));
             st' = run_turn_jobs (nat maxTurns) env renv drivers clock run 0 st
         in map_option rn_status (run_findById run (st_db st')) = Some RunDone \<and>
            countAgentTurnsForRun run (st_db st') = length (listByRun run (st_db st)) * nat maxTurns \<and>
            st_jobs st' = st_jobs st @ map (turn_job run) [1..maxTurns - 1]"
proof -
  let ?M = "max 1 (gc_maxTurns (rn_config r))"
  have ok: "db_ok (st_db st)" by (rule reachable_db_ok [OF assms(1)])
  have "tn_actor t \<noteq> AgentActor" if "t \<in> set (turns_of run (st_db st))" for t
    using that assms(5) ok by (auto simp: turns_of_def db_ok_def list_all_iff)
  then have none: "countAgentTurnsForRun run (st_db st) = 0"
    by (simp add: countAgentTurnsForRun_def filter_empty_conv)
  have "rounds_played run r 0 (st_db st)"
    using ok assms(2-5) none by (auto simp: rounds_played_def played_before_def list_all_iff)
  then show ?thesis using dag_chain [where drivers = drivers and st = st and run = run and clock = clock and turn = 0 and maxTurns = ?M
        and fuel = "nat ?M", OF assms(7,6,8)]
    by (simp add: Let_def)
qed

theorem standalone_dag_run_completes_witness:
  "let st' = run_turn_jobs 20 demo_orch_env (demo_runner ''hold'' (\<lambda>_. Inr None)) (\<lambda>_. \<lparr>dv_sequential = False, dv_singleTurn = False\<rparr>)
      (\<lambda>t. t) 1 0 solo_state
   in map_option rn_status (run_findById 1 (st_db st')) = Some RunDone \<and> countAgentTurnsForRun 1 (st_db st') = 20 \<and>
      st_jobs st' = turn_job 1 0 # map (turn_job 1) [1..19]"
proof -
  obtain r where r: "run_findById 1 (st_db solo_state) = Some r" "rn_status r = RunRunning" "gc_maxTurns (rn_config r) = 20"
    using solo_facts(1) by auto
  have ne: "listByRun 1 (st_db solo_state) \<noteq> []" using solo_facts(2) by auto
  have "st_jobs solo_state = [turn_job 1 0]" by (simp add: solo_state_def)
  with standalone_dag_run_completes [OF solo_reach r(1,2) ne _ _ demo_answers [of "\<lambda>_. Inr None"],
      where drivers = "\<lambda>_. \<lparr>dv_sequential = False, dv_singleTurn = False\<rparr>" and env = demo_orch_env and clock = "\<lambda>t. t"]
  show ?thesis using r(3) solo_facts(2,3) by (simp add: Let_def demo_orch_env_def)
qed

text \<open>C26: A standalone run with a sequential driver and two or more agents stalls. After turns 0 and 1
  (neither of them terminal) the orchestrator has enqueued turn 1 a second time, under the job id
  that turn already had; and whenever that job is processed it throws and changes nothing, for any
  behaviour of the language model.\<close>

theorem sequential_runs_stall:
  assumes "db_reach (st_db st)" and "run_findById run (st_db st) = Some r" and "dv_sequential (drivers (rn_kind r))"
    and "2 \<le> length (listByRun run (st_db st))" and "countAgentTurnsForRun run (st_db st) = 0"
    and "processTurnJob env renv drivers run 0 now st = (Inr (TurnNext True why), st1)"
    and "processTurnJob env renv' drivers run 1 now' st1 = (Inr (TurnNext True why'), st2)"
  shows "st_jobs st2 = st_jobs st @ [turn_job run 1, turn_job run 1] \<and>
    (\<forall>renv'' now''. \<exists>e. processTurnJob env renv'' drivers run 1 now'' st2 = (Inl e, st2))"
  using sequential_two_turns [OF assms] by blast

theorem sequential_runs_stall_witness:
  "st_jobs (snd (duo_after 1)) = [turn_job 1 0, turn_job 1 1, turn_job 1 1]"
proof -
  let ?drivers = "\<lambda>_ :: string. \<lparr>dv_sequential = True, dv_singleTurn = False\<rparr>"
  let ?renv = "demo_runner ''hold'' (\<lambda>_. Inr None)"
  obtain r where r: "run_findById 1 (st_db duo_state) = Some r" using duo_facts(1) by auto
  have "processTurnJob demo_orch_env ?renv ?drivers 1 0 7 duo_state = (Inr (TurnNext True None), snd (duo_after 0))"
    using duo_facts(4) by (simp add: duo_after_def Let_def prod_eq_iff)
  moreover have "processTurnJob demo_orch_env ?renv ?drivers 1 1 7 (snd (duo_after 0)) =
      (Inr (TurnNext True None), snd (duo_after 1))"
    using duo_facts(5) by (simp add: duo_after_def Let_def prod_eq_iff)
  moreover have "st_jobs duo_state = [turn_job 1 0]" by (simp add: duo_state_def solo_state_def)
  ultimately show ?thesis
    using sequential_runs_stall [OF duo_reach r, of ?drivers] duo_facts(2,3) by auto
qed

text \<open>Resuming a paused run asks for a job that already exists. If the job of the next turn is in
  the queue when the run is paused, the worker drops it; resuming then enqueues the same job under
  the same id, which a queue that ignores known ids never runs.\<close>

theorem resume_repeats_the_dropped_job:
  assumes "run_findById run (st_db st) = Some r" and "rn_status r = RunRunning"
    and "turns_completed run (st_db st) < gc_maxTurns (rn_config r)"
    and "turn_job run (turns_completed run (st_db st)) \<in> set (st_jobs st)" and "oe_refuses env = (\<lambda>_. None)"
  shows "\<exists>st1 st2. pause run st = (Inr (), st1) \<and>
    processTurnJob env renv drivers run (turns_completed run (st_db st)) now st1 =
      (Inr (TurnSkipped ''status=paused''), st1) \<and>
    resume env run now st1 = (Inr (), st2) \<and>
    map_option rn_status (run_findById run (st_db st2)) = Some RunRunning \<and>
    st_jobs st2 = st_jobs st @ [turn_job run (turns_completed run (st_db st))] \<and>
    set (st_jobs st2) = set (st_jobs st)"
proof -
  let ?st1 = "st\<lparr>st_db := updateStatus run RunPaused None (st_db st)\<rparr>"
  let ?db2 = "updateStatus run RunRunning None (updateStatus run RunPaused None (st_db st))"
  let ?st = "st\<lparr>st_db := ?db2\<rparr>"
  have p: "pause run st = (Inr (), ?st1)" using assms(1,2) by (simp add: pause_def with_run_def js_defs)
  have r1: "run_findById run (st_db ?st1) = Some (r\<lparr>rn_status := RunPaused\<rparr>)"
    using assms(1) by (simp add: find_updateStatus patch_col_def)
  have r2: "run_findById run ?db2 = Some (r\<lparr>rn_status := RunRunning\<rparr>)"
    using assms(1) by (simp add: find_updateStatus patch_col_def)
  have skip: "processTurnJob env renv drivers run t now ?st1 = (Inr (TurnSkipped ''status=paused''), ?st1)" for t
    using r1 by (simp add: processTurnJob_def js_defs status_reason_def)
  have turns: "turns_completed run ?db2 = turns_completed run (st_db st)"
    by (simp add: turns_completed_def listByRun_def countAgentTurnsForRun_def turns_of_def updateStatus_tables)
  have "scheduleNext env run now ?st =
      (Inr (True, None), ?st\<lparr>st_jobs := st_jobs st @ [turn_job run (turns_completed run (st_db st))]\<rparr>)"
    using schedule_running [of run ?st "r\<lparr>rn_status := RunRunning\<rparr>", OF _ _ assms(5)] r2 assms(3) turns by (simp add: Let_def)
  then have "resume env run now ?st1 =
      (Inr (), ?st\<lparr>st_jobs := st_jobs st @ [turn_job run (turns_completed run (st_db st))]\<rparr>)"
    using r1 by (simp add: resume_def with_run_def js_defs)
  then show ?thesis using p skip r2 assms(4) by auto
qed

theorem resume_repeats_the_dropped_job_witness:
  "\<exists>st1 st2. pause 1 solo_state = (Inr (), st1) \<and> resume demo_orch_env 1 7 st1 = (Inr (), st2) \<and>
     st_jobs st2 = [turn_job 1 0, turn_job 1 0]"
proof -
  obtain r where r: "run_findById 1 (st_db solo_state) = Some r" "rn_status r = RunRunning" "gc_maxTurns (rn_config r) = 20"
    using solo_facts(1) by auto
  have jobs: "st_jobs solo_state = [turn_job 1 0]" by (simp add: solo_state_def)
  have "oe_refuses demo_orch_env = (\<lambda>_. None)" by (simp add: demo_orch_env_def)
  from resume_repeats_the_dropped_job [OF r(1,2) _ _ this, where renv = "demo_runner ''hold'' (\<lambda>_. Inr None)"
      and drivers = "\<lambda>_. \<lparr>dv_sequential = True, dv_singleTurn = False\<rparr>" and now = 7]
  obtain st1 st2 where "pause 1 solo_state = (Inr (), st1)" "resume demo_orch_env 1 7 st1 = (Inr (), st2)"
    "st_jobs st2 = [turn_job 1 0, turn_job 1 0]"
    using r(3) solo_facts(4) jobs by auto
  then show ?thesis by blast
qed

text \<open>An injected event reaches the agents only as its summary. Whether it comes through the
  orchestrator or the console, the stored turn yields no detail when the event is listed for a
  prompt, and it never appears among the observable turns of an agent, whose query excludes the
  agent's own turns.\<close>

theorem injected_events_lose_their_detail:
  assumes "inject run event now st = (Inr i, st') \<or> god_channel_inject run event now st = (Inr i, st')"
  shows "\<exists>t. db_turns (st_db st') = db_turns (st_db st) @ [t] \<and> tn_id t = i \<and> tn_run t = run \<and>
    tn_actor t = GodActor \<and> tn_summary t = gi_summary event \<and> extractGodEventDetail (tn_action t) = None \<and>
    (\<forall>q. bq_exclude q \<noteq> None \<longrightarrow> t \<notin> set (recentObservable q (st_db st')))"
proof -
  have god: "extractGodEventDetail (god_action prefix kind) = None" for prefix kind
    by (simp add: extractGodEventDetail_def god_action_def)
  obtain w db' where w: "insertGodTurn w now (st_db st) = Inr (i, db')" "st' = st\<lparr>st_db := db'\<rparr>" "hw_run w = run"
    "hw_summary w = gi_summary event" "extractGodEventDetail (hw_action w) = None"
    using assms
  proof
    assume "inject run event now st = (Inr i, st')"
    then show thesis
      by (auto simp: inject_def with_run_def writeGodTurn_def god js_defs intro!: that
          split: option.splits if_splits sum.splits prod.splits)
  next
    assume "god_channel_inject run event now st = (Inr i, st')"
    then show thesis
      by (auto simp: god_channel_inject_def with_run_def god js_defs intro!: that
          split: option.splits if_splits sum.splits prod.splits)
  qed
  let ?t = "\<lparr>tn_id = i, tn_run = run, tn_index = hw_index w, tn_actor = GodActor, tn_agent = None,
    tn_action = hw_action w, tn_rationale = hw_rationale w, tn_summary = hw_summary w, tn_createdAt = now\<rparr>"
  have turns: "db_turns db' = db_turns (st_db st) @ [?t]"
    using w(1,3) by (auto simp: insertGodTurn_def Let_def split: if_splits)
  have "?t \<notin> set (recentObservable q db')" if "bq_exclude q \<noteq> None" for q
    using that by (auto simp: recentObservable_def order_desc_def sql_ne_def dest!: in_set_takeD)
  then show ?thesis using turns w(2,4,5) by (intro exI [of _ ?t]) auto
qed

theorem injected_events_lose_their_detail_witness:
  "\<exists>i st'. inject 1 \<lparr>gi_kind = ''custom'', gi_summary = ''storm'', gi_detail = Some ''a geomagnetic storm'',
      gi_targetEntityId = None, gi_targetSubjectId = None\<rparr> 7 solo_state = (Inr i, st') \<and>
     store_listGodEvents 1 0 10 (st_db st') = [\<lparr>gv_turn = 0, gv_summary = ''storm'', gv_detail = None\<rparr>]"
proof -
  let ?e = "\<lparr>gi_kind = ''custom'', gi_summary = ''storm'', gi_detail = Some ''a geomagnetic storm'',
      gi_targetEntityId = None, gi_targetSubjectId = None\<rparr>"
  have "case inject 1 ?e 7 solo_state of
      (Inr i, st') \<Rightarrow> map (\<lambda>g. (gv_turn g, gv_summary g)) (store_listGodEvents 1 0 10 (st_db st')) = [(0, ''storm'')]
    | _ \<Rightarrow> False" by code_simp
  then obtain i st' where inj: "inject 1 ?e 7 solo_state = (Inr i, st')"
    and seen: "map (\<lambda>g. (gv_turn g, gv_summary g)) (store_listGodEvents 1 0 10 (st_db st')) = [(0, ''storm'')]"
    by (auto split: prod.splits sum.splits)
  from injected_events_lose_their_detail [OF disjI1 [OF inj]] obtain t where
    t: "db_turns (st_db st') = db_turns (st_db solo_state) @ [t]" "extractGodEventDetail (tn_action t) = None" by blast
  have "db_turns (st_db solo_state) = []" by code_simp
  then have "\<forall>g \<in> set (store_listGodEvents 1 0 10 (st_db st')). gv_detail g = None"
    using t by (auto simp: store_listGodEvents_def listGodEventsAtOrBefore_def turns_of_def dest!: in_set_takeD)
  then have "store_listGodEvents 1 0 10 (st_db st') = [\<lparr>gv_turn = 0, gv_summary = ''storm'', gv_detail = None\<rparr>]"
    using seen by (auto simp: map_eq_Cons_conv)
  then show ?thesis using inj by blast
qed

end
