(* ===== verification/Swarm.thy ===== *)
theory Swarm
  imports SimOrchestrator
begin

text \<open>
  Swarms of simulations: \<open>packages/sweep/src/sim/swarm.service.ts\<close>, the aggregate gate
  \<open>swarm-aggregate-gate.ts\<close>, the workers \<open>jobs/workers/swarm-fish.worker.ts\<close> and
  \<open>swarm-aggregate.worker.ts\<close>, and the store service \<open>sim-swarm-store.service.ts\<close> whose
  operations are those of the repositories.

  The operations are given as whole programs; \<open>SwarmMachine\<close> runs them interleaved.
\<close>

section \<open>The aggregate gate\<close>

text \<open>\<open>SET key 1 EX ttl NX\<close> and \<open>DEL key\<close>, within the seven days the key lives.\<close>

definition gate_reset :: "int \<Rightarrow> unit sim_op" where
  [js_defs]: "gate_reset swarm = (\<lambda>st. (Inr (), st\<lparr>st_gate := removeAll swarm (st_gate st)\<rparr>))"

definition gate_claim :: "int \<Rightarrow> bool sim_op" where
  [js_defs]: "gate_claim swarm =
     (\<lambda>st. if swarm \<in> set (st_gate st) then (Inr False, st)
           else (Inr True, st\<lparr>st_gate := swarm # st_gate st\<rparr>))"

definition gate_release :: "int \<Rightarrow> unit sim_op" where
  [js_defs]: "gate_release swarm = (\<lambda>st. (Inr (), st\<lparr>st_gate := removeAll swarm (st_gate st)\<rparr>))"

section \<open>The swarm service\<close>

record swarm_env =
  se_orch :: orch_env
  se_runner :: runner_env
  se_driver :: "string \<Rightarrow> driver"
  se_validate :: "string \<Rightarrow> json_object \<Rightarrow> exn option"
  se_maxTurns :: "string \<Rightarrow> int"
  se_applyToSeed :: "json_object \<Rightarrow> json_object \<Rightarrow> json_object"

definition refuses :: "swarm_env \<Rightarrow> sim_job \<Rightarrow> exn option" where
  [js_defs]: "refuses env = oe_refuses (se_orch env)"

definition isNoopPerturbation :: "json_object \<Rightarrow> bool" where
  "isNoopPerturbation p = (map_of p ''kind'' = Some (JStr ''noop''))"

definition fish_job :: "int \<Rightarrow> int \<times> int \<Rightarrow> sim_job" where
  "fish_job swarm rf = FishJob swarm (fst rf) (snd rf) (''swarm-'' @ show_int swarm @ ''-fish-'' @ show_int (snd rf))"

definition aggregate_job :: "int \<Rightarrow> sim_job" where
  "aggregate_job swarm = AggregateJob swarm (''swarm-'' @ show_int swarm @ ''-aggregate'')"

fun enqueue_fish :: "swarm_env \<Rightarrow> int \<Rightarrow> (int \<times> int) list \<Rightarrow> unit sim_op" where
  "enqueue_fish env swarm [] = op_return ()"
| "enqueue_fish env swarm (f # fs) =
     op_then (op_enqueue (refuses env) (fish_job swarm f)) (enqueue_fish env swarm fs)"

definition fish_concurrency :: "swarm_config \<Rightarrow> int" where
  "fish_concurrency c = readPositiveInt (Some (wc_fishConcurrency c)) 1"

text \<open>How many fish to claim, none when there is nothing to claim or no free slot.\<close>

definition claim_limit :: "swarm_config \<Rightarrow> fish_counts \<Rightarrow> int" where
  "claim_limit c counts =
     (let open_slots = fish_concurrency c - int (fk_running counts) in
      if fk_pending counts < 1 \<or> open_slots < 1 then 0 else min open_slots (int (fk_pending counts)))"

definition claim_fish :: "int \<Rightarrow> int \<Rightarrow> (int \<times> int) list sim_op" where
  [js_defs]: "claim_fish swarm limit = op_insert (claimPendingFishForSwarm swarm limit)"

definition activatePendingFish :: "swarm_env \<Rightarrow> int \<Rightarrow> swarm_config \<Rightarrow> nat sim_op" where
  "activatePendingFish env swarm config =
     op_bind (op_read (countFishByStatus swarm)) (\<lambda>counts.
       if claim_limit config counts = 0 then op_return 0
       else op_bind (claim_fish swarm (claim_limit config counts)) (\<lambda>claimed.
              op_then (enqueue_fish env swarm claimed) (op_return (length claimed))))"

definition accounted :: "fish_counts \<Rightarrow> nat" where
  "accounted c = fk_done c + fk_failed c + fk_timeout c"

definition enqueue_aggregate :: "swarm_env \<Rightarrow> int \<Rightarrow> bool sim_op" where
  "enqueue_aggregate env swarm =
     (\<lambda>st. case op_enqueue (refuses env) (aggregate_job swarm) st of
        (Inr _, st') \<Rightarrow> (Inr True, st')
      | (Inl e, st') \<Rightarrow> op_then (gate_release swarm) (op_throw e) st')"

definition account_fish :: "swarm_env \<Rightarrow> int \<Rightarrow> swarm_row \<Rightarrow> bool sim_op" where
  "account_fish env swarm s =
     op_bind (op_read (countFishByStatus swarm)) (\<lambda>counts.
       if int (accounted counts) < sw_size s then op_return False
       else op_bind (gate_claim swarm) (\<lambda>claimed.
              if claimed then enqueue_aggregate env swarm else op_return False))"

definition onFishComplete :: "swarm_env \<Rightarrow> int \<Rightarrow> bool sim_op" where
  "onFishComplete env swarm =
     op_bind (op_read (swarm_findById swarm)) (\<lambda>found.
       case found of
         None \<Rightarrow> op_return False
       | Some s \<Rightarrow>
           op_bind (activatePendingFish env swarm (sw_config s)) (\<lambda>_. account_fish env swarm s))"

record launch_opts =
  lo_kind :: string
  lo_title :: string
  lo_baseSeed :: json_object
  lo_perturbations :: "json_object list"
  lo_config :: swarm_config
  lo_createdBy :: "int option"

definition fish_sim_config :: "swarm_config \<Rightarrow> json_object \<Rightarrow> int \<Rightarrow> nat \<Rightarrow> sim_config" where
  "fish_sim_config c seed maxTurns i =
     \<lparr>gc_turnsPerDay = readPositiveInt (as_number (map_of seed ''turnsPerDay'')) 1, gc_maxTurns = maxTurns,
      gc_llmMode = wc_llmMode c, gc_seed = wc_seed c + int i, gc_nanoModel = wc_nanoModel c,
      gc_perFishTimeoutMs = Some (wc_perFishTimeoutMs c)\<rparr>"

fun create_fish :: "swarm_env \<Rightarrow> launch_opts \<Rightarrow> int \<Rightarrow> int \<Rightarrow> nat \<Rightarrow> json_object list \<Rightarrow> int list sim_op" where
  "create_fish env opts swarm now i [] = op_return []"
| "create_fish env opts swarm now i (spec # specs) =
     (let seed = se_applyToSeed env (lo_baseSeed opts) spec in
      op_bind (createFish (se_orch env)
          \<lparr>fo_swarm = swarm, fo_fish = int i, fo_kind = lo_kind opts, fo_seed = seed, fo_perturbation = spec,
           fo_config = fish_sim_config (lo_config opts) seed (se_maxTurns env (lo_kind opts)) i\<rparr> now)
        (\<lambda>fish. op_bind (create_fish env opts swarm now (Suc i) specs) (\<lambda>rs. op_return (fst fish # rs))))"

definition launchSwarm :: "swarm_env \<Rightarrow> launch_opts \<Rightarrow> int \<Rightarrow> (int \<times> nat \<times> int) sim_op" where
  "launchSwarm env opts now =
     (case lo_perturbations opts of
        [] \<Rightarrow> op_throw (mk_error ''launchSwarm requires at least 1 perturbation'')
      | p # _ \<Rightarrow>
          if \<not> isNoopPerturbation p
          then op_throw (mk_error ''launchSwarm requires fish 0 perturbation to be noop'')
          else
            (case se_validate env (lo_kind opts) (lo_baseSeed opts) of
               Some e \<Rightarrow> op_throw e
             | None \<Rightarrow>
                 op_bind (op_insert (swarm_insert
                     \<lparr>xw_kind = lo_kind opts, xw_title = lo_title opts, xw_baseSeed = lo_baseSeed opts,
                      xw_perturbations = lo_perturbations opts, xw_size = int (length (lo_perturbations opts)),
                      xw_config = (lo_config opts)\<lparr>wc_aggregates := []\<rparr>, xw_status = Some SwarmRunning,
                      xw_createdBy = lo_createdBy opts\<rparr>))
                   (\<lambda>swarm. op_then (gate_reset swarm)
                     (op_bind (create_fish env opts swarm now 0 (lo_perturbations opts)) (\<lambda>runs.
                       op_bind (activatePendingFish env swarm (lo_config opts)) (\<lambda>_.
                         op_return (swarm, length (lo_perturbations opts), hd runs)))))))"

definition abort_swarm :: "int \<Rightarrow> int \<Rightarrow> unit sim_op" where
  "abort_swarm swarm now = op_update (abortSwarm swarm now)"

record swarm_report =
  sr_swarm :: int
  sr_kind :: string
  sr_status :: swarm_status
  sr_size :: int
  sr_counts :: fish_counts
  sr_reportFindingId :: "int option"
  sr_suggestionId :: "int option"

definition swarm_status_of :: "int \<Rightarrow> sim_db \<Rightarrow> swarm_report option" where
  "swarm_status_of swarm db =
     map_option (\<lambda>s. \<lparr>sr_swarm = swarm, sr_kind = sw_kind s, sr_status = sw_status s, sr_size = sw_size s,
                      sr_counts = countFishByStatus swarm db, sr_reportFindingId = sw_reportFindingId s,
                      sr_suggestionId = sw_suggestionId s\<rparr>) (swarm_findById swarm db)"

section \<open>The fish worker\<close>

datatype fish_outcome = FishOk | FishSkipped | FishTimeout

definition DEFAULT_FISH_TIMEOUT_MS :: int where
  "DEFAULT_FISH_TIMEOUT_MS = 60000"

definition createFishTimeoutError :: "int \<Rightarrow> int \<Rightarrow> exn" where
  "createFishTimeoutError run ms =
     \<lparr>ename = ''AbortError'', emsg = ''sim_run '' @ show_int run @ '' timed out after '' @ show_int ms @ ''ms''\<rparr>"

definition isFishTimeoutError :: "exn \<Rightarrow> bool" where
  "isFishTimeoutError err = (ename err = ''AbortError'' \<and> js_includes ''timed out'' (to_lower (emsg err)))"

text \<open>
  When the timer of a fish fires: \<open>tm_during k\<close> if it has fired before turn \<open>k\<close> settles (or,
  after the last turn, before the drain settles), \<open>tm_late\<close> if it fires while the final status is
  written.
\<close>

record timer =
  tm_during :: "int \<Rightarrow> bool"
  tm_late :: bool

definition play_turn :: "swarm_env \<Rightarrow> driver \<Rightarrow> int \<Rightarrow> int \<Rightarrow> int \<Rightarrow> bool sim_op" where
  "play_turn env driver run turn now =
     (if dv_sequential driver
      then op_bind (op_try (sequential_runTurn (se_runner env) run turn now)) (\<lambda>r. op_return (rt_terminal r))
      else op_bind (op_try (dag_runTurn (se_runner env) run turn now)) (\<lambda>_. op_return (dv_singleTurn driver)))"

function drain ::
  "swarm_env \<Rightarrow> driver \<Rightarrow> timer \<Rightarrow> exn \<Rightarrow> int \<Rightarrow> int \<Rightarrow> int \<Rightarrow> int \<Rightarrow> (int \<times> bool) sim_op" where
  "drain env driver tm timeout run now maxTurns turn =
     (if tm_during tm turn then op_throw timeout
      else if turn < maxTurns
      then op_bind (play_turn env driver run turn now) (\<lambda>terminal.
             if terminal
             then (if tm_during tm (turn + 1) then op_throw timeout else op_return (turn + 1, True))
             else drain env driver tm timeout run now maxTurns (turn + 1))
      else op_return (turn, False))"
  by pat_completeness auto
termination by (relation "measure (\<lambda>(_, _, _, _, _, _, maxTurns, turn). nat (maxTurns - turn))") auto

declare drain.simps [simp del]

definition run_timeoutMs :: "run_row \<Rightarrow> int" where
  "run_timeoutMs r = readPositiveInt (gc_perFishTimeoutMs (rn_config r)) DEFAULT_FISH_TIMEOUT_MS"

definition close_run :: "int \<Rightarrow> run_status \<Rightarrow> int \<Rightarrow> unit sim_op" where
  [js_defs]: "close_run run status now = op_update (updateStatus run status (Some (Some now)))"

text \<open>The body of the \<open>try\<close> block.\<close>

definition fish_try :: "swarm_env \<Rightarrow> timer \<Rightarrow> int \<Rightarrow> int \<Rightarrow> fish_outcome sim_op" where
  "fish_try env tm run now =
     op_bind (op_read (run_findById run)) (\<lambda>found.
       case found of
         None \<Rightarrow> op_throw (run_not_found run)
       | Some r \<Rightarrow>
           if rn_status r \<noteq> RunRunning then op_return FishSkipped
           else op_bind (drain env (se_driver env (rn_kind r)) tm (createFishTimeoutError run (run_timeoutMs r)) run now
                           (gc_maxTurns (rn_config r)) 0)
                  (\<lambda>_. op_then (close_run run RunDone now)
                         (op_return (if tm_late tm then FishTimeout else FishOk))))"

text \<open>The \<open>catch\<close> block. An error with an empty message is not thrown on.\<close>

definition fish_catch :: "int \<Rightarrow> int \<Rightarrow> exn \<Rightarrow> fish_outcome sim_op" where
  "fish_catch run now err =
     (if isFishTimeoutError err then op_then (close_run run RunTimeout now) (op_return FishTimeout)
      else op_then (close_run run RunFailed now)
             (if emsg err = [] then op_return FishOk else op_throw (mk_error (emsg err))))"

definition fish_attempt :: "swarm_env \<Rightarrow> timer \<Rightarrow> int \<Rightarrow> int \<Rightarrow> fish_outcome sim_op" where
  "fish_attempt env tm run now =
     (\<lambda>st. case fish_try env tm run now st of
        (Inl err, st') \<Rightarrow> fish_catch run now err st'
      | (Inr ok, st') \<Rightarrow> (Inr ok, st'))"

text \<open>The \<open>finally\<close> block: an error of \<open>onFishComplete\<close> replaces the outcome.\<close>

definition processSwarmFishJob :: "swarm_env \<Rightarrow> timer \<Rightarrow> int \<Rightarrow> int \<Rightarrow> int \<Rightarrow> fish_outcome sim_op" where
  "processSwarmFishJob env tm swarm run now =
     (\<lambda>st. case fish_attempt env tm run now st of
        (result, st1) \<Rightarrow>
          (case onFishComplete env swarm st1 of
             (Inl err, st2) \<Rightarrow> (Inl err, st2)
           | (Inr _, st2) \<Rightarrow> (result, st2)))"

section \<open>The aggregate worker\<close>

record resolved_outcome =
  ro_status :: swarm_status
  ro_snapshotKey :: "string option"
  ro_snapshot :: "jval option"
  ro_suggestionId :: "int option option"
  ro_reportFindingId :: "int option option"

definition outcome_snapshot :: "resolved_outcome \<Rightarrow> (string \<times> jval) option" where
  "outcome_snapshot o' =
     (case (ro_snapshotKey o', ro_snapshot o') of
        (Some key, Some value) \<Rightarrow> if key \<noteq> [] then Some (key, value) else None
      | _ \<Rightarrow> None)"

definition processSwarmAggregateJob ::
  "(swarm_row \<Rightarrow> terminal_row list \<Rightarrow> resolved_outcome throws) \<Rightarrow> int \<Rightarrow> int \<Rightarrow> resolved_outcome sim_op" where
  "processSwarmAggregateJob resolve swarm now =
     op_bind (op_read (\<lambda>db. (swarm_findById swarm db, listTerminalsForSwarm swarm db))) (\<lambda>(found, terminals).
       case found of
         None \<Rightarrow> op_throw (mk_error (''sim_swarm '' @ show_int swarm @ '' not found''))
       | Some s \<Rightarrow>
           op_bind (op_lift (resolve s terminals)) (\<lambda>o'.
             op_then
               (case outcome_snapshot o' of
                  None \<Rightarrow> op_return ()
                | Some (key, value) \<Rightarrow> op_try (\<lambda>db. map_sum id (\<lambda>db'. ((), db')) (snapshotAggregate swarm key value db)))
               (op_then (op_update (closeSwarm swarm
                   \<lparr>ki_status = ro_status o', ki_suggestionId = ro_suggestionId o',
                    ki_reportFindingId = ro_reportFindingId o'\<rparr> now))
                 (op_return o'))))"

section \<open>Run states at a glance\<close>

text \<open>The runs as (run, swarm, status); \<open>mark\<close> sets the status of some runs.\<close>

type_synonym run_view = "(int \<times> int \<times> run_status) list"

definition view :: "sim_db \<Rightarrow> run_view" where
  "view db = map (\<lambda>r. (rn_id r, rn_swarm r, rn_status r)) (db_runs db)"

definition mark :: "int set \<Rightarrow> run_status \<Rightarrow> run_view \<Rightarrow> run_view" where
  "mark I s v = map (\<lambda>(i, w, x). (i, w, if i \<in> I then s else x)) v"

definition ids_of :: "int \<Rightarrow> run_status \<Rightarrow> run_view \<Rightarrow> int list" where
  "ids_of swarm s v = map fst (filter (\<lambda>(i, w, x). w = swarm \<and> x = s) v)"

definition members :: "int \<Rightarrow> run_view \<Rightarrow> int list" where
  "members swarm v = map fst (filter (\<lambda>(i, w, x). w = swarm) v)"

lemma mark_simps [simp]:
  "mark {} s v = v" "map fst (mark I s v) = map fst v" "members swarm (mark I s v) = members swarm v"
  "mark I s (mark I t v) = mark I s v"
  by (auto simp: mark_def members_def comp_def filter_map case_prod_unfold)

lemma ids_of_iff: "i \<in> set (ids_of swarm s v) \<longleftrightarrow> (i, swarm, s) \<in> set v"
  by (force simp: ids_of_def)

lemma members_iff: "i \<in> set (members swarm v) \<longleftrightarrow> (\<exists>s. (i, swarm, s) \<in> set v)"
  by (force simp: members_def)

lemma mark_iff: "(i, w, x) \<in> set (mark I s v) \<longleftrightarrow> (\<exists>y. (i, w, y) \<in> set v \<and> x = (if i \<in> I then s else y))"
  by (force simp: mark_def)

lemma ids_of_mark:
  "set (ids_of swarm s (mark I t v)) =
   (if s = t then set (ids_of swarm s v) \<union> (I \<inter> set (members swarm v)) else set (ids_of swarm s v) - I)"
  by (auto simp: ids_of_iff members_iff mark_iff split: if_splits)

lemma ids_of_members: "set (ids_of swarm s v) \<subseteq> set (members swarm v)"
  by (auto simp: ids_of_iff members_iff)

lemma members_status: "i \<in> set (members swarm v) \<Longrightarrow> \<exists>s. i \<in> set (ids_of swarm s v)"
  by (simp add: ids_of_iff members_iff)

lemma ids_of_disjoint: "distinct (map fst v) \<Longrightarrow> s \<noteq> t \<Longrightarrow> set (ids_of swarm s v) \<inter> set (ids_of swarm t v) = {}"
  by (induction v) (force simp: ids_of_iff)+

lemma distinct_ids: "distinct (map fst v) \<Longrightarrow> distinct (ids_of swarm s v)" "distinct (map fst v) \<Longrightarrow> distinct (members swarm v)"
  by (simp_all add: ids_of_def members_def distinct_map_filter)

lemma view_distinct: "db_ok db \<Longrightarrow> distinct (map fst (view db))"
  by (simp add: db_ok_def view_def comp_def serial_distinct)

lemma count_status_ids: "count_status swarm s db = length (ids_of swarm s (view db))"
  by (simp add: count_status_def ids_of_def view_def filter_map comp_def)

lemma view_updateStatus: "view (updateStatus run s c db) = mark {run} s (view db)"
  by (simp add: view_def updateStatus_def mark_def comp_def if_distrib)

lemma view_find: "distinct (map fst (view db)) \<Longrightarrow> run_findById run db = Some r \<longleftrightarrow> r \<in> set (db_runs db) \<and> rn_id r = run"
proof -
  have "distinct (map rn_id rs) \<Longrightarrow> find (\<lambda>r. rn_id r = run) rs = Some r \<longleftrightarrow> r \<in> set rs \<and> rn_id r = run" for rs
    by (induction rs) auto
  then show "distinct (map fst (view db)) \<Longrightarrow> ?thesis" by (simp add: view_def run_findById_def comp_def)
qed

lemma view_status:
  assumes "db_ok db" "i \<in> set (ids_of swarm s (view db))"
  shows "\<exists>r. run_findById i db = Some r \<and> rn_status r = s"
proof -
  from assms(2) obtain r where "r \<in> set (db_runs db)" "rn_id r = i" "rn_status r = s"
    by (auto simp: ids_of_iff view_def)
  then show ?thesis using view_find [OF view_distinct [OF assms(1)], of i r] by blast
qed

section \<open>What a worker does to the runs\<close>

definition only_run :: "int \<Rightarrow> sim_state \<Rightarrow> sim_state \<Rightarrow> bool" where
  "only_run run st st' =
     (st_jobs st' = st_jobs st \<and> st_gate st' = st_gate st \<and> db_swarms (st_db st') = db_swarms (st_db st) \<and>
      (db_ok (st_db st) \<longrightarrow> db_ok (st_db st')) \<and>
      (view (st_db st') = view (st_db st) \<or> (\<exists>s. terminal_status s \<and> view (st_db st') = mark {run} s (view (st_db st)))))"

lemma only_run_refl: "only_run run st st"
  by (simp add: only_run_def)

lemma only_run_trans: "only_run run st st1 \<Longrightarrow> only_run run st1 st2 \<Longrightarrow> only_run run st st2"
  by (auto simp: only_run_def)

lemma close_run_effect:
  "terminal_status s \<Longrightarrow> snd (close_run run s now st) = st\<lparr>st_db := updateStatus run s (Some (Some now)) (st_db st)\<rparr>"
  by (simp add: js_defs)

lemma persist_tables:
  assumes "persistTurnBatch ts ms now db = Inr (ids, db')"
  shows "db_swarms db' = db_swarms db" "db_runs db' = db_runs db"
  using persist_rows [OF assms] by auto

lemma sequential_only:
  assumes "sequential_runTurn env run turn now (st_db st) = Inr (res, db')"
  shows "only_run run st (st\<lparr>st_db := db'\<rparr>)"
  using assms
proof (cases rule: sequential_cases)
  case (1 speaker r db1 i js)
  have "db_ok (st_db st) \<longrightarrow> db_ok db1" using persist_ok [OF 1(4)] by blast
  moreover have "view db1 = view (st_db st)" "db_swarms db1 = db_swarms (st_db st)"
    using persist_tables [OF 1(4)] by (simp_all add: view_def)
  ultimately show ?thesis
    unfolding 1(6) by (auto simp: only_run_def close_if_terminal_def view_updateStatus updateStatus_ok terminal_status_def)
      (simp_all add: updateStatus_def)
qed

lemma dag_only:
  assumes "dag_runTurn env run turn now (st_db st) = Inr (res, db')"
  shows "only_run run st (st\<lparr>st_db := db'\<rparr>)"
proof (cases res)
  case (Pair results failed)
  from assms [unfolded Pair] show ?thesis
  proof (cases rule: dag_cases)
    case (1 answers ids)
    then show ?thesis using persist_tables [OF 1(4)] persist_ok [OF 1(4)] by (auto simp: only_run_def view_def)
  qed
qed

lemma play_turn_only: "play_turn env driver run turn now st = (res, st') \<Longrightarrow> only_run run st st'"
  by (auto simp: play_turn_def js_defs only_run_refl intro: sequential_only dag_only
      split: if_splits sum.splits prod.splits)

lemma drain_only: "drain env driver tm timeout run now maxTurns turn st = (res, st') \<Longrightarrow> only_run run st st'"
proof (induction env driver tm timeout run now maxTurns turn arbitrary: st rule: drain.induct)
  case (1 env driver tm timeout run now maxTurns turn)
  show ?case
  proof (cases "tm_during tm turn \<or> \<not> turn < maxTurns")
    case True
    then show ?thesis using 1(2) by (auto simp: drain.simps [of _ _ _ _ _ _ _ turn] js_defs only_run_refl split: if_splits)
  next
    case False
    obtain r st1 where p: "play_turn env driver run turn now st = (r, st1)" by (cases "play_turn env driver run turn now st")
    have o1: "only_run run st st1" by (rule play_turn_only [OF p])
    show ?thesis
    proof (cases r)
      case (Inl e)
      then show ?thesis using False 1(2) p o1 by (simp add: drain.simps [of _ _ _ _ _ _ _ turn] op_bind_def)
    next
      case (Inr terminal)
      show ?thesis
      proof (cases terminal)
        case True
        then show ?thesis using False Inr 1(2) p o1
          by (auto simp: drain.simps [of _ _ _ _ _ _ _ turn] js_defs split: if_splits)
      next
        case no: False
        then have "drain env driver tm timeout run now maxTurns (turn + 1) st1 = (res, st')"
          using False Inr 1(2) p by (simp add: drain.simps [of _ _ _ _ _ _ _ turn] op_bind_def)
        then have "only_run run st1 st'" using 1(1) [of terminal st1] False no by blast
        with o1 show ?thesis by (rule only_run_trans)
      qed
    qed
  qed
qed

section \<open>Activating pending fish\<close>

definition accepting :: "swarm_env \<Rightarrow> bool" where
  "accepting env = (oe_refuses (se_orch env) = (\<lambda>_. None))"

lemma enqueue_fish_jobs:
  "accepting env \<Longrightarrow> enqueue_fish env swarm fs st = (Inr (), st\<lparr>st_jobs := st_jobs st @ map (fish_job swarm) fs\<rparr>)"
  by (induction fs arbitrary: st) (simp_all add: accepting_def js_defs)

lemma claim_view:
  assumes ok: "db_ok db" and lim: "1 \<le> limit" "limit \<le> int (length (ids_of swarm RunPending (view db)))"
    and c: "claimPendingFishForSwarm swarm limit db = (claimed, db')"
  shows "length claimed = nat limit" "distinct (map fst claimed)"
    "set (map fst claimed) \<subseteq> set (ids_of swarm RunPending (view db))"
    "view db' = mark (set (map fst claimed)) RunRunning (view db)" "db_swarms db' = db_swarms db" "db_ok db'"
proof -
  let ?cand = "filter (\<lambda>r. rn_swarm r = swarm \<and> rn_status r = RunPending) (db_runs db)"
  let ?picked = "pick_pending swarm (nat limit) db"
  have cl: "claimed = map (\<lambda>r. (rn_id r, rn_fish r)) ?picked" and db': "db' = db\<lparr>db_runs := map (\<lambda>r. if rn_id r \<in> set (map rn_id ?picked) then r\<lparr>rn_status := RunRunning\<rparr> else r) (db_runs db)\<rparr>"
    using c lim(1) by (auto simp: claimPendingFishForSwarm_def Let_def)
  have ids: "map fst claimed = map rn_id ?picked" by (simp add: cl comp_def)
  have pend: "ids_of swarm RunPending (view db) = map rn_id ?cand" by (simp add: ids_of_def view_def filter_map comp_def)
  show "length claimed = nat limit" using lim by (simp add: cl pick_pending_def pend)
  have "distinct (map rn_id (sort_key rn_fish ?cand))"
    using distinct_ids(1) [OF view_distinct [OF ok], of swarm RunPending] by (simp add: pend distinct_map)
  then show "distinct (map fst claimed)" unfolding ids pick_pending_def take_map [symmetric] by (rule distinct_take)
  show "set (map fst claimed) \<subseteq> set (ids_of swarm RunPending (view db))"
    unfolding ids pend pick_pending_def by (auto dest!: in_set_takeD)
  show "view db' = mark (set (map fst claimed)) RunRunning (view db)"
    unfolding ids by (simp add: db' view_def mark_def comp_def if_distrib)
  show "db_swarms db' = db_swarms db" by (simp add: db')
  show "db_ok db'" using claim_ok [of swarm limit db] c ok by simp
qed

definition pending_of :: "int \<Rightarrow> sim_db \<Rightarrow> int list" where
  "pending_of swarm db = ids_of swarm RunPending (view db)"

definition running_of :: "int \<Rightarrow> sim_db \<Rightarrow> int list" where
  "running_of swarm db = ids_of swarm RunRunning (view db)"

definition free_claim :: "swarm_config \<Rightarrow> int \<Rightarrow> sim_db \<Rightarrow> nat" where
  "free_claim c swarm db =
     nat (min (fish_concurrency c - int (length (running_of swarm db))) (int (length (pending_of swarm db))))"

lemma claim_limit_free: "nat (claim_limit c (countFishByStatus swarm db)) = free_claim c swarm db"
  "0 \<le> claim_limit c (countFishByStatus swarm db)"
  by (auto simp: claim_limit_def free_claim_def Let_def countFishByStatus_def count_status_ids running_of_def pending_of_def)

text \<open>One activation: it claims as many pending fish as there are free slots, and enqueues each.\<close>

definition activation :: "swarm_env \<Rightarrow> int \<Rightarrow> swarm_config \<Rightarrow> sim_state \<Rightarrow> sim_state \<Rightarrow> (int \<times> int) list \<Rightarrow> bool" where
  "activation env swarm c st st' claimed =
     (st_jobs st' = st_jobs st @ map (fish_job swarm) claimed \<and> st_gate st' = st_gate st \<and>
      db_swarms (st_db st') = db_swarms (st_db st) \<and> db_ok (st_db st') \<and>
      view (st_db st') = mark (set (map fst claimed)) RunRunning (view (st_db st)) \<and>
      distinct (map fst claimed) \<and> set (map fst claimed) \<subseteq> set (pending_of swarm (st_db st)) \<and>
      length claimed = free_claim c swarm (st_db st))"

lemma activate_effect:
  assumes ok: "db_ok (st_db st)" and acc: "accepting env"
  shows "\<exists>claimed st'. activatePendingFish env swarm c st = (Inr (length claimed), st') \<and>
    activation env swarm c st st' claimed"
proof (cases "claim_limit c (countFishByStatus swarm (st_db st)) = 0")
  case True
  then have "free_claim c swarm (st_db st) = 0" using claim_limit_free(1) [of c swarm "st_db st"] by simp
  with True ok show ?thesis
    by (intro exI [of _ "[]"] exI [of _ st]) (simp add: activatePendingFish_def op_bind_def op_read_def op_return_def activation_def)
next
  case False
  let ?db = "st_db st"
  let ?limit = "claim_limit c (countFishByStatus swarm ?db)"
  obtain claimed db' where c: "claimPendingFishForSwarm swarm ?limit ?db = (claimed, db')"
    by (cases "claimPendingFishForSwarm swarm ?limit ?db")
  have lim: "1 \<le> ?limit" using False claim_limit_free(2) [of c swarm ?db] by simp
  then have le: "?limit \<le> int (length (ids_of swarm RunPending (view ?db)))"
    using claim_limit_free(1) [of c swarm ?db] by (simp add: free_claim_def pending_of_def)
  note eff = claim_view [OF ok lim le c]
  let ?st = "st\<lparr>st_db := db', st_jobs := st_jobs st @ map (fish_job swarm) claimed\<rparr>"
  have "activatePendingFish env swarm c st = (Inr (length claimed), ?st)"
    using False c enqueue_fish_jobs [OF acc, of swarm claimed "st\<lparr>st_db := db'\<rparr>"]
    by (simp add: activatePendingFish_def js_defs)
  moreover have "activation env swarm c st ?st claimed"
    using eff claim_limit_free(1) [of c swarm ?db] by (simp add: activation_def pending_of_def)
  ultimately show ?thesis by blast
qed

lemma activation_counts:
  assumes act: "activation env swarm c st st' claimed" and ok: "db_ok (st_db st)"
  shows "set (running_of swarm (st_db st')) = set (running_of swarm (st_db st)) \<union> set (map fst claimed)"
    and "set (pending_of swarm (st_db st')) = set (pending_of swarm (st_db st)) - set (map fst claimed)"
    and "length (running_of swarm (st_db st')) = length (running_of swarm (st_db st)) + length claimed"
    and "length (pending_of swarm (st_db st')) = length (pending_of swarm (st_db st)) - length claimed"
proof -
  let ?v = "view (st_db st)" and ?v' = "view (st_db st')" and ?I = "set (map fst claimed)"
  have v': "?v' = mark ?I RunRunning ?v" and I: "?I \<subseteq> set (pending_of swarm (st_db st))" "distinct (map fst claimed)"
    using act by (simp_all add: activation_def)
  have d: "distinct (map fst ?v)" by (rule view_distinct [OF ok])
  have mem: "?I \<subseteq> set (members swarm ?v)" using I(1) ids_of_members unfolding pending_of_def by blast
  show r: "set (running_of swarm (st_db st')) = set (running_of swarm (st_db st)) \<union> ?I"
    using mem unfolding running_of_def v' ids_of_mark by auto
  show p: "set (pending_of swarm (st_db st')) = set (pending_of swarm (st_db st)) - ?I"
    unfolding pending_of_def v' ids_of_mark by simp
  have dv': "distinct (map fst ?v')" using d by (simp add: v')
  have card: "length (ids_of swarm s w) = card (set (ids_of swarm s w))" if "distinct (map fst w)" for s w
    using distinct_ids(1) [OF that] by (simp add: distinct_card)
  have cI: "card ?I = length claimed" using I(2) by (metis distinct_card length_map)
  have disj: "set (running_of swarm (st_db st)) \<inter> ?I = {}"
    using ids_of_disjoint [OF d, of RunRunning RunPending swarm] I(1) unfolding running_of_def pending_of_def by blast
  show "length (running_of swarm (st_db st')) = length (running_of swarm (st_db st)) + length claimed"
    using card [OF dv', of RunRunning] card [OF d, of RunRunning] r disj cI
    unfolding running_of_def by (simp add: card_Un_disjoint)
  show "length (pending_of swarm (st_db st')) = length (pending_of swarm (st_db st)) - length claimed"
    using card [OF dv', of RunPending] card [OF d, of RunPending] p I(1) cI
    unfolding pending_of_def by (simp add: card_Diff_subset)
qed

section \<open>One job at a time\<close>

text \<open>A worker that processes the queue in order; jobs of other kinds are passed over.\<close>

fun run_fish_jobs :: "nat \<Rightarrow> swarm_env \<Rightarrow> (nat \<Rightarrow> timer) \<Rightarrow> (nat \<Rightarrow> int) \<Rightarrow> nat \<Rightarrow> sim_state \<Rightarrow> sim_state" where
  "run_fish_jobs 0 env timers clock pos st = st"
| "run_fish_jobs (Suc fuel) env timers clock pos st =
     (if pos < length (st_jobs st)
      then (case st_jobs st ! pos of
              FishJob swarm run fish jid \<Rightarrow>
                run_fish_jobs fuel env timers clock (Suc pos)
                  (snd (processSwarmFishJob env (timers pos) swarm run (clock pos) st))
            | _ \<Rightarrow> run_fish_jobs fuel env timers clock (Suc pos) st)
      else st)"

definition worked :: "int \<Rightarrow> sim_state \<Rightarrow> sim_state \<Rightarrow> bool" where
  "worked run st st' =
     (st_jobs st' = st_jobs st \<and> st_gate st' = st_gate st \<and> db_swarms (st_db st') = db_swarms (st_db st) \<and>
      (db_ok (st_db st) \<longrightarrow> db_ok (st_db st')) \<and>
      (\<exists>s. terminal_status s \<and> view (st_db st') = mark {run} s (view (st_db st))))"

lemma worked_close:
  "only_run run st st1 \<Longrightarrow> terminal_status s \<Longrightarrow>
   worked run st (st1\<lparr>st_db := updateStatus run s (Some (Some now)) (st_db st1)\<rparr>)"
  by (auto simp: worked_def only_run_def view_updateStatus updateStatus_ok)
    (simp_all add: updateStatus_def)

lemma attempt_effect:
  assumes "run_findById run (st_db st) = Some r" "rn_status r = RunRunning"
  shows "worked run st (snd (fish_attempt env tm run now st))"
proof -
  let ?drain = "drain env (se_driver env (rn_kind r)) tm (createFishTimeoutError run (run_timeoutMs r)) run now
    (gc_maxTurns (rn_config r)) 0"
  obtain res st1 where d: "?drain st = (res, st1)" by (cases "?drain st")
  have o1: "only_run run st st1" by (rule drain_only [OF d])
  show ?thesis
  proof (cases res)
    case (Inl e)
    then have "fish_attempt env tm run now st = fish_catch run now e st1"
      using assms d by (simp add: fish_attempt_def fish_try_def op_bind_def op_read_def)
    then show ?thesis
      using worked_close [OF o1, of RunTimeout now] worked_close [OF o1, of RunFailed now]
      by (auto simp: fish_catch_def js_defs terminal_status_def)
  next
    case (Inr x)
    then have "snd (fish_attempt env tm run now st) =
        st1\<lparr>st_db := updateStatus run RunDone (Some (Some now)) (st_db st1)\<rparr>"
      using assms d by (simp add: fish_attempt_def fish_try_def js_defs)
    then show ?thesis using worked_close [OF o1, of RunDone now] by (simp add: terminal_status_def)
  qed
qed

lemma members_split:
  "length (members swarm v) =
     length (ids_of swarm RunPending v) + length (ids_of swarm RunRunning v) + length (ids_of swarm RunPaused v) +
     (length (ids_of swarm RunDone v) + length (ids_of swarm RunFailed v) + length (ids_of swarm RunTimeout v))"
proof (induction v)
  case Nil
  show ?case by (simp add: members_def ids_of_def)
next
  case (Cons x v)
  obtain i w s where x: "x = (i, w, s)" by (cases x) auto
  show ?case using Cons by (cases s) (simp_all add: x members_def ids_of_def)
qed

lemma accounted_open:
  "ids_of swarm RunPaused (view db) = [] \<Longrightarrow>
   accounted (countFishByStatus swarm db) + (length (pending_of swarm db) + length (running_of swarm db)) =
   length (members swarm (view db))"
  by (simp add: accounted_def countFishByStatus_def count_status_ids pending_of_def running_of_def members_split)

definition fleet :: "swarm_env \<Rightarrow> int \<Rightarrow> sim_state \<Rightarrow> bool" where
  "fleet env swarm st =
     (db_ok (st_db st) \<and> ids_of swarm RunPaused (view (st_db st)) = [] \<and> swarm \<notin> set (st_gate st) \<and>
      (\<exists>s. swarm_findById swarm (st_db st) = Some s \<and> sw_size s = int (length (members swarm (view (st_db st)))) \<and>
           1 \<le> fish_concurrency (sw_config s)))"

definition settled :: "int \<Rightarrow> sim_db \<Rightarrow> bool" where
  "settled swarm db = (pending_of swarm db = [] \<and> running_of swarm db = [])"

text \<open>What \<open>onFishComplete\<close> does when the queue accepts its jobs.\<close>

lemma complete_effect:
  assumes fl: "fleet env swarm st" and acc: "accepting env"
  shows "\<exists>s claimed st'. swarm_findById swarm (st_db st) = Some s \<and> activation env swarm (sw_config s) st st' claimed \<and>
    fleet env swarm st' \<and> 1 \<le> fish_concurrency (sw_config s) \<and>
    onFishComplete env swarm st =
      (if settled swarm (st_db st')
       then (Inr True, st'\<lparr>st_gate := swarm # st_gate st', st_jobs := st_jobs st' @ [aggregate_job swarm]\<rparr>)
       else (Inr False, st'))"
proof -
  from fl obtain s where s: "swarm_findById swarm (st_db st) = Some s" "sw_size s = int (length (members swarm (view (st_db st))))"
    "1 \<le> fish_concurrency (sw_config s)" and ok: "db_ok (st_db st)" and gate: "swarm \<notin> set (st_gate st)"
    and pz: "ids_of swarm RunPaused (view (st_db st)) = []" by (auto simp: fleet_def)
  obtain claimed st' where a: "activatePendingFish env swarm (sw_config s) st = (Inr (length claimed), st')"
    "activation env swarm (sw_config s) st st' claimed" using activate_effect [OF ok acc] by blast
  have v': "view (st_db st') = mark (set (map fst claimed)) RunRunning (view (st_db st))"
    and sw: "db_swarms (st_db st') = db_swarms (st_db st)" "db_ok (st_db st')" "st_gate st' = st_gate st"
    using a(2) by (simp_all add: activation_def)
  have mem: "members swarm (view (st_db st')) = members swarm (view (st_db st))" by (simp add: v')
  have pz': "ids_of swarm RunPaused (view (st_db st')) = []"
  proof -
    have "set (ids_of swarm RunPaused (view (st_db st'))) = {}" unfolding v' ids_of_mark using pz by simp
    then show ?thesis by simp
  qed
  have fl': "fleet env swarm st'"
    using pz' sw gate s mem by (simp add: fleet_def swarm_findById_def)
  have "int (accounted (countFishByStatus swarm (st_db st'))) < sw_size s \<longleftrightarrow> \<not> settled swarm (st_db st')"
  proof -
    have "settled swarm (st_db st') \<longleftrightarrow> length (pending_of swarm (st_db st')) + length (running_of swarm (st_db st')) = 0"
      by (simp add: settled_def)
    moreover have "int (accounted (countFishByStatus swarm (st_db st'))) +
        int (length (pending_of swarm (st_db st')) + length (running_of swarm (st_db st'))) = sw_size s"
      using accounted_open [OF pz'] s(2) mem by simp
    moreover have "int a < z \<longleftrightarrow> n \<noteq> 0" if "int a + int n = z" for a n :: nat and z
      using that by auto
    ultimately show ?thesis by blast
  qed
  then have "onFishComplete env swarm st =
      (if settled swarm (st_db st')
       then (Inr True, st'\<lparr>st_gate := swarm # st_gate st', st_jobs := st_jobs st' @ [aggregate_job swarm]\<rparr>)
       else (Inr False, st'))"
    using s(1) a(1) acc gate sw(3) by (simp add: onFishComplete_def account_fish_def enqueue_aggregate_def accepting_def js_defs)
  then show ?thesis using s(1,3) a(2) fl' by blast
qed

lemma worked_effect:
  assumes w: "worked run st st1" and fl: "fleet env swarm st" and run: "run \<in> set (running_of swarm (st_db st))"
  shows "fleet env swarm st1" "pending_of swarm (st_db st1) = pending_of swarm (st_db st)"
    "set (running_of swarm (st_db st1)) = set (running_of swarm (st_db st)) - {run}"
    "Suc (length (running_of swarm (st_db st1))) = length (running_of swarm (st_db st))"
proof -
  let ?v = "view (st_db st)"
  obtain s where s: "terminal_status s" "view (st_db st1) = mark {run} s ?v" using w by (auto simp: worked_def)
  have ok: "db_ok (st_db st)" "db_ok (st_db st1)" using fl w by (auto simp: fleet_def worked_def)
  have d: "distinct (map fst ?v)" "distinct (map fst (view (st_db st1)))"
    using view_distinct [OF ok(1)] view_distinct [OF ok(2)] .
  have ne: "s \<noteq> RunPending" "s \<noteq> RunRunning" "s \<noteq> RunPaused" using s(1) by (auto simp: terminal_status_def)
  have notp: "run \<notin> set (ids_of swarm t ?v)" if "t \<noteq> RunRunning" for t
    using ids_of_disjoint [OF d(1) that, of swarm] run unfolding running_of_def by blast
  have keep: "ids_of swarm t (mark {run} s w') = ids_of swarm t w'"
    if "run \<notin> set (ids_of swarm t w')" "t \<noteq> s" for t w'
    using that by (induction w') (auto simp: ids_of_def mark_def split: if_splits)
  show pend: "pending_of swarm (st_db st1) = pending_of swarm (st_db st)"
    unfolding pending_of_def s(2) by (rule keep) (use notp [of RunPending] ne in auto)
  have paused: "ids_of swarm RunPaused (view (st_db st1)) = []"
    using keep [of RunPaused ?v] notp [of RunPaused] ne(3) fl unfolding s(2) by (simp add: fleet_def)
  show r: "set (running_of swarm (st_db st1)) = set (running_of swarm (st_db st)) - {run}"
    unfolding running_of_def s(2) ids_of_mark using ne(2) by simp
  have "length (running_of swarm (st_db st1)) = card (set (running_of swarm (st_db st)) - {run})"
    using distinct_card [OF distinct_ids(1) [OF d(2)], of swarm RunRunning] r by (simp add: running_of_def)
  also have "\<dots> = length (running_of swarm (st_db st)) - 1"
    using distinct_card [OF distinct_ids(1) [OF d(1)], of swarm RunRunning] run by (simp add: running_of_def)
  moreover have "0 < length (running_of swarm (st_db st))" using run by (cases "running_of swarm (st_db st)") auto
  ultimately show "Suc (length (running_of swarm (st_db st1))) = length (running_of swarm (st_db st))" by simp
  show "fleet env swarm st1"
    using fl w paused s(2) ok by (auto simp: fleet_def worked_def swarm_findById_def)
qed

definition queue_inv :: "swarm_env \<Rightarrow> int \<Rightarrow> sim_job list \<Rightarrow> (int \<times> int) list \<Rightarrow> sim_state \<Rightarrow> bool" where
  "queue_inv env swarm jobs q st =
     (fleet env swarm st \<and> st_jobs st = jobs @ map (fish_job swarm) q \<and> distinct (map fst q) \<and>
      set (map fst q) = set (running_of swarm (st_db st)) \<and> (q = [] \<longrightarrow> pending_of swarm (st_db st) = []))"

definition open_fish :: "int \<Rightarrow> sim_db \<Rightarrow> nat" where
  "open_fish swarm db = length (pending_of swarm db) + length (running_of swarm db)"

text \<open>One job: either fish are left, and the invariant holds of the longer queue, or the swarm has
  settled and the aggregate job is out.\<close>

lemma process_effect:
  assumes inv: "queue_inv env swarm jobs ((run, fish) # q) st" and acc: "accepting env"
  shows "let st' = snd (processSwarmFishJob env tm swarm run now st) in
    Suc (open_fish swarm (st_db st')) = open_fish swarm (st_db st) \<and>
    (if settled swarm (st_db st')
     then st_jobs st' = jobs @ [fish_job swarm (run, fish), aggregate_job swarm] \<and> q = [] \<and>
       ids_of swarm RunPaused (view (st_db st')) = []
     else \<exists>q'. q' \<noteq> [] \<and> queue_inv env swarm (jobs @ [fish_job swarm (run, fish)]) q' st')"
proof -
  have fl: "fleet env swarm st" and jobs: "st_jobs st = jobs @ fish_job swarm (run, fish) # map (fish_job swarm) q"
    and dq: "run \<notin> set (map fst q)" "distinct (map fst q)"
    and sq: "insert run (set (map fst q)) = set (running_of swarm (st_db st))"
    using inv by (simp_all add: queue_inv_def)
  have ok: "db_ok (st_db st)" using fl by (simp add: fleet_def)
  have run: "run \<in> set (running_of swarm (st_db st))" using sq by blast
  obtain r where r: "run_findById run (st_db st) = Some r" "rn_status r = RunRunning"
    using view_status [OF ok] run unfolding running_of_def by blast
  obtain res st1 where a: "fish_attempt env tm run now st = (res, st1)" by (cases "fish_attempt env tm run now st")
  have w: "worked run st st1" using attempt_effect [where env = env and tm = tm and now = now, OF r] a by simp
  note we = worked_effect [OF w fl run]
  obtain s claimed st2 where c0: "swarm_findById swarm (st_db st1) = Some s \<and>
    activation env swarm (sw_config s) st1 st2 claimed \<and> fleet env swarm st2 \<and> 1 \<le> fish_concurrency (sw_config s) \<and>
    onFishComplete env swarm st1 =
      (if settled swarm (st_db st2)
       then (Inr True, st2\<lparr>st_gate := swarm # st_gate st2, st_jobs := st_jobs st2 @ [aggregate_job swarm]\<rparr>)
       else (Inr False, st2))"
    using complete_effect [OF we(1) acc] by (elim exE) (rule that)
  note c = conjunct1 [OF conjunct2 [OF c0]] conjunct1 [OF conjunct2 [OF conjunct2 [OF c0]]]
    conjunct1 [OF conjunct2 [OF conjunct2 [OF conjunct2 [OF c0]]]]
    conjunct2 [OF conjunct2 [OF conjunct2 [OF conjunct2 [OF c0]]]]
  have ok1: "db_ok (st_db st1)" using we(1) by (simp add: fleet_def)
  note ac = activation_counts [OF c(1) ok1]
  have cl: "distinct (map fst claimed)" "set (map fst claimed) \<subseteq> set (pending_of swarm (st_db st1))"
    "length claimed = free_claim (sw_config s) swarm (st_db st1)"
    "st_jobs st2 = st_jobs st1 @ map (fish_job swarm) claimed"
    using c(1) by (simp_all add: activation_def)
  have jobs1: "st_jobs st1 = st_jobs st" using w by (simp add: worked_def)
  let ?q = "q @ claimed"
  have jobs2: "st_jobs st2 = (jobs @ [fish_job swarm (run, fish)]) @ map (fish_job swarm) ?q"
    using cl(4) jobs1 jobs by simp
  have runq: "set (map fst ?q) = set (running_of swarm (st_db st2))"
    using ac(1) we(3) sq dq(1) by auto
  have disj: "set (map fst q) \<inter> set (map fst claimed) = {}"
  proof -
    have "set (map fst q) \<subseteq> set (running_of swarm (st_db st1))" using we(3) sq dq(1) by auto
    moreover have "set (running_of swarm (st_db st1)) \<inter> set (pending_of swarm (st_db st1)) = {}"
      using ids_of_disjoint [OF view_distinct [OF ok1], of RunRunning RunPending swarm]
      by (simp add: running_of_def pending_of_def)
    ultimately show ?thesis using cl(2) by blast
  qed
  have settled: "settled swarm (st_db st2) \<longleftrightarrow> ?q = []"
  proof
    assume "settled swarm (st_db st2)"
    then show "?q = []" using runq by (simp add: settled_def)
  next
    assume q: "?q = []"
    then have "running_of swarm (st_db st2) = []" using runq by simp
    moreover have "pending_of swarm (st_db st1) = []"
    proof -
      have "length (running_of swarm (st_db st1)) = 0" using ac(1) calculation by simp
      moreover have "free_claim (sw_config s) swarm (st_db st1) = 0" using cl(3) q by simp
      ultimately show ?thesis using c(3) by (auto simp: free_claim_def min_def split: if_splits)
    qed
    then have "pending_of swarm (st_db st2) = []" using ac(2) by simp
    ultimately show "settled swarm (st_db st2)" by (simp add: settled_def)
  qed
  have open': "Suc (open_fish swarm (st_db st2)) = open_fish swarm (st_db st)"
    using ac(3,4) we(2,4) cl(3) by (simp add: open_fish_def free_claim_def)
  have st': "snd (processSwarmFishJob env tm swarm run now st) = snd (onFishComplete env swarm st1)"
    using a c(4) by (simp add: processSwarmFishJob_def)
  show ?thesis
  proof (cases "settled swarm (st_db st2)")
    case True
    then show ?thesis using open' st' c(2,4) jobs2 settled by (simp add: Let_def fleet_def)
  next
    case False
    have "distinct (map fst ?q)" using dq(2) cl(1) disj by simp
    then have "queue_inv env swarm (jobs @ [fish_job swarm (run, fish)]) ?q st2"
      using c(2) jobs2 runq False settled by (auto simp: queue_inv_def)
    moreover have "?q \<noteq> []" using False settled by simp
    ultimately have "\<exists>q'. q' \<noteq> [] \<and> queue_inv env swarm (jobs @ [fish_job swarm (run, fish)]) q' st2" by blast
    then show ?thesis using open' st' c(4) False by (simp add: Let_def)
  qed
qed

lemma drain_queue:
  assumes acc: "accepting env"
  shows "queue_inv env swarm jobs q st \<Longrightarrow> q \<noteq> [] \<Longrightarrow> open_fish swarm (st_db st) = fuel \<Longrightarrow>
    (let st' = run_fish_jobs fuel env timers clock (length jobs) st in
     settled swarm (st_db st') \<and> ids_of swarm RunPaused (view (st_db st')) = [] \<and>
     (\<exists>fs. st_jobs st' = jobs @ map (fish_job swarm) fs @ [aggregate_job swarm] \<and> length fs = fuel))"
proof (induction fuel arbitrary: jobs q st)
  case 0
  then have "running_of swarm (st_db st) = []" "q \<noteq> []" by (simp_all add: open_fish_def)
  then show ?case using 0(1) by (auto simp: queue_inv_def)
next
  case (Suc fuel)
  then obtain run fish q' where q: "q = (run, fish) # q'" by (cases q) auto
  have "st_jobs st ! length jobs = fish_job swarm (run, fish)" "length jobs < length (st_jobs st)"
    using Suc.prems(1) q by (simp_all add: queue_inv_def)
  then have step: "run_fish_jobs (Suc fuel) env timers clock (length jobs) st =
      run_fish_jobs fuel env timers clock (Suc (length jobs))
        (snd (processSwarmFishJob env (timers (length jobs)) swarm run (clock (length jobs)) st))"
    by (simp add: fish_job_def)
  let ?st1 = "snd (processSwarmFishJob env (timers (length jobs)) swarm run (clock (length jobs)) st)"
  note eff = process_effect [OF Suc.prems(1) [unfolded q] acc, of "timers (length jobs)" "clock (length jobs)", unfolded Let_def]
  have o1: "open_fish swarm (st_db ?st1) = fuel" using eff Suc.prems(3) by simp
  show ?case
  proof (cases "settled swarm (st_db ?st1)")
    case True
    then have "fuel = 0" using o1 by (simp add: settled_def open_fish_def)
    moreover have "st_jobs ?st1 = jobs @ [fish_job swarm (run, fish), aggregate_job swarm]"
      "ids_of swarm RunPaused (view (st_db ?st1)) = []" using eff True by simp_all
    ultimately show ?thesis using True step
      by (auto simp: Let_def intro!: exI [of _ "[(run, fish)]"])
  next
    case False
    then obtain q2 where q2: "q2 \<noteq> []" "queue_inv env swarm (jobs @ [fish_job swarm (run, fish)]) q2 ?st1" using eff by auto
    from Suc.IH [OF q2(2,1) o1] step obtain fs where
      "settled swarm (st_db (run_fish_jobs (Suc fuel) env timers clock (length jobs) st))"
      "ids_of swarm RunPaused (view (st_db (run_fish_jobs (Suc fuel) env timers clock (length jobs) st))) = []"
      "st_jobs (run_fish_jobs (Suc fuel) env timers clock (length jobs) st) =
        (jobs @ [fish_job swarm (run, fish)]) @ map (fish_job swarm) fs @ [aggregate_job swarm]" "length fs = fuel"
      by (auto simp: Let_def)
    then show ?thesis by (auto simp: Let_def intro!: exI [of _ "(run, fish) # fs"])
  qed
qed

section \<open>Launching\<close>

text \<open>Operations that leave the runs, the swarms, the gate and the queue alone.\<close>

definition same_runs :: "sim_state \<Rightarrow> sim_state \<Rightarrow> bool" where
  "same_runs st st' =
     (st_jobs st' = st_jobs st \<and> st_gate st' = st_gate st \<and> db_swarms (st_db st') = db_swarms (st_db st) \<and>
      db_runs (st_db st') = db_runs (st_db st) \<and> (db_ok (st_db st) \<longrightarrow> db_ok (st_db st')))"

lemma same_runs_refl: "same_runs st st"
  by (simp add: same_runs_def)

lemma same_runs_trans: "same_runs st st1 \<Longrightarrow> same_runs st1 st2 \<Longrightarrow> same_runs st st2"
  by (simp add: same_runs_def)

lemma agent_insert_same: "agent_insert w (st_db st) = Inr (i, db') \<Longrightarrow> same_runs st (st\<lparr>st_db := db'\<rparr>)"
  using agent_insert_ok [of w "st_db st" i db'] by (auto simp: same_runs_def agent_insert_def Let_def split: if_splits)

lemma god_insert_same: "insertGodTurn w now (st_db st) = Inr (i, db') \<Longrightarrow> same_runs st (st\<lparr>st_db := db'\<rparr>)"
  using god_turn_insert_ok [of w now "st_db st" i db'] by (auto simp: same_runs_def insertGodTurn_def Let_def split: if_splits)

lemma build_same: "buildSimAgent env opts st = (res, st') \<Longrightarrow> same_runs st st'"
  by (auto simp: buildSimAgent_def js_defs same_runs_refl intro: agent_insert_same
      split: sum.splits prod.splits)

lemma build_agents_same: "build_agents env run kind p framing i sids st = (res, st') \<Longrightarrow> same_runs st st'"
proof (induction sids arbitrary: i st res st')
  case Nil
  then show ?case by (simp add: js_defs same_runs_refl)
next
  case (Cons sid sids)
  let ?o = "\<lparr>ao_run = run, ao_subject = sid, ao_index = i, ao_kind = kind, ao_hints = oe_hints env p i, ao_framing = framing\<rparr>"
  obtain r1 st1 where b: "buildSimAgent env ?o st = (r1, st1)" by (cases "buildSimAgent env ?o st")
  note s1 = build_same [OF b]
  show ?case
  proof (cases r1)
    case (Inl e)
    then show ?thesis using Cons.prems b s1 by (simp add: op_bind_def)
  next
    case (Inr x)
    obtain r2 st2 where b2: "build_agents env run kind p framing (Suc i) sids st1 = (r2, st2)"
      by (cases "build_agents env run kind p framing (Suc i) sids st1")
    have "st' = st2" using Cons.prems b b2 Inr by (auto simp: js_defs split: sum.splits)
    then show ?thesis using same_runs_trans [OF s1 Cons.IH [OF b2]] by simp
  qed
qed

lemma write_events_same: "write_events run now es st = (res, st') \<Longrightarrow> same_runs st st'"
proof (induction es arbitrary: st res st')
  case Nil
  then show ?case by (simp add: js_defs same_runs_refl)
next
  case (Cons e es)
  obtain r1 st1 where b: "writeGodTurn run 0 (god_input_of e) now st = (r1, st1)"
    by (cases "writeGodTurn run 0 (god_input_of e) now st")
  have s1: "same_runs st st1"
    using b by (auto simp: writeGodTurn_def op_try_def same_runs_refl intro: god_insert_same split: sum.splits prod.splits)
  show ?case
  proof (cases r1)
    case (Inl err)
    then show ?thesis using Cons.prems b s1 by (simp add: op_bind_def)
  next
    case (Inr x)
    then have "write_events run now es st1 = (res, st')" using Cons.prems b by (simp add: op_bind_def)
    with s1 show ?thesis using Cons.IH same_runs_trans by blast
  qed
qed

lemma createFish_effect:
  assumes "createFish env opts now st = (Inr (run, agents), st')"
  shows "st_jobs st' = st_jobs st" "st_gate st' = st_gate st" "db_swarms (st_db st') = db_swarms (st_db st)"
    "view (st_db st') = view (st_db st) @ [(run, fo_swarm opts, RunPending)]" "db_ok (st_db st) \<Longrightarrow> db_ok (st_db st')"
proof -
  let ?w = "\<lparr>rw_swarm = fo_swarm opts, rw_fish = fo_fish opts, rw_kind = fo_kind opts, rw_seed = fo_seed opts,
             rw_perturbation = fo_perturbation opts, rw_config = fo_config opts, rw_status = Some RunPending\<rparr>"
  obtain db1 st2 st3 where r: "run_insert ?w (st_db st) = Inr (run, db1)"
    and b: "build_agents env run (readSubjectKind (fo_seed opts)) (fo_perturbation opts)
       (length (readSubjectIds (fo_seed opts)) = 2) 0 (readSubjectIds (fo_seed opts)) (st\<lparr>st_db := db1\<rparr>) = (Inr agents, st2)"
    and e: "write_events run now (oe_events env (fo_perturbation opts)) st2 = (Inr (), st3)" and st': "st' = st3"
    using assms
    by (auto simp: createFish_def Let_def js_defs split: if_splits sum.splits prod.splits)
  have s: "same_runs (st\<lparr>st_db := db1\<rparr>) st'"
    using same_runs_trans [OF build_agents_same [OF b] write_events_same [OF e]] st' by simp
  have i: "view db1 = view (st_db st) @ [(run, fo_swarm opts, RunPending)]" "db_swarms db1 = db_swarms (st_db st)"
    using r by (auto simp: run_insert_def Let_def view_def split: if_splits)
  show "st_jobs st' = st_jobs st" "st_gate st' = st_gate st" "db_swarms (st_db st') = db_swarms (st_db st)"
    "view (st_db st') = view (st_db st) @ [(run, fo_swarm opts, RunPending)]"
    using s i by (simp_all add: same_runs_def view_def)
  show "db_ok (st_db st) \<Longrightarrow> db_ok (st_db st')" using s run_insert_ok [OF r] by (simp add: same_runs_def)
qed

lemma create_fish_effect:
  "create_fish env opts swarm now i specs st = (Inr runs, st') \<Longrightarrow>
   st_jobs st' = st_jobs st \<and> st_gate st' = st_gate st \<and> db_swarms (st_db st') = db_swarms (st_db st) \<and>
   view (st_db st') = view (st_db st) @ map (\<lambda>r. (r, swarm, RunPending)) runs \<and> length runs = length specs \<and>
   (db_ok (st_db st) \<longrightarrow> db_ok (st_db st'))"
proof (induction specs arbitrary: i st runs)
  case Nil
  then show ?case by (simp add: js_defs)
next
  case (Cons spec specs)
  let ?seed = "se_applyToSeed env (lo_baseSeed opts) spec"
  let ?f = "\<lparr>fo_swarm = swarm, fo_fish = int i, fo_kind = lo_kind opts, fo_seed = ?seed, fo_perturbation = spec,
           fo_config = fish_sim_config (lo_config opts) ?seed (se_maxTurns env (lo_kind opts)) i\<rparr>"
  obtain run agents st1 runs' where f: "createFish (se_orch env) ?f now st = (Inr (run, agents), st1)"
    and rest: "create_fish env opts swarm now (Suc i) specs st1 = (Inr runs', st')" and runs: "runs = run # runs'"
    using Cons.prems by (auto simp: Let_def js_defs split: sum.splits prod.splits)
  note e = createFish_effect [OF f]
  show ?case using Cons.IH [OF rest] e runs by auto
qed

lemma fresh_swarm: "db_ok db \<Longrightarrow> members (next_id (db_swarms db)) (view db) = []"
proof -
  assume ok: "db_ok db"
  then have "serial (map sw_id (db_swarms db))" by (simp add: db_ok_def)
  then have "next_id (db_swarms db) \<notin> set (map sw_id (db_swarms db))"
    using serial_fresh [of "map sw_id (db_swarms db)"] by (simp add: next_id_def)
  moreover have "\<forall>r \<in> set (db_runs db). rn_swarm r \<in> set (map sw_id (db_swarms db))"
    using ok by (auto simp: db_ok_def swarm_exists_def list_all_iff)
  ultimately have "i \<notin> set (members (next_id (db_swarms db)) (view db))" for i unfolding members_iff by (auto simp: view_def)
  then show ?thesis by (metis all_not_in_conv set_empty)
qed

lemma pending_suffix:
  "members swarm v = [] \<Longrightarrow>
   members swarm (v @ map (\<lambda>r. (r, swarm, RunPending)) runs) = runs \<and>
   ids_of swarm RunPending (v @ map (\<lambda>r. (r, swarm, RunPending)) runs) = runs \<and>
   (\<forall>s. s \<noteq> RunPending \<longrightarrow> ids_of swarm s (v @ map (\<lambda>r. (r, swarm, RunPending)) runs) = [])"
proof -
  assume none: "members swarm v = []"
  have "ids_of swarm s v = []" for s
    using none ids_of_members [of swarm s v] by simp
  with none show ?thesis by (simp add: members_def ids_of_def filter_map comp_def)
qed

lemma op_bind_Inr:
  "op_bind m f st = (Inr y, st'') \<longleftrightarrow> (\<exists>x st'. m st = (Inr x, st') \<and> f x st' = (Inr y, st''))"
  by (auto simp: op_bind_def split: prod.splits sum.splits)

lemma op_insert_bind: "op_bind (op_insert f) k st = k (fst (f (st_db st))) (st\<lparr>st_db := snd (f (st_db st))\<rparr>)"
  by (simp add: op_bind_def op_insert_def)

lemma reset_then: "op_then (gate_reset s) k st = k (st\<lparr>st_gate := removeAll s (st_gate st)\<rparr>)"
  by (simp add: op_then_def op_bind_def gate_reset_def)

lemma launch_queue:
  assumes launch: "launchSwarm env opts now st = (Inr (swarm, n, first), st')" and ok: "db_ok (st_db st)"
    and acc: "accepting env" and conc: "1 \<le> fish_concurrency (lo_config opts)"
  shows "\<exists>q. q \<noteq> [] \<and> queue_inv env swarm (st_jobs st) q st' \<and> open_fish swarm (st_db st') = n \<and>
    length (members swarm (view (st_db st'))) = n"
proof -
  let ?w = "\<lparr>xw_kind = lo_kind opts, xw_title = lo_title opts, xw_baseSeed = lo_baseSeed opts,
      xw_perturbations = lo_perturbations opts, xw_size = int (length (lo_perturbations opts)),
      xw_config = (lo_config opts)\<lparr>wc_aggregates := []\<rparr>, xw_status = Some SwarmRunning,
      xw_createdBy = lo_createdBy opts\<rparr>"
  let ?db1 = "snd (swarm_insert ?w (st_db st))" and ?id = "next_id (db_swarms (st_db st))"
  let ?st1 = "st\<lparr>st_db := ?db1, st_gate := removeAll ?id (st_gate st)\<rparr>"
  have fst1: "fst (swarm_insert ?w (st_db st)) = ?id" by (simp add: swarm_insert_def Let_def)
  obtain runs st2 claimed_n where c: "create_fish env opts ?id now 0 (lo_perturbations opts) ?st1 = (Inr runs, st2)"
    and a: "activatePendingFish env ?id (lo_config opts) st2 = (Inr claimed_n, st')"
    and out: "swarm = ?id" "n = length (lo_perturbations opts)" and some: "lo_perturbations opts \<noteq> []"
  proof -
    have l: "op_bind (op_insert (swarm_insert ?w)) (\<lambda>swarm. op_then (gate_reset swarm)
        (op_bind (create_fish env opts swarm now 0 (lo_perturbations opts)) (\<lambda>runs.
          op_bind (activatePendingFish env swarm (lo_config opts)) (\<lambda>_.
            op_return (swarm, length (lo_perturbations opts), hd runs))))) st = (Inr (swarm, n, first), st')"
      and some: "lo_perturbations opts \<noteq> []"
      using launch by (simp_all add: launchSwarm_def op_throw_def split: list.splits if_splits option.splits)
    have "op_bind (create_fish env opts ?id now 0 (lo_perturbations opts)) (\<lambda>runs.
          op_bind (activatePendingFish env ?id (lo_config opts)) (\<lambda>_.
            op_return (?id, length (lo_perturbations opts), hd runs))) ?st1 = (Inr (swarm, n, first), st')"
      using l unfolding op_insert_bind reset_then fst1 by simp
    then obtain runs st2 claimed_n where "create_fish env opts ?id now 0 (lo_perturbations opts) ?st1 = (Inr runs, st2)"
      "activatePendingFish env ?id (lo_config opts) st2 = (Inr claimed_n, st')"
      "swarm = ?id" "n = length (lo_perturbations opts)"
      unfolding op_bind_Inr op_return_def by blast
    with some show thesis by (intro that)
  qed
  have ok1: "db_ok ?db1" by (rule swarm_insert_ok [OF ok])
  have view1: "view ?db1 = view (st_db st)" by (simp add: view_def swarm_insert_def Let_def)
  have swarms1: "db_swarms ?db1 = db_swarms (st_db st) @
      [\<lparr>sw_id = ?id, sw_kind = xw_kind ?w, sw_title = xw_title ?w, sw_baseSeed = xw_baseSeed ?w,
        sw_perturbations = xw_perturbations ?w, sw_size = xw_size ?w, sw_config = xw_config ?w, sw_status = SwarmRunning,
        sw_reportFindingId = None, sw_suggestionId = None, sw_completedAt = None, sw_createdBy = xw_createdBy ?w\<rparr>]"
    by (simp add: swarm_insert_def Let_def)
  note ce = create_fish_effect [OF c]
  have ok2: "db_ok (st_db st2)" using ce ok1 by simp
  have v2: "view (st_db st2) = view (st_db st) @ map (\<lambda>r. (r, ?id, RunPending)) runs" using ce view1 by simp
  note suf = pending_suffix [OF fresh_swarm [OF ok], of runs, folded v2]
  have found: "\<exists>s. swarm_findById ?id (st_db st2) = Some s \<and> sw_size s = int (length (lo_perturbations opts)) \<and>
      sw_config s = (lo_config opts)\<lparr>wc_aggregates := []\<rparr>"
  proof -
    have "distinct (map sw_id (db_swarms ?db1))" using ok1 by (simp add: db_ok_def serial_distinct)
    then have "?id \<notin> set (map sw_id (db_swarms (st_db st)))" by (simp add: swarms1)
    then have "find (\<lambda>s. sw_id s = ?id) (db_swarms (st_db st)) = None"
      unfolding find_None_iff set_map by (metis imageI)
    moreover have "find P (xs @ ys) = (case find P xs of Some x \<Rightarrow> Some x | None \<Rightarrow> find P ys)" for P :: "swarm_row \<Rightarrow> bool" and xs ys
      by (induction xs) auto
    ultimately have "swarm_findById ?id ?db1 = Some \<lparr>sw_id = ?id, sw_kind = xw_kind ?w, sw_title = xw_title ?w, sw_baseSeed = xw_baseSeed ?w,
        sw_perturbations = xw_perturbations ?w, sw_size = xw_size ?w, sw_config = xw_config ?w, sw_status = SwarmRunning,
        sw_reportFindingId = None, sw_suggestionId = None, sw_completedAt = None, sw_createdBy = xw_createdBy ?w\<rparr>"
      by (simp add: swarm_findById_def swarms1)
    moreover have "db_swarms (st_db st2) = db_swarms ?db1" using ce by simp
    ultimately show ?thesis by (simp add: swarm_findById_def)
  qed
  have fl: "fleet env ?id st2"
    using ok2 suf found ce conc by (auto simp: fleet_def fish_concurrency_def)
  obtain claimed st3 where act: "activatePendingFish env ?id (lo_config opts) st2 = (Inr (length claimed), st3)"
    "activation env ?id (lo_config opts) st2 st3 claimed" using activate_effect [OF ok2 acc] by blast
  have st3: "st3 = st'" using act(1) a by simp
  note ac = activation_counts [OF act(2) ok2]
  have p2: "pending_of ?id (st_db st2) = runs" "running_of ?id (st_db st2) = []"
    using suf by (simp_all add: pending_of_def running_of_def)
  have "free_claim (lo_config opts) ?id (st_db st2) > 0"
    using p2 conc some ce by (auto simp: free_claim_def)
  then have ne: "claimed \<noteq> []" using act(2) by (auto simp: activation_def)
  have v': "view (st_db st') = mark (set (map fst claimed)) RunRunning (view (st_db st2))" using act(2) st3 by (simp add: activation_def)
  have pz: "ids_of ?id RunPaused (view (st_db st')) = []"
  proof -
    have "set (ids_of ?id RunPaused (view (st_db st'))) = {}" unfolding v' ids_of_mark using suf by simp
    then show ?thesis by simp
  qed
  have "fleet env ?id st'"
    using fl act(2) st3 v' pz unfolding fleet_def activation_def by (simp add: swarm_findById_def)
  moreover have "st_jobs st' = st_jobs st @ map (fish_job ?id) claimed"
    using act(2) st3 ce by (simp add: activation_def)
  ultimately have "queue_inv env ?id (st_jobs st) claimed st'"
    using ne act(2) ac(1) p2 st3 by (simp add: queue_inv_def activation_def)
  moreover have "length claimed \<le> length runs"
    using act(2) p2 by (simp add: activation_def free_claim_def)
  then have "open_fish ?id (st_db st') = n"
    using ac(3,4) p2 st3 ce out(2) by (simp add: open_fish_def)
  moreover have "length (members ?id (view (st_db st'))) = n" using suf v' ce out(2) by simp
  ultimately show ?thesis using ne out(1) by blast
qed

definition swarm_over :: "int \<Rightarrow> sim_db \<Rightarrow> bool" where
  "swarm_over swarm db = list_all (\<lambda>r. rn_swarm r = swarm \<longrightarrow> terminal_status (rn_status r)) (db_runs db)"

lemma settled_over:
  assumes "settled swarm db" "ids_of swarm RunPaused (view db) = []"
  shows "swarm_over swarm db"
proof -
  have "terminal_status (rn_status r)" if r: "r \<in> set (db_runs db)" "rn_swarm r = swarm" for r
  proof -
    have "rn_id r \<in> set (ids_of swarm (rn_status r) (view db))" using r by (auto simp: ids_of_iff view_def)
    then show ?thesis using assms by (cases "rn_status r") (auto simp: settled_def pending_of_def running_of_def terminal_status_def)
  qed
  then show ?thesis by (auto simp: swarm_over_def list_all_iff)
qed

definition is_aggregate :: "int \<Rightarrow> sim_job \<Rightarrow> bool" where
  "is_aggregate swarm job = (case job of AggregateJob s _ \<Rightarrow> s = swarm | _ \<Rightarrow> False)"

lemma is_aggregate_simps [simp]: "is_aggregate swarm (aggregate_job swarm)" "\<not> is_aggregate swarm (fish_job w f)"
  by (simp_all add: is_aggregate_def aggregate_job_def fish_job_def)

section \<open>Properties\<close>

text \<open>C6: A launched swarm of n fish drains. If the queue accepts every job and the concurrency is at
  least one, then processing the fish jobs in order, whatever the turns do (answers, errors,
  timeouts), takes exactly n jobs; after them every fish is done, failed or timed out, and the last
  job enqueued, and the only such one of the swarm, is the aggregate job.\<close>

theorem launched_swarm_drains:
  assumes "db_reach (st_db st)" and "launchSwarm env opts now st = (Inr (swarm, n, first), st1)"
    and "accepting env" and "1 \<le> fish_concurrency (lo_config opts)"
  shows "let st' = run_fish_jobs n env timers clock (length (st_jobs st)) st1 in
    length (filter (\<lambda>r. rn_swarm r = swarm) (db_runs (st_db st1))) = n \<and> swarm_over swarm (st_db st') \<and>
    (\<exists>fs. length fs = n \<and> st_jobs st' = st_jobs st @ map (fish_job swarm) fs @ [aggregate_job swarm] \<and>
       filter (is_aggregate swarm) (drop (length (st_jobs st)) (st_jobs st')) = [aggregate_job swarm])"
proof -
  obtain q where q: "q \<noteq> []" "queue_inv env swarm (st_jobs st) q st1" "open_fish swarm (st_db st1) = n"
    "length (members swarm (view (st_db st1))) = n"
    using launch_queue [OF assms(2) reachable_db_ok [OF assms(1)] assms(3,4)] by blast
  have "length (filter (\<lambda>r. rn_swarm r = swarm) (db_runs (st_db st1))) = n"
    using q(4) by (simp add: members_def view_def filter_map comp_def)
  moreover have none: "filter (is_aggregate swarm) (map (fish_job swarm) fs) = []" for fs
    by (induction fs) simp_all
  ultimately show ?thesis
    using drain_queue [OF assms(3) q(2,1,3), of timers clock] settled_over by (auto simp: Let_def)
qed

text \<open>An activation that is not interrupted fills the free slots and no more: it claims as many
  pending fish as the concurrency leaves room for, each becomes running, each gets one job, and the
  number of running fish never exceeds the larger of the concurrency and what it was.\<close>

theorem activation_fills_free_slots:
  assumes "db_reach (st_db st)" and "accepting env"
  shows "\<exists>claimed st'. activatePendingFish env swarm c st = (Inr (length claimed), st') \<and>
    int (length claimed) = max 0 (min (fish_concurrency c - int (count_status swarm RunRunning (st_db st)))
                                      (int (count_status swarm RunPending (st_db st)))) \<and>
    count_status swarm RunRunning (st_db st') = count_status swarm RunRunning (st_db st) + length claimed \<and>
    count_status swarm RunPending (st_db st') = count_status swarm RunPending (st_db st) - length claimed \<and>
    st_jobs st' = st_jobs st @ map (fish_job swarm) claimed \<and> distinct (map fst claimed) \<and>
    int (count_status swarm RunRunning (st_db st')) \<le>
      max (fish_concurrency c) (int (count_status swarm RunRunning (st_db st)))"
proof -
  have ok: "db_ok (st_db st)" by (rule reachable_db_ok [OF assms(1)])
  obtain claimed st' where a: "activatePendingFish env swarm c st = (Inr (length claimed), st')"
    "activation env swarm c st st' claimed" using activate_effect [OF ok assms(2)] by blast
  note ac = activation_counts [OF a(2) ok]
  have "length claimed = free_claim c swarm (st_db st)" "st_jobs st' = st_jobs st @ map (fish_job swarm) claimed"
    "distinct (map fst claimed)" using a(2) by (simp_all add: activation_def)
  then show ?thesis using a(1) ac(3,4)
    by (intro exI [of _ claimed] exI [of _ st'])
      (simp add: free_claim_def count_status_ids running_of_def pending_of_def, linarith)
qed

section \<open>A demonstration swarm\<close>

definition noop_spec :: json_object where
  "noop_spec = [(''kind'', JStr ''noop'')]"

definition demo_launch :: "nat \<Rightarrow> launch_opts" where
  "demo_launch n =
     \<lparr>lo_kind = ''demo'', lo_title = ''t'', lo_baseSeed = [(''subjectIds'', JArr [JNum 7])], lo_perturbations = replicate n noop_spec,
      lo_config = \<lparr>wc_llmMode = ''fixtures'', wc_quorumPct = None, wc_perFishTimeoutMs = Fin 1000,
                   wc_fishConcurrency = Fin 2, wc_nanoModel = ''m'', wc_seed = 0, wc_aggregates = []\<rparr>,
      lo_createdBy = None\<rparr>"

definition demo_swarm_env :: swarm_env where
  "demo_swarm_env =
     \<lparr>se_orch = demo_orch_env, se_runner = demo_runner ''hold'' (\<lambda>_. Inr None),
      se_driver = (\<lambda>_. \<lparr>dv_sequential = False, dv_singleTurn = True\<rparr>), se_validate = (\<lambda>_ _. None),
      se_maxTurns = (\<lambda>_. 2), se_applyToSeed = (\<lambda>seed _. seed)\<rparr>"

definition fresh_state :: sim_state where
  "fresh_state = \<lparr>st_db = empty_db, st_gate = [], st_jobs = []\<rparr>"

definition demo_swarm :: "nat \<Rightarrow> sim_state" where
  "demo_swarm n = snd (launchSwarm demo_swarm_env (demo_launch n) 0 fresh_state)"

lemma demo_accepting: "accepting demo_swarm_env"
  by (simp add: accepting_def demo_swarm_env_def demo_orch_env_def)

lemma demo_concurrency: "fish_concurrency (lo_config (demo_launch n)) = 2"
  by (simp add: fish_concurrency_def readPositiveInt_def demo_launch_def)

lemma demo_launch_result: "fst (launchSwarm demo_swarm_env (demo_launch 3) 0 fresh_state) = Inr (1, 3, 1)"
  by code_simp

lemma fresh_reach: "db_reach (st_db fresh_state)"
  by (simp add: fresh_state_def reach_empty)

theorem launched_swarm_drains_witness:
  "let st' = run_fish_jobs 3 demo_swarm_env (\<lambda>k. \<lparr>tm_during = (\<lambda>t. k = 1), tm_late = False\<rparr>) int 0 (demo_swarm 3) in
    launchSwarm demo_swarm_env (demo_launch 3) 0 fresh_state = (Inr (1, 3, 1), demo_swarm 3) \<and>
    length (filter (\<lambda>r. rn_swarm r = 1) (db_runs (st_db (demo_swarm 3)))) = 3 \<and> swarm_over 1 (st_db st') \<and>
    (\<exists>fs. length fs = 3 \<and> st_jobs st' = map (fish_job 1) fs @ [aggregate_job 1])"
proof -
  have l: "launchSwarm demo_swarm_env (demo_launch 3) 0 fresh_state = (Inr (1, 3, 1), demo_swarm 3)"
    using demo_launch_result unfolding demo_swarm_def by (metis prod.collapse)
  have e: "st_jobs fresh_state = []" by (simp add: fresh_state_def)
  show ?thesis
    using l launched_swarm_drains [OF fresh_reach l demo_accepting, of "\<lambda>k. \<lparr>tm_during = (\<lambda>t. k = 1), tm_late = False\<rparr>" int]
    by (simp add: demo_concurrency e Let_def) blast
qed

definition pending_state :: sim_state where
  "pending_state = \<lparr>st_db = two_fish_db, st_gate = [], st_jobs = []\<rparr>"

theorem activation_fills_free_slots_witness:
  "count_status 1 RunPending (st_db pending_state) = 2 \<and>
   (\<exists>claimed st'. activatePendingFish demo_swarm_env 1 (lo_config (demo_launch 3)) pending_state = (Inr (length claimed), st') \<and>
      int (length claimed) = 2 \<and> st_jobs st' = map (fish_job 1) claimed)"
proof -
  have reach: "db_reach (st_db pending_state)" using kernel_memories [OF two_fish_reach] by (simp add: pending_state_def)
  have counts: "count_status 1 RunPending (st_db pending_state) = 2" "count_status 1 RunRunning (st_db pending_state) = 0"
    by code_simp+
  have jobs: "st_jobs pending_state = []" by (simp add: pending_state_def)
  show ?thesis
    using activation_fills_free_slots [OF reach demo_accepting, of 1 "lo_config (demo_launch 3)"]
    unfolding demo_concurrency counts jobs by auto
qed

end
