(* ===== verification/SwarmMachine.thy ===== *)
theory SwarmMachine
  imports Swarm
begin

text \<open>
  The fish workers of a swarm run concurrently. Here the calls of
  \<open>onFishComplete\<close> (packages/sweep/src/sim/swarm.service.ts) interleave: a process is a worker between
  two database or queue calls, a machine state is the processes and the stores. The invariant
  \<open>swarm_safe\<close> gives that the aggregate job is enqueued at most once, and only when no fish is open.
\<close>

section \<open>Interleaved workers\<close>

text \<open>
  A process is a fish worker, or the launch while it activates its first fish, and stands between
  two calls of the store, the gate or the queue. \<open>True\<close> marks an activation on behalf of
  \<open>onFishComplete\<close>.
\<close>

datatype phase =
    Playing int
  | Closing int run_status int
  | Loading
  | Counting bool swarm_row
  | Claiming bool swarm_row int
  | Enqueueing bool swarm_row "(int \<times> int) list"
  | Accounting swarm_row
  | Gating
  | Submitting
  | Releasing
  | Finished

definition activated :: "bool \<Rightarrow> swarm_row \<Rightarrow> phase" where
  "activated notify s = (if notify then Accounting s else Finished)"

text \<open>The next call of a process: its next phase, the worker it starts, and the state.\<close>

fun advance :: "swarm_env \<Rightarrow> int \<Rightarrow> phase \<Rightarrow> sim_state \<Rightarrow> phase \<times> phase list \<times> sim_state" where
  "advance env swarm (Closing run s now) st = (Loading, [], snd (close_run run s now st))"
| "advance env swarm Loading st =
     (case swarm_findById swarm (st_db st) of None \<Rightarrow> (Finished, [], st) | Some s \<Rightarrow> (Counting True s, [], st))"
| "advance env swarm (Counting b s) st =
     (let limit = claim_limit (sw_config s) (countFishByStatus swarm (st_db st)) in
      (if limit = 0 then activated b s else Claiming b s limit, [], st))"
| "advance env swarm (Claiming b s limit) st =
     (case claimPendingFishForSwarm swarm limit (st_db st) of
        (claimed, db) \<Rightarrow> (Enqueueing b s claimed, [], st\<lparr>st_db := db\<rparr>))"
| "advance env swarm (Enqueueing b s []) st = (activated b s, [], st)"
| "advance env swarm (Enqueueing b s (f # fs)) st =
     (case refuses env (fish_job swarm f) of
        Some e \<Rightarrow> (Finished, [], st)
      | None \<Rightarrow> (Enqueueing b s fs, [Playing (fst f)], st\<lparr>st_jobs := st_jobs st @ [fish_job swarm f]\<rparr>))"
| "advance env swarm (Accounting s) st =
     (if int (accounted (countFishByStatus swarm (st_db st))) < sw_size s then (Finished, [], st) else (Gating, [], st))"
| "advance env swarm Gating st =
     (if swarm \<in> set (st_gate st) then (Finished, [], st) else (Submitting, [], st\<lparr>st_gate := swarm # st_gate st\<rparr>))"
| "advance env swarm Submitting st =
     (case refuses env (aggregate_job swarm) of
        Some e \<Rightarrow> (Releasing, [], st)
      | None \<Rightarrow> (Finished, [], st\<lparr>st_jobs := st_jobs st @ [aggregate_job swarm]\<rparr>))"
| "advance env swarm Releasing st = (Finished, [], st\<lparr>st_gate := removeAll swarm (st_gate st)\<rparr>)"
| "advance env swarm p st = (p, [], st)"

fun advances :: "nat \<Rightarrow> swarm_env \<Rightarrow> int \<Rightarrow> phase \<times> sim_state \<Rightarrow> phase \<times> sim_state" where
  "advances 0 env swarm x = x"
| "advances (Suc k) env swarm x =
     (case advance env swarm (fst x) (snd x) of (p, _, st) \<Rightarrow> advances k env swarm (p, st))"

type_synonym swarm_sys = "phase list \<times> sim_state"

text \<open>
  A worker plays its run (\<open>Skip\<close> when the run is no longer running, \<open>Stop\<close> when it has ended one
  way or another), then notifies the swarm.
\<close>

datatype move =
    Skip nat
  | Stop nat run_status int
  | Advance nat

definition exec_move :: "swarm_env \<Rightarrow> int \<Rightarrow> move \<Rightarrow> swarm_sys \<Rightarrow> swarm_sys option" where
  "exec_move env swarm m x =
     (case x of (ps, st) \<Rightarrow>
        (case m of
           Skip k \<Rightarrow>
             (if k < length ps
              then (case ps ! k of
                      Playing run \<Rightarrow>
                        (if map_option rn_status (run_findById run (st_db st)) \<noteq> Some RunRunning
                         then Some (ps[k := Loading], st) else None)
                    | _ \<Rightarrow> None)
              else None)
         | Stop k s now \<Rightarrow>
             (if k < length ps \<and> terminal_status s
              then (case ps ! k of Playing run \<Rightarrow> Some (ps[k := Closing run s now], st) | _ \<Rightarrow> None)
              else None)
         | Advance k \<Rightarrow>
             (if k < length ps
              then (case advance env swarm (ps ! k) st of (p, spawned, st') \<Rightarrow> Some (ps[k := p] @ spawned, st'))
              else None)))"

text \<open>
  Besides: a turn of a run that has been claimed, also one that its worker has given up waiting for;
  an abort; the aggregate worker.
\<close>

inductive swarm_step :: "swarm_env \<Rightarrow> int \<Rightarrow> swarm_sys \<Rightarrow> swarm_sys \<Rightarrow> bool" for env swarm where
  step_move: "exec_move env swarm m x = Some y \<Longrightarrow> swarm_step env swarm x y"
| step_turn: "run \<notin> set (pending_of swarm (st_db st)) \<Longrightarrow> play_turn env driver run turn now st = (res, st') \<Longrightarrow>
    swarm_step env swarm (ps, st) (ps, st')"
| step_abort: "swarm_step env swarm (ps, st) (ps, snd (abort_swarm swarm now st))"
| step_aggregate: "aggregate_job swarm \<in> set (st_jobs st) \<Longrightarrow>
    processSwarmAggregateJob resolve swarm now st = (res, st') \<Longrightarrow> swarm_step env swarm (ps, st) (ps, st')"

inductive swarm_reach :: "swarm_env \<Rightarrow> int \<Rightarrow> swarm_sys \<Rightarrow> swarm_sys \<Rightarrow> bool" for env swarm x0 where
  reach_start: "swarm_reach env swarm x0 x0"
| reach_step: "swarm_reach env swarm x0 x \<Longrightarrow> swarm_step env swarm x y \<Longrightarrow> swarm_reach env swarm x0 y"

fun exec_moves :: "swarm_env \<Rightarrow> int \<Rightarrow> move list \<Rightarrow> swarm_sys \<Rightarrow> swarm_sys option" where
  "exec_moves env swarm [] x = Some x"
| "exec_moves env swarm (m # ms) x = Option.bind (exec_move env swarm m x) (exec_moves env swarm ms)"

lemma exec_moves_reach: "exec_moves env swarm ms x = Some y \<Longrightarrow> swarm_reach env swarm x0 x \<Longrightarrow> swarm_reach env swarm x0 y"
proof (induction ms arbitrary: x)
  case (Cons m ms)
  then obtain z where z: "exec_move env swarm m x = Some z" "exec_moves env swarm ms z = Some y"
    by (auto simp: bind_eq_Some_conv)
  show ?case by (rule Cons.IH [OF z(2) reach_step [OF Cons.prems(2) step_move [OF z(1)]]])
qed simp

subsection \<open>Uninterrupted, the machine is onFishComplete\<close>

lemma read_bind: "op_bind (op_read f) k st = k (f (st_db st)) st"
  by (simp add: op_bind_def op_read_def)

lemma bind_ok: "m st = (Inr x, st') \<Longrightarrow> op_bind m k st = k x st'"
  by (simp add: op_bind_def)

lemma advances_add: "advances (j + k) env swarm x = advances k env swarm (advances j env swarm x)"
  by (induction j arbitrary: x) (simp_all split: prod.splits)

lemma advances_enqueue:
  "\<exists>k. advances k env swarm (Enqueueing b s fs, st) =
     (if fst (enqueue_fish env swarm fs st) = Inr () then activated b s else Finished, snd (enqueue_fish env swarm fs st))"
proof (induction fs arbitrary: st)
  case Nil
  show ?case by (rule exI [of _ 1]) (simp add: op_return_def)
next
  case (Cons f fs)
  show ?case
  proof (cases "refuses env (fish_job swarm f)")
    case None
    let ?st = "st\<lparr>st_jobs := st_jobs st @ [fish_job swarm f]\<rparr>"
    obtain k where "advances k env swarm (Enqueueing b s fs, ?st) =
     (if fst (enqueue_fish env swarm fs ?st) = Inr () then activated b s else Finished, snd (enqueue_fish env swarm fs ?st))"
      using Cons.IH by blast
    moreover have "enqueue_fish env swarm (f # fs) st = enqueue_fish env swarm fs ?st"
      using None by (simp add: op_then_def op_bind_def op_enqueue_def)
    ultimately show ?thesis using None by (intro exI [of _ "Suc k"]) simp
  next
    case (Some e)
    then show ?thesis by (intro exI [of _ 1]) (simp add: op_then_def op_bind_def op_enqueue_def)
  qed
qed

lemma advances_activate:
  "\<exists>k. advances k env swarm (Counting b s, st) =
     (case activatePendingFish env swarm (sw_config s) st of
        (Inr _, st') \<Rightarrow> (activated b s, st')
      | (Inl _, st') \<Rightarrow> (Finished, st'))"
proof (cases "claim_limit (sw_config s) (countFishByStatus swarm (st_db st)) = 0")
  case True
  then show ?thesis
    by (intro exI [of _ 1]) (simp add: activatePendingFish_def op_bind_def op_read_def op_return_def Let_def)
next
  case False
  obtain claimed db' where c: "claimPendingFishForSwarm swarm (claim_limit (sw_config s) (countFishByStatus swarm (st_db st))) (st_db st) = (claimed, db')"
    by (metis surj_pair)
  let ?st = "st\<lparr>st_db := db'\<rparr>"
  obtain k where k: "advances k env swarm (Enqueueing b s claimed, ?st) =
     (if fst (enqueue_fish env swarm claimed ?st) = Inr () then activated b s else Finished, snd (enqueue_fish env swarm claimed ?st))"
    using advances_enqueue by blast
  have "advances (Suc (Suc k)) env swarm (Counting b s, st) = advances k env swarm (Enqueueing b s claimed, ?st)"
    using False c by (simp add: Let_def)
  moreover have "activatePendingFish env swarm (sw_config s) st =
      op_then (enqueue_fish env swarm claimed) (op_return (length claimed)) ?st"
    using False c by (simp add: activatePendingFish_def op_bind_def op_read_def claim_fish_def op_insert_def)
  ultimately show ?thesis using k
    by (intro exI [of _ "Suc (Suc k)"]) (cases "enqueue_fish env swarm claimed ?st"; cases "fst (enqueue_fish env swarm claimed ?st)";
      simp add: op_then_def op_bind_def op_return_def)
qed

lemma advances_account:
  "\<exists>k. advances k env swarm (Accounting s, st) =
     (Finished,
      snd (account_fish env swarm s st))"
proof -
  note account_fish_def [simp]
  consider "int (accounted (countFishByStatus swarm (st_db st))) < sw_size s"
    | "\<not> int (accounted (countFishByStatus swarm (st_db st))) < sw_size s" "swarm \<in> set (st_gate st)"
    | "\<not> int (accounted (countFishByStatus swarm (st_db st))) < sw_size s" "swarm \<notin> set (st_gate st)"
      "refuses env (aggregate_job swarm) = None"
    | e where "\<not> int (accounted (countFishByStatus swarm (st_db st))) < sw_size s" "swarm \<notin> set (st_gate st)"
      "refuses env (aggregate_job swarm) = Some e"
    by (cases "refuses env (aggregate_job swarm)") blast+
  then show ?thesis
  proof cases
    case 1
    then show ?thesis by (intro exI [of _ 1]) (simp add: op_bind_def op_read_def op_return_def)
  next
    case 2
    then show ?thesis
      by (intro exI [of _ 2]) (simp add: op_bind_def op_read_def op_return_def gate_claim_def numeral_2_eq_2)
  next
    case 3
    then show ?thesis
      by (intro exI [of _ 3])
        (simp add: op_bind_def op_read_def op_return_def gate_claim_def enqueue_aggregate_def op_enqueue_def numeral_3_eq_3)
  next
    case 4
    then show ?thesis
      by (intro exI [of _ 4])
        (simp add: op_bind_def op_then_def op_throw_def op_read_def op_return_def gate_claim_def gate_release_def
          enqueue_aggregate_def op_enqueue_def eval_nat_numeral)
  qed
qed

lemma uninterrupted:
  "\<exists>k. advances k env swarm (Loading, st) = (Finished, snd (onFishComplete env swarm st))"
proof (cases "swarm_findById swarm (st_db st)")
  case None
  then show ?thesis by (intro exI [of _ 1]) (simp add: onFishComplete_def op_bind_def op_read_def op_return_def)
next
  case (Some s)
  obtain r st1 where a: "activatePendingFish env swarm (sw_config s) st = (r, st1)" by (metis surj_pair)
  obtain k where k: "advances k env swarm (Counting True s, st) =
     (case activatePendingFish env swarm (sw_config s) st of
        (Inr _, st') \<Rightarrow> (activated True s, st')
      | (Inl _, st') \<Rightarrow> (Finished, st'))" using advances_activate by blast
  have load: "advances (Suc k) env swarm (Loading, st) = advances k env swarm (Counting True s, st)" using Some by simp
  show ?thesis
  proof (cases r)
    case (Inl e)
    then show ?thesis using Some a k load
      by (intro exI [of _ "Suc k"]) (simp add: onFishComplete_def op_bind_def op_read_def)
  next
    case (Inr n)
    obtain j where j: "advances j env swarm (Accounting s, st1) =
     (Finished,
      snd (account_fish env swarm s st1))"
      using advances_account by blast
    have "advances (Suc k + j) env swarm (Loading, st) = advances j env swarm (Accounting s, st1)"
      unfolding advances_add load k using a Inr by (simp add: activated_def)
    moreover have "onFishComplete env swarm st = account_fish env swarm s st1"
      using Some by (simp add: onFishComplete_def read_bind bind_ok [of "activatePendingFish env swarm (sw_config s)", OF a [unfolded Inr]])
    ultimately show ?thesis using j by (intro exI [of _ "Suc k + j"]) simp
  qed
qed

subsection \<open>The invariant of the machine\<close>

definition over_view :: "int \<Rightarrow> run_view \<Rightarrow> bool" where
  "over_view swarm v = (\<forall>i s. (i, swarm, s) \<in> set v \<longrightarrow> terminal_status s)"

lemma swarm_over_view: "swarm_over swarm db = over_view swarm (view db)"
  by (auto simp: swarm_over_def over_view_def view_def list_all_iff)

lemma over_mark: "over_view swarm v \<Longrightarrow> terminal_status s \<or> I \<inter> set (ids_of swarm RunPending v) = I \<Longrightarrow> over_view swarm (mark I s v)"
proof -
  assume o: "over_view swarm v" and I: "terminal_status s \<or> I \<inter> set (ids_of swarm RunPending v) = I"
  have "i \<notin> set (ids_of swarm RunPending v)" for i
    unfolding ids_of_iff using o by (auto simp: over_view_def terminal_status_def)
  then have none: "set (ids_of swarm RunPending v) = {}" by (metis all_not_in_conv)
  show "over_view swarm (mark I s v)"
    using o I unfolding none by (auto simp: over_view_def mark_iff split: if_splits)
qed

definition tables_ok :: "int \<Rightarrow> nat \<Rightarrow> sim_db \<Rightarrow> bool" where
  "tables_ok swarm n db =
     (db_ok db \<and> length (members swarm (view db)) = n \<and>
      list_all (\<lambda>s. sw_id s = swarm \<longrightarrow> sw_size s = int n) (db_swarms db))"

fun phase_ok :: "nat \<Rightarrow> phase \<Rightarrow> bool" where
  "phase_ok n (Closing run s now) = terminal_status s"
| "phase_ok n (Counting b s) = (sw_size s = int n)"
| "phase_ok n (Claiming b s l) = (sw_size s = int n)"
| "phase_ok n (Enqueueing b s fs) = (sw_size s = int n)"
| "phase_ok n (Accounting s) = (sw_size s = int n)"
| "phase_ok n _ = True"

definition holds_gate :: "phase \<Rightarrow> bool" where
  "holds_gate p = (p = Submitting \<or> p = Releasing)"

definition aggregates :: "int \<Rightarrow> sim_state \<Rightarrow> nat" where
  "aggregates swarm st = length (filter (is_aggregate swarm) (st_jobs st))"

definition swarm_safe :: "int \<Rightarrow> nat \<Rightarrow> swarm_sys \<Rightarrow> bool" where
  "swarm_safe swarm n x =
     (case x of (ps, st) \<Rightarrow>
        tables_ok swarm n (st_db st) \<and> list_all (phase_ok n) ps \<and>
        length (filter holds_gate ps) + aggregates swarm st = (if swarm \<in> set (st_gate st) then 1 else 0) \<and>
        (Gating \<in> set ps \<or> swarm \<in> set (st_gate st) \<longrightarrow> swarm_over swarm (st_db st)))"

lemma filter_update:
  "k < length xs \<Longrightarrow>
   length (filter P (xs[k := y])) + (if P (xs ! k) then 1 else 0) = length (filter P xs) + (if P y then 1 else 0)"
proof (induction xs arbitrary: k)
  case (Cons x xs)
  then show ?case by (cases k) auto
qed simp

text \<open>Steps that leave the gate and the queue alone.\<close>

lemma safe_db:
  assumes safe: "swarm_safe swarm n (ps, st)" and t: "tables_ok swarm n (st_db st')"
    and q: "st_jobs st' = st_jobs st" "st_gate st' = st_gate st"
    and over: "swarm_over swarm (st_db st) \<Longrightarrow> swarm_over swarm (st_db st')"
  shows "swarm_safe swarm n (ps, st')"
  using assms by (auto simp: swarm_safe_def aggregates_def)

lemma safe_phase:
  assumes safe: "swarm_safe swarm n (ps, st)" and k: "k < length ps"
    and p: "\<not> holds_gate (ps ! k)" "\<not> holds_gate p" "phase_ok n p" "p = Gating \<Longrightarrow> swarm_over swarm (st_db st)"
  shows "swarm_safe swarm n (ps[k := p], st)"
proof -
  have "length (filter holds_gate (ps[k := p])) = length (filter holds_gate ps)"
    using filter_update [OF k, of holds_gate p] p(1,2) by simp
  moreover have "list_all (phase_ok n) (ps[k := p])"
    using safe p(3) by (auto simp: swarm_safe_def list_all_iff dest: set_update_subset_insert [THEN subsetD])
  moreover have "Gating \<in> set (ps[k := p]) \<Longrightarrow> Gating \<in> set ps \<or> p = Gating"
    using set_update_subset_insert [of ps k p] by auto
  ultimately show ?thesis using safe p(4) by (auto simp: swarm_safe_def)
qed

lemma safe_spawn: "swarm_safe swarm n (ps, st) \<Longrightarrow> swarm_safe swarm n (ps @ [Playing run], st)"
  by (auto simp: swarm_safe_def holds_gate_def)

lemma tables_mark:
  "tables_ok swarm n db \<Longrightarrow> db_ok db' \<Longrightarrow> db_swarms db' = db_swarms db \<Longrightarrow> view db' = mark I s (view db) \<Longrightarrow>
   tables_ok swarm n db'"
  by (simp add: tables_ok_def)

lemma accounted_all:
  assumes "length (members swarm (view db)) = n" "n \<le> accounted (countFishByStatus swarm db)"
  shows "swarm_over swarm db"
proof -
  have "ids_of swarm RunPending (view db) = []" "ids_of swarm RunRunning (view db) = []" "ids_of swarm RunPaused (view db) = []"
    using assms members_split [of swarm "view db"]
    by (auto simp: accounted_def countFishByStatus_def count_status_ids)
  then show ?thesis by (intro settled_over) (simp_all add: settled_def pending_of_def running_of_def)
qed

lemma claim_any:
  assumes ok: "db_ok db" and c: "claimPendingFishForSwarm swarm limit db = (claimed, db')"
  shows "\<exists>I. I \<subseteq> set (ids_of swarm RunPending (view db)) \<and> view db' = mark I RunRunning (view db) \<and>
    db_swarms db' = db_swarms db \<and> db_ok db'"
proof (cases "limit < 1")
  case True
  then show ?thesis using c ok by (intro exI [of _ "{}"]) (simp add: claimPendingFishForSwarm_def)
next
  case False
  let ?I = "set (map rn_id (pick_pending swarm (nat limit) db))"
  have db': "db' = db\<lparr>db_runs := map (\<lambda>r. if rn_id r \<in> ?I then r\<lparr>rn_status := RunRunning\<rparr> else r) (db_runs db)\<rparr>"
    using c False by (auto simp: claimPendingFishForSwarm_def Let_def)
  have "?I \<subseteq> set (ids_of swarm RunPending (view db))"
    by (force simp: ids_of_iff view_def pick_pending_def dest!: in_set_takeD)
  moreover have "view db' = mark ?I RunRunning (view db)" by (simp add: db' view_def mark_def comp_def if_distrib)
  moreover have "db_ok db'" using claim_ok [of swarm limit db] c ok by simp
  ultimately show ?thesis by (intro exI [of _ ?I]) (simp add: db')
qed

lemma safe_fish_job:
  "swarm_safe swarm n (ps, st) \<Longrightarrow> swarm_safe swarm n (ps, st\<lparr>st_jobs := st_jobs st @ [fish_job swarm f]\<rparr>)"
  by (simp add: swarm_safe_def aggregates_def)

text \<open>A process that takes, uses or gives back the gate.\<close>

lemma safe_gate:
  assumes safe: "swarm_safe swarm n (ps, st)" and k: "k < length ps" and p: "phase_ok n p" "p \<noteq> Gating"
    and st': "st_db st' = st_db st"
    and count: "(if holds_gate p then 1 else 0) + aggregates swarm st' + (if swarm \<in> set (st_gate st) then 1 else 0) =
      (if holds_gate (ps ! k) then 1 else 0) + aggregates swarm st + (if swarm \<in> set (st_gate st') then 1 else (0 :: nat))"
    and over: "swarm_over swarm (st_db st)"
  shows "swarm_safe swarm n (ps[k := p], st')"
proof -
  have "list_all (phase_ok n) (ps[k := p])"
    using safe p(1) by (auto simp: swarm_safe_def list_all_iff dest: set_update_subset_insert [THEN subsetD])
  moreover have "length (filter holds_gate (ps[k := p])) + aggregates swarm st' = (if swarm \<in> set (st_gate st') then 1 else 0)"
    using filter_update [OF k, of holds_gate p] count safe by (simp add: swarm_safe_def split: if_splits)
  ultimately show ?thesis using safe st' over by (simp add: swarm_safe_def)
qed

lemma safe_over: "swarm_safe swarm n (ps, st) \<Longrightarrow> p \<in> set ps \<Longrightarrow> p = Gating \<or> holds_gate p \<Longrightarrow> swarm_over swarm (st_db st)"
proof -
  assume safe: "swarm_safe swarm n (ps, st)" and p: "p \<in> set ps" "p = Gating \<or> holds_gate p"
  show "swarm_over swarm (st_db st)"
  proof (cases "holds_gate p")
    case True
    then have "filter holds_gate ps \<noteq> []" using p(1) by (auto simp: filter_empty_conv)
    then have "swarm \<in> set (st_gate st)" using safe by (auto simp: swarm_safe_def split: if_splits)
    then show ?thesis using safe by (simp add: swarm_safe_def)
  next
    case False
    then show ?thesis using p safe by (auto simp: swarm_safe_def)
  qed
qed

lemma safe_holds: "swarm_safe swarm n (ps, st) \<Longrightarrow> k < length ps \<Longrightarrow> holds_gate (ps ! k) \<Longrightarrow>
  swarm \<in> set (st_gate st) \<and> aggregates swarm st = 0"
proof -
  assume safe: "swarm_safe swarm n (ps, st)" and k: "k < length ps" "holds_gate (ps ! k)"
  have "ps ! k \<in> set (filter holds_gate ps)" using k by simp
  then have "0 < length (filter holds_gate ps)" by (cases "filter holds_gate ps") auto
  moreover have "length (filter holds_gate ps) + aggregates swarm st = (if swarm \<in> set (st_gate st) then 1 else 0)"
    using safe by (simp add: swarm_safe_def)
  ultimately show ?thesis by (auto simp del: length_greater_0_conv split: if_splits)
qed

lemma safe_advance:
  assumes safe: "swarm_safe swarm n (ps, st)" and k: "k < length ps"
    and adv: "advance env swarm (ps ! k) st = (p, spawned, st')"
  shows "swarm_safe swarm n (ps[k := p] @ spawned, st')"
proof -
  have t: "tables_ok swarm n (st_db st)" using safe by (simp add: swarm_safe_def)
  then have ok: "db_ok (st_db st)" by (simp add: tables_ok_def)
  have size: "phase_ok n (ps ! k)" using safe k by (simp add: swarm_safe_def list_all_length)
  have phase: "\<not> holds_gate (ps ! k) \<Longrightarrow> \<not> holds_gate p \<Longrightarrow> phase_ok n p \<Longrightarrow>
    (p = Gating \<Longrightarrow> swarm_over swarm (st_db st)) \<Longrightarrow> swarm_safe swarm n (ps[k := p], st)"
    by (rule safe_phase [OF safe k])
  have act: "\<not> holds_gate (activated b s)" "sw_size s = int n \<Longrightarrow> phase_ok n (activated b s)" "activated b s \<noteq> Gating" for b s
    by (simp_all add: activated_def holds_gate_def)
  show ?thesis
  proof (cases "ps ! k")
    case (Playing run)
    then have "p = ps ! k" "spawned = []" "st' = st" using adv by simp_all
    then show ?thesis using safe by simp
  next
    case Finished
    then have "p = ps ! k" "spawned = []" "st' = st" using adv by simp_all
    then show ?thesis using safe by simp
  next
    case (Closing run s now)
    then have s: "terminal_status s" and p: "p = Loading" "spawned = []" "st' = snd (close_run run s now st)"
      using size adv by simp_all
    have st': "st' = st\<lparr>st_db := updateStatus run s (Some (Some now)) (st_db st)\<rparr>" using p(3) by (simp add: close_run_effect [OF s])
    have v: "view (st_db st') = mark {run} s (view (st_db st))" by (simp add: st' view_updateStatus)
    have "tables_ok swarm n (st_db st')"
      by (rule tables_mark [OF t _ _ v]) (simp_all add: st' updateStatus_ok ok, simp add: updateStatus_def)
    moreover have "swarm_safe swarm n (ps[k := Loading], st)" using phase p Closing by (simp add: holds_gate_def)
    moreover have "swarm_over swarm (st_db st) \<Longrightarrow> swarm_over swarm (st_db st')"
      unfolding swarm_over_view v by (rule over_mark) (use s in auto)
    moreover have "st_jobs st' = st_jobs st" "st_gate st' = st_gate st" by (simp_all add: st')
    ultimately show ?thesis using safe_db [of swarm n "ps[k := Loading]" st st'] p(1,2) by simp
  next
    case Loading
    then have "spawned = []" "st' = st" "p = Finished \<or> (\<exists>s. swarm_findById swarm (st_db st) = Some s \<and> p = Counting True s)"
      using adv by (auto split: option.splits)
    moreover have "sw_size s = int n" if "swarm_findById swarm (st_db st) = Some s" for s
      using that t by (auto simp: tables_ok_def swarm_findById_def find_Some_iff list_all_length)
    ultimately show ?thesis using phase Loading by (auto simp: holds_gate_def)
  next
    case (Counting b s)
    then show ?thesis using adv phase size act by (auto simp: holds_gate_def Let_def split: if_splits)
  next
    case (Claiming b s limit)
    obtain claimed db' where c: "claimPendingFishForSwarm swarm limit (st_db st) = (claimed, db')" by (metis surj_pair)
    obtain I where I: "I \<subseteq> set (ids_of swarm RunPending (view (st_db st)))" "view db' = mark I RunRunning (view (st_db st))"
      "db_swarms db' = db_swarms (st_db st)" "db_ok db'" using claim_any [OF ok c] by blast
    have p: "p = Enqueueing b s claimed" "spawned = []" "st' = st\<lparr>st_db := db'\<rparr>" using adv c Claiming by simp_all
    have "tables_ok swarm n (st_db st')" using tables_mark [OF t I(4,3,2)] p(3) by simp
    moreover have "swarm_over swarm (st_db st) \<Longrightarrow> swarm_over swarm (st_db st')"
      unfolding swarm_over_view using over_mark [of swarm "view (st_db st)" RunRunning I] I(1,2) p(3) by auto
    moreover have "swarm_safe swarm n (ps[k := p], st)" using phase p size Claiming by (simp add: holds_gate_def)
    ultimately show ?thesis using safe_db [of swarm n "ps[k := p]" st st'] p by simp
  next
    case (Enqueueing b s fs)
    show ?thesis
    proof (cases fs)
      case Nil
      then show ?thesis using adv phase size act Enqueueing by (auto simp: holds_gate_def)
    next
      case (Cons f fs')
      show ?thesis
      proof (cases "refuses env (fish_job swarm f)")
        case None
        then have "swarm_safe swarm n (ps[k := p], st)" "spawned = [Playing (fst f)]"
          "st' = st\<lparr>st_jobs := st_jobs st @ [fish_job swarm f]\<rparr>"
          using adv phase size Enqueueing Cons by (auto simp: holds_gate_def)
        then show ?thesis using safe_spawn [OF safe_fish_job] by simp
      next
        case (Some e)
        then show ?thesis using adv phase Enqueueing Cons by (auto simp: holds_gate_def)
      qed
    qed
  next
    case (Accounting s)
    have "swarm_over swarm (st_db st)" if "p = Gating"
      using that adv Accounting size t by (intro accounted_all [of swarm "st_db st" n]) (auto simp: tables_ok_def split: if_splits)
    then show ?thesis using adv phase Accounting by (auto simp: holds_gate_def split: if_splits)
  next
    case Gating
    have over: "swarm_over swarm (st_db st)" using safe_over [OF safe nth_mem [OF k]] Gating by blast
    show ?thesis
    proof (cases "swarm \<in> set (st_gate st)")
      case True
      then show ?thesis using adv phase Gating by (auto simp: holds_gate_def)
    next
      case False
      then have p: "p = Submitting" "spawned = []" "st' = st\<lparr>st_gate := swarm # st_gate st\<rparr>" using adv Gating by simp_all
      have "swarm_safe swarm n (ps[k := Submitting], st')"
        by (rule safe_gate [OF safe k _ _ _ _ over]) (use False Gating p in \<open>simp_all add: holds_gate_def aggregates_def\<close>)
      then show ?thesis using p by simp
    qed
  next
    case Submitting
    have over: "swarm_over swarm (st_db st)" using safe_over [OF safe nth_mem [OF k]] Submitting by (simp add: holds_gate_def)
    have hold: "swarm \<in> set (st_gate st)" "aggregates swarm st = 0"
      using safe_holds [OF safe k] Submitting by (simp_all add: holds_gate_def)
    have "swarm_safe swarm n (ps[k := p], st')"
      by (rule safe_gate [OF safe k _ _ _ _ over])
        (use adv Submitting hold in \<open>auto simp: holds_gate_def aggregates_def split: option.splits\<close>)
    moreover have "spawned = []" using adv Submitting by (auto split: option.splits)
    ultimately show ?thesis by simp
  next
    case Releasing
    have over: "swarm_over swarm (st_db st)" using safe_over [OF safe nth_mem [OF k]] Releasing by (simp add: holds_gate_def)
    have hold: "swarm \<in> set (st_gate st)" "aggregates swarm st = 0"
      using safe_holds [OF safe k] Releasing by (simp_all add: holds_gate_def)
    have p: "p = Finished" "spawned = []" "st' = st\<lparr>st_gate := removeAll swarm (st_gate st)\<rparr>" using adv Releasing by simp_all
    have "swarm_safe swarm n (ps[k := Finished], st')"
      by (rule safe_gate [OF safe k _ _ _ _ over]) (use hold Releasing p in \<open>simp_all add: holds_gate_def aggregates_def\<close>)
    then show ?thesis using p by simp
  qed
qed

lemma safe_move:
  assumes safe: "swarm_safe swarm n x" and m: "exec_move env swarm m x = Some y"
  shows "swarm_safe swarm n y"
proof -
  obtain ps st where x: "x = (ps, st)" by (cases x)
  show ?thesis
  proof (cases m)
    case (Skip k)
    then obtain run where "k < length ps" "ps ! k = Playing run" "y = (ps[k := Loading], st)"
      using m x by (auto simp: exec_move_def split: if_splits phase.splits)
    then show ?thesis using safe_phase [OF safe [unfolded x], of k Loading] by (simp add: holds_gate_def)
  next
    case (Stop k s now)
    then obtain run where "k < length ps" "terminal_status s" "ps ! k = Playing run" "y = (ps[k := Closing run s now], st)"
      using m x by (auto simp: exec_move_def split: if_splits phase.splits)
    then show ?thesis using safe_phase [OF safe [unfolded x], of k "Closing run s now"] by (simp add: holds_gate_def)
  next
    case (Advance k)
    obtain p spawned st' where a: "advance env swarm (ps ! k) st = (p, spawned, st')" by (metis prod_cases3)
    have "k < length ps" "y = (ps[k := p] @ spawned, st')"
      using m x a Advance by (auto simp: exec_move_def split: if_splits)
    then show ?thesis using safe_advance [OF safe [unfolded x] _ a] by simp
  qed
qed

lemma update_swarm_sizes:
  "(\<And>s. sw_id (f s) = sw_id s \<and> sw_size (f s) = sw_size s) \<Longrightarrow>
   tables_ok swarm n (update_swarm f i db) = tables_ok swarm n db"
proof -
  assume f: "\<And>s. sw_id (f s) = sw_id s \<and> sw_size (f s) = sw_size s"
  have ok: "db_ok (update_swarm f i db) = db_ok db" by (rule update_swarm_ok) (use f in blast)
  have v: "view (update_swarm f i db) = view db" by (simp add: update_swarm_def view_def)
  have "list_all P (map g ss) = list_all (\<lambda>s. P (g s)) ss" for P ss and g :: "swarm_row \<Rightarrow> swarm_row"
    by (simp add: list_all_iff)
  moreover have "(\<lambda>s. sw_id (if sw_id s = i then f s else s) = swarm \<longrightarrow> sw_size (if sw_id s = i then f s else s) = int n) =
    (\<lambda>s. sw_id s = swarm \<longrightarrow> sw_size s = int n)" using f by (simp add: fun_eq_iff)
  ultimately show ?thesis unfolding tables_ok_def ok v by (simp add: update_swarm_def)
qed

lemma snapshot_shape:
  assumes "snapshotAggregate swarm q v db = Inr db'"
  shows "tables_ok swarm n db' = tables_ok swarm n db \<and> db_runs db' = db_runs db"
proof -
  obtain f where f: "db' = update_swarm f swarm db" "\<And>s. sw_id (f s) = sw_id s \<and> sw_size (f s) = sw_size s"
    using assms unfolding snapshotAggregate_def by (auto split: if_splits option.splits)
  then show ?thesis using update_swarm_sizes [OF f(2)] by (simp add: update_swarm_def)
qed

lemma aggregate_effect:
  assumes p: "processSwarmAggregateJob resolve swarm now st = (res, st')"
  obtains (untouched) "st' = st" | (closed) k where "st' = st\<lparr>st_db := closeSwarm swarm k now (st_db st)\<rparr>"
    | (snapped) k q v db' where "snapshotAggregate swarm q v (st_db st) = Inr db'"
      "st' = st\<lparr>st_db := closeSwarm swarm k now db'\<rparr>"
proof -
  note ops = op_bind_def op_read_def op_throw_def op_lift_def op_then_def op_try_def op_update_def op_return_def
  show thesis
  proof (cases "swarm_findById swarm (st_db st)")
    case None
    then show thesis using p untouched by (simp add: processSwarmAggregateJob_def ops)
  next
    case (Some s)
    show thesis
    proof (cases "resolve s (listTerminalsForSwarm swarm (st_db st))")
      case (Inl e)
      then show thesis using p untouched Some by (simp add: processSwarmAggregateJob_def ops)
    next
      case (Inr o')
      define k where "k = \<lparr>ki_status = ro_status o', ki_suggestionId = ro_suggestionId o', ki_reportFindingId = ro_reportFindingId o'\<rparr>"
      show thesis
      proof (cases "outcome_snapshot o'")
        case None
        then show thesis using p closed [of k] Some Inr by (simp add: processSwarmAggregateJob_def ops k_def)
      next
        case s: (Some x)
        obtain q v where x: "x = (q, v)" by (cases x)
        show thesis
        proof (cases "snapshotAggregate swarm q v (st_db st)")
          case (Inl e)
          then show thesis using p untouched Some \<open>resolve s _ = Inr o'\<close> s x by (simp add: processSwarmAggregateJob_def ops)
        next
          case i: (Inr db')
          then show thesis using p snapped [OF i, of k] Some \<open>resolve s _ = Inr o'\<close> s x
            by (simp add: processSwarmAggregateJob_def ops k_def)
        qed
      qed
    qed
  qed
qed

lemma aggregate_tables:
  assumes p: "processSwarmAggregateJob resolve swarm now st = (res, st')"
  shows "st_jobs st' = st_jobs st \<and> st_gate st' = st_gate st \<and> db_runs (st_db st') = db_runs (st_db st) \<and>
    (tables_ok swarm n (st_db st) \<longrightarrow> tables_ok swarm n (st_db st'))"
proof -
  have close: "tables_ok swarm n (closeSwarm swarm k now db) = tables_ok swarm n db"
    "db_runs (closeSwarm swarm k now db) = db_runs db" for k db
    unfolding closeSwarm_def by (rule update_swarm_sizes) (simp_all add: update_swarm_def)
  have snap: "tables_ok swarm n db' = tables_ok swarm n db \<and> db_runs db' = db_runs db"
    if "snapshotAggregate swarm q v db = Inr db'" for q v db db'
    using that snapshot_shape by blast
  consider "st' = st" | k where "st' = st\<lparr>st_db := closeSwarm swarm k now (st_db st)\<rparr>"
    | k q v db' where "snapshotAggregate swarm q v (st_db st) = Inr db'"
      "st' = st\<lparr>st_db := closeSwarm swarm k now db'\<rparr>"
    using aggregate_effect [OF p] .
  then show ?thesis by cases (auto simp: close dest: snap)
qed

lemma abort_view:
  "view (abortSwarm swarm now db) =
   map (\<lambda>(i, w, x). (i, w, if w = swarm \<and> x \<in> {RunPending, RunRunning} then RunFailed else x)) (view db)"
  by (auto simp: abortSwarm_def fail_open_runs_def update_swarm_def view_def)

lemma over_abort:
  assumes "over_view swarm v"
  shows "over_view swarm (map (\<lambda>(i, w, x). (i, w, if w = swarm \<and> x \<in> {RunPending, RunRunning} then RunFailed else x)) v)"
  using assms by (induction v) (auto simp: over_view_def terminal_status_def)

lemma abort_tables: "tables_ok swarm n db \<Longrightarrow> tables_ok swarm n (abortSwarm swarm now db)"
proof -
  assume t: "tables_ok swarm n db"
  have v: "members swarm (view (abortSwarm swarm now db)) = members swarm (view db)"
    unfolding abort_view by (simp add: members_def filter_map comp_def case_prod_unfold)
  let ?db = "update_swarm (\<lambda>s. s\<lparr>sw_status := SwarmFailed, sw_completedAt := Some now\<rparr>) swarm db"
  have same: "tables_ok swarm n ?db" using t by (subst update_swarm_sizes) simp_all
  have "members swarm (view ?db) = members swarm (view db)" by (simp add: update_swarm_def view_def)
  moreover have "db_swarms (fail_open_runs swarm now ?db) = db_swarms ?db" by (simp add: fail_open_runs_def)
  ultimately show ?thesis using same v
    unfolding abortSwarm_def tables_ok_def by (simp add: fail_open_runs_ok)
qed

lemma safe_step: "swarm_step env swarm x y \<Longrightarrow> swarm_safe swarm n x \<Longrightarrow> swarm_safe swarm n y"
proof (induction rule: swarm_step.induct)
  case (step_move m x y)
  then show ?case using safe_move by blast
next
  case (step_turn run st driver turn now res st' ps)
  have o: "only_run run st st'" by (rule play_turn_only [OF step_turn(2)])
  have t: "tables_ok swarm n (st_db st)" using step_turn.prems by (simp add: swarm_safe_def)
  have v: "view (st_db st') = view (st_db st) \<or> (\<exists>s. terminal_status s \<and> view (st_db st') = mark {run} s (view (st_db st)))"
    using o by (simp add: only_run_def)
  have "tables_ok swarm n (st_db st')" using o t by (auto simp: only_run_def tables_ok_def)
  moreover have "swarm_over swarm (st_db st) \<Longrightarrow> swarm_over swarm (st_db st')"
    unfolding swarm_over_view using v by (auto intro: over_mark)
  ultimately show ?case using safe_db [OF step_turn.prems, of st'] o by (simp add: only_run_def)
next
  case (step_abort ps st now)
  have t: "tables_ok swarm n (st_db st)" using step_abort by (simp add: swarm_safe_def)
  have "swarm_over swarm (st_db st) \<Longrightarrow> swarm_over swarm (abortSwarm swarm now (st_db st))"
    unfolding swarm_over_view abort_view by (rule over_abort)
  then show ?case using safe_db [OF step_abort, of "snd (abort_swarm swarm now st)"] abort_tables [OF t]
    by (simp add: abort_swarm_def op_update_def)
next
  case (step_aggregate st resolve now res st' ps)
  have t: "tables_ok swarm n (st_db st)" using step_aggregate.prems by (simp add: swarm_safe_def)
  have "swarm_over swarm (st_db st') = swarm_over swarm (st_db st)"
    using aggregate_tables [OF step_aggregate(2)] by (simp add: swarm_over_def)
  then show ?case using safe_db [OF step_aggregate.prems, of st'] aggregate_tables [OF step_aggregate(2), of n] t by simp
qed

text \<open>A swarm whose fish have been created and whose launch is about to activate them.\<close>

definition launched :: "int \<Rightarrow> swarm_row \<Rightarrow> sim_state \<Rightarrow> bool" where
  "launched swarm s st =
     (db_reach (st_db st) \<and> swarm_findById swarm (st_db st) = Some s \<and>
      sw_size s = int (length (filter (\<lambda>r. rn_swarm r = swarm) (db_runs (st_db st)))) \<and>
      swarm \<notin> set (st_gate st) \<and> list_all (\<lambda>job. \<not> is_aggregate swarm job) (st_jobs st))"

lemma launched_safe:
  assumes "launched swarm s st"
  shows "swarm_safe swarm (length (filter (\<lambda>r. rn_swarm r = swarm) (db_runs (st_db st)))) ([Counting False s], st)"
proof -
  have ok: "db_ok (st_db st)" using assms by (simp add: launched_def reachable_db_ok)
  have s: "s \<in> set (db_swarms (st_db st))" "sw_id s = swarm"
    using assms by (auto simp: launched_def swarm_findById_def find_Some_iff)
  have "distinct (map sw_id (db_swarms (st_db st)))" using ok by (simp add: db_ok_def serial_distinct)
  then have "s' = s" if "s' \<in> set (db_swarms (st_db st))" "sw_id s' = swarm" for s'
    using that s by (metis inj_onD distinct_map)
  then have "tables_ok swarm (length (filter (\<lambda>r. rn_swarm r = swarm) (db_runs (st_db st)))) (st_db st)"
    using ok assms by (auto simp: tables_ok_def launched_def list_all_iff members_def view_def filter_map comp_def)
  moreover have "aggregates swarm st = 0" using assms by (auto simp: launched_def aggregates_def list_all_iff filter_empty_conv)
  ultimately show ?thesis using assms by (simp add: swarm_safe_def launched_def holds_gate_def)
qed

lemma reach_safe: "swarm_reach env swarm x0 x \<Longrightarrow> swarm_safe swarm n x0 \<Longrightarrow> swarm_safe swarm n x"
  by (induction rule: swarm_reach.induct) (auto intro: safe_step)

section \<open>An abort does not stop the aggregation\<close>

lemma abort_settles:
  "ids_of swarm RunPending (view (abortSwarm swarm now db)) = []" "ids_of swarm RunRunning (view (abortSwarm swarm now db)) = []"
  "ids_of swarm RunPaused (view (abortSwarm swarm now db)) = ids_of swarm RunPaused (view db)"
proof -
  have "ids_of swarm x (map (\<lambda>(i, w, x). (i, w, if w = swarm \<and> x \<in> {RunPending, RunRunning} then RunFailed else x)) v) =
    (if x \<in> {RunPending, RunRunning} then [] else ids_of swarm x v)" if "x \<noteq> RunFailed" for x v
    using that by (induction v) (auto simp: ids_of_def split: if_splits)
  then show "ids_of swarm RunPending (view (abortSwarm swarm now db)) = []"
    "ids_of swarm RunRunning (view (abortSwarm swarm now db)) = []"
    "ids_of swarm RunPaused (view (abortSwarm swarm now db)) = ids_of swarm RunPaused (view db)"
    unfolding abort_view by simp_all
qed

lemma find_after_abort:
  "swarm_findById swarm (abortSwarm swarm now db) =
   map_option (\<lambda>s. s\<lparr>sw_status := SwarmFailed, sw_completedAt := Some now\<rparr>) (swarm_findById swarm db)"
proof -
  have "find (\<lambda>s. sw_id s = swarm) (map (\<lambda>s. if sw_id s = swarm then s\<lparr>sw_status := x, sw_completedAt := y\<rparr> else s) ss) =
    map_option (\<lambda>s. s\<lparr>sw_status := x, sw_completedAt := y\<rparr>) (find (\<lambda>s. sw_id s = swarm) ss)" for ss :: "swarm_row list" and x y
    by (induction ss) simp_all
  then show ?thesis by (simp add: swarm_findById_def abortSwarm_def fail_open_runs_def update_swarm_def)
qed

lemma find_after_close:
  "map_option sw_status (swarm_findById swarm (closeSwarm swarm k now db)) =
   map_option (\<lambda>_. ki_status k) (swarm_findById swarm db)"
proof -
  have "map_option sw_status (find (\<lambda>s. sw_id s = swarm) (map (\<lambda>s. if sw_id s = swarm
      then s\<lparr>sw_status := a, sw_completedAt := b, sw_suggestionId := c s, sw_reportFindingId := d s\<rparr> else s) ss)) =
    map_option (\<lambda>_. a) (find (\<lambda>s. sw_id s = swarm) ss)" for ss :: "swarm_row list" and a b c d
    by (induction ss) simp_all
  then show ?thesis by (simp add: swarm_findById_def closeSwarm_def update_swarm_def)
qed

lemma aborted_complete:
  fixes now :: int
  assumes t: "tables_ok swarm n (st_db st)" and f: "swarm_findById swarm (st_db st) = Some s"
    and z: "count_status swarm RunPaused (st_db st) = 0" and g: "swarm \<notin> set (st_gate st)" and acc: "accepting env"
  defines "db \<equiv> abortSwarm swarm now (st_db st)"
  shows "onFishComplete env swarm (st\<lparr>st_db := db\<rparr>) =
    (Inr True, st\<lparr>st_db := db, st_gate := swarm # st_gate st, st_jobs := st_jobs st @ [aggregate_job swarm]\<rparr>)"
proof -
  let ?st = "st\<lparr>st_db := db\<rparr>" and ?s = "s\<lparr>sw_status := SwarmFailed, sw_completedAt := Some now\<rparr>"
  have found: "swarm_findById swarm (st_db ?st) = Some ?s" by (simp add: db_def find_after_abort f)
  have "pending_of swarm db = []" "running_of swarm db = []" "ids_of swarm RunPaused (view db) = []"
    using z by (simp_all add: pending_of_def running_of_def db_def abort_settles count_status_ids)
  then have "accounted (countFishByStatus swarm db) = length (members swarm (view db))"
    and free: "claim_limit c (countFishByStatus swarm db) = 0" for c
    using accounted_open [of swarm db]
    by (simp_all add: claim_limit_def countFishByStatus_def count_status_ids pending_of_def Let_def)
  moreover have "tables_ok swarm n db" using abort_tables [OF t] by (simp add: db_def)
  moreover have "sw_size s = int n" using t f by (auto simp: tables_ok_def swarm_findById_def find_Some_iff list_all_length)
  ultimately have all: "\<not> int (accounted (countFishByStatus swarm db)) < sw_size s" by (simp add: tables_ok_def)
  have "activatePendingFish env swarm c ?st = (Inr 0, ?st)" for c
    using free by (simp add: activatePendingFish_def op_bind_def op_read_def op_return_def)
  moreover have "account_fish env swarm ?s ?st =
    (Inr True, ?st\<lparr>st_gate := swarm # st_gate st, st_jobs := st_jobs st @ [aggregate_job swarm]\<rparr>)"
    using all g acc by (simp add: account_fish_def op_read_def op_bind_def gate_claim_def enqueue_aggregate_def
        op_enqueue_def refuses_def accepting_def)
  ultimately show ?thesis unfolding onFishComplete_def read_bind found by (simp add: op_bind_def)
qed

lemma aggregate_status:
  assumes "swarm_findById swarm (st_db st) = Some s" "\<And>s ts. resolve s ts = Inr o'" "outcome_snapshot o' = None"
  shows "map_option sw_status (swarm_findById swarm (st_db (snd (processSwarmAggregateJob resolve swarm now st)))) =
    Some (ro_status o')"
proof -
  let ?k = "\<lparr>ki_status = ro_status o', ki_suggestionId = ro_suggestionId o', ki_reportFindingId = ro_reportFindingId o'\<rparr>"
  have "snd (processSwarmAggregateJob resolve swarm now st) = st\<lparr>st_db := closeSwarm swarm ?k now (st_db st)\<rparr>"
    using assms by (simp add: processSwarmAggregateJob_def op_bind_def op_read_def op_lift_def op_then_def op_update_def op_return_def)
  then show ?thesis using assms(1) by (simp add: find_after_close)
qed

section \<open>Properties\<close>

text \<open>C7: However the workers, late turns, aborts and the aggregate worker interleave, and whatever jobs
  the queue refuses, a launched swarm has at most one aggregate job at any time, and once it is out
  every fish of the swarm is done, failed or timed out.\<close>

theorem aggregate_once_after_all_fish:
  assumes "launched swarm s st0" and "swarm_reach env swarm ([Counting False s], st0) (ps, st)"
  shows "length (filter (is_aggregate swarm) (st_jobs st)) \<le> 1 \<and>
    (aggregate_job swarm \<in> set (st_jobs st) \<longrightarrow> swarm_over swarm (st_db st))"
proof -
  obtain n where safe: "swarm_safe swarm n (ps, st)"
    using reach_safe [OF assms(2) launched_safe [OF assms(1)]] by blast
  have "swarm_over swarm (st_db st)" if "aggregate_job swarm \<in> set (st_jobs st)"
  proof -
    have "aggregate_job swarm \<in> set (filter (is_aggregate swarm) (st_jobs st))" using that by simp
    then have "filter (is_aggregate swarm) (st_jobs st) \<noteq> []" by (metis empty_iff empty_set)
    then have "swarm \<in> set (st_gate st)" using safe by (auto simp: swarm_safe_def aggregates_def split: if_splits)
    then show ?thesis using safe by (simp add: swarm_safe_def)
  qed
  moreover have "length (filter (is_aggregate swarm) (st_jobs st)) \<le> 1"
    using safe by (auto simp: swarm_safe_def aggregates_def split: if_splits)
  ultimately show ?thesis by blast
qed

text \<open>C28: An abort is not final. After \<open>abortSwarm\<close> every fish has failed, so the next worker that
  reports its fish finds the swarm complete, takes the gate and enqueues the aggregate job, and that job
  gives the swarm the status its resolver decides, overwriting the failed status of the abort.\<close>

theorem abort_does_not_stop_aggregation:
  assumes "launched swarm s st0" and "swarm_reach env swarm ([Counting False s], st0) (ps, st)"
    and "swarm_findById swarm (st_db st) = Some s'" and "count_status swarm RunPaused (st_db st) = 0"
    and "swarm \<notin> set (st_gate st)" and "accepting env"
    and "\<And>s ts. resolve s ts = Inr o'" and "outcome_snapshot o' = None"
  shows "let st1 = snd (abort_swarm swarm now st) in
    map_option sw_status (swarm_findById swarm (st_db st1)) = Some SwarmFailed \<and>
    (\<exists>st2. onFishComplete env swarm st1 = (Inr True, st2) \<and> st_jobs st2 = st_jobs st @ [aggregate_job swarm] \<and>
       map_option sw_status (swarm_findById swarm (st_db (snd (processSwarmAggregateJob resolve swarm now' st2)))) =
         Some (ro_status o'))"
proof -
  have t: "tables_ok swarm (length (filter (\<lambda>r. rn_swarm r = swarm) (db_runs (st_db st0)))) (st_db st)"
    using reach_safe [OF assms(2) launched_safe [OF assms(1)]] by (simp add: swarm_safe_def)
  let ?st1 = "st\<lparr>st_db := abortSwarm swarm now (st_db st)\<rparr>"
  have found: "swarm_findById swarm (st_db ?st1) = Some (s'\<lparr>sw_status := SwarmFailed, sw_completedAt := Some now\<rparr>)"
    by (simp add: find_after_abort assms(3))
  have "snd (abort_swarm swarm now st) = ?st1" by (simp add: abort_swarm_def op_update_def)
  then show ?thesis
    using aborted_complete [OF t assms(3-6), of now] found aggregate_status [OF _ assms(7,8)]
    by (simp add: Let_def)
qed

section \<open>Demonstrations\<close>

text \<open>A swarm of six fish, two at a time.\<close>

definition crowd_write :: swarm_write where
  "crowd_write = demo_swarm_write\<lparr>xw_size := 6, xw_config := lo_config (demo_launch 0)\<rparr>"

fun crowd_db :: "nat \<Rightarrow> sim_db" where
  "crowd_db 0 = snd (swarm_insert crowd_write empty_db)"
| "crowd_db (Suc n) =
     (case run_insert (demo_run_write (int n)) (crowd_db n) of Inr (_, db) \<Rightarrow> db | Inl _ \<Rightarrow> crowd_db n)"

definition crowd :: sim_state where
  "crowd = \<lparr>st_db = crowd_db 6, st_gate = [], st_jobs = []\<rparr>"

definition crowd_row :: swarm_row where
  "crowd_row = the (swarm_findById 1 (st_db crowd))"

lemma crowd_db_reach: "db_reach (crowd_db n)"
proof (induction n)
  case (Suc n)
  then show ?case by (cases "run_insert (demo_run_write (int n)) (crowd_db n)") (auto intro: reach_run)
qed (simp add: reach_swarm reach_empty)

lemma crowd_launched: "launched 1 crowd_row crowd"
proof -
  have "swarm_findById 1 (st_db crowd) = Some crowd_row" "sw_size crowd_row = 6"
    "length (filter (\<lambda>r. rn_swarm r = 1) (db_runs (st_db crowd))) = 6" by code_simp+
  moreover have "st_gate crowd = []" "st_jobs crowd = []" by (simp_all add: crowd_def)
  moreover have "db_reach (st_db crowd)" using crowd_db_reach by (simp add: crowd_def)
  ultimately show ?thesis by (simp add: launched_def)
qed

text \<open>Both of the first two fish finish, and each worker counts before the other has claimed.\<close>

definition two_workers :: "move list" where
  "two_workers =
     [Advance 0, Advance 0, Advance 0, Advance 0, Advance 0,
      Stop 1 RunDone 5, Stop 2 RunDone 5, Advance 1, Advance 2, Advance 1, Advance 2,
      Advance 1, Advance 2, Advance 1, Advance 2]"

lemma two_workers_run:
  "map_option (\<lambda>(ps, st). (count_status 1 RunRunning (st_db st), count_status 1 RunDone (st_db st)))
     (exec_moves demo_swarm_env 1 two_workers ([Counting False crowd_row], crowd)) = Some (4, 2)"
  by code_simp

text \<open>The bound on running fish does not survive interleaving. From the launch of a swarm of six fish
  with a concurrency of two the machine reaches a state with four fish running: two workers count the
  running fish before either of them claims.\<close>

theorem overlapping_activations_exceed_concurrency:
  "\<exists>ps st. swarm_reach demo_swarm_env 1 ([Counting False crowd_row], crowd) (ps, st) \<and>
     fish_concurrency (sw_config crowd_row) = 2 \<and> count_status 1 RunRunning (st_db st) = 4"
proof -
  obtain ps st where run: "exec_moves demo_swarm_env 1 two_workers ([Counting False crowd_row], crowd) = Some (ps, st)"
    and four: "count_status 1 RunRunning (st_db st) = 4"
    using two_workers_run by (auto split: prod.splits)
  have "fish_concurrency (sw_config crowd_row) = 2" by code_simp
  then show ?thesis using four exec_moves_reach [OF run reach_start] by blast
qed

text \<open>Two fish are running when the swarm is aborted; the first worker to notice completes it.\<close>

definition first_two :: "move list" where
  "first_two = replicate 5 (Advance 0)"

definition notice_abort :: "move list" where
  "notice_abort = Skip 1 # replicate 5 (Advance 1)"

lemma abort_run:
  "map_option (\<lambda>(ps, st). (count_status 1 RunRunning (st_db st), count_status 1 RunPaused (st_db st), st_gate st,
      map_option sw_size (swarm_findById 1 (st_db st)),
      map_option (\<lambda>(ps, st). st_jobs st) (exec_moves demo_swarm_env 1 notice_abort (ps, snd (abort_swarm 1 9 st)))))
     (exec_moves demo_swarm_env 1 first_two ([Counting False crowd_row], crowd)) =
   Some (2, 0, [], Some 6, Some [fish_job 1 (1, 0), fish_job 1 (2, 1), aggregate_job 1])"
  by code_simp

lemma abort_states:
  obtains ps st ps' st' where
    "swarm_reach demo_swarm_env 1 ([Counting False crowd_row], crowd) (ps, st)"
    "swarm_reach demo_swarm_env 1 ([Counting False crowd_row], crowd) (ps', st')"
    "count_status 1 RunPaused (st_db st) = 0" "1 \<notin> set (st_gate st)" "\<exists>s. swarm_findById 1 (st_db st) = Some s"
    "aggregate_job 1 \<in> set (st_jobs st')"
proof -
  obtain ps st ps' st' where a: "exec_moves demo_swarm_env 1 first_two ([Counting False crowd_row], crowd) = Some (ps, st)"
    and b: "exec_moves demo_swarm_env 1 notice_abort (ps, snd (abort_swarm 1 9 st)) = Some (ps', st')"
    and c: "count_status 1 RunPaused (st_db st) = 0" "st_gate st = []" "\<exists>s. swarm_findById 1 (st_db st) = Some s"
      "aggregate_job 1 \<in> set (st_jobs st')"
    using abort_run by (auto split: prod.splits)
  have r: "swarm_reach demo_swarm_env 1 ([Counting False crowd_row], crowd) (ps, st)"
    by (rule exec_moves_reach [OF a reach_start])
  have "swarm_reach demo_swarm_env 1 ([Counting False crowd_row], crowd) (ps', st')"
    by (rule exec_moves_reach [OF b reach_step [OF r step_abort]])
  then show thesis using that r c by simp
qed

theorem aggregate_once_after_all_fish_witness:
  "\<exists>ps st. swarm_reach demo_swarm_env 1 ([Counting False crowd_row], crowd) (ps, st) \<and>
     aggregate_job 1 \<in> set (st_jobs st) \<and> swarm_over 1 (st_db st)"
proof -
  obtain ps st where r: "swarm_reach demo_swarm_env 1 ([Counting False crowd_row], crowd) (ps, st)"
    "aggregate_job 1 \<in> set (st_jobs st)" by (rule abort_states) blast
  then show ?thesis using aggregate_once_after_all_fish [OF crowd_launched r(1)] by blast
qed

definition all_is_well :: resolved_outcome where
  "all_is_well = \<lparr>ro_status = SwarmDone, ro_snapshotKey = None, ro_snapshot = None, ro_suggestionId = None,
     ro_reportFindingId = None\<rparr>"

theorem abort_does_not_stop_aggregation_witness:
  "\<exists>ps st st2. swarm_reach demo_swarm_env 1 ([Counting False crowd_row], crowd) (ps, st) \<and>
     onFishComplete demo_swarm_env 1 (snd (abort_swarm 1 9 st)) = (Inr True, st2) \<and>
     map_option sw_status (swarm_findById 1 (st_db (snd (processSwarmAggregateJob (\<lambda>_ _. Inr all_is_well) 1 11 st2)))) =
       Some SwarmDone"
proof -
  obtain ps st s where r: "swarm_reach demo_swarm_env 1 ([Counting False crowd_row], crowd) (ps, st)"
    "count_status 1 RunPaused (st_db st) = 0" "1 \<notin> set (st_gate st)" "swarm_findById 1 (st_db st) = Some s"
    by (rule abort_states) blast
  have none: "outcome_snapshot all_is_well = None" by (simp add: all_is_well_def outcome_snapshot_def)
  show ?thesis
    using r(1) abort_does_not_stop_aggregation [OF crowd_launched r(1,4,2,3) demo_accepting refl none, of 9 11]
    by (simp add: Let_def all_is_well_def) blast
qed

end
