(* ===== verification/SwarmContract.thy ===== *)
theory SwarmContract
  imports SwarmMachine
begin

text \<open>
  What a swarm owes its callers, stated without its processes and tables, and that the interleaved
  workers of \<open>SwarmMachine\<close> keep it: \<open>duty_of\<close> reads the contract's state off the run table and the
  queue, \<open>duty_machine_step\<close> is the simulation, and \<open>swarm_live\<close> is the invariant that no swarm is left
  behind. It says who answers for a running fish, who will look for pending ones and who will count.
\<close>

section \<open>What a swarm owes its callers\<close>

text \<open>
  The contract, without processes, tables or queue: which fish are still open, and how often the
  aggregation has been asked for. Fish end, alone or several at a time, and do not come back; when
  none is open the aggregation is asked for, once.
\<close>

record swarm_duty =
  du_open :: "int set"
  du_asked :: nat

inductive duty_step :: "swarm_duty \<Rightarrow> swarm_duty \<Rightarrow> bool" where
  fish_end: "F \<noteq> {} \<Longrightarrow> F \<subseteq> du_open d \<Longrightarrow> duty_step d (d\<lparr>du_open := du_open d - F\<rparr>)"
| ask: "du_open d = {} \<Longrightarrow> du_asked d = 0 \<Longrightarrow> duty_step d (d\<lparr>du_asked := 1\<rparr>)"

definition duty_done :: "swarm_duty \<Rightarrow> bool" where
  "duty_done d = (du_open d = {} \<and> du_asked d = 1)"

definition open_run_ids :: "int \<Rightarrow> sim_db \<Rightarrow> int set" where
  "open_run_ids swarm db = rn_id ` set (filter (\<lambda>r. rn_swarm r = swarm \<and> \<not> terminal_status (rn_status r)) (db_runs db))"

definition duty_of :: "int \<Rightarrow> swarm_sys \<Rightarrow> swarm_duty" where
  "duty_of swarm x = \<lparr>du_open = open_run_ids swarm (st_db (snd x)), du_asked = aggregates swarm (snd x)\<rparr>"

definition open_view :: "int \<Rightarrow> run_view \<Rightarrow> int set" where
  "open_view swarm v = {i. \<exists>s. (i, swarm, s) \<in> set v \<and> \<not> terminal_status s}"

lemma open_ids_view: "open_run_ids swarm db = open_view swarm (view db)"
  by (force simp: open_run_ids_def open_view_def view_def)

lemma open_mark_terminal: "terminal_status s \<Longrightarrow> open_view swarm (mark I s v) = open_view swarm v - I"
  by (auto simp: open_view_def mark_iff split: if_splits)

lemma open_mark_running:
  assumes "I \<subseteq> set (ids_of swarm RunPending v)"
  shows "open_view swarm (mark I RunRunning v) = open_view swarm v"
proof -
  have "(\<exists>y. (i, swarm, y) \<in> set v \<and> \<not> terminal_status (if i \<in> I then RunRunning else y)) \<longleftrightarrow>
      (\<exists>y. (i, swarm, y) \<in> set v \<and> \<not> terminal_status y)" for i
  proof (cases "i \<in> I")
    case True
    then have "(i, swarm, RunPending) \<in> set v" using assms by (auto simp: ids_of_iff)
    moreover have "\<not> terminal_status RunPending" "\<not> terminal_status RunRunning" by (simp_all add: terminal_status_def)
    ultimately show ?thesis using True by (simp only: if_True simp_thms) blast
  qed simp
  moreover have "(\<exists>s. (i, swarm, s) \<in> set (mark I RunRunning v) \<and> \<not> terminal_status s) \<longleftrightarrow>
      (\<exists>y. (i, swarm, y) \<in> set v \<and> \<not> terminal_status (if i \<in> I then RunRunning else y))" for i
    by (simp only: mark_iff) blast
  ultimately show ?thesis by (simp add: open_view_def)
qed

lemma open_abort:
  "open_view swarm (map (\<lambda>(i, w, x). (i, w, if w = swarm \<and> x \<in> {RunPending, RunRunning} then RunFailed else x)) v) \<subseteq>
   open_view swarm v"
  by (auto simp: open_view_def terminal_status_def split: if_splits)

lemma over_open: "swarm_over swarm db \<Longrightarrow> open_run_ids swarm db = {}"
  by (auto simp: swarm_over_view over_view_def open_ids_view open_view_def)

lemma duty_shrinks:
  assumes "open_run_ids swarm (st_db st') \<subseteq> open_run_ids swarm (st_db st)" "aggregates swarm st' = aggregates swarm st"
  shows "duty_of swarm (ps, st) = duty_of swarm (ps', st') \<or> duty_step (duty_of swarm (ps, st)) (duty_of swarm (ps', st'))"
proof -
  let ?F = "open_run_ids swarm (st_db st) - open_run_ids swarm (st_db st')"
  have "duty_of swarm (ps', st') = (duty_of swarm (ps, st))\<lparr>du_open := du_open (duty_of swarm (ps, st)) - ?F\<rparr>"
    using assms by (auto simp: duty_of_def)
  then show ?thesis using fish_end [of ?F "duty_of swarm (ps, st)"] by (cases "?F = {}") (auto simp: duty_of_def)
qed

lemma duty_advance:
  assumes safe: "swarm_safe swarm n (ps, st)" and k: "k < length ps"
    and adv: "advance env swarm (ps ! k) st = (p, spawned, st')"
  shows "duty_of swarm (ps, st) = duty_of swarm (ps', st') \<or> duty_step (duty_of swarm (ps, st)) (duty_of swarm (ps', st'))"
proof -
  have ok: "db_ok (st_db st)" using safe by (simp add: swarm_safe_def tables_ok_def)
  have size: "phase_ok n (ps ! k)" using safe k by (simp add: swarm_safe_def list_all_length)
  show ?thesis
  proof (cases "ps ! k")
    case (Closing run s now)
    then have s: "terminal_status s" and st': "st' = st\<lparr>st_db := updateStatus run s (Some (Some now)) (st_db st)\<rparr>"
      using size adv close_run_effect [of s run now st] by auto
    show ?thesis by (rule duty_shrinks) (auto simp: st' open_ids_view view_updateStatus open_mark_terminal [OF s] aggregates_def)
  next
    case (Claiming b s limit)
    obtain claimed db' where c: "claimPendingFishForSwarm swarm limit (st_db st) = (claimed, db')" by (metis surj_pair)
    obtain I where "I \<subseteq> set (ids_of swarm RunPending (view (st_db st)))" "view db' = mark I RunRunning (view (st_db st))"
      using claim_any [OF ok c] by blast
    moreover have "st' = st\<lparr>st_db := db'\<rparr>" using adv c Claiming by simp
    ultimately show ?thesis by (intro duty_shrinks) (simp_all add: open_ids_view open_mark_running aggregates_def)
  next
    case Submitting
    have "open_run_ids swarm (st_db st) = {}" using safe_over [OF safe nth_mem [OF k]] Submitting over_open by (simp add: holds_gate_def)
    moreover have "aggregates swarm st = 0" using safe_holds [OF safe k] Submitting by (simp add: holds_gate_def)
    moreover have "st' = st \<or> st' = st\<lparr>st_jobs := st_jobs st @ [aggregate_job swarm]\<rparr>"
      using adv Submitting by (auto split: option.splits)
    ultimately show ?thesis using ask [of "duty_of swarm (ps, st)"] by (auto simp: duty_of_def aggregates_def)
  next
    case (Enqueueing b s fs)
    then have "st_db st' = st_db st \<and> aggregates swarm st' = aggregates swarm st"
      using adv by (cases fs) (auto simp: aggregates_def split: option.splits)
    then show ?thesis by (intro duty_shrinks) simp_all
  next
    case (Counting b s)
    then show ?thesis using adv by (intro duty_shrinks) (auto simp: Let_def)
  qed (use adv in \<open>intro duty_shrinks; force simp: aggregates_def split: option.splits if_splits\<close>)+
qed

lemma duty_move:
  assumes safe: "swarm_safe swarm n x" and m: "exec_move env swarm m x = Some y"
  shows "duty_of swarm x = duty_of swarm y \<or> duty_step (duty_of swarm x) (duty_of swarm y)"
proof -
  obtain ps st where x: "x = (ps, st)" by (cases x)
  show ?thesis
  proof (cases m)
    case (Advance k)
    obtain p spawned st' where a: "advance env swarm (ps ! k) st = (p, spawned, st')" by (metis prod_cases3)
    have "k < length ps" "y = (ps[k := p] @ spawned, st')" using m x a Advance by (auto simp: exec_move_def split: if_splits)
    then show ?thesis using duty_advance [OF safe [unfolded x] _ a] x by simp
  qed (use m x in \<open>auto simp: exec_move_def duty_of_def split: if_splits phase.splits\<close>)
qed

lemma duty_machine_step:
  assumes safe: "swarm_safe swarm n x" and s: "swarm_step env swarm x y"
  shows "duty_of swarm x = duty_of swarm y \<or> duty_step (duty_of swarm x) (duty_of swarm y)"
  using s
proof cases
  case (step_move m)
  then show ?thesis using duty_move [OF safe] by blast
next
  case (step_turn run st driver turn now res st' ps)
  have o: "only_run run st st'" by (rule play_turn_only [OF step_turn(4)])
  then have "open_run_ids swarm (st_db st') \<subseteq> open_run_ids swarm (st_db st)"
    by (auto simp: only_run_def open_ids_view open_mark_terminal)
  then show ?thesis unfolding step_turn(1,2) using o by (intro duty_shrinks) (simp_all add: only_run_def aggregates_def)
next
  case (step_abort ps st now)
  have "open_run_ids swarm (st_db (snd (abort_swarm swarm now st))) \<subseteq> open_run_ids swarm (st_db st)"
    using open_abort by (simp add: abort_swarm_def op_update_def open_ids_view abort_view)
  then show ?thesis unfolding step_abort by (intro duty_shrinks) (simp_all add: abort_swarm_def op_update_def aggregates_def)
next
  case (step_aggregate st resolve now res st' ps)
  note t = aggregate_tables [OF step_aggregate(4), of 0]
  show ?thesis unfolding step_aggregate(1,2)
    by (rule duty_shrinks) (use t in \<open>simp_all add: open_run_ids_def aggregates_def\<close>)
qed

section \<open>No swarm is left behind\<close>

text \<open>Processes that will look for pending fish, that will count the ended fish, and that answer for a running fish.\<close>

fun will_claim :: "phase \<Rightarrow> bool" where
  "will_claim (Playing run) = True"
| "will_claim (Closing run s now) = True"
| "will_claim Loading = True"
| "will_claim (Counting b s) = True"
| "will_claim (Claiming b s limit) = (1 \<le> limit)"
| "will_claim (Enqueueing b s fs) = (fs \<noteq> [])"
| "will_claim _ = False"

fun will_account :: "phase \<Rightarrow> bool" where
  "will_account (Counting b s) = b"
| "will_account (Claiming b s limit) = b"
| "will_account (Enqueueing b s fs) = (b \<or> fs \<noteq> [])"
| "will_account p = (p \<notin> {Submitting, Releasing, Finished})"

fun answers_for :: "int \<Rightarrow> phase \<Rightarrow> bool" where
  "answers_for run (Playing r) = (r = run)"
| "answers_for run (Closing r s now) = (r = run)"
| "answers_for run (Enqueueing b s fs) = (run \<in> fst ` set fs)"
| "answers_for run _ = False"

lemma answers_work: "answers_for run p \<Longrightarrow> will_claim p \<and> will_account p"
  by (cases p) auto

fun phase_room :: "phase \<Rightarrow> bool" where
  "phase_room (Counting b s) = (1 \<le> fish_concurrency (sw_config s))"
| "phase_room (Claiming b s l) = (1 \<le> fish_concurrency (sw_config s))"
| "phase_room (Enqueueing b s fs) = (1 \<le> fish_concurrency (sw_config s))"
| "phase_room p = (p \<noteq> Releasing)"

definition row_room :: "int \<Rightarrow> sim_db \<Rightarrow> bool" where
  "row_room swarm db =
     (ids_of swarm RunPaused (view db) = [] \<and>
      (\<exists>s. swarm_findById swarm db = Some s \<and> 1 \<le> fish_concurrency (sw_config s)))"

definition aborted :: "int \<Rightarrow> sim_db \<Rightarrow> bool" where
  "aborted swarm db = (map_option sw_status (swarm_findById swarm db) = Some SwarmFailed)"

definition unasked :: "int \<Rightarrow> sim_state \<Rightarrow> bool" where
  "unasked swarm st = (swarm \<notin> set (st_gate st) \<and> \<not> aborted swarm (st_db st))"

definition swarm_live :: "int \<Rightarrow> swarm_sys \<Rightarrow> bool" where
  "swarm_live swarm x =
     (case x of (ps, st) \<Rightarrow>
        row_room swarm (st_db st) \<and> list_all phase_room ps \<and>
        (\<forall>run \<in> set (running_of swarm (st_db st)). list_ex (answers_for run) ps) \<and>
        (pending_of swarm (st_db st) \<noteq> [] \<longrightarrow> list_ex will_claim ps) \<and>
        (unasked swarm st \<longrightarrow> pending_of swarm (st_db st) \<noteq> [] \<or> list_ex will_account ps))"

lemma list_ex_update:
  "k < length ps \<Longrightarrow> list_ex P ps \<Longrightarrow> \<not> P (ps ! k) \<or> P p \<or> list_ex P started \<Longrightarrow> list_ex P (ps[k := p] @ started)"
proof -
  assume k: "k < length ps" "list_ex P ps" and alt: "\<not> P (ps ! k) \<or> P p \<or> list_ex P started"
  from alt consider "\<not> P (ps ! k)" | "P p" | "list_ex P started" by blast
  then show ?thesis
  proof cases
    case 1
    from k obtain j where j: "j < length ps" "P (ps ! j)" by (auto simp: list_ex_length)
    with 1 have "ps[k := p] ! j = ps ! j" by (metis nth_list_update_neq)
    with j show ?thesis by (auto simp: list_ex_length nth_append intro!: exI [of _ j])
  next
    case 2
    with k(1) show ?thesis by (auto simp: list_ex_iff intro!: bexI [of _ p] set_update_memI)
  qed simp
qed

text \<open>One call of a process keeps the obligations, when the process or what it starts takes over its own.\<close>

lemma live_update:
  assumes live: "swarm_live swarm (ps, st)" and k: "k < length ps"
    and room: "row_room swarm (st_db st')" "phase_room p" "list_all phase_room started"
    and runs: "\<And>run. run \<in> set (running_of swarm (st_db st')) \<Longrightarrow>
      run \<in> set (running_of swarm (st_db st)) \<and> \<not> answers_for run (ps ! k) \<or> answers_for run p \<or> list_ex (answers_for run) started"
    and claims: "pending_of swarm (st_db st') \<noteq> [] \<Longrightarrow>
      pending_of swarm (st_db st) \<noteq> [] \<and> \<not> will_claim (ps ! k) \<or> will_claim p \<or> list_ex will_claim started \<or>
      (\<exists>run \<in> set (running_of swarm (st_db st)). \<not> answers_for run (ps ! k))"
    and asks: "unasked swarm st' \<Longrightarrow>
      unasked swarm st \<and> \<not> will_account (ps ! k) \<and> pending_of swarm (st_db st') = pending_of swarm (st_db st) \<or>
      pending_of swarm (st_db st') \<noteq> [] \<or> will_account p \<or> list_ex will_account started \<or>
      (\<exists>run \<in> set (running_of swarm (st_db st)). \<not> answers_for run (ps ! k))"
  shows "swarm_live swarm (ps[k := p] @ started, st')"
proof -
  have rest: "list_all phase_room (ps[k := p] @ started)"
    using live room by (auto simp: swarm_live_def list_all_iff dest: set_update_subset_insert [THEN subsetD])
  have answered: "list_ex (answers_for run) ps" if "run \<in> set (running_of swarm (st_db st))" for run
    using live that by (simp add: swarm_live_def)
  have new: "list_ex P (ps[k := p] @ started)" if "P p \<or> list_ex P started" for P
    using that k by (auto simp: list_ex_iff intro: set_update_memI)
  have other: "list_ex P (ps[k := p] @ started)"
    if r: "run \<in> set (running_of swarm (st_db st))" "\<not> answers_for run (ps ! k)" and P: "\<And>p. answers_for run p \<Longrightarrow> P p" for run P
    using list_ex_update [OF k answered [OF r(1)], of p started] r(2) P by (auto simp: list_ex_iff)
  have 1: "list_ex (answers_for run) (ps[k := p] @ started)" if "run \<in> set (running_of swarm (st_db st'))" for run
    using runs [OF that] new [of "answers_for run"] other [of run "answers_for run"] by blast
  have 2: "list_ex will_claim (ps[k := p] @ started)" if p': "pending_of swarm (st_db st') \<noteq> []"
  proof -
    have "pending_of swarm (st_db st) \<noteq> [] \<Longrightarrow> list_ex will_claim ps" using live by (simp add: swarm_live_def)
    then show ?thesis
      using claims [OF p'] new [of will_claim] other [of _ will_claim] list_ex_update [OF k, of will_claim p started] answers_work
      by blast
  qed
  have 3: "pending_of swarm (st_db st') \<noteq> [] \<or> list_ex will_account (ps[k := p] @ started)" if u: "unasked swarm st'"
  proof -
    have "unasked swarm st \<Longrightarrow> pending_of swarm (st_db st) = [] \<Longrightarrow> list_ex will_account ps" using live by (simp add: swarm_live_def)
    then show ?thesis
      using asks [OF u] new [of will_account] other [of _ will_account] list_ex_update [OF k, of will_account p started] answers_work
      by metis
  qed
  show ?thesis using rest room(1) 1 2 3 by (simp add: swarm_live_def)
qed


lemma room_mark:
  assumes "row_room swarm db" "view db' = mark I s (view db)" "db_swarms db' = db_swarms db" "s \<noteq> RunPaused"
  shows "row_room swarm db'"
proof -
  have "set (ids_of swarm RunPaused (view db')) = {}" using assms by (simp add: ids_of_mark row_room_def)
  then show ?thesis using assms by (simp add: row_room_def swarm_findById_def)
qed

lemma full_means_running:
  assumes "claim_limit c (countFishByStatus swarm db) = 0" "1 \<le> fish_concurrency c" "pending_of swarm db \<noteq> []"
  shows "running_of swarm db \<noteq> []"
proof
  assume "running_of swarm db = []"
  moreover have "0 < length (pending_of swarm db)" using assms(3) by simp
  ultimately show False using assms(1,2)
    by (auto simp: claim_limit_def countFishByStatus_def count_status_ids running_of_def pending_of_def Let_def
        min_def split: if_splits)
qed

lemma claim_limit_pos: "claim_limit c (countFishByStatus swarm db) \<noteq> 0 \<Longrightarrow> 1 \<le> claim_limit c (countFishByStatus swarm db)"
  using claim_limit_free(2) [of c swarm db] by linarith

lemma uncounted_means_open:
  assumes t: "tables_ok swarm n db" and pz: "ids_of swarm RunPaused (view db) = []"
    and less: "int (accounted (countFishByStatus swarm db)) < int n"
  shows "pending_of swarm db \<noteq> [] \<or> running_of swarm db \<noteq> []"
  using accounted_open [OF pz] t less by (auto simp: tables_ok_def)

text \<open>What a claim does, whatever its limit.\<close>

lemma claimed_runs:
  assumes ok: "db_ok db" and c: "claimPendingFishForSwarm swarm limit db = (claimed, db')"
  shows "set (running_of swarm db') \<subseteq> set (running_of swarm db) \<union> fst ` set claimed"
    "1 \<le> limit \<Longrightarrow> pending_of swarm db' \<noteq> [] \<Longrightarrow> claimed \<noteq> []"
    "1 \<le> limit \<Longrightarrow> claimed = [] \<Longrightarrow> pending_of swarm db' = pending_of swarm db"
    "limit < 1 \<Longrightarrow> db' = db \<and> claimed = []"
proof -
  let ?picked = "pick_pending swarm (nat limit) db"
  show none: "limit < 1 \<Longrightarrow> db' = db \<and> claimed = []" using c by (simp add: claimPendingFishForSwarm_def)
  have cl: "claimed = map (\<lambda>r. (rn_id r, rn_fish r)) ?picked"
    and db': "db' = db\<lparr>db_runs := map (\<lambda>r. if rn_id r \<in> set (map rn_id ?picked) then r\<lparr>rn_status := RunRunning\<rparr> else r) (db_runs db)\<rparr>"
    if "1 \<le> limit" using c that by (auto simp: claimPendingFishForSwarm_def Let_def)
  have v: "view db' = mark (fst ` set claimed) RunRunning (view db)" if "1 \<le> limit"
    unfolding db' [OF that] cl [OF that] by (simp add: view_def mark_def comp_def if_distrib image_image)
  show "set (running_of swarm db') \<subseteq> set (running_of swarm db) \<union> fst ` set claimed"
    using none v by (cases "limit < 1") (auto simp: running_of_def ids_of_mark)
  show same: "pending_of swarm db' = pending_of swarm db" if "1 \<le> limit" "claimed = []"
    using v [OF that(1)] that(2) by (simp add: pending_of_def)
  show "claimed \<noteq> []" if l: "1 \<le> limit" and p: "pending_of swarm db' \<noteq> []"
  proof
    assume e: "claimed = []"
    have "pending_of swarm db = map rn_id (filter (\<lambda>r. rn_swarm r = swarm \<and> rn_status r = RunPending) (db_runs db))"
      by (simp add: pending_of_def ids_of_def view_def filter_map comp_def)
    then have "filter (\<lambda>r. rn_swarm r = swarm \<and> rn_status r = RunPending) (db_runs db) \<noteq> []" using same [OF l e] p by auto
    then have "sort_key rn_fish (filter (\<lambda>r. rn_swarm r = swarm \<and> rn_status r = RunPending) (db_runs db)) \<noteq> []"
      by (metis length_sort length_0_conv)
    then show False using e cl [OF l] l by (simp add: pick_pending_def take_eq_Nil)
  qed
qed


lemma live_advance:
  assumes live: "swarm_live swarm (ps, st)" and safe: "swarm_safe swarm n (ps, st)" and acc: "accepting env" and k: "k < length ps"
    and adv: "advance env swarm (ps ! k) st = (p, spawned, st')"
  shows "swarm_live swarm (ps[k := p] @ spawned, st')"
proof -
  have t: "tables_ok swarm n (st_db st)" using safe by (simp add: swarm_safe_def)
  then have ok: "db_ok (st_db st)" by (simp add: tables_ok_def)
  have size: "phase_ok n (ps ! k)" using safe k by (simp add: swarm_safe_def list_all_length)
  have room: "row_room swarm (st_db st)" "phase_room (ps ! k)" using live k by (simp_all add: swarm_live_def list_all_length)
  have yes: "refuses env j = None" for j using acc by (simp add: accepting_def refuses_def)
  note update = live_update [OF live k]
  show ?thesis
  proof (cases "ps ! k")
    case (Playing run)
    then have "p = ps ! k" "spawned = []" "st' = st" using adv by simp_all
    then show ?thesis using live by simp
  next
    case Finished
    then have "p = ps ! k" "spawned = []" "st' = st" using adv by simp_all
    then show ?thesis using live by simp
  next
    case Releasing
    then show ?thesis using room by simp
  next
    case (Closing run s now)
    then have s: "terminal_status s" "s \<noteq> RunPaused" "s \<noteq> RunRunning" "s \<noteq> RunPending" using size by (auto simp: terminal_status_def)
    have p: "p = Loading" "spawned = []" "st' = st\<lparr>st_db := updateStatus run s (Some (Some now)) (st_db st)\<rparr>"
      using adv Closing close_run_effect [OF s(1), of run now st] by auto
    have v: "view (st_db st') = mark {run} s (view (st_db st))" by (simp add: p(3) view_updateStatus)
    have "row_room swarm (st_db st')"
      by (rule room_mark [OF room(1) v _ s(2)]) (simp add: p(3) updateStatus_def)
    moreover have "set (running_of swarm (st_db st')) = set (running_of swarm (st_db st)) - {run}"
      using s by (simp add: running_of_def v ids_of_mark)
    ultimately show ?thesis unfolding p(1,2) by (intro update) (auto simp: Closing)
  next
    case Loading
    then obtain s where s: "swarm_findById swarm (st_db st) = Some s" "1 \<le> fish_concurrency (sw_config s)"
      using room(1) by (auto simp: row_room_def)
    have p: "p = Counting True s" "spawned = []" "st' = st" using adv Loading s by simp_all
    show ?thesis unfolding p by (intro update) (use s room Loading in auto)
  next
    case (Counting b s)
    then have c: "1 \<le> fish_concurrency (sw_config s)" using room(2) by simp
    have p: "spawned = []" "st' = st" using adv Counting by (simp_all add: Let_def)
    show ?thesis
    proof (cases "claim_limit (sw_config s) (countFishByStatus swarm (st_db st)) = 0")
      case True
      then have pn: "p = activated b s" using adv Counting by (simp add: Let_def)
      have full: "\<exists>run \<in> set (running_of swarm (st_db st)). \<not> answers_for run (ps ! k)" if "pending_of swarm (st_db st) \<noteq> []"
        using full_means_running [OF True c that] Counting by (auto simp: neq_Nil_conv)
      show ?thesis unfolding p by (intro update) (use room(1) full Counting in \<open>auto simp: pn activated_def\<close>)
    next
      case False
      then have pn: "p = Claiming b s (claim_limit (sw_config s) (countFishByStatus swarm (st_db st)))"
        using adv Counting by (auto simp: Let_def)
      show ?thesis unfolding p by (intro update) (use room(1) c claim_limit_pos [OF False] Counting in \<open>auto simp: pn\<close>)
    qed
  next
    case (Claiming b s limit)
    obtain claimed db' where c: "claimPendingFishForSwarm swarm limit (st_db st) = (claimed, db')" by (metis surj_pair)
    have p: "p = Enqueueing b s claimed" "spawned = []" "st' = st\<lparr>st_db := db'\<rparr>" using adv c Claiming by simp_all
    obtain I where I: "view db' = mark I RunRunning (view (st_db st))" "db_swarms db' = db_swarms (st_db st)"
      using claim_any [OF ok c] by blast
    note cl = claimed_runs [OF ok c]
    have "row_room swarm db'" by (rule room_mark [OF room(1) I]) simp
    moreover have "unasked swarm st' = unasked swarm st"
      using I(2) by (simp add: p(3) unasked_def aborted_def swarm_findById_def)
    moreover have "claimed \<noteq> [] \<or> pending_of swarm db' = []" if "1 \<le> limit" using cl(2) that by blast
    moreover have "claimed \<noteq> [] \<or> pending_of swarm db' = pending_of swarm (st_db st)" using cl(3,4) by (cases "limit < 1") auto
    ultimately show ?thesis unfolding p(1,2) by (intro update) (use room(2) cl(1) Claiming p(3) in auto)
  next
    case (Enqueueing b s fs)
    show ?thesis
    proof (cases fs)
      case Nil
      then have p: "p = activated b s" "spawned = []" "st' = st" using adv Enqueueing by simp_all
      show ?thesis unfolding p by (intro update) (use room(1) Enqueueing Nil in \<open>auto simp: activated_def\<close>)
    next
      case (Cons f fs')
      then have p: "p = Enqueueing b s fs'" "spawned = [Playing (fst f)]" "st' = st\<lparr>st_jobs := st_jobs st @ [fish_job swarm f]\<rparr>"
        using adv Enqueueing yes by simp_all
      show ?thesis unfolding p by (intro update) (use room Enqueueing Cons in auto)
    qed
  next
    case (Accounting s)
    then have sz: "sw_size s = int n" using size by simp
    show ?thesis
    proof (cases "int (accounted (countFishByStatus swarm (st_db st))) < sw_size s")
      case True
      then have p: "p = Finished" "spawned = []" "st' = st" using adv Accounting by simp_all
      have "pending_of swarm (st_db st) \<noteq> [] \<or> (\<exists>run \<in> set (running_of swarm (st_db st)). \<not> answers_for run (ps ! k))"
        using uncounted_means_open [OF t _ True [unfolded sz]] room(1) Accounting by (auto simp: row_room_def neq_Nil_conv)
      then show ?thesis unfolding p by (intro update) (use room(1) Accounting in auto)
    next
      case False
      then have p: "p = Gating" "spawned = []" "st' = st" using adv Accounting by simp_all
      show ?thesis unfolding p by (intro update) (use room(1) Accounting in auto)
    qed
  next
    case Gating
    then have p: "spawned = []" "swarm \<in> set (st_gate st')" "st_db st' = st_db st" "p = Finished \<or> p = Submitting"
      using adv by (auto split: if_splits)
    show ?thesis unfolding p(1) by (intro update) (use room(1) Gating p in \<open>auto simp: unasked_def\<close>)
  next
    case Submitting
    then have p: "p = Finished" "spawned = []" "st' = st\<lparr>st_jobs := st_jobs st @ [aggregate_job swarm]\<rparr>"
      using adv yes by simp_all
    have "swarm \<in> set (st_gate st)" using safe_holds [OF safe k] Submitting by (simp add: holds_gate_def)
    then show ?thesis unfolding p by (intro update) (use room(1) Submitting in \<open>auto simp: unasked_def\<close>)
  qed
qed


lemma live_move:
  assumes live: "swarm_live swarm x" and safe: "swarm_safe swarm n x" and acc: "accepting env" and m: "exec_move env swarm m x = Some y"
  shows "swarm_live swarm y"
proof -
  obtain ps st where x: "x = (ps, st)" by (cases x)
  have room: "row_room swarm (st_db st)" and ok: "db_ok (st_db st)" using live safe x by (simp_all add: swarm_live_def swarm_safe_def tables_ok_def)
  show ?thesis
  proof (cases m)
    case (Skip k)
    then obtain run where k: "k < length ps" "ps ! k = Playing run" "y = (ps[k := Loading], st)"
      and off: "map_option rn_status (run_findById run (st_db st)) \<noteq> Some RunRunning"
      using m x by (auto simp: exec_move_def split: if_splits phase.splits)
    have "run \<notin> set (running_of swarm (st_db st))"
    proof
      assume "run \<in> set (running_of swarm (st_db st))"
      then obtain r where "r \<in> set (db_runs (st_db st))" "rn_id r = run" "rn_status r = RunRunning"
        by (auto simp: running_of_def ids_of_iff view_def)
      then have "run_findById run (st_db st) = Some r" using view_find [OF view_distinct [OF ok]] by blast
      then show False using off \<open>rn_status r = RunRunning\<close> by simp
    qed
    then have "swarm_live swarm (ps[k := Loading] @ [], st)"
      by (intro live_update [OF live [unfolded x] k(1)]) (use room k(2) in auto)
    then show ?thesis using k(3) by simp
  next
    case (Stop k s now)
    then obtain run where k: "k < length ps" "ps ! k = Playing run" "y = (ps[k := Closing run s now], st)"
      using m x by (auto simp: exec_move_def split: if_splits phase.splits)
    have "swarm_live swarm (ps[k := Closing run s now] @ [], st)"
      by (intro live_update [OF live [unfolded x] k(1)]) (use room k(2) in auto)
    then show ?thesis using k(3) by simp
  next
    case (Advance k)
    obtain p spawned st' where a: "advance env swarm (ps ! k) st = (p, spawned, st')" by (metis prod_cases3)
    have "k < length ps" "y = (ps[k := p] @ spawned, st')"
      using m x a Advance by (auto simp: exec_move_def split: if_splits)
    then show ?thesis using live_advance [OF live [unfolded x] safe [unfolded x] acc _ a] by simp
  qed
qed

text \<open>Steps of the tables alone: they let pending fish be, or the obligation to ask is void after them.\<close>

lemma live_tables:
  assumes live: "swarm_live swarm (ps, st)" and room: "row_room swarm (st_db st')"
    and runs: "set (running_of swarm (st_db st')) \<subseteq> set (running_of swarm (st_db st))"
    and pend: "set (pending_of swarm (st_db st')) \<subseteq> set (pending_of swarm (st_db st))"
    and asks: "unasked swarm st' \<Longrightarrow> unasked swarm st \<and> set (pending_of swarm (st_db st')) = set (pending_of swarm (st_db st))"
  shows "swarm_live swarm (ps, st')"
proof -
  have empty: "pending_of swarm (st_db st') \<noteq> [] \<Longrightarrow> pending_of swarm (st_db st) \<noteq> []"
    using pend by auto
  have "pending_of swarm (st_db st') \<noteq> [] \<or> list_ex will_account ps" if "unasked swarm st'"
    using asks [OF that] live by (auto simp: swarm_live_def)
  then show ?thesis using live room runs empty by (auto simp: swarm_live_def)
qed

text \<open>The aggregation changes the swarm's row, not the number of fish it may run at once.\<close>

lemma room_row_update:
  assumes "row_room swarm db" "\<And>s. sw_id (f s) = sw_id s \<and> fish_concurrency (sw_config (f s)) = fish_concurrency (sw_config s)"
  shows "row_room swarm (update_swarm f i db)"
proof -
  have "find (\<lambda>s. sw_id s = swarm) (map (\<lambda>s. if sw_id s = i then f s else s) ss) =
    map_option (\<lambda>s. if sw_id s = i then f s else s) (find (\<lambda>s. sw_id s = swarm) ss)" for ss
    using assms(2) by (induction ss) auto
  note found = this [of "db_swarms db"]
  obtain s where s: "find (\<lambda>s. sw_id s = swarm) (db_swarms db) = Some s" "1 \<le> fish_concurrency (sw_config s)"
    using assms(1) by (auto simp: row_room_def swarm_findById_def)
  have "ids_of swarm RunPaused (view (update_swarm f i db)) = []" using assms(1) by (simp add: row_room_def update_swarm_def view_def)
  then show ?thesis using found s assms(2) by (simp add: row_room_def swarm_findById_def update_swarm_def)
qed

lemma aggregate_room:
  assumes "processSwarmAggregateJob resolve swarm now st = (res, st')" and "row_room swarm (st_db st)"
  shows "row_room swarm (st_db st')"
proof -
  have close: "row_room swarm db \<Longrightarrow> row_room swarm (closeSwarm swarm k now db)" for k db
    unfolding closeSwarm_def by (rule room_row_update) simp_all
  have snap: "row_room swarm db'" if "snapshotAggregate swarm q v db = Inr db'" "row_room swarm db" for q v db db'
  proof -
    have "db' = update_swarm (\<lambda>s. s\<lparr>sw_config :=
        (sw_config s)\<lparr>wc_aggregates := AList.update q v (wc_aggregates (sw_config s))\<rparr>\<rparr>) swarm db"
      using that(1) by (simp add: snapshotAggregate_def split: if_splits)
    then show ?thesis using room_row_update [OF that(2)] by (simp add: fish_concurrency_def)
  qed
  consider "st' = st" | k where "st' = st\<lparr>st_db := closeSwarm swarm k now (st_db st)\<rparr>"
    | k q v db' where "snapshotAggregate swarm q v (st_db st) = Inr db'" "st' = st\<lparr>st_db := closeSwarm swarm k now db'\<rparr>"
    using aggregate_effect [OF assms(1)] .
  then show ?thesis by cases (use assms(2) close snap in auto)
qed

lemma live_step:
  assumes live: "swarm_live swarm x" and safe: "swarm_safe swarm n x" and acc: "accepting env" and s: "swarm_step env swarm x y"
  shows "swarm_live swarm y"
  using s
proof cases
  case (step_move m)
  then show ?thesis using live_move [OF live safe acc] by blast
next
  case (step_turn run st driver turn now res st' ps)
  have live': "swarm_live swarm (ps, st)" and room: "row_room swarm (st_db st)" using live by (simp_all add: step_turn(1) swarm_live_def)
  have o: "only_run run st st'" by (rule play_turn_only [OF step_turn(4)])
  then consider "view (st_db st') = view (st_db st)" | s where "terminal_status s" "view (st_db st') = mark {run} s (view (st_db st))"
    by (auto simp: only_run_def)
  then show ?thesis
  proof cases
    case 1
    then show ?thesis unfolding step_turn(2)
      by (intro live_tables [OF live']) (use o room in \<open>auto simp: only_run_def row_room_def swarm_findById_def running_of_def pending_of_def unasked_def aborted_def\<close>)
  next
    case (2 s)
    then have s: "s \<noteq> RunPaused" "s \<noteq> RunPending" "s \<noteq> RunRunning" by (auto simp: terminal_status_def)
    have "row_room swarm (st_db st')" by (rule room_mark [OF room 2(2) _ s(1)]) (use o in \<open>simp add: only_run_def\<close>)
    moreover have "set (running_of swarm (st_db st')) \<subseteq> set (running_of swarm (st_db st))"
      "set (pending_of swarm (st_db st')) = set (pending_of swarm (st_db st))"
      using s step_turn(3) by (auto simp: running_of_def pending_of_def 2(2) ids_of_mark)
    moreover have "unasked swarm st' = unasked swarm st"
      using o by (simp add: only_run_def unasked_def aborted_def swarm_findById_def)
    ultimately show ?thesis unfolding step_turn(2) by (intro live_tables [OF live']) auto
  qed
next
  case (step_abort ps st now)
  have live': "swarm_live swarm (ps, st)" and room: "row_room swarm (st_db st)" using live by (simp_all add: step_abort(1) swarm_live_def)
  let ?db = "abortSwarm swarm now (st_db st)"
  have st': "snd (abort_swarm swarm now st) = st\<lparr>st_db := ?db\<rparr>" by (simp add: abort_swarm_def op_update_def)
  obtain s where s: "swarm_findById swarm (st_db st) = Some s" "1 \<le> fish_concurrency (sw_config s)" using room by (auto simp: row_room_def)
  have r: "row_room swarm ?db" using room s by (simp add: row_room_def abort_settles find_after_abort)
  have "aborted swarm ?db" by (simp add: aborted_def find_after_abort s(1))
  then show ?thesis unfolding step_abort(2) st'
    by (intro live_tables [OF live']) (use r in \<open>simp_all add: running_of_def pending_of_def abort_settles unasked_def\<close>)
next
  case (step_aggregate st resolve now res st' ps)
  have live': "swarm_live swarm (ps, st)" and room: "row_room swarm (st_db st)" using live by (simp_all add: step_aggregate(1) swarm_live_def)
  note t = aggregate_tables [OF step_aggregate(4), of 0]
  have "aggregate_job swarm \<in> set (filter (is_aggregate swarm) (st_jobs st))" using step_aggregate(3) by simp
  then have "filter (is_aggregate swarm) (st_jobs st) \<noteq> []" by (metis empty_iff empty_set)
  then have taken: "swarm \<in> set (st_gate st)"
    using safe unfolding step_aggregate(1) by (auto simp: swarm_safe_def aggregates_def split: if_splits)
  have "view (st_db st') = view (st_db st)" using t by (simp add: view_def)
  moreover have "row_room swarm (st_db st')" using aggregate_room [OF step_aggregate(4) room] .
  ultimately show ?thesis unfolding step_aggregate(2)
    by (intro live_tables [OF live']) (use taken t in \<open>simp_all add: running_of_def pending_of_def unasked_def\<close>)
qed


text \<open>A launch of at least one fish, all of them pending, with room for one at a time.\<close>

definition pending_launch :: "int \<Rightarrow> swarm_row \<Rightarrow> sim_state \<Rightarrow> bool" where
  "pending_launch swarm s st =
     (launched swarm s st \<and> 0 < sw_size s \<and> 1 \<le> fish_concurrency (sw_config s) \<and>
      list_all (\<lambda>r. rn_swarm r = swarm \<longrightarrow> rn_status r = RunPending) (db_runs (st_db st)))"

lemma pending_launch_live: "pending_launch swarm s st \<Longrightarrow> swarm_live swarm ([Counting False s], st)"
proof -
  assume l: "pending_launch swarm s st"
  have only: "ids_of swarm x (view (st_db st)) = []" if "x \<noteq> RunPending" for x
    using l that by (auto simp: pending_launch_def ids_of_def view_def filter_empty_conv list_all_iff)
  have "filter (\<lambda>r. rn_swarm r = swarm) (db_runs (st_db st)) \<noteq> []"
    using l by (auto simp: pending_launch_def launched_def)
  then obtain r where "r \<in> set (db_runs (st_db st))" "rn_swarm r = swarm" by (auto simp: filter_empty_conv)
  then have "rn_id r \<in> set (pending_of swarm (st_db st))"
    using l by (auto simp: pending_launch_def pending_of_def ids_of_iff view_def list_all_iff)
  then have "pending_of swarm (st_db st) \<noteq> []" by auto
  moreover have "row_room swarm (st_db st)" using l only by (simp add: row_room_def pending_launch_def launched_def)
  ultimately show ?thesis using l only by (simp add: swarm_live_def pending_launch_def running_of_def)
qed

lemma reach_live:
  "swarm_reach env swarm x0 x \<Longrightarrow> accepting env \<Longrightarrow> swarm_safe swarm n x0 \<Longrightarrow> swarm_live swarm x0 \<Longrightarrow> swarm_live swarm x"
proof (induction rule: swarm_reach.induct)
  case (reach_step x y)
  then show ?case using live_step reach_safe by blast
qed

lemma quiescent_done:
  assumes live: "swarm_live swarm (ps, st)" and safe: "swarm_safe swarm n (ps, st)" and fin: "list_all (\<lambda>p. p = Finished) ps"
  shows "duty_done (duty_of swarm (ps, st)) \<or> aborted swarm (st_db st) \<and> open_run_ids swarm (st_db st) = {}"
proof -
  have idle: "\<not> list_ex P ps" if "\<not> P Finished" for P using fin that by (auto simp: list_all_iff list_ex_iff)
  have "pending_of swarm (st_db st) = []" using live idle [of will_claim] by (auto simp: swarm_live_def)
  moreover have "running_of swarm (st_db st) = []"
    using live idle [of "answers_for run" for run] by (cases "running_of swarm (st_db st)") (auto simp: swarm_live_def)
  moreover have "ids_of swarm RunPaused (view (st_db st)) = []" using live by (simp add: swarm_live_def row_room_def)
  ultimately have closed: "open_run_ids swarm (st_db st) = {}" by (intro over_open settled_over) (simp_all add: settled_def)
  have "swarm \<in> set (st_gate st) \<or> aborted swarm (st_db st)"
    using live idle [of will_account] \<open>pending_of swarm (st_db st) = []\<close> by (auto simp: swarm_live_def unasked_def)
  moreover have "filter holds_gate ps = []" using fin by (auto simp: filter_empty_conv list_all_iff holds_gate_def)
  ultimately show ?thesis using safe closed by (auto simp: duty_done_def duty_of_def swarm_safe_def)
qed

text \<open>C8: The workers keep the contract of a swarm. Seen through its open fish and its aggregate jobs, the
  launch starts with every fish open and nothing asked for; and each step of a worker, of a late turn,
  of an abort or of the aggregation, whatever came before it and whatever the queue refuses, is
  invisible or a step of the contract: fish end and stay ended, and the aggregation is asked for when
  none is open and it has not been asked for before. When the queue accepts every job and the launched
  swarm has at least one fish, all pending, and room to run one, the machine does not stop short of
  the contract's end either: however its workers were interleaved, once all of them have finished no
  fish is open and the aggregation has been asked for, except that a swarm aborted before a worker
  could notice keeps its failed status.\<close>

theorem swarm_keeps_its_contract:
  assumes "launched swarm s st0" and "swarm_reach env swarm ([Counting False s], st0) x"
  shows "duty_of swarm ([Counting False s], st0) = \<lparr>du_open = open_run_ids swarm (st_db st0), du_asked = 0\<rparr> \<and>
    (\<forall>y. swarm_step env swarm x y \<longrightarrow> duty_of swarm x = duty_of swarm y \<or> duty_step (duty_of swarm x) (duty_of swarm y)) \<and>
    (accepting env \<and> pending_launch swarm s st0 \<and> list_all (\<lambda>p. p = Finished) (fst x) \<longrightarrow>
       duty_done (duty_of swarm x) \<or> aborted swarm (st_db (snd x)) \<and> du_open (duty_of swarm x) = {})"
proof -
  note safe0 = launched_safe [OF assms(1)]
  note safe = reach_safe [OF assms(2) safe0]
  have "aggregates swarm st0 = 0" using assms(1) by (auto simp: launched_def aggregates_def list_all_iff filter_empty_conv)
  then have start: "duty_of swarm ([Counting False s], st0) = \<lparr>du_open = open_run_ids swarm (st_db st0), du_asked = 0\<rparr>"
    by (simp add: duty_of_def)
  have complete: "duty_done (duty_of swarm x) \<or> aborted swarm (st_db (snd x)) \<and> du_open (duty_of swarm x) = {}"
    if "accepting env" "pending_launch swarm s st0" "list_all (\<lambda>p. p = Finished) (fst x)"
    using quiescent_done [of swarm "fst x" "snd x"] reach_live [OF assms(2) that(1) safe0 pending_launch_live [OF that(2)]] safe that(3)
    by (simp add: duty_of_def)
  show ?thesis using start duty_machine_step [OF safe] complete by blast
qed

text \<open>The launch and both workers of a small swarm, to their end.\<close>

definition pair_write :: swarm_write where
  "pair_write = crowd_write\<lparr>xw_size := 2\<rparr>"

definition pair :: sim_state where
  "pair = \<lparr>st_db = (case run_insert (demo_run_write 1) (snd (swarm_insert pair_write empty_db)) of
       Inr (_, db) \<Rightarrow> (case run_insert (demo_run_write 2) db of Inr (_, db') \<Rightarrow> db' | Inl _ \<Rightarrow> db) | Inl _ \<Rightarrow> empty_db),
     st_gate = [], st_jobs = []\<rparr>"

definition pair_row :: swarm_row where
  "pair_row = the (swarm_findById 1 (st_db pair))"

definition pair_moves :: "move list" where
  "pair_moves = replicate 5 (Advance 0) @ [Stop 1 RunDone 5, Stop 2 RunFailed 6] @
     concat (replicate 6 [Advance 1, Advance 2])"

lemma pair_run:
  "map_option (\<lambda>(ps, st). (ps, st_gate st, map_option sw_status (swarm_findById 1 (st_db st))))
     (exec_moves demo_swarm_env 1 pair_moves ([Counting False pair_row], pair)) =
   Some ([Finished, Finished, Finished], [1], Some SwarmRunning)"
  by code_simp


lemma pair_pending: "pending_launch 1 pair_row pair"
proof -
  have "swarm_findById 1 (st_db pair) = Some pair_row" "sw_size pair_row = 2" "fish_concurrency (sw_config pair_row) = 2"
    "length (filter (\<lambda>r. rn_swarm r = 1) (db_runs (st_db pair))) = 2"
    "list_all (\<lambda>r. rn_swarm r = 1 \<longrightarrow> rn_status r = RunPending) (db_runs (st_db pair))" by code_simp+
  moreover have "st_gate pair = []" "st_jobs pair = []" by (simp_all add: pair_def)
  moreover have "db_reach (st_db pair)"
  proof -
    let ?db = "snd (swarm_insert pair_write empty_db)"
    have one: "db_reach ?db" by (rule reach_swarm [OF reach_empty])
    have two: "db_reach db'" if "run_insert w db = Inr (i, db')" "db_reach db" for w db i db'
      using reach_run [OF that(2,1)] .
    show ?thesis by (auto simp: pair_def reach_empty split: sum.splits intro: two [OF _ one] dest: two [OF _ two [OF _ one]])
  qed
  ultimately show ?thesis by (simp add: pending_launch_def launched_def)
qed

theorem swarm_keeps_its_contract_witness:
  "\<exists>x. swarm_reach demo_swarm_env 1 ([Counting False pair_row], pair) x \<and>
     duty_of 1 ([Counting False pair_row], pair) = \<lparr>du_open = {1, 2}, du_asked = 0\<rparr> \<and> duty_done (duty_of 1 x)"
proof -
  obtain ps st where run: "exec_moves demo_swarm_env 1 pair_moves ([Counting False pair_row], pair) = Some (ps, st)"
    and fin: "ps = [Finished, Finished, Finished]" "map_option sw_status (swarm_findById 1 (st_db st)) = Some SwarmRunning"
    using pair_run by (auto split: prod.splits)
  have reach: "swarm_reach demo_swarm_env 1 ([Counting False pair_row], pair) (ps, st)"
    by (rule exec_moves_reach [OF run reach_start])
  have launch: "launched 1 pair_row pair" using pair_pending by (simp add: pending_launch_def)
  have "open_run_ids 1 (st_db pair) = {1, 2}" by code_simp
  then show ?thesis
    using swarm_keeps_its_contract [OF launch reach] reach demo_accepting pair_pending fin
    by (intro exI [of _ "(ps, st)"]) (simp add: aborted_def)
qed

end
