(* ===== verification/Transport.thy ===== *)
theory Transport
  imports Cortex
begin

text \<open>
  The chat transport of \<open>packages/thalamus/src/transports/llm-chat.ts\<close>: it walks the providers in
  the order of preference, retries each with exponential backoff and skips Kimi while the circuit
  breaker, which all instances share, is open. A provider is what the transport asks of it; the
  providers themselves (HTTP) are arguments.
\<close>

section \<open>The circuit breaker\<close>

datatype circuit = CircuitClosed | CircuitOpen | CircuitHalfOpen

record breaker =
  bk_failures :: nat
  bk_circuit :: circuit
  bk_openedAt :: "int option"
  bk_probe :: bool

definition fresh_breaker :: breaker where
  "fresh_breaker = \<lparr>bk_failures = 0, bk_circuit = CircuitClosed, bk_openedAt = None, bk_probe = False\<rparr>"

definition CIRCUIT_BREAKER_THRESHOLD :: nat where
  "CIRCUIT_BREAKER_THRESHOLD = 3"

definition KIMI_CIRCUIT_COOLDOWN_MS :: int where
  "KIMI_CIRCUIT_COOLDOWN_MS = 60000"

definition shouldSkipKimi :: "int \<Rightarrow> breaker \<Rightarrow> bool \<times> breaker" where
  "shouldSkipKimi now b =
     (case bk_circuit b of
        CircuitHalfOpen \<Rightarrow> if bk_probe b then (True, b) else (False, b\<lparr>bk_probe := True\<rparr>)
      | CircuitClosed \<Rightarrow> (False, b)
      | CircuitOpen \<Rightarrow>
          (let openedAt = (case bk_openedAt b of None \<Rightarrow> now | Some t \<Rightarrow> t) in
           if KIMI_CIRCUIT_COOLDOWN_MS \<le> now - openedAt
           then (if bk_probe b then (True, b\<lparr>bk_circuit := CircuitHalfOpen\<rparr>)
                 else (False, b\<lparr>bk_circuit := CircuitHalfOpen, bk_probe := True\<rparr>))
           else (True, b)))"

definition recordKimiSuccess :: "breaker \<Rightarrow> breaker" where
  "recordKimiSuccess b =
     b\<lparr>bk_failures := 0, bk_circuit := CircuitClosed, bk_openedAt := None, bk_probe := False\<rparr>"

definition recordKimiFailure :: "int \<Rightarrow> breaker \<Rightarrow> bool \<times> breaker" where
  "recordKimiFailure now b =
     (let n = Suc (bk_failures b) in
      if bk_circuit b = CircuitHalfOpen \<or> CIRCUIT_BREAKER_THRESHOLD \<le> n
      then (True, b\<lparr>bk_failures := n, bk_circuit := CircuitOpen, bk_openedAt := Some now, bk_probe := False\<rparr>)
      else (False, b\<lparr>bk_failures := n\<rparr>))"

section \<open>Providers and retries\<close>

record chat_config =
  tc_systemPrompt :: string
  tc_maxRetries :: "jsnum option"
  tc_enableWebSearch :: bool
  tc_preferred :: "string option"
  tc_overrides :: json_object

record chat_request =
  rq_system :: string
  rq_user :: string
  rq_overrides :: json_object
  rq_webSearch :: bool

text \<open>
  \<open>lp_refresh\<close> is the error of \<open>refreshConfig\<close>, if any; \<open>lp_reply r k\<close> is the answer to attempt
  \<open>k\<close> at request \<open>r\<close>.
\<close>

record chat_provider =
  lp_name :: string
  lp_refresh :: "exn option"
  lp_enabled :: bool
  lp_reply :: "chat_request \<Rightarrow> nat \<Rightarrow> string throws"

text \<open>The points at which a call reads its abort signal or the clock.\<close>

datatype chat_point =
    AtStart
  | AtRefresh string
  | AtBreaker string
  | AtCall string
  | AtAttempt string nat
  | AtDelay string nat
  | InDelay string nat
  | AtFailure string

record chat_env =
  tx_signal :: "chat_point \<Rightarrow> signal"
  tx_now :: "chat_point \<Rightarrow> int"
  tx_llmMaxRetries :: jsnum

definition retry_limit :: "jsnum \<Rightarrow> nat" where
  "retry_limit m = (case m of Fin x \<Rightarrow> nat (max 1 \<lfloor>x\<rfloor>) | _ \<Rightarrow> 1)"

function retry_from ::
  "chat_env \<Rightarrow> string \<Rightarrow> (nat \<Rightarrow> string throws) \<Rightarrow> nat \<Rightarrow> nat \<Rightarrow> exn option \<Rightarrow> string throws" where
  "retry_from env name reply mx attempt prev =
     (if attempt \<le> mx
      then (case throwIfAborted (tx_signal env (AtAttempt name attempt)) of
              Inl e \<Rightarrow> Inl e
            | Inr _ \<Rightarrow>
                (case reply attempt of
                   Inr c \<Rightarrow> Inr c
                 | Inl e \<Rightarrow>
                     if isAbortError e then Inl e
                     else if attempt < mx
                     then (case abortableDelay (tx_signal env (AtDelay name attempt)) (tx_signal env (InDelay name attempt)) of
                             Inl e' \<Rightarrow> Inl e'
                           | Inr _ \<Rightarrow> retry_from env name reply mx (Suc attempt) (Some e))
                     else retry_from env name reply mx (Suc attempt) (Some e)))
      else Inl (case prev of None \<Rightarrow> mk_error ''LLM provider failed'' | Some e \<Rightarrow> e))"
  by pat_completeness auto
termination by (relation "measure (\<lambda>(_, _, _, mx, attempt, _). Suc mx - attempt)") auto

declare retry_from.simps [simp del]

definition retryProviderCall :: "chat_env \<Rightarrow> string \<Rightarrow> (nat \<Rightarrow> string throws) \<Rightarrow> jsnum \<Rightarrow> string throws" where
  "retryProviderCall env name reply maxAttempts = retry_from env name reply (retry_limit maxAttempts) 1 None"

section \<open>A call\<close>

record chat_failure =
  fl_provider :: string
  fl_message :: string

datatype chat_error =
    ChatThrow exn
  | LlmUnavailable "string list" "chat_failure list"

record chat_response =
  an_content :: string
  an_provider :: string

definition ordered_providers :: "chat_config \<Rightarrow> chat_provider list \<Rightarrow> chat_provider list" where
  "ordered_providers cfg ps =
     (case tc_preferred cfg of
        Some p \<Rightarrow> filter (\<lambda>q. lp_name q = p) ps @ filter (\<lambda>q. lp_name q \<noteq> p) ps
      | None \<Rightarrow> ps)"

definition max_retries :: "chat_env \<Rightarrow> chat_config \<Rightarrow> jsnum" where
  "max_retries env cfg = (case tc_maxRetries cfg of Some n \<Rightarrow> n | None \<Rightarrow> tx_llmMaxRetries env)"

text \<open>A model override only goes to the preferred provider.\<close>

definition request_for :: "chat_config \<Rightarrow> string \<Rightarrow> string \<Rightarrow> chat_request" where
  "request_for cfg prompt name =
     \<lparr>rq_system = tc_systemPrompt cfg, rq_user = prompt,
      rq_overrides = (if tc_preferred cfg = None \<or> tc_preferred cfg = Some name then tc_overrides cfg
                      else AList.delete ''model'' (tc_overrides cfg)),
      rq_webSearch = tc_enableWebSearch cfg\<rparr>"

definition call_provider :: "chat_env \<Rightarrow> chat_config \<Rightarrow> string \<Rightarrow> chat_provider \<Rightarrow> string throws" where
  "call_provider env cfg prompt p =
     (case throwIfAborted (tx_signal env (AtCall (lp_name p))) of
        Inl e \<Rightarrow> Inl e
      | Inr _ \<Rightarrow> retryProviderCall env (lp_name p) (lp_reply p (request_for cfg prompt (lp_name p))) (max_retries env cfg))"

definition refresh_provider :: "chat_env \<Rightarrow> chat_provider \<Rightarrow> unit throws" where
  "refresh_provider env p =
     (case throwIfAborted (tx_signal env (AtRefresh (lp_name p))) of
        Inl e \<Rightarrow> Inl e
      | Inr _ \<Rightarrow> (case lp_refresh p of Some e \<Rightarrow> Inl e | None \<Rightarrow> Inr ()))"

definition breaker_gate :: "chat_env \<Rightarrow> chat_provider \<Rightarrow> breaker \<Rightarrow> bool \<times> breaker" where
  "breaker_gate env p b =
     (if lp_name p = ''kimi'' then shouldSkipKimi (tx_now env (AtBreaker (lp_name p))) b else (False, b))"

definition note_success :: "chat_provider \<Rightarrow> breaker \<Rightarrow> breaker" where
  "note_success p b = (if lp_name p = ''kimi'' then recordKimiSuccess b else b)"

definition note_failure :: "chat_env \<Rightarrow> chat_provider \<Rightarrow> breaker \<Rightarrow> breaker" where
  "note_failure env p b =
     (if lp_name p = ''kimi'' then snd (recordKimiFailure (tx_now env (AtFailure (lp_name p))) b) else b)"

text \<open>A provider counts as attempted once the signal has let its call through.\<close>

definition attempt :: "chat_env \<Rightarrow> chat_provider \<Rightarrow> string list" where
  "attempt env p = (case throwIfAborted (tx_signal env (AtCall (lp_name p))) of Inl _ \<Rightarrow> [] | Inr _ \<Rightarrow> [lp_name p])"

fun try_providers ::
  "chat_env \<Rightarrow> chat_config \<Rightarrow> string \<Rightarrow> chat_provider list \<Rightarrow> string list \<Rightarrow> chat_failure list \<Rightarrow> breaker \<Rightarrow>
   (chat_error + chat_response) \<times> breaker" where
  "try_providers env cfg prompt [] attempted failures b = (Inl (LlmUnavailable attempted failures), b)"
| "try_providers env cfg prompt (p # ps) attempted failures b =
     (case refresh_provider env p of
        Inl e \<Rightarrow>
          if isAbortError e then (Inl (ChatThrow e), b)
          else try_providers env cfg prompt ps (attempted @ [lp_name p])
                 (failures @ [\<lparr>fl_provider = lp_name p, fl_message = emsg e\<rparr>]) b
      | Inr _ \<Rightarrow>
          if \<not> lp_enabled p
          then try_providers env cfg prompt ps attempted
                 (failures @ [\<lparr>fl_provider = lp_name p, fl_message = ''provider disabled''\<rparr>]) b
          else
            (case breaker_gate env p b of
               (True, b') \<Rightarrow>
                 try_providers env cfg prompt ps attempted
                   (failures @ [\<lparr>fl_provider = lp_name p, fl_message = ''Kimi circuit breaker open''\<rparr>]) b'
             | (False, b') \<Rightarrow>
                 (case call_provider env cfg prompt p of
                    Inr c \<Rightarrow> (Inr \<lparr>an_content = c, an_provider = lp_name p\<rparr>, note_success p b')
                  | Inl e \<Rightarrow>
                      if isAbortError e then (Inl (ChatThrow e), b')
                      else try_providers env cfg prompt ps (attempted @ attempt env p)
                             (failures @ [\<lparr>fl_provider = lp_name p, fl_message = emsg e\<rparr>]) (note_failure env p b'))))"

definition chat_call ::
  "chat_env \<Rightarrow> chat_config \<Rightarrow> chat_provider list \<Rightarrow> string \<Rightarrow> breaker \<Rightarrow> (chat_error + chat_response) \<times> breaker" where
  "chat_call env cfg providers prompt b =
     (case throwIfAborted (tx_signal env AtStart) of
        Inl e \<Rightarrow> (Inl (ChatThrow e), b)
      | Inr _ \<Rightarrow> try_providers env cfg prompt (ordered_providers cfg providers) [] [] b)"

type_synonym chat_job = "chat_env \<times> chat_config \<times> chat_provider list \<times> string"

text \<open>Calls one after the other; the breaker is shared.\<close>

fun chat_calls :: "chat_job list \<Rightarrow> breaker \<Rightarrow> (chat_error + chat_response) list \<times> breaker" where
  "chat_calls [] b = ([], b)"
| "chat_calls ((env, cfg, ps, prompt) # js) b =
     (let (r, b1) = chat_call env cfg ps prompt b; (rs, b2) = chat_calls js b1 in (r # rs, b2))"

section \<open>Retrying\<close>

definition calm :: "chat_env \<Rightarrow> bool" where
  "calm env = (tx_signal env = (\<lambda>_. None))"

text \<open>A provider none of whose errors looks like an abort.\<close>

definition abort_free :: "chat_provider \<Rightarrow> bool" where
  "abort_free p =
     ((\<forall>e. lp_refresh p = Some e \<longrightarrow> \<not> isAbortError e) \<and> (\<forall>r k e. lp_reply p r k = Inl e \<longrightarrow> \<not> isAbortError e))"

lemma retry_from_calm:
  assumes "calm env" and "\<And>k e. reply k = Inl e \<Longrightarrow> \<not> isAbortError e"
  shows "retry_from env name reply mx a prev =
    (case find (\<lambda>k. \<not> isl (reply k)) [a..<Suc mx] of
       Some k \<Rightarrow> reply k
     | None \<Rightarrow> if a \<le> mx then reply mx else Inl (case prev of None \<Rightarrow> mk_error ''LLM provider failed'' | Some e \<Rightarrow> e))"
proof (induction "Suc mx - a" arbitrary: a prev)
  case 0
  then show ?case by (simp add: retry_from.simps)
next
  case (Suc n)
  then have le: "a \<le> mx" by simp
  then have upt: "[a..<Suc mx] = a # [Suc a..<Suc mx]" by (simp add: upt_conv_Cons del: upt_Suc)
  have sig: "throwIfAborted (tx_signal env x) = Inr ()" "abortableDelay (tx_signal env x) (tx_signal env y) = Inr ()" for x y
    using assms(1) by (simp_all add: calm_def abortableDelay_def)
  show ?case
  proof (cases "reply a")
    case (Inr c)
    then show ?thesis using le upt by (subst retry_from.simps) (simp add: sig del: upt_Suc)
  next
    case (Inl e)
    have "retry_from env name reply mx a prev = retry_from env name reply mx (Suc a) (Some e)"
      using le Inl assms(2) by (subst retry_from.simps) (simp add: sig)
    also have "\<dots> = (case find (\<lambda>k. \<not> isl (reply k)) [Suc a..<Suc mx] of
       Some k \<Rightarrow> reply k | None \<Rightarrow> if Suc a \<le> mx then reply mx else Inl e)"
      using Suc.hyps(1) [of "Suc a" "Some e"] Suc.hyps(2) le by simp
    finally show ?thesis using le Inl upt by (cases "a = mx") (simp_all del: upt_Suc)
  qed
qed

lemma retry_limit_pos: "1 \<le> retry_limit m"
  by (auto simp: retry_limit_def split: jsnum.splits)

definition first_answer :: "(nat \<Rightarrow> string throws) \<Rightarrow> nat \<Rightarrow> string throws" where
  "first_answer reply mx = (case find (\<lambda>k. \<not> isl (reply k)) [1..<Suc mx] of Some k \<Rightarrow> reply k | None \<Rightarrow> reply mx)"

lemma call_provider_calm:
  assumes "calm env" and "abort_free p"
  shows "call_provider env cfg prompt p =
    first_answer (lp_reply p (request_for cfg prompt (lp_name p))) (retry_limit (max_retries env cfg))"
proof -
  have "\<And>k e. lp_reply p (request_for cfg prompt (lp_name p)) k = Inl e \<Longrightarrow> \<not> isAbortError e"
    using assms(2) by (simp add: abort_free_def)
  note run = retry_from_calm [OF assms(1) this, where name = "lp_name p" and mx = "retry_limit (max_retries env cfg)" and a = 1]
  have "throwIfAborted (tx_signal env (AtCall (lp_name p))) = Inr ()" using assms(1) by (simp add: calm_def)
  then show ?thesis using run retry_limit_pos [of "max_retries env cfg"]
    by (simp add: call_provider_def retryProviderCall_def first_answer_def del: upt_Suc)
qed

lemma first_answer_not_abort:
  assumes "abort_free p" and "first_answer (lp_reply p r) mx = Inl e"
  shows "\<not> isAbortError e"
proof -
  have "find (\<lambda>k. \<not> isl (lp_reply p r k)) [1..<Suc mx] = None"
    using assms(2) by (auto simp: first_answer_def find_Some_iff split: option.splits)
  then show ?thesis using assms by (simp add: first_answer_def abort_free_def del: upt_Suc)
qed

section \<open>Walking the providers\<close>

definition ready :: "chat_provider \<Rightarrow> bool" where
  "ready p = (lp_refresh p = None \<and> lp_enabled p)"

definition answers :: "chat_env \<Rightarrow> chat_config \<Rightarrow> string \<Rightarrow> breaker \<Rightarrow> chat_provider \<Rightarrow> bool" where
  "answers env cfg prompt b p = (ready p \<and> \<not> fst (breaker_gate env p b) \<and> \<not> isl (call_provider env cfg prompt p))"

definition failure_of :: "chat_env \<Rightarrow> chat_config \<Rightarrow> string \<Rightarrow> breaker \<Rightarrow> chat_provider \<Rightarrow> chat_failure" where
  "failure_of env cfg prompt b p =
     \<lparr>fl_provider = lp_name p,
      fl_message =
        (case lp_refresh p of
           Some e \<Rightarrow> emsg e
         | None \<Rightarrow>
             if \<not> lp_enabled p then ''provider disabled''
             else if fst (breaker_gate env p b) then ''Kimi circuit breaker open''
             else (case call_provider env cfg prompt p of Inl e \<Rightarrow> emsg e | Inr _ \<Rightarrow> []))\<rparr>"

definition tried :: "chat_env \<Rightarrow> breaker \<Rightarrow> chat_provider \<Rightarrow> bool" where
  "tried env b p = (lp_refresh p \<noteq> None \<or> lp_enabled p \<and> \<not> fst (breaker_gate env p b))"

lemma gate_other: "lp_name p \<noteq> ''kimi'' \<Longrightarrow> breaker_gate env p b = (False, b)"
  "lp_name p \<noteq> ''kimi'' \<Longrightarrow> note_success p b = b" "lp_name p \<noteq> ''kimi'' \<Longrightarrow> note_failure env p b = b"
  by (simp_all add: breaker_gate_def note_success_def note_failure_def)

text \<open>The breaker only matters at Kimi, which is met at most once.\<close>

lemma walk:
  assumes calm: "calm env" and free: "\<forall>p\<in>set ps. abort_free p" and d: "distinct (map lp_name ps)"
    and same: "''kimi'' \<in> lp_name ` set ps \<Longrightarrow> b = b0"
  shows "fst (try_providers env cfg prompt ps att fs b) =
    (case find (answers env cfg prompt b0) ps of
       Some p \<Rightarrow> Inr \<lparr>an_content = projr (call_provider env cfg prompt p), an_provider = lp_name p\<rparr>
     | None \<Rightarrow> Inl (LlmUnavailable (att @ map lp_name (filter (tried env b0) ps))
                                     (fs @ map (failure_of env cfg prompt b0) ps)))"
  using free d same
proof (induction ps arbitrary: att fs b)
  case (Cons p ps)
  have free: "abort_free p" and d: "lp_name p \<notin> lp_name ` set ps" using Cons.prems by auto
  have gate: "fst (breaker_gate env p b) = fst (breaker_gate env p b0)"
    using Cons.prems(3) by (cases "lp_name p = ''kimi''") (auto simp: breaker_gate_def)
  note IH = Cons.IH [where att = att' and fs = fs' and b = b' for att' fs' b']
  have keep: "b = b0 \<and> lp_name p \<noteq> ''kimi''" if "''kimi'' \<in> lp_name ` set ps"
    using Cons.prems(3) d that by (metis image_insert insertCI list.simps(15))
  have refresh: "refresh_provider env p = (case lp_refresh p of Some e \<Rightarrow> Inl e | None \<Rightarrow> Inr ())"
    and attempt: "attempt env p = [lp_name p]"
    using calm by (simp_all add: refresh_provider_def calm_def attempt_def)
  have rest: "fst (try_providers env cfg prompt ps att' fs' b') =
    (case find (answers env cfg prompt b0) ps of
       Some p \<Rightarrow> Inr \<lparr>an_content = projr (call_provider env cfg prompt p), an_provider = lp_name p\<rparr>
     | None \<Rightarrow> Inl (LlmUnavailable (att' @ map lp_name (filter (tried env b0) ps))
                                     (fs' @ map (failure_of env cfg prompt b0) ps)))"
    if "''kimi'' \<in> lp_name ` set ps \<Longrightarrow> b' = b0" for att' fs' b'
    using Cons.prems that by (intro IH) auto
  show ?case
  proof (cases "lp_refresh p")
    case (Some e)
    have "\<not> isAbortError e" using free Some by (simp add: abort_free_def)
    then show ?thesis using refresh Some rest [of b] keep
      by (simp add: answers_def [of env cfg prompt b0 p] ready_def tried_def [of env b0 p] failure_of_def [of env cfg prompt b0 p] split: option.split)
  next
    case None
    show ?thesis
    proof (cases "lp_enabled p")
      case False
      then show ?thesis using refresh None rest [of b] keep
        by (simp add: answers_def [of env cfg prompt b0 p] ready_def tried_def [of env b0 p] failure_of_def [of env cfg prompt b0 p] split: option.split)
    next
      case True
      obtain skip b' where g: "breaker_gate env p b = (skip, b')" by (cases "breaker_gate env p b")
      have skip: "fst (breaker_gate env p b0) = skip" using gate g by simp
      have kb: "''kimi'' \<in> lp_name ` set ps \<Longrightarrow> b' = b0" using keep g gate_other(1) [of p env b] by auto
      show ?thesis
      proof (cases skip)
        case True
        then show ?thesis using refresh None \<open>lp_enabled p\<close> g skip rest [OF kb]
          by (simp add: answers_def [of env cfg prompt b0 p] ready_def tried_def [of env b0 p] failure_of_def [of env cfg prompt b0 p] split: option.split)
      next
        case False
        show ?thesis
        proof (cases "call_provider env cfg prompt p")
          case (Inr c)
          then show ?thesis using refresh None \<open>lp_enabled p\<close> g skip False
            by (simp add: answers_def [of env cfg prompt b0 p] ready_def)
        next
          case (Inl e)
          then have "\<not> isAbortError e"
            using first_answer_not_abort [OF free] call_provider_calm [OF calm free] by metis
          moreover have "''kimi'' \<in> lp_name ` set ps \<Longrightarrow> note_failure env p b' = b0"
            using keep kb gate_other(3) [of p env b'] by auto
          ultimately show ?thesis using refresh attempt None \<open>lp_enabled p\<close> g skip False Inl rest
            by (simp add: answers_def [of env cfg prompt b0 p] ready_def tried_def [of env b0 p] failure_of_def [of env cfg prompt b0 p] split: option.split)
        qed
      qed
    qed
  qed
qed simp

section \<open>What a call does to the breaker\<close>

lemma walk_without_kimi:
  "''kimi'' \<notin> lp_name ` set ps \<Longrightarrow> snd (try_providers env cfg prompt ps att fs b) = b"
proof (induction ps arbitrary: att fs)
  case (Cons p ps)
  then have "lp_name p \<noteq> ''kimi''" "\<And>att fs. snd (try_providers env cfg prompt ps att fs b) = b" by auto
  then show ?case by (simp add: gate_other split: sum.split)
qed simp

lemma walk_past:
  assumes "calm env"
    and "\<forall>p\<in>set as. abort_free p \<and> lp_name p \<noteq> ''kimi'' \<and> \<not> (ready p \<and> \<not> isl (call_provider env cfg prompt p))"
  shows "\<exists>att' fs'. try_providers env cfg prompt (as @ ps) att fs b = try_providers env cfg prompt ps att' fs' b"
  using assms(2)
proof (induction as arbitrary: att fs)
  case (Cons p as)
  have free: "abort_free p" "lp_name p \<noteq> ''kimi''" "\<not> (ready p \<and> \<not> isl (call_provider env cfg prompt p))"
    and IH: "\<And>att fs. \<exists>att' fs'. try_providers env cfg prompt (as @ ps) att fs b = try_providers env cfg prompt ps att' fs' b"
    using Cons by auto
  have refresh: "refresh_provider env p = (case lp_refresh p of Some e \<Rightarrow> Inl e | None \<Rightarrow> Inr ())"
    using assms(1) by (simp add: refresh_provider_def calm_def)
  consider e where "lp_refresh p = Some e" "\<not> isAbortError e" | "lp_refresh p = None" "\<not> lp_enabled p"
    | e where "lp_refresh p = None" "lp_enabled p" "call_provider env cfg prompt p = Inl e" "\<not> isAbortError e"
  proof (cases "lp_refresh p")
    case None
    then show ?thesis using that free first_answer_not_abort [OF free(1)] call_provider_calm [OF assms(1) free(1)]
      by (metis isl_def ready_def sum.collapse(2))
  next
    case (Some e)
    then show ?thesis using that(1) free(1) by (simp add: abort_free_def)
  qed
  then show ?case by cases (use IH gate_other [OF free(2)] refresh in simp_all)
qed (intro exI, simp)

definition kimi_gate :: "chat_env \<Rightarrow> breaker \<Rightarrow> bool \<times> breaker" where
  "kimi_gate env b = shouldSkipKimi (tx_now env (AtBreaker ''kimi'')) b"

text \<open>
  The call comes as far as Kimi: no signal fires, no provider before Kimi answers (nor fails with
  what looks like an abort), and Kimi is enabled.
\<close>

definition reaches_kimi :: "chat_env \<Rightarrow> chat_config \<Rightarrow> string \<Rightarrow> chat_provider list \<Rightarrow> chat_provider \<Rightarrow> bool" where
  "reaches_kimi env cfg prompt ps k =
     (calm env \<and> distinct (map lp_name ps) \<and> ready k \<and>
      find (\<lambda>p. lp_name p = ''kimi'') (ordered_providers cfg ps) = Some k \<and>
      list_all (\<lambda>p. abort_free p \<and> \<not> (ready p \<and> \<not> isl (call_provider env cfg prompt p)))
        (takeWhile (\<lambda>p. lp_name p \<noteq> ''kimi'') (ordered_providers cfg ps)))"

lemma ordered_names: "distinct (map lp_name ps) \<Longrightarrow> distinct (map lp_name (ordered_providers cfg ps))"
  by (auto simp: ordered_providers_def distinct_map inj_on_def split: option.splits)

lemma find_split: "find P xs = Some x \<Longrightarrow> \<exists>zs. xs = takeWhile (\<lambda>y. \<not> P y) xs @ x # zs \<and> P x"
  by (induction xs) (auto split: if_splits)

lemma breaker_after_kimi:
  assumes r: "reaches_kimi env cfg prompt ps k"
  shows "snd (chat_call env cfg ps prompt b) =
    (case kimi_gate env b of
       (True, b') \<Rightarrow> b'
     | (False, b') \<Rightarrow>
         (case call_provider env cfg prompt k of
            Inr c \<Rightarrow> recordKimiSuccess b'
          | Inl e \<Rightarrow> if isAbortError e then b' else snd (recordKimiFailure (tx_now env (AtFailure ''kimi'')) b')))"
proof -
  let ?as = "takeWhile (\<lambda>p. lp_name p \<noteq> ''kimi'') (ordered_providers cfg ps)"
  obtain bs where split: "ordered_providers cfg ps = ?as @ k # bs" and k: "lp_name k = ''kimi''"
    using r find_split [of "\<lambda>p. lp_name p = ''kimi''" "ordered_providers cfg ps" k] by (auto simp: reaches_kimi_def)
  have "distinct (map lp_name (?as @ k # bs))"
    using r ordered_names split unfolding reaches_kimi_def by metis
  then have bs: "''kimi'' \<notin> lp_name ` set bs" using k by auto
  have calm: "calm env" and ready: "ready k" using r by (simp_all add: reaches_kimi_def)
  have "\<forall>p\<in>set ?as. abort_free p \<and> lp_name p \<noteq> ''kimi'' \<and> \<not> (ready p \<and> \<not> isl (call_provider env cfg prompt p))"
    using r by (auto simp: reaches_kimi_def list_all_iff dest: set_takeWhileD)
  then obtain att fs where "try_providers env cfg prompt (?as @ k # bs) [] [] b = try_providers env cfg prompt (k # bs) att fs b"
    using walk_past [OF calm] by blast
  moreover have "chat_call env cfg ps prompt b = try_providers env cfg prompt (?as @ k # bs) [] [] b"
    using calm split by (simp add: chat_call_def calm_def)
  moreover have "breaker_gate env k b = kimi_gate env b" by (simp add: breaker_gate_def kimi_gate_def k)
  moreover have "refresh_provider env k = Inr ()" "lp_enabled k"
    using calm ready by (simp_all add: refresh_provider_def calm_def ready_def)
  ultimately show ?thesis
    by (simp add: walk_without_kimi [OF bs] note_success_def note_failure_def k split: bool.split prod.split sum.split)
qed

section \<open>A skipped Kimi\<close>

text \<open>What Kimi would answer; the call does not depend on it while the breaker is open.\<close>

definition with_kimi :: "(chat_request \<Rightarrow> nat \<Rightarrow> string throws) \<Rightarrow> chat_provider \<Rightarrow> chat_provider" where
  "with_kimi f p = (if lp_name p = ''kimi'' then p\<lparr>lp_reply := f\<rparr> else p)"

lemma with_kimi_simps [simp]:
  "lp_name (with_kimi f p) = lp_name p" "lp_enabled (with_kimi f p) = lp_enabled p"
  "refresh_provider env (with_kimi f p) = refresh_provider env p"
  "breaker_gate env (with_kimi f p) b = breaker_gate env p b"
  "note_success (with_kimi f p) b = note_success p b" "note_failure env (with_kimi f p) b = note_failure env p b"
  "lp_name p \<noteq> ''kimi'' \<Longrightarrow> with_kimi f p = p"
  by (simp_all add: with_kimi_def refresh_provider_def breaker_gate_def note_success_def note_failure_def
      split: sum.split option.split)

definition skips :: "chat_env \<Rightarrow> breaker \<Rightarrow> bool" where
  "skips env b = (kimi_gate env b = (True, b))"

lemma skipped_walk:
  assumes "skips env b"
  shows "try_providers env cfg prompt (map (with_kimi f) ps) att fs b = try_providers env cfg prompt ps att fs b \<and>
    snd (try_providers env cfg prompt ps att fs b) = b"
proof (induction ps arbitrary: att fs)
  case (Cons p ps)
  show ?case
  proof (cases "lp_name p = ''kimi''")
    case True
    then have "breaker_gate env p b = (True, b)" using assms by (simp add: skips_def kimi_gate_def breaker_gate_def)
    then show ?thesis using Cons.IH by (simp split: sum.split)
  next
    case False
    then show ?thesis using Cons.IH by (simp add: gate_other split: sum.split)
  qed
qed simp

lemma ordered_with_kimi: "ordered_providers cfg (map (with_kimi f) ps) = map (with_kimi f) (ordered_providers cfg ps)"
  by (simp add: ordered_providers_def filter_map comp_def split: option.split)

lemma skipped_call:
  assumes "skips env b"
  shows "chat_call env cfg (map (with_kimi f) ps) prompt b = chat_call env cfg ps prompt b \<and>
    snd (chat_call env cfg ps prompt b) = b"
  using skipped_walk [OF assms] by (simp add: chat_call_def ordered_with_kimi split: sum.split)

text \<open>A half-open breaker whose probe is in flight skips Kimi at any time.\<close>

definition stuck :: "breaker \<Rightarrow> bool" where
  "stuck b = (bk_circuit b = CircuitHalfOpen \<and> bk_probe b)"

lemma stuck_skips: "stuck b \<Longrightarrow> skips env b"
  by (simp add: stuck_def skips_def kimi_gate_def shouldSkipKimi_def)

lemma stuck_calls:
  "stuck b \<Longrightarrow> chat_calls (map (\<lambda>(env, cfg, ps, prompt). (env, cfg, map (with_kimi f) ps, prompt)) js) b = chat_calls js b \<and>
     snd (chat_calls js b) = b"
proof (induction js)
  case (Cons j js)
  obtain env cfg ps prompt where j: "j = (env, cfg, ps, prompt)" by (cases j)
  have "chat_call env cfg (map (with_kimi f) ps) prompt b = chat_call env cfg ps prompt b" "snd (chat_call env cfg ps prompt b) = b"
    using skipped_call [OF stuck_skips [OF Cons.prems]] by simp_all
  then show ?case using Cons.IH [OF Cons.prems] j by (auto simp: Let_def case_prod_unfold)
qed simp

lemma open_skips:
  assumes "bk_circuit b = CircuitOpen" "bk_openedAt b = Some t" "tx_now env (AtBreaker ''kimi'') < t + KIMI_CIRCUIT_COOLDOWN_MS"
  shows "skips env b"
  using assms by (simp add: skips_def kimi_gate_def shouldSkipKimi_def)

section \<open>Properties\<close>

text \<open>C11: While no signal fires and no error looks like an abort, a call returns the answer of the first
  provider, in the order of preference, that is enabled, not skipped by the breaker and answers one
  of its first \<open>maxRetries\<close> attempts, namely its first such answer; if there is none it throws
  \<open>LlmUnavailableError\<close> with one failure per provider, in that order.\<close>

theorem chat_call_takes_first_answer:
  assumes "calm env" and "\<forall>p\<in>set ps. abort_free p" and "distinct (map lp_name ps)"
  shows "fst (chat_call env cfg ps prompt b) =
    (case find (answers env cfg prompt b) (ordered_providers cfg ps) of
       Some p \<Rightarrow> Inr \<lparr>an_content = projr (first_answer (lp_reply p (request_for cfg prompt (lp_name p)))
                                                     (retry_limit (max_retries env cfg))),
                      an_provider = lp_name p\<rparr>
     | None \<Rightarrow> Inl (LlmUnavailable (map lp_name (filter (tried env b) (ordered_providers cfg ps)))
                                     (map (failure_of env cfg prompt b) (ordered_providers cfg ps))))"
proof -
  have free: "\<forall>p\<in>set (ordered_providers cfg ps). abort_free p"
    using assms(2) by (auto simp: ordered_providers_def split: option.splits)
  have start: "chat_call env cfg ps prompt b = try_providers env cfg prompt (ordered_providers cfg ps) [] [] b"
    using assms(1) by (simp add: chat_call_def calm_def)
  have run: "call_provider env cfg prompt p =
      first_answer (lp_reply p (request_for cfg prompt (lp_name p))) (retry_limit (max_retries env cfg))"
    if "find (answers env cfg prompt b) (ordered_providers cfg ps) = Some p" for p
    using that free call_provider_calm [OF assms(1)] by (metis find_Some_iff nth_mem)
  show ?thesis unfolding start walk [OF assms(1) free ordered_names [OF assms(3)] refl]
    by (cases "find (answers env cfg prompt b) (ordered_providers cfg ps)") (simp_all add: run)
qed

text \<open>C15: Three calls that fail at Kimi open the breaker: until the cooldown of a minute has passed since the
  third failure, no call reaches Kimi whatever it would answer, and the breaker stays as it is.\<close>

theorem failing_kimi_is_left_alone:
  assumes "bk_circuit b = CircuitClosed" and "bk_failures b = 0"
    and "js = [(env1, cfg1, ps1, prompt1), (env2, cfg2, ps2, prompt2), (env3, cfg3, ps3, prompt3)]"
    and "\<forall>(env, cfg, ps, prompt)\<in>set js. \<exists>k e. reaches_kimi env cfg prompt ps k \<and>
           call_provider env cfg prompt k = Inl e \<and> \<not> isAbortError e"
    and "tx_now env (AtBreaker ''kimi'') < tx_now env3 (AtFailure ''kimi'') + KIMI_CIRCUIT_COOLDOWN_MS"
  shows "let b' = snd (chat_calls js b) in
    bk_circuit b' = CircuitOpen \<and> snd (chat_call env cfg ps prompt b') = b' \<and>
    chat_call env cfg (map (with_kimi f) ps) prompt b' = chat_call env cfg ps prompt b'"
proof -
  have fails: "snd (chat_call env cfg ps prompt b) = snd (recordKimiFailure (tx_now env (AtFailure ''kimi'')) b)"
    if "(env, cfg, ps, prompt) \<in> set js" "bk_circuit b = CircuitClosed" for env cfg ps prompt b
    using assms(4) that breaker_after_kimi by (fastforce simp: kimi_gate_def shouldSkipKimi_def)
  let ?b1 = "b\<lparr>bk_failures := 1\<rparr>" and ?b2 = "b\<lparr>bk_failures := 2\<rparr>"
  let ?b3 = "b\<lparr>bk_failures := 3, bk_circuit := CircuitOpen, bk_openedAt := Some (tx_now env3 (AtFailure ''kimi'')), bk_probe := False\<rparr>"
  have "snd (chat_call env1 cfg1 ps1 prompt1 b) = ?b1" "snd (chat_call env2 cfg2 ps2 prompt2 ?b1) = ?b2"
    "snd (chat_call env3 cfg3 ps3 prompt3 ?b2) = ?b3"
    using fails [of env1 cfg1 ps1 prompt1 b] fails [of env2 cfg2 ps2 prompt2 ?b1] fails [of env3 cfg3 ps3 prompt3 ?b2] assms(1-3)
    by (simp_all add: recordKimiFailure_def CIRCUIT_BREAKER_THRESHOLD_def Let_def)
  then have "snd (chat_calls js b) = ?b3" unfolding assms(3) by (simp add: Let_def case_prod_unfold)
  moreover have "skips env ?b3" using assms(5) by (intro open_skips) simp_all
  ultimately show ?thesis using skipped_call by (simp add: Let_def)
qed

text \<open>C16: After the cooldown the next call probes Kimi, and the fate of the probe decides: an answer closes
  the breaker, an ordinary failure opens it again, but an error that merely looks like an abort is
  not recorded, the probe stays in flight, and from then on no call ever reaches Kimi.\<close>

theorem probe_that_looks_aborted_disables_kimi:
  assumes "bk_circuit b = CircuitOpen" and "bk_openedAt b = Some t" and "\<not> bk_probe b"
    and "t + KIMI_CIRCUIT_COOLDOWN_MS \<le> tx_now env (AtBreaker ''kimi'')"
    and "reaches_kimi env cfg prompt ps k"
  shows "case call_provider env cfg prompt k of
      Inr c \<Rightarrow> snd (chat_call env cfg ps prompt b) = fresh_breaker
    | Inl e \<Rightarrow>
        if isAbortError e
        then \<forall>js f. chat_calls (map (\<lambda>(env, cfg, ps, prompt). (env, cfg, map (with_kimi f) ps, prompt)) js)
                      (snd (chat_call env cfg ps prompt b)) =
                    chat_calls js (snd (chat_call env cfg ps prompt b))
        else bk_circuit (snd (chat_call env cfg ps prompt b)) = CircuitOpen \<and>
             bk_openedAt (snd (chat_call env cfg ps prompt b)) = Some (tx_now env (AtFailure ''kimi''))"
proof -
  have gate: "kimi_gate env b = (False, b\<lparr>bk_circuit := CircuitHalfOpen, bk_probe := True\<rparr>)"
    using assms(1-4) by (simp add: kimi_gate_def shouldSkipKimi_def)
  note after = breaker_after_kimi [OF assms(5), of b, unfolded gate, simplified]
  show ?thesis
  proof (cases "call_provider env cfg prompt k")
    case (Inr c)
    then show ?thesis using after by (simp add: recordKimiSuccess_def fresh_breaker_def)
  next
    case (Inl e)
    show ?thesis
    proof (cases "isAbortError e")
      case True
      then have "stuck (snd (chat_call env cfg ps prompt b))" using after Inl by (simp add: stuck_def)
      then show ?thesis using stuck_calls Inl True by (simp add: case_prod_unfold)
    next
      case False
      then show ?thesis using after Inl by (simp add: recordKimiFailure_def Let_def)
    qed
  qed
qed

section \<open>Demonstrations\<close>

definition demo_chat_env :: "int \<Rightarrow> chat_env" where
  "demo_chat_env now = \<lparr>tx_signal = (\<lambda>_. None), tx_now = (\<lambda>_. now), tx_llmMaxRetries = Fin 2\<rparr>"

definition demo_chat_config :: chat_config where
  "demo_chat_config =
     \<lparr>tc_systemPrompt = ''s'', tc_maxRetries = None, tc_enableWebSearch = False, tc_preferred = Some ''kimi'',
      tc_overrides = [(''model'', JStr ''kimi-k2'')]\<rparr>"

definition demo_provider :: "string \<Rightarrow> (nat \<Rightarrow> string throws) \<Rightarrow> chat_provider" where
  "demo_provider name reply = \<lparr>lp_name = name, lp_refresh = None, lp_enabled = True, lp_reply = (\<lambda>_. reply)\<rparr>"

text \<open>Kimi answers with the given error, OpenAI at its second attempt.\<close>

definition demo_providers :: "string \<Rightarrow> chat_provider list" where
  "demo_providers msg =
     [demo_provider ''openai'' (\<lambda>k. if k = 1 then Inl (mk_error ''503'') else Inr ''fine''),
      demo_provider ''kimi'' (\<lambda>_. Inl (mk_error msg))]"

lemma demo_errors: "\<not> isAbortError (mk_error ''503'')" "\<not> isAbortError (mk_error ''502'')"
  "isAbortError (mk_error ''Request aborted'')"
  by code_simp+

lemma demo_reaches:
  "reaches_kimi (demo_chat_env now) demo_chat_config prompt (demo_providers msg) (demo_provider ''kimi'' (\<lambda>_. Inl (mk_error msg)))"
  by (simp add: reaches_kimi_def demo_providers_def demo_provider_def demo_chat_config_def ordered_providers_def
      demo_chat_env_def calm_def ready_def)

lemma demo_kimi:
  "call_provider (demo_chat_env now) demo_chat_config prompt (demo_provider ''kimi'' (\<lambda>_. Inl (mk_error msg))) = Inl (mk_error msg)"
  by (simp add: call_provider_def retryProviderCall_def demo_chat_env_def demo_provider_def max_retries_def demo_chat_config_def
      retry_limit_def retry_from.simps abortableDelay_def)

theorem chat_call_takes_first_answer_witness:
  "fst (chat_call (demo_chat_env 0) demo_chat_config (demo_providers ''502'') ''q'' fresh_breaker) =
     Inr \<lparr>an_content = ''fine'', an_provider = ''openai''\<rparr>"
proof -
  have calm: "calm (demo_chat_env 0)" by (simp add: calm_def demo_chat_env_def)
  have free: "\<forall>p\<in>set (demo_providers ''502''). abort_free p"
    using demo_errors by (auto simp: demo_providers_def demo_provider_def abort_free_def split: if_splits)
  have d: "distinct (map lp_name (demo_providers ''502''))" by (simp add: demo_providers_def demo_provider_def)
  have kimi: "\<not> answers (demo_chat_env 0) demo_chat_config ''q'' fresh_breaker (demo_provider ''kimi'' (\<lambda>_. Inl (mk_error ''502'')))"
    by (simp add: answers_def demo_kimi)
  let ?o = "demo_provider ''openai'' (\<lambda>k. if k = 1 then Inl (mk_error ''503'') else Inr ''fine'')"
  have "?o \<in> set (demo_providers ''502'')" by (simp add: demo_providers_def)
  then have open_free: "abort_free ?o" using free by blast
  have first: "first_answer (lp_reply ?o r) 2 = Inr ''fine''" for r
    by (simp add: first_answer_def demo_provider_def upt_rec)
  have limit: "retry_limit (max_retries (demo_chat_env 0) demo_chat_config) = 2"
    by (simp add: retry_limit_def max_retries_def demo_chat_env_def demo_chat_config_def)
  have openai: "answers (demo_chat_env 0) demo_chat_config ''q'' fresh_breaker ?o"
    using first limit call_provider_calm [OF calm open_free]
    by (simp add: answers_def) (simp add: ready_def demo_provider_def breaker_gate_def)
  show ?thesis
    unfolding chat_call_takes_first_answer [OF calm free d]
    using kimi openai first limit
    by (simp add: demo_providers_def demo_chat_config_def ordered_providers_def) (simp add: demo_provider_def)
qed

definition demo_job :: "int \<Rightarrow> string \<Rightarrow> chat_job" where
  "demo_job now msg = (demo_chat_env now, demo_chat_config, demo_providers msg, ''q'')"

theorem failing_kimi_is_left_alone_witness:
  "let b' = snd (chat_calls [demo_job 0 ''502'', demo_job 1000 ''502'', demo_job 2000 ''502''] fresh_breaker) in
   bk_circuit b' = CircuitOpen \<and> snd (chat_call (demo_chat_env 61999) demo_chat_config (demo_providers ''502'') ''q'' b') = b'"
proof -
  have one: "\<exists>k e. reaches_kimi (demo_chat_env now) demo_chat_config ''q'' (demo_providers ''502'') k \<and>
      call_provider (demo_chat_env now) demo_chat_config ''q'' k = Inl e \<and> \<not> isAbortError e" for now
    using demo_reaches demo_kimi demo_errors(2) by blast
  show ?thesis
    using failing_kimi_is_left_alone [of fresh_breaker "[demo_job 0 ''502'', demo_job 1000 ''502'', demo_job 2000 ''502'']",
        unfolded demo_job_def, OF _ _ refl, of "demo_chat_env 61999" demo_chat_config "demo_providers ''502''" "''q''"] one
    by (simp add: fresh_breaker_def demo_job_def Let_def KIMI_CIRCUIT_COOLDOWN_MS_def) (simp add: demo_chat_env_def)
qed

definition tripped :: breaker where
  "tripped = \<lparr>bk_failures = 3, bk_circuit = CircuitOpen, bk_openedAt = Some 2000, bk_probe = False\<rparr>"

theorem probe_that_looks_aborted_disables_kimi_witness:
  "\<forall>js f. chat_calls (map (\<lambda>(env, cfg, ps, prompt). (env, cfg, map (with_kimi f) ps, prompt)) js)
            (snd (chat_call (demo_chat_env 62000) demo_chat_config (demo_providers ''Request aborted'') ''q'' tripped)) =
          chat_calls js (snd (chat_call (demo_chat_env 62000) demo_chat_config (demo_providers ''Request aborted'') ''q'' tripped))"
  using probe_that_looks_aborted_disables_kimi [OF _ _ _ _ demo_reaches [of 62000 "''q''" "''Request aborted''"], of tripped 2000]
    demo_kimi demo_errors(3)
  by (simp add: tripped_def KIMI_CIRCUIT_COOLDOWN_MS_def) (simp add: demo_chat_env_def)

end
