(* ===== verification/Enrichment.thy ===== *)
theory Enrichment
  imports Cortex Runtime
begin

text \<open>
  Filling catalogue fields: the writable columns and their ranges
  (\<open>apps/console-api/src/utils/field-constraints.ts\<close>), the writer of mission fills
  (\<open>mission-fill-writer.service.ts\<close>), the propagation of a field from the nearest neighbours
  (\<open>knn-propagation.service.ts\<close>) and the finding each fill emits
  (\<open>enrichment-finding.service.ts\<close>). What is written is a log of effects; the environment says
  which effects fail.
\<close>

section \<open>parseFloat\<close>

definition digit_run :: "string \<Rightarrow> string \<times> string" where
  [js_defs]: "digit_run s = (takeWhile is_digit s, dropWhile is_digit s)"

definition dec_real :: "string \<Rightarrow> real" where
  "dec_real ds = real (dec_value ds)"

text \<open>The exponent of a number, when a digit follows its \<open>e\<close>.\<close>

definition read_exponent :: "string \<Rightarrow> int" where
  "read_exponent s =
     (case s of
        c # t \<Rightarrow>
          if c = CHR ''e'' \<or> c = CHR ''E''
          then (case t of
                  d # u \<Rightarrow>
                    if d = CHR ''-'' then - int (dec_value (fst (digit_run u)))
                    else if d = CHR ''+'' then int (dec_value (fst (digit_run u)))
                    else int (dec_value (fst (digit_run t)))
                | [] \<Rightarrow> 0)
          else 0
      | [] \<Rightarrow> 0)"

definition read_decimal :: "string \<Rightarrow> real option" where
  "read_decimal s =
     (let (ds, r) = digit_run s;
          (fs, r') = (case r of c # u \<Rightarrow> if c = CHR ''.'' then digit_run u else ([], r) | [] \<Rightarrow> ([], r)) in
      if ds = [] \<and> fs = [] then None
      else Some (scale10 (dec_real ds + dec_real fs / 10 ^ length fs) (read_exponent r')))"

definition parse_unsigned :: "string \<Rightarrow> jsnum" where
  "parse_unsigned s =
     (if starts_with ''Infinity'' s then PosInf
      else (case read_decimal s of None \<Rightarrow> NaN | Some x \<Rightarrow> Fin x))"

definition parse_float :: "string \<Rightarrow> jsnum" where
  "parse_float s =
     (case dropWhile is_space s of
        [] \<Rightarrow> NaN
      | c # t \<Rightarrow>
          if c = CHR ''-'' then (case parse_unsigned t of Fin x \<Rightarrow> Fin (- x) | PosInf \<Rightarrow> NegInf | n \<Rightarrow> n)
          else if c = CHR ''+'' then parse_unsigned t
          else parse_unsigned (c # t))"

definition quoted :: "string \<Rightarrow> string" where
  "quoted s = CHR 0x27 # s @ [CHR 0x27]"

section \<open>Field constraints\<close>

text \<open>
  A lookup in the object literal also finds what every object inherits, such as \<open>constructor\<close>.
\<close>

datatype column_kind = NumericColumn | TextColumn | InheritedEntry

definition object_prototype :: "string list" where
  "object_prototype =
     [''constructor'', ''__defineGetter__'', ''__defineSetter__'', ''hasOwnProperty'', ''__lookupGetter__'',
      ''__lookupSetter__'', ''isPrototypeOf'', ''propertyIsEnumerable'', ''toString'', ''valueOf'', ''__proto__'',
      ''toLocaleString'']"

text \<open>\<open>BigInt(s)\<close> of a string: decimal digits with an optional sign, or a prefix of another base without one.\<close>

definition bigint_digits :: "nat \<Rightarrow> string \<Rightarrow> int option" where
  "bigint_digits base ds =
     (if ds = [] \<or> list_ex (\<lambda>c. digit_in base c = None) ds then None
      else Some (foldl (\<lambda>n c. int base * n + (case digit_in base c of Some d \<Rightarrow> int d | None \<Rightarrow> 0)) 0 ds))"

definition string_bigint :: "string \<Rightarrow> int option" where
  "string_bigint s =
     (let t = trim s in
      if t = [] then Some 0
      else if starts_with ''0x'' t \<or> starts_with ''0X'' t then bigint_digits 16 (drop 2 t)
      else if starts_with ''0o'' t \<or> starts_with ''0O'' t then bigint_digits 8 (drop 2 t)
      else if starts_with ''0b'' t \<or> starts_with ''0B'' t then bigint_digits 2 (drop 2 t)
      else (let (neg, ds) = split_sign t in map_option (\<lambda>n. if neg then - n else n) (bigint_digits 10 ds)))"

definition MISSION_WRITABLE_COLUMNS :: "(string \<times> column_kind) list" where
  "MISSION_WRITABLE_COLUMNS =
     [(''lifetime'', NumericColumn), (''power'', NumericColumn), (''variant'', TextColumn),
      (''mass_kg'', NumericColumn), (''launch_year'', NumericColumn)]"

definition column_kind_of :: "string \<Rightarrow> column_kind option" where
  "column_kind_of field =
     (case map_of MISSION_WRITABLE_COLUMNS field of
        Some k \<Rightarrow> Some k
      | None \<Rightarrow> if field \<in> set object_prototype then Some InheritedEntry else None)"

definition FIELD_RANGE :: "(string \<times> real \<times> real) list" where
  "FIELD_RANGE =
     [(''lifetime'', 1 / 10, 50), (''power'', 1 / 10, 30000), (''mass_kg'', 1 / 10, 30000), (''launch_year'', 1957, 2035)]"

text \<open>The entries inherited from \<open>Object.prototype\<close> have no \<open>min\<close>, so every comparison fails.\<close>

definition inRange :: "string \<Rightarrow> real \<Rightarrow> bool" where
  "inRange field x =
     (case map_of FIELD_RANGE field of
        Some (lo, hi) \<Rightarrow> lo \<le> x \<and> x \<le> hi
      | None \<Rightarrow> field \<notin> set object_prototype)"

section \<open>Effects\<close>

datatype fill_kind = MissionFill | KnnFill

datatype fill_effect =
    FieldUpdated int string jval
  | AuditInserted string string string jval
  | FindingInserted fill_kind int string jval real
  | EdgeInserted bool int real
  | FeedbackPushed fill_kind string jval

text \<open>
  \<open>fe_fails\<close> is the error with which the database or the queue refuses an effect, \<open>fe_cycle\<close> that
  of \<open>cycles.getOrCreate\<close>.
\<close>

record fill_env =
  fe_fails :: "fill_effect \<Rightarrow> exn option"
  fe_cycle :: "exn option"
  fe_numString :: "real \<Rightarrow> string"

type_synonym 'a logged = "fill_effect list \<Rightarrow> 'a throws \<times> fill_effect list"

definition log_bind :: "'a logged \<Rightarrow> ('a \<Rightarrow> 'b logged) \<Rightarrow> 'b logged" where
  [js_defs]: "log_bind m f = (\<lambda>l. case m l of (Inl e, l') \<Rightarrow> (Inl e, l') | (Inr x, l') \<Rightarrow> f x l')"

definition log_return :: "'a \<Rightarrow> 'a logged" where
  [js_defs]: "log_return x = (\<lambda>l. (Inr x, l))"

definition log_throw :: "exn \<Rightarrow> 'a logged" where
  [js_defs]: "log_throw e = (\<lambda>l. (Inl e, l))"

definition perform :: "fill_env \<Rightarrow> fill_effect \<Rightarrow> unit logged" where
  [js_defs]: "perform env eff = (\<lambda>l. case fe_fails env eff of Some e \<Rightarrow> (Inl e, l) | None \<Rightarrow> (Inr (), l @ [eff]))"

fun perform_all :: "fill_env \<Rightarrow> fill_effect list \<Rightarrow> unit logged" where
  "perform_all env [] = log_return ()"
| "perform_all env (eff # es) = log_bind (perform env eff) (\<lambda>_. perform_all env es)"

text \<open>\<open>fieldSqlFor\<close> admits the five columns only.\<close>

definition updateField :: "fill_env \<Rightarrow> int \<Rightarrow> string \<Rightarrow> jval \<Rightarrow> unit logged" where
  "updateField env sat field v =
     (if field \<in> set (map fst MISSION_WRITABLE_COLUMNS) then perform env (FieldUpdated sat field v)
      else log_throw (mk_error (''fieldSqlFor: unsupported field '' @ quoted field)))"

definition emit_finding ::
  "fill_env \<Rightarrow> fill_kind \<Rightarrow> int \<Rightarrow> string \<Rightarrow> jval \<Rightarrow> real \<Rightarrow> int list \<Rightarrow> real \<Rightarrow> unit logged" where
  "emit_finding env kind sat field v confidence neighbours cosSim =
     (case fe_cycle env of
        Some e \<Rightarrow> log_throw e
      | None \<Rightarrow>
          perform_all env
            ([FindingInserted kind sat field v confidence, EdgeInserted True sat 1] @
             (if kind = KnnFill then map (\<lambda>n. EdgeInserted False n cosSim) (take 10 neighbours) else []) @
             [FeedbackPushed kind field v]))"

section \<open>Mission fills\<close>

datatype fill_result = FillApplied jval | FillRefused string

definition stripped :: "string \<Rightarrow> string" where
  "stripped s = filter (\<lambda>c. is_digit c \<or> c = CHR ''.'' \<or> c = CHR ''+'' \<or> c = CHR ''-'') s"

definition fill_number :: "fill_env \<Rightarrow> jval \<Rightarrow> jsnum" where
  "fill_number env v =
     (case v of JNum x \<Rightarrow> Fin x | _ \<Rightarrow> parse_float (stripped (js_string (fe_numString env) v)))"

definition write_fill :: "fill_env \<Rightarrow> int \<Rightarrow> string \<Rightarrow> jval \<Rightarrow> string \<Rightarrow> fill_result logged" where
  "write_fill env sat field v source =
     log_bind (updateField env sat field v) (\<lambda>_.
       log_bind (perform env (AuditInserted (''mission:'' @ show_int sat @ '':'' @ field) field source v)) (\<lambda>_.
         log_bind (emit_finding env MissionFill sat field v (9 / 10) [] 0) (\<lambda>_. log_return (FillApplied v))))"

definition applyFill :: "fill_env \<Rightarrow> int \<Rightarrow> string \<Rightarrow> jval \<Rightarrow> string \<Rightarrow> fill_result logged" where
  "applyFill env sat field v source =
     (case column_kind_of field of
        None \<Rightarrow> log_return (FillRefused (''unsupported field '' @ quoted field))
      | Some NumericColumn \<Rightarrow>
          (case fill_number env v of
             Fin x \<Rightarrow>
               if inRange field x then write_fill env sat field (JNum x) source
               else log_return (FillRefused (''out-of-range value for '' @ quoted field))
           | _ \<Rightarrow> log_return (FillRefused (''non-finite numeric value for '' @ quoted field)))
      | Some _ \<Rightarrow> write_fill env sat field (JStr (js_string (fe_numString env) v)) source)"

section \<open>Propagation from the nearest neighbours\<close>

record propagate_input =
  kp_field :: string
  kp_k :: nat
  kp_minSim :: real
  kp_limit :: nat
  kp_dryRun :: bool

record knn_neighbour =
  kn_id :: int
  kn_value :: jval
  kn_distance :: real

record knn_sample =
  kv_id :: int
  kv_name :: string
  kv_value :: jval
  kv_neighbours :: "int list"
  kv_sim :: real

record propagate_stats =
  kq_attempted :: nat
  kq_filled :: nat
  kq_disagree :: nat
  kq_tooFar :: nat
  kq_outOfRange :: nat
  kq_samples :: "knn_sample list"

text \<open>
  The two queries: targets whose field is null, and the neighbours of a target, nearest first. Both
  throw on a field that is no column.
\<close>

record knn_env =
  kx_fill :: fill_env
  kx_targets :: "string \<Rightarrow> nat \<Rightarrow> (int \<times> string) list throws"
  kx_neighbours :: "int \<Rightarrow> string \<Rightarrow> nat \<Rightarrow> knn_neighbour list throws"

definition neighbour_number :: "fill_env \<Rightarrow> jval \<Rightarrow> jsnum" where
  "neighbour_number env v = (case v of JNum x \<Rightarrow> Fin x | _ \<Rightarrow> parse_float (js_string (fe_numString env) v))"

definition known_values :: "knn_neighbour list \<Rightarrow> jval list" where
  "known_values ns = filter (\<lambda>v. v \<noteq> JNull \<and> v \<noteq> JUndef) (map kn_value ns)"

text \<open>The numbers in range, and how many values were no such number.\<close>

definition numeric_value :: "fill_env \<Rightarrow> string \<Rightarrow> jval \<Rightarrow> real option" where
  "numeric_value env field v =
     (case neighbour_number env v of Fin x \<Rightarrow> if inRange field x then Some x else None | _ \<Rightarrow> None)"

definition numeric_values :: "fill_env \<Rightarrow> string \<Rightarrow> knn_neighbour list \<Rightarrow> real list" where
  "numeric_values env field ns = List.map_filter (numeric_value env field) (known_values ns)"

definition out_of_range :: "fill_env \<Rightarrow> string \<Rightarrow> knn_neighbour list \<Rightarrow> nat" where
  "out_of_range env field ns = length (filter (\<lambda>v. numeric_value env field v = None) (known_values ns))"

definition text_values :: "fill_env \<Rightarrow> knn_neighbour list \<Rightarrow> string list" where
  "text_values env ns = map (\<lambda>v. to_lower (trim (js_string (fe_numString env) v))) (known_values ns)"

definition median_of :: "real list \<Rightarrow> real" where
  "median_of xs = sort xs ! (length xs div 2)"

definition agrees :: "real \<Rightarrow> real \<Rightarrow> bool" where
  "agrees m x = (\<bar>x - m\<bar> / max \<bar>m\<bar> (1 / 10 ^ 9) \<le> 1 / 10)"

definition numeric_consensus :: "real list \<Rightarrow> real option" where
  "numeric_consensus xs = (if list_all (agrees (median_of xs)) xs then Some (median_of xs) else None)"

definition count_text :: "string list \<Rightarrow> (string \<times> nat) list" where
  "count_text xs =
     foldl (\<lambda>freq v. AList.update v ((case map_of freq v of None \<Rightarrow> 0 | Some n \<Rightarrow> n) + 1) freq) [] xs"

fun most_frequent :: "(string \<times> nat) list \<Rightarrow> (string \<times> nat) option \<Rightarrow> (string \<times> nat) option" where
  "most_frequent [] best = best"
| "most_frequent ((v, n) # freq) best =
     (case best of
        None \<Rightarrow> most_frequent freq (Some (v, n))
      | Some (w, m) \<Rightarrow> most_frequent freq (if m < n then Some (v, n) else best))"

definition text_consensus :: "string list \<Rightarrow> string option" where
  "text_consensus xs =
     (case most_frequent (count_text xs) None of
        None \<Rightarrow> None
      | Some (v, n) \<Rightarrow> if 66 / 100 \<le> real n / real (length xs) then Some v else None)"

datatype knn_outcome = TooFar | Disagree | Consensus jval

definition consensus_of :: "fill_env \<Rightarrow> string \<Rightarrow> knn_neighbour list \<Rightarrow> knn_outcome" where
  "consensus_of env field ns =
     (if column_kind_of field = Some NumericColumn
      then (let xs = numeric_values env field ns in
            if length xs < 3 then TooFar
            else (case numeric_consensus xs of None \<Rightarrow> Disagree | Some x \<Rightarrow> Consensus (JNum x)))
      else (let xs = text_values env ns in
            if length xs < 3 then TooFar
            else (case text_consensus xs of None \<Rightarrow> Disagree | Some x \<Rightarrow> Consensus (JStr x))))"

definition knn_decide :: "fill_env \<Rightarrow> string \<Rightarrow> real \<Rightarrow> knn_neighbour list \<Rightarrow> knn_outcome \<times> nat" where
  "knn_decide env field minSim ns =
     (if length ns < 3 then (TooFar, 0)
      else if 1 - minSim < kn_distance (hd ns) then (TooFar, 0)
      else (consensus_of env field ns,
            if column_kind_of field = Some NumericColumn then out_of_range env field ns else 0))"

definition knn_source :: "nat \<Rightarrow> int list \<Rightarrow> real \<Rightarrow> string" where
  "knn_source k ids cosSim =
     ''knn_propagation:requestedK='' @ show_nat k @ '',used='' @ show_nat (length ids) @ '',cosSim='' @ to_fixed 3 cosSim @
     '',neighbours=['' @ join '','' (map show_int (take 5 ids)) @ '']''"

definition apply_knn :: "fill_env \<Rightarrow> int \<Rightarrow> string \<Rightarrow> jval \<Rightarrow> int list \<Rightarrow> real \<Rightarrow> nat \<Rightarrow> unit logged" where
  "apply_knn env sat field v ids cosSim k =
     log_bind (updateField env sat field v) (\<lambda>_.
       log_bind (perform env (AuditInserted (''knn:'' @ show_int sat @ '':'' @ field) field (knn_source k ids cosSim) v)) (\<lambda>_.
         emit_finding env KnnFill sat field v (max (1 / 2) (min (95 / 100) cosSim)) ids cosSim))"

definition note_sample :: "knn_sample \<Rightarrow> propagate_stats \<Rightarrow> propagate_stats" where
  "note_sample s stats = (if length (kq_samples stats) < 10 then stats\<lparr>kq_samples := kq_samples stats @ [s]\<rparr> else stats)"

definition propagate_one ::
  "knn_env \<Rightarrow> propagate_input \<Rightarrow> int \<times> string \<Rightarrow> propagate_stats \<Rightarrow> propagate_stats logged" where
  "propagate_one env input t stats0 =
     (let stats = stats0\<lparr>kq_attempted := kq_attempted stats0 + 1\<rparr>; fenv = kx_fill env in
      case kx_neighbours env (fst t) (kp_field input) (kp_k input) of
        Inl e \<Rightarrow> log_throw e
      | Inr ns \<Rightarrow>
          (case knn_decide fenv (kp_field input) (kp_minSim input) ns of
             (outcome, bad) \<Rightarrow>
               (let stats = stats\<lparr>kq_outOfRange := kq_outOfRange stats + bad\<rparr> in
                case outcome of
                  TooFar \<Rightarrow> log_return (stats\<lparr>kq_tooFar := kq_tooFar stats + 1\<rparr>)
                | Disagree \<Rightarrow> log_return (stats\<lparr>kq_disagree := kq_disagree stats + 1\<rparr>)
                | Consensus v \<Rightarrow>
                    (let sim = 1 - kn_distance (hd ns); ids = map kn_id ns;
                         done = note_sample \<lparr>kv_id = fst t, kv_name = snd t, kv_value = v,
                                   kv_neighbours = take 3 ids, kv_sim = of_int (js_round (sim * 1000)) / 1000\<rparr>
                                  (stats\<lparr>kq_filled := kq_filled stats + 1\<rparr>) in
                     if kp_dryRun input then log_return done
                     else log_bind (apply_knn fenv (fst t) (kp_field input) v ids sim (kp_k input)) (\<lambda>_. log_return done)))))"

fun propagate_all ::
  "knn_env \<Rightarrow> propagate_input \<Rightarrow> (int \<times> string) list \<Rightarrow> propagate_stats \<Rightarrow> propagate_stats logged" where
  "propagate_all env input [] stats = log_return stats"
| "propagate_all env input (t # ts) stats =
     log_bind (propagate_one env input t stats) (\<lambda>stats'. propagate_all env input ts stats')"

definition no_stats :: propagate_stats where
  "no_stats = \<lparr>kq_attempted = 0, kq_filled = 0, kq_disagree = 0, kq_tooFar = 0, kq_outOfRange = 0, kq_samples = []\<rparr>"

definition propagate :: "knn_env \<Rightarrow> propagate_input \<Rightarrow> propagate_stats logged" where
  "propagate env input =
     (case kx_targets env (kp_field input) (kp_limit input) of
        Inl e \<Rightarrow> log_throw e
      | Inr ts \<Rightarrow> propagate_all env input ts no_stats)"

section \<open>What a computation writes\<close>

text \<open>Whatever it returns, the effects it adds to the log satisfy \<open>P\<close>.\<close>

definition writes_only :: "(fill_effect \<Rightarrow> bool) \<Rightarrow> 'a logged \<Rightarrow> bool" where
  "writes_only P m = (\<forall>l. \<exists>es. snd (m l) = l @ es \<and> list_all P es)"

lemma writes_return [simp]: "writes_only P (log_return x)"
  by (simp add: writes_only_def log_return_def)

lemma writes_throw [simp]: "writes_only P (log_throw e)"
  by (simp add: writes_only_def log_throw_def)

lemma writes_bind [intro]:
  assumes "writes_only P m" and "\<And>x. writes_only P (f x)"
  shows "writes_only P (log_bind m f)"
  unfolding writes_only_def
proof
  fix l
  obtain r es where m: "m l = (r, l @ es)" "list_all P es"
    using assms(1) unfolding writes_only_def by (metis prod.collapse)
  show "\<exists>es. snd (log_bind m f l) = l @ es \<and> list_all P es"
  proof (cases r)
    case (Inl e)
    then show ?thesis using m by (simp add: log_bind_def)
  next
    case (Inr x)
    obtain es' where "snd (f x (l @ es)) = (l @ es) @ es'" "list_all P es'"
      using assms(2) [of x] unfolding writes_only_def by blast
    then show ?thesis using m Inr by (intro exI [of _ "es @ es'"]) (simp add: log_bind_def)
  qed
qed

lemma writes_perform: "P eff \<Longrightarrow> writes_only P (perform env eff)"
  by (simp add: writes_only_def perform_def split: option.split)

lemma writes_perform_all: "list_all P es \<Longrightarrow> writes_only P (perform_all env es)"
  by (induction es) (auto intro: writes_perform)

lemma writes_effects: "writes_only P m \<Longrightarrow> m [] = (r, l) \<Longrightarrow> eff \<in> set l \<Longrightarrow> P eff"
  unfolding writes_only_def by (metis append_Nil list_all_iff snd_conv)

text \<open>Every field update satisfies \<open>Q\<close>.\<close>

fun updates_ok :: "(int \<Rightarrow> string \<Rightarrow> jval \<Rightarrow> bool) \<Rightarrow> fill_effect \<Rightarrow> bool" where
  "updates_ok Q (FieldUpdated sat field v) = Q sat field v"
| "updates_ok Q _ = True"

lemma updateField_writes:
  "(field \<in> set (map fst MISSION_WRITABLE_COLUMNS) \<Longrightarrow> Q sat field v) \<Longrightarrow>
   writes_only (updates_ok Q) (updateField env sat field v)"
  by (simp add: updateField_def writes_perform)

lemma emit_writes: "writes_only (updates_ok Q) (emit_finding env kind sat field v c ns sim)"
proof -
  have "list_all (updates_ok Q) ([FindingInserted kind sat field v c, EdgeInserted True sat 1] @
    (if kind = KnnFill then map (\<lambda>n. EdgeInserted False n sim) (take 10 ns) else []) @ [FeedbackPushed kind field v])"
    by (auto simp: list_all_iff)
  then show ?thesis unfolding emit_finding_def
    by (cases "fe_cycle env") (simp_all only: option.case writes_throw writes_perform_all)
qed

lemma write_fill_writes:
  "(field \<in> set (map fst MISSION_WRITABLE_COLUMNS) \<Longrightarrow> Q sat field v) \<Longrightarrow>
   writes_only (updates_ok Q) (write_fill env sat field v source)"
  unfolding write_fill_def by (intro writes_bind updateField_writes writes_perform emit_writes writes_return) simp_all

lemma apply_knn_writes:
  "(field \<in> set (map fst MISSION_WRITABLE_COLUMNS) \<Longrightarrow> Q sat field v) \<Longrightarrow>
   writes_only (updates_ok Q) (apply_knn env sat field v ids sim k)"
  unfolding apply_knn_def by (intro writes_bind updateField_writes writes_perform emit_writes) simp_all

section \<open>Consensus\<close>

lemma median_in: "xs \<noteq> [] \<Longrightarrow> median_of xs \<in> set xs"
proof -
  assume "xs \<noteq> []"
  then have "length xs div 2 < length (sort xs)" by (simp add: div_less_dividend)
  then have "median_of xs \<in> set (sort xs)" unfolding median_of_def by (rule nth_mem)
  then show ?thesis by simp
qed

lemma agrees_iff: "agrees m x \<longleftrightarrow> \<bar>x - m\<bar> \<le> max \<bar>m\<bar> (1 / 10 ^ 9) / 10"
proof -
  have "0 < max \<bar>m\<bar> (1 / 10 ^ 9 :: real)" by (rule less_le_trans [OF _ max.cobounded2]) simp
  then show ?thesis by (simp add: agrees_def divide_le_eq)
qed

lemma numeric_values_props: "x \<in> set (numeric_values env field ns) \<Longrightarrow> inRange field x"
  by (auto simp: numeric_values_def map_filter_def numeric_value_def split: jsnum.splits if_splits)

text \<open>
  What backs a number written to a satellite: at least three neighbours have a number in range, the
  nearest is near enough, the number is one of theirs and they all lie within a tenth of it.
\<close>

definition backed_number :: "knn_env \<Rightarrow> propagate_input \<Rightarrow> int \<Rightarrow> real \<Rightarrow> bool" where
  "backed_number env input sat m =
     (case kx_neighbours env sat (kp_field input) (kp_k input) of
        Inl _ \<Rightarrow> False
      | Inr ns \<Rightarrow>
          (let xs = numeric_values (kx_fill env) (kp_field input) ns in
           3 \<le> length xs \<and> kn_distance (hd ns) \<le> 1 - kp_minSim input \<and> m \<in> set xs \<and> inRange (kp_field input) m \<and>
           list_all (\<lambda>x. \<bar>x - m\<bar> \<le> max \<bar>m\<bar> (1 / 10 ^ 9) / 10) xs))"

lemma decided_number:
  assumes "column_kind_of field = Some NumericColumn" "knn_decide env field minSim ns = (Consensus v, bad)"
  shows "\<exists>m. v = JNum m \<and> 3 \<le> length (numeric_values env field ns) \<and> kn_distance (hd ns) \<le> 1 - minSim \<and>
    m \<in> set (numeric_values env field ns) \<and> inRange field m \<and>
    list_all (\<lambda>x. \<bar>x - m\<bar> \<le> max \<bar>m\<bar> (1 / 10 ^ 9) / 10) (numeric_values env field ns)"
proof -
  let ?xs = "numeric_values env field ns"
  have "3 \<le> length ?xs" "numeric_consensus ?xs = Some (median_of ?xs)" "v = JNum (median_of ?xs)"
    "kn_distance (hd ns) \<le> 1 - minSim" "list_all (agrees (median_of ?xs)) ?xs"
    using assms by (auto simp: knn_decide_def consensus_of_def Let_def numeric_consensus_def split: if_splits)
  moreover have "median_of ?xs \<in> set ?xs" by (rule median_in) (use calculation(1) in auto)
  ultimately show ?thesis using numeric_values_props [of "median_of ?xs" env field ns] by (auto simp: agrees_iff list_all_iff)
qed

lemma decided_text:
  assumes "column_kind_of field \<noteq> Some NumericColumn" "knn_decide env field minSim ns = (Consensus v, bad)"
  shows "\<exists>s. v = JStr s \<and> s \<in> set (text_values env ns)"
proof -
  have best: "most_frequent freq b = Some (w, n) \<Longrightarrow> w \<in> fst ` set freq \<or> b = Some (w, n)" for freq b w n
  proof (induction freq arbitrary: b)
    case (Cons x freq)
    obtain w' n' where x: "x = (w', n')" by (cases x)
    show ?case
    proof (cases b)
      case None
      then show ?thesis using Cons.prems Cons.IH [of "Some (w', n')"] x by auto
    next
      case (Some y)
      then show ?thesis using Cons.prems Cons.IH [of "if snd y < n' then Some (w', n') else b"] x
        by (cases y) (auto split: if_splits)
    qed
  qed simp
  have keys: "fst ` set (count_text xs) \<subseteq> set xs" for xs
  proof -
    have "fst ` set (foldl (\<lambda>freq v. AList.update v ((case map_of freq v of None \<Rightarrow> 0 | Some n \<Rightarrow> n) + 1) freq) acc xs)
      \<subseteq> fst ` set acc \<union> set xs" for acc :: "(string \<times> nat) list"
    proof (induction xs arbitrary: acc)
      case (Cons v xs)
      show ?case using Cons.IH [of "AList.update v ((case map_of acc v of None \<Rightarrow> 0 | Some n \<Rightarrow> n) + 1) acc"] by auto
    qed simp
    from this [of "[]"] show ?thesis by (simp add: count_text_def)
  qed
  obtain s where "text_consensus (text_values env ns) = Some s" "v = JStr s"
    using assms by (auto simp: knn_decide_def consensus_of_def Let_def split: if_splits option.splits)
  moreover from this obtain n where "most_frequent (count_text (text_values env ns)) None = Some (s, n)"
    by (auto simp: text_consensus_def split: option.splits if_splits)
  ultimately show ?thesis using best [of "count_text (text_values env ns)" None s n] keys [of "text_values env ns"] by auto
qed

section \<open>Runs of the propagation\<close>

definition backed :: "knn_env \<Rightarrow> propagate_input \<Rightarrow> int \<Rightarrow> string \<Rightarrow> jval \<Rightarrow> bool" where
  "backed env input sat field v =
     (field = kp_field input \<and> \<not> kp_dryRun input \<and> field \<in> set (map fst MISSION_WRITABLE_COLUMNS) \<and>
      (if column_kind_of field = Some NumericColumn then \<exists>m. v = JNum m \<and> backed_number env input sat m
       else \<exists>ns s. kx_neighbours env sat field (kp_k input) = Inr ns \<and> s \<in> set (text_values (kx_fill env) ns) \<and> v = JStr s))"

lemma decided_backed:
  assumes "kx_neighbours env sat (kp_field input) (kp_k input) = Inr ns"
    and "knn_decide (kx_fill env) (kp_field input) (kp_minSim input) ns = (Consensus v, bad)"
    and "\<not> kp_dryRun input" and "kp_field input \<in> set (map fst MISSION_WRITABLE_COLUMNS)"
  shows "backed env input sat (kp_field input) v"
proof (cases "column_kind_of (kp_field input) = Some NumericColumn")
  case True
  then show ?thesis using decided_number [OF True assms(2)] assms by (auto simp: backed_def backed_number_def Let_def)
next
  case False
  then show ?thesis using decided_text [OF False assms(2)] assms by (auto simp: backed_def)
qed

lemma propagate_one_writes: "writes_only (updates_ok (backed env input)) (propagate_one env input t stats)"
proof (cases "kx_neighbours env (fst t) (kp_field input) (kp_k input)")
  case (Inl e)
  then show ?thesis by (simp add: propagate_one_def)
next
  case (Inr ns)
  obtain outcome bad where d: "knn_decide (kx_fill env) (kp_field input) (kp_minSim input) ns = (outcome, bad)"
    by (cases "knn_decide (kx_fill env) (kp_field input) (kp_minSim input) ns")
  show ?thesis
  proof (cases outcome)
    case (Consensus v)
    have "writes_only (updates_ok (backed env input)) (apply_knn (kx_fill env) (fst t) (kp_field input) v ids sim (kp_k input))"
      if "\<not> kp_dryRun input" for ids sim
      using decided_backed [OF Inr _ that] d Consensus by (intro apply_knn_writes) blast
    then show ?thesis using Inr d Consensus by (auto simp: propagate_one_def Let_def)
  qed (use Inr d in \<open>simp_all add: propagate_one_def Let_def\<close>)
qed

lemma propagate_writes: "writes_only (updates_ok (backed env input)) (propagate env input)"
proof -
  have "writes_only (updates_ok (backed env input)) (propagate_all env input ts stats)" for ts stats
    by (induction ts arbitrary: stats) (auto intro: writes_bind propagate_one_writes)
  then show ?thesis by (simp add: propagate_def split: sum.split)
qed

fun is_update :: "fill_effect \<Rightarrow> bool" where
  "is_update (FieldUpdated sat field v) = True"
| "is_update _ = False"

definition updates :: "fill_effect list \<Rightarrow> nat" where
  "updates l = length (filter is_update l)"

lemma updates_simps [simp]: "updates [] = 0" "updates (l @ l') = updates l + updates l'"
  "updates (eff # l) = (if is_update eff then 1 else 0) + updates l"
  by (simp_all add: updates_def)

lemma perform_Inr: "perform env eff l = (Inr x, l') \<longleftrightarrow> fe_fails env eff = None \<and> l' = l @ [eff]"
  by (auto simp: perform_def split: option.splits)

lemma bind_Inr: "log_bind m f l = (Inr y, l') \<longleftrightarrow> (\<exists>x l1. m l = (Inr x, l1) \<and> f x l1 = (Inr y, l'))"
  by (auto simp: log_bind_def split: prod.splits sum.splits)

lemma perform_all_Inr: "perform_all env es l = (Inr x, l') \<Longrightarrow> l' = l @ es"
proof (induction es arbitrary: l)
  case (Cons eff es)
  then show ?case by (force simp: bind_Inr perform_Inr)
qed (simp add: log_return_def)

lemma emit_Inr: "emit_finding env kind sat field v c ns sim l = (Inr x, l') \<Longrightarrow>
  updates l' = updates l \<and> set l \<subseteq> set l'"
proof -
  assume e: "emit_finding env kind sat field v c ns sim l = (Inr x, l')"
  have none: "fe_cycle env = None" using e by (cases "fe_cycle env") (simp_all add: emit_finding_def log_throw_def)
  have edges: "updates (map (\<lambda>n. EdgeInserted False n sim) ns') = 0" for ns'
    by (auto simp: updates_def filter_empty_conv)
  have "perform_all env ([FindingInserted kind sat field v c, EdgeInserted True sat 1] @
    (if kind = KnnFill then map (\<lambda>n. EdgeInserted False n sim) (take 10 ns) else []) @ [FeedbackPushed kind field v]) l = (Inr x, l')"
    using e none by (simp only: emit_finding_def option.case)
  from perform_all_Inr [OF this] show ?thesis using edges by auto
qed

lemma updateField_Inr:
  "updateField env sat field v l = (Inr x, l') \<Longrightarrow>
   l' = l @ [FieldUpdated sat field v] \<and> field \<in> set (map fst MISSION_WRITABLE_COLUMNS)"
  by (auto simp: updateField_def perform_Inr log_throw_def split: if_splits)

lemma apply_knn_Inr: "apply_knn env sat field v ids sim k l = (Inr x, l') \<Longrightarrow> updates l' = updates l + 1"
  unfolding apply_knn_def by (auto simp: bind_Inr perform_Inr dest!: updateField_Inr emit_Inr)

lemma write_fill_Inr:
  "write_fill env sat field v source l = (Inr x, l') \<Longrightarrow>
   x = FillApplied v \<and> updates l' = updates l + 1 \<and> FieldUpdated sat field v \<in> set l' \<and> field \<in> set (map fst MISSION_WRITABLE_COLUMNS)"
  unfolding write_fill_def by (auto simp: bind_Inr perform_Inr log_return_def dest!: updateField_Inr emit_Inr)

text \<open>The counters after \<open>n\<close> targets, given the updates written.\<close>

definition stats_ok :: "propagate_input \<Rightarrow> nat \<Rightarrow> propagate_stats \<Rightarrow> nat \<Rightarrow> bool" where
  "stats_ok input n s writes =
     (kq_attempted s = n \<and> kq_attempted s = kq_filled s + kq_disagree s + kq_tooFar s \<and>
      length (kq_samples s) = min 10 (kq_filled s) \<and> writes = (if kp_dryRun input then 0 else kq_filled s))"

lemma note_sample_simps [simp]:
  "kq_attempted (note_sample x s) = kq_attempted s" "kq_filled (note_sample x s) = kq_filled s"
  "kq_disagree (note_sample x s) = kq_disagree s" "kq_tooFar (note_sample x s) = kq_tooFar s"
  "length (kq_samples (note_sample x s)) = (if length (kq_samples s) < 10 then length (kq_samples s) + 1 else length (kq_samples s))"
  by (simp_all add: note_sample_def)

lemma propagate_one_stats:
  assumes "propagate_one env input t s l = (Inr s', l')" and "stats_ok input n s (updates l)"
  shows "stats_ok input (Suc n) s' (updates l')"
proof -
  obtain ns where ns: "kx_neighbours env (fst t) (kp_field input) (kp_k input) = Inr ns"
    using assms(1) by (auto simp: propagate_one_def Let_def log_throw_def split: sum.splits)
  obtain outcome bad where d: "knn_decide (kx_fill env) (kp_field input) (kp_minSim input) ns = (outcome, bad)"
    by (cases "knn_decide (kx_fill env) (kp_field input) (kp_minSim input) ns")
  show ?thesis
  proof (cases outcome)
    case (Consensus v)
    then show ?thesis using assms ns d
      by (auto simp: propagate_one_def Let_def bind_Inr log_return_def stats_ok_def dest!: apply_knn_Inr split: if_splits)
  qed (use assms ns d in \<open>auto simp: propagate_one_def Let_def log_return_def stats_ok_def\<close>)
qed

lemma propagate_all_stats:
  "propagate_all env input ts s l = (Inr s', l') \<Longrightarrow> stats_ok input n s (updates l) \<Longrightarrow>
   stats_ok input (n + length ts) s' (updates l')"
proof (induction ts arbitrary: n s l)
  case (Cons t ts)
  then obtain s1 l1 where one: "propagate_one env input t s l = (Inr s1, l1)"
    and rest: "propagate_all env input ts s1 l1 = (Inr s', l')" by (auto simp: bind_Inr)
  show ?case using Cons.IH [OF rest propagate_one_stats [OF one Cons.prems(2)]] by simp
qed (simp add: log_return_def)

section \<open>Reading numbers\<close>

lemma dec_value_digits: "digit_run (ds @ r) = (ds, r)" if "list_all is_digit ds" "r = [] \<or> \<not> is_digit (hd r)"
  using that by (induction ds) (cases r; auto simp: digit_run_def)+

lemma digit_not: "is_digit c \<Longrightarrow> c \<noteq> CHR ''.'' \<and> c \<noteq> CHR ''-'' \<and> c \<noteq> CHR ''+'' \<and> c \<noteq> CHR ''e'' \<and> c \<noteq> CHR ''E'' \<and> c \<noteq> CHR ''I'' \<and> \<not> is_space c"
  by (auto simp: is_digit_def is_space_def)

lemma dec_real_Nil [simp]: "dec_real [] = 0"
  by (simp add: dec_real_def dec_value_def)

lemma parse_digits:
  assumes "list_all is_digit ds" "ds \<noteq> []" "r = [] \<or> (\<not> is_digit (hd r) \<and> hd r \<noteq> CHR ''.'')"
  shows "parse_float (ds @ r) = Fin (scale10 (dec_real ds) (read_exponent r))"
proof -
  obtain c cs where ds: "ds = c # cs" using assms(2) by (cases ds) auto
  have c: "is_digit c" using assms(1) ds by simp
  have run: "digit_run (ds @ r) = (ds, r)" using dec_value_digits assms(1,3) by blast
  have "read_decimal (ds @ r) = Some (scale10 (dec_real ds) (read_exponent r))"
  proof (cases r)
    case Nil
    then show ?thesis using run assms(2) by (simp add: read_decimal_def)
  next
    case (Cons x xs)
    then have "x \<noteq> CHR ''.''" using assms(3) by simp
    then show ?thesis using run assms(2) Cons by (simp add: read_decimal_def)
  qed
  moreover have "\<not> starts_with ''Infinity'' (ds @ r)" using ds digit_not [OF c] by auto
  moreover have "dropWhile is_space (ds @ r) = c # cs @ r" using ds digit_not [OF c] by simp
  ultimately show ?thesis using digit_not [OF c] ds by (simp add: parse_float_def parse_unsigned_def)
qed

section \<open>Properties\<close>

text \<open>C33: A propagation only writes what the neighbours back: every field update of a run, also of one
  that fails half way, is of the requested, writable column; a number is one of at least three
  in-range values of the neighbours of that satellite, all within a tenth of it, the nearest of them
  near enough. A run that returns has accounted for every target and, unless it is a dry run, has
  written one update per fill.\<close>

theorem propagation_writes_backed_values:
  assumes "propagate env input [] = (res, l)"
  shows "(\<forall>sat field v. FieldUpdated sat field v \<in> set l \<longrightarrow> backed env input sat field v) \<and>
    (\<forall>s. res = Inr s \<longrightarrow> (\<exists>ts. kx_targets env (kp_field input) (kp_limit input) = Inr ts \<and>
       kq_attempted s = length ts \<and> kq_attempted s = kq_filled s + kq_disagree s + kq_tooFar s \<and>
       length (kq_samples s) = min 10 (kq_filled s) \<and> updates l = (if kp_dryRun input then 0 else kq_filled s)))"
proof -
  have "backed env input sat field v" if "FieldUpdated sat field v \<in> set l" for sat field v
    using writes_effects [OF propagate_writes assms that] by simp
  moreover have "\<exists>ts. kx_targets env (kp_field input) (kp_limit input) = Inr ts \<and> stats_ok input (length ts) s (updates l)"
    if r: "res = Inr s" for s
  proof -
    obtain ts where ts: "kx_targets env (kp_field input) (kp_limit input) = Inr ts"
      "propagate_all env input ts no_stats [] = (Inr s, l)"
      using assms r by (auto simp: propagate_def log_throw_def split: sum.splits)
    have "stats_ok input 0 no_stats (updates [])" by (simp add: stats_ok_def no_stats_def)
    from propagate_all_stats [OF ts(2) this] show ?thesis using ts(1) by simp
  qed
  ultimately show ?thesis by (auto simp: stats_ok_def)
qed

text \<open>A text value is propagated in lower case: when all the neighbours, at least three, hold the same
  string, what is written is that string trimmed and lower-cased, the key it was counted under.\<close>

theorem text_is_propagated_in_lower_case:
  assumes "column_kind_of field = Some TextColumn" and "3 \<le> length ns"
    and "\<forall>n\<in>set ns. kn_value n = JStr s" and "kn_distance (hd ns) \<le> 1 - minSim"
  shows "knn_decide env field minSim ns = (Consensus (JStr (to_lower (trim s))), 0)"
proof -
  let ?t = "to_lower (trim s)"
  have "known_values ns = replicate (length ns) (JStr s)"
    using assms(3) by (induction ns) (auto simp: known_values_def)
  then have texts: "text_values env ns = replicate (length ns) ?t" by (simp add: text_values_def map_replicate_const)
  have count: "foldl (\<lambda>freq v. AList.update v ((case map_of freq v of None \<Rightarrow> 0 | Some n \<Rightarrow> n) + 1) freq) [(?t, m)] (replicate n ?t) =
    [(?t, m + n)]" for m n :: nat
    by (induction n arbitrary: m) simp_all
  obtain n where n: "length ns = Suc n" using assms(2) by (cases "length ns") auto
  have "count_text (text_values env ns) = [(?t, Suc n)]"
    unfolding count_text_def texts n using count [of 1 n] by simp
  then have "text_consensus (text_values env ns) = Some ?t"
    by (simp add: text_consensus_def texts n del: of_nat_Suc)
  then show ?thesis using assms texts by (simp add: knn_decide_def consensus_of_def Let_def)
qed

text \<open>A mission fill writes the requested satellite and column or nothing; what it writes to a numeric
  column is a number in the range of the column, read from the value, and a fill that reports itself
  applied has written exactly what it reports.\<close>

theorem mission_fill_writes_in_range:
  assumes "applyFill env sat field v source [] = (res, l)"
  shows "(\<forall>sat' field' w. FieldUpdated sat' field' w \<in> set l \<longrightarrow>
      sat' = sat \<and> field' = field \<and> field \<in> set (map fst MISSION_WRITABLE_COLUMNS) \<and>
      (if column_kind_of field = Some NumericColumn
       then \<exists>x. w = JNum x \<and> fill_number env v = Fin x \<and> inRange field x
       else w = JStr (js_string (fe_numString env) v))) \<and>
    (\<forall>w. res = Inr (FillApplied w) \<longrightarrow> updates l = 1 \<and> FieldUpdated sat field w \<in> set l)"
proof -
  let ?Q = "\<lambda>sat' field' w. sat' = sat \<and> field' = field \<and> field \<in> set (map fst MISSION_WRITABLE_COLUMNS) \<and>
      (if column_kind_of field = Some NumericColumn
       then \<exists>x. w = JNum x \<and> fill_number env v = Fin x \<and> inRange field x
       else w = JStr (js_string (fe_numString env) v))"
  have only: "writes_only (updates_ok ?Q) (applyFill env sat field v source)"
    unfolding applyFill_def
    by (auto split: option.split column_kind.split jsnum.split intro!: write_fill_writes)
  have "?Q sat' field' w" if "FieldUpdated sat' field' w \<in> set l" for sat' field' w
    using writes_effects [OF only assms that] unfolding updates_ok.simps .
  moreover have "updates l = 1 \<and> FieldUpdated sat field w \<in> set l" if r: "res = Inr (FillApplied w)" for w
  proof -
    have "write_fill env sat field w source [] = (Inr (FillApplied w), l)"
    proof -
      obtain w' where "write_fill env sat field w' source [] = (Inr (FillApplied w), l)"
        using assms r by (auto simp: applyFill_def log_return_def split: option.splits column_kind.splits jsnum.splits if_splits)
      then show ?thesis using write_fill_Inr by fastforce
    qed
    then show ?thesis
      using write_fill_Inr [of env sat field w source "[]"] by simp
  qed
  ultimately show ?thesis by blast
qed

text \<open>A mission fill misreads scientific notation: the characters that are not digits, points or signs
  are dropped before the number is read, so the string \<open>1e3\<close> is filled in as thirteen.\<close>

theorem scientific_notation_is_misread:
  assumes "list_all is_digit ds" and "ds \<noteq> []" and "list_all is_digit es" and "es \<noteq> []"
  shows "parse_float (ds @ ''e'' @ es) = Fin (dec_real ds * 10 ^ dec_value es) \<and>
    fill_number env (JStr (ds @ ''e'' @ es)) = Fin (dec_real (ds @ es))"
proof -
  have run: "digit_run es = (es, [])" using dec_value_digits [of es "[]"] assms(3) by simp
  obtain c cs where es: "es = c # cs" "is_digit c" using assms(3,4) by (cases es) auto
  have "read_exponent (CHR ''e'' # es) = int (dec_value es)"
    unfolding read_exponent_def using run es digit_not [OF es(2)] by simp
  moreover have "\<not> is_digit (CHR ''e'')" by (simp add: is_digit_def)
  ultimately have "parse_float (ds @ ''e'' @ es) = Fin (dec_real ds * 10 ^ dec_value es)"
    using parse_digits [OF assms(1,2), of "''e'' @ es"] by (simp add: scale10_def)
  moreover have "filter (\<lambda>c. is_digit c \<or> c = CHR ''.'' \<or> c = CHR ''+'' \<or> c = CHR ''-'') xs = xs" if "list_all is_digit xs" for xs
    using that by (induction xs) simp_all
  then have "stripped (ds @ ''e'' @ es) = ds @ es"
    using assms \<open>\<not> is_digit (CHR ''e'')\<close> by (simp add: stripped_def)
  moreover have "parse_float (ds @ es) = Fin (dec_real (ds @ es))"
    using parse_digits [of "ds @ es" "[]"] assms by (simp add: scale10_def read_exponent_def)
  ultimately show ?thesis by (simp add: fill_number_def)
qed

section \<open>Demonstrations\<close>

definition demo_fill_env :: fill_env where
  "demo_fill_env = \<lparr>fe_fails = (\<lambda>_. None), fe_cycle = None, fe_numString = (\<lambda>x. show_int \<lfloor>x\<rfloor>)\<rparr>"

definition demo_neighbours :: "jval list \<Rightarrow> knn_neighbour list" where
  "demo_neighbours vs = map (\<lambda>v. \<lparr>kn_id = 9, kn_value = v, kn_distance = 1 / 10\<rparr>) vs"

definition demo_knn_env :: knn_env where
  "demo_knn_env =
     \<lparr>kx_fill = demo_fill_env, kx_targets = (\<lambda>_ _. Inr [(1, ''a''), (2, ''b'')]),
      kx_neighbours = (\<lambda>sat _ _. Inr (demo_neighbours
        (if sat = 1 then [JNum 100, JStr ''101'', JNum 99, JNull] else [JNum 100, JNum 500, JNum 99])))\<rparr>"

definition demo_propagation :: propagate_input where
  "demo_propagation = \<lparr>kp_field = ''mass_kg'', kp_k = 4, kp_minSim = 8 / 10, kp_limit = 10, kp_dryRun = False\<rparr>"

lemma demo_propagation_run:
  "map_prod (map_sum id (\<lambda>s. (kq_attempted s, kq_filled s, kq_disagree s, kq_tooFar s))) (filter is_update)
     (propagate demo_knn_env demo_propagation []) =
   (Inr (2, 1, 1, 0), [FieldUpdated 1 ''mass_kg'' (JNum 100)])"
  by code_simp

theorem propagation_writes_backed_values_witness:
  "\<exists>s l. propagate demo_knn_env demo_propagation [] = (Inr s, l) \<and> kq_attempted s = 2 \<and> kq_filled s = 1 \<and>
     FieldUpdated 1 ''mass_kg'' (JNum 100) \<in> set l \<and> backed demo_knn_env demo_propagation 1 ''mass_kg'' (JNum 100)"
proof -
  obtain res l where run: "propagate demo_knn_env demo_propagation [] = (res, l)"
    by (cases "propagate demo_knn_env demo_propagation []")
  obtain s where s: "res = Inr s" "kq_attempted s = 2" "kq_filled s = 1"
    and l: "filter is_update l = [FieldUpdated 1 ''mass_kg'' (JNum 100)]"
    using demo_propagation_run run by (cases res) auto
  have "FieldUpdated 1 ''mass_kg'' (JNum 100) \<in> set (filter is_update l)" unfolding l by simp
  then have wrote: "FieldUpdated 1 ''mass_kg'' (JNum 100) \<in> set l" by simp
  then have "backed demo_knn_env demo_propagation 1 ''mass_kg'' (JNum 100)"
    using propagation_writes_backed_values [OF run] by blast
  then show ?thesis using run s wrote by blast
qed

theorem text_is_propagated_in_lower_case_witness:
  "knn_decide demo_fill_env ''variant'' (8 / 10) (demo_neighbours (replicate 3 (JStr ''A2100''))) =
     (Consensus (JStr ''a2100''), 0)"
proof -
  have "column_kind_of ''variant'' = Some TextColumn" by (simp add: column_kind_of_def MISSION_WRITABLE_COLUMNS_def)
  moreover have "to_lower (trim ''A2100'') = ''a2100''" by code_simp
  ultimately show ?thesis
    using text_is_propagated_in_lower_case [of "''variant''" "demo_neighbours (replicate 3 (JStr ''A2100''))" "''A2100''" "8 / 10" demo_fill_env]
    by (simp add: demo_neighbours_def numeral_3_eq_3)
qed

theorem mission_fill_writes_in_range_witness:
  "\<exists>res l. applyFill demo_fill_env 7 ''mass_kg'' (JStr ''120 kg'') ''https://x'' [] = (res, l) \<and>
     FieldUpdated 7 ''mass_kg'' (JNum 120) \<in> set l \<and> inRange ''mass_kg'' 120"
proof -
  obtain res l where run: "applyFill demo_fill_env 7 ''mass_kg'' (JStr ''120 kg'') ''https://x'' [] = (res, l)"
    by (cases "applyFill demo_fill_env 7 ''mass_kg'' (JStr ''120 kg'') ''https://x'' []")
  have "filter is_update (snd (applyFill demo_fill_env 7 ''mass_kg'' (JStr ''120 kg'') ''https://x'' [])) =
      [FieldUpdated 7 ''mass_kg'' (JNum 120)]" by code_simp
  then have "FieldUpdated 7 ''mass_kg'' (JNum 120) \<in> set (filter is_update l)" using run by simp
  then have wrote: "FieldUpdated 7 ''mass_kg'' (JNum 120) \<in> set l" by simp
  have "column_kind_of ''mass_kg'' = Some NumericColumn" by (simp add: column_kind_of_def MISSION_WRITABLE_COLUMNS_def)
  then have "inRange ''mass_kg'' 120" using mission_fill_writes_in_range [OF run] wrote by (metis jval.inject(2))
  then show ?thesis using run wrote by blast
qed

theorem scientific_notation_is_misread_witness:
  "parse_float ''1e3'' = Fin 1000 \<and> fill_number demo_fill_env (JStr ''1e3'') = Fin 13"
proof -
  have digits: "list_all is_digit ''1''" "list_all is_digit ''3''" by (simp_all add: is_digit_def)
  have "dec_real ''1'' = 1" "dec_value ''3'' = 3" "dec_real ''13'' = 13" by (simp_all add: dec_real_def dec_value_def)
  then show ?thesis using scientific_notation_is_misread [OF digits(1) _ digits(2), of demo_fill_env] by simp
qed

end
