(* ===== verification/Mission.thy ===== *)
theory Mission
  imports Enrichment
begin

text \<open>
  Missions of the console API fill catalogue fields by web research: the votes of
  \<open>nano-research.service.ts\<close> with the fabrication detector, the task worker
  \<open>mission-worker.service.ts\<close>, the planner \<open>sweep-task-planner.service.ts\<close> and the timer-driven
  \<open>mission.service.ts\<close>, whose ticks, starts and stops interleave.
\<close>

section \<open>Fabrication and units\<close>

text \<open>The words of a token, separated by white space, at the start of a lower-case string.\<close>

fun words_at :: "string list \<Rightarrow> string \<Rightarrow> nat option" where
  "words_at [] s = Some 0"
| "words_at [w] s = (if starts_with w s then Some (length w) else None)"
| "words_at (w # v # ws) s =
     (if starts_with w s
      then (let r = drop (length w) s; gap = length (takeWhile is_space r) in
            if gap = 0 then None
            else map_option (\<lambda>n. length w + gap + n) (words_at (v # ws) (drop gap r)))
      else None)"

definition alternative_at :: "string list list \<Rightarrow> string \<Rightarrow> string option" where
  "alternative_at alts s =
     (case List.map_filter (\<lambda>ws. case words_at ws (to_lower s) of
                               Some n \<Rightarrow> if word_start (drop n s) then None else Some n
                             | None \<Rightarrow> None) alts of
        [] \<Rightarrow> None
      | n # _ \<Rightarrow> Some (take n s))"

fun token_match :: "string list list \<Rightarrow> bool \<Rightarrow> string \<Rightarrow> string option" where
  "token_match alts prev [] = None"
| "token_match alts prev (c # cs) =
     (case (if prev then None else alternative_at alts (c # cs)) of
        Some m \<Rightarrow> Some m
      | None \<Rightarrow> token_match alts (is_word c) cs)"

definition FABRICATION_TOKENS :: "string list list list" where
  "FABRICATION_TOKENS =
     [[[''typically''], [''typical'']], [[''approximately''], [''approx'']], [[''about'']], [[''around'']], [[''roughly'']],
      [[''estimated''], [''estimates''], [''estimate'']], [[''various'']], [[''usually'']], [[''generally''], [''general'']],
      [[''commonly''], [''common'']], [[''most'', ''of'']], [[''n/a'']], [[''unknown'']], [[''not'', ''specified'']],
      [[''not'', ''available'']], [[''variable'']], [[''depends''], [''depend'']], [[''ranges'', ''from''], [''range'', ''from'']],
      [[''varies'']]]"

definition detectFabrication :: "string \<Rightarrow> string option" where
  "detectFabrication txt =
     (case List.map_filter (\<lambda>alts. token_match alts False txt) FABRICATION_TOKENS of
        [] \<Rightarrow> None
      | m # _ \<Rightarrow> Some m)"

text \<open>A word of the list, with or without a plural s.\<close>

definition mentions :: "string list \<Rightarrow> string \<Rightarrow> bool" where
  "mentions ws s = list_ex (\<lambda>w. has_word w False (to_lower s)) ws"

definition unitMismatch :: "string \<Rightarrow> string \<Rightarrow> bool throws" where
  "unitMismatch field u =
     (if field = ''lifetime''
      then Inr (mentions [''hours'', ''hour'', ''days'', ''day'', ''months'', ''month'', ''minutes'', ''minute'',
                          ''seconds'', ''second'', ''weeks'', ''week''] u)
      else if field = ''launch_year'' then Inr (mentions [''bc'', ''month'', ''day''] u)
      else if field \<in> set object_prototype then Inl \<lparr>ename = ''TypeError'', emsg = ''re.test is not a function''\<rparr>
      else Inr False)"

section \<open>Votes\<close>

datatype mission_status = TaskPending | TaskResearching | TaskFilled | TaskUnobtainable | TaskError

record mission_task =
  mi_suggestion :: string
  mi_satellite :: int
  mi_name :: string
  mi_norad :: "int option"
  mi_field :: string
  mi_operator :: string
  mi_status :: mission_status
  mi_value :: jval
  mi_confidence :: jsnum
  mi_source :: "string option"
  mi_error :: "string option"

record nano_result =
  nv_ok :: bool
  nv_value :: jval
  nv_confidence :: jsnum
  nv_source :: string
  nv_unit :: string
  nv_reason :: string

definition failed_vote :: "string \<Rightarrow> nano_result" where
  "failed_vote reason =
     \<lparr>nv_ok = False, nv_value = JNull, nv_confidence = Fin 0, nv_source = [], nv_unit = [], nv_reason = reason\<rparr>"

record nano_answer =
  na_ok :: bool
  na_text :: string
  na_urls :: "string list"
  na_error :: "string option"

text \<open>
  The research call (or the error it throws), \<open>JSON.parse\<close>, and the host of a URL or the error
  that it is none. The response format of the call makes a confidence a number; it is kept as one.
\<close>

record vote_env =
  vx_nano :: "mission_task \<Rightarrow> string \<Rightarrow> nano_answer throws"
  vx_parse :: "string \<Rightarrow> json_object option"
  vx_host :: "string \<Rightarrow> string throws"
  vx_fill :: fill_env

definition in_quotes :: "string \<Rightarrow> string" where
  "in_quotes s = CHR 0x22 # s @ [CHR 0x22]"

definition brace_block :: "string \<Rightarrow> string option" where
  "brace_block s =
     (let from_open = dropWhile (\<lambda>c. c \<noteq> CHR ''{'') s;
          block = rev (dropWhile (\<lambda>c. c \<noteq> CHR ''}'') (rev from_open)) in
      if from_open = [] \<or> block = [] then None else Some block)"

definition field_or_undef :: "json_object \<Rightarrow> string \<Rightarrow> jval" where
  "field_or_undef o' key = (case map_of o' key of Some v \<Rightarrow> v | None \<Rightarrow> JUndef)"

definition is_https_url :: "string \<Rightarrow> bool" where
  "is_https_url s = (starts_with ''https://'' s \<and> length s > 8 \<and> list_all (\<lambda>c. \<not> is_space c) s)"

definition source_of :: "json_object \<Rightarrow> string throws" where
  "source_of o' =
     (case field_or_undef o' ''source'' of
        JStr s \<Rightarrow> Inr (trim s)
      | v \<Rightarrow> if nullish v then Inr [] else Inl \<lparr>ename = ''TypeError'', emsg = ''trim is not a function''\<rparr>)"

definition check_source :: "vote_env \<Rightarrow> mission_task \<Rightarrow> nano_answer \<Rightarrow> json_object \<Rightarrow> string \<Rightarrow> jsnum \<Rightarrow> nano_result throws" where
  "check_source env task nano o' src confidence =
     (if \<not> is_https_url src then Inr (failed_vote ''no https source'')
      else
        (case (if na_urls nano = [] then Inr [] else vx_host env src) of
           Inl e \<Rightarrow> Inl e
         | Inr host \<Rightarrow>
             if \<not> list_ex (js_includes host) (na_urls nano) then Inr (failed_vote ''source not cited'')
             else
               (let u = (if nullish (field_or_undef o' ''unit'') then []
                         else js_string (fe_numString (vx_fill env)) (field_or_undef o' ''unit'')) in
                case unitMismatch (mi_field task) u of
                  Inl e \<Rightarrow> Inl e
                | Inr True \<Rightarrow> Inr (failed_vote (''unit '' @ in_quotes (js_string (fe_numString (vx_fill env)) (field_or_undef o' ''unit''))))
                | Inr False \<Rightarrow>
                    Inr \<lparr>nv_ok = True, nv_value = field_or_undef o' ''value'', nv_confidence = confidence, nv_source = src,
                         nv_unit = u, nv_reason = []\<rparr>)))"

definition read_vote :: "vote_env \<Rightarrow> mission_task \<Rightarrow> nano_answer \<Rightarrow> nano_result throws" where
  "read_vote env task nano =
     (case brace_block (na_text nano) of
        None \<Rightarrow> Inr (failed_vote ''no JSON'')
      | Some block \<Rightarrow>
          (case vx_parse env block of
             None \<Rightarrow> Inr (failed_vote ''invalid JSON'')
           | Some o' \<Rightarrow>
               (case source_of o' of
                  Inl e \<Rightarrow> Inl e
                | Inr src \<Rightarrow>
                    if field_or_undef o' ''value'' = JNull then Inr (failed_vote ''no value'')
                    else
                      (let confidence = to_number (field_or_undef o' ''confidence'') in
                       if js_lt confidence (Fin (6 / 10)) then Inr (failed_vote (''low confidence '' @
                              js_string (fe_numString (vx_fill env)) (field_or_undef o' ''confidence'')))
                       else check_source env task nano o' src confidence))))"

definition singleVote :: "vote_env \<Rightarrow> mission_task \<Rightarrow> string \<Rightarrow> nano_result throws" where
  "singleVote env task angle =
     (case vx_nano env task angle of
        Inl e \<Rightarrow> Inl e
      | Inr nano \<Rightarrow>
          if \<not> na_ok nano
          then Inr (failed_vote (case na_error nano of Some msg \<Rightarrow> msg | None \<Rightarrow> ''nano call failed''))
          else
            (case detectFabrication (na_text nano) of
               Some hedge \<Rightarrow> if hedge \<noteq> [] then Inr (failed_vote (''hedging '' @ in_quotes hedge)) else read_vote env task nano
             | None \<Rightarrow> read_vote env task nano))"

definition votesAgree :: "(real \<Rightarrow> string) \<Rightarrow> jval \<Rightarrow> jval \<Rightarrow> bool" where
  "votesAgree numString a b =
     (case (a, b) of
        (JNum x, JNum y) \<Rightarrow> \<bar>x - y\<bar> / max (max \<bar>x\<bar> \<bar>y\<bar>) (1 / 10 ^ 9) \<le> 1 / 10
      | _ \<Rightarrow> to_lower (trim (js_string numString a)) = to_lower (trim (js_string numString b)))"

definition summary :: "nano_result \<Rightarrow> string" where
  "summary v = (if nv_ok v then ''ok'' else nv_reason v)"

section \<open>The task worker\<close>

definition ANGLES :: "string \<times> string" where
  "ANGLES = (''Check the operator'' @ CHR 0x27 # ''s official documentation first.'', ''Check Wikipedia / eoPortal / Gunter'' @ CHR 0x27 # ''s Space Page first.'')"

definition unobtainable :: "mission_task \<Rightarrow> string option \<Rightarrow> string \<Rightarrow> mission_task" where
  "unobtainable task src err =
     task\<lparr>mi_status := TaskUnobtainable, mi_value := JNull, mi_confidence := Fin 0, mi_source := src, mi_error := Some err\<rparr>"

definition js_plus :: "jsnum \<Rightarrow> jsnum \<Rightarrow> jsnum" where
  "js_plus x y = js_minus x (js_minus (Fin 0) y)"

definition mean_confidence :: "jsnum \<Rightarrow> jsnum \<Rightarrow> jsnum" where
  "mean_confidence a b =
     (case js_plus a b of Fin x \<Rightarrow> Fin (min (95 / 100) (x / 2 + 15 / 100)) | PosInf \<Rightarrow> Fin (95 / 100) | n \<Rightarrow> n)"

definition fill_task :: "vote_env \<Rightarrow> mission_task \<Rightarrow> nano_result \<Rightarrow> nano_result \<Rightarrow> mission_task logged" where
  "fill_task env task vote1 vote2 =
     (\<lambda>l. case applyFill (vx_fill env) (mi_satellite task) (mi_field task) (nv_value vote1) (nv_source vote1) l of
        (Inl e, l') \<Rightarrow> (Inr (task\<lparr>mi_source := Some (nv_source vote1), mi_status := TaskError, mi_error := Some (emsg e)\<rparr>), l')
      | (Inr (FillRefused reason), l') \<Rightarrow> (Inr (unobtainable task (Some (nv_source vote1)) reason), l')
      | (Inr (FillApplied v), l') \<Rightarrow>
          (Inr (task\<lparr>mi_source := Some (nv_source vote1), mi_status := TaskFilled, mi_value := v,
                     mi_confidence := mean_confidence (nv_confidence vote1) (nv_confidence vote2)\<rparr>), l'))"

definition disagreement :: "vote_env \<Rightarrow> nano_result \<Rightarrow> nano_result \<Rightarrow> string" where
  "disagreement env vote1 vote2 =
     (let str = js_string (fe_numString (vx_fill env)) in
      ''votes disagree: '' @ str (nv_value vote1) @ '' vs '' @ str (nv_value vote2))"

definition settle_votes :: "vote_env \<Rightarrow> mission_task \<Rightarrow> nano_result \<Rightarrow> nano_result \<Rightarrow> mission_task logged" where
  "settle_votes env task vote1 vote2 =
     (if \<not> nv_ok vote1 \<or> \<not> nv_ok vote2
      then log_return (unobtainable task
             (if nv_ok vote1 then Some (nv_source vote1) else if nv_ok vote2 then Some (nv_source vote2) else None)
             (''vote1='' @ summary vote1 @ ''; vote2='' @ summary vote2))
      else if \<not> votesAgree (fe_numString (vx_fill env)) (nv_value vote1) (nv_value vote2)
      then log_return (unobtainable task (Some (nv_source vote1)) (disagreement env vote1 vote2))
      else fill_task env task vote1 vote2)"

definition task_failed :: "mission_task \<Rightarrow> exn \<Rightarrow> mission_task" where
  "task_failed task e = task\<lparr>mi_status := TaskError, mi_error := Some (emsg e)\<rparr>"

text \<open>\<open>runTask\<close> never throws: its \<open>catch\<close> turns every error into a status.\<close>

definition runTask :: "vote_env \<Rightarrow> mission_task \<Rightarrow> mission_task logged" where
  "runTask env task0 =
     (let task = task0\<lparr>mi_status := TaskResearching\<rparr> in
      case singleVote env task (fst ANGLES) of
        Inl e \<Rightarrow> log_return (task_failed task e)
      | Inr vote1 \<Rightarrow>
          (case singleVote env task (snd ANGLES) of
             Inl e \<Rightarrow> log_return (task_failed task e)
           | Inr vote2 \<Rightarrow> settle_votes env task vote1 vote2))"

section \<open>The planner\<close>

record sweep_list_row =
  sl_id :: string
  sl_operator :: "string option"
  sl_payload :: "string option"

record name_row =
  nw_id :: int
  nw_name :: string
  nw_norad :: "int option"

record plan_env =
  px_parse :: "string \<Rightarrow> jval option"
  px_names :: "int list \<Rightarrow> name_row list throws"

text \<open>\<open>BigInt(v)\<close> on the values a payload holds; \<open>None\<close> is a thrown error.\<close>

definition value_bigint :: "jval \<Rightarrow> int option" where
  "value_bigint v =
     (case v of
        JStr s \<Rightarrow> string_bigint s
      | JNum x \<Rightarrow> (if x = of_int \<lfloor>x\<rfloor> then Some \<lfloor>x\<rfloor> else None)
      | JBig n \<Rightarrow> Some n
      | JBool b \<Rightarrow> Some (if b then 1 else 0)
      | _ \<Rightarrow> None)"

text \<open>Reading a field of a value: an object has it or not, everything but \<open>null\<close> and \<open>undefined\<close> lacks it.\<close>

definition value_field :: "jval \<Rightarrow> string \<Rightarrow> jval option" where
  "value_field v key = (case v of JObj o' \<Rightarrow> Some (field_or_undef o' key) | JNull \<Rightarrow> None | JUndef \<Rightarrow> None | _ \<Rightarrow> Some JUndef)"

definition first_action :: "jval \<Rightarrow> jval option" where
  "first_action p =
     (case value_field p ''actions'' of
        Some (JArr (a # _)) \<Rightarrow> Some a
      | _ \<Rightarrow> None)"

definition writable_action :: "jval \<Rightarrow> (string \<times> jval) option" where
  "writable_action a =
     (case (value_field a ''kind'', value_field a ''field'', value_field a ''value'', value_field a ''satelliteIds'') of
        (Some kind, Some (JStr field), Some v, Some ids) \<Rightarrow>
          if kind = JStr ''update_field'' \<and> column_kind_of field \<noteq> None \<and> nullish v then Some (field, ids) else None
      | _ \<Rightarrow> None)"

definition satellite_ids :: "nat \<Rightarrow> jval \<Rightarrow> int list option" where
  "satellite_ids cap ids =
     (case ids of
        JArr vs \<Rightarrow>
          (let ns = map value_bigint (take cap vs) in
           if None \<in> set ns then None else Some (map the ns))
      | _ \<Rightarrow> if nullish ids then Some [] else None)"

definition new_task :: "sweep_list_row \<Rightarrow> string \<Rightarrow> string \<Rightarrow> name_row \<Rightarrow> mission_task" where
  "new_task r operator field s =
     \<lparr>mi_suggestion = sl_id r, mi_satellite = nw_id s, mi_name = nw_name s, mi_norad = nw_norad s, mi_field = field,
      mi_operator = operator, mi_status = TaskPending, mi_value = JNull, mi_confidence = Fin 0, mi_source = None,
      mi_error = None\<rparr>"

definition action_tasks :: "plan_env \<Rightarrow> nat \<Rightarrow> sweep_list_row \<Rightarrow> string \<Rightarrow> jval \<Rightarrow> mission_task list" where
  "action_tasks env cap r operator p =
     (case Option.bind (first_action p) writable_action of
        None \<Rightarrow> []
      | Some (field, ids) \<Rightarrow>
          (case satellite_ids cap ids of
             None \<Rightarrow> []
           | Some [] \<Rightarrow> []
           | Some ns \<Rightarrow> (case px_names env ns of Inl _ \<Rightarrow> [] | Inr rs \<Rightarrow> map (new_task r operator field) rs)))"

text \<open>A row that cannot be used, for whatever reason, yields no task.\<close>

definition row_tasks :: "plan_env \<Rightarrow> nat \<Rightarrow> sweep_list_row \<Rightarrow> mission_task list" where
  "row_tasks env cap r =
     (case (sl_payload r, sl_operator r) of
        (Some payload, Some operator) \<Rightarrow>
          if payload = [] \<or> operator = [] \<or> js_includes ''unknown'' (to_lower operator) then []
          else (case px_parse env payload of None \<Rightarrow> [] | Some p \<Rightarrow> action_tasks env cap r operator p)
      | _ \<Rightarrow> [])"

definition buildTasks :: "plan_env \<Rightarrow> nat \<Rightarrow> sweep_list_row list \<Rightarrow> mission_task list" where
  "buildTasks env cap sweep_rows = concat (map (row_tasks env cap) sweep_rows)"

section \<open>The mission service\<close>

record mission_state =
  mq_running :: bool
  mq_startedAt :: "int option"
  mq_tasks :: "mission_task list"
  mq_completed :: nat
  mq_filled :: nat
  mq_unobtainable :: nat
  mq_errors :: nat
  mq_cursor :: nat
  mq_timer :: "nat option"
  mq_busy :: bool

text \<open>
  The process: the state object, which \<open>start\<close> replaces (\<open>ny_epoch\<close> counts the objects), the live
  intervals, the starts that wait for the planner, the tasks being researched with the epoch and
  index they were taken from, and the effects so far.
\<close>

record mission_sys =
  ny_state :: mission_state
  ny_epoch :: nat
  ny_live :: "nat list"
  ny_nextTimer :: nat
  ny_starting :: nat
  ny_flight :: "(nat \<times> nat \<times> mission_task) list"
  ny_log :: "fill_effect list"

definition idle_mission :: mission_state where
  "idle_mission =
     \<lparr>mq_running = False, mq_startedAt = None, mq_tasks = [], mq_completed = 0, mq_filled = 0, mq_unobtainable = 0,
      mq_errors = 0, mq_cursor = 0, mq_timer = None, mq_busy = False\<rparr>"

definition mission_boot :: mission_sys where
  "mission_boot =
     \<lparr>ny_state = idle_mission, ny_epoch = 0, ny_live = [], ny_nextTimer = 0, ny_starting = 0, ny_flight = [], ny_log = []\<rparr>"

definition on_state :: "(mission_state \<Rightarrow> mission_state) \<Rightarrow> mission_sys \<Rightarrow> mission_sys" where
  "on_state f y = y\<lparr>ny_state := f (ny_state y)\<rparr>"

text \<open>\<open>clearInterval\<close> of the timer the state remembers; then the state forgets it and stops.\<close>

definition halt :: "mission_sys \<Rightarrow> mission_sys" where
  "halt y =
     (let s = ny_state y in
      y\<lparr>ny_live := (case mq_timer s of Some t \<Rightarrow> removeAll t (ny_live y) | None \<Rightarrow> ny_live y),
        ny_state := s\<lparr>mq_running := False, mq_timer := None\<rparr>\<rparr>)"

definition mission_stop :: "mission_sys \<Rightarrow> mission_sys" where
  "mission_stop y = halt y"

definition mission_tick :: "mission_sys \<Rightarrow> mission_sys" where
  "mission_tick y =
     (let s = ny_state y in
      if mq_busy s \<or> \<not> mq_running s then y
      else if length (mq_tasks s) \<le> mq_cursor s then halt y
      else (let task = mq_tasks s ! mq_cursor s in
        y\<lparr>ny_flight := ny_flight y @ [(ny_epoch y, mq_cursor s, task)],
          ny_state := s\<lparr>mq_busy := True, mq_cursor := mq_cursor s + 1,
                        mq_tasks := (mq_tasks s)[mq_cursor s := task\<lparr>mi_status := TaskResearching\<rparr>]\<rparr>\<rparr>))"

definition mission_start :: "mission_sys \<Rightarrow> mission_sys" where
  "mission_start y = (if mq_running (ny_state y) then y else y\<lparr>ny_starting := ny_starting y + 1\<rparr>)"

text \<open>The rest of \<open>start\<close>, once the planner has answered.\<close>

definition mission_launch :: "mission_task list \<Rightarrow> int \<Rightarrow> mission_sys \<Rightarrow> mission_sys" where
  "mission_launch tasks now y =
     mission_tick
       (y\<lparr>ny_starting := ny_starting y - 1, ny_epoch := ny_epoch y + 1, ny_nextTimer := ny_nextTimer y + 1,
          ny_live := ny_live y @ [ny_nextTimer y],
          ny_state := \<lparr>mq_running = True, mq_startedAt = Some now, mq_tasks = tasks, mq_completed = 0, mq_filled = 0,
                       mq_unobtainable = 0, mq_errors = 0, mq_cursor = 0, mq_timer = Some (ny_nextTimer y),
                       mq_busy = False\<rparr>\<rparr>)"

definition count_task :: "mission_task \<Rightarrow> mission_state \<Rightarrow> mission_state" where
  "count_task task s =
     (let s = s\<lparr>mq_completed := mq_completed s + 1\<rparr> in
      case mi_status task of
        TaskFilled \<Rightarrow> s\<lparr>mq_filled := mq_filled s + 1\<rparr>
      | TaskUnobtainable \<Rightarrow> s\<lparr>mq_unobtainable := mq_unobtainable s + 1\<rparr>
      | TaskError \<Rightarrow> s\<lparr>mq_errors := mq_errors s + 1\<rparr>
      | _ \<Rightarrow> s)"

text \<open>
  The rest of a tick once its task is done. The task is the object the tick took; the counters and
  the busy flag are those of the current state object.
\<close>

definition settle_task :: "nat \<Rightarrow> nat \<Rightarrow> mission_task \<Rightarrow> mission_sys \<Rightarrow> mission_sys" where
  "settle_task epoch i task y =
     (let s = ny_state y;
          s = (if epoch = ny_epoch y then s\<lparr>mq_tasks := (mq_tasks s)[i := task]\<rparr> else s);
          y = y\<lparr>ny_state := (count_task task s)\<lparr>mq_busy := False\<rparr>\<rparr> in
      if length (mq_tasks (ny_state y)) \<le> mq_cursor (ny_state y) then halt y else y)"

text \<open>The \<open>catch\<close> and the \<open>finally\<close> for a task that threw: an error is counted, the task is not.\<close>

definition crash_task :: "mission_sys \<Rightarrow> mission_sys" where
  "crash_task y =
     (let s = ny_state y; y = y\<lparr>ny_state := s\<lparr>mq_errors := mq_errors s + 1, mq_busy := False\<rparr>\<rparr> in
      if length (mq_tasks (ny_state y)) \<le> mq_cursor (ny_state y) then halt y else y)"

definition mission_finish :: "vote_env \<Rightarrow> nat \<Rightarrow> mission_sys \<Rightarrow> mission_sys" where
  "mission_finish env k y =
     (case ny_flight y ! k of
        (epoch, i, task) \<Rightarrow>
          (case runTask env task (ny_log y) of
             (Inr task', l') \<Rightarrow>
               settle_task epoch i task' (y\<lparr>ny_flight := take k (ny_flight y) @ drop (Suc k) (ny_flight y), ny_log := l'\<rparr>)
           | (Inl e, l') \<Rightarrow>
               crash_task (y\<lparr>ny_flight := take k (ny_flight y) @ drop (Suc k) (ny_flight y), ny_log := l'\<rparr>)))"

datatype mission_move =
    BeginStart
  | Launch "mission_task list" int
  | StopMission
  | Fire nat
  | FinishTask vote_env nat

definition mission_move :: "mission_move \<Rightarrow> mission_sys \<Rightarrow> mission_sys option" where
  "mission_move m y =
     (case m of
        BeginStart \<Rightarrow> Some (mission_start y)
      | Launch tasks now \<Rightarrow> if 0 < ny_starting y then Some (mission_launch tasks now y) else None
      | StopMission \<Rightarrow> Some (mission_stop y)
      | Fire t \<Rightarrow> if t \<in> set (ny_live y) then Some (mission_tick y) else None
      | FinishTask env k \<Rightarrow> if k < length (ny_flight y) then Some (mission_finish env k y) else None)"

fun mission_moves :: "mission_move list \<Rightarrow> mission_sys \<Rightarrow> mission_sys option" where
  "mission_moves [] y = Some y"
| "mission_moves (m # ms) y = Option.bind (mission_move m y) (mission_moves ms)"

inductive mission_reach :: "mission_sys \<Rightarrow> bool" where
  mission_boots: "mission_reach mission_boot"
| mission_steps: "mission_reach y \<Longrightarrow> mission_move m y = Some y' \<Longrightarrow> mission_reach y'"

text \<open>Runs in which a mission is only started when none is running, starting or still in flight.\<close>

fun orderly_move :: "mission_move \<Rightarrow> mission_sys \<Rightarrow> bool" where
  "orderly_move BeginStart y = (mq_running (ny_state y) \<or> ny_starting y = 0 \<and> ny_flight y = [])"
| "orderly_move m y = True"

inductive orderly_reach :: "mission_sys \<Rightarrow> bool" where
  orderly_boots: "orderly_reach mission_boot"
| orderly_steps: "orderly_reach y \<Longrightarrow> orderly_move m y \<Longrightarrow> mission_move m y = Some y' \<Longrightarrow> orderly_reach y'"

inductive_cases orderly_cases: "orderly_reach y"

section \<open>Every task settles\<close>

definition settled_status :: "mission_status \<Rightarrow> bool" where
  "settled_status s = (s = TaskFilled \<or> s = TaskUnobtainable \<or> s = TaskError)"

lemma unobtainable_status [simp]: "mi_status (unobtainable task src err) = TaskUnobtainable"
  by (simp add: unobtainable_def)

lemma fill_task_settles: "\<exists>task' l'. fill_task env task v1 v2 l = (Inr task', l') \<and> settled_status (mi_status task')"
proof (cases "applyFill (vx_fill env) (mi_satellite task) (mi_field task) (nv_value v1) (nv_source v1) l")
  case (Pair r l')
  show ?thesis
  proof (cases r)
    case (Inl e)
    then show ?thesis using Pair by (simp add: fill_task_def settled_status_def)
  next
    case (Inr x)
    then show ?thesis using Pair by (cases x) (simp_all add: fill_task_def settled_status_def)
  qed
qed

lemma settle_votes_settles: "\<exists>task' l'. settle_votes env task v1 v2 l = (Inr task', l') \<and> settled_status (mi_status task')"
  using fill_task_settles [of env task v1 v2 l] by (simp add: settle_votes_def log_return_def settled_status_def)

lemma runTask_settles:
  obtains task' l' where "runTask env task l = (Inr task', l')" "settled_status (mi_status task')"
proof -
  let ?t = "task\<lparr>mi_status := TaskResearching\<rparr>"
  have "\<exists>task' l'. runTask env task l = (Inr task', l') \<and> settled_status (mi_status task')"
  proof (cases "singleVote env ?t (fst ANGLES)")
    case (Inl e)
    then show ?thesis by (simp add: runTask_def log_return_def task_failed_def settled_status_def)
  next
    case v1: (Inr v1)
    show ?thesis
    proof (cases "singleVote env ?t (snd ANGLES)")
      case (Inl e)
      then show ?thesis using v1 by (simp add: runTask_def log_return_def task_failed_def settled_status_def)
    next
      case (Inr v2)
      then show ?thesis using v1 settle_votes_settles [of env ?t v1 v2 l] by (simp add: runTask_def)
    qed
  qed
  then show thesis using that by blast
qed

section \<open>The invariant of an orderly mission\<close>

definition with_status :: "mission_status \<Rightarrow> mission_task list \<Rightarrow> nat" where
  "with_status st tasks = length (filter (\<lambda>t. mi_status t = st) tasks)"

lemma with_status_snoc: "with_status st (ts @ [t]) = with_status st ts + (if mi_status t = st then 1 else 0)"
  by (simp add: with_status_def)

definition counters_ok :: "mission_state \<Rightarrow> bool" where
  "counters_ok s =
     (mq_completed s \<le> length (mq_tasks s) \<and>
      mq_completed s = mq_filled s + mq_unobtainable s + mq_errors s \<and>
      mq_filled s = with_status TaskFilled (take (mq_completed s) (mq_tasks s)) \<and>
      mq_unobtainable s = with_status TaskUnobtainable (take (mq_completed s) (mq_tasks s)) \<and>
      mq_errors s = with_status TaskError (take (mq_completed s) (mq_tasks s)))"

definition flight_ok :: "mission_sys \<Rightarrow> bool" where
  "flight_ok y =
     (let s = ny_state y in
      if mq_busy s
      then \<exists>task. ny_flight y = [(ny_epoch y, mq_completed s, task)] \<and> mq_cursor s = mq_completed s + 1
      else ny_flight y = [] \<and> mq_cursor s = mq_completed s)"

definition timer_ok :: "mission_sys \<Rightarrow> bool" where
  "timer_ok y =
     (ny_live y = (case mq_timer (ny_state y) of Some t \<Rightarrow> [t] | None \<Rightarrow> []) \<and>
      mq_running (ny_state y) = (mq_timer (ny_state y) \<noteq> None))"

definition orderly_ok :: "mission_sys \<Rightarrow> bool" where
  "orderly_ok y =
     (counters_ok (ny_state y) \<and> flight_ok y \<and> timer_ok y \<and> mq_cursor (ny_state y) \<le> length (mq_tasks (ny_state y)) \<and>
      (ny_starting y = 0 \<or> ny_starting y = 1 \<and> \<not> mq_running (ny_state y) \<and> ny_flight y = []))"

lemma counters_steady [simp]:
  "counters_ok (s\<lparr>mq_running := r, mq_timer := t\<rparr>) = counters_ok s"
  "counters_ok (s\<lparr>mq_busy := b\<rparr>) = counters_ok s"
  by (simp_all add: counters_ok_def)

lemma counters_ahead:
  "mq_completed s \<le> i \<Longrightarrow>
   counters_ok (s\<lparr>mq_busy := b, mq_cursor := c, mq_tasks := (mq_tasks s)[i := t]\<rparr>) = counters_ok s"
  by (simp add: counters_ok_def)

lemma halt_fields [simp]:
  "ny_flight (halt y) = ny_flight y" "ny_epoch (halt y) = ny_epoch y" "ny_starting (halt y) = ny_starting y"
  "ny_state (halt y) = (ny_state y)\<lparr>mq_running := False, mq_timer := None\<rparr>"
  by (simp_all add: halt_def Let_def)

lemma halt_ok: "orderly_ok y \<Longrightarrow> orderly_ok (halt y)"
proof -
  assume ok: "orderly_ok y"
  have "flight_ok (halt y) = flight_ok y" by (simp add: flight_ok_def Let_def)
  moreover have "timer_ok (halt y)" using ok
    by (auto simp: orderly_ok_def timer_ok_def halt_def Let_def split: option.splits)
  ultimately show ?thesis using ok unfolding orderly_ok_def by auto
qed

lemma tick_ok: "orderly_ok y \<Longrightarrow> orderly_ok (mission_tick y)"
proof -
  assume ok: "orderly_ok y"
  let ?s = "ny_state y"
  consider "mq_busy ?s \<or> \<not> mq_running ?s" | "\<not> mq_busy ?s" "mq_running ?s" "length (mq_tasks ?s) \<le> mq_cursor ?s"
    | "\<not> mq_busy ?s" "mq_running ?s" "mq_cursor ?s < length (mq_tasks ?s)" by linarith
  then show ?thesis
  proof cases
    case 1
    then show ?thesis using ok by (simp add: mission_tick_def Let_def)
  next
    case 2
    then show ?thesis using halt_ok [OF ok] by (simp add: mission_tick_def Let_def)
  next
    case 3
    have c: "mq_cursor ?s = mq_completed ?s" "ny_flight y = []" using ok 3 by (simp_all add: orderly_ok_def flight_ok_def Let_def)
    let ?t = "mq_tasks ?s ! mq_cursor ?s"
    let ?s' = "?s\<lparr>mq_busy := True, mq_cursor := mq_cursor ?s + 1,
                    mq_tasks := (mq_tasks ?s)[mq_cursor ?s := ?t\<lparr>mi_status := TaskResearching\<rparr>]\<rparr>"
    let ?y = "y\<lparr>ny_flight := [(ny_epoch y, mq_cursor ?s, ?t)], ny_state := ?s'\<rparr>"
    have tick: "mission_tick y = ?y" using 3 c(2) by (simp add: mission_tick_def Let_def)
    have "counters_ok ?s'" using ok counters_ahead [of ?s "mq_cursor ?s"] c by (simp add: orderly_ok_def)
    moreover have "flight_ok ?y" using c by (simp add: flight_ok_def Let_def)
    moreover have "timer_ok ?y" using ok by (simp add: orderly_ok_def timer_ok_def)
    moreover have "ny_starting y = 0" using ok 3 by (auto simp: orderly_ok_def)
    ultimately show ?thesis unfolding tick using 3 by (simp add: orderly_ok_def)
  qed
qed

lemma settle_counters:
  assumes "counters_ok s" "mq_completed s < length (mq_tasks s)" "settled_status (mi_status task)"
  shows "counters_ok (count_task task (s\<lparr>mq_tasks := (mq_tasks s)[mq_completed s := task]\<rparr>))"
proof -
  have grow: "take (Suc (mq_completed s)) ((mq_tasks s)[mq_completed s := task]) = take (mq_completed s) (mq_tasks s) @ [task]"
    using assms(2) by (simp add: take_Suc_conv_app_nth)
  define n where "n = mq_completed s"
  define ts where "ts = take n (mq_tasks s)"
  have "n = mq_filled s + mq_unobtainable s + mq_errors s" "mq_filled s = with_status TaskFilled ts"
    "mq_unobtainable s = with_status TaskUnobtainable ts" "mq_errors s = with_status TaskError ts"
    using assms(1) unfolding counters_ok_def n_def ts_def by blast+
  then show ?thesis using assms(2,3) grow [folded n_def, folded ts_def]
    by (cases "mi_status task") (simp_all add: count_task_def Let_def counters_ok_def settled_status_def with_status_snoc n_def [symmetric])
qed

lemma finish_ok:
  assumes ok: "orderly_ok y" and k: "k < length (ny_flight y)"
  shows "orderly_ok (mission_finish env k y)"
proof -
  let ?s = "ny_state y"
  have busy: "mq_busy ?s" using ok k by (auto simp: orderly_ok_def flight_ok_def Let_def split: if_splits)
  then obtain task where f: "ny_flight y = [(ny_epoch y, mq_completed ?s, task)]" and c: "mq_cursor ?s = mq_completed ?s + 1"
    using ok by (auto simp: orderly_ok_def flight_ok_def Let_def)
  obtain task' l' where r: "runTask env task (ny_log y) = (Inr task', l')" "settled_status (mi_status task')"
    by (rule runTask_settles)
  let ?s' = "(count_task task' (?s\<lparr>mq_tasks := (mq_tasks ?s)[mq_completed ?s := task']\<rparr>))\<lparr>mq_busy := False\<rparr>"
  let ?y = "y\<lparr>ny_flight := [], ny_log := l', ny_state := ?s'\<rparr>"
  have same: "mq_running ?s' = mq_running ?s" "mq_timer ?s' = mq_timer ?s" "mq_cursor ?s' = mq_cursor ?s"
    "mq_completed ?s' = mq_completed ?s + 1" "length (mq_tasks ?s') = length (mq_tasks ?s)"
    by (cases "mi_status task'"; simp add: count_task_def Let_def)+
  have room: "mq_completed ?s < length (mq_tasks ?s)" using ok c by (simp add: orderly_ok_def)
  have cs: "counters_ok ?s" using ok by (simp only: orderly_ok_def)
  have "counters_ok (count_task task' (?s\<lparr>mq_tasks := (mq_tasks ?s)[mq_completed ?s := task']\<rparr>))"
    by (rule settle_counters [OF cs room r(2)])
  then have "counters_ok ?s'" by simp
  moreover have "flight_ok ?y" using same c by (simp add: flight_ok_def Let_def)
  moreover have "timer_ok ?y" "ny_starting ?y = 0" using ok same f by (auto simp: orderly_ok_def timer_ok_def)
  ultimately have y: "orderly_ok ?y" using same ok by (simp add: orderly_ok_def)
  have "k = 0" using k f by simp
  then have "mission_finish env k y = (if length (mq_tasks ?s') \<le> mq_cursor ?s' then halt ?y else ?y)"
    using f r by (simp add: mission_finish_def settle_task_def Let_def)
  then show ?thesis using y halt_ok [OF y] by simp
qed

lemma launch_ok: "orderly_ok y \<Longrightarrow> 0 < ny_starting y \<Longrightarrow> orderly_ok (mission_launch tasks now y)"
proof -
  assume ok: "orderly_ok y" and st: "0 < ny_starting y"
  have "ny_live y = []" "ny_flight y = []" "ny_starting y = 1" using ok st by (auto simp: orderly_ok_def timer_ok_def)
  then show ?thesis unfolding mission_launch_def
    by (intro tick_ok) (simp add: orderly_ok_def counters_ok_def flight_ok_def timer_ok_def with_status_def Let_def)
qed

lemma orderly_reach_ok: "orderly_reach y \<Longrightarrow> orderly_ok y"
proof (induction rule: orderly_reach.induct)
  case orderly_boots
  show ?case by (simp add: orderly_ok_def counters_ok_def flight_ok_def timer_ok_def mission_boot_def idle_mission_def with_status_def)
next
  case (orderly_steps y m y')
  show ?case
  proof (cases m)
    case BeginStart
    have "orderly_ok (y\<lparr>ny_starting := 1\<rparr>)" if "\<not> mq_running (ny_state y)" "ny_flight y = []"
      using orderly_steps.IH that unfolding orderly_ok_def by (auto simp: flight_ok_def timer_ok_def Let_def split: if_splits)
    then show ?thesis using orderly_steps BeginStart by (auto simp: mission_move_def mission_start_def split: if_splits)
  next
    case (Launch tasks now)
    then show ?thesis using orderly_steps launch_ok by (auto simp: mission_move_def split: if_splits)
  next
    case StopMission
    then show ?thesis using orderly_steps halt_ok by (auto simp: mission_move_def mission_stop_def)
  next
    case (Fire t)
    then show ?thesis using orderly_steps tick_ok by (auto simp: mission_move_def split: if_splits)
  next
    case (FinishTask env k)
    then show ?thesis using orderly_steps finish_ok by (auto simp: mission_move_def split: if_splits)
  qed
qed

section \<open>A mission comes to its end\<close>

lemma finish_effect:
  assumes ok: "orderly_ok y" and busy: "mq_busy (ny_state y)"
  shows "ny_flight y \<noteq> [] \<and> \<not> mq_busy (ny_state (mission_finish env 0 y)) \<and>
    mq_completed (ny_state (mission_finish env 0 y)) = mq_completed (ny_state y) + 1 \<and>
    length (mq_tasks (ny_state (mission_finish env 0 y))) = length (mq_tasks (ny_state y)) \<and>
    mq_running (ny_state (mission_finish env 0 y)) =
      (mq_running (ny_state y) \<and> mq_completed (ny_state y) + 1 < length (mq_tasks (ny_state y)))"
proof -
  let ?s = "ny_state y"
  obtain task where f: "ny_flight y = [(ny_epoch y, mq_completed ?s, task)]" and c: "mq_cursor ?s = mq_completed ?s + 1"
    using ok busy by (auto simp: orderly_ok_def flight_ok_def Let_def)
  obtain task' l' where r: "runTask env task (ny_log y) = (Inr task', l')" by (rule runTask_settles)
  show ?thesis using f c r
    by (cases "mi_status task'") (simp_all add: mission_finish_def settle_task_def count_task_def Let_def)
qed

lemma tick_effect:
  assumes ok: "orderly_ok y" and run: "mq_running (ny_state y)" and idle: "\<not> mq_busy (ny_state y)"
  shows "mq_completed (ny_state (mission_tick y)) = mq_completed (ny_state y) \<and>
    length (mq_tasks (ny_state (mission_tick y))) = length (mq_tasks (ny_state y)) \<and>
    (if mq_completed (ny_state y) < length (mq_tasks (ny_state y))
     then mq_running (ny_state (mission_tick y)) \<and> mq_busy (ny_state (mission_tick y))
     else \<not> mq_running (ny_state (mission_tick y)))"
proof -
  have "mq_cursor (ny_state y) = mq_completed (ny_state y)" using ok idle by (simp add: orderly_ok_def flight_ok_def Let_def)
  then show ?thesis using run idle by (simp add: mission_tick_def Let_def)
qed

text \<open>A move by itself: a live interval fires or a task in flight ends.\<close>

fun is_progress :: "mission_move \<Rightarrow> bool" where
  "is_progress (Fire t) = True"
| "is_progress (FinishTask env k) = True"
| "is_progress _ = False"

lemma running_timer: "orderly_ok y \<Longrightarrow> mq_running (ny_state y) \<Longrightarrow> \<exists>t. t \<in> set (ny_live y)"
  by (auto simp: orderly_ok_def timer_ok_def)

text \<open>
  The effective moves of a schedule: a task that ends, and an interval that fires while no task is
  being researched. An interval that fires during a task is skipped (\<open>busy_fire\<close>).
\<close>

fun effective_moves :: "mission_move list \<Rightarrow> mission_sys \<Rightarrow> nat" where
  "effective_moves [] y = 0"
| "effective_moves (m # ms) y =
     (case m of Fire t \<Rightarrow> if mq_busy (ny_state y) then 0 else 1 | _ \<Rightarrow> 1) +
     (case mission_move m y of None \<Rightarrow> 0 | Some y' \<Rightarrow> effective_moves ms y')"

lemma busy_fire: "mq_busy (ny_state y) \<Longrightarrow> t \<in> set (ny_live y) \<Longrightarrow> mission_move (Fire t) y = Some y"
  by (simp add: mission_move_def mission_tick_def Let_def)

text \<open>What is left to do: to start and to end every task, or to notice that there is none.\<close>

definition work_left :: "mission_sys \<Rightarrow> nat" where
  "work_left y =
     (let s = ny_state y; n = length (mq_tasks s) - mq_completed s in
      if \<not> mq_running s then 0 else if mq_busy s then 2 * n - 1 else max 1 (2 * n))"

text \<open>A mission that is running, or has run to its end.\<close>

definition under_way :: "mission_sys \<Rightarrow> bool" where
  "under_way y =
     (orderly_ok y \<and>
      (mq_running (ny_state y) \<or> ny_flight y = [] \<and> mq_completed (ny_state y) = length (mq_tasks (ny_state y))))"

lemma work_left_running: "under_way y \<Longrightarrow> work_left y = 0 \<longleftrightarrow> \<not> mq_running (ny_state y)"
proof -
  assume u: "under_way y"
  have "mq_completed (ny_state y) < length (mq_tasks (ny_state y))" if "mq_busy (ny_state y)"
    using u that by (auto simp: under_way_def orderly_ok_def flight_ok_def Let_def)
  then show ?thesis by (auto simp: work_left_def Let_def)
qed

lemma tick_works:
  assumes ok: "orderly_ok y" and run: "mq_running (ny_state y)" and idle: "\<not> mq_busy (ny_state y)"
    and le: "mq_completed (ny_state y) \<le> length (mq_tasks (ny_state y))" and f: "ny_flight y = []"
  shows "under_way (mission_tick y) \<and> 1 + work_left (mission_tick y) = work_left y"
proof -
  note eff = tick_effect [OF ok run idle] and ok' = tick_ok [OF ok]
  show ?thesis
  proof (cases "mq_completed (ny_state y) < length (mq_tasks (ny_state y))")
    case True
    then have "mq_running (ny_state (mission_tick y))" "mq_busy (ny_state (mission_tick y))" using eff by simp_all
    then show ?thesis using True run idle eff ok' by (simp add: under_way_def work_left_def Let_def)
  next
    case False
    then have stop: "\<not> mq_running (ny_state (mission_tick y))" "mq_completed (ny_state (mission_tick y)) = length (mq_tasks (ny_state (mission_tick y)))"
      using eff le by simp_all
    have "mq_cursor (ny_state y) = mq_completed (ny_state y)" using ok idle by (simp add: orderly_ok_def flight_ok_def Let_def)
    then have "mission_tick y = halt y" using run idle False by (simp add: mission_tick_def Let_def)
    then show ?thesis using False run idle stop ok' f le by (simp add: under_way_def work_left_def Let_def)
  qed
qed

lemma finish_works:
  assumes ok: "orderly_ok y" and run: "mq_running (ny_state y)" and busy: "mq_busy (ny_state y)"
  shows "under_way (mission_finish env 0 y) \<and> 1 + work_left (mission_finish env 0 y) = work_left y"
proof -
  let ?y = "mission_finish env 0 y"
  note eff = finish_effect [OF ok busy, of env]
  have lt: "mq_completed (ny_state y) < length (mq_tasks (ny_state y))"
    using ok busy by (auto simp: orderly_ok_def flight_ok_def Let_def)
  have ok': "orderly_ok ?y" using finish_ok [OF ok] eff by simp
  have f: "ny_flight ?y = []" using ok' eff unfolding orderly_ok_def flight_ok_def Let_def by simp
  show ?thesis
  proof (cases "mq_completed (ny_state y) + 1 < length (mq_tasks (ny_state y))")
    case True
    then have "mq_running (ny_state ?y)" using eff run by simp
    then show ?thesis using True run busy eff ok' by (simp add: under_way_def work_left_def Let_def)
  next
    case False
    then have "\<not> mq_running (ny_state ?y)" using eff by simp
    then show ?thesis using False lt run busy eff ok' f by (simp add: under_way_def work_left_def Let_def)
  qed
qed

lemma progress_step:
  assumes u: "under_way y" and p: "is_progress m" and mv: "mission_move m y = Some y'"
  shows "under_way y' \<and> effective_moves [m] y + work_left y' = work_left y"
proof (cases m)
  case (Fire t)
  then have t: "t \<in> set (ny_live y)" and y': "y' = mission_tick y" using mv by (auto simp: mission_move_def split: if_splits)
  have ok: "orderly_ok y" using u by (simp add: under_way_def)
  then have run: "mq_running (ny_state y)" using t by (auto simp: orderly_ok_def timer_ok_def)
  show ?thesis
  proof (cases "mq_busy (ny_state y)")
    case True
    then show ?thesis using busy_fire [OF True t] mv Fire u by simp
  next
    case idle: False
    have "mq_completed (ny_state y) \<le> length (mq_tasks (ny_state y))" using ok unfolding orderly_ok_def counters_ok_def by linarith
    moreover have "ny_flight y = []" using ok idle by (simp add: orderly_ok_def flight_ok_def Let_def)
    ultimately have "under_way (mission_tick y) \<and> 1 + work_left (mission_tick y) = work_left y"
      by (rule tick_works [OF ok run idle])
    then show ?thesis using idle Fire mv y' by simp
  qed
next
  case (FinishTask env k)
  then have k: "k < length (ny_flight y)" and y': "y' = mission_finish env k y" using mv by (auto simp: mission_move_def split: if_splits)
  have ok: "orderly_ok y" and run: "mq_running (ny_state y)" using u k by (auto simp: under_way_def)
  have busy: "mq_busy (ny_state y)" and "k = 0" using ok k by (auto simp: orderly_ok_def flight_ok_def Let_def split: if_splits)
  have "under_way y' \<and> 1 + work_left y' = work_left y" unfolding y' \<open>k = 0\<close> by (rule finish_works [OF ok run busy])
  then show ?thesis using mv FinishTask by simp
qed (use p in simp_all)

lemma progress_steps:
  "under_way y \<Longrightarrow> list_all is_progress ms \<Longrightarrow> mission_moves ms y = Some y' \<Longrightarrow>
   under_way y' \<and> effective_moves ms y + work_left y' = work_left y"
proof (induction ms arbitrary: y)
  case (Cons m ms)
  then obtain y1 where y1: "mission_move m y = Some y1" "mission_moves ms y1 = Some y'" by (auto simp: bind_eq_Some_conv)
  have "effective_moves (m # ms) y = effective_moves [m] y + effective_moves ms y1" using y1(1) by simp
  then show ?case using progress_step [OF Cons.prems(1) _ y1(1)] Cons.IH [OF _ _ y1(2)] Cons.prems(2) by auto
qed simp

text \<open>A running mission always has a move that changes it.\<close>

lemma never_stuck:
  assumes ok: "orderly_ok y" and run: "mq_running (ny_state y)"
  shows "if mq_busy (ny_state y) then \<exists>y'. mission_move (FinishTask env 0) y = Some y' \<and> y' \<noteq> y
    else \<exists>t y'. mission_move (Fire t) y = Some y' \<and> y' \<noteq> y"
proof (cases "mq_busy (ny_state y)")
  case True
  then show ?thesis using finish_effect [OF ok True, of env] by (auto simp: mission_move_def)
next
  case False
  obtain t where "t \<in> set (ny_live y)" using running_timer [OF ok run] by blast
  then show ?thesis using False tick_effect [OF ok run False] run by (auto simp: mission_move_def split: if_splits)
qed

section \<open>Votes behind a fill\<close>

definition confirmed_vote :: "nano_result \<Rightarrow> bool" where
  "confirmed_vote v = (nv_ok v \<and> is_https_url (nv_source v) \<and> \<not> js_lt (nv_confidence v) (Fin (6 / 10)))"

lemma failed_vote_not_ok [simp]: "\<not> nv_ok (failed_vote r)"
  by (simp add: failed_vote_def)

lemma check_source_confirmed:
  "check_source env task nano o' src c = Inr v \<Longrightarrow> nv_ok v \<Longrightarrow> is_https_url (nv_source v) \<and> nv_confidence v = c"
  by (auto simp: check_source_def Let_def split: if_splits sum.splits bool.splits)

lemma read_vote_confirmed: "read_vote env task nano = Inr v \<Longrightarrow> nv_ok v \<Longrightarrow> confirmed_vote v"
  using check_source_confirmed
  by (force simp: read_vote_def confirmed_vote_def Let_def split: option.splits sum.splits if_splits)

lemma singleVote_confirmed: "singleVote env task angle = Inr v \<Longrightarrow> nv_ok v \<Longrightarrow> confirmed_vote v"
  by (auto simp: singleVote_def read_vote_confirmed split: option.splits sum.splits if_splits)

lemma applyFill_written:
  "applyFill env sat field v source l = (Inr (FillApplied w), l') \<Longrightarrow>
   updates l' = updates l + 1 \<and> FieldUpdated sat field w \<in> set l'"
proof -
  assume a: "applyFill env sat field v source l = (Inr (FillApplied w), l')"
  then obtain u where "write_fill env sat field u source l = (Inr (FillApplied w), l')"
    by (auto simp: applyFill_def log_return_def split: option.splits column_kind.splits jsnum.splits if_splits)
  then show ?thesis using write_fill_Inr by fastforce
qed

lemma fill_task_filled:
  "fill_task env task v1 v2 l = (Inr task', l') \<Longrightarrow> mi_status task' = TaskFilled \<Longrightarrow>
   updates l' = updates l + 1 \<and> FieldUpdated (mi_satellite task) (mi_field task) (mi_value task') \<in> set l'"
  by (auto simp: fill_task_def dest: applyFill_written split: prod.splits sum.splits fill_result.splits)

lemma settle_votes_filled:
  assumes "settle_votes env task v1 v2 l = (Inr task', l')" and "mi_status task' = TaskFilled"
  shows "nv_ok v1 \<and> nv_ok v2 \<and> votesAgree (fe_numString (vx_fill env)) (nv_value v1) (nv_value v2) \<and>
    fill_task env task v1 v2 l = (Inr task', l')"
  using assms by (auto simp: settle_votes_def log_return_def split: if_splits)

section \<open>Leaked intervals\<close>

definition leaked :: "nat \<Rightarrow> mission_sys \<Rightarrow> bool" where
  "leaked t y = (t \<in> set (ny_live y) \<and> mq_timer (ny_state y) \<noteq> Some t \<and> t < ny_nextTimer y)"

lemma halt_leaked: "leaked t y \<Longrightarrow> leaked t (halt y)"
  by (auto simp: leaked_def halt_def Let_def split: option.splits)

lemma tick_leaked: "leaked t y \<Longrightarrow> leaked t (mission_tick y)"
  using halt_leaked [of t y] by (simp add: mission_tick_def Let_def) (simp add: leaked_def)

lemma count_task_timer [simp]: "mq_timer (count_task task s) = mq_timer s"
  by (cases "mi_status task") (simp_all add: count_task_def Let_def)

lemma settle_leaked: "leaked t y \<Longrightarrow> leaked t (settle_task ep i task y)"
proof -
  assume l: "leaked t y"
  have "leaked t (y\<lparr>ny_state := s\<rparr>)" if "mq_timer s = mq_timer (ny_state y)" for s using l that by (simp add: leaked_def)
  then show ?thesis by (auto simp: settle_task_def Let_def intro!: halt_leaked)
qed

lemma move_leaked: "leaked t y \<Longrightarrow> mission_move m y = Some y' \<Longrightarrow> leaked t y'"
proof (cases m)
  case (Launch tasks now)
  assume l: "leaked t y" and mv: "mission_move m y = Some y'"
  then have "y' = mission_launch tasks now y" using Launch by (simp add: mission_move_def split: if_splits)
  moreover have "leaked t (mission_launch tasks now y)"
    unfolding mission_launch_def by (rule tick_leaked) (use l in \<open>simp add: leaked_def\<close>)
  ultimately show ?thesis by simp
next
  case (FinishTask env k)
  assume l: "leaked t y" and mv: "mission_move m y = Some y'"
  then have y': "y' = mission_finish env k y" using FinishTask by (simp add: mission_move_def split: if_splits)
  obtain ep i task where f: "ny_flight y ! k = (ep, i, task)" by (cases "ny_flight y ! k")
  obtain task' l' where r: "runTask env task (ny_log y) = (Inr task', l')" by (rule runTask_settles)
  have "leaked t (y\<lparr>ny_flight := fs, ny_log := l'\<rparr>)" for fs using l by (simp add: leaked_def)
  then show ?thesis unfolding y' using f r by (simp add: mission_finish_def settle_leaked)
next
  case BeginStart
  assume "leaked t y" and "mission_move m y = Some y'"
  then show ?thesis using BeginStart by (auto simp: mission_move_def mission_start_def leaked_def split: if_splits)
next
  case StopMission
  assume "leaked t y" and "mission_move m y = Some y'"
  then show ?thesis using StopMission by (auto simp: mission_move_def mission_stop_def intro: halt_leaked)
next
  case (Fire u)
  assume "leaked t y" and "mission_move m y = Some y'"
  then show ?thesis using Fire by (auto simp: mission_move_def tick_leaked split: if_splits)
qed

lemma moves_leaked: "leaked t y \<Longrightarrow> mission_moves ms y = Some y' \<Longrightarrow> leaked t y'"
  by (induction ms arbitrary: y) (auto simp: bind_eq_Some_conv dest: move_leaked)

section \<open>Properties\<close>

text \<open>While missions are started one at a time, the bookkeeping is exact in every reachable state: at most
  one task is being researched, the cursor is the completed tasks plus that one, every counter is the
  number of completed tasks with its status, and there is one interval exactly while a mission runs.\<close>

theorem mission_bookkeeping_is_exact:
  assumes "orderly_reach y"
  shows "length (ny_flight y) \<le> 1 \<and> mq_cursor (ny_state y) = mq_completed (ny_state y) + length (ny_flight y) \<and>
    mq_cursor (ny_state y) \<le> length (mq_tasks (ny_state y)) \<and>
    mq_completed (ny_state y) = mq_filled (ny_state y) + mq_unobtainable (ny_state y) + mq_errors (ny_state y) \<and>
    (let finished = take (mq_completed (ny_state y)) (mq_tasks (ny_state y)) in
       mq_filled (ny_state y) = with_status TaskFilled finished \<and>
       mq_unobtainable (ny_state y) = with_status TaskUnobtainable finished \<and>
       mq_errors (ny_state y) = with_status TaskError finished) \<and>
    length (ny_live y) = (if mq_running (ny_state y) then 1 else 0)"
proof -
  let ?s = "ny_state y"
  have ok: "orderly_ok y" by (rule orderly_reach_ok [OF assms])
  have c: "counters_ok ?s" and f: "flight_ok y" and t: "timer_ok y" and le: "mq_cursor ?s \<le> length (mq_tasks ?s)"
    using ok unfolding orderly_ok_def by blast+
  have "length (ny_flight y) \<le> 1 \<and> mq_cursor ?s = mq_completed ?s + length (ny_flight y)"
    using f by (auto simp: flight_ok_def Let_def split: if_splits)
  moreover have "length (ny_live y) = (if mq_running ?s then 1 else 0)"
    using t by (cases "mq_timer ?s") (simp_all add: timer_ok_def)
  ultimately show ?thesis using c le unfolding counters_ok_def Let_def by blast
qed

text \<open>C34: A mission ends on every schedule, whatever its calls answer. Take an orderly state in which a mission
  runs, and any sequence of interval fires and of research calls that return, in any order and with any
  answers. The moves in it that are not fires skipped during a task are at most two for each remaining
  task, one less when a task is being researched, and one for a mission without remaining tasks
  (\<open>work_left\<close>, which each of them lowers by one and which is zero exactly when the mission has
  stopped). While the mission runs it is never stuck: the task in flight can end, with any answer, or a
  live interval can fire and change the state. When it stops, every task is completed, nothing is in
  flight and no interval is left.\<close>

theorem mission_always_ends:
  assumes "orderly_reach y" and "mq_running (ny_state y)"
    and "list_all is_progress ms" and "mission_moves ms y = Some y'"
  shows "effective_moves ms y + work_left y' = work_left y \<and>
    (if mq_running (ny_state y')
     then 0 < work_left y' \<and>
       (if mq_busy (ny_state y') then \<forall>env. \<exists>y''. mission_move (FinishTask env 0) y' = Some y'' \<and> y'' \<noteq> y'
        else \<exists>t y''. mission_move (Fire t) y' = Some y'' \<and> y'' \<noteq> y')
     else work_left y' = 0 \<and> mq_completed (ny_state y') = length (mq_tasks (ny_state y')) \<and>
       ny_flight y' = [] \<and> ny_live y' = [])"
proof -
  have u: "under_way y" using orderly_reach_ok [OF assms(1)] assms(2) by (simp add: under_way_def)
  note steps = progress_steps [OF u assms(3,4)]
  have ok: "orderly_ok y'" using steps by (simp add: under_way_def)
  have "ny_live y' = []" if "\<not> mq_running (ny_state y')" using ok that by (auto simp: orderly_ok_def timer_ok_def)
  then show ?thesis using steps work_left_running [of y'] never_stuck [OF ok] by (auto simp: under_way_def)
qed

text \<open>C32: A task is only filled on two agreeing, sourced votes: both research calls gave a vote with an https
  source and a confidence not below six tenths, their values agree, and exactly one field update was
  written, of the satellite and the column of the task, with the value it reports.\<close>

theorem filled_on_two_agreeing_votes:
  assumes "runTask env task l = (Inr task', l')" and "mi_status task' = TaskFilled"
  shows "\<exists>v1 v2. singleVote env (task\<lparr>mi_status := TaskResearching\<rparr>) (fst ANGLES) = Inr v1 \<and>
    singleVote env (task\<lparr>mi_status := TaskResearching\<rparr>) (snd ANGLES) = Inr v2 \<and> confirmed_vote v1 \<and> confirmed_vote v2 \<and>
    votesAgree (fe_numString (vx_fill env)) (nv_value v1) (nv_value v2) \<and>
    updates l' = updates l + 1 \<and> FieldUpdated (mi_satellite task) (mi_field task) (mi_value task') \<in> set l'"
proof -
  let ?t = "task\<lparr>mi_status := TaskResearching\<rparr>"
  obtain v1 v2 where v: "singleVote env ?t (fst ANGLES) = Inr v1" "singleVote env ?t (snd ANGLES) = Inr v2"
    "settle_votes env ?t v1 v2 l = (Inr task', l')"
  proof (cases "singleVote env ?t (fst ANGLES)")
    case (Inl e)
    then show ?thesis using assms by (auto simp: runTask_def log_return_def task_failed_def)
  next
    case v1: (Inr v1)
    show ?thesis
    proof (cases "singleVote env ?t (snd ANGLES)")
      case (Inl e)
      then show ?thesis using assms v1 by (auto simp: runTask_def log_return_def task_failed_def)
    next
      case (Inr v2)
      then show ?thesis using assms(1) v1 that by (simp add: runTask_def)
    qed
  qed
  note s = settle_votes_filled [OF v(3) assms(2)]
  show ?thesis using v s singleVote_confirmed [OF v(1)] singleVote_confirmed [OF v(2)] fill_task_filled [of env ?t v1 v2 l task' l'] assms(2)
    by auto
qed

text \<open>Stopping and restarting a mission while a task is being researched breaks the bookkeeping: the
  restart replaces the state object, so a second task starts beside the first, and when both calls
  return, the new mission of one task has two completed.\<close>

theorem restart_overcounts:
  "\<exists>y y'. mission_moves [BeginStart, Launch [a] now, StopMission, BeginStart, Launch [b] now'] mission_boot = Some y \<and>
    length (ny_flight y) = 2 \<and> mission_moves [FinishTask env 0, FinishTask env' 0] y = Some y' \<and>
    length (mq_tasks (ny_state y')) = 1 \<and> mq_completed (ny_state y') = 2"
proof -
  obtain a' l1 where a: "runTask env a [] = (Inr a', l1)" by (rule runTask_settles)
  obtain b' l2 where b: "runTask env' b l1 = (Inr b', l2)" by (rule runTask_settles)
  show ?thesis using a b
    by (cases "mi_status a'"; cases "mi_status b'")
      (simp_all add: mission_move_def mission_start_def mission_launch_def mission_tick_def mission_stop_def halt_def
        mission_boot_def idle_mission_def mission_finish_def settle_task_def count_task_def Let_def)
qed

text \<open>Two starts that overlap leak an interval: both pass the check before either has its tasks, the
  second replaces the state with the timer of the first in it, and from then on no event, a stop
  included, clears the first interval.\<close>

theorem overlapping_starts_leak_an_interval:
  assumes "ts \<noteq> []"
    and "mission_moves ([BeginStart, BeginStart, Launch ts now, Launch ts' now'] @ ms) mission_boot = Some y"
  shows "0 \<in> set (ny_live y) \<and> mq_timer (ny_state y) \<noteq> Some 0"
proof -
  let ?y1 = "mission_launch ts now (mission_boot\<lparr>ny_starting := 2\<rparr>)"
  have live: "ny_live ?y1 = [0]" "ny_starting ?y1 = 1" "ny_nextTimer ?y1 = 1" using assms(1)
    by (simp_all add: mission_launch_def mission_tick_def mission_boot_def Let_def)
  have "mission_moves ms (mission_launch ts' now' ?y1) = Some y"
    using assms(2) live by (simp add: mission_move_def mission_start_def mission_boot_def idle_mission_def numeral_2_eq_2 [symmetric])
  moreover have "leaked 0 (mission_launch ts' now' ?y1)"
    by (subst mission_launch_def, rule tick_leaked) (simp add: leaked_def live)
  ultimately have "leaked 0 y" by (rule moves_leaked [rotated])
  then show ?thesis by (simp add: leaked_def)
qed

section \<open>Demonstrations\<close>

definition demo_vote_env :: vote_env where
  "demo_vote_env =
     \<lparr>vx_nano = (\<lambda>_ _. Inr \<lparr>na_ok = True, na_text = ''{}'', na_urls = [''https://x.org/a''], na_error = None\<rparr>),
      vx_parse = (\<lambda>_. Some [(''value'', JNum 12), (''confidence'', JNum (8 / 10)), (''source'', JStr ''https://x.org/a'')]),
      vx_host = (\<lambda>_. Inr ''x.org''), vx_fill = demo_fill_env\<rparr>"

definition demo_task :: mission_task where
  "demo_task = new_task \<lparr>sl_id = ''s'', sl_operator = None, sl_payload = None\<rparr> ''op'' ''lifetime''
     \<lparr>nw_id = 7, nw_name = ''sat'', nw_norad = None\<rparr>"

definition demo_mission :: "mission_move list" where
  "demo_mission = [BeginStart, Launch [demo_task, demo_task] 0]"

lemma demo_orderly: "orderly_reach (mission_launch [demo_task, demo_task] 0 (mission_start mission_boot))"
proof -
  have "orderly_reach (mission_start mission_boot)"
    by (rule orderly_steps [OF orderly_boots, of BeginStart])
      (simp_all add: mission_move_def mission_boot_def)
  then show ?thesis
    by (rule orderly_steps [of _ "Launch [demo_task, demo_task] 0"])
      (simp_all add: mission_move_def mission_start_def mission_boot_def idle_mission_def)
qed

theorem mission_bookkeeping_is_exact_witness:
  "length (ny_flight (mission_launch [demo_task, demo_task] 0 (mission_start mission_boot))) \<le> 1"
  using mission_bookkeeping_is_exact [OF demo_orderly] by blast

theorem mission_always_ends_witness:
  "\<exists>y'. mission_moves [FinishTask demo_vote_env 0, Fire 0, Fire 0, FinishTask demo_vote_env 0]
      (mission_launch [demo_task, demo_task] 0 (mission_start mission_boot)) = Some y' \<and>
    \<not> mq_running (ny_state y') \<and> mq_completed (ny_state y') = 2 \<and> ny_live y' = []"
proof -
  let ?y = "mission_launch [demo_task, demo_task] 0 (mission_start mission_boot)"
  let ?ms = "[FinishTask demo_vote_env 0, Fire 0, Fire 0, FinishTask demo_vote_env 0]"
  have run: "mq_running (ny_state ?y)"
    by (simp add: mission_launch_def mission_tick_def mission_start_def mission_boot_def idle_mission_def Let_def)
  have "case mission_moves ?ms ?y of None \<Rightarrow> False
      | Some y' \<Rightarrow> \<not> mq_running (ny_state y') \<and> length (mq_tasks (ny_state y')) = 2" by code_simp
  then obtain y' where y': "mission_moves ?ms ?y = Some y'" "\<not> mq_running (ny_state y')" "length (mq_tasks (ny_state y')) = 2"
    by (auto split: option.splits)
  from mission_always_ends [OF demo_orderly run _ y'(1)] y' show ?thesis by simp
qed

definition demo_filled :: "mission_task \<times> fill_effect list" where
  "demo_filled = (case runTask demo_vote_env demo_task [] of (Inr t, l) \<Rightarrow> (t, l) | (Inl e, l) \<Rightarrow> (demo_task, l))"

lemma demo_run: "runTask demo_vote_env demo_task [] = (Inr (fst demo_filled), snd demo_filled)"
proof -
  obtain t l where "runTask demo_vote_env demo_task [] = (Inr t, l)" by (rule runTask_settles)
  then show ?thesis by (simp add: demo_filled_def)
qed

lemma demo_run_filled: "mi_status (fst demo_filled) = TaskFilled"
  by code_simp

theorem filled_on_two_agreeing_votes_witness:
  "updates (snd demo_filled) = 1 \<and> FieldUpdated 7 ''lifetime'' (mi_value (fst demo_filled)) \<in> set (snd demo_filled)"
  using filled_on_two_agreeing_votes [OF demo_run demo_run_filled] by (auto simp: demo_task_def new_task_def)

theorem overlapping_starts_leak_an_interval_witness:
  "\<exists>y. mission_moves [BeginStart, BeginStart, Launch [demo_task] 0, Launch [] 0, StopMission] mission_boot = Some y \<and>
     0 \<in> set (ny_live y)"
proof -
  obtain y where y: "mission_moves [BeginStart, BeginStart, Launch [demo_task] 0, Launch [] 0, StopMission] mission_boot = Some y"
    by (simp add: mission_move_def mission_start_def mission_boot_def idle_mission_def mission_launch_def mission_tick_def
        mission_stop_def halt_def Let_def)
  then show ?thesis using overlapping_starts_leak_an_interval [of "[demo_task]" 0 "[]" 0 "[StopMission]" y] by simp
qed

end
