(* ===== verification/Autonomy.thy ===== *)
theory Autonomy
  imports Runtime
begin

text \<open>
  The autonomy loop of the console API: the spend ledger \<open>spend-ledger.ts\<close>, the cycle runner
  \<open>cycle-runner.service.ts\<close> and the timer-driven \<open>autonomy.service.ts\<close>, whose starts, stops, resets and
  ticks interleave at every \<open>await\<close>. Times are milliseconds.
\<close>

section \<open>The spend ledger\<close>

record spend_entry =
  sn_at :: int
  sn_usd :: real
  sn_cycles :: nat

definition DAY_MS :: int where "DAY_MS = 24 * 60 * 60 * 1000"

definition MONTH_MS :: int where "MONTH_MS = 30 * DAY_MS"

definition ledger_record :: "real \<Rightarrow> nat \<Rightarrow> int \<Rightarrow> spend_entry list \<Rightarrow> spend_entry list" where
  "ledger_record usd cycles now entries =
     (let entries = entries @ [\<lparr>sn_at = now, sn_usd = usd, sn_cycles = cycles\<rparr>];
          since = now - MONTH_MS in
      if sn_at (hd entries) < since then filter (\<lambda>en. since \<le> sn_at en) entries else entries)"

definition dailyUsd :: "int \<Rightarrow> spend_entry list \<Rightarrow> real" where
  "dailyUsd now entries = foldl (\<lambda>sum en. if now - DAY_MS \<le> sn_at en then sum + sn_usd en else sum) 0 entries"

definition monthlyUsd :: "int \<Rightarrow> spend_entry list \<Rightarrow> real" where
  "monthlyUsd now entries = foldl (\<lambda>sum en. if now - MONTH_MS \<le> sn_at en then sum + sn_usd en else sum) 0 entries"

definition cyclesInDay :: "int \<Rightarrow> spend_entry list \<Rightarrow> nat" where
  "cyclesInDay now entries = foldl (\<lambda>sum en. if now - DAY_MS \<le> sn_at en then sum + sn_cycles en else sum) 0 entries"

section \<open>The cycle runner\<close>

datatype cycle_kind = KindThalamus | KindFish | KindBoth

record cycle_result =
  cu_id :: jval
  cu_findingsCount :: "int option"
  cu_totalCost :: "real option"

record listed_finding =
  cv_id :: jval
  cv_researchCycleId :: jval
  cv_title :: string
  cv_summary :: string
  cv_confidence :: real

record run_finding =
  cw_id :: string
  cw_title :: string
  cw_summary :: string
  cw_sourceClass :: string
  cw_confidence :: real
  cw_evidenceRefs :: "string list"

record cycle_run =
  cy_kind :: cycle_kind
  cy_startedAt :: int
  cy_completedAt :: int
  cy_findingsEmitted :: int
  cy_cortices :: "string list"
  cy_error :: "string option"
  cy_findings :: "run_finding list option"
  cy_costUsd :: "real option"

text \<open>
  What the runner calls: the Thalamus service, the graph service and the nano sweep; and the decimal
  digits of a number.
\<close>

record runner_env =
  cz_runCycle :: "string \<Rightarrow> cycle_result throws"
  cz_listFindings :: "listed_finding list throws"
  cz_sweep :: "nat \<Rightarrow> string \<Rightarrow> int option throws"
  cz_numString :: "real \<Rightarrow> string"

definition projectThalamusFinding :: "runner_env \<Rightarrow> listed_finding \<Rightarrow> run_finding" where
  "projectThalamusFinding env f =
     \<lparr>cw_id = js_string (cz_numString env) (cv_id f), cw_title = cv_title f, cw_summary = cv_summary f,
      cw_sourceClass = ''KG'', cw_confidence = cv_confidence f, cw_evidenceRefs = []\<rparr>"

definition scoped_findings :: "runner_env \<Rightarrow> jval \<Rightarrow> listed_finding list \<Rightarrow> listed_finding list" where
  "scoped_findings env cycle_id fs =
     (let str = js_string (cz_numString env);
          scoped = (if cycle_id = JUndef then fs else filter (\<lambda>f. str (cv_researchCycleId f) = str cycle_id) fs) in
      if scoped \<noteq> [] then scoped else fs)"

definition or_zero :: "'a::zero option \<Rightarrow> 'a" where
  "or_zero v = (case v of Some x \<Rightarrow> x | None \<Rightarrow> 0)"

definition runThalamusDetail :: "runner_env \<Rightarrow> string \<Rightarrow> (int \<times> run_finding list \<times> real) throws" where
  "runThalamusDetail env query =
     (case cz_runCycle env query of
        Inl e \<Rightarrow> Inl e
      | Inr cycle \<Rightarrow>
          (case cz_listFindings env of
             Inl e \<Rightarrow> Inl e
           | Inr fs \<Rightarrow>
               Inr (or_zero (cu_findingsCount cycle), map (projectThalamusFinding env) (scoped_findings env (cu_id cycle) fs),
                    or_zero (cu_totalCost cycle))))"

definition runThalamus :: "runner_env \<Rightarrow> string \<Rightarrow> (int \<times> real) throws" where
  "runThalamus env query = map_sum id (\<lambda>(emitted, findings, cost). (emitted, cost)) (runThalamusDetail env query)"

definition runFish :: "runner_env \<Rightarrow> int throws" where
  "runFish env = map_sum id or_zero (cz_sweep env 20 ''nullScan'')"

definition runBriefing :: "runner_env \<Rightarrow> nat \<Rightarrow> int throws" where
  "runBriefing env limit = map_sum id or_zero (cz_sweep env limit ''briefing'')"

text \<open>\<open>unshift\<close>, and \<open>pop\<close> of what is beyond the bound.\<close>

definition push_bounded :: "nat \<Rightarrow> 'a \<Rightarrow> 'a list \<Rightarrow> 'a list" where
  "push_bounded n x xs = (let ys = x # xs in if length ys > n then butlast ys else ys)"

definition pushHistory :: "cycle_run \<Rightarrow> cycle_run list \<Rightarrow> cycle_run list" where
  "pushHistory r history = push_bounded 20 r history"

type_synonym run_parts = "int \<times> string list \<times> run_finding list option \<times> real option"

definition thalamus_part :: "runner_env \<Rightarrow> cycle_kind \<Rightarrow> string \<Rightarrow> run_parts throws" where
  "thalamus_part env kind query =
     (if kind = KindThalamus \<or> kind = KindBoth
      then map_sum id (\<lambda>(emitted, findings, cost). (emitted, [''thalamus''], Some findings, Some cost)) (runThalamusDetail env query)
      else Inr (0, [], None, None))"

definition fish_part :: "runner_env \<Rightarrow> cycle_kind \<Rightarrow> run_parts \<Rightarrow> run_parts throws" where
  "fish_part env kind parts =
     (case parts of
        (emitted, cortices, findings, cost) \<Rightarrow>
          if kind = KindFish \<or> kind = KindBoth
          then map_sum id (\<lambda>n. (emitted + n, cortices @ [''nano-sweep''], findings, cost)) (runFish env)
          else Inr parts)"

definition runUserCycle ::
  "runner_env \<Rightarrow> cycle_kind \<Rightarrow> string \<Rightarrow> int \<Rightarrow> int \<Rightarrow> cycle_run list \<Rightarrow> cycle_run \<times> cycle_run list" where
  "runUserCycle env kind query startedAt completedAt history =
     (let run = (case (case thalamus_part env kind query of Inl e \<Rightarrow> Inl e | Inr parts \<Rightarrow> fish_part env kind parts) of
                        Inl e \<Rightarrow>
                          \<lparr>cy_kind = kind, cy_startedAt = startedAt, cy_completedAt = completedAt, cy_findingsEmitted = 0,
                           cy_cortices = [], cy_error = Some (emsg e), cy_findings = None, cy_costUsd = None\<rparr>
                      | Inr (emitted, cortices, findings, cost) \<Rightarrow>
                          \<lparr>cy_kind = kind, cy_startedAt = startedAt, cy_completedAt = completedAt, cy_findingsEmitted = emitted,
                           cy_cortices = cortices, cy_error = None, cy_findings = findings, cy_costUsd = cost\<rparr>) in
      (run, pushHistory run history))"

section \<open>The autonomy service\<close>

datatype autonomy_action = ActThalamus | ActSweepNullscan | ActFishSwarm

datatype autonomy_stop_reason = DailyBudgetExhausted | MonthlyBudgetExhausted | MaxThalamusCyclesPerDay | StoppedByOperator

record autonomy_config =
  ay_intervalSec :: real
  ay_rotation :: "string list"
  ay_dailyBudgetUsd :: real
  ay_monthlyBudgetUsd :: real
  ay_maxThalamusCyclesPerDay :: real
  ay_stopOnBudgetExhausted :: bool

definition ROTATION_FALLBACK :: "autonomy_action list" where
  "ROTATION_FALLBACK = [ActThalamus]"

definition action_of :: "string \<Rightarrow> autonomy_action option" where
  "action_of s =
     (if s = ''thalamus'' then Some ActThalamus else if s = ''sweep-nullscan'' then Some ActSweepNullscan
      else if s = ''fish-swarm'' then Some ActFishSwarm else None)"

definition normalizeRotation :: "string list \<Rightarrow> autonomy_action list" where
  "normalizeRotation rotation =
     (let filtered = List.map_filter action_of rotation in if filtered \<noteq> [] then filtered else ROTATION_FALLBACK)"

definition evaluateCaps :: "autonomy_config \<Rightarrow> int \<Rightarrow> spend_entry list \<Rightarrow> autonomy_stop_reason option" where
  "evaluateCaps cfg now ledger =
     (if 0 < ay_dailyBudgetUsd cfg \<and> ay_dailyBudgetUsd cfg \<le> dailyUsd now ledger then Some DailyBudgetExhausted
      else if 0 < ay_monthlyBudgetUsd cfg \<and> ay_monthlyBudgetUsd cfg \<le> monthlyUsd now ledger then Some MonthlyBudgetExhausted
      else if 0 < ay_maxThalamusCyclesPerDay cfg \<and> ay_maxThalamusCyclesPerDay cfg \<le> of_nat (cyclesInDay now ledger)
      then Some MaxThalamusCyclesPerDay
      else None)"

text \<open>A tick that has not completed has no completion time yet.\<close>

record autonomy_tick =
  ak_action :: autonomy_action
  ak_queryOrMode :: string
  ak_startedAt :: int
  ak_completedAt :: "int option"
  ak_emitted :: int
  ak_costUsd :: real
  ak_error :: "string option"

record autonomy_state =
  au_running :: bool
  au_intervalMs :: real
  au_tickCount :: nat
  au_currentTick :: "autonomy_tick option"
  au_history :: "autonomy_tick list"
  au_startedAt :: "int option"
  au_rotationIdx :: nat
  au_queryIdx :: nat
  au_timer :: "nat option"
  au_busy :: bool
  au_stoppedReason :: "autonomy_stop_reason option"

definition initial_autonomy :: autonomy_state where
  "initial_autonomy =
     \<lparr>au_running = False, au_intervalMs = 45000, au_tickCount = 0, au_currentTick = None, au_history = [], au_startedAt = None,
      au_rotationIdx = 0, au_queryIdx = 0, au_timer = None, au_busy = False, au_stoppedReason = None\<rparr>"

definition QUERY_BIAS :: string where
  "QUERY_BIAS = ''Prefer named satellites, named operators, ranked outputs, baseline deviations, repeated patterns, and directly observed deltas.''"

definition QUERY_EXCLUSIONS :: string where
  "QUERY_EXCLUSIONS =
     ''WHAT I DON'' @ [CHR 0x27] @ ''T NEED YOU TO DO: avoid threat framing, intent attribution, policy language, filler commentary, and explicit labels unless directly supported.''"

definition buildAutonomyQuery :: "string \<Rightarrow> string" where
  "buildAutonomyQuery objective =
     objective @ '' Return only materially ranked candidates backed by explicit observations or baseline deltas. If nothing material is supported, return no candidate. '' @
     QUERY_BIAS @ '' '' @ QUERY_EXCLUSIONS"

definition THALAMUS_QUERIES :: "string list" where
  "THALAMUS_QUERIES = map buildAutonomyQuery
     [''Review orbital state changes across the fleet. Prioritize maneuvers, regime shifts, telemetry gaps, repeated state deltas, and objects that depart from their recent baseline.'',
      ''Review close-approach pressure across the fleet. Prioritize the highest Pc events, repeated pairings, recurrent operators, and near-term clusters that keep reappearing.'',
      ''Review catalog consistency. Prioritize mass, launch year, and platform class fields whose completion would change classification quality or confidence.'',
      ''Compare public reporting with current fleet state. Isolate operators, spacecraft, or patterns that need another verification pass, especially where multiple weak signals point in the same direction.'',
      ''Surface low-visibility objects. Prioritize low-confidence classifications, sparse metadata, and weak corroboration paths for refinement.'',
      ''Compare recent sim-fish suggestions with Thalamus findings. Isolate unresolved gaps, repeated mismatches, and cases where ranking should change after reconciliation.'']"

text \<open>
  The process: the state, the ledger, the live intervals, the starts that wait for the configuration
  with their override, and the ticks under way: waiting for the configuration, or for their action.
\<close>

datatype tick_phase = AwaitConfig | Acting autonomy_config autonomy_tick

record autonomy_sys =
  ax_state :: autonomy_state
  ax_ledger :: "spend_entry list"
  ax_live :: "nat list"
  ax_nextTimer :: nat
  ax_starting :: "jsnum option list"
  ax_flight :: "tick_phase list"

definition autonomy_boot :: autonomy_sys where
  "autonomy_boot =
     \<lparr>ax_state = initial_autonomy, ax_ledger = [], ax_live = [], ax_nextTimer = 0, ax_starting = [], ax_flight = []\<rparr>"

definition remove_nth :: "nat \<Rightarrow> 'a list \<Rightarrow> 'a list" where
  "remove_nth k xs = take k xs @ drop (Suc k) xs"

text \<open>\<open>clearInterval\<close> of the timer the state remembers.\<close>

definition clear_timer :: "autonomy_sys \<Rightarrow> autonomy_sys" where
  "clear_timer y =
     y\<lparr>ax_live := (case au_timer (ax_state y) of Some t \<Rightarrow> removeAll t (ax_live y) | None \<Rightarrow> ax_live y)\<rparr>"

definition autonomy_stop :: "autonomy_stop_reason \<Rightarrow> autonomy_sys \<Rightarrow> autonomy_sys" where
  "autonomy_stop reason y =
     (clear_timer y)\<lparr>ax_state := (ax_state y)\<lparr>au_timer := None, au_running := False,
        au_stoppedReason := (case au_stoppedReason (ax_state y) of None \<Rightarrow> Some reason | r \<Rightarrow> r)\<rparr>\<rparr>"

definition resetSpend :: "autonomy_sys \<Rightarrow> autonomy_sys" where
  "resetSpend y = y\<lparr>ax_ledger := []\<rparr>"

definition schedule :: "autonomy_sys \<Rightarrow> autonomy_sys" where
  "schedule y =
     (let t = ax_nextTimer y; y' = clear_timer y in
      y'\<lparr>ax_live := ax_live y' @ [t], ax_nextTimer := t + 1, ax_state := (ax_state y)\<lparr>au_timer := Some t\<rparr>\<rparr>)"

definition tick_begin :: "autonomy_sys \<Rightarrow> autonomy_sys" where
  "tick_begin y =
     (if au_busy (ax_state y) \<or> \<not> au_running (ax_state y) then y
      else y\<lparr>ax_state := (ax_state y)\<lparr>au_busy := True\<rparr>, ax_flight := ax_flight y @ [AwaitConfig]\<rparr>)"

definition start_call :: "jsnum option \<Rightarrow> autonomy_sys \<Rightarrow> autonomy_sys" where
  "start_call override y = (if au_running (ax_state y) then y else y\<lparr>ax_starting := ax_starting y @ [override]\<rparr>)"

definition interval_ms :: "real \<Rightarrow> real" where
  "interval_ms sec = max 15 (min 600 sec) * 1000"

definition start_interval :: "jsnum option \<Rightarrow> autonomy_config \<Rightarrow> real" where
  "start_interval override cfg =
     interval_ms (case override of Some (Fin x) \<Rightarrow> x | _ \<Rightarrow> ay_intervalSec cfg)"

text \<open>The rest of \<open>start\<close>, when the configuration arrives; a configuration that fails rejects the call.\<close>

definition start_config :: "nat \<Rightarrow> autonomy_config throws \<Rightarrow> int \<Rightarrow> autonomy_sys \<Rightarrow> autonomy_sys" where
  "start_config k res now y =
     (let y' = y\<lparr>ax_starting := remove_nth k (ax_starting y)\<rparr> in
      case res of
        Inl e \<Rightarrow> y'
      | Inr cfg \<Rightarrow>
          tick_begin (schedule (y'\<lparr>ax_state := (ax_state y)\<lparr>au_intervalMs := start_interval (ax_starting y ! k) cfg,
             au_running := True, au_stoppedReason := None, au_startedAt := Some now\<rparr>\<rparr>)))"

definition query_or_mode :: "autonomy_action \<Rightarrow> nat \<Rightarrow> string" where
  "query_or_mode action queryIdx =
     (case action of
        ActThalamus \<Rightarrow> THALAMUS_QUERIES ! (queryIdx mod length THALAMUS_QUERIES)
      | ActSweepNullscan \<Rightarrow> ''nullScan(20 operator-countries)''
      | ActFishSwarm \<Rightarrow> ''briefing(5 operator-countries)'')"

definition begin_action :: "autonomy_config \<Rightarrow> int \<Rightarrow> autonomy_state \<Rightarrow> autonomy_tick \<times> autonomy_state" where
  "begin_action cfg now s =
     (let rotation = normalizeRotation (ay_rotation cfg);
          action = rotation ! (au_rotationIdx s mod length rotation);
          tick = \<lparr>ak_action = action, ak_queryOrMode = query_or_mode action (au_queryIdx s), ak_startedAt = now,
                  ak_completedAt = None, ak_emitted = 0, ak_costUsd = 0, ak_error = None\<rparr> in
      (tick, s\<lparr>au_rotationIdx := au_rotationIdx s + 1,
               au_queryIdx := (if action = ActThalamus then au_queryIdx s + 1 else au_queryIdx s),
               au_currentTick := Some tick\<rparr>))"

definition adopt_interval :: "autonomy_config \<Rightarrow> autonomy_sys \<Rightarrow> autonomy_sys" where
  "adopt_interval cfg y =
     (let wanted = interval_ms (ay_intervalSec cfg) in
      if wanted \<noteq> au_intervalMs (ax_state y)
      then schedule (y\<lparr>ax_state := (ax_state y)\<lparr>au_intervalMs := wanted\<rparr>\<rparr>)
      else y)"

text \<open>The configuration of a tick arrives; one that fails ends the tick.\<close>

definition tick_config :: "nat \<Rightarrow> autonomy_config throws \<Rightarrow> int \<Rightarrow> autonomy_sys \<Rightarrow> autonomy_sys" where
  "tick_config k res now y =
     (case res of
        Inl e \<Rightarrow> y\<lparr>ax_flight := remove_nth k (ax_flight y), ax_state := (ax_state y)\<lparr>au_busy := False\<rparr>\<rparr>
      | Inr cfg \<Rightarrow>
          (let y' = adopt_interval cfg y; (tick, s) = begin_action cfg now (ax_state y') in
           y'\<lparr>ax_state := s, ax_flight := (ax_flight y')[k := Acting cfg tick]\<rparr>))"

text \<open>What the action of a tick gives: how many it emitted and what it cost.\<close>

definition perform_action :: "runner_env \<Rightarrow> autonomy_tick \<Rightarrow> (int \<times> real) throws" where
  "perform_action env tick =
     (case ak_action tick of
        ActThalamus \<Rightarrow> runThalamus env (ak_queryOrMode tick)
      | ActSweepNullscan \<Rightarrow> map_sum id (\<lambda>n. (n, 0)) (runFish env)
      | ActFishSwarm \<Rightarrow> map_sum id (\<lambda>n. (n, 0)) (runBriefing env 5))"

definition finished_tick :: "(int \<times> real) throws \<Rightarrow> int \<Rightarrow> autonomy_tick \<Rightarrow> autonomy_tick" where
  "finished_tick res now tick =
     (case res of
        Inl e \<Rightarrow> tick\<lparr>ak_completedAt := Some now, ak_error := (if emsg e = [] then None else Some (emsg e))\<rparr>
      | Inr (emitted, cost) \<Rightarrow> tick\<lparr>ak_completedAt := Some now, ak_emitted := emitted, ak_costUsd := cost\<rparr>)"

definition settle_tick :: "autonomy_config \<Rightarrow> autonomy_tick \<Rightarrow> int \<Rightarrow> autonomy_sys \<Rightarrow> autonomy_sys" where
  "settle_tick cfg tick now y =
     (let s = ax_state y;
          ledger = ledger_record (ak_costUsd tick) (if ak_action tick = ActThalamus then 1 else 0) now (ax_ledger y);
          y' = y\<lparr>ax_ledger := ledger,
                 ax_state := s\<lparr>au_history := push_bounded 40 tick (au_history s), au_currentTick := None,
                               au_tickCount := au_tickCount s + 1\<rparr>\<rparr>;
          y'' = (case evaluateCaps cfg now ledger of
                   Some reason \<Rightarrow> if ay_stopOnBudgetExhausted cfg then autonomy_stop reason y' else y'
                 | None \<Rightarrow> y') in
      y''\<lparr>ax_state := (ax_state y'')\<lparr>au_busy := False\<rparr>\<rparr>)"

definition action_done :: "nat \<Rightarrow> runner_env \<Rightarrow> int \<Rightarrow> autonomy_sys \<Rightarrow> autonomy_sys" where
  "action_done k env now y =
     (case ax_flight y ! k of
        AwaitConfig \<Rightarrow> y
      | Acting cfg tick \<Rightarrow>
          settle_tick cfg (finished_tick (perform_action env tick) now tick) now
            (y\<lparr>ax_flight := remove_nth k (ax_flight y)\<rparr>))"

datatype autonomy_move =
    StartCall "jsnum option"
  | StartConfig nat "autonomy_config throws"
  | StopCall
  | ResetCall
  | Interval nat
  | TickConfig nat "autonomy_config throws"
  | ActionDone nat runner_env

definition autonomy_move :: "autonomy_move \<Rightarrow> int \<Rightarrow> autonomy_sys \<Rightarrow> autonomy_sys option" where
  "autonomy_move m now y =
     (case m of
        StartCall override \<Rightarrow> Some (start_call override y)
      | StartConfig k res \<Rightarrow> if k < length (ax_starting y) then Some (start_config k res now y) else None
      | StopCall \<Rightarrow> Some (autonomy_stop StoppedByOperator y)
      | ResetCall \<Rightarrow> Some (resetSpend y)
      | Interval t \<Rightarrow> if t \<in> set (ax_live y) then Some (tick_begin y) else None
      | TickConfig k res \<Rightarrow>
          if k < length (ax_flight y) \<and> ax_flight y ! k = AwaitConfig then Some (tick_config k res now y) else None
      | ActionDone k env \<Rightarrow>
          if k < length (ax_flight y) \<and> ax_flight y ! k \<noteq> AwaitConfig then Some (action_done k env now y) else None)"

inductive autonomy_reach :: "autonomy_sys \<Rightarrow> bool" where
  autonomy_boots: "autonomy_reach autonomy_boot"
| autonomy_steps: "autonomy_reach y \<Longrightarrow> autonomy_move m now y = Some y' \<Longrightarrow> autonomy_reach y'"

section \<open>The ledger\<close>

definition window :: "int \<Rightarrow> int \<Rightarrow> spend_entry list \<Rightarrow> spend_entry list" where
  "window width now entries = filter (\<lambda>en. now - width \<le> sn_at en) entries"

lemma window_append [simp]: "window width now (l @ l') = window width now l @ window width now l'"
  by (simp add: window_def)

lemma foldl_window:
  "foldl (\<lambda>sum en. if P en then sum + (f en :: 'a::comm_monoid_add) else sum) a es = a + sum_list (map f (filter P es))"
  by (induction es arbitrary: a) (simp_all add: add.assoc)

lemma sums_window:
  "dailyUsd now es = sum_list (map sn_usd (window DAY_MS now es))"
  "monthlyUsd now es = sum_list (map sn_usd (window MONTH_MS now es))"
  "cyclesInDay now es = sum_list (map sn_cycles (window DAY_MS now es))"
  by (simp_all add: dailyUsd_def monthlyUsd_def cyclesInDay_def window_def foldl_window)

lemma widths: "DAY_MS \<le> MONTH_MS" by (simp add: DAY_MS_def MONTH_MS_def)

text \<open>Pruning never shows in a window.\<close>

lemma record_window:
  assumes "width \<le> MONTH_MS" and "now \<le> now'"
  shows "window width now' (ledger_record usd k now es) =
    window width now' (es @ [\<lparr>sn_at = now, sn_usd = usd, sn_cycles = k\<rparr>])"
proof -
  have "filter (\<lambda>en. now' - width \<le> sn_at en) (filter (\<lambda>en. now - MONTH_MS \<le> sn_at en) xs) =
    filter (\<lambda>en. now' - width \<le> sn_at en) xs" for xs :: "spend_entry list"
    using assms by (induction xs) auto
  then show ?thesis unfolding window_def ledger_record_def Let_def by (simp only: if_distrib [of "filter _"] if_cancel)
qed

lemma record_sums:
  "dailyUsd now (ledger_record usd k now es) = dailyUsd now es + usd"
  "monthlyUsd now (ledger_record usd k now es) = monthlyUsd now es + usd"
  "cyclesInDay now (ledger_record usd k now es) = cyclesInDay now es + k"
proof -
  have "0 \<le> DAY_MS" "0 \<le> MONTH_MS" by (simp_all add: DAY_MS_def MONTH_MS_def)
  then show "dailyUsd now (ledger_record usd k now es) = dailyUsd now es + usd"
    "monthlyUsd now (ledger_record usd k now es) = monthlyUsd now es + usd"
    "cyclesInDay now (ledger_record usd k now es) = cyclesInDay now es + k"
    by (simp_all add: sums_window record_window widths) (simp_all add: window_def)
qed

definition entry_of :: "real \<times> nat \<times> int \<Rightarrow> spend_entry" where
  "entry_of r = (case r of (usd, k, now) \<Rightarrow> \<lparr>sn_at = now, sn_usd = usd, sn_cycles = k\<rparr>)"

definition ledger_of :: "(real \<times> nat \<times> int) list \<Rightarrow> spend_entry list" where
  "ledger_of rs = foldl (\<lambda>l (usd, k, now). ledger_record usd k now l) [] rs"

lemma ledger_of_window:
  assumes "width \<le> MONTH_MS" and "list_all (\<lambda>r. sn_at (entry_of r) \<le> now) rs"
  shows "window width now (ledger_of rs) = window width now (map entry_of rs)"
  using assms(2)
proof (induction rs rule: rev_induct)
  case (snoc r rs)
  obtain usd k t where r: "r = (usd, k, t)" by (cases r)
  then show ?case using snoc record_window [OF assms(1), of t now usd k "ledger_of rs"]
    by (simp add: ledger_of_def entry_of_def)
qed (simp add: ledger_of_def)

lemma sorted_hd_last: "sorted xs \<Longrightarrow> x \<in> set xs \<Longrightarrow> hd xs \<le> (x :: int)"
  by (cases xs) auto

lemma ledger_of_exact:
  "sorted (map sn_at (map entry_of rs)) \<Longrightarrow> rs \<noteq> [] \<Longrightarrow>
   ledger_of rs = window MONTH_MS (sn_at (entry_of (last rs))) (map entry_of rs)"
proof (induction rs rule: rev_induct)
  case (snoc r rs)
  obtain usd k t where r: "r = (usd, k, t)" by (cases r)
  let ?e = "\<lparr>sn_at = t, sn_usd = usd, sn_cycles = k\<rparr>"
  let ?l = "ledger_of rs @ [?e]"
  have le: "sn_at (entry_of q) \<le> t" if "q \<in> set rs" for q using snoc.prems(1) that r by (auto simp: sorted_append entry_of_def)
  have all: "list_all (\<lambda>q. sn_at (entry_of q) \<le> t) rs" using le by (simp add: list_all_iff)
  have months: "window MONTH_MS t ?l = window MONTH_MS t (map entry_of (rs @ [r]))"
    using ledger_of_window [OF order_refl all] r by (simp add: entry_of_def)
  have led: "ledger_of (rs @ [r]) = (if sn_at (hd ?l) < t - MONTH_MS then window MONTH_MS t ?l else ?l)"
    by (simp add: ledger_of_def r ledger_record_def Let_def window_def)
  have keep: "window MONTH_MS t ?l = ?l" if "\<not> sn_at (hd ?l) < t - MONTH_MS"
  proof -
    have "sorted (map sn_at ?l)"
    proof (cases "rs = []")
      case False
      then have "ledger_of rs = window MONTH_MS (sn_at (entry_of (last rs))) (map entry_of rs)"
        using snoc.IH snoc.prems(1) by (simp add: sorted_append)
      moreover have "sorted (map sn_at (window MONTH_MS u (map entry_of rs)))" for u
        using snoc.prems(1) unfolding window_def by (intro sorted_filter) (simp add: sorted_append)
      ultimately show ?thesis using le by (auto simp: sorted_append window_def)
    qed (simp add: ledger_of_def)
    then have "sn_at (hd ?l) \<le> sn_at en" if "en \<in> set ?l" for en
    proof -
      have "hd (map sn_at ?l) = sn_at (hd ?l)" by (rule hd_map) simp
      moreover have "sn_at en \<in> set (map sn_at ?l)" using that unfolding set_map by (rule imageI)
      ultimately show ?thesis using sorted_hd_last [OF \<open>sorted (map sn_at ?l)\<close>, of "sn_at en"] by simp
    qed
    then show ?thesis using that unfolding window_def by (intro filter_True) force
  qed
  have "sn_at (entry_of (last (rs @ [r]))) = t" using r by (simp add: entry_of_def)
  then show ?case using led months keep by metis
qed simp

lemma sorted_last_le: "sorted xs \<Longrightarrow> x \<in> set xs \<Longrightarrow> (x :: int) \<le> last xs"
  by (induction xs rule: rev_induct) (auto simp: sorted_append)

section \<open>Timers, ticks and history\<close>

definition acting :: "autonomy_sys \<Rightarrow> autonomy_tick list" where
  "acting y = concat (map (\<lambda>p. case p of AwaitConfig \<Rightarrow> [] | Acting cfg tick \<Rightarrow> [tick]) (ax_flight y))"

definition ticks_ok :: "autonomy_sys \<Rightarrow> bool" where
  "ticks_ok y =
     (let s = ax_state y in
      length (ax_flight y) = (if au_busy s then 1 else 0) \<and>
      au_rotationIdx s = au_tickCount s + length (acting y) \<and>
      length (au_history s) = min 40 (au_tickCount s) \<and>
      au_currentTick s = (case acting y of [] \<Rightarrow> None | t # _ \<Rightarrow> Some t))"

definition timers_ok :: "autonomy_sys \<Rightarrow> bool" where
  "timers_ok y =
     (ax_live y = (case au_timer (ax_state y) of Some t \<Rightarrow> [t] | None \<Rightarrow> []) \<and>
      (au_running (ax_state y) \<longrightarrow> au_timer (ax_state y) \<noteq> None))"

definition autonomy_ok :: "autonomy_sys \<Rightarrow> bool" where
  "autonomy_ok y = (ticks_ok y \<and> timers_ok y)"

lemma push_bounded_length: "length (push_bounded n x xs) = min n (length xs + 1)" if "length xs \<le> n" "0 < n"
  using that by (simp add: push_bounded_def Let_def)

lemma remove_nth_length [simp]: "k < length xs \<Longrightarrow> length (remove_nth k xs) = length xs - 1"
  by (simp add: remove_nth_def)

lemma only_flight: "ticks_ok y \<Longrightarrow> k < length (ax_flight y) \<Longrightarrow> k = 0 \<and> au_busy (ax_state y) \<and> ax_flight y = [ax_flight y ! k]"
  by (cases "ax_flight y") (auto simp: ticks_ok_def Let_def split: if_splits)

lemma clear_timer_fields [simp]:
  "ax_state (clear_timer y) = ax_state y" "ax_ledger (clear_timer y) = ax_ledger y" "ax_flight (clear_timer y) = ax_flight y"
  "ax_nextTimer (clear_timer y) = ax_nextTimer y" "acting (clear_timer y) = acting y" "ax_starting (clear_timer y) = ax_starting y"
  by (simp_all add: clear_timer_def acting_def)

lemma clear_timer_live: "timers_ok y \<Longrightarrow> ax_live (clear_timer y) = []"
  by (cases "au_timer (ax_state y)") (simp_all add: timers_ok_def clear_timer_def)

lemma clear_timer_cong:
  "ax_live y' = ax_live y \<Longrightarrow> au_timer (ax_state y') = au_timer (ax_state y) \<Longrightarrow> ax_live (clear_timer y') = ax_live (clear_timer y)"
  by (cases "au_timer (ax_state y)") (simp_all add: clear_timer_def)

lemma schedule_fields [simp]:
  "ax_state (schedule y) = (ax_state y)\<lparr>au_timer := Some (ax_nextTimer y)\<rparr>" "ax_ledger (schedule y) = ax_ledger y"
  "ax_flight (schedule y) = ax_flight y" "acting (schedule y) = acting y"
  by (simp_all add: schedule_def Let_def acting_def)

lemma ticks_ok_cong:
  "ax_flight y' = ax_flight y \<Longrightarrow> au_busy (ax_state y') = au_busy (ax_state y) \<Longrightarrow>
   au_rotationIdx (ax_state y') = au_rotationIdx (ax_state y) \<Longrightarrow> au_tickCount (ax_state y') = au_tickCount (ax_state y) \<Longrightarrow>
   au_history (ax_state y') = au_history (ax_state y) \<Longrightarrow> au_currentTick (ax_state y') = au_currentTick (ax_state y) \<Longrightarrow>
   ticks_ok y' = ticks_ok y"
  by (simp add: ticks_ok_def acting_def Let_def)

lemma schedule_timers: "ax_live (clear_timer y) = [] \<Longrightarrow> timers_ok (schedule y)"
  by (simp add: timers_ok_def schedule_def Let_def)

lemma stop_ok: "autonomy_ok y \<Longrightarrow> autonomy_ok (autonomy_stop reason y)"
proof -
  assume ok: "autonomy_ok y"
  have "ticks_ok (autonomy_stop reason y) = ticks_ok y" by (rule ticks_ok_cong) (simp_all add: autonomy_stop_def)
  moreover have "timers_ok (autonomy_stop reason y)"
    using ok clear_timer_live [of y] by (simp add: autonomy_ok_def timers_ok_def autonomy_stop_def)
  ultimately show ?thesis using ok by (simp add: autonomy_ok_def)
qed

lemma tick_begin_ok: "autonomy_ok y \<Longrightarrow> autonomy_ok (tick_begin y)"
  by (auto simp: autonomy_ok_def tick_begin_def ticks_ok_def timers_ok_def acting_def Let_def)

lemma start_config_ok: "autonomy_ok y \<Longrightarrow> autonomy_ok (start_config k res now y)"
proof (cases res)
  case (Inl e)
  assume ok: "autonomy_ok y"
  then show ?thesis using Inl by (simp add: start_config_def autonomy_ok_def timers_ok_def ticks_ok_def acting_def)
next
  case (Inr cfg)
  assume ok: "autonomy_ok y"
  let ?y = "y\<lparr>ax_starting := remove_nth k (ax_starting y), ax_state := (ax_state y)\<lparr>au_intervalMs := start_interval (ax_starting y ! k) cfg,
    au_running := True, au_stoppedReason := None, au_startedAt := Some now\<rparr>\<rparr>"
  have "ax_live (clear_timer ?y) = ax_live (clear_timer y)" by (rule clear_timer_cong) simp_all
  then have "timers_ok (schedule ?y)" using ok clear_timer_live [of y] by (intro schedule_timers) (simp add: autonomy_ok_def)
  moreover have "ticks_ok (schedule ?y) = ticks_ok y" by (rule ticks_ok_cong) simp_all
  ultimately have "autonomy_ok (schedule ?y)" using ok by (simp add: autonomy_ok_def)
  then show ?thesis using Inr by (simp add: start_config_def tick_begin_ok)
qed

lemma adopt_interval_ok: "autonomy_ok y \<Longrightarrow> autonomy_ok (adopt_interval cfg y)"
proof -
  assume ok: "autonomy_ok y"
  let ?y = "y\<lparr>ax_state := (ax_state y)\<lparr>au_intervalMs := interval_ms (ay_intervalSec cfg)\<rparr>\<rparr>"
  have "ax_live (clear_timer ?y) = ax_live (clear_timer y)" by (rule clear_timer_cong) simp_all
  then have "timers_ok (schedule ?y)" using ok clear_timer_live [of y] by (intro schedule_timers) (simp add: autonomy_ok_def)
  moreover have "ticks_ok (schedule ?y) = ticks_ok y" by (rule ticks_ok_cong) simp_all
  ultimately show ?thesis using ok by (simp add: adopt_interval_def Let_def autonomy_ok_def)
qed

lemma adopt_interval_fields [simp]:
  "ax_flight (adopt_interval cfg y) = ax_flight y" "ax_ledger (adopt_interval cfg y) = ax_ledger y"
  "au_running (ax_state (adopt_interval cfg y)) = au_running (ax_state y)"
  "au_intervalMs (ax_state (adopt_interval cfg y)) = interval_ms (ay_intervalSec cfg)"
  by (simp_all add: adopt_interval_def Let_def)

lemma begin_action_fields [simp]:
  "au_running (snd (begin_action cfg now s)) = au_running s" "au_timer (snd (begin_action cfg now s)) = au_timer s"
  "au_busy (snd (begin_action cfg now s)) = au_busy s" "au_history (snd (begin_action cfg now s)) = au_history s"
  "au_tickCount (snd (begin_action cfg now s)) = au_tickCount s" "au_intervalMs (snd (begin_action cfg now s)) = au_intervalMs s"
  "au_rotationIdx (snd (begin_action cfg now s)) = au_rotationIdx s + 1"
  "au_currentTick (snd (begin_action cfg now s)) = Some (fst (begin_action cfg now s))"
  "ak_costUsd (fst (begin_action cfg now s)) = 0"
  by (simp_all add: begin_action_def Let_def)

lemma tick_config_Inr:
  "tick_config k (Inr cfg) now y = (adopt_interval cfg y)\<lparr>ax_state := snd (begin_action cfg now (ax_state (adopt_interval cfg y))),
     ax_flight := (ax_flight y)[k := Acting cfg (fst (begin_action cfg now (ax_state (adopt_interval cfg y))))]\<rparr>"
  by (simp add: tick_config_def Let_def split: prod.split)

lemma tick_config_ok:
  assumes ok: "autonomy_ok y" and k: "k < length (ax_flight y)" "ax_flight y ! k = AwaitConfig"
  shows "autonomy_ok (tick_config k res now y)"
proof -
  have f: "k = 0" "ax_flight y = [AwaitConfig]" "au_busy (ax_state y)"
    using only_flight [of y k] ok k by (auto simp: autonomy_ok_def)
  show ?thesis
  proof (cases res)
    case (Inl e)
    then show ?thesis using ok f
      by (simp add: tick_config_def autonomy_ok_def ticks_ok_def timers_ok_def remove_nth_def acting_def Let_def)
  next
    case (Inr cfg)
    show ?thesis using adopt_interval_ok [OF ok, of cfg] f unfolding Inr tick_config_Inr
      by (simp add: autonomy_ok_def ticks_ok_def timers_ok_def acting_def Let_def)
  qed
qed

lemma stop_busy:
  "(autonomy_stop r y)\<lparr>ax_state := (ax_state (autonomy_stop r y))\<lparr>au_busy := b\<rparr>\<rparr> =
   autonomy_stop r (y\<lparr>ax_state := (ax_state y)\<lparr>au_busy := b\<rparr>\<rparr>)"
  by (cases "au_timer (ax_state y)") (simp_all add: autonomy_stop_def clear_timer_def)

lemma settle_tick_ok:
  assumes "ticks_ok y" and "timers_ok y" and "ax_flight y = [Acting cfg tick0]"
  shows "autonomy_ok (settle_tick cfg tick now (y\<lparr>ax_flight := []\<rparr>))"
proof -
  let ?s = "ax_state y"
  define ledger where "ledger = ledger_record (ak_costUsd tick) (if ak_action tick = ActThalamus then 1 else 0) now (ax_ledger y)"
  let ?s' = "?s\<lparr>au_history := push_bounded 40 tick (au_history ?s), au_currentTick := None, au_tickCount := au_tickCount ?s + 1\<rparr>"
  let ?y = "y\<lparr>ax_flight := [], ax_ledger := ledger, ax_state := ?s'\<rparr>"
  have "autonomy_ok (?y\<lparr>ax_state := ?s'\<lparr>au_busy := False\<rparr>\<rparr>)"
  proof -
    have "length (au_history ?s) = min 40 (au_tickCount ?s)" "au_rotationIdx ?s = au_tickCount ?s + 1"
      using assms(1,3) by (simp_all add: ticks_ok_def acting_def Let_def)
    then have "ticks_ok (?y\<lparr>ax_state := ?s'\<lparr>au_busy := False\<rparr>\<rparr>)"
      by (simp add: ticks_ok_def acting_def Let_def push_bounded_length)
    then show ?thesis using assms(2) by (simp add: autonomy_ok_def timers_ok_def)
  qed
  moreover have "autonomy_ok ((autonomy_stop r ?y)\<lparr>ax_state := (ax_state (autonomy_stop r ?y))\<lparr>au_busy := False\<rparr>\<rparr>)" for r
    unfolding stop_busy using stop_ok [OF calculation, of r] by simp
  ultimately show ?thesis
    by (simp add: settle_tick_def Let_def ledger_def [symmetric] split: option.split)
qed

lemma action_done_ok:
  assumes ok: "autonomy_ok y" and k: "k < length (ax_flight y)" "ax_flight y ! k \<noteq> AwaitConfig"
  shows "autonomy_ok (action_done k env now y)"
proof -
  obtain cfg tick where f: "k = 0" "ax_flight y = [Acting cfg tick]"
    using only_flight [of y k] ok k by (cases "ax_flight y ! k") (auto simp: autonomy_ok_def)
  then show ?thesis using settle_tick_ok [OF _ _ f(2)] ok by (simp add: action_done_def autonomy_ok_def remove_nth_def)
qed

lemma start_call_ok: "autonomy_ok y \<Longrightarrow> autonomy_ok (start_call override y)"
  by (simp add: start_call_def autonomy_ok_def ticks_ok_def timers_ok_def acting_def)

lemma resetSpend_ok: "autonomy_ok y \<Longrightarrow> autonomy_ok (resetSpend y)"
  by (simp add: resetSpend_def autonomy_ok_def ticks_ok_def timers_ok_def acting_def)

lemma autonomy_move_ok: "autonomy_ok y \<Longrightarrow> autonomy_move m now y = Some y' \<Longrightarrow> autonomy_ok y'"
  by (cases m)
    (auto simp: autonomy_move_def start_config_ok stop_ok tick_begin_ok tick_config_ok action_done_ok start_call_ok resetSpend_ok split: if_splits)

lemma autonomy_reach_ok: "autonomy_reach y \<Longrightarrow> autonomy_ok y"
proof (induction rule: autonomy_reach.induct)
  case autonomy_boots
  show ?case by (simp add: autonomy_ok_def ticks_ok_def timers_ok_def acting_def autonomy_boot_def initial_autonomy_def Let_def)
qed (rule autonomy_move_ok)

section \<open>The budget\<close>

definition spends :: "spend_entry list \<Rightarrow> bool" where
  "spends es = list_all (\<lambda>en. 0 \<le> sn_usd en) es"

text \<open>Within the caps, but for \<open>e\<close> actions of at most \<open>c\<close> dollars and one cycle.\<close>

definition within_caps :: "autonomy_config \<Rightarrow> real \<Rightarrow> nat \<Rightarrow> int \<Rightarrow> spend_entry list \<Rightarrow> bool" where
  "within_caps cfg c e now es =
     ((0 < ay_dailyBudgetUsd cfg \<longrightarrow> dailyUsd now es < ay_dailyBudgetUsd cfg + real e * c) \<and>
      (0 < ay_monthlyBudgetUsd cfg \<longrightarrow> monthlyUsd now es < ay_monthlyBudgetUsd cfg + real e * c) \<and>
      (0 < ay_maxThalamusCyclesPerDay cfg \<longrightarrow> of_nat (cyclesInDay now es) < ay_maxThalamusCyclesPerDay cfg + real e))"

lemma caps_left:
  "evaluateCaps cfg now es = None \<longleftrightarrow>
   (0 < ay_dailyBudgetUsd cfg \<longrightarrow> dailyUsd now es < ay_dailyBudgetUsd cfg) \<and>
   (0 < ay_monthlyBudgetUsd cfg \<longrightarrow> monthlyUsd now es < ay_monthlyBudgetUsd cfg) \<and>
   (0 < ay_maxThalamusCyclesPerDay cfg \<longrightarrow> of_nat (cyclesInDay now es) < ay_maxThalamusCyclesPerDay cfg)"
  by (auto simp: evaluateCaps_def)

lemma left_within:
  assumes "evaluateCaps cfg now es = None" "0 \<le> c"
  shows "within_caps cfg c e now es"
proof -
  have "0 \<le> real e * c" using assms(2) by simp
  then show ?thesis using assms(1) unfolding caps_left within_caps_def by auto
qed

lemma within_more: "within_caps cfg c e now es \<Longrightarrow> 0 \<le> c \<Longrightarrow> within_caps cfg c (Suc e) now es"
  by (auto simp: within_caps_def distrib_right)

lemma window_later:
  "spends es \<Longrightarrow> now \<le> now' \<Longrightarrow> sum_list (map sn_usd (window width now' es)) \<le> sum_list (map sn_usd (window width now es))"
  by (induction es) (auto simp: spends_def window_def)

lemma cycles_later: "now \<le> now' \<Longrightarrow> sum_list (map sn_cycles (window width now' es)) \<le> sum_list (map sn_cycles (window width now es))"
  by (induction es) (auto simp: window_def)

lemma sums_later:
  assumes "spends es" and "now \<le> now'"
  shows "dailyUsd now' es \<le> dailyUsd now es" "monthlyUsd now' es \<le> monthlyUsd now es" "cyclesInDay now' es \<le> cyclesInDay now es"
  using window_later [OF assms] cycles_later [OF assms(2)] by (simp_all add: sums_window)

lemma within_later:
  assumes "spends es" and "now \<le> now'"
  shows "within_caps cfg c e now es \<Longrightarrow> within_caps cfg c e now' es"
proof -
  have "of_nat (cyclesInDay now' es) \<le> (of_nat (cyclesInDay now es) :: real)" using sums_later(3) [OF assms] by simp
  then show "within_caps cfg c e now es \<Longrightarrow> within_caps cfg c e now' es"
    using sums_later(1,2) [OF assms] unfolding within_caps_def by fastforce
qed

lemma record_within:
  assumes "within_caps cfg c e now es" and "usd \<le> c" and "k \<le> 1"
  shows "within_caps cfg c (Suc e) now (ledger_record usd k now es)"
proof -
  have "real (Suc e) * c = real e * c + c" by (simp add: distrib_right)
  then show ?thesis using assms unfolding within_caps_def record_sums by auto
qed

lemma record_spends: "spends es \<Longrightarrow> 0 \<le> usd \<Longrightarrow> spends (ledger_record usd k now es)"
  by (auto simp: spends_def ledger_record_def Let_def list_all_iff)

text \<open>
  Runs with one configuration that stops on an exhausted budget, in which an action costs at most \<open>c\<close>
  and the clock does not go back. \<open>start()\<close> does not look at the ledger: \<open>e\<close> counts the starts that
  found a cap exhausted.
\<close>

fun metered_move :: "autonomy_config \<Rightarrow> real \<Rightarrow> autonomy_move \<Rightarrow> autonomy_sys \<Rightarrow> bool" where
  "metered_move cfg c (StartConfig k (Inr cfg')) y = (cfg' = cfg)"
| "metered_move cfg c (TickConfig k (Inr cfg')) y = (cfg' = cfg)"
| "metered_move cfg c (ActionDone k env) y =
     (\<forall>tick \<in> set (acting y). case perform_action env tick of Inl e \<Rightarrow> True | Inr (emitted, cost) \<Rightarrow> 0 \<le> cost \<and> cost \<le> c)"
| "metered_move cfg c m y = True"

definition exhausted_start :: "autonomy_move \<Rightarrow> int \<Rightarrow> autonomy_sys \<Rightarrow> bool" where
  "exhausted_start m now y =
     (case m of StartConfig k (Inr cfg) \<Rightarrow> evaluateCaps cfg now (ax_ledger y) \<noteq> None | _ \<Rightarrow> False)"

inductive metered_reach :: "autonomy_config \<Rightarrow> real \<Rightarrow> nat \<Rightarrow> int \<Rightarrow> autonomy_sys \<Rightarrow> bool" for cfg c where
  metered_boots: "metered_reach cfg c 0 now autonomy_boot"
| metered_steps: "metered_reach cfg c e now y \<Longrightarrow> now \<le> now' \<Longrightarrow> metered_move cfg c m y \<Longrightarrow>
    autonomy_move m now' y = Some y' \<Longrightarrow>
    metered_reach cfg c (if exhausted_start m now' y then Suc e else e) now' y'"

text \<open>While the loop runs or a tick is under way there is one action less on the bill.\<close>

definition metered_ok :: "autonomy_config \<Rightarrow> real \<Rightarrow> nat \<Rightarrow> int \<Rightarrow> autonomy_sys \<Rightarrow> bool" where
  "metered_ok cfg c e now y =
     (autonomy_ok y \<and> spends (ax_ledger y) \<and> within_caps cfg c (Suc e) now (ax_ledger y) \<and>
      (au_running (ax_state y) \<or> ax_flight y \<noteq> [] \<longrightarrow> within_caps cfg c e now (ax_ledger y)) \<and>
      list_all (\<lambda>p. case p of AwaitConfig \<Rightarrow> True | Acting cfg' tick \<Rightarrow> cfg' = cfg \<and> ak_costUsd tick = 0) (ax_flight y))"

lemma metered_later: "metered_ok cfg c e now y \<Longrightarrow> now \<le> now' \<Longrightarrow> metered_ok cfg c e now' y"
  unfolding metered_ok_def using within_later by blast

lemma metered_more: "metered_ok cfg c e now y \<Longrightarrow> 0 \<le> c \<Longrightarrow> metered_ok cfg c (Suc e) now y"
  unfolding metered_ok_def using within_more by blast

lemma finished_cost:
  assumes "case res of Inl e \<Rightarrow> True | Inr (emitted, cost) \<Rightarrow> 0 \<le> cost \<and> cost \<le> c" and "ak_costUsd tick = 0" and "0 \<le> c"
  shows "0 \<le> ak_costUsd (finished_tick res now tick) \<and> ak_costUsd (finished_tick res now tick) \<le> c"
  using assms by (auto simp: finished_tick_def split: sum.splits)

lemma settle_tick_effect:
  "ax_ledger (settle_tick cfg tick now y) = ledger_record (ak_costUsd tick) (if ak_action tick = ActThalamus then 1 else 0) now (ax_ledger y)"
  "ax_flight (settle_tick cfg tick now y) = ax_flight y"
  "ay_stopOnBudgetExhausted cfg \<Longrightarrow> au_running (ax_state (settle_tick cfg tick now y)) \<Longrightarrow>
     evaluateCaps cfg now (ax_ledger (settle_tick cfg tick now y)) = None"
proof -
  define ledger where "ledger = ledger_record (ak_costUsd tick) (if ak_action tick = ActThalamus then 1 else 0) now (ax_ledger y)"
  have "ax_ledger (settle_tick cfg tick now y) = ledger \<and> ax_flight (settle_tick cfg tick now y) = ax_flight y \<and>
    (ay_stopOnBudgetExhausted cfg \<longrightarrow> au_running (ax_state (settle_tick cfg tick now y)) \<longrightarrow> evaluateCaps cfg now ledger = None)"
    by (cases "evaluateCaps cfg now ledger")
      (simp_all add: settle_tick_def Let_def autonomy_stop_def ledger_def [symmetric] del: if_split)
  then show "ax_ledger (settle_tick cfg tick now y) =
      ledger_record (ak_costUsd tick) (if ak_action tick = ActThalamus then 1 else 0) now (ax_ledger y)"
    "ax_flight (settle_tick cfg tick now y) = ax_flight y"
    "ay_stopOnBudgetExhausted cfg \<Longrightarrow> au_running (ax_state (settle_tick cfg tick now y)) \<Longrightarrow>
       evaluateCaps cfg now (ax_ledger (settle_tick cfg tick now y)) = None"
    by (simp_all add: ledger_def)
qed

lemma metered_action:
  assumes ok: "metered_ok cfg c e now y" and c: "0 \<le> c" "ay_stopOnBudgetExhausted cfg"
    and k: "k < length (ax_flight y)" "ax_flight y ! k \<noteq> AwaitConfig" and metered: "metered_move cfg c (ActionDone k env) y"
  shows "metered_ok cfg c e now (action_done k env now y)"
proof -
  have a: "autonomy_ok y" using ok by (simp add: metered_ok_def)
  obtain cfg' tick where f: "k = 0" "ax_flight y = [Acting cfg' tick]"
    using only_flight [of y k] a k by (cases "ax_flight y ! k") (auto simp: autonomy_ok_def)
  have cfg': "cfg' = cfg" "ak_costUsd tick = 0" using ok f by (simp_all add: metered_ok_def)
  let ?t = "finished_tick (perform_action env tick) now tick"
  let ?z = "settle_tick cfg ?t now (y\<lparr>ax_flight := []\<rparr>)"
  have cost: "0 \<le> ak_costUsd ?t" "ak_costUsd ?t \<le> c"
    using finished_cost [where res = "perform_action env tick" and c = c and tick = tick and now = now] metered f cfg' c by (auto simp: acting_def)
  have z: "action_done k env now y = ?z" using f cfg' by (simp add: action_done_def remove_nth_def)
  have "autonomy_ok ?z" using action_done_ok [OF a k, of env now] unfolding z .
  moreover have "spends (ax_ledger ?z)" "within_caps cfg c (Suc e) now (ax_ledger ?z)"
    using ok f cost by (auto simp: settle_tick_effect metered_ok_def intro!: record_spends record_within)
  moreover have "within_caps cfg c e now (ax_ledger ?z)" if "au_running (ax_state ?z)"
    by (rule left_within [OF settle_tick_effect(3) [OF c(2) that] c(1)])
  moreover have "ax_flight ?z = []" by (simp add: settle_tick_effect)
  ultimately show ?thesis unfolding z metered_ok_def by simp
qed

text \<open>A start: with room it is covered by the caps, and with a cap exhausted by the action it adds to the bill.\<close>

lemma metered_start:
  assumes ok: "metered_ok cfg c e now y" and c: "0 \<le> c" and k: "autonomy_ok (start_config k (Inr cfg) now y)"
  shows "metered_ok cfg c (if evaluateCaps cfg now (ax_ledger y) = None then e else Suc e) now (start_config k (Inr cfg) now y)"
proof -
  define e' where "e' = (if evaluateCaps cfg now (ax_ledger y) = None then e else Suc e)"
  have "within_caps cfg c e' now (ax_ledger y)" unfolding e'_def using ok left_within [OF _ c] by (simp add: metered_ok_def)
  moreover have "within_caps cfg c (Suc e') now (ax_ledger y)" by (rule within_more [OF calculation c])
  ultimately show ?thesis using ok k unfolding e'_def [symmetric]
    by (simp add: metered_ok_def) (simp add: start_config_def tick_begin_def Let_def)
qed

lemma metered_step:
  assumes ok: "metered_ok cfg c e now y" and c: "0 \<le> c" "ay_stopOnBudgetExhausted cfg"
    and metered: "metered_move cfg c m y" and move: "autonomy_move m now y = Some y'"
  shows "metered_ok cfg c (if exhausted_start m now y then Suc e else e) now y'"
proof -
  have ok': "autonomy_ok y'" using ok move autonomy_move_ok by (auto simp: metered_ok_def)
  show ?thesis
  proof (cases m)
    case (StartCall ov)
    then show ?thesis using ok ok' move by (auto simp: exhausted_start_def autonomy_move_def start_call_def metered_ok_def)
  next
    case (StartConfig k res)
    then have y': "y' = start_config k res now y" using move by (simp add: autonomy_move_def split: if_splits)
    show ?thesis
    proof (cases res)
      case (Inl err)
      then show ?thesis using ok ok' y' StartConfig by (simp add: exhausted_start_def start_config_def metered_ok_def)
    next
      case (Inr cfg')
      then have "cfg' = cfg" using metered StartConfig by simp
      then show ?thesis using metered_start [OF ok c(1), of k] ok' y' StartConfig Inr
        by (cases "evaluateCaps cfg now (ax_ledger y) = None") (simp_all add: exhausted_start_def)
    qed
  next
    case StopCall
    then show ?thesis using ok ok' move by (auto simp: exhausted_start_def autonomy_move_def autonomy_stop_def metered_ok_def)
  next
    case ResetCall
    have "spends []" "evaluateCaps cfg now [] = None"
      by (auto simp: spends_def caps_left dailyUsd_def monthlyUsd_def cyclesInDay_def)
    then show ?thesis using ResetCall ok ok' move left_within c(1)
      by (auto simp: exhausted_start_def autonomy_move_def resetSpend_def metered_ok_def)
  next
    case (Interval t)
    then show ?thesis using ok ok' move
      by (auto simp: exhausted_start_def autonomy_move_def tick_begin_def metered_ok_def split: if_splits)
  next
    case (TickConfig k res)
    then have k: "k < length (ax_flight y)" "ax_flight y ! k = AwaitConfig" "y' = tick_config k res now y"
      using move by (auto simp: autonomy_move_def split: if_splits)
    have f: "k = 0" "ax_flight y = [AwaitConfig]" using only_flight [of y k] ok k by (auto simp: metered_ok_def autonomy_ok_def)
    show ?thesis
    proof (cases res)
      case (Inl err)
      then show ?thesis using ok ok' k f TickConfig by (auto simp: exhausted_start_def tick_config_def metered_ok_def remove_nth_def)
    next
      case (Inr cfg')
      then show ?thesis using ok ok' k f metered TickConfig by (auto simp: exhausted_start_def tick_config_Inr metered_ok_def)
    qed
  next
    case (ActionDone k env)
    then have "k < length (ax_flight y)" "ax_flight y ! k \<noteq> AwaitConfig" "y' = action_done k env now y"
      using move by (auto simp: autonomy_move_def split: if_splits)
    then show ?thesis using metered_action ok c metered ActionDone by (simp add: exhausted_start_def)
  qed
qed

lemma metered_reach_ok:
  assumes "metered_reach cfg c e now y" and "0 \<le> c" and "ay_stopOnBudgetExhausted cfg"
  shows "metered_ok cfg c e now y"
  using assms(1)
proof (induction rule: metered_reach.induct)
  case (metered_boots now)
  have "evaluateCaps cfg now [] = None" by (auto simp: caps_left dailyUsd_def monthlyUsd_def cyclesInDay_def)
  then show ?case using autonomy_reach_ok [OF autonomy_boots] left_within assms(2)
    by (auto simp: metered_ok_def autonomy_boot_def spends_def)
next
  case (metered_steps e now y now' m y')
  then show ?case using metered_step assms(2,3) metered_later by blast
qed

fun autonomy_moves :: "(autonomy_move \<times> int) list \<Rightarrow> autonomy_sys \<Rightarrow> autonomy_sys option" where
  "autonomy_moves [] y = Some y"
| "autonomy_moves ((m, now) # ms) y = Option.bind (autonomy_move m now y) (autonomy_moves ms)"

section \<open>Properties\<close>

text \<open>C35: What the autonomy loop can overspend. It stops on an exhausted budget after the action that exhausts
  it, so it may be one action over; but \<open>start()\<close> never looks at the ledger, so every start of an
  exhausted loop runs one more action before a cap is looked at. In every reachable state, with starts,
  stops and resets at any \<open>await\<close>, when an action records at most \<open>c\<close> dollars and \<open>e\<close> starts found a cap
  exhausted, the recorded spend of the last day and month is below the budget plus \<open>e + 1\<close> actions and
  the cycles of the day below the cap plus \<open>e + 1\<close>; while the loop runs it is one action less, which
  without such starts means that no cap is exhausted. A cap that is zero is no cap, and an action that
  throws is recorded with no cost.\<close>

theorem overspends_by_one_action_per_exhausted_start:
  assumes "metered_reach cfg c e now y" and "0 \<le> c" and "ay_stopOnBudgetExhausted cfg"
  shows "(0 < ay_dailyBudgetUsd cfg \<longrightarrow> dailyUsd now (ax_ledger y) < ay_dailyBudgetUsd cfg + (real e + 1) * c) \<and>
    (0 < ay_monthlyBudgetUsd cfg \<longrightarrow> monthlyUsd now (ax_ledger y) < ay_monthlyBudgetUsd cfg + (real e + 1) * c) \<and>
    (0 < ay_maxThalamusCyclesPerDay cfg \<longrightarrow>
       of_nat (cyclesInDay now (ax_ledger y)) < ay_maxThalamusCyclesPerDay cfg + (real e + 1)) \<and>
    (au_running (ax_state y) \<longrightarrow> within_caps cfg c e now (ax_ledger y)) \<and>
    (au_running (ax_state y) \<and> e = 0 \<longrightarrow> evaluateCaps cfg now (ax_ledger y) = None)"
proof -
  note ok = metered_reach_ok [OF assms, unfolded metered_ok_def]
  have "within_caps cfg c (Suc e) now (ax_ledger y)" and run: "au_running (ax_state y) \<longrightarrow> within_caps cfg c e now (ax_ledger y)"
    using ok by blast+
  then have "(0 < ay_dailyBudgetUsd cfg \<longrightarrow> dailyUsd now (ax_ledger y) < ay_dailyBudgetUsd cfg + (real e + 1) * c) \<and>
    (0 < ay_monthlyBudgetUsd cfg \<longrightarrow> monthlyUsd now (ax_ledger y) < ay_monthlyBudgetUsd cfg + (real e + 1) * c) \<and>
    (0 < ay_maxThalamusCyclesPerDay cfg \<longrightarrow>
       of_nat (cyclesInDay now (ax_ledger y)) < ay_maxThalamusCyclesPerDay cfg + (real e + 1))"
    unfolding within_caps_def of_nat_Suc add.commute [of 1] by blast
  moreover have "within_caps cfg c 0 now es \<Longrightarrow> evaluateCaps cfg now es = None" for es
    by (simp add: within_caps_def caps_left)
  ultimately show ?thesis using run by blast
qed

text \<open>C36: The loop never doubles: in every reachable state, however starts, stops and ticks overlap, at most one
  tick is under way, exactly while the busy flag is set; there is at most one interval, the one the
  state remembers, and one whenever the loop runs; every rotation step is a completed tick or the one
  under way, and the history holds the last forty ticks.\<close>

theorem autonomy_loop_never_doubles:
  assumes "autonomy_reach y"
  shows "length (ax_flight y) = (if au_busy (ax_state y) then 1 else 0) \<and>
    ax_live y = (case au_timer (ax_state y) of Some t \<Rightarrow> [t] | None \<Rightarrow> []) \<and>
    (au_running (ax_state y) \<longrightarrow> ax_live y \<noteq> []) \<and>
    au_rotationIdx (ax_state y) = au_tickCount (ax_state y) + length (acting y) \<and>
    length (au_history (ax_state y)) = min 40 (au_tickCount (ax_state y))"
proof -
  have "ticks_ok y" "timers_ok y" using autonomy_reach_ok [OF assms] by (simp_all add: autonomy_ok_def)
  then show ?thesis unfolding ticks_ok_def timers_ok_def Let_def by (auto split: option.splits)
qed

text \<open>Pruning the ledger is not observable: after any records in the order of their times, the sums of the
  day and the month are those over all records ever made, and the ledger holds exactly the records of
  the month before the last.\<close>

theorem ledger_prunes_unobservably:
  assumes "sorted (map (snd \<circ> snd) rs)" and "rs \<noteq> []" and "snd (snd (last rs)) \<le> now"
  shows "dailyUsd now (ledger_of rs) = (\<Sum>(usd, k, t) \<leftarrow> rs. if now - DAY_MS \<le> t then usd else 0) \<and>
    monthlyUsd now (ledger_of rs) = (\<Sum>(usd, k, t) \<leftarrow> rs. if now - MONTH_MS \<le> t then usd else 0) \<and>
    cyclesInDay now (ledger_of rs) = (\<Sum>(usd, k, t) \<leftarrow> rs. if now - DAY_MS \<le> t then k else 0) \<and>
    ledger_of rs = map entry_of (filter (\<lambda>(usd, k, t). snd (snd (last rs)) - MONTH_MS \<le> t) rs)"
proof -
  have times: "sn_at (entry_of r) = snd (snd r)" for r by (cases r) (simp add: entry_of_def)
  have sorted: "sorted (map sn_at (map entry_of rs))" using assms(1) by (simp add: times comp_def)
  have "snd (snd r) \<le> now" if "r \<in> set rs" for r
  proof -
    have "snd (snd r) \<le> last (map (snd \<circ> snd) rs)"
      using sorted_last_le [OF assms(1), of "snd (snd r)"] imageI [OF that, of "snd \<circ> snd"] by simp
    then show ?thesis using assms(2,3) by (simp add: last_map)
  qed
  then have past: "list_all (\<lambda>r. sn_at (entry_of r) \<le> now) rs" by (simp add: list_all_iff times)
  have usd: "sum_list (map sn_usd (window w now (map entry_of rs))) = (\<Sum>(usd, k, t) \<leftarrow> rs. if now - w \<le> t then usd else 0)" for w
    by (induction rs) (auto simp: window_def entry_of_def)
  have cyc: "sum_list (map sn_cycles (window w now (map entry_of rs))) = (\<Sum>(usd, k, t) \<leftarrow> rs. if now - w \<le> t then k else 0)" for w
    by (induction rs) (auto simp: window_def entry_of_def)
  have exact: "window MONTH_MS u (map entry_of rs) = map entry_of (filter (\<lambda>(usd, k, t). u - MONTH_MS \<le> t) rs)" for u
    by (induction rs) (auto simp: window_def entry_of_def)
  have "ledger_of rs = map entry_of (filter (\<lambda>(usd, k, t). snd (snd (last rs)) - MONTH_MS \<le> t) rs)"
    using ledger_of_exact [OF sorted assms(2)] unfolding exact times .
  moreover have "dailyUsd now (ledger_of rs) = (\<Sum>(usd, k, t) \<leftarrow> rs. if now - DAY_MS \<le> t then usd else 0)"
    "monthlyUsd now (ledger_of rs) = (\<Sum>(usd, k, t) \<leftarrow> rs. if now - MONTH_MS \<le> t then usd else 0)"
    "cyclesInDay now (ledger_of rs) = (\<Sum>(usd, k, t) \<leftarrow> rs. if now - DAY_MS \<le> t then k else 0)"
    unfolding sums_window ledger_of_window [OF widths past] ledger_of_window [OF order_refl past] usd cyc by (rule refl)+
  ultimately show ?thesis by blast
qed

text \<open>The interval given to \<open>start\<close> does not last: the first tick that gets the configuration compares the
  interval with the configured one and re-arms the timer with that, whatever override was accepted.\<close>

theorem start_interval_lasts_one_tick:
  "\<exists>y y'. autonomy_moves [(StartCall (Some (Fin x)), t0), (StartConfig 0 (Inr cfg), t1)] autonomy_boot = Some y \<and>
    au_intervalMs (ax_state y) = interval_ms x \<and> autonomy_move (TickConfig 0 (Inr cfg)) t2 y = Some y' \<and>
    au_intervalMs (ax_state y') = interval_ms (ay_intervalSec cfg) \<and>
    (ax_live y' = ax_live y \<longleftrightarrow> interval_ms x = interval_ms (ay_intervalSec cfg))"
proof -
  let ?y0 = "start_call (Some (Fin x)) autonomy_boot"
  let ?y = "start_config 0 (Inr cfg) t1 ?y0"
  have y: "autonomy_moves [(StartCall (Some (Fin x)), t0), (StartConfig 0 (Inr cfg), t1)] autonomy_boot = Some ?y"
    by (simp add: autonomy_move_def start_call_def autonomy_boot_def initial_autonomy_def)
  have f: "ax_flight ?y = [AwaitConfig]" "au_intervalMs (ax_state ?y) = interval_ms x" "ax_live ?y = [0]" "ax_nextTimer ?y = 1"
    "au_timer (ax_state ?y) = Some 0"
    by (simp_all add: start_config_def start_call_def autonomy_boot_def initial_autonomy_def tick_begin_def schedule_def
        clear_timer_def remove_nth_def start_interval_def Let_def)
  have "ax_live (tick_config 0 (Inr cfg) t2 ?y) = (if interval_ms x = interval_ms (ay_intervalSec cfg) then [0] else [1])"
    using f by (simp add: tick_config_Inr adopt_interval_def schedule_def clear_timer_def Let_def)
  then show ?thesis using y f
    by (intro exI [of _ ?y] exI [of _ "tick_config 0 (Inr cfg) t2 ?y"]) (auto simp: autonomy_move_def tick_config_Inr)
qed

text \<open>A stop during a tick that waits for its configuration does not stop it: the tick goes on to its
  action, and when the configured interval has changed it arms a new interval although the loop is
  stopped.\<close>

theorem stop_does_not_cancel_a_waiting_tick:
  "\<exists>y tick. autonomy_moves [(StartCall None, t0), (StartConfig 0 (Inr cfg), t1), (StopCall, t2), (TickConfig 0 (Inr cfg'), t3)]
      autonomy_boot = Some y \<and> \<not> au_running (ax_state y) \<and> ax_flight y = [Acting cfg' tick] \<and>
    ax_live y = (if interval_ms (ay_intervalSec cfg') = interval_ms (ay_intervalSec cfg) then [] else [1])"
proof -
  let ?y = "autonomy_stop StoppedByOperator (start_config 0 (Inr cfg) t1 (start_call None autonomy_boot))"
  have f: "ax_flight ?y = [AwaitConfig]" "au_intervalMs (ax_state ?y) = interval_ms (ay_intervalSec cfg)" "ax_live ?y = []"
    "ax_nextTimer ?y = 1" "au_timer (ax_state ?y) = None" "\<not> au_running (ax_state ?y)"
    by (simp_all add: autonomy_stop_def start_config_def start_call_def autonomy_boot_def initial_autonomy_def tick_begin_def
        schedule_def clear_timer_def remove_nth_def start_interval_def Let_def)
  have "autonomy_moves [(StartCall None, t0), (StartConfig 0 (Inr cfg), t1), (StopCall, t2)] autonomy_boot = Some ?y"
    by (simp add: autonomy_move_def start_call_def autonomy_boot_def initial_autonomy_def)
  then have "autonomy_moves [(StartCall None, t0), (StartConfig 0 (Inr cfg), t1), (StopCall, t2), (TickConfig 0 (Inr cfg'), t3)]
      autonomy_boot = Some (tick_config 0 (Inr cfg') t3 ?y)"
    using f(1) by (auto simp: autonomy_move_def bind_eq_Some_conv)
  moreover have "ax_live (tick_config 0 (Inr cfg') t3 ?y) =
      (if interval_ms (ay_intervalSec cfg') = interval_ms (ay_intervalSec cfg) then [] else [1])"
    using f by (simp add: tick_config_Inr adopt_interval_def schedule_def clear_timer_def Let_def)
  ultimately show ?thesis using f by (simp add: tick_config_Inr)
qed

section \<open>Demonstrations\<close>

definition demo_autonomy_config :: autonomy_config where
  "demo_autonomy_config =
     \<lparr>ay_intervalSec = 45, ay_rotation = [''thalamus'', ''sweep-nullscan''], ay_dailyBudgetUsd = 1 / 2, ay_monthlyBudgetUsd = 5,
      ay_maxThalamusCyclesPerDay = 0, ay_stopOnBudgetExhausted = True\<rparr>"

definition demo_runner :: runner_env where
  "demo_runner =
     \<lparr>cz_runCycle = (\<lambda>_. Inr \<lparr>cu_id = JBig 1, cu_findingsCount = Some 2, cu_totalCost = Some (3 / 5)\<rparr>),
      cz_listFindings = Inr [], cz_sweep = (\<lambda>_ _. Inr (Some 1)), cz_numString = (\<lambda>_. [])\<rparr>"

definition demo_ticked :: autonomy_sys where
  "demo_ticked =
     tick_config 0 (Inr demo_autonomy_config) 20 (start_config 0 (Inr demo_autonomy_config) 10 (start_call None autonomy_boot))"

definition demo_spent :: autonomy_sys where
  "demo_spent = action_done 0 demo_runner 30 demo_ticked"

lemma demo_flight:
  "ax_flight (start_config 0 (Inr demo_autonomy_config) 10 (start_call None autonomy_boot)) = [AwaitConfig]"
  "\<exists>tick. ax_flight demo_ticked = [Acting demo_autonomy_config tick] \<and> ak_action tick = ActThalamus"
  by (simp_all add: demo_ticked_def tick_config_Inr start_config_def start_call_def autonomy_boot_def initial_autonomy_def tick_begin_def
      remove_nth_def begin_action_def normalizeRotation_def demo_autonomy_config_def action_of_def List.map_filter_simps
      adopt_interval_def start_interval_def schedule_def clear_timer_def Let_def)

lemma demo_reach: "autonomy_reach demo_spent"
proof -
  have "autonomy_reach (start_call None autonomy_boot)"
    by (rule autonomy_steps [OF autonomy_boots, where m = "StartCall None" and now = 0]) (simp add: autonomy_move_def)
  then have "autonomy_reach (start_config 0 (Inr demo_autonomy_config) 10 (start_call None autonomy_boot))"
    by (rule autonomy_steps [where m = "StartConfig 0 (Inr demo_autonomy_config)" and now = 10])
      (simp add: autonomy_move_def start_call_def autonomy_boot_def initial_autonomy_def)
  then have "autonomy_reach demo_ticked"
    by (rule autonomy_steps [where m = "TickConfig 0 (Inr demo_autonomy_config)" and now = 20])
      (simp add: autonomy_move_def demo_flight demo_ticked_def)
  then show ?thesis
    by (rule autonomy_steps [where m = "ActionDone 0 demo_runner" and now = 30])
      (use demo_flight(2) in \<open>auto simp: autonomy_move_def demo_spent_def\<close>)
qed

theorem autonomy_loop_never_doubles_witness: "length (au_history (ax_state demo_spent)) = min 40 (au_tickCount (ax_state demo_spent))"
  using autonomy_loop_never_doubles [OF demo_reach] by blast

text \<open>A loop that only researches: it exhausts its budget of half a dollar, stops, and is started again.\<close>

fun metered_run :: "autonomy_config \<Rightarrow> real \<Rightarrow> (autonomy_move \<times> int) list \<Rightarrow> nat \<times> int \<times> autonomy_sys \<Rightarrow>
    (nat \<times> int \<times> autonomy_sys) option" where
  "metered_run cfg c [] x = Some x"
| "metered_run cfg c ((m, now') # ms) (e, now, y) =
     (if now \<le> now' \<and> metered_move cfg c m y
      then (case autonomy_move m now' y of
              None \<Rightarrow> None
            | Some y' \<Rightarrow> metered_run cfg c ms (if exhausted_start m now' y then Suc e else e, now', y'))
      else None)"

lemma metered_run_reach:
  "metered_run cfg c ms x = Some (e', now', y') \<Longrightarrow> metered_reach cfg c (fst x) (fst (snd x)) (snd (snd x)) \<Longrightarrow>
   metered_reach cfg c e' now' y'"
proof (induction cfg c ms x rule: metered_run.induct)
  case (2 cfg c m now1 ms e now y)
  then show ?case using metered_steps [of cfg c e now y now1 m] by (auto split: if_splits option.splits)
qed simp

definition eager_config :: autonomy_config where
  "eager_config = demo_autonomy_config\<lparr>ay_rotation := [''thalamus'']\<rparr>"

definition spend_twice :: "(autonomy_move \<times> int) list" where
  "spend_twice =
     [(StartCall None, 0), (StartConfig 0 (Inr eager_config), 10), (TickConfig 0 (Inr eager_config), 20), (ActionDone 0 demo_runner, 30),
      (StartCall None, 40), (StartConfig 0 (Inr eager_config), 50), (TickConfig 0 (Inr eager_config), 60), (ActionDone 0 demo_runner, 70)]"

lemma spent_twice:
  "map_option (\<lambda>(e, now, y). (e, now, dailyUsd now (ax_ledger y), au_running (ax_state y)))
     (metered_run eager_config (3 / 5) spend_twice (0, 0, autonomy_boot)) = Some (1, 70, 6 / 5, False)"
  by code_simp

theorem overspends_by_one_action_per_exhausted_start_witness:
  "\<exists>y. metered_reach eager_config (3 / 5) 1 70 y \<and> 1 / 2 + 3 / 5 \<le> dailyUsd 70 (ax_ledger y) \<and>
     dailyUsd 70 (ax_ledger y) < 1 / 2 + 2 * (3 / 5)"
proof -
  obtain y where run: "metered_run eager_config (3 / 5) spend_twice (0, 0, autonomy_boot) = Some (1, 70, y)"
    and spent: "dailyUsd 70 (ax_ledger y) = 6 / 5"
    using spent_twice by (auto split: prod.splits)
  have reach: "metered_reach eager_config (3 / 5) 1 70 y" by (rule metered_run_reach [OF run]) (simp add: metered_boots)
  have "ay_stopOnBudgetExhausted eager_config" "ay_dailyBudgetUsd eager_config = 1 / 2"
    by (simp_all add: eager_config_def demo_autonomy_config_def)
  then show ?thesis using overspends_by_one_action_per_exhausted_start [OF reach] reach spent by (intro exI [of _ y]) simp
qed

theorem ledger_prunes_unobservably_witness:
  "ledger_of [(1, 1, 0), (2, 0, 2 * MONTH_MS)] = [\<lparr>sn_at = 2 * MONTH_MS, sn_usd = 2, sn_cycles = 0\<rparr>]"
  using ledger_prunes_unobservably [of "[(1, 1, 0), (2, 0, 2 * MONTH_MS)]" "2 * MONTH_MS"]
  by (simp add: entry_of_def MONTH_MS_def DAY_MS_def)

end
