(* ===== verification/Aggregator.thy ===== *)
theory Aggregator
  imports SimTurns "HOL-Library.Multiset"
begin

text \<open>
  The swarm aggregator \<open>aggregator.service.ts\<close>: the cosine k-means over the embeddings of the fish's
  last summaries, the fallback to the pack's buckets, the modal cluster and the divergence, with the
  pack's strategy \<open>agent/ssa/sim/aggregation-strategy.ts\<close>. Vectors are lists of reals of one length, the
  dimension of the embedder; sums and square roots are exact.
\<close>

section \<open>Vectors\<close>

definition dot :: "real list \<Rightarrow> real list \<Rightarrow> real" where
  "dot a b = sum_list (map2 (*) a b)"

definition l2Normalize :: "real list \<Rightarrow> real list" where
  "l2Normalize v =
     (let norm = sqrt (sum_list (map (\<lambda>x. x * x) v)) in
      if norm < 1 / 10 ^ 9 then v else map (\<lambda>x. x / norm) v)"

text \<open>\<open>Math.abs(s) >>> 0\<close> of the sum of the scaled first coordinates.\<close>

definition deterministicSeed :: "real list list \<Rightarrow> nat" where
  "deterministicSeed vectors =
     nat (\<bar>sum_list (map (\<lambda>v. \<lfloor>(case v of [] \<Rightarrow> 0 | x # _ \<Rightarrow> x) * 10 ^ 6\<rfloor>) vectors)\<bar> mod 2 ^ 32)"

text \<open>The first index of the greatest value, found with a strict comparison from minus infinity.\<close>

primrec pick_max :: "nat \<Rightarrow> (nat \<times> real) option \<Rightarrow> real list \<Rightarrow> (nat \<times> real) option" where
  "pick_max i best [] = best"
| "pick_max i best (w # ws) =
     pick_max (Suc i) (case best of None \<Rightarrow> Some (i, w) | Some (j, x) \<Rightarrow> if x < w then Some (i, w) else Some (j, x)) ws"

definition first_max :: "real list \<Rightarrow> nat option" where
  "first_max ws = map_option fst (pick_max 0 None ws)"

section \<open>Cosine k-means\<close>

definition max_sim :: "real list list \<Rightarrow> real list \<Rightarrow> real" where
  "max_sim centroids v = foldl (\<lambda>m c. let sim = dot v c in if m < sim then sim else m) (- 1) centroids"

definition seed_weight :: "real list list \<Rightarrow> real list \<Rightarrow> real" where
  "seed_weight centroids v = (1 - max_sim centroids v) * (1 - max_sim centroids v)"

primrec add_centroids :: "nat \<Rightarrow> real list list \<Rightarrow> real list list \<Rightarrow> real list list" where
  "add_centroids 0 norms centroids = centroids"
| "add_centroids (Suc m) norms centroids =
     (case first_max (map (seed_weight centroids) norms) of
        None \<Rightarrow> centroids
      | Some i \<Rightarrow> add_centroids m norms (centroids @ [norms ! i]))"

definition initial_centroids :: "nat \<Rightarrow> real list list \<Rightarrow> real list list" where
  "initial_centroids k norms = add_centroids (k - 1) norms [norms ! (deterministicSeed norms mod length norms)]"

definition nearest :: "real list list \<Rightarrow> real list \<Rightarrow> nat" where
  "nearest centroids v = (case first_max (map (dot v) centroids) of Some c \<Rightarrow> c | None \<Rightarrow> 0)"

definition members_of :: "'a list \<Rightarrow> nat list \<Rightarrow> nat \<Rightarrow> 'a list" where
  "members_of xs assignments c = map fst (filter (\<lambda>p. snd p = c) (zip xs assignments))"

definition mean_vector :: "nat \<Rightarrow> real list list \<Rightarrow> real list" where
  "mean_vector width vs = map (\<lambda>d. sum_list (map (\<lambda>v. v ! d) vs) / of_nat (length vs)) [0..<width]"

definition new_centroid :: "nat \<Rightarrow> real list list \<Rightarrow> nat list \<Rightarrow> nat \<Rightarrow> real list \<Rightarrow> real list" where
  "new_centroid width norms assignments c old =
     (let ms = members_of norms assignments c in if ms = [] then old else l2Normalize (mean_vector width ms))"

definition update_centroids :: "nat \<Rightarrow> real list list \<Rightarrow> nat list \<Rightarrow> real list list \<Rightarrow> real list list" where
  "update_centroids width norms assignments centroids =
     map (\<lambda>(c, old). new_centroid width norms assignments c old) (zip [0..<length centroids] centroids)"

definition centroid_delta :: "nat \<Rightarrow> real list list \<Rightarrow> real list list \<Rightarrow> real" where
  "centroid_delta width old new =
     sum_list (map (\<lambda>(u, v). sum_list (map (\<lambda>d. (u ! d - v ! d) * (u ! d - v ! d)) [0..<width])) (zip old new))"

primrec kmeans_loop ::
  "nat \<Rightarrow> nat \<Rightarrow> real list list \<Rightarrow> real list list \<Rightarrow> nat list \<Rightarrow> real list list \<times> nat list" where
  "kmeans_loop 0 width norms centroids assignments = (centroids, assignments)"
| "kmeans_loop (Suc m) width norms centroids assignments =
     (let assignments' = map (nearest centroids) norms;
          centroids' = update_centroids width norms assignments' centroids in
      if assignments' = assignments \<or> centroid_delta width centroids centroids' < 1 / 10 ^ 6
      then (centroids', assignments')
      else kmeans_loop m width norms centroids' assignments')"

definition cosineKMeans :: "real list list \<Rightarrow> nat \<Rightarrow> nat \<Rightarrow> real list list \<times> nat list" where
  "cosineKMeans vectors k maxIters =
     (if vectors = [] then ([], [])
      else (let norms = map l2Normalize vectors in
        kmeans_loop maxIters (length (hd vectors)) norms (initial_centroids (min k (length vectors)) norms)
          (replicate (length vectors) 0)))"

section \<open>The pack's strategy\<close>

record agg_cluster_input =
  cb_action :: turn_action
  cb_fish :: int

record pack_cluster =
  pk_label :: string
  pk_fraction :: real
  pk_members :: "int list"

text \<open>The port: a label for an action, and the buckets when there are no vectors.\<close>

record agg_strategy =
  pa_label :: "turn_action \<Rightarrow> string throws"
  pa_fallback :: "agg_cluster_input list \<Rightarrow> pack_cluster list"

definition field_text :: "(real \<Rightarrow> string) \<Rightarrow> turn_action \<Rightarrow> string \<Rightarrow> string" where
  "field_text numString a key = js_string numString (case field_of a key of Some v \<Rightarrow> v | None \<Rightarrow> JUndef)"

text \<open>\<open>x.toFixed(0)\<close>: the nearest integer, the larger of two in absolute value, with its sign.\<close>

definition to_fixed0 :: "(real \<Rightarrow> string) \<Rightarrow> real \<Rightarrow> string" where
  "to_fixed0 numString x =
     (if 10 ^ 21 \<le> \<bar>x\<bar> then numString x
      else (if x < 0 then ''-'' else []) @ show_int \<lfloor>\<bar>x\<bar> + 1 / 2\<rfloor>)"

definition delta_v :: string where
  "delta_v = [CHR 0xCE, CHR 0x94] @ ''v''"

definition labelAction :: "(real \<Rightarrow> string) \<Rightarrow> turn_action \<Rightarrow> string throws" where
  "labelAction numString a =
     (let text = field_text numString a; kind = kind_text a in
      if kind = ''maneuver'' then Inr (''maneuver sat#'' @ text ''satelliteId'')
      else if kind = ''propose_split''
      then (case field_of a ''ownShareDeltaV'' of
              Some (JNum x) \<Rightarrow> Inr (''propose (own '' @ delta_v @ ''='' @ to_fixed0 numString x @ '')'')
            | _ \<Rightarrow> Inl \<lparr>ename = ''TypeError'', emsg = ''toFixed is not a function''\<rparr>)
      else if kind \<in> {''accept'', ''reject'', ''hold'', ''infer_telemetry'', ''estimate_pc''} then Inr kind
      else if kind = ''launch'' then Inr (''launch +'' @ text ''satelliteCount'')
      else if kind = ''retire'' then Inr (''retire sat#'' @ text ''satelliteId'')
      else if kind = ''lobby'' then Inr (''lobby '' @ text ''policyTopic'' @ '' ('' @ text ''stance'' @ '')'')
      else Inr ''unknown'')"

text \<open>A \<open>Map\<close> of buckets in the order of their first element.\<close>

definition push_bucket :: "'k \<Rightarrow> 'a \<Rightarrow> ('k, 'a list) jsmap \<Rightarrow> ('k, 'a list) jsmap" where
  "push_bucket key x m = AList.update key ((case map_of m key of Some xs \<Rightarrow> xs | None \<Rightarrow> []) @ [x]) m"

definition bucket_by :: "('a \<Rightarrow> 'k) \<Rightarrow> 'a list \<Rightarrow> ('k, 'a list) jsmap" where
  "bucket_by key xs = foldl (\<lambda>m x. push_bucket (key x) x m) [] xs"

definition bucket_kind :: "turn_action \<Rightarrow> string" where
  "bucket_kind a = (case field_of a ''kind'' of Some (JStr k) \<Rightarrow> k | _ \<Rightarrow> ''unknown'')"

definition clusterFallback :: "agg_cluster_input list \<Rightarrow> pack_cluster list" where
  "clusterFallback inputs =
     map (\<lambda>(kind, ms). \<lparr>pk_label = kind, pk_fraction = of_nat (length ms) / of_nat (length inputs),
                        pk_members = sort (map cb_fish ms)\<rparr>)
       (bucket_by (\<lambda>f. bucket_kind (cb_action f)) inputs)"

definition ssa_strategy :: "(real \<Rightarrow> string) \<Rightarrow> agg_strategy" where
  "ssa_strategy numString = \<lparr>pa_label = labelAction numString, pa_fallback = clusterFallback\<rparr>"

section \<open>The aggregator\<close>

record fish_terminal =
  fu_run :: int
  fu_fish :: int
  fu_agent :: "int option"
  fu_action :: turn_action
  fu_summary :: string
  fu_embedding :: "real list option"
  fu_done :: bool
  fu_turns :: nat

record swarm_cluster =
  gg_label :: string
  gg_fraction :: real
  gg_members :: "int list"
  gg_run :: int
  gg_action :: turn_action
  gg_summary :: string
  gg_centroid :: "real list option"

record swarm_modal =
  gk_kind :: string
  gk_fraction :: real
  gk_run :: int
  gk_action :: turn_action

record swarm_aggregate =
  ga_swarm :: int
  ga_total :: int
  ga_quorumMet :: bool
  ga_succeeded :: nat
  ga_failed :: nat
  ga_clusters :: "swarm_cluster list"
  ga_modal :: "swarm_modal option"
  ga_divergence :: real

text \<open>
  The embedder, when there is one: a vector, or none when the call fails or has none. The pack's
  strategy, and the error of the configuration read before embedding, if any.
\<close>

record aggregator_env =
  tl_embed :: "(int \<Rightarrow> string \<Rightarrow> real list option) option"
  tl_config :: "exn option"
  tl_strategy :: agg_strategy

definition usable_terminals :: "terminal_row list \<Rightarrow> (terminal_row \<times> turn_action \<times> string) list" where
  "usable_terminals rs =
     List.map_filter (\<lambda>r. case (tr_action r, tr_summary r) of
                            (Some a, Some s) \<Rightarrow> if s = [] then None else Some (r, a, s)
                          | _ \<Rightarrow> None) rs"

definition fish_of :: "(int \<Rightarrow> string \<Rightarrow> real list option) option \<Rightarrow> terminal_row \<times> turn_action \<times> string \<Rightarrow> fish_terminal" where
  "fish_of embedder t =
     (case t of
        (r, a, s) \<Rightarrow>
          \<lparr>fu_run = tr_run r, fu_fish = tr_fish r, fu_agent = tr_agent_index r, fu_action = a, fu_summary = s,
           fu_embedding = (case embedder of None \<Rightarrow> None | Some f \<Rightarrow> f (tr_run r) s), fu_done = (tr_status r = RunDone),
           fu_turns = tr_turns_played r\<rparr>)"

definition loadTerminals :: "aggregator_env \<Rightarrow> terminal_row list \<Rightarrow> fish_terminal list throws" where
  "loadTerminals env rs =
     (let ts = usable_terminals rs in
      case tl_config env of
        Some e \<Rightarrow> if tl_embed env \<noteq> None \<and> ts \<noteq> [] then Inl e else Inr (map (fish_of (tl_embed env)) ts)
      | None \<Rightarrow> Inr (map (fish_of (tl_embed env)) ts))"

definition has_vector :: "fish_terminal \<Rightarrow> bool" where
  "has_vector f = (case fu_embedding f of Some v \<Rightarrow> v \<noteq> [] | None \<Rightarrow> False)"

definition vector_of :: "fish_terminal \<Rightarrow> real list" where
  "vector_of f = (case fu_embedding f of Some v \<Rightarrow> v | None \<Rightarrow> [])"

definition adaptive_k :: "nat \<Rightarrow> nat" where
  "adaptive_k n = max 2 (min 7 ((n + 9) div 10))"

text \<open>A fish without a vector joins the first bucket whose exemplar is of its kind, else the first.\<close>

fun host_of :: "nat \<Rightarrow> fish_terminal list list \<Rightarrow> fish_terminal \<Rightarrow> nat" where
  "host_of i [] f = 0"
| "host_of i (b # bs) f =
     (if b \<noteq> [] \<and> field_of (fu_action (hd b)) ''kind'' = field_of (fu_action f) ''kind'' then i else host_of (Suc i) bs f)"

definition join_bucket :: "fish_terminal list list \<Rightarrow> fish_terminal \<Rightarrow> fish_terminal list list" where
  "join_bucket bs f = (let h = host_of 0 bs f in bs[h := bs ! h @ [f]])"

definition fish_buckets :: "fish_terminal list \<Rightarrow> nat list \<Rightarrow> nat \<Rightarrow> fish_terminal list list" where
  "fish_buckets fish assignments k =
     foldl join_bucket (map (members_of (filter has_vector fish) assignments) [0..<k]) (filter (\<lambda>f. \<not> has_vector f) fish)"

fun throws_map :: "('a \<Rightarrow> 'b throws) \<Rightarrow> 'a list \<Rightarrow> 'b list throws" where
  "throws_map f [] = Inr []"
| "throws_map f (x # xs) =
     (case f x of Inl e \<Rightarrow> Inl e | Inr y \<Rightarrow> (case throws_map f xs of Inl e \<Rightarrow> Inl e | Inr ys \<Rightarrow> Inr (y # ys)))"

definition hydrate :: "aggregator_env \<Rightarrow> nat \<Rightarrow> nat \<times> fish_terminal list \<times> real list option \<Rightarrow> swarm_cluster throws" where
  "hydrate env whole b =
     (case b of
        (i, ms, centroid) \<Rightarrow>
          (case pa_label (tl_strategy env) (fu_action (hd ms)) of
             Inl e \<Rightarrow> Inl e
           | Inr label \<Rightarrow>
               Inr \<lparr>gg_label = label, gg_fraction = of_nat (length ms) / of_nat whole, gg_members = sort (map fu_fish ms),
                    gg_run = fu_run (hd ms), gg_action = fu_action (hd ms), gg_summary = fu_summary (hd ms),
                    gg_centroid = centroid\<rparr>))"

definition centroid_at :: "real list list \<Rightarrow> nat \<Rightarrow> real list option" where
  "centroid_at cs i = (if i < length cs then Some (cs ! i) else None)"

definition clusterByActionKind :: "aggregator_env \<Rightarrow> fish_terminal list \<Rightarrow> swarm_cluster list throws" where
  "clusterByActionKind env fish =
     throws_map (\<lambda>pc. case pk_members pc of
           [] \<Rightarrow> Inl \<lparr>ename = ''TypeError'', emsg = ''exemplar is undefined''\<rparr>
         | i # _ \<Rightarrow>
             (case map_of (rev (map (\<lambda>f. (fu_fish f, f)) fish)) i of
                None \<Rightarrow> Inl \<lparr>ename = ''TypeError'', emsg = ''exemplar is undefined''\<rparr>
              | Some exemplar \<Rightarrow>
                  Inr \<lparr>gg_label = pk_label pc, gg_fraction = pk_fraction pc, gg_members = pk_members pc, gg_run = fu_run exemplar,
                       gg_action = fu_action exemplar, gg_summary = fu_summary exemplar, gg_centroid = None\<rparr>))
       (pa_fallback (tl_strategy env) (map (\<lambda>f. \<lparr>cb_action = fu_action f, cb_fish = fu_fish f\<rparr>) fish))"

definition cluster_fish :: "aggregator_env \<Rightarrow> fish_terminal list \<Rightarrow> swarm_cluster list throws" where
  "cluster_fish env fish =
     (let withVec = filter has_vector fish in
      if fish = [] then Inr []
      else if length withVec < 2 then clusterByActionKind env fish
      else
        (let k = adaptive_k (length withVec);
             (centroids, assignments) = cosineKMeans (map vector_of withVec) k 10 in
         throws_map (hydrate env (length fish))
           (filter (\<lambda>(i, ms, c). ms \<noteq> [])
             (map (\<lambda>i. (i, fish_buckets fish assignments k ! i, centroid_at centroids i)) [0..<k]))))"

definition sort_clusters :: "swarm_cluster list \<Rightarrow> swarm_cluster list" where
  "sort_clusters cs = sort_key (\<lambda>c. - gg_fraction c) (sort_key gg_run cs)"

definition quorum_required :: "int \<Rightarrow> real option \<Rightarrow> int" where
  "quorum_required members pct = \<lceil>of_int members * (case pct of Some p \<Rightarrow> p | None \<Rightarrow> 8 / 10)\<rceil>"

definition modal_of :: "swarm_cluster list \<Rightarrow> swarm_modal option" where
  "modal_of cs =
     (case cs of
        [] \<Rightarrow> None
      | c # _ \<Rightarrow> Some \<lparr>gk_kind = kind_text (gg_action c), gk_fraction = gg_fraction c, gk_run = gg_run c, gk_action = gg_action c\<rparr>)"

definition aggregate :: "aggregator_env \<Rightarrow> int \<Rightarrow> sim_db \<Rightarrow> swarm_aggregate throws" where
  "aggregate env swarm db =
     (case loadTerminals env (listTerminalsForSwarm swarm db) of
        Inl e \<Rightarrow> Inl e
      | Inr fish \<Rightarrow>
          (case swarm_findById swarm db of
             None \<Rightarrow> Inl (mk_error (''sim_swarm '' @ show_int swarm @ '' not found''))
           | Some s \<Rightarrow>
               (let succeeded = filter fu_done fish;
                    failed = length (filter (\<lambda>f. \<not> fu_done f) fish) in
                if int (length succeeded) < quorum_required (sw_size s) (wc_quorumPct (sw_config s))
                then Inr \<lparr>ga_swarm = swarm, ga_total = sw_size s, ga_quorumMet = False, ga_succeeded = length succeeded,
                          ga_failed = failed, ga_clusters = [], ga_modal = None, ga_divergence = 1\<rparr>
                else
                  (case cluster_fish env succeeded of
                     Inl e \<Rightarrow> Inl e
                   | Inr cs \<Rightarrow>
                       (let sorted_cs = sort_clusters cs in
                        Inr \<lparr>ga_swarm = swarm, ga_total = sw_size s, ga_quorumMet = True, ga_succeeded = length succeeded,
                             ga_failed = failed, ga_clusters = sorted_cs, ga_modal = modal_of sorted_cs,
                             ga_divergence = (case sorted_cs of [] \<Rightarrow> 1 | c # _ \<Rightarrow> 1 - gg_fraction c)\<rparr>)))))"

section \<open>Picking the greatest\<close>

definition best_ok :: "real list \<Rightarrow> (nat \<times> real) option \<Rightarrow> bool" where
  "best_ok seen best =
     (case best of
        None \<Rightarrow> seen = []
      | Some (j, x) \<Rightarrow> j < length seen \<and> x = seen ! j \<and> (\<forall>l < length seen. seen ! l \<le> x) \<and> (\<forall>l < j. seen ! l < x))"

lemma best_ok_step:
  "best_ok seen best \<Longrightarrow>
   best_ok (seen @ [w]) (case best of None \<Rightarrow> Some (length seen, w) | Some (j, x) \<Rightarrow> if x < w then Some (length seen, w) else Some (j, x))"
  by (cases best) (fastforce simp: best_ok_def nth_append less_Suc_eq)+

lemma pick_max_ok: "best_ok seen best \<Longrightarrow> best_ok (seen @ ws) (pick_max (length seen) best ws)"
proof (induction ws arbitrary: seen best)
  case (Cons w ws)
  from Cons.IH [OF best_ok_step [OF Cons.prems]] show ?case by simp
qed simp

lemma first_max_Some:
  assumes "first_max ws = Some c"
  shows "c < length ws \<and> (\<forall>l < length ws. ws ! l \<le> ws ! c) \<and> (\<forall>l < c. ws ! l < ws ! c)"
  using assms pick_max_ok [of "[]" None ws] by (auto simp: first_max_def best_ok_def split: option.splits)

lemma first_max_exists: "ws \<noteq> [] \<Longrightarrow> \<exists>c. first_max ws = Some c"
  using pick_max_ok [of "[]" None ws] by (cases "pick_max 0 None ws") (auto simp: first_max_def best_ok_def)

lemma nearest_props:
  assumes "centroids \<noteq> []"
  shows "nearest centroids v < length centroids \<and>
    (\<forall>c < length centroids. dot v (centroids ! c) \<le> dot v (centroids ! nearest centroids v))"
proof -
  obtain c where c: "first_max (map (dot v) centroids) = Some c" using first_max_exists [of "map (dot v) centroids"] assms by auto
  then show ?thesis using first_max_Some [OF c] by (auto simp: nearest_def)
qed

section \<open>The shape of a clustering\<close>

lemma add_centroids_length: "norms \<noteq> [] \<Longrightarrow> length (add_centroids m norms cs) = length cs + m"
proof (induction m arbitrary: cs)
  case (Suc m)
  obtain i where "first_max (map (seed_weight cs) norms) = Some i"
    using first_max_exists [of "map (seed_weight cs) norms"] Suc.prems by auto
  then show ?case using Suc by simp
qed simp

lemma initial_centroids_length: "norms \<noteq> [] \<Longrightarrow> 0 < k \<Longrightarrow> length (initial_centroids k norms) = k"
  by (simp add: initial_centroids_def add_centroids_length)

lemma add_centroids_from: "set (add_centroids m norms cs) \<subseteq> set cs \<union> set norms"
proof (induction m arbitrary: cs)
  case (Suc m)
  show ?case
  proof (cases "first_max (map (seed_weight cs) norms)")
    case (Some i)
    then have "norms ! i \<in> set norms" using first_max_Some [OF Some] by simp
    then show ?thesis using Some Suc [of "cs @ [norms ! i]"] by auto
  qed auto
qed simp

lemma initial_centroids_from: "norms \<noteq> [] \<Longrightarrow> set (initial_centroids k norms) \<subseteq> set norms"
  using add_centroids_from [of "k - 1" norms "[norms ! (deterministicSeed norms mod length norms)]"]
  by (auto simp: initial_centroids_def)

lemma update_centroids_length [simp]: "length (update_centroids width norms asg cs) = length cs"
  by (simp add: update_centroids_def)

lemma kmeans_loop_shape:
  assumes "centroids \<noteq> []" and "length asg = length norms" and "list_all (\<lambda>c. c < length centroids) asg"
  shows "length (fst (kmeans_loop m width norms centroids asg)) = length centroids \<and>
    length (snd (kmeans_loop m width norms centroids asg)) = length norms \<and>
    list_all (\<lambda>c. c < length centroids) (snd (kmeans_loop m width norms centroids asg))"
  using assms
proof (induction m arbitrary: centroids asg)
  case (Suc m)
  let ?asg = "map (nearest centroids) norms"
  let ?cs = "update_centroids width norms ?asg centroids"
  have asg: "list_all (\<lambda>c. c < length centroids) ?asg" using nearest_props [OF Suc.prems(1)] by (simp add: list_all_iff)
  have "?cs \<noteq> []" using Suc.prems(1) by (metis length_0_conv update_centroids_length)
  from Suc.IH [OF this, of ?asg] show ?case using asg by (simp add: Let_def)
qed simp

lemma cosineKMeans_shape:
  assumes "cosineKMeans vectors k iters = (centroids, asg)" and "vectors \<noteq> []" and "0 < k"
  shows "length centroids = min k (length vectors) \<and> length asg = length vectors \<and>
    list_all (\<lambda>c. c < min k (length vectors)) asg"
proof -
  let ?norms = "map l2Normalize vectors"
  let ?cs = "initial_centroids (min k (length vectors)) ?norms"
  have len: "length ?cs = min k (length vectors)" using assms(2,3) by (intro initial_centroids_length) simp_all
  moreover have "?cs \<noteq> []" using len assms(2,3) by (metis length_0_conv length_greater_0_conv min_less_iff_conj not_less_zero)
  ultimately show ?thesis using assms kmeans_loop_shape [of ?cs "replicate (length vectors) 0" ?norms iters "length (hd vectors)"]
    by (auto simp: cosineKMeans_def Let_def list_all_iff)
qed

section \<open>Buckets partition\<close>

lemma members_of_Cons: "members_of (x # xs) (a # asg) c = (if a = c then [x] else []) @ members_of xs asg c"
  by (simp add: members_of_def)

lemma mset_pick: "a < k \<Longrightarrow> mset (concat (map (\<lambda>c. (if a = c then [x] else []) @ f c) [0..<k])) = add_mset x (mset (concat (map f [0..<k])))"
proof (induction k)
  case (Suc k)
  have none: "mset (concat (map (\<lambda>c. (if k = c then [x] else []) @ f c) [0..<k])) = mset (concat (map f [0..<k]))"
    by (intro arg_cong [where f = "\<lambda>xs. mset (concat xs)"] map_cong refl) simp
  show ?case using Suc none by (cases "a = k") auto
qed simp

lemma members_partition:
  "length asg = length xs \<Longrightarrow> list_all (\<lambda>c. c < k) asg \<Longrightarrow> mset (concat (map (members_of xs asg) [0..<k])) = mset xs"
proof (induction xs arbitrary: asg)
  case Nil
  then show ?case by (simp add: members_of_def)
next
  case (Cons x xs)
  then obtain a asg' where "asg = a # asg'" by (cases asg) auto
  then show ?case using Cons mset_pick [of a k x "members_of xs asg'"] by (simp add: members_of_Cons)
qed

lemma host_of_less: "host_of i bs f < i + length bs \<or> host_of i bs f = 0"
proof (induction bs arbitrary: i)
  case (Cons b bs)
  then show ?case using Cons [of "Suc i"] by auto
qed simp

lemma mset_join: "h < length bs \<Longrightarrow> mset (concat (bs[h := bs ! h @ [f]])) = add_mset f (mset (concat bs))"
proof (induction bs arbitrary: h)
  case (Cons b bs)
  then show ?case by (cases h) auto
qed simp

lemma join_all_partition:
  "bs \<noteq> [] \<Longrightarrow> mset (concat (foldl join_bucket bs fs)) = mset (concat bs) + mset fs \<and> length (foldl join_bucket bs fs) = length bs"
proof (induction fs arbitrary: bs)
  case (Cons f fs)
  have "host_of 0 bs f < length bs" using host_of_less [of 0 bs f] Cons.prems by (auto simp: neq_Nil_conv)
  from mset_join [OF this, of f] Cons.IH [of "join_bucket bs f"] Cons.prems show ?case
    by (simp add: join_bucket_def Let_def)
qed simp

lemma fish_buckets_partition:
  assumes "length asg = length (filter has_vector fish)" and "list_all (\<lambda>c. c < k) asg" and "0 < k"
  shows "mset (concat (fish_buckets fish asg k)) = mset fish \<and> length (fish_buckets fish asg k) = k"
proof -
  have ne: "map (members_of (filter has_vector fish) asg) [0..<k] \<noteq> []" using assms(3) by simp
  show ?thesis using join_all_partition [OF ne, of "filter (\<lambda>f. \<not> has_vector f) fish"] members_partition [OF assms(1,2)]
    by (simp add: fish_buckets_def multiset_partition [symmetric])
qed

lemma push_bucket_mset:
  "distinct (map fst m) \<Longrightarrow> mset (concat (map snd (push_bucket key x m))) = add_mset x (mset (concat (map snd m)))"
  unfolding push_bucket_def by (induction m) (auto simp: map_of_eq_None_iff split: option.splits)

lemma update_entry: "(k', ys) \<in> set (AList.update k v m) \<Longrightarrow> (k', ys) \<in> set m \<or> ys = v"
  by (induction m) (auto split: if_splits)

lemma bucket_by_partition:
  "mset (concat (map snd (bucket_by key xs))) = mset xs \<and> distinct (map fst (bucket_by key xs)) \<and>
   (\<forall>(k, ys) \<in> set (bucket_by key xs). ys \<noteq> [])"
proof (induction xs rule: rev_induct)
  case (snoc x xs)
  let ?m = "bucket_by key xs"
  have step: "bucket_by key (xs @ [x]) = push_bucket (key x) x ?m" by (simp add: bucket_by_def)
  have "ys \<noteq> []" if "(k, ys) \<in> set (push_bucket (key x) x ?m)" for k ys
    using update_entry [OF that [unfolded push_bucket_def]] snoc by auto
  then show ?case unfolding step using snoc push_bucket_mset [of ?m "key x" x] by (auto simp: push_bucket_def distinct_update)
qed (simp add: bucket_by_def)

section \<open>The aggregate\<close>

lemma throws_map_Inr: "throws_map f xs = Inr ys \<Longrightarrow> list_all2 (\<lambda>x y. f x = Inr y) xs ys"
  by (induction xs arbitrary: ys) (auto split: sum.splits)

text \<open>What a cluster list says about the fish it was made of.\<close>

definition partitions :: "int list \<Rightarrow> swarm_cluster list \<Rightarrow> bool" where
  "partitions fish cs =
     (mset (concat (map gg_members cs)) = mset fish \<and>
      list_all (\<lambda>c. gg_members c \<noteq> [] \<and> gg_fraction c = of_nat (length (gg_members c)) / of_nat (length fish)) cs)"

lemma partitions_fractions: "partitions fish cs \<Longrightarrow> fish \<noteq> [] \<Longrightarrow> sum_list (map gg_fraction cs) = 1"
proof -
  assume p: "partitions fish cs" and ne: "fish \<noteq> []"
  have "sum_list (map gg_fraction cs) = sum_list (map (\<lambda>c. of_nat (length (gg_members c)) / of_nat (length fish)) cs)"
    using p by (intro arg_cong [where f = sum_list] map_cong refl) (auto simp: partitions_def list_all_iff)
  also have "\<dots> = of_nat (length (concat (map gg_members cs))) / of_nat (length fish)"
    by (induction cs) (simp_all add: add_divide_distrib)
  also have "length (concat (map gg_members cs)) = length fish"
    using p mset_eq_length unfolding partitions_def by blast
  finally show ?thesis using ne by simp
qed

lemma clusters_members:
  "list_all2 (\<lambda>ms c. mset (gg_members c) = mset (map g ms) \<and> ms \<noteq> [] \<and> gg_fraction c = of_nat (length ms) / n) mss cs \<Longrightarrow>
   mset (concat (map gg_members cs)) = mset (map g (concat mss)) \<and>
   list_all (\<lambda>c. gg_members c \<noteq> [] \<and> gg_fraction c = of_nat (length (gg_members c)) / n) cs"
proof (induction rule: list_all2_induct)
  case (Cons ms mss c cs)
  have "length (gg_members c) = length ms" using mset_eq_length [of "gg_members c" "map g ms"] Cons by simp
  then show ?case using Cons by auto
qed simp

lemma partitions_intro:
  assumes "list_all2 (\<lambda>ms c. mset (gg_members c) = mset (map g ms) \<and> ms \<noteq> [] \<and> gg_fraction c = of_nat (length ms) / of_nat (length xs)) mss cs"
    and "mset (concat mss) = mset xs"
  shows "partitions (map g xs) cs"
  using clusters_members [OF assms(1)] assms(2) by (simp add: partitions_def mset_map del: mset_concat)

lemma kmeans_clusters_partition:
  assumes "throws_map (hydrate env (length fish)) bs = Inr cs"
    and "mset (concat (map (\<lambda>b. fst (snd b)) bs)) = mset fish" and "list_all (\<lambda>b. fst (snd b) \<noteq> []) bs"
  shows "partitions (map fu_fish fish) cs"
proof (rule partitions_intro [OF _ assms(2)])
  have one: "gg_members c = sort (map fu_fish (fst (snd b))) \<and> gg_fraction c = of_nat (length (fst (snd b))) / of_nat (length fish)"
    if "hydrate env (length fish) b = Inr c" for b c
    using that by (cases b) (auto simp: hydrate_def split: sum.splits)
  show "list_all2 (\<lambda>ms c. mset (gg_members c) = mset (map fu_fish ms) \<and> ms \<noteq> [] \<and>
    gg_fraction c = of_nat (length ms) / of_nat (length fish)) (map (\<lambda>b. fst (snd b)) bs) cs"
    unfolding list_all2_map1
    by (rule list.rel_mono_strong [OF throws_map_Inr [OF assms(1)]]) (use one assms(3) in \<open>auto simp: list_all_iff\<close>)
qed

lemma fallback_clusters_partition:
  assumes "clusterByActionKind env fish = Inr cs" and "pa_fallback (tl_strategy env) = clusterFallback"
  shows "partitions (map fu_fish fish) cs"
proof -
  let ?in = "map (\<lambda>f. \<lparr>cb_action = fu_action f, cb_fish = fu_fish f\<rparr>) fish"
  let ?m = "bucket_by (\<lambda>f. bucket_kind (cb_action f)) ?in"
  note parts = bucket_by_partition [of "\<lambda>f. bucket_kind (cb_action f)" ?in]
  have one: "list_all2 (\<lambda>pc c. gg_members c = pk_members pc \<and> gg_fraction c = pk_fraction pc) (clusterFallback ?in) cs"
    using throws_map_Inr [OF assms(1) [unfolded clusterByActionKind_def assms(2)]]
    by (rule list_all2_mono) (auto split: list.splits option.splits)
  have "list_all2 (\<lambda>ms c. mset (gg_members c) = mset (map cb_fish ms) \<and> ms \<noteq> [] \<and>
    gg_fraction c = of_nat (length ms) / of_nat (length ?in)) (map snd ?m) cs"
    using one unfolding clusterFallback_def list_all2_map1
    by (rule list.rel_mono_strong) (use parts in \<open>auto\<close>)
  from partitions_intro [OF this] parts have "partitions (map cb_fish ?in) cs" by blast
  then show ?thesis by (simp add: comp_def)
qed

lemma concat_nonempty: "concat (map f (filter (\<lambda>b. f b \<noteq> []) bs)) = concat (map f bs)"
  by (induction bs) auto

lemma cluster_fish_partition:
  assumes "cluster_fish env fish = Inr cs" and "pa_fallback (tl_strategy env) = clusterFallback"
  shows "partitions (map fu_fish fish) cs"
proof -
  let ?vs = "filter has_vector fish"
  consider "fish = []" | "fish \<noteq> []" "length ?vs < 2" | "fish \<noteq> []" "2 \<le> length ?vs" by linarith
  then show ?thesis
  proof cases
    case 1
    then show ?thesis using assms by (simp add: cluster_fish_def partitions_def)
  next
    case 2
    then show ?thesis using assms fallback_clusters_partition by (simp add: cluster_fish_def)
  next
    case 3
    let ?k = "adaptive_k (length ?vs)"
    obtain centroids asg where km: "cosineKMeans (map vector_of ?vs) ?k 10 = (centroids, asg)" by fastforce
    let ?bs = "map (\<lambda>i. (i, fish_buckets fish asg ?k ! i, centroid_at centroids i)) [0..<?k]"
    let ?ne = "filter (\<lambda>b. fst (snd b) \<noteq> []) ?bs"
    have "map vector_of ?vs \<noteq> []" "0 < ?k" using 3(2) by (auto simp: adaptive_k_def)
    from cosineKMeans_shape [OF km this] have shape: "length asg = length ?vs" "list_all (\<lambda>c. c < ?k) asg"
      by (auto simp: list_all_iff)
    note parts = fish_buckets_partition [OF shape \<open>0 < ?k\<close>]
    have "map (\<lambda>b. fst (snd b)) ?bs = fish_buckets fish asg ?k"
      using map_nth [of "fish_buckets fish asg ?k"] parts by (simp add: comp_def)
    then have "mset (concat (map (\<lambda>b. fst (snd b)) ?ne)) = mset fish" using parts concat_nonempty [of "\<lambda>b. fst (snd b)" ?bs] by metis
    moreover have "throws_map (hydrate env (length fish)) ?ne = Inr cs"
    proof -
      have "(\<lambda>(i, ms, c). ms \<noteq> []) = (\<lambda>b :: nat \<times> fish_terminal list \<times> real list option. fst (snd b) \<noteq> [])" by auto
      then show ?thesis using assms(1) 3 km by (simp add: cluster_fish_def Let_def not_less)
    qed
    moreover have "list_all (\<lambda>b. fst (snd b) \<noteq> []) ?ne" by (simp add: list_all_iff)
    ultimately show ?thesis by (intro kmeans_clusters_partition)
  qed
qed

lemma sort_clusters_partition: "partitions fish cs \<Longrightarrow> partitions fish (sort_clusters cs)"
proof -
  assume p: "partitions fish cs"
  have m: "mset (sort_clusters cs) = mset cs" by (simp add: sort_clusters_def)
  have "mset (concat (map gg_members xs)) = \<Sum>\<^sub># (image_mset (\<lambda>c. mset (gg_members c)) (mset xs))" for xs :: "swarm_cluster list"
    by (induction xs) simp_all
  then have "mset (concat (map gg_members (sort_clusters cs))) = mset (concat (map gg_members cs))" using m by metis
  then show ?thesis using p mset_eq_setD [OF m] by (simp add: partitions_def list_all_iff)
qed

lemma sort_clusters_top: "sort_clusters cs = c # cs' \<Longrightarrow> c' \<in> set cs \<Longrightarrow> gg_fraction c' \<le> gg_fraction c"
proof -
  assume s: "sort_clusters cs = c # cs'" and c': "c' \<in> set cs"
  have "sorted (map (\<lambda>c. - gg_fraction c) (sort_clusters cs))" unfolding sort_clusters_def by (rule sorted_sort_key)
  moreover have "c' \<in> set (sort_clusters cs)" using c' by (simp add: sort_clusters_def)
  ultimately show ?thesis unfolding s by auto
qed

section \<open>The similarity never falls\<close>

lemma dot_simps [simp]: "dot [] b = 0" "dot a [] = 0" "dot (x # a) (y # b) = x * y + dot a b"
  by (simp_all add: dot_def)

lemma dot_self: "dot v v = sum_list (map (\<lambda>x. x * x) v)"
  by (induction v) simp_all

lemma dot_self_pos [simp]: "0 \<le> dot v v"
  unfolding dot_self by (induction v) simp_all

lemma dot_weighted: "0 < w \<Longrightarrow> 2 * dot a b \<le> dot a a / w + w * dot b b"
proof (induction a arbitrary: b)
  case (Cons x xs)
  show ?case
  proof (cases b)
    case Nil
    then show ?thesis using Cons.prems dot_self_pos [of "x # xs"] by (simp del: dot_simps(3))
  next
    case b: (Cons y ys)
    have "0 \<le> (x / sqrt w - sqrt w * y)\<^sup>2" by simp
    then have "2 * (x * y) \<le> x * x / w + w * (y * y)"
      using Cons.prems by (simp add: power2_diff power_mult_distrib power_divide power2_eq_square [of x] power2_eq_square [of y])
    then show ?thesis using Cons.IH [OF Cons.prems, of ys] b by (simp add: add_divide_distrib algebra_simps)
  qed
qed simp

lemma dot_index: "length a = n \<Longrightarrow> length b = n \<Longrightarrow> dot a b = (\<Sum>d \<leftarrow> [0..<n]. a ! d * b ! d)"
proof (induction a arbitrary: b n)
  case (Cons x xs)
  then obtain y ys m where "b = y # ys" "n = Suc m" by (cases b; cases n) auto
  moreover have "(\<Sum>d \<leftarrow> [0..<Suc m]. f d) = f 0 + (\<Sum>d \<leftarrow> [0..<m]. f (Suc d))" for f :: "nat \<Rightarrow> real"
    by (simp add: upt_conv_Cons map_Suc_upt [symmetric] comp_def del: upt_Suc)
  ultimately show ?case using Cons by (simp del: upt_Suc)
qed simp

lemma dot_mean:
  assumes "list_all (\<lambda>v. length v = n) ms" and "length u = n"
  shows "of_nat (length ms) * dot (mean_vector n ms) u = (\<Sum>v \<leftarrow> ms. dot v u)"
proof (cases "ms = []")
  case False
  have swap: "(\<Sum>d \<leftarrow> ds. sum_list (map (\<lambda>v. v ! d) ms) * u ! d) = (\<Sum>v \<leftarrow> ms. \<Sum>d \<leftarrow> ds. v ! d * u ! d)" for ds
    by (induction ms) (simp_all add: sum_list_addf distrib_right)
  have "of_nat (length ms) * dot (mean_vector n ms) u = (\<Sum>d \<leftarrow> [0..<n]. sum_list (map (\<lambda>v. v ! d) ms) * u ! d)"
  proof -
    have "(of_nat (length ms) :: real) \<noteq> 0" using False by simp
    then have "of_nat (length ms) * (mean_vector n ms ! d * u ! d) = sum_list (map (\<lambda>v. v ! d) ms) * u ! d" if "d < n" for d
      using that by (simp add: mean_vector_def)
    then have "(\<Sum>d \<leftarrow> [0..<n]. of_nat (length ms) * (mean_vector n ms ! d * u ! d)) = (\<Sum>d \<leftarrow> [0..<n]. sum_list (map (\<lambda>v. v ! d) ms) * u ! d)"
      by (intro arg_cong [where f = sum_list] map_cong refl) simp
    moreover have "length (mean_vector n ms) = n" by (simp add: mean_vector_def)
    ultimately show ?thesis using assms(2) by (simp add: dot_index [where n = n] sum_list_const_mult)
  qed
  also have "\<dots> = (\<Sum>v \<leftarrow> ms. dot v u)" unfolding swap
    using assms by (intro arg_cong [where f = sum_list] map_cong refl) (auto simp: list_all_iff dot_index [where n = n])
  finally show ?thesis .
qed simp

lemma normalize_length [simp]: "length (l2Normalize v) = length v"
  by (simp add: l2Normalize_def Let_def)

lemma dot_scaled: "dot a (map (\<lambda>x. x / n) b) = dot a b / n" "dot (map (\<lambda>x. x / n) b) a = dot b a / n"
  by (induction a b rule: list_induct2'; simp add: add_divide_distrib; fail)+

lemma normalize_norm: "dot (l2Normalize v) (l2Normalize v) \<le> 1"
proof (cases "sqrt (dot v v) < 1 / 10 ^ 9")
  case True
  moreover have "(1 / 10 ^ 9 :: real) \<le> 1" by simp
  ultimately have "sqrt (dot v v) \<le> 1" by linarith
  then have "dot v v \<le> 1" by simp
  then show ?thesis using True by (simp add: l2Normalize_def dot_self Let_def)
next
  case False
  moreover have "(0 :: real) < 1 / 10 ^ 9" by simp
  ultimately have "0 < sqrt (dot v v)" by linarith
  then have "dot v v \<noteq> 0" "sqrt (dot v v) * sqrt (dot v v) = dot v v" by auto
  then show ?thesis using False by (simp add: l2Normalize_def dot_self [symmetric] dot_scaled Let_def)
qed

lemma normalize_best:
  assumes "dot u u \<le> 1"
  shows "dot v u \<le> dot v (l2Normalize v) + 1 / 10 ^ 9"
proof (cases "sqrt (dot v v) < 1 / 10 ^ 9")
  case True
  have "dot v v = sqrt (dot v v) * sqrt (dot v v)" by simp
  also have "\<dots> \<le> (1 / 10 ^ 9) * (1 / 10 ^ 9)" using True by (intro mult_mono) simp_all
  finally have "dot v v \<le> (1 / 10 ^ 9) * (1 / 10 ^ 9)" .
  then have "2 * dot v u \<le> 2 * (1 / 10 ^ 9)"
    using dot_weighted [of "1 / 10 ^ 9" v u] assms by (simp add: field_simps)
  moreover have "l2Normalize v = v" using True by (simp add: l2Normalize_def dot_self [symmetric] Let_def)
  ultimately show ?thesis using dot_self_pos [of v] by (simp del: dot_self_pos)
next
  case False
  moreover have "(0 :: real) < 1 / 10 ^ 9" by simp
  ultimately have pos: "0 < sqrt (dot v v)" by linarith
  have sq: "dot v v / sqrt (dot v v) = sqrt (dot v v)" using pos by (simp add: real_div_sqrt)
  have "sqrt (dot v v) * dot u u \<le> sqrt (dot v v)" using assms pos by (simp add: mult_left_le)
  then have "2 * dot v u \<le> 2 * sqrt (dot v v)" using dot_weighted [OF pos, of v u] sq by simp
  moreover have "dot v (l2Normalize v) = sqrt (dot v v)"
    using False sq by (simp add: l2Normalize_def dot_self [symmetric] dot_scaled Let_def)
  ultimately show ?thesis by simp
qed

text \<open>The similarity of every vector to the centroid it is assigned to.\<close>

definition total_sim :: "real list list \<Rightarrow> real list list \<Rightarrow> nat list \<Rightarrow> real" where
  "total_sim norms cs asg = (\<Sum>(v, c) \<leftarrow> zip norms asg. dot v (cs ! c))"

lemma nearest_improves:
  "cs \<noteq> [] \<Longrightarrow> length asg = length norms \<Longrightarrow> list_all (\<lambda>c. c < length cs) asg \<Longrightarrow>
   total_sim norms cs asg \<le> total_sim norms cs (map (nearest cs) norms)"
proof (induction norms arbitrary: asg)
  case (Cons v norms)
  then obtain a asg' where "asg = a # asg'" by (cases asg) auto
  then show ?case using Cons nearest_props [OF Cons.prems(1), of v] by (auto simp: total_sim_def intro!: add_mono)
qed (simp add: total_sim_def)

lemma sum_pick:
  fixes f :: "nat \<Rightarrow> 'a \<Rightarrow> real"
  shows "a < k \<Longrightarrow> (\<Sum>c \<leftarrow> [0..<k]. sum_list (map (f c) ((if a = c then [x] else []) @ g c))) = f a x + (\<Sum>c \<leftarrow> [0..<k]. sum_list (map (f c) (g c)))"
proof (induction k)
  case (Suc k)
  have none: "(\<Sum>c \<leftarrow> [0..<k]. sum_list (map (f c) ((if k = c then [x] else []) @ g c))) = (\<Sum>c \<leftarrow> [0..<k]. sum_list (map (f c) (g c)))"
    by (intro arg_cong [where f = sum_list] map_cong refl) simp
  show ?case using Suc none by (cases "a = k") auto
qed simp

lemma sum_members:
  fixes f :: "nat \<Rightarrow> 'a \<Rightarrow> real"
  shows "length asg = length xs \<Longrightarrow> list_all (\<lambda>c. c < k) asg \<Longrightarrow>
    (\<Sum>c \<leftarrow> [0..<k]. sum_list (map (f c) (members_of xs asg c))) = (\<Sum>(x, c) \<leftarrow> zip xs asg. f c x)"
proof (induction xs arbitrary: asg)
  case Nil
  then show ?case by (simp add: members_of_def)
next
  case (Cons x xs)
  then obtain a asg' where "asg = a # asg'" by (cases asg) auto
  then show ?case using Cons sum_pick [of a k f x "members_of xs asg'"] by (simp add: members_of_Cons)
qed

lemma members_of_set: "set (members_of xs asg c) \<subseteq> set xs"
  by (auto simp: members_of_def dest: set_zip_leftD)

lemma new_centroid_improves:
  assumes "list_all (\<lambda>v. length v = w) norms" and "length old = w" and "dot old old \<le> 1"
  shows "sum_list (map (\<lambda>v. dot v old) (members_of norms asg c)) \<le>
    sum_list (map (\<lambda>v. dot v (new_centroid w norms asg c old) + 1 / 10 ^ 9) (members_of norms asg c))"
proof (cases "members_of norms asg c = []")
  case False
  let ?ms = "members_of norms asg c"
  let ?m = "mean_vector w ?ms"
  have len: "list_all (\<lambda>v. length v = w) ?ms" using assms(1) members_of_set [of norms asg c] by (auto simp: list_all_iff)
  have "length ?m = w" by (simp add: mean_vector_def)
  then have "length (l2Normalize ?m) = w" by simp
  have "of_nat (length ?ms) * dot ?m old \<le> of_nat (length ?ms) * (dot ?m (l2Normalize ?m) + 1 / 10 ^ 9)"
    by (rule mult_left_mono [OF normalize_best [OF assms(3)]]) simp
  then show ?thesis using False dot_mean [OF len assms(2)] dot_mean [OF len \<open>length (l2Normalize ?m) = w\<close>]
    by (simp add: new_centroid_def Let_def distrib_left sum_list_addf sum_list_triv)
qed simp

definition good_centroids :: "nat \<Rightarrow> real list list \<Rightarrow> bool" where
  "good_centroids w cs = list_all (\<lambda>c. length c = w \<and> dot c c \<le> 1) cs"

lemma update_nth:
  "c < length cs \<Longrightarrow> update_centroids w norms asg cs ! c = new_centroid w norms asg c (cs ! c)"
  by (simp add: update_centroids_def)

lemma update_good: "good_centroids w cs \<Longrightarrow> good_centroids w (update_centroids w norms asg cs)"
proof -
  assume g: "good_centroids w cs"
  have "length (new_centroid w norms asg c u) = w \<and> dot (new_centroid w norms asg c u) (new_centroid w norms asg c u) \<le> 1"
    if "length u = w" "dot u u \<le> 1" for c u
    using that normalize_norm by (auto simp: new_centroid_def Let_def mean_vector_def)
  then show ?thesis using g by (simp add: good_centroids_def list_all_length update_nth)
qed

lemma update_improves:
  assumes "list_all (\<lambda>v. length v = w) norms" and "good_centroids w cs"
    and asg: "length asg = length norms" "list_all (\<lambda>c. c < length cs) asg"
  shows "total_sim norms cs asg \<le> total_sim norms (update_centroids w norms asg cs) asg + of_nat (length norms) / 10 ^ 9"
proof -
  let ?new = "update_centroids w norms asg cs"
  have "total_sim norms cs asg = (\<Sum>c \<leftarrow> [0..<length cs]. sum_list (map (\<lambda>v. dot v (cs ! c)) (members_of norms asg c)))"
    unfolding total_sim_def using sum_members [OF asg, of "\<lambda>c v. dot v (cs ! c)"] by simp
  also have "\<dots> \<le> (\<Sum>c \<leftarrow> [0..<length cs]. sum_list (map (\<lambda>v. dot v (?new ! c) + 1 / 10 ^ 9) (members_of norms asg c)))"
  proof (rule sum_list_mono)
    fix c assume "c \<in> set [0..<length cs]"
    then have c: "c < length cs" by simp
    then have "length (cs ! c) = w" "dot (cs ! c) (cs ! c) \<le> 1" using assms(2) by (auto simp: good_centroids_def list_all_length)
    from new_centroid_improves [OF assms(1) this, of asg c]
    show "sum_list (map (\<lambda>v. dot v (cs ! c)) (members_of norms asg c)) \<le>
      sum_list (map (\<lambda>v. dot v (?new ! c) + 1 / 10 ^ 9) (members_of norms asg c))" using c by (simp add: update_nth)
  qed
  also have "\<dots> = (\<Sum>(v, c) \<leftarrow> zip norms asg. dot v (?new ! c) + 1 / 10 ^ 9)"
    using sum_members [OF asg, of "\<lambda>c v. dot v (?new ! c) + 1 / 10 ^ 9"] .
  also have "\<dots> = total_sim norms ?new asg + of_nat (length norms) / 10 ^ 9"
    using asg(1) by (simp add: total_sim_def case_prod_unfold sum_list_addf sum_list_triv)
  finally show ?thesis .
qed

lemma kmeans_loop_improves:
  assumes "list_all (\<lambda>v. length v = w) norms" and "good_centroids w cs" and "cs \<noteq> []"
    and "length asg = length norms" and "list_all (\<lambda>c. c < length cs) asg"
  shows "total_sim norms cs asg \<le>
    total_sim norms (fst (kmeans_loop (Suc m) w norms cs asg0)) (snd (kmeans_loop (Suc m) w norms cs asg0)) +
    of_nat (Suc m * length norms) / 10 ^ 9"
  using assms
proof (induction m arbitrary: cs asg asg0)
  case (0 cs asg asg0)
  let ?asg = "map (nearest cs) norms"
  have a: "list_all (\<lambda>c. c < length cs) ?asg" using nearest_props [OF 0(3)] by (simp add: list_all_iff)
  show ?case using nearest_improves [OF 0(3,4,5)] update_improves [OF 0(1,2) _ a] by (simp add: Let_def)
next
  case (Suc m cs asg asg0)
  let ?asg = "map (nearest cs) norms"
  let ?cs = "update_centroids w norms ?asg cs"
  have a: "list_all (\<lambda>c. c < length cs) ?asg" using nearest_props [OF Suc.prems(3)] by (simp add: list_all_iff)
  have up: "total_sim norms cs asg \<le> total_sim norms ?cs ?asg + of_nat (length norms) / 10 ^ 9"
    using nearest_improves [OF Suc.prems(3,4,5)] update_improves [OF Suc.prems(1,2) _ a] by simp
  have ne: "?cs \<noteq> []" using Suc.prems(3) by (metis length_0_conv update_centroids_length)
  show ?case
  proof (cases "?asg = asg0 \<or> centroid_delta w cs ?cs < 1 / 10 ^ 6")
    case True
    then have "kmeans_loop (Suc (Suc m)) w norms cs asg0 = (?cs, ?asg)"
      unfolding kmeans_loop.simps(2) [of "Suc m"] by (simp only: Let_def if_True)
    moreover have "of_nat (length norms) \<le> (of_nat (Suc (Suc m) * length norms) :: real)" by (simp only: of_nat_le_iff) simp
    then have "of_nat (length norms) / 10 ^ 9 \<le> (of_nat (Suc (Suc m) * length norms) :: real) / 10 ^ 9"
      by (rule divide_right_mono) simp
    ultimately show ?thesis using up by (simp only: fst_conv snd_conv)
  next
    case False
    have "kmeans_loop (Suc (Suc m)) w norms cs asg0 = kmeans_loop (Suc m) w norms ?cs ?asg"
      unfolding kmeans_loop.simps(2) [of "Suc m"] using False by (simp only: Let_def if_False)
    moreover have "total_sim norms ?cs ?asg \<le> total_sim norms (fst (kmeans_loop (Suc m) w norms ?cs ?asg)) (snd (kmeans_loop (Suc m) w norms ?cs ?asg)) +
      of_nat (Suc m * length norms) / 10 ^ 9"
      using a by (intro Suc.IH [OF Suc.prems(1) update_good [OF Suc.prems(2)] ne]) simp_all
    ultimately show ?thesis using up by (simp add: add_divide_distrib)
  qed
qed

section \<open>Identical vectors\<close>

lemma first_max_const: "ws \<noteq> [] \<Longrightarrow> \<forall>w \<in> set ws. w = x \<Longrightarrow> first_max ws = Some 0"
proof -
  assume ne: "ws \<noteq> []" and all: "\<forall>w \<in> set ws. w = x"
  obtain c where c: "first_max ws = Some c" using first_max_exists [OF ne] by blast
  note m = first_max_Some [OF c]
  have "\<not> 0 < c"
  proof
    assume "0 < c"
    then have "ws ! 0 < ws ! c" using m by blast
    moreover have "ws ! 0 = x" "ws ! c = x" using all m ne by (simp_all add: nth_mem)
    ultimately show False by simp
  qed
  then show ?thesis using c by simp
qed

lemma kmeans_same:
  assumes "cs \<noteq> []" and "\<forall>c \<in> set cs. c = u" and "\<forall>v \<in> set norms. v = u" and "asg = replicate (length norms) 0"
  shows "snd (kmeans_loop m w norms cs asg) = replicate (length norms) 0"
proof (cases m)
  case (Suc m')
  have "first_max (map (dot v) cs) = Some 0" for v
    using first_max_const [of "map (dot v) cs" "dot v u"] assms(1,2) by auto
  then have "map (nearest cs) norms = replicate (length norms) 0" by (intro nth_equalityI) (simp_all add: nearest_def)
  then show ?thesis using Suc assms(4) by (simp add: Let_def)
qed (simp add: assms)

lemma cosineKMeans_same:
  assumes "\<forall>v \<in> set vectors. v = u" and "cosineKMeans vectors k m = (cs, asg)"
  shows "asg = replicate (length vectors) 0"
proof (cases "vectors = []")
  case False
  let ?norms = "map l2Normalize vectors"
  have same: "\<forall>v \<in> set ?norms. v = l2Normalize u" using assms(1) by auto
  have cs: "set (initial_centroids (min k (length vectors)) ?norms) \<subseteq> set ?norms"
    using False by (intro initial_centroids_from) simp
  have "initial_centroids n ?norms \<noteq> []" for n
    using add_centroids_length [of ?norms "n - 1" "[?norms ! (deterministicSeed ?norms mod length ?norms)]"] False
    by (auto simp: initial_centroids_def)
  then show ?thesis using kmeans_same [of "initial_centroids (min k (length vectors)) ?norms" "l2Normalize u" ?norms
      "replicate (length ?norms) 0" m "length (hd vectors)"] same cs assms(2) False
    by (auto simp: cosineKMeans_def Let_def)
next
  case True
  then show ?thesis using assms(2) by (simp add: cosineKMeans_def)
qed

section \<open>Properties\<close>

text \<open>C37: An aggregate accounts for every fish: once the quorum is met, the clusters partition the fish that
  ended with an action and a summary, each with its share of them as its fraction, the fractions sum to
  one, the modal cluster is a largest one and the divergence is one minus its fraction; without the
  quorum the aggregate is empty.\<close>

theorem clusters_partition_the_fish:
  assumes "aggregate env swarm db = Inr a" and "pa_fallback (tl_strategy env) = clusterFallback"
    and "swarm_findById swarm db = Some s"
  shows "let ended = map tr_fish (filter (\<lambda>r. tr_status r = RunDone \<and> tr_action r \<noteq> None \<and> tr_summary r \<notin> {None, Some []})
                (listTerminalsForSwarm swarm db)) in
    ga_succeeded a = length ended \<and>
    ga_quorumMet a = (quorum_required (sw_size s) (wc_quorumPct (sw_config s)) \<le> int (length ended)) \<and>
    partitions (if ga_quorumMet a then ended else []) (ga_clusters a) \<and>
    (ga_clusters a \<noteq> [] \<longrightarrow> sum_list (map gg_fraction (ga_clusters a)) = 1 \<and>
       (\<exists>m. ga_modal a = Some m \<and> gk_fraction m = Max (gg_fraction ` set (ga_clusters a)) \<and> ga_divergence a = 1 - gk_fraction m))"
proof -
  let ?ts = "listTerminalsForSwarm swarm db"
  let ?ended = "map tr_fish (filter (\<lambda>r. tr_status r = RunDone \<and> tr_action r \<noteq> None \<and> tr_summary r \<notin> {None, Some []}) ?ts)"
  let ?fish = "map (fish_of (tl_embed env)) (usable_terminals ?ts)"
  have fish: "loadTerminals env ?ts = Inr ?fish"
    using assms(1) by (auto simp: aggregate_def loadTerminals_def Let_def split: option.splits if_splits sum.splits)
  have ended: "map fu_fish (filter fu_done (map (fish_of e) (usable_terminals ts))) =
    map tr_fish (filter (\<lambda>r. tr_status r = RunDone \<and> tr_action r \<noteq> None \<and> tr_summary r \<notin> {None, Some []}) ts)" for e ts
    by (induction ts) (auto simp: usable_terminals_def fish_of_def List.map_filter_simps split: option.splits)
  let ?succ = "filter fu_done ?fish"
  have len: "length ?succ = length ?ended" using arg_cong [OF ended [of "tl_embed env" ?ts], of length] by simp
  show ?thesis
  proof (cases "int (length ?succ) < quorum_required (sw_size s) (wc_quorumPct (sw_config s))")
    case True
    then have "a = \<lparr>ga_swarm = swarm, ga_total = sw_size s, ga_quorumMet = False, ga_succeeded = length ?succ,
        ga_failed = length (filter (\<lambda>f. \<not> fu_done f) ?fish), ga_clusters = [], ga_modal = None, ga_divergence = 1\<rparr>"
      using assms(1,3) fish by (simp add: aggregate_def Let_def)
    then show ?thesis using True len by (simp add: Let_def partitions_def)
  next
    case False
    then obtain cs where cs: "cluster_fish env ?succ = Inr cs"
      and a: "ga_quorumMet a" "ga_succeeded a = length ?succ" "ga_clusters a = sort_clusters cs" "ga_modal a = modal_of (sort_clusters cs)"
        "ga_divergence a = (case sort_clusters cs of [] \<Rightarrow> 1 | c # _ \<Rightarrow> 1 - gg_fraction c)"
      using assms(1,3) fish by (auto simp: aggregate_def Let_def split: sum.splits)
    have p: "partitions ?ended (ga_clusters a)"
      using sort_clusters_partition [OF cluster_fish_partition [OF cs assms(2)]] a(3) ended by simp
    moreover have "sum_list (map gg_fraction (ga_clusters a)) = 1 \<and>
       (\<exists>m. ga_modal a = Some m \<and> gk_fraction m = Max (gg_fraction ` set (ga_clusters a)) \<and> ga_divergence a = 1 - gk_fraction m)"
      if ne: "ga_clusters a \<noteq> []"
    proof -
      obtain c cs' where c: "sort_clusters cs = c # cs'" using ne a(3) by (cases "sort_clusters cs") auto
      have "?ended \<noteq> []"
      proof
        assume "?ended = []"
        then show False using p c a(3) by (auto simp: partitions_def)
      qed
      from partitions_fractions [OF p this] have "sum_list (map gg_fraction (ga_clusters a)) = 1" .
      moreover have "Max (gg_fraction ` set (ga_clusters a)) = gg_fraction c"
      proof (rule Max_eqI)
        show "gg_fraction c \<in> gg_fraction ` set (ga_clusters a)" using a(3) c by simp
        fix x assume "x \<in> gg_fraction ` set (ga_clusters a)"
        then obtain d where "d \<in> set (sort_clusters cs)" "x = gg_fraction d" using a(3) by auto
        then show "x \<le> gg_fraction c" using sort_clusters_top [OF c, of d] by (simp add: sort_clusters_def)
      qed simp
      ultimately show ?thesis using a c by (simp add: modal_of_def)
    qed
    ultimately show ?thesis using a(1,2) False len by (simp add: Let_def)
  qed
qed

text \<open>C38: A clustering is never worse than its seeds: for unit vectors the k-means of at least one round
  assigns every vector to one of \<open>min k n\<close> centroids, and the sum of the similarities of the vectors to
  their centroids is, up to a billionth per vector and round for means that vanish, at least what any
  assignment to the initial centroids gives.\<close>

theorem kmeans_never_worse_than_seeds:
  assumes "cosineKMeans vectors k (Suc m) = (centroids, assignments)" and "vectors \<noteq> []" and "0 < k"
    and "list_all (\<lambda>v. length v = w) vectors"
    and "length asg = length vectors" and "list_all (\<lambda>c. c < min k (length vectors)) asg"
  shows "length centroids = min k (length vectors) \<and> length assignments = length vectors \<and>
    list_all (\<lambda>c. c < min k (length vectors)) assignments \<and>
    total_sim (map l2Normalize vectors) (initial_centroids (min k (length vectors)) (map l2Normalize vectors)) asg \<le>
    total_sim (map l2Normalize vectors) centroids assignments + of_nat (Suc m * length vectors) / 10 ^ 9"
proof -
  let ?norms = "map l2Normalize vectors"
  let ?cs = "initial_centroids (min k (length vectors)) ?norms"
  have w: "length (hd vectors) = w" using assms(2,4) by (cases vectors) auto
  have lens: "list_all (\<lambda>v. length v = w) ?norms" using assms(4) by (simp add: list_all_iff)
  have cs: "length ?cs = min k (length vectors)" using assms(2,3) by (intro initial_centroids_length) simp_all
  then have ne: "?cs \<noteq> []" using assms(2,3) by (metis length_0_conv length_greater_0_conv min_less_iff_conj not_less_zero)
  have "set ?cs \<subseteq> set ?norms" using assms(2) by (intro initial_centroids_from) simp
  then have good: "good_centroids w ?cs" using lens normalize_norm by (fastforce simp: good_centroids_def list_all_iff)
  have "kmeans_loop (Suc m) w ?norms ?cs (replicate (length vectors) 0) = (centroids, assignments)"
    using assms(1,2) w by (simp add: cosineKMeans_def Let_def del: kmeans_loop.simps)
  then show ?thesis
    using kmeans_loop_improves [OF lens good ne, of asg m "replicate (length vectors) 0"] cs assms(5,6)
      cosineKMeans_shape [OF assms(1-3)] by simp
qed

text \<open>Equal summaries hide different actions: when the embedder gives every fish the same vector, all fish
  fall into one cluster labelled by the first of them, whatever they did, so the swarm counts as
  unanimous, although the clustering is documented to fall back to the kinds of action in that case.\<close>

theorem equal_vectors_merge_all_actions:
  assumes "2 \<le> length fish" and "\<forall>f \<in> set fish. fu_embedding f = Some v" and "v \<noteq> []" and "cluster_fish env fish = Inr cs"
  shows "\<exists>c. cs = [c] \<and> gg_fraction c = 1 \<and> gg_members c = sort (map fu_fish fish) \<and> gg_action c = fu_action (hd fish)"
proof -
  have vec: "filter has_vector fish = fish" "filter (\<lambda>f. \<not> has_vector f) fish = []"
    using assms(2,3) by (auto simp: has_vector_def filter_id_conv filter_empty_conv)
  let ?k = "adaptive_k (length fish)"
  obtain centroids asg where km: "cosineKMeans (map vector_of fish) ?k 10 = (centroids, asg)" by fastforce
  have "asg = replicate (length fish) 0" using cosineKMeans_same [OF _ km, of v] assms(2) by (simp add: vector_of_def)
  then have buckets: "fish_buckets fish asg ?k = map (\<lambda>c. if c = 0 then fish else []) [0..<?k]"
    using vec by (auto simp: fish_buckets_def members_of_def zip_replicate2 comp_def filter_empty_conv intro!: filter_True)
  have k: "[0..<?k] = 0 # [1..<?k]" by (simp add: upt_conv_Cons adaptive_k_def)
  have bs: "filter (\<lambda>(i, ms, c). ms \<noteq> []) (map (\<lambda>i. (i, fish_buckets fish asg ?k ! i, centroid_at centroids i)) [0..<?k]) =
    [(0, fish, centroid_at centroids 0)]"
  proof -
    have "filter (\<lambda>(i, ms, c). ms \<noteq> []) (map (\<lambda>i. (i, fish_buckets fish asg ?k ! i, centroid_at centroids i)) [1..<?k]) = []"
      using buckets by (auto simp: filter_empty_conv)
    moreover have "fish \<noteq> []" "fish_buckets fish asg ?k ! 0 = fish" using assms(1) buckets by (auto simp: adaptive_k_def)
    ultimately show ?thesis by (simp add: k)
  qed
  have "throws_map (hydrate env (length fish)) [(0, fish, centroid_at centroids 0)] = Inr cs"
  proof -
    have "fish \<noteq> []" using assms(1) by force
    moreover have "\<not> length fish < 2" using assms(1) by (simp only: not_less)
    ultimately show ?thesis using assms(4) unfolding bs [symmetric] by (simp add: cluster_fish_def Let_def vec km)
  qed
  moreover have "of_nat (length fish) / of_nat (length fish) = (1 :: real)" using assms(1) by (cases fish) simp_all
  ultimately show ?thesis by (auto simp: hydrate_def split: sum.splits)
qed

section \<open>Demonstrations\<close>

definition demo_fish :: "int \<Rightarrow> string \<Rightarrow> real list option \<Rightarrow> fish_terminal" where
  "demo_fish i kind v =
     \<lparr>fu_run = i, fu_fish = i, fu_agent = Some 0, fu_action = JObj [(''kind'', JStr kind)], fu_summary = ''s'',
      fu_embedding = v, fu_done = True, fu_turns = 1\<rparr>"

definition demo_aggregator :: "(int \<Rightarrow> string \<Rightarrow> real list option) option \<Rightarrow> aggregator_env" where
  "demo_aggregator embedder = \<lparr>tl_embed = embedder, tl_config = None, tl_strategy = ssa_strategy (\<lambda>_. [])\<rparr>"

definition demo_swarm_db :: sim_db where
  "demo_swarm_db =
     \<lparr>db_swarms = [\<lparr>sw_id = 1, sw_kind = ''k'', sw_title = [], sw_baseSeed = [], sw_perturbations = [], sw_size = 2,
        sw_config = \<lparr>wc_llmMode = [], wc_quorumPct = Some (1 / 2), wc_perFishTimeoutMs = Fin 0, wc_fishConcurrency = Fin 1,
          wc_nanoModel = [], wc_seed = 0, wc_aggregates = []\<rparr>, sw_status = SwarmRunning, sw_reportFindingId = None,
        sw_suggestionId = None, sw_completedAt = None, sw_createdBy = None\<rparr>],
      db_runs = map (\<lambda>(i, st). \<lparr>rn_id = i, rn_swarm = 1, rn_fish = i, rn_kind = [], rn_seed = [], rn_perturbation = [],
        rn_config = \<lparr>gc_turnsPerDay = 1, gc_maxTurns = 1, gc_llmMode = [], gc_seed = 0, gc_nanoModel = [], gc_perFishTimeoutMs = None\<rparr>,
        rn_status = st, rn_completedAt = None\<rparr>) [(1, RunDone), (2, RunFailed)],
      db_agents = [],
      db_turns = map (\<lambda>i. \<lparr>tn_id = i, tn_run = i, tn_index = 0, tn_actor = AgentActor, tn_agent = None,
        tn_action = JObj [(''kind'', JStr ''accept'')], tn_rationale = [], tn_summary = ''s'', tn_createdAt = 0\<rparr>) [1, 2],
      db_memories = []\<rparr>"

lemma demo_terminals:
  "map (fish_of None) (usable_terminals (listTerminalsForSwarm 1 demo_swarm_db)) =
   map (\<lambda>(i, d). (demo_fish i ''accept'' None)\<lparr>fu_agent := None, fu_done := d\<rparr>) [(1, True), (2, False)]"
  by code_simp

lemma demo_buckets:
  "clusterByActionKind (demo_aggregator None) [(demo_fish 1 ''accept'' None)\<lparr>fu_agent := None, fu_done := True\<rparr>] =
   Inr [\<lparr>gg_label = ''accept'', gg_fraction = 1, gg_members = [1], gg_run = 1, gg_action = JObj [(''kind'', JStr ''accept'')],
         gg_summary = ''s'', gg_centroid = None\<rparr>]"
  by code_simp

lemma demo_aggregate: "\<exists>a. aggregate (demo_aggregator None) 1 demo_swarm_db = Inr a \<and> ga_clusters a \<noteq> []"
proof -
  have "swarm_findById 1 demo_swarm_db = Some (hd (db_swarms demo_swarm_db))" by (simp add: demo_swarm_db_def swarm_findById_def)
  moreover have "sw_size (hd (db_swarms demo_swarm_db)) = 2" "wc_quorumPct (sw_config (hd (db_swarms demo_swarm_db))) = Some (1 / 2)"
    by (simp_all add: demo_swarm_db_def)
  moreover have "loadTerminals (demo_aggregator None) (listTerminalsForSwarm 1 demo_swarm_db) =
    Inr (map (\<lambda>(i, d). (demo_fish i ''accept'' None)\<lparr>fu_agent := None, fu_done := d\<rparr>) [(1, True), (2, False)])"
    using demo_terminals by (simp add: loadTerminals_def demo_aggregator_def)
  moreover have "cluster_fish (demo_aggregator None) [(demo_fish 1 ''accept'' None)\<lparr>fu_agent := None, fu_done := True\<rparr>] =
    clusterByActionKind (demo_aggregator None) [(demo_fish 1 ''accept'' None)\<lparr>fu_agent := None, fu_done := True\<rparr>]"
    by (simp add: cluster_fish_def has_vector_def demo_fish_def Let_def)
  ultimately show ?thesis using demo_buckets
    by (simp add: aggregate_def quorum_required_def sort_clusters_def Let_def demo_fish_def)
qed

theorem clusters_partition_the_fish_witness:
  "\<exists>a. aggregate (demo_aggregator None) 1 demo_swarm_db = Inr a \<and> sum_list (map gg_fraction (ga_clusters a)) = 1"
proof -
  obtain a where a: "aggregate (demo_aggregator None) 1 demo_swarm_db = Inr a" "ga_clusters a \<noteq> []" using demo_aggregate by blast
  have "swarm_findById 1 demo_swarm_db = Some (hd (db_swarms demo_swarm_db))"
    "pa_fallback (tl_strategy (demo_aggregator None)) = clusterFallback"
    by (simp_all add: demo_swarm_db_def swarm_findById_def demo_aggregator_def ssa_strategy_def)
  then show ?thesis using clusters_partition_the_fish [OF a(1)] a by (auto simp: Let_def)
qed

theorem kmeans_never_worse_than_seeds_witness:
  "length (fst (cosineKMeans [[1, 0], [0, 1], [1, 1]] 2 (Suc 9))) = 2"
  using kmeans_never_worse_than_seeds [of "[[1, 0], [0, 1], [1, 1]]" 2 9 "fst (cosineKMeans [[1, 0], [0, 1], [1, 1]] 2 (Suc 9))"
      "snd (cosineKMeans [[1, 0], [0, 1], [1, 1]] 2 (Suc 9))" 2 "[0, 0, 1]"] by simp

lemma throws_map_total: "\<forall>x. \<exists>y. f x = Inr y \<Longrightarrow> \<exists>ys. throws_map f xs = Inr ys"
proof (induction xs)
  case (Cons x xs)
  then obtain y ys where "f x = Inr y" "throws_map f xs = Inr ys" by metis
  then show ?case by simp
qed simp

definition demo_labels :: aggregator_env where
  "demo_labels = \<lparr>tl_embed = None, tl_config = None, tl_strategy = \<lparr>pa_label = (\<lambda>_. Inr ''x''), pa_fallback = clusterFallback\<rparr>\<rparr>"

theorem equal_vectors_merge_all_actions_witness:
  "\<exists>c. cluster_fish demo_labels [demo_fish 1 ''accept'' (Some [1]), demo_fish 2 ''reject'' (Some [1])] = Inr [c] \<and> gg_fraction c = 1"
proof -
  let ?fish = "[demo_fish 1 ''accept'' (Some [1]), demo_fish 2 ''reject'' (Some [1])]"
  have "\<exists>y. hydrate demo_labels n b = Inr y" for n b by (cases b) (simp add: hydrate_def demo_labels_def)
  then obtain cs where "cluster_fish demo_labels ?fish = Inr cs"
    using throws_map_total [of "hydrate demo_labels (length ?fish)"]
    by (fastforce simp: cluster_fish_def has_vector_def demo_fish_def Let_def split: prod.split)
  then show ?thesis using equal_vectors_merge_all_actions [of ?fish "[1]" demo_labels cs] by (auto simp: demo_fish_def)
qed

end
