(* ===== verification/Knowledge.thy ===== *)
theory Knowledge
  imports Cortex
begin

text \<open>
  The research knowledge graph: the four tables with their constraints, the single writer
  \<open>research-write.service.ts\<close> and the repositories over them, transactions, the finding store
  \<open>finding-store.service.ts\<close> with its two deduplications, the archive service and the persister
  \<open>finding-persister.service.ts\<close>. Any statement may fail. The store runs its work in the transaction
  port that \<open>config/container.ts\<close> always passes; the fallback without one (lines 30 to 39 of the store)
  is not used there and not modelled. Ids count up without gaps here; a sequence skips the ids of
  failed inserts, and no property depends on it.
\<close>

section \<open>Tables\<close>

datatype research_status = FindingActive | FindingArchived | FindingInvalidated

datatype cycle_status = CycleRunning | CycleCompleted | CycleFailed | CycleCancelled

datatype cycle_trigger = TriggerDaemon | TriggerUser | TriggerAlert | TriggerSystem

record kg_cycle =
  ky_id :: int
  ky_trigger :: cycle_trigger
  ky_source :: string
  ky_userId :: "int option"
  ky_cortices :: "string list"
  ky_status :: cycle_status
  ky_findingsCount :: nat
  ky_totalCost :: "real option"
  ky_error :: "string option"
  ky_completedAt :: "int option"

record kg_finding =
  kf_id :: int
  kf_cycle :: int
  kf_cortex :: string
  kf_type :: finding_type
  kf_status :: research_status
  kf_urgency :: urgency
  kf_title :: string
  kf_summary :: string
  kf_evidence :: "evidence list"
  kf_confidence :: real
  kf_impact :: real
  kf_extensions :: "(string, jval) jsmap option"
  kf_iteration :: nat
  kf_hash :: "string option"
  kf_embedding :: "jsnum list option"
  kf_expiresAt :: "int option"

text \<open>An edge points to an entity by its type and id, a finding among them.\<close>

record kg_edge =
  kd_finding :: int
  kd_entityType :: string
  kd_entityId :: int
  kd_relation :: relation
  kd_weight :: real
  kd_context :: "jval option"

record kg_link =
  kc_cycle :: int
  kc_finding :: int
  kc_iteration :: nat
  kc_dedupHit :: bool

record kg_db =
  kb_cycles :: "kg_cycle list"
  kb_findings :: "kg_finding list"
  kb_edges :: "kg_edge list"
  kb_links :: "kg_link list"
  kb_nextCycle :: int
  kb_nextFinding :: int

section \<open>Statements and transactions\<close>

text \<open>
  The state holds the tables and the number of statements sent so far. The environment says which
  statement fails, what time it is, and what the embedder, the hash and the vector index give.
\<close>

record kg_state =
  ks_db :: kg_db
  ks_step :: nat

record kg_env =
  kz_fails :: "nat \<Rightarrow> exn option"
  kz_now :: "nat \<Rightarrow> int"
  kz_embed :: "string \<Rightarrow> jsnum list option throws"
  kz_sha :: "string \<Rightarrow> string"
  kz_sim :: "jsnum list \<Rightarrow> jsnum list \<Rightarrow> real"
  kz_embedder :: string

type_synonym 'a kg = "kg_state \<Rightarrow> 'a throws \<times> kg_state"

definition kg_return :: "'a \<Rightarrow> 'a kg" where
  "kg_return x = (\<lambda>s. (Inr x, s))"

definition kg_throw :: "exn \<Rightarrow> 'a kg" where
  "kg_throw e = (\<lambda>s. (Inl e, s))"

definition kg_bind :: "'a kg \<Rightarrow> ('a \<Rightarrow> 'b kg) \<Rightarrow> 'b kg" where
  "kg_bind m f = (\<lambda>s. case m s of (Inl e, s') \<Rightarrow> (Inl e, s') | (Inr x, s') \<Rightarrow> f x s')"

definition kg_try :: "'a kg \<Rightarrow> (exn \<Rightarrow> 'a kg) \<Rightarrow> 'a kg" where
  "kg_try m h = (\<lambda>s. case m s of (Inl e, s') \<Rightarrow> h e s' | (Inr x, s') \<Rightarrow> (Inr x, s'))"

text \<open>A statement: it fails, or reads and changes the tables, or violates a constraint.\<close>

definition statement :: "kg_env \<Rightarrow> (kg_db \<Rightarrow> ('a \<times> kg_db) throws) \<Rightarrow> 'a kg" where
  "statement env f =
     (\<lambda>s. let s' = s\<lparr>ks_step := ks_step s + 1\<rparr> in
       case kz_fails env (ks_step s) of
         Some e \<Rightarrow> (Inl e, s')
       | None \<Rightarrow> (case f (ks_db s) of Inl e \<Rightarrow> (Inl e, s') | Inr (x, db) \<Rightarrow> (Inr x, s'\<lparr>ks_db := db\<rparr>)))"

definition kg_query :: "kg_env \<Rightarrow> (kg_db \<Rightarrow> 'a) \<Rightarrow> 'a kg" where
  "kg_query env f = statement env (\<lambda>db. Inr (f db, db))"

text \<open>\<open>db.transaction\<close>: rolled back when the work or the commit fails.\<close>

definition transaction :: "kg_env \<Rightarrow> 'a kg \<Rightarrow> 'a kg" where
  "transaction env m =
     (\<lambda>s. case kg_bind m (\<lambda>x. kg_bind (kg_query env (\<lambda>_. ())) (\<lambda>_. kg_return x)) s of
        (Inl e, s') \<Rightarrow> (Inl e, s'\<lparr>ks_db := ks_db s\<rparr>)
      | (Inr x, s') \<Rightarrow> (Inr x, s'))"

definition foreign_key_violation :: exn where
  "foreign_key_violation = mk_error ''insert or update violates foreign key constraint''"

section \<open>The writer\<close>

definition kg_has_cycle :: "int \<Rightarrow> kg_db \<Rightarrow> bool" where
  "kg_has_cycle i db = (i \<in> set (map ky_id (kb_cycles db)))"

definition kg_has_finding :: "int \<Rightarrow> kg_db \<Rightarrow> bool" where
  "kg_has_finding i db = (i \<in> set (map kf_id (kb_findings db)))"

definition createCycle :: "kg_env \<Rightarrow> kg_cycle \<Rightarrow> kg_cycle kg" where
  "createCycle env c =
     statement env (\<lambda>db.
       let row = c\<lparr>ky_id := kb_nextCycle db\<rparr> in
       Inr (row, db\<lparr>kb_cycles := kb_cycles db @ [row], kb_nextCycle := kb_nextCycle db + 1\<rparr>))"

definition map_cycle :: "int \<Rightarrow> (kg_cycle \<Rightarrow> kg_cycle) \<Rightarrow> kg_db \<Rightarrow> kg_db" where
  "map_cycle i f db = db\<lparr>kb_cycles := map (\<lambda>c. if ky_id c = i then f c else c) (kb_cycles db)\<rparr>"

definition map_finding :: "(kg_finding \<Rightarrow> bool) \<Rightarrow> (kg_finding \<Rightarrow> kg_finding) \<Rightarrow> kg_db \<Rightarrow> kg_db" where
  "map_finding P f db = db\<lparr>kb_findings := map (\<lambda>r. if P r then f r else r) (kb_findings db)\<rparr>"

definition incrementCycleFindings :: "kg_env \<Rightarrow> int \<Rightarrow> unit kg" where
  "incrementCycleFindings env i =
     statement env (\<lambda>db. Inr ((), map_cycle i (\<lambda>c. c\<lparr>ky_findingsCount := ky_findingsCount c + 1\<rparr>) db))"

definition createEdges :: "kg_env \<Rightarrow> kg_edge list \<Rightarrow> unit kg" where
  "createEdges env edges =
     (if edges = [] then kg_return ()
      else statement env (\<lambda>db.
        if list_all (\<lambda>ed. kg_has_finding (kd_finding ed) db) edges
        then Inr ((), db\<lparr>kb_edges := kb_edges db @ edges\<rparr>) else Inl foreign_key_violation))"

text \<open>The insert, then the update of the row with the hash when there is one.\<close>

definition insert_finding :: "kg_finding \<Rightarrow> kg_db \<Rightarrow> (kg_finding option \<times> kg_db) throws" where
  "insert_finding v db =
     (if \<not> kg_has_cycle (kf_cycle v) db then Inl foreign_key_violation
      else if kf_hash v \<noteq> None \<and> kf_hash v \<in> set (map kf_hash (kb_findings db)) then Inr (None, db)
      else (let row = v\<lparr>kf_id := kb_nextFinding db\<rparr> in
        Inr (Some row, db\<lparr>kb_findings := kb_findings db @ [row], kb_nextFinding := kb_nextFinding db + 1\<rparr>)))"

definition overwrite_finding :: "kg_finding \<Rightarrow> kg_finding \<Rightarrow> kg_finding" where
  "overwrite_finding v r =
     r\<lparr>kf_confidence := kf_confidence v, kf_evidence := kf_evidence v, kf_summary := kf_summary v,
       kf_embedding := kf_embedding v, kf_status := kf_status v, kf_iteration := kf_iteration r + 1\<rparr>"

definition update_by_hash :: "kg_finding \<Rightarrow> kg_db \<Rightarrow> (kg_finding option \<times> kg_db) throws" where
  "update_by_hash v db =
     (let db' = map_finding (\<lambda>r. kf_hash r = kf_hash v) (overwrite_finding v) db in
      Inr (find (\<lambda>r. kf_hash r = kf_hash v) (kb_findings db'), db'))"

definition upsertFindingByDedupHash :: "kg_env \<Rightarrow> kg_finding \<Rightarrow> (kg_finding \<times> bool) kg" where
  "upsertFindingByDedupHash env v =
     kg_bind (statement env (insert_finding v)) (\<lambda>inserted.
       case inserted of
         Some r \<Rightarrow> kg_return (r, True)
       | None \<Rightarrow>
           kg_bind (statement env (update_by_hash v)) (\<lambda>updated.
             case updated of
               None \<Rightarrow> kg_throw (mk_error ''Failed to upsert research finding by dedup hash'')
             | Some r \<Rightarrow> kg_return (r, False)))"

definition linkFindingToCycle :: "kg_env \<Rightarrow> kg_link \<Rightarrow> bool kg" where
  "linkFindingToCycle env l =
     statement env (\<lambda>db.
       if \<not> kg_has_cycle (kc_cycle l) db \<or> \<not> kg_has_finding (kc_finding l) db then Inl foreign_key_violation
       else if (kc_cycle l, kc_finding l) \<in> set (map (\<lambda>k. (kc_cycle k, kc_finding k)) (kb_links db)) then Inr (False, db)
       else Inr (True, db\<lparr>kb_links := kb_links db @ [l]\<rparr>))"

text \<open>The other writers: a recount, a plain insert, and the emission of a finding with its link and edges.\<close>

definition updateCycleFindingsCount :: "kg_env \<Rightarrow> int \<Rightarrow> nat \<Rightarrow> unit kg" where
  "updateCycleFindingsCount env i n = statement env (\<lambda>db. Inr ((), map_cycle i (\<lambda>c. c\<lparr>ky_findingsCount := n\<rparr>) db))"

definition unique_violation :: exn where
  "unique_violation = mk_error ''duplicate key value violates unique constraint''"

definition createFinding :: "kg_env \<Rightarrow> kg_finding \<Rightarrow> kg_finding kg" where
  "createFinding env v =
     statement env (\<lambda>db.
       case insert_finding v db of
         Inl e \<Rightarrow> Inl e
       | Inr (None, _) \<Rightarrow> Inl unique_violation
       | Inr (Some row, db') \<Rightarrow> Inr (row, db'))"

record emission_input =
  em_finding :: kg_finding
  em_cycle :: int
  em_iteration :: "nat option"
  em_edges :: "kg_edge list option"

definition emitFindingWithWriter :: "kg_env \<Rightarrow> emission_input \<Rightarrow> (kg_finding \<times> bool \<times> bool) kg" where
  "emitFindingWithWriter env input =
     kg_bind (upsertFindingByDedupHash env (em_finding input)) (\<lambda>(f, inserted).
       kg_bind (linkFindingToCycle env
                  \<lparr>kc_cycle = em_cycle input, kc_finding = kf_id f, kc_iteration = (case em_iteration input of Some n \<Rightarrow> n | None \<Rightarrow> 0),
                   kc_dedupHit = (\<not> inserted)\<rparr>) (\<lambda>linked.
         kg_bind (createEdges env (map (\<lambda>ed. ed\<lparr>kd_finding := kf_id f\<rparr>) (case em_edges input of Some es \<Rightarrow> es | None \<Rightarrow> []))) (\<lambda>_.
           kg_return (f, inserted, linked))))"

definition emitFindingTransactional :: "kg_env \<Rightarrow> emission_input \<Rightarrow> (kg_finding \<times> bool \<times> bool) kg" where
  "emitFindingTransactional env input = transaction env (emitFindingWithWriter env input)"

section \<open>The repositories\<close>

definition cycle_updateStatus ::
  "kg_env \<Rightarrow> int \<Rightarrow> cycle_status \<Rightarrow> int option \<Rightarrow> string option \<Rightarrow> real option \<Rightarrow> unit kg" where
  "cycle_updateStatus env i st completedAt error cost =
     statement env (\<lambda>db. Inr ((), map_cycle i (\<lambda>c. c\<lparr>ky_status := st,
        ky_completedAt := (case completedAt of None \<Rightarrow> ky_completedAt c | v \<Rightarrow> v),
        ky_error := (case error of None \<Rightarrow> ky_error c | v \<Rightarrow> v),
        ky_totalCost := (case cost of None \<Rightarrow> ky_totalCost c | v \<Rightarrow> v)\<rparr>) db))"

definition cycle_findById :: "int \<Rightarrow> kg_db \<Rightarrow> kg_cycle option" where
  "cycle_findById i db = find (\<lambda>c. ky_id c = i) (kb_cycles db)"

definition similarity_to :: "kg_env \<Rightarrow> jsnum list \<Rightarrow> kg_finding \<Rightarrow> real" where
  "similarity_to env v f = (case kf_embedding f of Some u \<Rightarrow> kz_sim env u v | None \<Rightarrow> 0)"

definition findSimilar ::
  "kg_env \<Rightarrow> jsnum list \<Rightarrow> real \<Rightarrow> nat \<Rightarrow> (string \<times> int) option \<Rightarrow> kg_db \<Rightarrow> kg_finding list" where
  "findSimilar env v threshold limit entity db =
     take limit (sort_key (\<lambda>f. - similarity_to env v f)
       (filter (\<lambda>f. kf_status f = FindingActive \<and> kf_embedding f \<noteq> None \<and> threshold \<le> similarity_to env v f \<and>
                    (case entity of
                       None \<Rightarrow> True
                     | Some (ty, i) \<Rightarrow> list_ex (\<lambda>ed. kd_finding ed = kf_id f \<and> kd_entityType ed = ty \<and> kd_entityId ed = i) (kb_edges db)))
         (kb_findings db)))"

definition mergeFinding :: "kg_env \<Rightarrow> int \<Rightarrow> real \<Rightarrow> evidence list \<Rightarrow> unit kg" where
  "mergeFinding env i confidence evs =
     statement env (\<lambda>db. Inr ((), map_finding (\<lambda>r. kf_id r = i)
        (\<lambda>r. r\<lparr>kf_confidence := max (kf_confidence r) confidence, kf_evidence := kf_evidence r @ evs,
               kf_iteration := kf_iteration r + 1\<rparr>) db))"

definition archive_finding :: "kg_env \<Rightarrow> int \<Rightarrow> unit kg" where
  "archive_finding env i = statement env (\<lambda>db. Inr ((), map_finding (\<lambda>r. kf_id r = i) (\<lambda>r. r\<lparr>kf_status := FindingArchived\<rparr>) db))"

definition is_expired :: "int \<Rightarrow> kg_finding \<Rightarrow> bool" where
  "is_expired now r = (kf_status r = FindingActive \<and> (case kf_expiresAt r of Some t \<Rightarrow> t \<le> now | None \<Rightarrow> False))"

definition expireOld :: "kg_env \<Rightarrow> nat kg" where
  "expireOld env =
     (\<lambda>s. statement env (\<lambda>db. Inr (length (filter (is_expired (kz_now env (ks_step s))) (kb_findings db)),
            map_finding (is_expired (kz_now env (ks_step s))) (\<lambda>r. r\<lparr>kf_status := FindingArchived\<rparr>) db)) s)"

definition expireAndClean :: "kg_env \<Rightarrow> nat throws \<Rightarrow> (nat \<times> nat) kg" where
  "expireAndClean env cleanOrphans =
     kg_bind (expireOld env) (\<lambda>expired.
       case cleanOrphans of Inl e \<Rightarrow> kg_throw e | Inr orphans \<Rightarrow> kg_return (expired, orphans))"

section \<open>The finding store\<close>

text \<open>The input: a finding without its id, hash and embedding, and edges without their finding.\<close>

record store_input =
  sf_finding :: kg_finding
  sf_edges :: "kg_edge list"

definition EMBEDDING_DIMENSIONS :: nat where
  "EMBEDDING_DIMENSIONS = 2048"

definition dimension_error :: "string \<Rightarrow> nat \<Rightarrow> exn" where
  "dimension_error embedder n =
     \<lparr>ename = ''InvalidEmbeddingDimensionError'',
      emsg = ''Invalid embedding dimension from '' @ embedder @ '' for storeFinding: expected '' @ show_nat EMBEDDING_DIMENSIONS @
        '', got '' @ show_nat n\<rparr>"

definition js_is_finite :: "jsnum \<Rightarrow> bool" where
  "js_is_finite n = (case n of Fin x \<Rightarrow> True | _ \<Rightarrow> False)"

definition assertEmbeddingDimension :: "string \<Rightarrow> jsnum list option \<Rightarrow> jsnum list option throws" where
  "assertEmbeddingDimension embedder v =
     (case v of
        None \<Rightarrow> Inr None
      | Some xs \<Rightarrow>
          if length xs \<noteq> EMBEDDING_DIMENSIONS \<or> list_ex (\<lambda>x. \<not> js_is_finite x) xs then Inl (dimension_error embedder (length xs))
          else Inr (Some xs))"

definition linkCycleEmission :: "kg_env \<Rightarrow> kg_finding \<Rightarrow> int \<Rightarrow> bool \<Rightarrow> unit kg" where
  "linkCycleEmission env f i isDedupHit =
     kg_bind (linkFindingToCycle env
                \<lparr>kc_cycle = kf_cycle f, kc_finding = i, kc_iteration = kf_iteration f, kc_dedupHit = isDedupHit\<rparr>)
       (\<lambda>linked. if linked then incrementCycleFindings env (kf_cycle f) else kg_return ())"

definition type_text :: "finding_type \<Rightarrow> string" where
  "type_text t = (case find (\<lambda>p. snd p = t) finding_types of Some (s, _) \<Rightarrow> s | None \<Rightarrow> [])"

definition anchor_of :: "kg_edge list \<Rightarrow> kg_edge option" where
  "anchor_of edges = (case edges of ed # _ \<Rightarrow> if kd_entityId ed \<noteq> 0 then Some ed else None | [] \<Rightarrow> None)"

definition dedup_key :: "int \<Rightarrow> kg_finding \<Rightarrow> kg_edge list \<Rightarrow> string" where
  "dedup_key now f edges =
     (case anchor_of edges of
        Some ed \<Rightarrow> kf_cortex f @ '':'' @ kd_entityType ed @ '':'' @ show_int (kd_entityId ed) @ '':'' @ type_text (kf_type f)
      | None \<Rightarrow> kf_cortex f @ '':'' @ show_int (kf_cycle f) @ '':'' @ show_int now @ '':'' @ take 64 (kf_title f))"

definition dedup_hash :: "kg_env \<Rightarrow> string \<Rightarrow> string" where
  "dedup_hash env key = take 32 (kz_sha env key)"

text \<open>
  \<open>findSimilar\<close> is a raw \<open>SELECT *\<close>, and the driver keys its rows by the columns of the table; the
  transformer only casts them. A property of such a row is there when a column has its name, and the
  id is read as a string, which is never \<open>===\<close> to a bigint.
\<close>

definition RAW_FINDING_COLUMNS :: "string list" where
  "RAW_FINDING_COLUMNS =
     [''id'', ''research_cycle_id'', ''cortex'', ''finding_type'', ''status'', ''urgency'', ''title'', ''summary'', ''evidence'',
      ''reasoning'', ''confidence'', ''impact_score'', ''bus_context'', ''reflexion_notes'', ''iteration'', ''dedup_hash'',
      ''embedding'', ''expires_at'', ''created_at'', ''updated_at'', ''similarity'']"

definition raw_prop :: "string \<Rightarrow> 'a \<Rightarrow> 'a option" where
  "raw_prop name v = (if name \<in> set RAW_FINDING_COLUMNS then Some v else None)"

text \<open>The near duplicate of the same type on the same entity, if any.\<close>

definition near_duplicate :: "kg_env \<Rightarrow> jsnum list option \<Rightarrow> store_input \<Rightarrow> kg_finding option kg" where
  "near_duplicate env v input =
     (case (v, anchor_of (sf_edges input)) of
        (Some vec, Some ed) \<Rightarrow>
          kg_bind (kg_query env (findSimilar env vec (92 / 100) 3 (Some (kd_entityType ed, kd_entityId ed))))
            (\<lambda>near. kg_return (find (\<lambda>f. raw_prop ''findingType'' (kf_type f) = Some (kf_type (sf_finding input))) near))
      | _ \<Rightarrow> kg_return None)"

definition merge_into :: "kg_env \<Rightarrow> store_input \<Rightarrow> kg_finding \<Rightarrow> unit kg" where
  "merge_into env input same =
     transaction env
       (kg_bind (mergeFinding env (kf_id same) (max (kf_confidence same) (kf_confidence (sf_finding input)))
                   (kf_evidence (sf_finding input)))
          (\<lambda>_. linkCycleEmission env (sf_finding input) (kf_id same) True))"

definition upsert_work :: "kg_env \<Rightarrow> jsnum list option \<Rightarrow> string \<Rightarrow> store_input \<Rightarrow> (kg_finding \<times> bool) kg" where
  "upsert_work env v hash input =
     kg_bind (upsertFindingByDedupHash env ((sf_finding input)\<lparr>kf_embedding := v, kf_hash := Some hash\<rparr>))
       (\<lambda>(f, inserted).
          if \<not> inserted
          then kg_bind (linkCycleEmission env (sf_finding input) (kf_id f) True) (\<lambda>_. kg_return (f, inserted))
          else
            kg_bind (createEdges env (map (\<lambda>ed. ed\<lparr>kd_finding := kf_id f\<rparr>) (filter (\<lambda>ed. kd_entityId ed \<noteq> 0) (sf_edges input))))
              (\<lambda>_. kg_bind (linkCycleEmission env (sf_finding input) (kf_id f) False) (\<lambda>_. kg_return (f, inserted))))"

definition cross_edge :: "kg_env \<Rightarrow> jsnum list \<Rightarrow> kg_finding \<Rightarrow> kg_finding \<Rightarrow> kg_edge" where
  "cross_edge env v f r =
     \<lparr>kd_finding = kf_id f, kd_entityType = ''finding'', kd_entityId = kf_id r,
      kd_relation = (if 85 / 100 < similarity_to env v r then Supports else SimilarTo), kd_weight = similarity_to env v r,
      kd_context = Some (JObj [(''similarity'', JNum (similarity_to env v r)), (''relatedTitle'', JStr (kf_title r))])\<rparr>"

text \<open>
  The cross links; an error is logged and dropped. The test that leaves out the finding itself compares
  the string id of a raw row with a bigint, and is always true.
\<close>

definition cross_link :: "kg_env \<Rightarrow> jsnum list option \<Rightarrow> kg_finding \<Rightarrow> unit kg" where
  "cross_link env v f =
     (case v of
        None \<Rightarrow> kg_return ()
      | Some vec \<Rightarrow>
          kg_try
            (kg_bind (kg_query env (findSimilar env vec (7 / 10) 5 None)) (\<lambda>related.
               createEdges env (map (cross_edge env vec f)
                 (take 3 (filter (\<lambda>r. similarity_to env vec r < 92 / 100) related)))))
            (\<lambda>_. kg_return ()))"

text \<open>The work of \<open>storeFinding\<close> when no near duplicate was found.\<close>

definition store_new :: "kg_env \<Rightarrow> jsnum list option \<Rightarrow> store_input \<Rightarrow> kg_finding kg" where
  "store_new env v input =
     (\<lambda>s. let hash = dedup_hash env (dedup_key (kz_now env (ks_step s)) (sf_finding input) (sf_edges input)) in
       kg_bind (transaction env (upsert_work env v hash input)) (\<lambda>(f, inserted).
         if inserted then kg_bind (cross_link env v f) (\<lambda>_. kg_return f) else kg_return f) s)"

text \<open>The callbacks on a stored finding touch no table here; their errors are logged and dropped.\<close>

definition storeFinding :: "kg_env \<Rightarrow> store_input \<Rightarrow> kg_finding kg" where
  "storeFinding env input =
     (case kz_embed env (kf_title (sf_finding input) @ [CHR 0x0A] @ kf_summary (sf_finding input)) of
        Inl e \<Rightarrow> kg_throw e
      | Inr raw \<Rightarrow>
          (case assertEmbeddingDimension (kz_embedder env) raw of
             Inl e \<Rightarrow> kg_throw e
           | Inr v \<Rightarrow>
               kg_bind (near_duplicate env v input) (\<lambda>near.
                 case near of
                   Some same \<Rightarrow> kg_bind (merge_into env input same) (\<lambda>_. kg_return same)
                 | None \<Rightarrow> store_new env v input)))"

text \<open>A raw row has no \<open>findingType\<close>, so the query for near duplicates is made and its rows are never used.\<close>

lemma near_duplicate_never:
  "near_duplicate env v input s = (Inr x, s') \<Longrightarrow> x = None"
  by (auto simp: near_duplicate_def kg_bind_def kg_return_def raw_prop_def RAW_FINDING_COLUMNS_def find_None_iff
      split: option.splits prod.splits sum.splits)

section \<open>The persister\<close>

record persist_ctx =
  tv_cycle :: int
  tv_iteration :: nat
  tv_firstCortex :: "string option"
  tv_override :: "(string \<times> int) option"

definition findingCortex :: "finding \<Rightarrow> string option \<Rightarrow> string" where
  "findingCortex f first =
     (case f_sourceCortex f of
        Some c \<Rightarrow> if c \<noteq> [] then c else (case first of Some d \<Rightarrow> if d \<noteq> [] then d else ''unknown'' | None \<Rightarrow> ''unknown'')
      | None \<Rightarrow> (case first of Some d \<Rightarrow> if d \<noteq> [] then d else ''unknown'' | None \<Rightarrow> ''unknown''))"

definition ttl_days :: "real \<Rightarrow> int" where
  "ttl_days confidence =
     (if confidence < 5 / 10 then 14 else if confidence < 7 / 10 then 30 else if confidence < 85 / 100 then 60 else 90)"

definition computeTTL :: "int \<Rightarrow> real \<Rightarrow> int" where
  "computeTTL now confidence = now + ttl_days confidence * 24 * 60 * 60 * 1000"

definition to_edge :: "edge \<Rightarrow> kg_edge throws" where
  "to_edge ed =
     (case js_bigint (e_entityId ed) of
        Inl e \<Rightarrow> Inl e
      | Inr i \<Rightarrow>
          Inr \<lparr>kd_finding = 0, kd_entityType = e_entityType ed, kd_entityId = i, kd_relation = e_relation ed, kd_weight = 1,
               kd_context = e_context ed\<rparr>)"

fun to_edges :: "edge list \<Rightarrow> kg_edge list throws" where
  "to_edges [] = Inr []"
| "to_edges (ed # eds) =
     (case to_edge ed of
        Inl e \<Rightarrow> Inl e
      | Inr x \<Rightarrow> (case to_edges eds of Inl e \<Rightarrow> Inl e | Inr xs \<Rightarrow> Inr (x # xs)))"

definition persist_edges :: "persist_ctx \<Rightarrow> finding \<Rightarrow> kg_edge list throws" where
  "persist_edges ctx f =
     (case tv_override ctx of
        Some (ty, i) \<Rightarrow>
          Inr [\<lparr>kd_finding = 0, kd_entityType = ty, kd_entityId = i, kd_relation = About, kd_weight = 1, kd_context = None\<rparr>]
      | None \<Rightarrow> to_edges (f_edges f))"

definition persist_row :: "persist_ctx \<Rightarrow> int \<Rightarrow> finding \<Rightarrow> kg_finding" where
  "persist_row ctx now f =
     \<lparr>kf_id = 0, kf_cycle = tv_cycle ctx, kf_cortex = findingCortex f (tv_firstCortex ctx), kf_type = f_type f,
      kf_status = FindingActive, kf_urgency = f_urgency f, kf_title = f_title f, kf_summary = f_summary f,
      kf_evidence = f_evidence f, kf_confidence = f_confidence f, kf_impact = f_impactScore f, kf_extensions = f_extensions f,
      kf_iteration = tv_iteration ctx, kf_hash = None, kf_embedding = None, kf_expiresAt = Some (computeTTL now (f_confidence f))\<rparr>"

definition persist_one :: "kg_env \<Rightarrow> persist_ctx \<Rightarrow> finding \<Rightarrow> kg_finding kg" where
  "persist_one env ctx f =
     (\<lambda>s. case persist_edges ctx f of
        Inl e \<Rightarrow> kg_throw e s
      | Inr edges \<Rightarrow> storeFinding env \<lparr>sf_finding = persist_row ctx (kz_now env (ks_step s)) f, sf_edges = edges\<rparr> s)"

record persist_result =
  tw_stored :: nat
  tw_failures :: "(string \<times> string) list"

fun persist_all :: "kg_env \<Rightarrow> persist_ctx \<Rightarrow> finding list \<Rightarrow> persist_result \<Rightarrow> kg_state \<Rightarrow> persist_result \<times> kg_state" where
  "persist_all env ctx [] acc s = (acc, s)"
| "persist_all env ctx (f # fs) acc s =
     (case persist_one env ctx f s of
        (Inr _, s') \<Rightarrow> persist_all env ctx fs (acc\<lparr>tw_stored := tw_stored acc + 1\<rparr>) s'
      | (Inl e, s') \<Rightarrow> persist_all env ctx fs (acc\<lparr>tw_failures := tw_failures acc @ [(f_title f, emsg e)]\<rparr>) s')"

definition persist :: "kg_env \<Rightarrow> persist_ctx \<Rightarrow> finding list \<Rightarrow> kg_state \<Rightarrow> persist_result \<times> kg_state" where
  "persist env ctx findings s = persist_all env ctx findings \<lparr>tw_stored = 0, tw_failures = []\<rparr> s"

section \<open>The invariant of the tables\<close>

definition link_keys :: "kg_db \<Rightarrow> (int \<times> int) list" where
  "link_keys db = map (\<lambda>l. (kc_cycle l, kc_finding l)) (kb_links db)"

definition links_of :: "int \<Rightarrow> kg_db \<Rightarrow> nat" where
  "links_of i db = length (filter (\<lambda>l. kc_cycle l = i) (kb_links db))"

definition hashes_of :: "kg_db \<Rightarrow> string list" where
  "hashes_of db = List.map_filter kf_hash (kb_findings db)"

definition keys_ok :: "kg_db \<Rightarrow> bool" where
  "keys_ok db =
     (distinct (map ky_id (kb_cycles db)) \<and> list_all (\<lambda>c. ky_id c < kb_nextCycle db) (kb_cycles db) \<and>
      distinct (map kf_id (kb_findings db)) \<and> list_all (\<lambda>f. kf_id f < kb_nextFinding db) (kb_findings db) \<and>
      distinct (hashes_of db) \<and> distinct (link_keys db))"

definition refs_ok :: "kg_db \<Rightarrow> bool" where
  "refs_ok db =
     (list_all (\<lambda>l. kg_has_cycle (kc_cycle l) db \<and> kg_has_finding (kc_finding l) db) (kb_links db) \<and>
      list_all (\<lambda>ed. kg_has_finding (kd_finding ed) db) (kb_edges db) \<and>
      list_all (\<lambda>f. kg_has_cycle (kf_cycle f) db) (kb_findings db))"

definition counts_ok :: "kg_db \<Rightarrow> bool" where
  "counts_ok db = list_all (\<lambda>c. ky_findingsCount c = links_of (ky_id c) db) (kb_cycles db)"

definition kg_ok :: "kg_db \<Rightarrow> bool" where
  "kg_ok db = (keys_ok db \<and> refs_ok db \<and> counts_ok db)"

text \<open>What a computation keeps when it succeeds, what it leaves untouched when it fails, and both.\<close>

definition kg_keeps :: "(kg_db \<Rightarrow> bool) \<Rightarrow> 'a kg \<Rightarrow> ('a \<Rightarrow> kg_db \<Rightarrow> bool) \<Rightarrow> bool" where
  "kg_keeps P m Q = (\<forall>s r s'. P (ks_db s) \<longrightarrow> m s = (Inr r, s') \<longrightarrow> Q r (ks_db s'))"

definition atomic :: "'a kg \<Rightarrow> bool" where
  "atomic m = (\<forall>s e s'. m s = (Inl e, s') \<longrightarrow> ks_db s' = ks_db s)"

lemma bind_Inr_kg: "kg_bind m f s = (Inr y, s') \<longleftrightarrow> (\<exists>x s1. m s = (Inr x, s1) \<and> f x s1 = (Inr y, s'))"
  by (auto simp: kg_bind_def split: prod.splits sum.splits)

lemma bind_Inl_kg: "kg_bind m f s = (Inl e, s') \<longleftrightarrow> m s = (Inl e, s') \<or> (\<exists>x s1. m s = (Inr x, s1) \<and> f x s1 = (Inl e, s'))"
  by (auto simp: kg_bind_def split: prod.splits sum.splits)

lemma statement_Inr:
  "statement env f s = (Inr x, s') \<longleftrightarrow>
   (\<exists>db. kz_fails env (ks_step s) = None \<and> f (ks_db s) = Inr (x, db) \<and> s' = \<lparr>ks_db = db, ks_step = ks_step s + 1\<rparr>)"
  by (cases s) (auto simp: statement_def Let_def split: option.splits sum.splits)

lemma statement_Inl: "statement env f s = (Inl e, s') \<Longrightarrow> ks_db s' = ks_db s"
  by (auto simp: statement_def Let_def split: option.splits sum.splits)

lemma query_Inr: "kg_query env f s = (Inr x, s') \<Longrightarrow> x = f (ks_db s) \<and> ks_db s' = ks_db s"
  by (auto simp: kg_query_def statement_Inr)

lemma atomic_statement [intro]: "atomic (statement env f)" "atomic (kg_query env g)"
  unfolding atomic_def kg_query_def using statement_Inl by blast+

lemma atomic_return [intro]: "atomic (kg_return x)" "atomic (kg_throw e)"
  by (simp_all add: atomic_def kg_return_def kg_throw_def)

lemma atomic_transaction [intro]: "atomic (transaction env m)"
  unfolding atomic_def by (auto simp: transaction_def split: prod.splits sum.splits)

lemma atomic_createEdges [intro]: "atomic (createEdges env edges)"
  unfolding createEdges_def by auto

text \<open>A computation that cannot fail once it has changed the tables.\<close>

lemma atomic_bind_query: "(\<And>s x s'. m s = (Inr x, s') \<Longrightarrow> ks_db s' = ks_db s) \<Longrightarrow> atomic m \<Longrightarrow> (\<And>x. atomic (f x)) \<Longrightarrow> atomic (kg_bind m f)"
  unfolding atomic_def bind_Inl_kg by metis

lemma atomic_bind_return: "atomic m \<Longrightarrow> atomic (kg_bind m (\<lambda>_. kg_return x))"
  by (auto simp: atomic_def bind_Inl_kg kg_return_def)

lemma transaction_Inr:
  "transaction env m s = (Inr x, s') \<Longrightarrow> \<exists>s1. m s = (Inr x, s1) \<and> ks_db s' = ks_db s1"
  by (auto simp: transaction_def bind_Inr_kg kg_return_def dest: query_Inr split: prod.splits sum.splits)

lemma keeps_statement: "(\<And>db x db'. P db \<Longrightarrow> f db = Inr (x, db') \<Longrightarrow> Q x db') \<Longrightarrow> kg_keeps P (statement env f) Q"
  unfolding kg_keeps_def statement_Inr by auto

lemma keeps_bind: "kg_keeps P m Q \<Longrightarrow> (\<And>x. kg_keeps (Q x) (f x) R) \<Longrightarrow> kg_keeps P (kg_bind m f) R"
  unfolding kg_keeps_def bind_Inr_kg by metis

lemma keeps_return: "(\<And>db. P db \<Longrightarrow> Q x db) \<Longrightarrow> kg_keeps P (kg_return x) Q"
  by (simp add: kg_keeps_def kg_return_def)

lemma keeps_throw: "kg_keeps P (kg_throw e) Q"
  by (simp add: kg_keeps_def kg_throw_def)

lemma keeps_query: "kg_keeps P (kg_query env f) (\<lambda>x db. x = f db \<and> P db)"
  unfolding kg_query_def by (rule keeps_statement) simp

lemma keeps_transaction: "kg_keeps P m Q \<Longrightarrow> kg_keeps P (transaction env m) Q"
  unfolding kg_keeps_def using transaction_Inr by metis

lemma keeps_strengthen: "kg_keeps P m Q \<Longrightarrow> (\<And>db. P' db \<Longrightarrow> P db) \<Longrightarrow> (\<And>x db. Q x db \<Longrightarrow> Q' x db) \<Longrightarrow> kg_keeps P' m Q'"
  unfolding kg_keeps_def by blast

section \<open>The operations keep the invariant\<close>

lemma map_cycle_fields [simp]:
  "kb_findings (map_cycle i f db) = kb_findings db" "kb_edges (map_cycle i f db) = kb_edges db"
  "kb_links (map_cycle i f db) = kb_links db" "kb_nextCycle (map_cycle i f db) = kb_nextCycle db"
  "kb_nextFinding (map_cycle i f db) = kb_nextFinding db"
  by (simp_all add: map_cycle_def)

lemma map_finding_fields [simp]:
  "kb_cycles (map_finding P f db) = kb_cycles db" "kb_edges (map_finding P f db) = kb_edges db"
  "kb_links (map_finding P f db) = kb_links db" "kb_nextCycle (map_finding P f db) = kb_nextCycle db"
  "kb_nextFinding (map_finding P f db) = kb_nextFinding db"
  by (simp_all add: map_finding_def)

lemma map_keys:
  "(\<And>x. g (f x) = g x) \<Longrightarrow> map (g \<circ> (\<lambda>x. if P x then f x else x)) xs = map g xs"
  by (induction xs) simp_all

lemma map_filter_keys:
  "(\<And>x. g (f x) = g x) \<Longrightarrow> List.map_filter g (map (\<lambda>x. if P x then f x else x) xs) = List.map_filter g xs"
  by (induction xs) (simp_all add: List.map_filter_simps split: option.split)

lemma map_cycle_ids: "(\<And>c. ky_id (f c) = ky_id c) \<Longrightarrow> map ky_id (kb_cycles (map_cycle i f db)) = map ky_id (kb_cycles db)"
  using map_keys [of ky_id f "\<lambda>c. ky_id c = i"] by (simp add: map_cycle_def)

lemma map_finding_ids:
  "(\<And>r. kf_id (f r) = kf_id r) \<Longrightarrow> map kf_id (kb_findings (map_finding P f db)) = map kf_id (kb_findings db)"
  "(\<And>r. kf_hash (f r) = kf_hash r) \<Longrightarrow> hashes_of (map_finding P f db) = hashes_of db"
  "(\<And>r. kf_cycle (f r) = kf_cycle r) \<Longrightarrow> map kf_cycle (kb_findings (map_finding P f db)) = map kf_cycle (kb_findings db)"
  using map_keys [of kf_id f P] map_keys [of kf_cycle f P] map_filter_keys [of kf_hash f P]
  by (simp_all add: map_finding_def hashes_of_def)

lemma list_all_set: "list_all (\<lambda>x. P (g x)) xs = (\<forall>y \<in> set (map g xs). P y)"
  by (simp add: list_all_iff)

lemma map_cycle_ok:
  assumes "\<And>c. ky_id (f c) = ky_id c"
  shows "keys_ok (map_cycle i f db) = keys_ok db" "refs_ok (map_cycle i f db) = refs_ok db"
proof -
  note ids = map_cycle_ids [of f i db, OF assms]
  show "keys_ok (map_cycle i f db) = keys_ok db"
    by (simp add: keys_ok_def ids hashes_of_def link_keys_def list_all_set [where g = ky_id and P = "\<lambda>y. y < kb_nextCycle db"] del: set_map)
  show "refs_ok (map_cycle i f db) = refs_ok db" by (simp add: refs_ok_def kg_has_cycle_def kg_has_finding_def ids del: set_map)
qed

lemma map_finding_ok:
  assumes "\<And>r. kf_id (f r) = kf_id r" and "\<And>r. kf_hash (f r) = kf_hash r" and "\<And>r. kf_cycle (f r) = kf_cycle r"
  shows "keys_ok (map_finding P f db) = keys_ok db" "refs_ok (map_finding P f db) = refs_ok db" "counts_ok (map_finding P f db) = counts_ok db"
proof -
  note ids = map_finding_ids(1) [of f P db, OF assms(1)] map_finding_ids(2) [of f P db, OF assms(2)] map_finding_ids(3) [of f P db, OF assms(3)]
  show "keys_ok (map_finding P f db) = keys_ok db"
    by (simp add: keys_ok_def ids link_keys_def list_all_set [where g = kf_id and P = "\<lambda>y. y < kb_nextFinding db"] del: set_map)
  show "refs_ok (map_finding P f db) = refs_ok db"
    by (simp add: refs_ok_def kg_has_cycle_def kg_has_finding_def ids list_all_set [where g = kf_cycle and P = "\<lambda>y. y \<in> set (map ky_id (kb_cycles db))"] del: set_map)
  show "counts_ok (map_finding P f db) = counts_ok db" by (simp add: counts_ok_def links_of_def)
qed

lemma map_finding_kg_ok:
  "(\<And>r. kf_id (f r) = kf_id r) \<Longrightarrow> (\<And>r. kf_hash (f r) = kf_hash r) \<Longrightarrow> (\<And>r. kf_cycle (f r) = kf_cycle r) \<Longrightarrow>
   kg_ok (map_finding P f db) = kg_ok db"
  by (simp add: kg_ok_def map_finding_ok)

text \<open>All counts are exact, except that the cycle \<open>i\<close> has one link it has not counted.\<close>

definition uncounted :: "int \<Rightarrow> kg_db \<Rightarrow> bool" where
  "uncounted i db =
     (keys_ok db \<and> refs_ok db \<and>
      list_all (\<lambda>c. ky_findingsCount c + (if ky_id c = i then 1 else 0) = links_of (ky_id c) db) (kb_cycles db))"

lemma increment_ok: "kg_keeps (uncounted i) (incrementCycleFindings env i) (\<lambda>_. kg_ok)"
  unfolding incrementCycleFindings_def
proof (rule keeps_statement)
  fix db :: kg_db and x :: unit and db' :: kg_db
  let ?f = "\<lambda>c. c\<lparr>ky_findingsCount := ky_findingsCount c + 1\<rparr>"
  assume u: "uncounted i db" and "Inr ((), map_cycle i ?f db) = Inr (x, db')"
  then have db': "db' = map_cycle i ?f db" by simp
  have "counts_ok db'" using u unfolding db' counts_ok_def uncounted_def
    by (auto simp: list_all_iff links_of_def map_cycle_def)
  then show "kg_ok db'" using u unfolding db' kg_ok_def uncounted_def by (simp add: map_cycle_ok)
qed

lemma link_ok:
  "kg_keeps kg_ok (linkFindingToCycle env l) (\<lambda>linked db. (if linked then uncounted (kc_cycle l) db else kg_ok db) \<and>
     (kc_cycle l, kc_finding l) \<in> set (link_keys db))"
  unfolding linkFindingToCycle_def
proof (rule keeps_statement)
  fix db :: kg_db and x db'
  assume ok: "kg_ok db"
    and step: "(if \<not> kg_has_cycle (kc_cycle l) db \<or> \<not> kg_has_finding (kc_finding l) db then Inl foreign_key_violation
      else if (kc_cycle l, kc_finding l) \<in> set (map (\<lambda>k. (kc_cycle k, kc_finding k)) (kb_links db)) then Inr (False, db)
      else Inr (True, db\<lparr>kb_links := kb_links db @ [l]\<rparr>)) = Inr (x, db')"
  have refs: "kg_has_cycle (kc_cycle l) db" "kg_has_finding (kc_finding l) db" using step by (auto split: if_splits)
  show "(if x then uncounted (kc_cycle l) db' else kg_ok db') \<and> (kc_cycle l, kc_finding l) \<in> set (link_keys db')"
  proof (cases "(kc_cycle l, kc_finding l) \<in> set (link_keys db)")
    case True
    then show ?thesis using step ok refs by (auto simp: link_keys_def split: if_splits)
  next
    case False
    then have x: "x" and db': "db' = db\<lparr>kb_links := kb_links db @ [l]\<rparr>" using step refs by (auto simp: link_keys_def split: if_splits)
    have "keys_ok db'" using ok False by (simp add: kg_ok_def keys_ok_def db' link_keys_def hashes_of_def)
    moreover have "refs_ok db'" using ok refs by (simp add: kg_ok_def refs_ok_def db' kg_has_cycle_def kg_has_finding_def)
    moreover have "list_all (\<lambda>c. ky_findingsCount c + (if ky_id c = kc_cycle l then 1 else 0) = links_of (ky_id c) db') (kb_cycles db')"
      using ok by (auto simp: kg_ok_def counts_ok_def db' links_of_def list_all_iff)
    ultimately show ?thesis using x by (simp add: uncounted_def) (simp add: db' link_keys_def)
  qed
qed

lemma linkCycleEmission_ok:
  "kg_keeps kg_ok (linkCycleEmission env f i d) (\<lambda>_ db. kg_ok db \<and> (kf_cycle f, i) \<in> set (link_keys db))"
proof -
  let ?P = "\<lambda>db. (kf_cycle f, i) \<in> set (link_keys db)"
  have inc: "kg_keeps (\<lambda>db. uncounted (kf_cycle f) db \<and> ?P db) (incrementCycleFindings env (kf_cycle f)) (\<lambda>_ db. kg_ok db \<and> ?P db)"
    using increment_ok [of "kf_cycle f" env] unfolding kg_keeps_def
    by (fastforce simp: incrementCycleFindings_def statement_Inr link_keys_def)
  have link: "kg_keeps kg_ok (linkFindingToCycle env \<lparr>kc_cycle = kf_cycle f, kc_finding = i, kc_iteration = kf_iteration f, kc_dedupHit = d\<rparr>)
    (\<lambda>linked db. (if linked then uncounted (kf_cycle f) db else kg_ok db) \<and> ?P db)"
    using link_ok [of env "\<lparr>kc_cycle = kf_cycle f, kc_finding = i, kc_iteration = kf_iteration f, kc_dedupHit = d\<rparr>"]
    by (simp only: kg_link.select_convs)
  have "kg_keeps (\<lambda>db. (if linked then uncounted (kf_cycle f) db else kg_ok db) \<and> ?P db)
      (if linked then incrementCycleFindings env (kf_cycle f) else kg_return ()) (\<lambda>_ db. kg_ok db \<and> ?P db)" for linked
    using inc by (cases linked) (auto intro: keeps_return)
  then show ?thesis unfolding linkCycleEmission_def by (rule keeps_bind [OF link])
qed

lemma createEdges_ok: "kg_keeps kg_ok (createEdges env edges) (\<lambda>_. kg_ok)"
proof (cases "edges = []")
  case False
  show ?thesis unfolding createEdges_def using False
    by (auto intro!: keeps_statement simp: kg_ok_def keys_ok_def refs_ok_def counts_ok_def link_keys_def links_of_def hashes_of_def
        kg_has_cycle_def kg_has_finding_def list_all_iff split: if_splits)
qed (simp add: createEdges_def keeps_return)

lemma insert_finding_ok:
  assumes ok: "kg_ok db" and ins: "insert_finding v db = Inr (Some r, db')"
  shows "kg_ok db' \<and> kg_has_finding (kf_id r) db'"
proof -
  have c: "kg_has_cycle (kf_cycle v) db" and h: "kf_hash v \<noteq> None \<longrightarrow> kf_hash v \<notin> set (map kf_hash (kb_findings db))"
    and r: "r = v\<lparr>kf_id := kb_nextFinding db\<rparr>"
    and db': "db' = db\<lparr>kb_findings := kb_findings db @ [r], kb_nextFinding := kb_nextFinding db + 1\<rparr>"
    using ins by (auto simp: insert_finding_def Let_def split: if_splits)
  have hashes: "hashes_of db' = hashes_of db @ (case kf_hash v of Some x \<Rightarrow> [x] | None \<Rightarrow> [])"
    by (simp add: hashes_of_def db' r List.map_filter_def split: option.split)
  have fresh: "x \<in> set (hashes_of db) \<Longrightarrow> Some x \<in> set (map kf_hash (kb_findings db))" for x
    by (auto simp: hashes_of_def List.map_filter_def image_iff) (metis option.sel option.collapse)+
  have "distinct (hashes_of db')" unfolding hashes using ok fresh h by (auto simp: kg_ok_def keys_ok_def split: option.split)
  moreover have "kb_nextFinding db \<notin> set (map kf_id (kb_findings db))" using ok by (auto simp: kg_ok_def keys_ok_def list_all_iff)
  ultimately have "keys_ok db'" using ok by (auto simp: kg_ok_def keys_ok_def db' r link_keys_def list_all_iff)
  moreover have "refs_ok db'" using ok c by (auto simp: kg_ok_def refs_ok_def db' r kg_has_cycle_def kg_has_finding_def list_all_iff)
  moreover have "counts_ok db'" using ok by (simp add: kg_ok_def counts_ok_def db' links_of_def)
  moreover have "kg_has_finding (kf_id r) db'" by (simp add: kg_has_finding_def db')
  ultimately show ?thesis by (simp add: kg_ok_def)
qed

lemma upsert_ok: "kg_keeps kg_ok (upsertFindingByDedupHash env v) (\<lambda>_. kg_ok)"
  unfolding upsertFindingByDedupHash_def
proof (rule keeps_bind)
  show "kg_keeps kg_ok (statement env (insert_finding v)) (\<lambda>_. kg_ok)"
  proof (rule keeps_statement)
    fix db x db'
    assume ok: "kg_ok db" and ins: "insert_finding v db = Inr (x, db')"
    show "kg_ok db'"
    proof (cases x)
      case None
      then show ?thesis using ok ins by (auto simp: insert_finding_def Let_def split: if_splits)
    next
      case (Some r)
      then show ?thesis using insert_finding_ok [OF ok] ins by blast
    qed
  qed
  have upd: "kg_keeps kg_ok (statement env (update_by_hash v)) (\<lambda>_. kg_ok)"
    by (rule keeps_statement) (auto simp: update_by_hash_def Let_def map_finding_kg_ok overwrite_finding_def)
  fix inserted :: "kg_finding option"
  show "kg_keeps kg_ok (case inserted of Some r \<Rightarrow> kg_return (r, True)
     | None \<Rightarrow> kg_bind (statement env (update_by_hash v)) (\<lambda>updated. case updated of
         None \<Rightarrow> kg_throw (mk_error ''Failed to upsert research finding by dedup hash'') | Some r \<Rightarrow> kg_return (r, False))) (\<lambda>_. kg_ok)"
    by (cases inserted) (auto intro!: keeps_return keeps_bind [OF upd] keeps_throw split: option.split)
qed

section \<open>Storing a finding\<close>

lemma near_duplicate_ok:
  "near_duplicate env v input s = (Inr x, s') \<Longrightarrow> ks_db s' = ks_db s \<and> (\<forall>f. x = Some f \<longrightarrow> kg_has_finding (kf_id f) (ks_db s))"
proof -
  assume n: "near_duplicate env v input s = (Inr x, s')"
  have in_db: "f \<in> set (findSimilar env w t k e db) \<Longrightarrow> kg_has_finding (kf_id f) db" for f w t k e db
    by (auto simp: findSimilar_def kg_has_finding_def dest!: in_set_takeD)
  have found: "find P fs = Some f \<Longrightarrow> f \<in> set fs" for P and fs :: "kg_finding list" and f
    by (auto simp: find_Some_iff)
  show ?thesis
  proof (cases v)
    case None
    then show ?thesis using n by (simp add: near_duplicate_def kg_return_def)
  next
    case (Some w)
    show ?thesis
    proof (cases "anchor_of (sf_edges input)")
      case None
      then show ?thesis using n Some by (simp add: near_duplicate_def kg_return_def)
    next
      case a: (Some ed)
      obtain fs s1 where q: "kg_query env (findSimilar env w (92 / 100) 3 (Some (kd_entityType ed, kd_entityId ed))) s = (Inr fs, s1)"
        "x = find (\<lambda>f. raw_prop ''findingType'' (kf_type f) = Some (kf_type (sf_finding input))) fs" "s' = s1"
        using n Some a by (auto simp: near_duplicate_def bind_Inr_kg kg_return_def)
      have "kg_has_finding (kf_id f) (ks_db s)" if "x = Some f" for f
        using in_db found [of "\<lambda>f. raw_prop ''findingType'' (kf_type f) = Some (kf_type (sf_finding input))" fs f] q(2) query_Inr [OF q(1)] that by auto
      then show ?thesis using query_Inr [OF q(1)] q(3) by blast
    qed
  qed
qed

lemma atomic_near_duplicate: "atomic (near_duplicate env v input)"
  unfolding near_duplicate_def
  by (auto split: option.split intro!: atomic_bind_query dest: query_Inr)

lemma merge_into_ok: "kg_keeps kg_ok (merge_into env input same) (\<lambda>_ db. kg_ok db \<and> (kf_cycle (sf_finding input), kf_id same) \<in> set (link_keys db))"
  unfolding merge_into_def mergeFinding_def
  by (intro keeps_transaction keeps_bind [OF keeps_statement [where Q = "\<lambda>_. kg_ok"] linkCycleEmission_ok]) (auto simp: map_finding_kg_ok)

lemma upsert_work_ok:
  "kg_keeps kg_ok (upsert_work env v hash input) (\<lambda>(f, _) db. kg_ok db \<and> (kf_cycle (sf_finding input), kf_id f) \<in> set (link_keys db))"
  unfolding upsert_work_def
proof (rule keeps_bind [OF upsert_ok])
  fix x :: "kg_finding \<times> bool"
  let ?Q = "\<lambda>(f, _ :: bool) db. kg_ok db \<and> (kf_cycle (sf_finding input), kf_id f) \<in> set (link_keys db)"
  obtain f inserted where x: "x = (f, inserted)" by (cases x)
  have link: "kg_keeps kg_ok (kg_bind (linkCycleEmission env (sf_finding input) (kf_id f) d) (\<lambda>_. kg_return (f, b))) ?Q" for d b
    by (rule keeps_bind [OF linkCycleEmission_ok]) (simp add: keeps_return)
  show "kg_keeps kg_ok (case x of (f, inserted) \<Rightarrow>
      if \<not> inserted then kg_bind (linkCycleEmission env (sf_finding input) (kf_id f) True) (\<lambda>_. kg_return (f, inserted))
      else kg_bind (createEdges env (map (\<lambda>ed. ed\<lparr>kd_finding := kf_id f\<rparr>) (filter (\<lambda>ed. kd_entityId ed \<noteq> 0) (sf_edges input))))
        (\<lambda>_. kg_bind (linkCycleEmission env (sf_finding input) (kf_id f) False) (\<lambda>_. kg_return (f, inserted)))) ?Q"
  proof (cases inserted)
    case True
    then show ?thesis by (simp add: x) (rule keeps_bind [OF createEdges_ok link])
  next
    case False
    then show ?thesis using link [of True False] by (simp add: x)
  qed
qed

text \<open>Cross links never fail, whatever the statements do.\<close>

lemma cross_link_total: "\<exists>s'. cross_link env v f s = (Inr (), s')"
  by (auto simp: cross_link_def kg_try_def kg_return_def split: option.split prod.split sum.split)

lemma cross_link_ok: "cross_link env v f s = (Inr u, s') \<Longrightarrow> kg_ok (ks_db s) \<Longrightarrow> kg_ok (ks_db s') \<and> link_keys (ks_db s') = link_keys (ks_db s)"
proof -
  assume c: "cross_link env v f s = (Inr u, s')" and ok: "kg_ok (ks_db s)"
  show ?thesis
  proof (cases v)
    case None
    then show ?thesis using c ok by (simp add: cross_link_def kg_return_def)
  next
    case (Some vec)
    let ?m = "kg_bind (kg_query env (findSimilar env vec (7 / 10) 5 None)) (\<lambda>related.
       createEdges env (map (cross_edge env vec f) (take 3 (filter (\<lambda>r. similarity_to env vec r < 92 / 100) related))))"
    have at: "atomic ?m" by (intro atomic_bind_query) (auto dest: query_Inr)
    have links: "link_keys (ks_db s2) = link_keys (ks_db s1)" if "createEdges env es s1 = (Inr x, s2)" for es s1 s2 x
      using that by (auto simp: createEdges_def kg_return_def statement_Inr link_keys_def split: if_splits)
    show ?thesis
    proof (cases "?m s")
      case (Pair r s1)
      show ?thesis
      proof (cases r)
        case (Inl e)
        then show ?thesis using c Some Pair at ok by (auto simp: cross_link_def kg_try_def kg_return_def atomic_def)
      next
        case (Inr x)
        then obtain fs s0 es where q: "kg_query env (findSimilar env vec (7 / 10) 5 None) s = (Inr fs, s0)"
          and e: "createEdges env es s0 = (Inr x, s1)" using Pair by (auto simp: bind_Inr_kg)
        have "s' = s1" using c Some Pair Inr by (simp add: cross_link_def kg_try_def)
        moreover have "kg_ok (ks_db s1)" using createEdges_ok [of env es] query_Inr [OF q] e ok unfolding kg_keeps_def by metis
        ultimately show ?thesis using links [OF e] query_Inr [OF q] by simp
      qed
    qed
  qed
qed

lemma store_new_ok:
  "kg_keeps kg_ok (store_new env v input) (\<lambda>f db. kg_ok db \<and> (kf_cycle (sf_finding input), kf_id f) \<in> set (link_keys db))"
  "atomic (store_new env v input)"
proof -
  define T where "T s = transaction env (upsert_work env v (dedup_hash env (dedup_key (kz_now env (ks_step s)) (sf_finding input) (sf_edges input))) input)"
    for s :: kg_state
  define F where "F = (\<lambda>(f, inserted). if inserted then kg_bind (cross_link env v f) (\<lambda>_. kg_return f) else kg_return (f :: kg_finding))"
  have unfold: "store_new env v input s = kg_bind (T s) F s" for s by (simp add: store_new_def T_def F_def Let_def)
  have total: "\<exists>s'. F x s = (Inr (fst x), s')" for x s
    using cross_link_total [of env v "fst x" s] by (cases x) (auto simp: F_def kg_bind_def kg_return_def)
  have keep: "kg_ok (ks_db s') \<and> link_keys (ks_db s') = link_keys (ks_db s) \<and> r = fst x"
    if "F x s = (Inr r, s')" "kg_ok (ks_db s)" for x s r s'
    using that cross_link_ok by (cases x) (fastforce simp: F_def bind_Inr_kg kg_return_def split: if_splits)
  have work: "kg_keeps kg_ok (T s) (\<lambda>(f, _) db. kg_ok db \<and> (kf_cycle (sf_finding input), kf_id f) \<in> set (link_keys db))" for s
    unfolding T_def by (rule keeps_transaction [OF upsert_work_ok])
  show "kg_keeps kg_ok (store_new env v input) (\<lambda>f db. kg_ok db \<and> (kf_cycle (sf_finding input), kf_id f) \<in> set (link_keys db))"
    unfolding kg_keeps_def unfold bind_Inr_kg
  proof (intro allI impI, elim exE conjE)
    fix s r s' x s1
    assume ok: "kg_ok (ks_db s)" and t: "T s s = (Inr x, s1)" and f: "F x s1 = (Inr r, s')"
    have "kg_ok (ks_db s1) \<and> (kf_cycle (sf_finding input), kf_id (fst x)) \<in> set (link_keys (ks_db s1))"
      using work [of s] ok t unfolding kg_keeps_def by (cases x) fastforce
    then show "kg_ok (ks_db s') \<and> (kf_cycle (sf_finding input), kf_id r) \<in> set (link_keys (ks_db s'))" using keep [OF f] by auto
  qed
  show "atomic (store_new env v input)" unfolding atomic_def unfold bind_Inl_kg
  proof (intro allI impI)
    fix s e s'
    assume a: "T s s = (Inl e, s') \<or> (\<exists>x s1. T s s = (Inr x, s1) \<and> F x s1 = (Inl e, s'))"
    have "F x s1 \<noteq> (Inl e, s')" for x s1 using total [of x s1] by auto
    then have "T s s = (Inl e, s')" using a by blast
    then show "ks_db s' = ks_db s" using atomic_transaction unfolding T_def atomic_def by blast
  qed
qed

lemma storeFinding_cases:
  assumes "storeFinding env input s = (res, s')"
  obtains (refused) e where "res = Inl e" "s' = s"
  | (found) v where "kg_bind (near_duplicate env v input) (\<lambda>near. case near of
        Some same \<Rightarrow> kg_bind (merge_into env input same) (\<lambda>_. kg_return same) | None \<Rightarrow> store_new env v input) s = (res, s')"
      "\<exists>raw. kz_embed env (kf_title (sf_finding input) @ [CHR 0x0A] @ kf_summary (sf_finding input)) = Inr raw \<and> assertEmbeddingDimension (kz_embedder env) raw = Inr v"
proof (cases "kz_embed env (kf_title (sf_finding input) @ [CHR 0x0A] @ kf_summary (sf_finding input))")
  case (Inl e)
  then show ?thesis using assms refused by (auto simp: storeFinding_def kg_throw_def)
next
  case (Inr raw)
  show ?thesis
  proof (cases "assertEmbeddingDimension (kz_embedder env) raw")
    case (Inl e)
    then show ?thesis using assms Inr refused by (auto simp: storeFinding_def kg_throw_def)
  next
    case v: (Inr v)
    then show ?thesis using assms Inr found by (auto simp: storeFinding_def)
  qed
qed

lemma storeFinding_effect:
  assumes "storeFinding env input s = (res, s')" and ok: "kg_ok (ks_db s)"
  shows "kg_ok (ks_db s') \<and>
    (case res of Inl e \<Rightarrow> ks_db s' = ks_db s | Inr f \<Rightarrow> (kf_cycle (sf_finding input), kf_id f) \<in> set (link_keys (ks_db s')))"
  using assms(1)
proof (cases rule: storeFinding_cases)
  case (refused e)
  then show ?thesis using ok by simp
next
  case (found v)
  let ?rest = "\<lambda>near. case near of Some same \<Rightarrow> kg_bind (merge_into env input same) (\<lambda>_. kg_return same) | None \<Rightarrow> store_new env v input"
  have rest: "kg_keeps kg_ok (?rest near) (\<lambda>f db. kg_ok db \<and> (kf_cycle (sf_finding input), kf_id f) \<in> set (link_keys db)) \<and> atomic (?rest near)"
    for near
  proof (cases near)
    case None
    then show ?thesis using store_new_ok by simp
  next
    case (Some same)
    have "kg_keeps kg_ok (kg_bind (merge_into env input same) (\<lambda>_. kg_return same))
        (\<lambda>f db. kg_ok db \<and> (kf_cycle (sf_finding input), kf_id f) \<in> set (link_keys db))"
      by (rule keeps_bind [OF merge_into_ok]) (simp add: keeps_return)
    moreover have "atomic (kg_bind (merge_into env input same) (\<lambda>_. kg_return same))"
      unfolding merge_into_def by (intro atomic_bind_return atomic_transaction)
    ultimately show ?thesis using Some by simp
  qed
  show ?thesis
  proof (cases res)
    case (Inl e)
    have "atomic (kg_bind (near_duplicate env v input) ?rest)"
      using atomic_near_duplicate near_duplicate_ok rest by (intro atomic_bind_query) blast+
    then show ?thesis using found(1) Inl ok unfolding atomic_def by auto
  next
    case (Inr f)
    obtain near s1 where n: "near_duplicate env v input s = (Inr near, s1)" "?rest near s1 = (Inr f, s')"
      using found(1) Inr by (auto simp: bind_Inr_kg)
    have "kg_ok (ks_db s1)" using near_duplicate_ok [OF n(1)] ok by simp
    then have "kg_ok (ks_db s') \<and> (kf_cycle (sf_finding input), kf_id f) \<in> set (link_keys (ks_db s'))"
      using rest [of near] n(2) unfolding kg_keeps_def by (elim conjE allE impE) (assumption | rule conjI)+
    then show ?thesis using Inr by simp
  qed
qed

lemma persist_all_ok:
  "persist_all env ctx fs acc s = (r, s') \<Longrightarrow> kg_ok (ks_db s) \<Longrightarrow>
   kg_ok (ks_db s') \<and> tw_stored r + length (tw_failures r) = tw_stored acc + length (tw_failures acc) + length fs"
proof (induction fs arbitrary: acc s)
  case (Cons f fs)
  obtain x s1 where one: "persist_one env ctx f s = (x, s1)" by fastforce
  have ok: "kg_ok (ks_db s1)"
  proof (cases "persist_edges ctx f")
    case (Inl e)
    then show ?thesis using one Cons.prems by (simp add: persist_one_def kg_throw_def)
  next
    case (Inr edges)
    then have "storeFinding env \<lparr>sf_finding = persist_row ctx (kz_now env (ks_step s)) f, sf_edges = edges\<rparr> s = (x, s1)"
      using one by (simp add: persist_one_def)
    from storeFinding_effect [OF this Cons.prems(2)] show ?thesis by blast
  qed
  show ?case using Cons.IH [OF _ ok] Cons.prems(1) one by (cases x) auto
qed simp

lemma find_overwritten:
  "r \<in> set fs \<Longrightarrow> kf_hash r = Some h \<Longrightarrow> distinct (List.map_filter kf_hash fs) \<Longrightarrow>
   find (\<lambda>x. kf_hash x = Some h) (map (\<lambda>x. if kf_hash x = Some h then overwrite_finding v x else x) fs) = Some (overwrite_finding v r)"
proof (induction fs)
  case (Cons x fs)
  have same: "kf_hash (overwrite_finding v y) = kf_hash y" for y by (simp add: overwrite_finding_def)
  show ?case
  proof (cases "kf_hash x = Some h")
    case True
    have "r = x"
    proof (rule ccontr)
      assume "r \<noteq> x"
      then have "r \<in> set fs" using Cons.prems by simp
      then have "h \<in> set (List.map_filter kf_hash fs)" using Cons.prems(2) by (auto simp: List.map_filter_def intro!: image_eqI [of _ _ r])
      then show False using Cons.prems(3) True by (simp add: List.map_filter_simps)
    qed
    then show ?thesis using True same by simp
  next
    case False
    then show ?thesis using Cons by (auto simp: List.map_filter_simps split: option.splits)
  qed
qed simp

section \<open>Properties\<close>

text \<open>C3: Storing a finding is all or nothing: whatever statement fails, the embedder included, a call that
  throws has changed no table; one that returns has linked the finding to its cycle; and in both cases
  the keys and hashes stay unique, every reference resolves and every cycle counts exactly its links.\<close>

theorem storing_is_all_or_nothing:
  assumes "storeFinding env input s = (res, s')" and "kg_ok (ks_db s)"
  shows "kg_ok (ks_db s') \<and>
    (case res of
       Inl e \<Rightarrow> ks_db s' = ks_db s
     | Inr f \<Rightarrow> (kf_cycle (sf_finding input), kf_id f) \<in> set (link_keys (ks_db s')))"
  by (rule storeFinding_effect [OF assms])

text \<open>C4: A batch is persisted finding by finding: it never throws, every finding is either stored or recorded
  as a failure, and afterwards every cycle still counts exactly the findings linked to it, however many
  statements failed.\<close>

theorem batch_accounts_for_every_finding:
  assumes "persist env ctx fs s = (r, s')" and "kg_ok (ks_db s)"
  shows "tw_stored r + length (tw_failures r) = length fs \<and>
    (\<forall>c \<in> set (kb_cycles (ks_db s')). ky_findingsCount c = card {i. (ky_id c, i) \<in> set (link_keys (ks_db s'))})"
proof -
  have p: "kg_ok (ks_db s') \<and> tw_stored r + length (tw_failures r) = length fs"
    using persist_all_ok [OF assms(1) [unfolded persist_def] assms(2)] by simp
  have "links_of c db = card {i. (c, i) \<in> set (link_keys db)}" if "distinct (link_keys db)" for c db
  proof -
    have "{i. (c, i) \<in> set (link_keys db)} = set (map kc_finding (filter (\<lambda>l. kc_cycle l = c) (kb_links db)))"
      by (auto simp: link_keys_def image_iff)
    moreover have "distinct (map kc_finding (filter (\<lambda>l. kc_cycle l = c) ls))"
      if "distinct (map (\<lambda>l. (kc_cycle l, kc_finding l)) ls)" for ls
      using that by (induction ls) (auto simp: image_iff)
    then have "distinct (map kc_finding (filter (\<lambda>l. kc_cycle l = c) (kb_links db)))" using that by (simp add: link_keys_def)
    from distinct_card [OF this] have "card (set (map kc_finding (filter (\<lambda>l. kc_cycle l = c) (kb_links db)))) = links_of c db"
      by (simp only: links_of_def length_map)
    ultimately show ?thesis by simp
  qed
  then show ?thesis using p by (auto simp: kg_ok_def keys_ok_def counts_ok_def list_all_iff)
qed

text \<open>A finding that hits the hash of an earlier one, of the same cortex, entity and type, keeps that
  one's title and expiry but takes the new summary, evidence and confidence, even a lower one, and is
  active again; when the old expiry has passed, the next maintenance archives it at once.\<close>

theorem hash_hit_keeps_title_and_expiry:
  assumes "storeFinding env input s = (Inr f, s')" and "\<forall>t. kz_embed env t = Inr None" and "kg_ok (ks_db s)"
    and "r \<in> set (kb_findings (ks_db s))" and "kf_hash r = Some (dedup_hash env (dedup_key now (sf_finding input) (sf_edges input)))"
    and "anchor_of (sf_edges input) \<noteq> None"
  shows "kf_id f = kf_id r \<and> kf_title f = kf_title r \<and> kf_expiresAt f = kf_expiresAt r \<and>
    kf_summary f = kf_summary (sf_finding input) \<and> kf_confidence f = kf_confidence (sf_finding input) \<and>
    kf_status f = kf_status (sf_finding input) \<and>
    (kf_status (sf_finding input) = FindingActive \<and> is_expired later (r\<lparr>kf_status := FindingActive\<rparr>) \<longrightarrow> is_expired later f)"
proof -
  let ?key = "dedup_key now (sf_finding input) (sf_edges input)"
  let ?v = "(sf_finding input)\<lparr>kf_embedding := None, kf_hash := Some (dedup_hash env ?key)\<rparr>"
  have key: "dedup_key t (sf_finding input) (sf_edges input) = ?key" for t using assms(6) by (auto simp: dedup_key_def split: option.split)
  have new: "storeFinding env input s = store_new env None input s" using assms(2)
    by (simp add: storeFinding_def assertEmbeddingDimension_def near_duplicate_def kg_return_def kg_bind_def)
  obtain inserted s1 s2 where up: "upsert_work env None (dedup_hash env ?key) input s = (Inr (f, inserted), s1)"
  proof -
    obtain g b s3 where t: "transaction env (upsert_work env None (dedup_hash env ?key) input) s = (Inr (g, b), s3)"
      and "(if b then kg_bind (cross_link env None g) (\<lambda>_. kg_return g) else kg_return g) s3 = (Inr f, s')"
      using assms(1) unfolding new store_new_def key [of "kz_now env (ks_step s)"] Let_def by (auto simp: bind_Inr_kg)
    then have "g = f" by (auto simp: bind_Inr_kg kg_return_def split: if_splits)
    then show thesis using transaction_Inr [OF t] that by blast
  qed
  then have "\<exists>s3. upsertFindingByDedupHash env ?v s = (Inr (f, inserted), s3)"
    unfolding upsert_work_def by (auto simp: bind_Inr_kg kg_return_def split: if_splits)
  then obtain s3 where ups: "upsertFindingByDedupHash env ?v s = (Inr (f, inserted), s3)" by blast
  have hit: "Some (dedup_hash env ?key) \<in> set (map kf_hash (kb_findings (ks_db s)))" using assms(4,5) by (auto simp: image_iff intro!: bexI [of _ r])
  then have ins: "insert_finding ?v (ks_db s) = Inr (x, db) \<Longrightarrow> x = None \<and> db = ks_db s" for x db
    by (auto simp: insert_finding_def Let_def split: if_splits)
  have "\<exists>db. update_by_hash ?v (ks_db s) = Inr (Some f, db)"
    using ups unfolding upsertFindingByDedupHash_def
    by (auto simp: bind_Inr_kg statement_Inr kg_return_def kg_throw_def dest!: ins split: option.splits)
  then have "f = overwrite_finding ?v r"
    using find_overwritten [OF assms(4,5), of ?v] assms(3)
    by (auto simp: update_by_hash_def Let_def map_finding_def kg_ok_def keys_ok_def hashes_of_def)
  then show ?thesis by (auto simp: overwrite_finding_def is_expired_def)
qed

section \<open>Demonstrations\<close>

definition demo_cycle :: kg_cycle where
  "demo_cycle =
     \<lparr>ky_id = 1, ky_trigger = TriggerUser, ky_source = ''q'', ky_userId = None, ky_cortices = [], ky_status = CycleRunning,
      ky_findingsCount = 0, ky_totalCost = None, ky_error = None, ky_completedAt = None\<rparr>"

definition demo_kg :: kg_state where
  "demo_kg =
     \<lparr>ks_db = \<lparr>kb_cycles = [demo_cycle], kb_findings = [], kb_edges = [], kb_links = [], kb_nextCycle = 2, kb_nextFinding = 1\<rparr>,
      ks_step = 0\<rparr>"

definition demo_kg_env :: "(nat \<Rightarrow> exn option) \<Rightarrow> kg_env" where
  "demo_kg_env fails =
     \<lparr>kz_fails = fails, kz_now = (\<lambda>_. 0), kz_embed = (\<lambda>_. Inr None), kz_sha = id, kz_sim = (\<lambda>_ _. 0), kz_embedder = ''EmbedderPort''\<rparr>"

definition demo_research :: "string \<Rightarrow> real \<Rightarrow> finding" where
  "demo_research title confidence =
     \<lparr>f_title = title, f_summary = title, f_type = Insight, f_urgency = Low, f_evidence = [], f_confidence = confidence,
      f_impactScore = 0, f_sourceCortex = Some ''c'', f_extensions = None, f_dedupKey = None,
      f_edges = [\<lparr>e_entityType = ''satellite'', e_entityId = Fin 7, e_relation = About, e_context = None\<rparr>]\<rparr>"

definition demo_ctx :: persist_ctx where
  "demo_ctx = \<lparr>tv_cycle = 1, tv_iteration = 1, tv_firstCortex = None, tv_override = None\<rparr>"

definition demo_input :: "string \<Rightarrow> real \<Rightarrow> store_input" where
  "demo_input title confidence =
     \<lparr>sf_finding = persist_row demo_ctx 0 (demo_research title confidence),
      sf_edges = [\<lparr>kd_finding = 0, kd_entityType = ''satellite'', kd_entityId = 7, kd_relation = About, kd_weight = 1, kd_context = None\<rparr>]\<rparr>"

lemma demo_kg_ok: "kg_ok (ks_db demo_kg)"
  by code_simp

definition demo_stored :: "kg_state" where
  "demo_stored = snd (storeFinding (demo_kg_env (\<lambda>_. None)) (demo_input ''a'' (9 / 10)) demo_kg)"

lemma demo_step:
  "storeFinding (demo_kg_env (\<lambda>_. None)) (demo_input ''a'' (9 / 10)) demo_kg =
     (fst (storeFinding (demo_kg_env (\<lambda>_. None)) (demo_input ''a'' (9 / 10)) demo_kg), demo_stored)"
  by (simp add: demo_stored_def)

theorem storing_is_all_or_nothing_witness:
  "ks_db (snd (storeFinding (demo_kg_env (\<lambda>k. if k = 2 then Some (mk_error ''down'') else None)) (demo_input ''a'' (9 / 10)) demo_kg)) =
   ks_db demo_kg"
proof -
  let ?run = "storeFinding (demo_kg_env (\<lambda>k. if k = 2 then Some (mk_error ''down'') else None)) (demo_input ''a'' (9 / 10)) demo_kg"
  have "case fst ?run of Inl e \<Rightarrow> True | Inr f \<Rightarrow> False" by code_simp
  then obtain e where "?run = (Inl e, snd ?run)" by (cases "fst ?run") (auto simp: prod_eq_iff)
  from storing_is_all_or_nothing [OF this demo_kg_ok] show ?thesis by simp
qed

theorem batch_accounts_for_every_finding_witness:
  "tw_stored (fst (persist (demo_kg_env (\<lambda>_. None)) demo_ctx [demo_research ''a'' 1, demo_research ''b'' 1] demo_kg)) +
   length (tw_failures (fst (persist (demo_kg_env (\<lambda>_. None)) demo_ctx [demo_research ''a'' 1, demo_research ''b'' 1] demo_kg))) = 2"
  using batch_accounts_for_every_finding [OF prod.collapse [symmetric] demo_kg_ok,
      of "demo_kg_env (\<lambda>_. None)" demo_ctx "[demo_research ''a'' 1, demo_research ''b'' 1]"] by simp

theorem hash_hit_keeps_title_and_expiry_witness:
  "\<exists>f r. fst (storeFinding (demo_kg_env (\<lambda>_. None)) (demo_input ''b'' (2 / 10)) demo_stored) = Inr f \<and>
     kb_findings (ks_db demo_stored) = [r] \<and> kf_title f = kf_title r \<and> kf_summary f = ''b'' \<and> kf_confidence f = 2 / 10"
proof -
  let ?env = "demo_kg_env (\<lambda>_. None)"
  let ?run = "storeFinding ?env (demo_input ''b'' (2 / 10)) demo_stored"
  have "case fst ?run of Inl e \<Rightarrow> False | Inr f \<Rightarrow> True" by code_simp
  then obtain f where f: "?run = (Inr f, snd ?run)" by (cases "fst ?run") (auto simp: prod_eq_iff)
  have "case kb_findings (ks_db demo_stored) of [r] \<Rightarrow>
      kf_hash r = Some (dedup_hash ?env (dedup_key 0 (sf_finding (demo_input ''b'' (2 / 10))) (sf_edges (demo_input ''b'' (2 / 10))))) | _ \<Rightarrow> False"
    by code_simp
  then obtain r where r: "kb_findings (ks_db demo_stored) = [r]"
    "kf_hash r = Some (dedup_hash ?env (dedup_key 0 (sf_finding (demo_input ''b'' (2 / 10))) (sf_edges (demo_input ''b'' (2 / 10)))))"
    by (auto split: list.splits)
  have ok: "kg_ok (ks_db demo_stored)" using storeFinding_effect [OF demo_step demo_kg_ok] by blast
  have "\<forall>t. kz_embed ?env t = Inr None" "anchor_of (sf_edges (demo_input ''b'' (2 / 10))) \<noteq> None"
    by (simp_all add: demo_kg_env_def demo_input_def anchor_of_def)
  from hash_hit_keeps_title_and_expiry [OF f this(1) ok _ r(2) this(2)] r(1) have
    "kf_title f = kf_title r" "kf_summary f = kf_summary (sf_finding (demo_input ''b'' (2 / 10)))"
    "kf_confidence f = kf_confidence (sf_finding (demo_input ''b'' (2 / 10)))" by auto
  moreover have "fst ?run = Inr f" using f by (metis fst_conv)
  ultimately show ?thesis using r(1) by (simp add: demo_input_def persist_row_def demo_research_def)
qed

end
