(* ===== verification/Thalamus.thy ===== *)
theory Thalamus
  imports Knowledge CycleLoop
begin

text \<open>
  The Thalamus service \<open>thalamus.service.ts\<close>: one research cycle from the query to the stored findings.
  The plan comes from the planner, the loop and the persister are those of their theories, and the
  cycle record of the knowledge graph says how it went.
\<close>

section \<open>Input and collaborators\<close>

record run_input =
  ri_query :: string
  ri_userId :: "int option"
  ri_trigger :: cycle_trigger
  ri_source :: "string option"
  ri_cortices :: "string list option"
  ri_dag :: "dag_plan option"
  ri_minConfidence :: "real option"
  ri_override :: "(string \<times> int) option"
  ri_daemonJob :: "string option"
  ri_lang :: "lang option"
  ri_mode :: "cycle_mode option"

record budgets_cfg =
  rb_simple :: iteration_budget
  rb_moderate :: iteration_budget
  rb_deep :: iteration_budget

text \<open>The iteration limit of the reflexion settings, the cost override of the planner's, and the budgets.\<close>

record cycle_cfg =
  ru_maxIterations :: int
  ru_maxCostUsd :: real
  ru_budgets :: budgets_cfg

text \<open>
  Where the abort signal is read: on entry, once the plan is there, and after the loop. The other
  arguments are those of the planner, the loop and the knowledge graph.
\<close>

datatype cycle_point = OnEntry | AfterPlan | AfterLoop

record thalamus_env =
  rh_signal :: "cycle_point \<Rightarrow> signal"
  rh_planner :: planner
  rh_plannerCfg :: "planner_cfg \<times> enabled_overrides"
  rh_planReply :: "string throws"
  rh_parsePlan :: "string \<Rightarrow> dag_plan throws"
  rh_cfg :: "cycle_cfg throws"
  rh_loop :: loop_env
  rh_kg :: kg_env

section \<open>resolvePlan\<close>

type_synonym daemon_table = "(string, dag_plan) jsmap"

text \<open>The plan, and the table of daemon plans afterwards.\<close>

definition resolvePlan :: "thalamus_env \<Rightarrow> run_input \<Rightarrow> daemon_table \<Rightarrow> dag_plan throws \<times> daemon_table" where
  "resolvePlan env input dags =
     (let p = rh_planner env; (cfg, overrides) = rh_plannerCfg env; hasUser = Some (ri_userId input \<noteq> None) in
      case ri_dag input of
        Some dag \<Rightarrow> (fst (finalizePlan p dag hasUser cfg overrides), dags)
      | None \<Rightarrow>
          (case ri_daemonJob input of
             Some job \<Rightarrow>
               if job \<noteq> []
               then (case getDaemonDag p dags job cfg overrides of
                       (Inl e, dags') \<Rightarrow> (Inl e, dags')
                     | (Inr found, dags') \<Rightarrow>
                         (Inr (case found of
                                 Some plan \<Rightarrow> plan
                               | None \<Rightarrow> \<lparr>intent = ri_query input, nodes = [], complexity = Moderate\<rparr>), dags'))
               else (plan_query p (rh_parsePlan env) (rh_planReply env) (ri_query input) hasUser cfg overrides, dags)
           | None \<Rightarrow>
               (case ri_cortices input of
                  Some cortices \<Rightarrow>
                    (case buildManualDag (pl_registry p) (ri_query input) cortices of
                       Inl e \<Rightarrow> (Inl e, dags)
                     | Inr dag \<Rightarrow> (fst (finalizePlan p dag hasUser cfg overrides), dags))
                | None \<Rightarrow> (plan_query p (rh_parsePlan env) (rh_planReply env) (ri_query input) hasUser cfg overrides, dags))))"

section \<open>The loop budget\<close>

definition budget_for :: "budgets_cfg \<Rightarrow> query_complexity \<Rightarrow> iteration_budget" where
  "budget_for cfg c = (case c of Simple \<Rightarrow> rb_simple cfg | Moderate \<Rightarrow> rb_moderate cfg | Deep \<Rightarrow> rb_deep cfg)"

definition max_iter :: "cycle_cfg \<Rightarrow> iteration_budget \<Rightarrow> int" where
  "max_iter cfg budget = min (min (b_maxIterations budget) maxIterationsPerChain) (ru_maxIterations cfg)"

definition max_cost :: "cycle_cfg \<Rightarrow> iteration_budget \<Rightarrow> real" where
  "max_cost cfg budget =
     (if 0 < ru_maxCostUsd cfg then ru_maxCostUsd cfg else min (b_maxCost budget) maxCostPerChain)"

definition loop_ctx_of :: "cycle_cfg \<Rightarrow> run_input \<Rightarrow> dag_plan \<Rightarrow> int \<Rightarrow> loop_ctx" where
  "loop_ctx_of cfg input plan cycle =
     (let budget = budget_for (ru_budgets cfg) (complexity plan) in
      \<lparr>lc_run = \<lparr>rc_cycleId = cycle, rc_lang = ri_lang input, rc_mode = ri_mode input, rc_userId = ri_userId input\<rparr>,
       lc_query = ri_query input, lc_minConfidence = ri_minConfidence input, lc_hasUser = Some (ri_userId input \<noteq> None),
       lc_maxIter = max_iter cfg budget, lc_maxCost = max_cost cfg budget, lc_budget = budget\<rparr>)"

section \<open>runCycle\<close>

definition dag_message :: "dag_error \<Rightarrow> string" where
  "dag_message e =
     (let q = (\<lambda>s. CHR 0x22 # s @ [CHR 0x22]) in
      case e of
        EmptyDag \<Rightarrow> ''DAG must contain at least one node''
      | UnknownCortex c \<Rightarrow> ''DAG references unknown cortex '' @ q c
      | DuplicateCortex c \<Rightarrow> ''DAG contains duplicate cortex '' @ q c
      | SelfDependency c \<Rightarrow> ''Cortex '' @ q c @ '' cannot depend on itself''
      | MissingDependency c d \<Rightarrow> ''Cortex '' @ q c @ '' depends on missing cortex '' @ q d
      | CircularDependency cs \<Rightarrow> ''DAG contains a circular dependency: '' @ join '' -> '' cs)"

definition exec_exn :: "exec_error \<Rightarrow> exn" where
  "exec_exn e = (case e of Thrown x \<Rightarrow> x | DagError d \<Rightarrow> \<lparr>ename = ''DagValidationError'', emsg = dag_message d\<rparr>)"

record run_result =
  rt_cycle :: "kg_cycle option"
  rt_verification :: verification
  rt_persistence :: persist_result

definition lift_throws :: "'a throws \<Rightarrow> 'a kg" where
  "lift_throws r = (\<lambda>s. (r, s))"

definition new_cycle :: "run_input \<Rightarrow> dag_plan \<Rightarrow> kg_cycle" where
  "new_cycle input plan =
     \<lparr>ky_id = 0, ky_trigger = ri_trigger input,
      ky_source = (case ri_source input of Some src \<Rightarrow> src | None \<Rightarrow> ri_query input), ky_userId = ri_userId input,
      ky_cortices = map cortex (nodes plan), ky_status = CycleRunning, ky_findingsCount = 0, ky_totalCost = None,
      ky_error = None, ky_completedAt = None\<rparr>"

definition persist_ctx_of :: "run_input \<Rightarrow> dag_plan \<Rightarrow> int \<Rightarrow> nat \<Rightarrow> persist_ctx" where
  "persist_ctx_of input plan cycle iterations =
     \<lparr>tv_cycle = cycle, tv_iteration = iterations,
      tv_firstCortex = (case nodes plan of [] \<Rightarrow> None | n # _ \<Rightarrow> Some (cortex n)), tv_override = ri_override input\<rparr>"

definition run_research :: "thalamus_env \<Rightarrow> run_input \<Rightarrow> dag_plan \<Rightarrow> int \<Rightarrow> loop_result throws" where
  "run_research env input plan cycle =
     (case rh_cfg env of
        Inl e \<Rightarrow> Inl e
      | Inr cfg \<Rightarrow>
          (case run_loop (rh_loop env) (loop_ctx_of cfg input plan cycle) plan of
             Inl e \<Rightarrow> Inl (exec_exn e)
           | Inr r \<Rightarrow> (case throwIfAborted (rh_signal env AfterLoop) of Inl e \<Rightarrow> Inl e | Inr _ \<Rightarrow> Inr r)))"

text \<open>The body of the \<open>try\<close>.\<close>

definition cycle_body :: "thalamus_env \<Rightarrow> run_input \<Rightarrow> dag_plan \<Rightarrow> int \<Rightarrow> run_result kg" where
  "cycle_body env input plan cycle =
     kg_bind (lift_throws (run_research env input plan cycle)) (\<lambda>r.
       kg_bind (\<lambda>s. let (p, s') = persist (rh_kg env) (persist_ctx_of input plan cycle (lr_iterations r)) (lr_allFindings r) s
                    in (Inr p, s')) (\<lambda>p.
         kg_bind (\<lambda>s. cycle_updateStatus (rh_kg env) cycle CycleCompleted (Some (kz_now (rh_kg env) (ks_step s))) None
                        (Some (lr_totalCost r)) s) (\<lambda>_.
           kg_bind (kg_query (rh_kg env) (cycle_findById cycle)) (\<lambda>found.
             kg_return \<lparr>rt_cycle = found, rt_verification = lr_verification r, rt_persistence = p\<rparr>))))"

definition run_created :: "thalamus_env \<Rightarrow> run_input \<Rightarrow> dag_plan \<Rightarrow> int \<Rightarrow> run_result kg" where
  "run_created env input plan cycle =
     kg_try (cycle_body env input plan cycle) (\<lambda>e.
       kg_bind (cycle_updateStatus (rh_kg env) cycle CycleFailed None (Some (emsg e)) None) (\<lambda>_. kg_throw e))"

definition empty_plan_error :: exn where
  "empty_plan_error = mk_error (''Planner produced empty DAG '' @ [CHR 0xE2, CHR 0x80, CHR 0x94] @ '' no cortices to activate'')"

definition planned :: "thalamus_env \<Rightarrow> run_input \<Rightarrow> daemon_table \<Rightarrow> dag_plan throws \<times> daemon_table" where
  "planned env input dags =
     (case throwIfAborted (rh_signal env OnEntry) of
        Inl e \<Rightarrow> (Inl e, dags)
      | Inr _ \<Rightarrow>
          (case resolvePlan env input dags of
             (Inl e, dags') \<Rightarrow> (Inl e, dags')
           | (Inr plan, dags') \<Rightarrow>
               (case throwIfAborted (rh_signal env AfterPlan) of
                  Inl e \<Rightarrow> (Inl e, dags')
                | Inr _ \<Rightarrow> (if nodes plan = [] then Inl empty_plan_error else Inr plan, dags'))))"

definition runCycle ::
  "thalamus_env \<Rightarrow> run_input \<Rightarrow> daemon_table \<Rightarrow> kg_state \<Rightarrow> run_result throws \<times> kg_state \<times> daemon_table" where
  "runCycle env input dags s =
     (case planned env input dags of
        (Inl e, dags') \<Rightarrow> (Inl e, s, dags')
      | (Inr plan, dags') \<Rightarrow>
          (case kg_bind (createCycle (rh_kg env) (new_cycle input plan)) (\<lambda>c. run_created env input plan (ky_id c)) s of
             (res, s') \<Rightarrow> (res, s', dags')))"

definition daemon_input :: "string \<Rightarrow> run_input" where
  "daemon_input job =
     \<lparr>ri_query = ''Daemon job: '' @ job, ri_userId = None, ri_trigger = TriggerDaemon, ri_source = Some job, ri_cortices = None,
      ri_dag = None, ri_minConfidence = None, ri_override = None, ri_daemonJob = Some job, ri_lang = Some Fr, ri_mode = Some Audit\<rparr>"

definition runDaemonJob ::
  "thalamus_env \<Rightarrow> string \<Rightarrow> daemon_table \<Rightarrow> kg_state \<Rightarrow> run_result throws \<times> kg_state \<times> daemon_table" where
  "runDaemonJob env job dags s = runCycle env (daemon_input job) dags s"

definition maintenance :: "thalamus_env \<Rightarrow> nat throws \<Rightarrow> (nat \<times> nat) kg" where
  "maintenance env cleanOrphans = expireAndClean (rh_kg env) cleanOrphans"

section \<open>What persisting leaves alone\<close>

text \<open>The cycles, except for the number of findings of the cycle \<open>i\<close>.\<close>

definition frame :: "int \<Rightarrow> kg_db \<Rightarrow> kg_cycle list \<times> int" where
  "frame i db = (map (\<lambda>c. if ky_id c = i then c\<lparr>ky_findingsCount := 0\<rparr> else c) (kb_cycles db), kb_nextCycle db)"

definition frames :: "int \<Rightarrow> 'a kg \<Rightarrow> bool" where
  "frames i m = (\<forall>s. frame i (ks_db (snd (m s))) = frame i (ks_db s))"

named_theorems framing

lemma frames_statement: "(\<And>db x db'. f db = Inr (x, db') \<Longrightarrow> frame i db' = frame i db) \<Longrightarrow> frames i (statement env f)"
  by (auto simp: frames_def statement_def Let_def split: option.split sum.split)

lemma frames_return [framing]: "frames i (kg_return x)" "frames i (kg_throw e)"
  by (simp_all add: frames_def kg_return_def kg_throw_def)

lemma frames_bind [framing]: "frames i m \<Longrightarrow> (\<And>x. frames i (f x)) \<Longrightarrow> frames i (kg_bind m f)"
  unfolding frames_def kg_bind_def by (auto split: prod.split sum.split) (metis snd_conv)+

lemma frames_try [framing]: "frames i m \<Longrightarrow> (\<And>x. frames i (f x)) \<Longrightarrow> frames i (kg_try m f)"
  unfolding frames_def kg_try_def by (auto split: prod.split sum.split) (metis snd_conv)+

lemma frames_query [framing]: "frames i (kg_query env f)"
  unfolding kg_query_def by (rule frames_statement) simp

lemma frames_transaction [framing]: "frames i m \<Longrightarrow> frames i (transaction env m)"
proof -
  assume "frames i m"
  then have "frames i (kg_bind m (\<lambda>x. kg_bind (kg_query env (\<lambda>_. ())) (\<lambda>_. kg_return x)))" by (intro framing)
  then show ?thesis unfolding frames_def transaction_def by (auto split: prod.split sum.split) (metis snd_conv)
qed

lemma frames_at: "(\<And>s. frames i (f s)) \<Longrightarrow> frames i (\<lambda>s. f s s)"
  by (simp add: frames_def)

lemma frame_finding [simp]: "frame i (map_finding P f db) = frame i db"
  by (simp add: frame_def)

lemma frames_writer [framing]:
  "frames i (incrementCycleFindings env i)"
  "frames i (createEdges env edges)"
  "frames i (statement env (insert_finding v))"
  "frames i (statement env (update_by_hash v))"
  "frames i (linkFindingToCycle env l)"
  "frames i (mergeFinding env j c evs)"
  unfolding incrementCycleFindings_def createEdges_def linkFindingToCycle_def mergeFinding_def
  by (auto intro!: frames_statement frames_return simp: insert_finding_def update_by_hash_def Let_def split: if_splits)
    (auto simp: frame_def map_cycle_def)

lemma frames_emission [framing]: "kf_cycle f = i \<Longrightarrow> frames i (linkCycleEmission env f j d)"
  unfolding linkCycleEmission_def by (auto intro!: framing)

lemma frames_upsert [framing]: "frames i (upsertFindingByDedupHash env v)"
  unfolding upsertFindingByDedupHash_def by (auto intro!: framing split: option.split)

lemma frames_cross_link [framing]: "frames i (cross_link env v f)"
  unfolding cross_link_def by (auto intro!: framing split: option.split)

lemma frames_store: "kf_cycle (sf_finding input) = i \<Longrightarrow> frames i (storeFinding env input)"
proof -
  assume c: "kf_cycle (sf_finding input) = i"
  have up: "frames i (upsert_work env v hash input)" for v hash
    unfolding upsert_work_def using c by (auto intro!: framing split: prod.split)
  have new: "frames i (store_new env v input)" for v
    unfolding store_new_def Let_def by (rule frames_at) (auto intro!: framing up split: prod.split)
  have merge: "frames i (merge_into env input same)" for same
    unfolding merge_into_def using c by (auto intro!: framing)
  have near: "frames i (near_duplicate env v input)" for v
    unfolding near_duplicate_def by (auto intro!: framing split: option.split)
  show ?thesis unfolding storeFinding_def
    by (auto intro!: framing near merge new split: sum.split option.split)
qed

lemma persist_frame: "persist_all env ctx fs acc s = (r, s') \<Longrightarrow> frame (tv_cycle ctx) (ks_db s') = frame (tv_cycle ctx) (ks_db s)"
proof (induction fs arbitrary: acc s)
  case (Cons f fs)
  obtain x s1 where one: "persist_one env ctx f s = (x, s1)" by fastforce
  have "frames (tv_cycle ctx) (storeFinding env \<lparr>sf_finding = persist_row ctx now f, sf_edges = edges\<rparr>)" for now edges
    by (rule frames_store) (simp add: persist_row_def)
  then have "frame (tv_cycle ctx) (ks_db s1) = frame (tv_cycle ctx) (ks_db s)"
    using one by (auto simp: persist_one_def kg_throw_def frames_def split: sum.splits) (metis snd_conv)
  then show ?case using Cons.IH Cons.prems one by (cases x) auto
qed simp

lemma frame_last:
  assumes "frame i db' = frame i db" and "kb_cycles db = old @ [c]" and "ky_id c = i" and "i \<notin> ky_id ` set old"
  obtains n where "kb_cycles db' = old @ [c\<lparr>ky_findingsCount := n\<rparr>]"
proof -
  let ?g = "\<lambda>c. if ky_id c = i then c\<lparr>ky_findingsCount := 0\<rparr> else c"
  have "map ?g old = old" using assms(4) by (intro map_idI) auto
  then have "map ?g (kb_cycles db') = old @ [c\<lparr>ky_findingsCount := 0\<rparr>]" using assms(1-3) by (simp add: frame_def)
  then obtain xs ys where split: "kb_cycles db' = xs @ ys" "map ?g xs = old" "map ?g ys = [c\<lparr>ky_findingsCount := 0\<rparr>]"
    by (auto simp: map_eq_append_conv)
  obtain y where y: "ys = [y]" "?g y = c\<lparr>ky_findingsCount := 0\<rparr>" using split(3) by auto
  have "?g x = x" if "x \<in> set xs" for x
  proof -
    have "?g x \<in> set old" using that split(2) by auto
    then have "ky_id (?g x) \<in> ky_id ` set old" by (rule imageI)
    then have "ky_id (?g x) \<noteq> i" using assms(4) by metis
    then show ?thesis by (cases "ky_id x = i") simp_all
  qed
  then have "map ?g xs = xs" by (intro map_idI) auto
  then have "xs = old" using split(2) by simp
  have "ky_id (?g y) = i" using y(2) assms(3) by simp
  then have "ky_id y = i" by (auto split: if_splits)
  then have "y\<lparr>ky_findingsCount := 0\<rparr> = c\<lparr>ky_findingsCount := 0\<rparr>" using y(2) by simp
  then have "y = c\<lparr>ky_findingsCount := ky_findingsCount y\<rparr>" by (cases y; cases c) simp
  with split y \<open>xs = old\<close> that show thesis by metis
qed

section \<open>The cycle record\<close>

lemma createCycle_effect:
  assumes "createCycle env c s = (Inr row, s1)" and ok: "kg_ok (ks_db s)" and zero: "ky_findingsCount c = 0"
  shows "row = c\<lparr>ky_id := kb_nextCycle (ks_db s)\<rparr> \<and> kb_cycles (ks_db s1) = kb_cycles (ks_db s) @ [row] \<and>
    ky_id row \<notin> ky_id ` set (kb_cycles (ks_db s)) \<and> kg_ok (ks_db s1)"
proof -
  let ?db = "ks_db s" let ?i = "kb_nextCycle ?db"
  have row: "row = c\<lparr>ky_id := ?i\<rparr>" and db: "ks_db s1 = ?db\<lparr>kb_cycles := kb_cycles ?db @ [row], kb_nextCycle := ?i + 1\<rparr>"
    using assms(1) by (auto simp: createCycle_def statement_Inr Let_def)
  have fresh: "?i \<notin> ky_id ` set (kb_cycles ?db)" using ok by (auto simp: kg_ok_def keys_ok_def list_all_iff)
  then have unlinked: "filter (\<lambda>l. kc_cycle l = ?i) (kb_links ?db) = []"
    using ok by (auto simp: kg_ok_def refs_ok_def list_all_iff kg_has_cycle_def filter_empty_conv) (metis imageI)+
  have "keys_ok (ks_db s1)" using ok fresh
    by (auto simp: kg_ok_def keys_ok_def db row list_all_iff hashes_of_def link_keys_def)
  moreover have "refs_ok (ks_db s1)" using ok
    by (auto simp: kg_ok_def refs_ok_def db row list_all_iff kg_has_cycle_def kg_has_finding_def)
  moreover have "counts_ok (ks_db s1)" using ok zero unlinked
    by (auto simp: kg_ok_def counts_ok_def db row list_all_iff links_of_def)
  ultimately show ?thesis using fresh by (simp add: row db kg_ok_def)
qed

lemma map_cycle_counts:
  assumes "\<And>c. ky_id (f c) = ky_id c" and "\<And>c. ky_findingsCount (f c) = ky_findingsCount c"
  shows "counts_ok (map_cycle i f db) = counts_ok db"
proof -
  have one: "list_all (\<lambda>c. ky_findingsCount c = n (ky_id c)) (map (\<lambda>c. if ky_id c = i then f c else c) cs) =
      list_all (\<lambda>c. ky_findingsCount c = n (ky_id c)) cs" for cs n
    using assms by (induction cs) auto
  show ?thesis unfolding counts_ok_def links_of_def map_cycle_fields using one by (simp add: map_cycle_def)
qed

lemma cycle_updateStatus_effect:
  assumes "cycle_updateStatus env i st done err cost s = (res, s1)" and ok: "kg_ok (ks_db s)"
    and last: "kb_cycles (ks_db s) = old @ [c]" "ky_id c = i" "i \<notin> ky_id ` set old"
  shows "kg_ok (ks_db s1) \<and> ks_step s1 = ks_step s + 1 \<and>
    (case res of
       Inl e \<Rightarrow> ks_db s1 = ks_db s \<and> kz_fails env (ks_step s) = Some e
     | Inr _ \<Rightarrow> kb_findings (ks_db s1) = kb_findings (ks_db s) \<and>
         kb_cycles (ks_db s1) = old @ [c\<lparr>ky_status := st,
           ky_completedAt := (case done of None \<Rightarrow> ky_completedAt c | v \<Rightarrow> v),
           ky_error := (case err of None \<Rightarrow> ky_error c | v \<Rightarrow> v),
           ky_totalCost := (case cost of None \<Rightarrow> ky_totalCost c | v \<Rightarrow> v)\<rparr>])"
proof -
  let ?f = "\<lambda>c. c\<lparr>ky_status := st, ky_completedAt := (case done of None \<Rightarrow> ky_completedAt c | v \<Rightarrow> v),
     ky_error := (case err of None \<Rightarrow> ky_error c | v \<Rightarrow> v), ky_totalCost := (case cost of None \<Rightarrow> ky_totalCost c | v \<Rightarrow> v)\<rparr>"
  have others: "map (\<lambda>c. if ky_id c = i then ?f c else c) old = old" using last(3) by (intro map_idI) auto
  have "counts_ok (map_cycle i ?f db) = counts_ok db" for db by (rule map_cycle_counts) simp_all
  then have "kg_ok (map_cycle i ?f (ks_db s))" using ok by (simp add: kg_ok_def map_cycle_ok)
  moreover have "kb_cycles (map_cycle i ?f (ks_db s)) = old @ [?f c]" using last others by (simp add: map_cycle_def)
  ultimately show ?thesis using assms(1) ok
    by (cases "kz_fails env (ks_step s)") (auto simp: cycle_updateStatus_def statement_def Let_def)
qed

lemma found_last:
  assumes "kg_query env (cycle_findById i) s = (Inr found, s1)" and "kb_cycles (ks_db s) = old @ [c]" "ky_id c = i" "i \<notin> ky_id ` set old"
  shows "found = Some c \<and> ks_db s1 = ks_db s"
proof -
  have "find (\<lambda>c. ky_id c = i) old = None" using assms(4) by (auto simp: find_None_iff)
  then have "find (\<lambda>c. ky_id c = i) (old @ [c]) = Some c" using assms(3) by (induction old) (auto split: if_splits)
  then show ?thesis using query_Inr [OF assms(1)] assms(2) by (simp add: cycle_findById_def)
qed

lemma persist_keeps:
  assumes "persist env ctx fs s = (p, s1)" and ok: "kg_ok (ks_db s)"
    and last: "kb_cycles (ks_db s) = old @ [c]" "ky_id c = tv_cycle ctx" "tv_cycle ctx \<notin> ky_id ` set old"
  obtains n where "kg_ok (ks_db s1)" "kb_cycles (ks_db s1) = old @ [c\<lparr>ky_findingsCount := n\<rparr>]"
    "tw_stored p + length (tw_failures p) = length fs"
  using frame_last [OF persist_frame [OF assms(1) [unfolded persist_def]] last] persist_all_ok [OF assms(1) [unfolded persist_def] ok]
  by simp metis

text \<open>What a run leaves of the row it created, the last one.\<close>

definition fresh_row :: "kg_cycle list \<Rightarrow> kg_cycle \<Rightarrow> bool" where
  "fresh_row old c = (ky_id c \<notin> ky_id ` set old \<and> ky_error c = None)"

definition returned_ok :: "run_result \<Rightarrow> loop_result \<Rightarrow> kg_cycle \<Rightarrow> bool" where
  "returned_ok r l c =
     (rt_cycle r = Some c \<and> ky_status c = CycleCompleted \<and> ky_completedAt c \<noteq> None \<and> ky_error c = None \<and>
      ky_totalCost c = Some (lr_totalCost l) \<and> rt_verification r = lr_verification l \<and>
      tw_stored (rt_persistence r) + length (tw_failures (rt_persistence r)) = length (lr_allFindings l))"

lemma cycle_body_effect:
  assumes run: "cycle_body env input plan i s = (res, s')" and ok: "kg_ok (ks_db s)"
    and last: "kb_cycles (ks_db s) = old @ [c]" "ky_id c = i" "fresh_row old c"
  obtains c' where "kg_ok (ks_db s')" "kb_cycles (ks_db s') = old @ [c']" "ky_id c' = i"
    "\<And>r. res = Inr r \<Longrightarrow> \<exists>l. run_research env input plan i = Inr l \<and> returned_ok r l c'"
proof (cases "run_research env input plan i")
  case (Inl e)
  then show thesis using that [of c] run ok last by (auto simp: cycle_body_def kg_bind_def lift_throws_def)
next
  case (Inr l)
  let ?ctx = "persist_ctx_of input plan i (lr_iterations l)" and ?kg = "rh_kg env"
  have i: "tv_cycle ?ctx = i" "i \<notin> ky_id ` set old" "ky_error c = None" using last by (auto simp: persist_ctx_of_def fresh_row_def)
  obtain p s1 where p: "persist ?kg ?ctx (lr_allFindings l) s = (p, s1)" by fastforce
  from p ok last(1) obtain n where n: "kg_ok (ks_db s1)" "kb_cycles (ks_db s1) = old @ [c\<lparr>ky_findingsCount := n\<rparr>]"
    "tw_stored p + length (tw_failures p) = length (lr_allFindings l)"
    by (rule persist_keeps) (use i last(2) in auto)
  obtain u s2 where u: "cycle_updateStatus ?kg i CycleCompleted (Some (kz_now ?kg (ks_step s1))) None (Some (lr_totalCost l)) s1 = (u, s2)"
    by fastforce
  note eff = cycle_updateStatus_effect [OF u n(1) n(2)]
  have body: "cycle_body env input plan i s =
    (case u of Inl e \<Rightarrow> (Inl e, s2) | Inr _ \<Rightarrow>
       kg_bind (kg_query ?kg (cycle_findById i)) (\<lambda>found.
             kg_return \<lparr>rt_cycle = found, rt_verification = lr_verification l, rt_persistence = p\<rparr>) s2)"
    using Inr p u by (simp add: cycle_body_def kg_bind_def lift_throws_def split: sum.split)
  show thesis
  proof (cases u)
    case (Inl e)
    then have "res = Inl e" "s' = s2" "ks_db s2 = ks_db s1" using run body eff i last by simp_all
    then show thesis using that [of "c\<lparr>ky_findingsCount := n\<rparr>"] n last by simp
  next
    case up: (Inr x)
    let ?c = "c\<lparr>ky_findingsCount := n, ky_status := CycleCompleted, ky_completedAt := Some (kz_now ?kg (ks_step s1)),
      ky_totalCost := Some (lr_totalCost l)\<rparr>"
    have s2: "kg_ok (ks_db s2)" "kb_cycles (ks_db s2) = old @ [?c]" using eff up i last by simp_all
    obtain q s3 where q: "kg_query ?kg (cycle_findById i) s2 = (q, s3)" by fastforce
    have s3: "ks_db s3 = ks_db s2"
      using q by (auto simp: kg_query_def statement_def Let_def split: option.splits)
    show thesis
    proof (cases q)
      case (Inl e)
      then have "res = Inl e" "s' = s3" using run body up q by (simp_all add: kg_bind_def)
      then show thesis using that [of ?c] s2 s3 last by simp
    next
      case f: (Inr found)
      have "ky_id ?c = i" using last(2) by simp
      then have found: "found = Some ?c" using found_last [OF q [unfolded f] s2(2)] i(2) by blast
      then have "res = Inr \<lparr>rt_cycle = Some ?c, rt_verification = lr_verification l, rt_persistence = p\<rparr>" "s' = s3"
        using run body up q f found by (simp_all add: kg_bind_def kg_return_def)
      moreover have "returned_ok \<lparr>rt_cycle = Some ?c, rt_verification = lr_verification l, rt_persistence = p\<rparr> l ?c"
        using n(3) i(3) by (simp add: returned_ok_def)
      ultimately show thesis using that [of ?c] s2 s3 \<open>ky_id ?c = i\<close> Inr by simp
    qed
  qed
qed

lemma run_created_effect:
  assumes run: "run_created env input plan i s = (res, s')" and ok: "kg_ok (ks_db s)"
    and last: "kb_cycles (ks_db s) = old @ [c]" "ky_id c = i" "fresh_row old c"
  obtains c' where "kg_ok (ks_db s')" "kb_cycles (ks_db s') = old @ [c']" "ky_id c' = i"
    "case res of
       Inr r \<Rightarrow> \<exists>l. run_research env input plan i = Inr l \<and> returned_ok r l c'
     | Inl e \<Rightarrow> (ky_status c' = CycleFailed \<and> ky_error c' = Some (emsg e)) \<or> kz_fails (rh_kg env) (ks_step s' - 1) = Some e"
proof -
  obtain b s1 where b: "cycle_body env input plan i s = (b, s1)" by fastforce
  obtain c1 where c1: "kg_ok (ks_db s1)" "kb_cycles (ks_db s1) = old @ [c1]" "ky_id c1 = i"
    "\<And>r. b = Inr r \<Longrightarrow> \<exists>l. run_research env input plan i = Inr l \<and> returned_ok r l c1"
    using cycle_body_effect [OF b ok last] by blast
  show thesis
  proof (cases b)
    case (Inr r)
    then have "res = Inr r" "s' = s1" using run b by (simp_all add: run_created_def kg_try_def)
    then show thesis using that [of c1] c1 Inr by simp
  next
    case (Inl e)
    obtain u s2 where u: "cycle_updateStatus (rh_kg env) i CycleFailed None (Some (emsg e)) None s1 = (u, s2)" by fastforce
    have i: "i \<notin> ky_id ` set old" using last by (simp add: fresh_row_def)
    note eff = cycle_updateStatus_effect [OF u c1(1,2,3) i]
    show thesis
    proof (cases u)
      case (Inl e')
      then have "res = Inl e'" "s' = s2" using run b \<open>b = Inl e\<close> u by (simp_all add: run_created_def kg_try_def kg_bind_def)
      then show thesis using that [of c1] c1 eff Inl by simp
    next
      case up: (Inr x)
      then have "res = Inl e" "s' = s2" using run b Inl u by (simp_all add: run_created_def kg_try_def kg_bind_def kg_throw_def)
      then show thesis using that [of "c1\<lparr>ky_status := CycleFailed, ky_error := Some (emsg e)\<rparr>"] c1 eff up by simp
    qed
  qed
qed

section \<open>Properties\<close>

text \<open>C2: A research run from the query to the record. A run that returns has added exactly one cycle row,
  which it returns: completed, without an error, with the cost of the loop, and every finding of the
  loop either stored or recorded as a failure. A run that throws either has touched no table, or has
  added one row, marked failed with the message of the error it throws, unless the statement that
  fails last is the one that marks it. In every case the rows of older cycles are as before, and the
  tables keep their invariant: unique keys and hashes, resolved references, exact counts.\<close>

theorem research_run_leaves_one_record:
  assumes "runCycle env input dags s = (res, s', dags')" and "kg_ok (ks_db s)"
  shows "kg_ok (ks_db s') \<and>
    (case res of
       Inr r \<Rightarrow> \<exists>c plan l. kb_cycles (ks_db s') = kb_cycles (ks_db s) @ [c] \<and> rt_cycle r = Some c \<and>
         ky_status c = CycleCompleted \<and> ky_error c = None \<and> fst (planned env input dags) = Inr plan \<and>
         run_research env input plan (ky_id c) = Inr l \<and> ky_totalCost c = Some (lr_totalCost l) \<and>
         rt_verification r = lr_verification l \<and>
         tw_stored (rt_persistence r) + length (tw_failures (rt_persistence r)) = length (lr_allFindings l)
     | Inl e \<Rightarrow> ks_db s' = ks_db s \<or>
         (\<exists>c. kb_cycles (ks_db s') = kb_cycles (ks_db s) @ [c] \<and>
            (ky_status c = CycleFailed \<and> ky_error c = Some (emsg e) \<or> kz_fails (rh_kg env) (ks_step s' - 1) = Some e)))"
proof (cases "fst (planned env input dags)")
  case (Inl e)
  then show ?thesis using assms by (auto simp: runCycle_def split: prod.splits sum.splits)
next
  case (Inr plan)
  let ?kg = "rh_kg env"
  obtain d where p: "planned env input dags = (Inr plan, d)" using Inr by (cases "planned env input dags") simp
  have run: "kg_bind (createCycle ?kg (new_cycle input plan)) (\<lambda>c. run_created env input plan (ky_id c)) s = (res, s')"
    using assms(1) p by (auto simp: runCycle_def split: prod.splits)
  obtain x s1 where c: "createCycle ?kg (new_cycle input plan) s = (x, s1)" by fastforce
  show ?thesis
  proof (cases x)
    case (Inl e)
    then have "ks_db s' = ks_db s" "res = Inl e" using run c statement_Inl [of ?kg _ s e s1]
      by (auto simp: kg_bind_def createCycle_def)
    then show ?thesis using assms(2) by simp
  next
    case row: (Inr row)
    have "ky_findingsCount (new_cycle input plan) = 0" by (simp add: new_cycle_def)
    note eff = createCycle_effect [OF c [unfolded row] assms(2) this]
    have "ky_error row = None" using eff by (simp add: new_cycle_def)
    then have new: "kb_cycles (ks_db s1) = kb_cycles (ks_db s) @ [row]" "kg_ok (ks_db s1)" "fresh_row (kb_cycles (ks_db s)) row"
      using eff unfolding fresh_row_def by blast+
    have "run_created env input plan (ky_id row) s1 = (res, s')" using run c row by (simp add: kg_bind_def)
    from run_created_effect [OF this new(2) new(1) refl new(3)] obtain c' where
      "kg_ok (ks_db s')" "kb_cycles (ks_db s') = kb_cycles (ks_db s) @ [c']" "ky_id c' = ky_id row"
      "case res of
         Inr r \<Rightarrow> \<exists>l. run_research env input plan (ky_id row) = Inr l \<and> returned_ok r l c'
       | Inl e \<Rightarrow> (ky_status c' = CycleFailed \<and> ky_error c' = Some (emsg e)) \<or> kz_fails ?kg (ks_step s' - 1) = Some e"
      by blast
    then show ?thesis using p by (cases res) (auto simp: returned_ok_def)
  qed
qed

text \<open>C5: What a run may spend. It makes at most the iterations of the complexity's budget, of the global cap of
  ten and of the operator's reflexion setting. Its cost is looked at between iterations only, so the
  limit is not a cap on the total: a run without an iteration costs nothing, and any other run costs
  what it had spent when its last iteration started, plus what the outputs of that one iteration cost.
  What it had spent by then is nothing for the first iteration and below the limit for a later one.
  The limit is the operator's override when that is positive, whatever the budget and the ten-cent
  cap say, and otherwise the smaller of these two. The findings handed to the persister reach the
  minimum confidence.\<close>

theorem research_run_overspends_by_one_iteration:
  assumes "rh_cfg env = Inr cfg" and "run_research env input plan i = Inr l"
  shows "int (lr_iterations l) \<le> max 0 (b_maxIterations (budget_for (ru_budgets cfg) (complexity plan))) \<and>
    lr_iterations l \<le> 10 \<and> int (lr_iterations l) \<le> max 0 (ru_maxIterations cfg) \<and>
    (if lr_iterations l = 0 then lr_totalCost l = 0
     else \<exists>st outputs. loop_head (rh_loop env) (loop_ctx_of cfg input plan i) plan st \<and>
       Suc (ls_iteration st) = lr_iterations l \<and>
       execute (le_exec (rh_loop env) (lr_iterations l)) (le_known (rh_loop env)) (ls_plan st)
         (lc_run (loop_ctx_of cfg input plan i)) = Inr outputs \<and>
       lr_totalCost l = ls_totalCost st + sum_list (map (estimateCortexOutputCostUsd \<circ> snd) outputs) \<and>
       (if lr_iterations l = 1 then ls_totalCost st = 0
        else ls_totalCost st < (if 0 < ru_maxCostUsd cfg then ru_maxCostUsd cfg
                                else min (b_maxCost (budget_for (ru_budgets cfg) (complexity plan))) (1 / 10)))) \<and>
    (\<forall>f \<in> set (lr_allFindings l). or_else (ri_minConfidence input) (7 / 10) \<le> f_confidence f)"
proof -
  let ?ctx = "loop_ctx_of cfg input plan i"
  have run: "run_loop (rh_loop env) ?ctx plan = Inr l" using assms by (auto simp: run_research_def split: sum.splits)
  have limit: "(if 0 < ru_maxCostUsd cfg then ru_maxCostUsd cfg
      else min (b_maxCost (budget_for (ru_budgets cfg) (complexity plan))) (1 / 10)) = lc_maxCost ?ctx"
    by (simp add: loop_ctx_of_def Let_def max_cost_def maxCostPerChain_def)
  note bounds = run_loop_bounds [OF run]
  have "int (lr_iterations l) \<le> max 0 (max_iter cfg (budget_for (ru_budgets cfg) (complexity plan)))"
    "\<forall>f \<in> set (lr_allFindings l). or_else (ri_minConfidence input) (7 / 10) \<le> f_confidence f"
    using bounds unfolding loop_ctx_of_def Let_def loop_ctx.select_convs by blast+
  then have "int (lr_iterations l) \<le> max 0 (min (min (b_maxIterations (budget_for (ru_budgets cfg) (complexity plan))) 10) (ru_maxIterations cfg))"
    "\<forall>f \<in> set (lr_allFindings l). or_else (ri_minConfidence input) (7 / 10) \<le> f_confidence f"
    by (simp_all only: max_iter_def maxIterationsPerChain_def)
  with run_loop_last_iteration [OF run] show ?thesis
    unfolding limit by (intro conjI) (linarith | assumption)+
qed

text \<open>C39: The row is read back inside the \<open>try\<close>, after it was marked completed. When that read fails and the
  next update does not, a run whose findings are all stored throws, and its row says failed with an
  error while it keeps the completion time and the cost of a completed run.\<close>

theorem completed_run_is_marked_failed:
  assumes "kg_ok (ks_db s)" and "kb_cycles (ks_db s) = old @ [c]" and "ky_error c = None"
    and "run_research env input plan (ky_id c) = Inr l"
    and "persist (rh_kg env) (persist_ctx_of input plan (ky_id c) (lr_iterations l)) (lr_allFindings l) s = (p, s1)"
    and "kz_fails (rh_kg env) (ks_step s1) = None" and "kz_fails (rh_kg env) (ks_step s1 + 1) = Some e"
    and "kz_fails (rh_kg env) (ks_step s1 + 2) = None"
  shows "\<exists>s' c'. run_created env input plan (ky_id c) s = (Inl e, s') \<and> kb_cycles (ks_db s') = old @ [c'] \<and>
    kb_findings (ks_db s') = kb_findings (ks_db s1) \<and> ky_status c' = CycleFailed \<and> ky_error c' = Some (emsg e) \<and>
    ky_completedAt c' \<noteq> None \<and> ky_totalCost c' = Some (lr_totalCost l)"
proof -
  let ?i = "ky_id c" and ?kg = "rh_kg env" and ?ctx = "persist_ctx_of input plan (ky_id c) (lr_iterations l)"
  have i: "tv_cycle ?ctx = ?i" by (simp add: persist_ctx_of_def)
  have old: "?i \<notin> ky_id ` set old" using assms(1,2) by (simp add: kg_ok_def keys_ok_def)
  from assms(5,1,2) obtain n where n: "kg_ok (ks_db s1)" "kb_cycles (ks_db s1) = old @ [c\<lparr>ky_findingsCount := n\<rparr>]"
    by (rule persist_keeps) (use i old in auto)
  obtain u s2 where u: "cycle_updateStatus ?kg ?i CycleCompleted (Some (kz_now ?kg (ks_step s1))) None (Some (lr_totalCost l)) s1 = (u, s2)"
    by fastforce
  let ?c = "c\<lparr>ky_findingsCount := n, ky_status := CycleCompleted, ky_completedAt := Some (kz_now ?kg (ks_step s1)),
    ky_totalCost := Some (lr_totalCost l)\<rparr>"
  have at1: "ky_id (c\<lparr>ky_findingsCount := n\<rparr>) = ?i" by simp
  note marked = cycle_updateStatus_effect [OF u n at1 old]
  have s2: "u = Inr ()" "kg_ok (ks_db s2)" "ks_step s2 = ks_step s1 + 1" "kb_findings (ks_db s2) = kb_findings (ks_db s1)"
    "kb_cycles (ks_db s2) = old @ [?c]"
    using marked assms(6) by (cases u; simp)+
  let ?s3 = "s2\<lparr>ks_step := ks_step s1 + 2\<rparr>"
  have q: "kg_query ?kg (cycle_findById ?i) s2 = (Inl e, ?s3)"
    using assms(7) s2(3) by (simp add: kg_query_def statement_def Let_def)
  obtain v s4 where v: "cycle_updateStatus ?kg ?i CycleFailed None (Some (emsg e)) None ?s3 = (v, s4)" by fastforce
  have at3: "kg_ok (ks_db ?s3)" "kb_cycles (ks_db ?s3) = old @ [?c]" "ky_id ?c = ?i" using s2 by simp_all
  note after = cycle_updateStatus_effect [OF v at3 old]
  have ok3: "kz_fails ?kg (ks_step ?s3) = None" using assms(8) by simp
  have "v = Inr ()" using after ok3 by (cases v) auto
  with after have s4: "v = Inr ()" "kb_findings (ks_db s4) = kb_findings (ks_db s1)"
    "kb_cycles (ks_db s4) = old @ [?c\<lparr>ky_status := CycleFailed, ky_error := Some (emsg e)\<rparr>]"
    using s2(4) by simp_all
  have "cycle_body env input plan ?i s = (Inl e, ?s3)"
    using assms(4,5) u s2(1) q by (simp add: cycle_body_def kg_bind_def lift_throws_def)
  then have "run_created env input plan ?i s = (Inl e, s4)"
    using v s4(1) by (simp add: run_created_def kg_try_def kg_bind_def kg_throw_def)
  then show ?thesis using s4 by auto
qed

section \<open>Demonstrations\<close>

definition demo_run_input :: run_input where
  "demo_run_input =
     \<lparr>ri_query = ''q'', ri_userId = None, ri_trigger = TriggerUser, ri_source = None, ri_cortices = None, ri_dag = Some flat_plan,
      ri_minConfidence = None, ri_override = None, ri_daemonJob = None, ri_lang = None, ri_mode = None\<rparr>"

definition demo_cycle_cfg :: cycle_cfg where
  "demo_cycle_cfg =
     (let b = \<lparr>b_maxIterations = 5, b_maxCost = 1, b_confidenceTarget = 2, b_coverageTarget = 1, b_minFindingsToStop = 3\<rparr> in
      \<lparr>ru_maxIterations = 2, ru_maxCostUsd = 0, ru_budgets = \<lparr>rb_simple = b, rb_moderate = b, rb_deep = b\<rparr>\<rparr>)"

definition demo_thalamus :: "(nat \<Rightarrow> exn option) \<Rightarrow> thalamus_env" where
  "demo_thalamus fails =
     \<lparr>rh_signal = (\<lambda>_. None), rh_planner = demo_planner,
      rh_plannerCfg = (demo_cfg\<lparr>pc_mandatoryStrategist := False\<rparr>, []), rh_planReply = Inr [], rh_parsePlan = (\<lambda>_. Inr flat_plan),
      rh_cfg = Inr demo_cycle_cfg, rh_loop = demo_loop_env demo_output, rh_kg = demo_kg_env fails\<rparr>"

abbreviation quiet :: thalamus_env where
  "quiet \<equiv> demo_thalamus (\<lambda>_. None)"

theorem research_run_leaves_one_record_witness:
  "case runCycle quiet demo_run_input [] demo_kg of
     (Inr r, s', _) \<Rightarrow> length (kb_cycles (ks_db s')) = 2 \<and> rt_cycle r \<noteq> None
   | (Inl e, _) \<Rightarrow> False"
proof -
  let ?run = "runCycle quiet demo_run_input [] demo_kg"
  have "case fst ?run of Inr r \<Rightarrow> True | Inl e \<Rightarrow> False" by code_simp
  then obtain r where r: "?run = (Inr r, fst (snd ?run), snd (snd ?run))" by (cases "fst ?run") (auto simp: prod_eq_iff)
  from research_run_leaves_one_record [OF this demo_kg_ok] obtain c where
    "kb_cycles (ks_db (fst (snd ?run))) = kb_cycles (ks_db demo_kg) @ [c]" "rt_cycle r = Some c" by auto
  moreover have "length (kb_cycles (ks_db demo_kg)) = 1" by code_simp
  ultimately show ?thesis by (subst r) (simp add: prod.case_eq_if)
qed

theorem research_run_overspends_by_one_iteration_witness:
  "case run_research quiet demo_run_input flat_plan 2 of
     Inr l \<Rightarrow> lr_iterations l = 2 \<and> (\<exists>(st :: loop_state) (outputs :: outputs). Suc (ls_iteration st) = 2 \<and>
       lr_totalCost l = ls_totalCost st + sum_list (map (estimateCortexOutputCostUsd \<circ> snd) outputs) \<and>
       ls_totalCost st < 1 / 10)
   | Inl e \<Rightarrow> False"
proof -
  have "case run_research quiet demo_run_input flat_plan 2 of Inr l \<Rightarrow> lr_iterations l = 2 | Inl e \<Rightarrow> False" by code_simp
  then obtain l where l: "run_research quiet demo_run_input flat_plan 2 = Inr l" "lr_iterations l = 2"
    by (cases "run_research quiet demo_run_input flat_plan 2") auto
  have two: "((2::nat) = 0) = False" "((2::nat) = 1) = False" "(if False then A else B) = B" for A B :: bool by simp_all
  have "rh_cfg quiet = Inr demo_cycle_cfg" by (simp add: demo_thalamus_def)
  note facts = research_run_overspends_by_one_iteration [OF this l(1), unfolded l(2) two, THEN conjunct2, THEN conjunct2, THEN conjunct2, THEN conjunct1]
  have "\<exists>(st :: loop_state) (outputs :: outputs). Suc (ls_iteration st) = 2 \<and>
      lr_totalCost l = ls_totalCost st + sum_list (map (estimateCortexOutputCostUsd \<circ> snd) outputs) \<and>
      ls_totalCost st < (if 0 < ru_maxCostUsd demo_cycle_cfg then ru_maxCostUsd demo_cycle_cfg
        else min (b_maxCost (budget_for (ru_budgets demo_cycle_cfg) (complexity flat_plan))) (1 / 10))"
    using facts by (elim exE conjE, intro exI conjI)
  then obtain st :: loop_state and outputs :: outputs where "Suc (ls_iteration st) = 2"
    "lr_totalCost l = ls_totalCost st + sum_list (map (estimateCortexOutputCostUsd \<circ> snd) outputs)"
    "ls_totalCost st < (if 0 < ru_maxCostUsd demo_cycle_cfg then ru_maxCostUsd demo_cycle_cfg
      else min (b_maxCost (budget_for (ru_budgets demo_cycle_cfg) (complexity flat_plan))) (1 / 10))" by blast
  moreover have "(if 0 < ru_maxCostUsd demo_cycle_cfg then ru_maxCostUsd demo_cycle_cfg
      else min (b_maxCost (budget_for (ru_budgets demo_cycle_cfg) (complexity flat_plan))) (1 / 10)) \<le> 1 / 10" by code_simp
  ultimately have "Suc (ls_iteration st) = 2 \<and>
      lr_totalCost l = ls_totalCost st + sum_list (map (estimateCortexOutputCostUsd \<circ> snd) outputs) \<and>
      ls_totalCost st < 1 / 10" by (intro conjI) (assumption | linarith)+
  then have "lr_iterations l = 2 \<and> (\<exists>(st :: loop_state) (outputs :: outputs). Suc (ls_iteration st) = 2 \<and>
      lr_totalCost l = ls_totalCost st + sum_list (map (estimateCortexOutputCostUsd \<circ> snd) outputs) \<and>
      ls_totalCost st < 1 / 10)" using l(2) by blast
  then show ?thesis by (simp only: l(1) sum.case)
qed

theorem completed_run_is_marked_failed_witness:
  "\<exists>k s' c'. run_created (demo_thalamus (\<lambda>n. if n = k then Some (mk_error ''down'') else None)) demo_run_input flat_plan 1 demo_kg =
      (Inl (mk_error ''down''), s') \<and> kb_cycles (ks_db s') = [c'] \<and> ky_status c' = CycleFailed \<and> ky_completedAt c' \<noteq> None"
proof -
  let ?stored = "\<lambda>env. snd (persist (rh_kg env) (persist_ctx_of demo_run_input flat_plan 1 2)
     [demo_finding, demo_finding] demo_kg)"
  let ?e = "mk_error ''down''"
  define k where "k = ks_step (?stored quiet) + 1"
  let ?env = "demo_thalamus (\<lambda>n. if n = k then Some ?e else None)"
  have kval: "k = 10" unfolding k_def by code_simp
  have "case run_research (demo_thalamus (\<lambda>n. if n = 10 then Some ?e else None)) demo_run_input flat_plan 1 of
      Inr l \<Rightarrow> lr_iterations l = 2 \<and> lr_allFindings l = [demo_finding, demo_finding] | Inl e \<Rightarrow> False" by code_simp
  then obtain l where l: "run_research ?env demo_run_input flat_plan 1 = Inr l" "lr_iterations l = 2"
    "lr_allFindings l = [demo_finding, demo_finding]"
    unfolding kval by (auto split: sum.splits)
  have steps: "ks_step (?stored (demo_thalamus (\<lambda>n. if n = 10 then Some ?e else None))) = 9" by code_simp
  obtain p s1 where p: "persist (rh_kg ?env) (persist_ctx_of demo_run_input flat_plan 1 2) [demo_finding, demo_finding] demo_kg = (p, s1)"
    by fastforce
  have s1: "ks_step s1 = 9" using steps p unfolding kval by simp
  have c: "kb_cycles (ks_db demo_kg) = [] @ [demo_cycle]" "ky_error demo_cycle = None" "ky_id demo_cycle = 1"
    by (simp_all add: demo_kg_def demo_cycle_def)
  have f: "kz_fails (rh_kg ?env) (ks_step s1) = None" "kz_fails (rh_kg ?env) (ks_step s1 + 1) = Some ?e"
    "kz_fails (rh_kg ?env) (ks_step s1 + 2) = None"
    unfolding s1 kval by (simp_all add: demo_thalamus_def demo_kg_env_def)
  from completed_run_is_marked_failed [OF demo_kg_ok c(1,2) l(1) [folded c(3)] _ f, of p] p l(2,3) c(3)
  show ?thesis by fastforce
qed

end
