(* ===== verification/Handlers.thy ===== *)
theory Handlers
  imports SweepResolution Enrichment
begin

text \<open>
  The resolution handlers of the space pack \<open>resolution-handlers.ssa.ts\<close>, which carry out the actions
  of an accepted suggestion on the catalogue: satellites, payloads and their links, and the queue of
  enrichment jobs. Any statement may fail. Names are compared as the queries compare them:
  \<open>lower(unaccent(_))\<close> is an argument, \<open>LIKE\<close> is not.
\<close>

section \<open>The catalogue\<close>

datatype cell = CNum jsnum | CText string

record catalogue_satellite =
  hs_id :: int
  hs_operator :: "int option"
  hs_regime :: "int option"
  hs_platform :: "int option"
  hs_fields :: "(string, cell) jsmap"

record sim_accepted =
  ha_satellite :: int
  ha_field :: string
  ha_value :: jsnum
  ha_swarm :: "int option"
  ha_prior :: string

record catalogue =
  ct_satellites :: "catalogue_satellite list"
  ct_payloads :: "(int \<times> string) list"
  ct_links :: "(int \<times> int \<times> string option) list"
  ct_countries :: "(int \<times> string \<times> string option) list"
  ct_regimes :: "(int \<times> string) list"
  ct_platforms :: "(int \<times> string) list"
  ct_queue :: "int list"
  ct_accepted :: "sim_accepted list"
  ct_step :: nat

text \<open>
  Which statement, hook call or queue call fails; whether the queue and the hook are wired; the
  normal form, the lower case and the collation key of a name, and the text of a number.
\<close>

record handler_env =
  hn_fails :: "nat \<Rightarrow> exn option"
  hn_queue :: bool
  hn_hook :: bool
  hn_fold :: "string \<Rightarrow> string"
  hn_lower :: "string \<Rightarrow> string"
  hn_collation :: "string \<Rightarrow> string"
  hn_showNum :: "jsnum \<Rightarrow> string"

type_synonym 'a cat = "catalogue \<Rightarrow> 'a throws \<times> catalogue"

definition cat_return :: "'a \<Rightarrow> 'a cat" where
  [js_defs]: "cat_return x = (\<lambda>c. (Inr x, c))"

definition cat_throw :: "exn \<Rightarrow> 'a cat" where
  [js_defs]: "cat_throw e = (\<lambda>c. (Inl e, c))"

definition cat_bind :: "'a cat \<Rightarrow> ('a \<Rightarrow> 'b cat) \<Rightarrow> 'b cat" where
  [js_defs]: "cat_bind m f = (\<lambda>c. case m c of (Inl e, d) \<Rightarrow> (Inl e, d) | (Inr x, d) \<Rightarrow> f x d)"

text \<open>A call of the database, the queue or the hook: it fails, or does its work.\<close>

definition cat_call :: "handler_env \<Rightarrow> (catalogue \<Rightarrow> ('a \<times> catalogue) throws) \<Rightarrow> 'a cat" where
  [js_defs]: "cat_call env f =
     (\<lambda>c. let c' = c\<lparr>ct_step := ct_step c + 1\<rparr> in
       case hn_fails env (ct_step c) of
         Some e \<Rightarrow> (Inl e, c')
       | None \<Rightarrow> (case f c' of Inl e \<Rightarrow> (Inl e, c') | Inr (x, d) \<Rightarrow> (Inr x, d)))"

definition cat_query :: "handler_env \<Rightarrow> (catalogue \<Rightarrow> 'a) \<Rightarrow> 'a cat" where
  [js_defs]: "cat_query env f = cat_call env (\<lambda>c. Inr (f c, c))"

text \<open>A call whose error is dropped: it tells whether the work was done.\<close>

definition cat_attempt :: "'a cat \<Rightarrow> bool cat" where
  [js_defs]: "cat_attempt m = (\<lambda>c. case m c of (Inl e, d) \<Rightarrow> (Inr False, d) | (Inr x, d) \<Rightarrow> (Inr True, d))"

text \<open>A loop over satellites that counts what it did.\<close>

fun count_over :: "('a \<Rightarrow> int cat) \<Rightarrow> 'a list \<Rightarrow> int cat" where
  "count_over f [] = cat_return 0"
| "count_over f (x # xs) = cat_bind (f x) (\<lambda>n. cat_bind (count_over f xs) (\<lambda>m. cat_return (n + m)))"

definition sql_foreign_key :: exn where
  "sql_foreign_key = mk_error ''insert or update violates foreign key constraint''"

section \<open>Names and identifiers\<close>

text \<open>\<open>LIKE\<close>: the percent sign, the underscore, and the backslash that escapes.\<close>

fun sql_like :: "string \<Rightarrow> string \<Rightarrow> bool" where
  "sql_like [] s = (s = [])"
| "sql_like (p # ps) [] = (p = CHR ''%'' \<and> sql_like ps [])"
| "sql_like (p # ps) (c # cs) =
     (if p = CHR ''%'' then sql_like ps (c # cs) \<or> sql_like (p # ps) cs
      else if p = CHR ''_'' then sql_like ps cs
      else if p = CHR 0x5C then (case ps of [] \<Rightarrow> False | q # qs \<Rightarrow> q = c \<and> sql_like qs cs)
      else p = c \<and> sql_like ps cs)"

definition name_like :: "handler_env \<Rightarrow> string \<Rightarrow> string \<Rightarrow> bool" where
  "name_like env given name = sql_like (''%'' @ hn_fold env given @ ''%'') (hn_fold env name)"

text \<open>
  \<open>ORDER BY CASE WHEN lower(name) = lower(given) THEN 0 ELSE 1 END, name LIMIT 10\<close>; \<open>hn_collation\<close> is
  the sort key of the database's collation.
\<close>

definition best_names :: "handler_env \<Rightarrow> string \<Rightarrow> ('a \<Rightarrow> string) \<Rightarrow> 'a list \<Rightarrow> 'a list" where
  "best_names env given name xs =
     take 10 (sort_key (\<lambda>x. (if hn_lower env (name x) = hn_lower env given then 0 else 1 :: nat, hn_collation env (name x)))
       (filter (\<lambda>x. name_like env given (name x)) xs))"

text \<open>\<open>BigInt(s)\<close>.\<close>

definition bigint_of_string :: "string \<Rightarrow> int throws" where
  "bigint_of_string s =
     (case string_bigint s of
        None \<Rightarrow> Inl \<lparr>ename = ''SyntaxError'', emsg = ''Cannot convert '' @ s @ '' to a BigInt''\<rparr>
      | Some i \<Rightarrow> Inr i)"

fun bigints :: "string list \<Rightarrow> int list throws" where
  "bigints [] = Inr []"
| "bigints (s # ss) =
     (case bigint_of_string s of
        Inl e \<Rightarrow> Inl e
      | Inr i \<Rightarrow> (case bigints ss of Inl e \<Rightarrow> Inl e | Inr is \<Rightarrow> Inr (i # is)))"

definition cat_lift :: "'a throws \<Rightarrow> 'a cat" where
  [js_defs]: "cat_lift r = (\<lambda>c. (r, c))"

section \<open>Values of actions\<close>

text \<open>\<open>String(value)\<close>.\<close>

definition value_string :: "handler_env \<Rightarrow> jval \<Rightarrow> string" where
  "value_string env v = js_string (\<lambda>x. hn_showNum env (Fin x)) v"

section \<open>Targets\<close>

definition resolveSatelliteIds :: "handler_env \<Rightarrow> string list option \<Rightarrow> string option \<Rightarrow> int list cat" where
  "resolveSatelliteIds env explicit operator =
     (case explicit of
        None \<Rightarrow> cat_throw \<lparr>ename = ''TypeError'', emsg = ''Cannot read properties of undefined (reading '' @ quoted ''length'' @ '')''\<rparr>
      | Some ids \<Rightarrow>
          if ids \<noteq> [] then cat_lift (bigints ids)
          else (case operator of
                  None \<Rightarrow> cat_return []
                | Some s \<Rightarrow>
                    if s = [] then cat_return []
                    else cat_bind (cat_lift (bigint_of_string s)) (\<lambda>i.
                      cat_query env (\<lambda>c. map hs_id (filter (\<lambda>s. hs_operator s = Some i) (ct_satellites c))))))"

definition findPayloadsByName :: "handler_env \<Rightarrow> string \<Rightarrow> (int \<times> string) list cat" where
  "findPayloadsByName env name = cat_query env (\<lambda>c. best_names env name snd (ct_payloads c))"

definition findOperatorCountriesByName :: "handler_env \<Rightarrow> string \<Rightarrow> (int \<times> string \<times> string option) list cat" where
  "findOperatorCountriesByName env name = cat_query env (\<lambda>c. best_names env name (\<lambda>(_, n, _). n) (ct_countries c))"

section \<open>Results\<close>

definition asResolutionResult :: "int \<Rightarrow> string list \<Rightarrow> jval list \<Rightarrow> handler_result" where
  "asResolutionResult n errors pending =
     \<lparr>hr_ok = (errors = [] \<and> pending = []), hr_affectedRows = n,
      hr_pending = (if pending = [] then None else Some pending), hr_errors = (if errors = [] then None else Some errors)\<rparr>"

definition noTargetSatellites :: handler_result where
  "noTargetSatellites = asResolutionResult 0 [''No target satellites found''] []"

definition withTargetSatelliteIds ::
  "handler_env \<Rightarrow> string option \<Rightarrow> string list option \<Rightarrow> (int list \<Rightarrow> int cat) \<Rightarrow> handler_result cat" where
  "withTargetSatelliteIds env operator explicit run =
     cat_bind (resolveSatelliteIds env explicit operator) (\<lambda>ids.
       if ids = [] then cat_return noTargetSatellites
       else cat_bind (run ids) (\<lambda>n. cat_return (asResolutionResult n [] [])))"

text \<open>A name resolves to one row, or the result asks for a choice or says that there is none.\<close>

datatype disambig = Resolved int | Settled handler_result

type_synonym match_row = "int \<times> string \<times> string option"

definition match_option :: "match_row \<Rightarrow> jval" where
  "match_option r =
     (case r of
        (i, name, detail) \<Rightarrow>
          JObj ([(''value'', JStr (show_int i)), (''label'', JStr name)] @
                (case detail of Some d \<Rightarrow> if d = [] then [] else [(''detail'', JStr d)] | None \<Rightarrow> [])))"

definition resolveOrPrompt ::
  "string option \<Rightarrow> string \<Rightarrow> match_row list cat \<Rightarrow> string \<Rightarrow> string \<Rightarrow> disambig cat" where
  "resolveOrPrompt selected key findByName notFound label =
     (case selected of
        Some s \<Rightarrow> cat_bind (cat_lift (bigint_of_string s)) (\<lambda>i. cat_return (Resolved i))
      | None \<Rightarrow>
          cat_bind findByName (\<lambda>matches.
            case matches of
              [] \<Rightarrow> cat_return (Settled (asResolutionResult 0 [notFound] []))
            | [r] \<Rightarrow> cat_return (Resolved (fst r))
            | _ \<Rightarrow> cat_return (Settled (asResolutionResult 0 []
                     [JObj [(''key'', JStr key), (''label'', JStr label), (''options'', JArr (map match_option matches))]]))))"

section \<open>Updates of satellites\<close>

definition map_satellite :: "int \<Rightarrow> (catalogue_satellite \<Rightarrow> catalogue_satellite) \<Rightarrow> catalogue \<Rightarrow> catalogue" where
  "map_satellite i f c = c\<lparr>ct_satellites := map (\<lambda>s. if hs_id s = i then f s else s) (ct_satellites c)\<rparr>"

definition has_satellite :: "int \<Rightarrow> catalogue \<Rightarrow> bool" where
  "has_satellite i c = (i \<in> set (map hs_id (ct_satellites c)))"

text \<open>
  The repository's \<open>updateField\<close>: five columns. \<open>variant\<close> is a text and \<open>launch_year\<close> an integer; the
  others are \<open>real\<close>, which takes NaN and the infinities too (its rounding is not modelled).
\<close>

definition int4 :: "jsnum \<Rightarrow> bool" where
  "int4 v = (case v of Fin x \<Rightarrow> x = of_int \<lfloor>x\<rfloor> \<and> - 2147483648 \<le> x \<and> x \<le> 2147483647 | _ \<Rightarrow> False)"

definition stored_cell :: "handler_env \<Rightarrow> string \<Rightarrow> jsnum \<Rightarrow> cell throws" where
  "stored_cell env field v =
     (if field = ''variant'' then Inr (CText (hn_showNum env v))
      else if field = ''launch_year'' \<and> \<not> int4 v then Inl (mk_error (''invalid input syntax for type integer: '' @ quoted (hn_showNum env v)))
      else Inr (CNum v))"

definition repo_updateField :: "handler_env \<Rightarrow> int \<Rightarrow> string \<Rightarrow> jsnum \<Rightarrow> unit cat" where
  "repo_updateField env i field v =
     (if field \<in> set (map fst MISSION_WRITABLE_COLUMNS)
      then cat_call env (\<lambda>c.
        case stored_cell env field v of
          Inl e \<Rightarrow> Inl e
        | Inr x \<Rightarrow> Inr ((), map_satellite i (\<lambda>s. s\<lparr>hs_fields := AList.update field x (hs_fields s)\<rparr>) c))
      else cat_throw (mk_error (''fieldSqlFor: unsupported field '' @ quoted field)))"

definition update_scalars :: "handler_env \<Rightarrow> string \<Rightarrow> jsnum \<Rightarrow> int list \<Rightarrow> int cat" where
  "update_scalars env field v ids =
     count_over (\<lambda>i. cat_bind (cat_attempt (repo_updateField env i field v)) (\<lambda>ok. cat_return (if ok then 1 else 0))) ids"

definition updateSatellitesScalar ::
  "handler_env \<Rightarrow> string option \<Rightarrow> string list option \<Rightarrow> string \<Rightarrow> jsnum \<Rightarrow> handler_result cat" where
  "updateSatellitesScalar env operator explicit field v =
     withTargetSatelliteIds env operator explicit (update_scalars env field v)"

datatype fk_column = OperatorColumn | RegimeColumn | PlatformColumn

definition fk_column_of :: "string \<Rightarrow> fk_column option" where
  "fk_column_of field =
     (if field = ''operator_country_id'' then Some OperatorColumn
      else if field = ''orbit_regime_id'' then Some RegimeColumn
      else if field = ''platform_class_id'' then Some PlatformColumn else None)"

definition set_fk :: "fk_column \<Rightarrow> int \<Rightarrow> catalogue_satellite \<Rightarrow> catalogue_satellite" where
  "set_fk col v s =
     (case col of
        OperatorColumn \<Rightarrow> s\<lparr>hs_operator := Some v\<rparr>
      | RegimeColumn \<Rightarrow> s\<lparr>hs_regime := Some v\<rparr>
      | PlatformColumn \<Rightarrow> s\<lparr>hs_platform := Some v\<rparr>)"

definition fk_targets :: "fk_column \<Rightarrow> catalogue \<Rightarrow> int list" where
  "fk_targets col c =
     (case col of
        OperatorColumn \<Rightarrow> map fst (ct_countries c)
      | RegimeColumn \<Rightarrow> map fst (ct_regimes c)
      | PlatformColumn \<Rightarrow> map fst (ct_platforms c))"

definition update_fk_one :: "handler_env \<Rightarrow> fk_column \<Rightarrow> int \<Rightarrow> int \<Rightarrow> int cat" where
  "update_fk_one env col v i =
     cat_call env (\<lambda>c.
       if \<not> has_satellite i c then Inr (0, c)
       else if v \<notin> set (fk_targets col c) then Inl sql_foreign_key
       else Inr (1, map_satellite i (set_fk col v) c))"

definition updateSatellitesFk ::
  "handler_env \<Rightarrow> string option \<Rightarrow> string list option \<Rightarrow> fk_column \<Rightarrow> int \<Rightarrow> handler_result cat" where
  "updateSatellitesFk env operator explicit col v =
     withTargetSatelliteIds env operator explicit (count_over (update_fk_one env col v))"

section \<open>The handlers\<close>

record sim_provenance =
  pv_source :: "string option"
  pv_swarm :: "int option"
  pv_class :: "string option"

text \<open>The five kinds of action, with the fields their schemas give them.\<close>

datatype ssa_action =
    UpdateField "string list option" string jval "sim_provenance option"
  | LinkPayload "string list option" string "string option"
  | UnlinkPayload "string list option" string
  | ReassignOperatorCountry "string list option" string
  | Enrich "string list option"

text \<open>The operator country of the suggestion, as a string, and the reviewer's choices.\<close>

record action_ctx =
  hx_operator :: "string option"
  hx_selectors :: "(string \<times> string) list option"

definition selector :: "action_ctx \<Rightarrow> string \<Rightarrow> string option" where
  "selector ctx key = (case hx_selectors ctx of None \<Rightarrow> None | Some ss \<Rightarrow> map_of ss key)"

definition resolveAndUpdate :: "handler_env \<Rightarrow> string \<Rightarrow> fk_column \<Rightarrow> string \<Rightarrow> string option \<Rightarrow> string list option \<Rightarrow> handler_result cat" where
  "resolveAndUpdate env field col name operator explicit =
     (let exact = (\<lambda>rows. map (\<lambda>(i, n). (i, n, None)) (take 5 (filter (\<lambda>(_, n). hn_fold env n = hn_fold env name) rows)));
          table = (case col of OperatorColumn \<Rightarrow> ''operator-country'' | RegimeColumn \<Rightarrow> ''orbit_regime'' | PlatformColumn \<Rightarrow> ''platform_class'');
          findByName =
            (case col of
               OperatorColumn \<Rightarrow> findOperatorCountriesByName env name
             | RegimeColumn \<Rightarrow> cat_query env (\<lambda>c. exact (ct_regimes c))
             | PlatformColumn \<Rightarrow> cat_query env (\<lambda>c. exact (ct_platforms c)));
          label = (case col of OperatorColumn \<Rightarrow> ''Select operator-country: '' @ name | _ \<Rightarrow> ''Select: '' @ name) in
      cat_bind (resolveOrPrompt None field findByName (table @ '' not found: '' @ name) label) (\<lambda>d.
        case d of
          Settled r \<Rightarrow> cat_return r
        | Resolved i \<Rightarrow> updateSatellitesFk env operator explicit col i))"

definition FIELD_MAP :: "(string \<times> string) list" where
  "FIELD_MAP =
     [(''mass_kg'', ''massKg''), (''launch_year'', ''launchYear''), (''power_draw'', ''powerDraw''),
      (''thermal_margin'', ''thermalMargin''), (''pointing_accuracy'', ''pointingAccuracy''), (''attitude_rate'', ''attitudeRate''),
      (''link_budget'', ''linkBudget''), (''data_rate'', ''dataRate''), (''payload_duty'', ''payloadDuty''),
      (''eclipse_ratio'', ''eclipseRatio'')]"

definition drizzle_field :: "string \<Rightarrow> string" where
  "drizzle_field field = (case map_of FIELD_MAP field of Some d \<Rightarrow> d | None \<Rightarrow> field)"

text \<open>The hook of accepted simulation updates; its errors are dropped.\<close>

definition accept_sim :: "handler_env \<Rightarrow> sim_accepted \<Rightarrow> int cat" where
  "accept_sim env ev =
     cat_bind (cat_attempt (cat_call env (\<lambda>c. Inr ((), c\<lparr>ct_accepted := ct_accepted c @ [ev]\<rparr>)))) (\<lambda>_. cat_return 0)"

definition sim_event :: "string \<Rightarrow> jsnum \<Rightarrow> sim_provenance \<Rightarrow> int \<Rightarrow> sim_accepted" where
  "sim_event field v p i =
     \<lparr>ha_satellite = i, ha_field = field, ha_value = v, ha_swarm = pv_swarm p,
      ha_prior = (case pv_class p of Some c \<Rightarrow> c | None \<Rightarrow> ''SIM_UNCORROBORATED'')\<rparr>"

definition handle_update_field ::
  "handler_env \<Rightarrow> action_ctx \<Rightarrow> string list option \<Rightarrow> string \<Rightarrow> jval \<Rightarrow> sim_provenance option \<Rightarrow> handler_result cat" where
  "handle_update_field env ctx explicit field value prov =
     (if value = JNull \<or> value = JUndef then cat_return (asResolutionResult 0 [] [])
      else
        (case fk_column_of field of
           Some col \<Rightarrow>
             (case selector ctx field of
                Some s \<Rightarrow>
                  if s \<noteq> []
                  then cat_bind (cat_lift (bigint_of_string s)) (\<lambda>i. updateSatellitesFk env (hx_operator ctx) explicit col i)
                  else resolveAndUpdate env field col (value_string env value) (hx_operator ctx) explicit
              | None \<Rightarrow> resolveAndUpdate env field col (value_string env value) (hx_operator ctx) explicit)
         | None \<Rightarrow>
             cat_bind (updateSatellitesScalar env (hx_operator ctx) explicit (drizzle_field field) (to_number value)) (\<lambda>r.
               case prov of
                 Some p \<Rightarrow>
                   if 0 < hr_affectedRows r \<and> pv_source p = Some ''sim_swarm_telemetry'' \<and> hn_hook env
                   then cat_bind (resolveSatelliteIds env explicit (hx_operator ctx)) (\<lambda>ids.
                          cat_bind (count_over (\<lambda>i. accept_sim env (sim_event field (to_number value) p i)) ids) (\<lambda>_. cat_return r))
                   else cat_return r
               | None \<Rightarrow> cat_return r)))"

definition link_one :: "handler_env \<Rightarrow> int \<Rightarrow> string option \<Rightarrow> int \<Rightarrow> int cat" where
  "link_one env payload role i =
     cat_bind (cat_attempt (cat_call env (\<lambda>c.
         if \<not> has_satellite i c \<or> payload \<notin> set (map fst (ct_payloads c)) then Inl sql_foreign_key
         else if (i, payload) \<in> set (map (\<lambda>(s, p, _). (s, p)) (ct_links c)) then Inr ((), c)
         else Inr ((), c\<lparr>ct_links := ct_links c @ [(i, payload, role)]\<rparr>))))
       (\<lambda>ok. cat_return (if ok then 1 else 0))"

definition handle_link_payload ::
  "handler_env \<Rightarrow> action_ctx \<Rightarrow> string list option \<Rightarrow> string \<Rightarrow> string option \<Rightarrow> handler_result cat" where
  "handle_link_payload env ctx explicit name role =
     cat_bind (resolveOrPrompt (selector ctx ''payload'') ''payload''
                 (cat_bind (findPayloadsByName env name) (\<lambda>rows. cat_return (map (\<lambda>(i, n). (i, n, Some (''ID '' @ show_int i))) rows)))
                 (''Payload not found: '' @ name) (''Select payload: '' @ name)) (\<lambda>d.
       case d of
         Settled r \<Rightarrow> cat_return r
       | Resolved payload \<Rightarrow> withTargetSatelliteIds env (hx_operator ctx) explicit (count_over (link_one env payload role)))"

definition unlink_one :: "handler_env \<Rightarrow> int \<Rightarrow> int \<Rightarrow> int cat" where
  "unlink_one env i payload =
     cat_call env (\<lambda>c.
       let gone = (\<lambda>(s, p, _). s = i \<and> p = payload) in
       Inr (int (length (filter gone (ct_links c))), c\<lparr>ct_links := filter (\<lambda>l. \<not> gone l) (ct_links c)\<rparr>))"

definition handle_unlink_payload :: "handler_env \<Rightarrow> action_ctx \<Rightarrow> string list option \<Rightarrow> string \<Rightarrow> handler_result cat" where
  "handle_unlink_payload env ctx explicit name =
     cat_bind (resolveSatelliteIds env explicit (hx_operator ctx)) (\<lambda>ids.
       if ids = [] then cat_return noTargetSatellites
       else cat_bind (findPayloadsByName env name) (\<lambda>payloads.
         if payloads = [] then cat_return (asResolutionResult 0 [''Payload not found: '' @ name] [])
         else cat_bind (count_over (\<lambda>i. count_over (unlink_one env i) (map fst payloads)) ids) (\<lambda>n.
           cat_return (asResolutionResult n [] []))))"

definition handle_reassign :: "handler_env \<Rightarrow> action_ctx \<Rightarrow> string list option \<Rightarrow> string \<Rightarrow> handler_result cat" where
  "handle_reassign env ctx explicit toName =
     cat_bind (resolveOrPrompt (selector ctx ''operator_country'') ''operator_country'' (findOperatorCountriesByName env toName)
                 (''Operator-country not found: '' @ toName) (''Select operator-country: '' @ toName)) (\<lambda>d.
       case d of
         Settled r \<Rightarrow> cat_return r
       | Resolved target \<Rightarrow> updateSatellitesFk env (hx_operator ctx) explicit OperatorColumn target)"

text \<open>The error of the queue becomes the result; what was queued before stays queued.\<close>

definition enqueue_one :: "handler_env \<Rightarrow> int \<Rightarrow> int cat" where
  "enqueue_one env i = cat_call env (\<lambda>c. Inr (1, c\<lparr>ct_queue := ct_queue c @ [i]\<rparr>))"

definition handle_enrich :: "handler_env \<Rightarrow> action_ctx \<Rightarrow> string list option \<Rightarrow> handler_result cat" where
  "handle_enrich env ctx explicit =
     cat_bind (resolveSatelliteIds env explicit (hx_operator ctx)) (\<lambda>ids.
       if ids = [] then cat_return noTargetSatellites
       else if \<not> hn_queue env then cat_return (asResolutionResult 0 [''Enrichment queue not wired''] [])
       else (\<lambda>c. case count_over (enqueue_one env) ids c of
                   (Inl e, d) \<Rightarrow> (Inr (asResolutionResult 0 [''Failed to queue enrichment: '' @ emsg e] []), d)
                 | (Inr n, d) \<Rightarrow> (Inr (asResolutionResult (int (length ids)) [] []), d)))"

fun handle_action :: "handler_env \<Rightarrow> action_ctx \<Rightarrow> ssa_action \<Rightarrow> handler_result cat" where
  "handle_action env ctx (UpdateField ids field value prov) = handle_update_field env ctx ids field value prov"
| "handle_action env ctx (LinkPayload ids name role) = handle_link_payload env ctx ids name role"
| "handle_action env ctx (UnlinkPayload ids name) = handle_unlink_payload env ctx ids name"
| "handle_action env ctx (ReassignOperatorCountry ids toName) = handle_reassign env ctx ids toName"
| "handle_action env ctx (Enrich ids) = handle_enrich env ctx ids"

text \<open>The registry, for the resolution service: the handlers by kind, on a catalogue.\<close>

fun action_kind :: "ssa_action \<Rightarrow> string" where
  "action_kind (UpdateField _ _ _ _) = ''update_field''"
| "action_kind (LinkPayload _ _ _) = ''link_payload''"
| "action_kind (UnlinkPayload _ _) = ''unlink_payload''"
| "action_kind (ReassignOperatorCountry _ _) = ''reassign_operator_country''"
| "action_kind (Enrich _) = ''enrich''"

definition action_ids :: "ssa_action \<Rightarrow> string list option" where
  "action_ids a =
     (case a of
        UpdateField ids _ _ _ \<Rightarrow> ids
      | LinkPayload ids _ _ \<Rightarrow> ids
      | UnlinkPayload ids _ \<Rightarrow> ids
      | ReassignOperatorCountry ids _ \<Rightarrow> ids
      | Enrich ids \<Rightarrow> ids)"

section \<open>What a handler may change\<close>

text \<open>The satellites an action is about: the listed ones, or all of the suggestion's operator country.\<close>

definition target_ids :: "string list option \<Rightarrow> string option \<Rightarrow> catalogue \<Rightarrow> int list option" where
  "target_ids explicit operator c =
     (case explicit of
        None \<Rightarrow> None
      | Some ids \<Rightarrow>
          if ids \<noteq> [] then (case bigints ids of Inl _ \<Rightarrow> None | Inr is \<Rightarrow> Some is)
          else (case operator of
                  None \<Rightarrow> Some []
                | Some s \<Rightarrow>
                    if s = [] then Some []
                    else (case bigint_of_string s of
                            Inl _ \<Rightarrow> None
                          | Inr i \<Rightarrow> Some (map hs_id (filter (\<lambda>s. hs_operator s = Some i) (ct_satellites c))))))"

text \<open>Nothing but the satellites \<open>I\<close>, their links, the queue and the log of the hook may differ.\<close>

definition touches_only :: "int set \<Rightarrow> catalogue \<Rightarrow> catalogue \<Rightarrow> bool" where
  "touches_only I c d =
     (list_all2 (\<lambda>s t. hs_id s = hs_id t \<and> (hs_id s \<notin> I \<longrightarrow> s = t)) (ct_satellites c) (ct_satellites d) \<and>
      filter (\<lambda>l. fst l \<notin> I) (ct_links c) = filter (\<lambda>l. fst l \<notin> I) (ct_links d) \<and>
      ct_payloads c = ct_payloads d \<and> ct_countries c = ct_countries d \<and> ct_regimes c = ct_regimes d \<and> ct_platforms c = ct_platforms d)"

definition same_tables :: "catalogue \<Rightarrow> catalogue \<Rightarrow> bool" where
  "same_tables c d =
     (ct_satellites c = ct_satellites d \<and> ct_links c = ct_links d \<and> ct_payloads c = ct_payloads d \<and>
      ct_countries c = ct_countries d \<and> ct_regimes c = ct_regimes d \<and> ct_platforms c = ct_platforms d \<and> ct_accepted c = ct_accepted d)"

lemma same_tables_refl [simp]: "same_tables c c"
  by (simp add: same_tables_def)

lemma same_tables_trans: "same_tables a b \<Longrightarrow> same_tables b c \<Longrightarrow> same_tables a c"
  by (simp add: same_tables_def)

lemma touches_same: "same_tables c d \<Longrightarrow> touches_only I c d"
  by (auto simp: same_tables_def touches_only_def list_all2_same)

lemma touches_trans:
  assumes "touches_only I a b" and "touches_only I b c"
  shows "touches_only I a c"
proof -
  let ?R = "\<lambda>s t. hs_id s = hs_id t \<and> (hs_id s \<notin> I \<longrightarrow> s = t)"
  have step: "list_all2 ?R (ct_satellites a) (ct_satellites b)" "list_all2 ?R (ct_satellites b) (ct_satellites c)"
    using assms by (simp_all only: touches_only_def)
  have "?R s u" if "?R s t" "?R t u" for s t u using that by metis
  from list_all2_trans [of ?R ?R ?R, OF this step] have "list_all2 ?R (ct_satellites a) (ct_satellites c)" .
  then show ?thesis using assms by (simp add: touches_only_def)
qed

text \<open>A computation whose effect stays within a relation, whatever fails.\<close>

definition confined :: "(catalogue \<Rightarrow> catalogue \<Rightarrow> bool) \<Rightarrow> 'a cat \<Rightarrow> bool" where
  "confined R m = (\<forall>c. R c (snd (m c)))"

locale effect_relation =
  fixes R :: "catalogue \<Rightarrow> catalogue \<Rightarrow> bool"
  assumes same: "same_tables c d \<Longrightarrow> R c d"
    and trans: "R a b \<Longrightarrow> R b c \<Longrightarrow> R a c"
begin

lemma step: "R c (c\<lparr>ct_step := n\<rparr>)"
  by (rule same) (simp add: same_tables_def)

lemma return: "confined R (cat_return x)" "confined R (cat_throw e)" "confined R (cat_lift r)"
  using same [OF same_tables_refl] by (simp_all add: confined_def cat_return_def cat_throw_def cat_lift_def)

lemma bind: "confined R m \<Longrightarrow> (\<And>x. confined R (f x)) \<Longrightarrow> confined R (cat_bind m f)"
  unfolding confined_def cat_bind_def by (auto split: prod.split sum.split) (metis snd_conv trans)+

lemma attempt: "confined R m \<Longrightarrow> confined R (cat_attempt m)"
  unfolding confined_def cat_attempt_def by (auto split: prod.split sum.split) (metis snd_conv)+

lemma call: "(\<And>c x d. f c = Inr (x, d) \<Longrightarrow> R c d) \<Longrightarrow> confined R (cat_call env f)"
  unfolding confined_def cat_call_def Let_def using step trans by (fastforce split: option.split sum.split)

lemma query: "confined R (cat_query env f)"
  unfolding cat_query_def by (rule call) (auto intro: same)

lemma over: "(\<And>x. x \<in> set xs \<Longrightarrow> confined R (f x)) \<Longrightarrow> confined R (count_over f xs)"
  by (induction xs) (auto intro!: bind return)

end

interpretation untouched: effect_relation same_tables
  by unfold_locales (auto intro: same_tables_trans)

interpretation touched: effect_relation "touches_only I" for I
  by unfold_locales (auto intro: touches_same touches_trans)

lemma confinedD: "confined R m \<Longrightarrow> m c = (r, d) \<Longrightarrow> R c d"
  unfolding confined_def by (metis snd_conv)

lemma map_satellite_touches: "(\<And>s. hs_id (f s) = hs_id s) \<Longrightarrow> i \<in> I \<Longrightarrow> touches_only I c (map_satellite i f c)"
  by (auto simp: touches_only_def map_satellite_def list_all2_conv_all_nth)

lemma targets_same: "confined same_tables (resolveSatelliteIds env explicit operator)"
  unfolding resolveSatelliteIds_def
  by (auto intro!: untouched.return untouched.bind untouched.query split: option.split)

lemma targets_value: "resolveSatelliteIds env explicit operator c = (Inr ids, d) \<Longrightarrow> target_ids explicit operator c = Some ids"
  by (auto simp: resolveSatelliteIds_def target_ids_def cat_throw_def cat_lift_def cat_return_def cat_bind_def cat_query_def cat_call_def
      Let_def split: option.splits if_splits sum.splits)

lemma prompt_same: "confined same_tables lookup \<Longrightarrow> confined same_tables (resolveOrPrompt selected key lookup nf label)"
  unfolding resolveOrPrompt_def
  by (auto intro!: untouched.return untouched.bind split: option.split list.split)

lemma prompt_settled: "resolveOrPrompt selected key lookup nf label c = (Inr (Settled r), d) \<Longrightarrow> \<not> hr_ok r"
  by (auto simp: resolveOrPrompt_def cat_bind_def cat_lift_def cat_return_def asResolutionResult_def
      split: option.splits list.splits prod.splits sum.splits)

lemma target_ids_cong: "ct_satellites c = ct_satellites c1 \<Longrightarrow> target_ids explicit operator c1 = target_ids explicit operator c"
proof -
  assume s: "ct_satellites c = ct_satellites c1"
  show ?thesis unfolding target_ids_def s ..
qed

text \<open>What is promised of every handler.\<close>

definition proper :: "catalogue \<Rightarrow> string list option \<Rightarrow> string option \<Rightarrow> handler_result throws \<Rightarrow> catalogue \<Rightarrow> bool" where
  "proper c explicit operator res d =
     ((\<exists>ids. (ids = [] \<or> target_ids explicit operator c = Some ids) \<and> touches_only (set ids) c d) \<and>
      (\<forall>r. res = Inr r \<and> \<not> hr_ok r \<longrightarrow> same_tables c d))"

lemma proper_after: "same_tables c c1 \<Longrightarrow> proper c1 explicit operator res d \<Longrightarrow> proper c explicit operator res d"
proof -
  assume s: "same_tables c c1" and p: "proper c1 explicit operator res d"
  have "target_ids explicit operator c1 = target_ids explicit operator c" using s by (intro target_ids_cong) (simp add: same_tables_def)
  then show ?thesis using p s unfolding proper_def by (metis touches_same touches_trans same_tables_trans)
qed

lemma proper_same: "same_tables c d \<Longrightarrow> proper c explicit operator res d"
  unfolding proper_def by (metis touches_same)

lemma proper_bind:
  assumes "cat_bind m f c = (res, d)" and "confined same_tables m"
    and "\<And>x c1. m c = (Inr x, c1) \<Longrightarrow> f x c1 = (res, d) \<Longrightarrow> proper c1 explicit operator res d"
  shows "proper c explicit operator res d"
proof (cases "m c")
  case (Pair x c1)
  have s: "same_tables c c1" by (rule confinedD [OF assms(2) Pair])
  show ?thesis
  proof (cases x)
    case (Inl e)
    then show ?thesis using assms(1) Pair s by (auto simp: cat_bind_def intro: proper_same)
  next
    case (Inr y)
    have "f y c1 = (res, d)" using assms(1) Pair Inr by (simp add: cat_bind_def)
    from assms(3) [OF Pair [unfolded Inr] this] show ?thesis by (rule proper_after [OF s])
  qed
qed

lemma proper_targets:
  assumes run: "cat_bind (run ids) g c1 = (res, d)" and targets: "target_ids explicit operator c1 = Some ids"
    and confined: "confined (touches_only (set ids)) (run ids)" and finish: "\<And>n. \<exists>r. g n = cat_return r \<and> hr_ok r"
  shows "proper c1 explicit operator res d"
proof (cases "run ids c1")
  case (Pair x c2)
  have t: "touches_only (set ids) c1 c2" by (rule confinedD [OF confined Pair])
  show ?thesis
  proof (cases x)
    case (Inl e)
    then show ?thesis using run Pair t targets by (auto simp: cat_bind_def proper_def)
  next
    case (Inr n)
    obtain r where "g n = cat_return r" "hr_ok r" using finish by blast
    then show ?thesis using run Pair t targets Inr by (auto simp: cat_bind_def cat_return_def proper_def)
  qed
qed

lemma target_ids_after:
  assumes "resolveSatelliteIds env explicit operator c = (Inr ids, c1)"
  shows "target_ids explicit operator c1 = Some ids"
proof -
  have "ct_satellites c = ct_satellites c1" using confinedD [OF targets_same assms] by (simp add: same_tables_def)
  then have "target_ids explicit operator c1 = target_ids explicit operator c" by (rule target_ids_cong)
  also have "\<dots> = Some ids" by (rule targets_value [OF assms])
  finally show ?thesis .
qed

lemma with_targets_proper:
  assumes run: "withTargetSatelliteIds env operator explicit f c = (res, d)" and "\<And>ids. confined (touches_only (set ids)) (f ids)"
  shows "proper c explicit operator res d"
  using run unfolding withTargetSatelliteIds_def
proof (rule proper_bind [OF _ targets_same])
  fix ids c1
  assume ids: "resolveSatelliteIds env explicit operator c = (Inr ids, c1)"
    and rest: "(if ids = [] then cat_return noTargetSatellites
      else cat_bind (f ids) (\<lambda>n. cat_return (asResolutionResult n [] []))) c1 = (res, d)"
  show "proper c1 explicit operator res d"
  proof (cases "ids = []")
    case True
    then show ?thesis using rest by (auto simp: cat_return_def intro: proper_same)
  next
    case False
    then have "cat_bind (f ids) (\<lambda>n. cat_return (asResolutionResult n [] [])) c1 = (res, d)" using rest by simp
    then show ?thesis by (rule proper_targets [where run = f, OF _ target_ids_after [OF ids] assms(2)]) (auto simp: asResolutionResult_def)
  qed
qed

lemma set_fk_id [simp]: "hs_id (set_fk col v s) = hs_id s"
  by (cases col) (simp_all add: set_fk_def)

lemma fk_confined: "i \<in> I \<Longrightarrow> confined (touches_only I) (update_fk_one env col v i)"
  unfolding update_fk_one_def
  by (rule touched.call) (auto split: if_splits intro: map_satellite_touches touches_same)

lemma scalars_confined: "confined (touches_only (set ids)) (update_scalars env field v ids)"
proof -
  have "confined (touches_only I) (repo_updateField env i field v)" if "i \<in> I" for i I
    unfolding repo_updateField_def using that
    by (auto intro!: touched.call touched.return map_satellite_touches split: sum.splits)
  then show ?thesis unfolding update_scalars_def
    by (intro touched.over touched.bind touched.attempt touched.return) auto
qed

lemma link_confined: "i \<in> I \<Longrightarrow> confined (touches_only I) (link_one env payload role i)"
  unfolding link_one_def
  by (intro touched.bind touched.attempt touched.call touched.return) (auto simp: touches_only_def list_all2_same split: if_splits)

lemma unlink_confined: "i \<in> I \<Longrightarrow> confined (touches_only I) (unlink_one env i payload)"
  unfolding unlink_one_def
  by (rule touched.call) (auto simp: touches_only_def list_all2_same Let_def intro!: filter_cong)

lemma fk_proper: "updateSatellitesFk env operator explicit col v c = (res, d) \<Longrightarrow> proper c explicit operator res d"
  unfolding updateSatellitesFk_def
  by (erule with_targets_proper) (auto intro!: touched.over fk_confined)

lemma resolve_update_proper:
  assumes "resolveAndUpdate env field col name operator explicit c = (res, d)"
  shows "proper c explicit operator res d"
  using assms unfolding resolveAndUpdate_def Let_def
proof (rule proper_bind)
  show "confined same_tables (resolveOrPrompt None field (case col of
       OperatorColumn \<Rightarrow> findOperatorCountriesByName env name
     | RegimeColumn \<Rightarrow> cat_query env (\<lambda>c. map (\<lambda>(i, n). (i, n, None)) (take 5 (filter (\<lambda>(_, n). hn_fold env n = hn_fold env name) (ct_regimes c))))
     | PlatformColumn \<Rightarrow> cat_query env (\<lambda>c. map (\<lambda>(i, n). (i, n, None)) (take 5 (filter (\<lambda>(_, n). hn_fold env n = hn_fold env name) (ct_platforms c)))))
     nf label)" for nf label
    by (rule prompt_same) (cases col; simp add: findOperatorCountriesByName_def untouched.query)
next
  fix x c1
  assume "(case x of Settled r \<Rightarrow> cat_return r | Resolved i \<Rightarrow> updateSatellitesFk env operator explicit col i) c1 = (res, d)"
  then show "proper c1 explicit operator res d"
    by (cases x) (auto simp: cat_return_def intro: fk_proper proper_same)
qed

lemma prompted_proper:
  assumes "cat_bind (resolveOrPrompt selected key lookup nf label) (\<lambda>d. case d of Settled r \<Rightarrow> cat_return r | Resolved i \<Rightarrow> f i) c = (res, d)"
    and "confined same_tables lookup" and "\<And>i c1. f i c1 = (res, d) \<Longrightarrow> proper c1 explicit operator res d"
  shows "proper c explicit operator res d"
  using assms(1) prompt_same [OF assms(2)]
proof (rule proper_bind)
  fix x c1
  assume "(case x of Settled r \<Rightarrow> cat_return r | Resolved i \<Rightarrow> f i) c1 = (res, d)"
  then show "proper c1 explicit operator res d"
    using assms(3) by (cases x) (auto simp: cat_return_def intro: proper_same)
qed

text \<open>A scalar update: the hook after it changes no table but its log.\<close>

lemma accept_confined: "confined (touches_only I) (accept_sim env ev)"
  unfolding accept_sim_def
  by (intro touched.bind touched.attempt touched.call touched.return) (auto simp: touches_only_def list_all2_same)

lemma scalar_proper:
  assumes "cat_bind (updateSatellitesScalar env operator explicit field v) (\<lambda>r.
     case prov of
       Some p \<Rightarrow>
         if 0 < hr_affectedRows r \<and> pv_source p = Some ''sim_swarm_telemetry'' \<and> hn_hook env
         then cat_bind (resolveSatelliteIds env explicit operator) (\<lambda>ids.
                cat_bind (count_over (\<lambda>i. accept_sim env (sim_event f w p i)) ids) (\<lambda>_. cat_return r))
         else cat_return r
     | None \<Rightarrow> cat_return r) c = (res, d)"
  shows "proper c explicit operator res d"
proof (cases "updateSatellitesScalar env operator explicit field v c")
  case (Pair x c1)
  have first: "proper c explicit operator x c1"
    using Pair unfolding updateSatellitesScalar_def by (rule with_targets_proper) (rule scalars_confined)
  show ?thesis
  proof (cases x)
    case (Inl e)
    then show ?thesis using assms Pair first by (auto simp: cat_bind_def)
  next
    case (Inr r)
    let ?hook = "cat_bind (resolveSatelliteIds env explicit operator) (\<lambda>ids.
        cat_bind (count_over (\<lambda>i. accept_sim env (sim_event f w p i)) ids) (\<lambda>_. cat_return r))"
    consider (plain) "res = Inr r" "d = c1"
      | (hooked) p where "0 < hr_affectedRows r" "cat_bind (resolveSatelliteIds env explicit operator) (\<lambda>ids.
          cat_bind (count_over (\<lambda>i. accept_sim env (sim_event f w p i)) ids) (\<lambda>_. cat_return r)) c1 = (res, d)"
      using assms Pair Inr by (auto simp: cat_bind_def [of "updateSatellitesScalar env operator explicit field v"] cat_return_def
          split: option.splits if_splits)
    then show ?thesis
    proof cases
      case plain
      then show ?thesis using first Inr by simp
    next
      case (hooked p)
      have "confined (touches_only I) (cat_bind (resolveSatelliteIds env explicit operator) (\<lambda>ids.
          cat_bind (count_over (\<lambda>i. accept_sim env (sim_event f w p i)) ids) (\<lambda>_. cat_return r)))" for I
      proof (intro touched.bind touched.over touched.return accept_confined)
        show "confined (touches_only I) (resolveSatelliteIds env explicit operator)"
          using targets_same touches_same unfolding confined_def by blast
      qed
      then have t: "touches_only I c1 d" for I using confinedD hooked(2) by blast
      have "hr_ok r" using Pair Inr hooked(1)
        by (auto simp: updateSatellitesScalar_def withTargetSatelliteIds_def cat_bind_def cat_return_def noTargetSatellites_def
            asResolutionResult_def split: prod.splits sum.splits if_splits)
      moreover have "r' = r" if "res = Inr r'" for r'
        using hooked(2) that by (auto simp: cat_bind_def cat_return_def split: prod.splits sum.splits)
      ultimately show ?thesis using first t Inr touches_trans unfolding proper_def by metis
    qed
  qed
qed

section \<open>Properties\<close>

lemma handler_proper:
  assumes "handle_action env ctx act c = (res, d)"
  shows "proper c (action_ids act) (hx_operator ctx) res d"
proof (cases act)
  case (UpdateField explicit field v prov)
  have run: "handle_update_field env ctx explicit field v prov c = (res, d)" using assms UpdateField by simp
  show ?thesis
  proof (cases "v = JNull \<or> v = JUndef")
    case True
    then show ?thesis using run by (auto simp: handle_update_field_def cat_return_def intro: proper_same)
  next
    case given: False
    show ?thesis
    proof (cases "fk_column_of field")
      case (Some col)
      then consider "resolveAndUpdate env field col (value_string env v) (hx_operator ctx) explicit c = (res, d)"
        | s where "cat_bind (cat_lift (bigint_of_string s)) (\<lambda>i. updateSatellitesFk env (hx_operator ctx) explicit col i) c = (res, d)"
        using run given by (auto simp: handle_update_field_def split: option.splits if_splits)
      then show ?thesis
      proof cases
        case 1
        then show ?thesis using UpdateField by (simp add: action_ids_def resolve_update_proper)
      next
        case (2 s)
        then have "proper c explicit (hx_operator ctx) res d"
          by (rule proper_bind [OF _ untouched.return(3)]) (rule fk_proper)
        then show ?thesis using UpdateField by (simp add: action_ids_def)
      qed
    next
      case None
      show ?thesis using run given None UpdateField scalar_proper by (simp add: action_ids_def handle_update_field_def)
    qed
  qed
next
  case (LinkPayload explicit name role)
  have "proper c explicit (hx_operator ctx) res d"
    using assms [unfolded LinkPayload] unfolding handle_action.simps handle_link_payload_def
  proof (rule prompted_proper)
    show "confined same_tables (cat_bind (findPayloadsByName env name) (\<lambda>rows. cat_return (map (\<lambda>(i, n). (i, n, Some (''ID '' @ show_int i))) rows)))"
      by (intro untouched.bind untouched.return) (simp add: findPayloadsByName_def untouched.query)
  next
    fix i c1
    assume "withTargetSatelliteIds env (hx_operator ctx) explicit (count_over (link_one env i role)) c1 = (res, d)"
    then show "proper c1 explicit (hx_operator ctx) res d"
      by (rule with_targets_proper) (auto intro!: touched.over link_confined)
  qed
  then show ?thesis using LinkPayload by (simp add: action_ids_def)
next
  case (UnlinkPayload explicit name)
  have "proper c explicit (hx_operator ctx) res d"
    using assms [unfolded UnlinkPayload] unfolding handle_action.simps handle_unlink_payload_def
  proof (rule proper_bind [OF _ targets_same])
    fix ids c1
    assume ids: "resolveSatelliteIds env explicit (hx_operator ctx) c = (Inr ids, c1)"
      and rest: "(if ids = [] then cat_return noTargetSatellites
        else cat_bind (findPayloadsByName env name) (\<lambda>payloads.
          if payloads = [] then cat_return (asResolutionResult 0 [''Payload not found: '' @ name] [])
          else cat_bind (count_over (\<lambda>i. count_over (unlink_one env i) (map fst payloads)) ids) (\<lambda>n.
            cat_return (asResolutionResult n [] [])))) c1 = (res, d)"
    show "proper c1 explicit (hx_operator ctx) res d"
    proof (cases "ids = []")
      case True
      then show ?thesis using rest by (auto simp: cat_return_def intro: proper_same)
    next
      case False
      then have "cat_bind (findPayloadsByName env name) (\<lambda>payloads.
          if payloads = [] then cat_return (asResolutionResult 0 [''Payload not found: '' @ name] [])
          else cat_bind (count_over (\<lambda>i. count_over (unlink_one env i) (map fst payloads)) ids) (\<lambda>n.
            cat_return (asResolutionResult n [] []))) c1 = (res, d)" using rest by simp
      then show ?thesis
      proof (rule proper_bind)
        show same: "confined same_tables (findPayloadsByName env name)" by (simp add: findPayloadsByName_def untouched.query)
        fix payloads c2
        assume p: "findPayloadsByName env name c1 = (Inr payloads, c2)"
          and rest: "(if payloads = [] then cat_return (asResolutionResult 0 [''Payload not found: '' @ name] [])
          else cat_bind (count_over (\<lambda>i. count_over (unlink_one env i) (map fst payloads)) ids) (\<lambda>n.
            cat_return (asResolutionResult n [] []))) c2 = (res, d)"
        have "ct_satellites c1 = ct_satellites c2" using confinedD [OF same p] by (simp add: same_tables_def)
        then have t: "target_ids explicit (hx_operator ctx) c2 = Some ids" using target_ids_after [OF ids] target_ids_cong by metis
        show "proper c2 explicit (hx_operator ctx) res d"
        proof (cases "payloads = []")
          case True
          then show ?thesis using rest by (auto simp: cat_return_def intro: proper_same)
        next
          case False
          then have "cat_bind (count_over (\<lambda>i. count_over (unlink_one env i) (map fst payloads)) ids) (\<lambda>n.
            cat_return (asResolutionResult n [] [])) c2 = (res, d)" using rest by simp
          then show ?thesis
            by (rule proper_targets [where run = "count_over (\<lambda>i. count_over (unlink_one env i) (map fst payloads))", OF _ t])
              (auto intro!: touched.over unlink_confined simp: asResolutionResult_def)
        qed
      qed
    qed
  qed
  then show ?thesis using UnlinkPayload by (simp add: action_ids_def)
next
  case (ReassignOperatorCountry explicit toName)
  have "proper c explicit (hx_operator ctx) res d"
    using assms [unfolded ReassignOperatorCountry] unfolding handle_action.simps handle_reassign_def
    by (rule prompted_proper) (auto simp: findOperatorCountriesByName_def untouched.query intro: fk_proper)
  then show ?thesis using ReassignOperatorCountry by (simp add: action_ids_def)
next
  case (Enrich explicit)
  have enq: "confined same_tables (count_over (enqueue_one env) ids)" for ids
    unfolding enqueue_one_def by (intro untouched.over untouched.call) (auto simp: same_tables_def)
  have "proper c explicit (hx_operator ctx) res d"
    using assms [unfolded Enrich] unfolding handle_action.simps handle_enrich_def
    by (rule proper_bind [OF _ targets_same])
      (auto simp: cat_return_def intro: proper_same dest: confinedD [OF enq] split: if_splits prod.splits sum.splits)
  then show ?thesis using Enrich by (simp add: action_ids_def)
qed

lemma mapped_not_writable: "field \<in> set (map fst FIELD_MAP) \<Longrightarrow> drizzle_field field \<notin> set (map fst MISSION_WRITABLE_COLUMNS)"
  by (auto simp: FIELD_MAP_def drizzle_field_def MISSION_WRITABLE_COLUMNS_def)

lemma mapped_not_key: "field \<in> set (map fst FIELD_MAP) \<Longrightarrow> fk_column_of field = None"
  by (auto simp: FIELD_MAP_def fk_column_of_def)

lemma refused_scalars: "field \<notin> set (map fst MISSION_WRITABLE_COLUMNS) \<Longrightarrow> update_scalars env field v ids c = (Inr 0, c)"
  unfolding update_scalars_def
  by (induction ids) (simp_all add: repo_updateField_def cat_bind_def cat_attempt_def cat_throw_def cat_return_def)

lemma mapped_update:
  assumes "field \<in> set (map fst FIELD_MAP)" and "v \<noteq> JNull" "v \<noteq> JUndef" and "bigints ss = Inr is" "ss \<noteq> []"
  shows "handle_action env ctx (UpdateField (Some ss) field v prov) c = (Inr (asResolutionResult 0 [] []), c)"
proof -
  have "is \<noteq> []" using assms(4,5) by (cases ss) (auto split: sum.splits)
  then have "updateSatellitesScalar env (hx_operator ctx) (Some ss) (drizzle_field field) (to_number v) c = (Inr (asResolutionResult 0 [] []), c)"
    using assms(4,5) refused_scalars [OF mapped_not_writable [OF assms(1)]]
    by (simp add: updateSatellitesScalar_def withTargetSatelliteIds_def resolveSatelliteIds_def cat_bind_def cat_lift_def cat_return_def)
  then show ?thesis using assms(2,3) mapped_not_key [OF assms(1)]
    by (simp add: handle_update_field_def cat_bind_def cat_return_def asResolutionResult_def split: option.split)
qed

text \<open>C23: Whatever fails, a handler changes only the satellites its action is about, the listed ones or those
  of the suggestion's operator country, and their payload links; and a handler that reports an error
  or asks the reviewer for a choice has changed no table.\<close>

theorem handlers_touch_only_their_targets:
  assumes "handle_action env ctx act c = (res, d)"
  shows "(\<exists>ids. (ids = [] \<or> target_ids (action_ids act) (hx_operator ctx) c = Some ids) \<and> touches_only (set ids) c d) \<and>
    (\<forall>r. res = Inr r \<and> \<not> hr_ok r \<longrightarrow> same_tables c d)"
  using handler_proper [OF assms] by (simp add: proper_def)

text \<open>C24: An accepted suggestion for a mass, a launch year or any telemetry scalar is never written: the
  handler maps the column to a name the repository refuses, drops the refusal and reports success, so
  the catalogue is unchanged while the suggestion ends as a success, which is final.\<close>

theorem mapped_columns_resolve_without_writing:
  assumes "field \<in> set (map fst FIELD_MAP)" and "v \<noteq> JNull" "v \<noteq> JUndef" and "bigints ss = Inr is" "ss \<noteq> []"
    and "rv_handler renv ''update_field'' = Some h"
    and "\<And>n sel. h n (''update_field'', obj) sel =
      fst (handle_action env \<lparr>hx_operator = operator, hx_selectors = map_option (\<lambda>p. [p]) sel\<rparr> (UpdateField (Some ss) field v prov) c)"
    and "sg_resolutionPayload g = Some p" "p \<noteq> []" "rv_parsePayload renv p = PayloadActions [(''update_field'', obj)]"
  shows "snd (handle_action env ctx (UpdateField (Some ss) field v prov) c) = c \<and>
    rs_status (fst (resolveLoaded port renv i g sel (s, lg))) = ''success''"
proof -
  have a: "h n (''update_field'', obj) sel = Inr (asResolutionResult 0 [] [])" for n sel
    using assms(7) mapped_update [OF assms(1-5)] by simp
  have "dispatch_all renv i sel [(''update_field'', obj)] lg = (\<lparr>da_total = 0, da_errors = [], da_pending = []\<rparr>, lg @ [(i, ''update_field'')])"
    using assms(6) a by (simp add: dispatch_all_def dispatch_one_def asResolutionResult_def opt_list_def)
  then have "rs_status (fst (resolveLoaded port renv i g sel (s, lg))) = ''success''"
    using assms(8,9,10) by (simp add: resolveLoaded_def conclude_def final_status_def Let_def)
  moreover have "snd (handle_action env ctx (UpdateField (Some ss) field v prov) c) = c" using mapped_update [OF assms(1-5)] by simp
  ultimately show ?thesis by simp
qed

lemma call_calm: "hn_fails env = (\<lambda>_. None) \<Longrightarrow> cat_query env f c = (Inr (f (c\<lparr>ct_step := ct_step c + 1\<rparr>)), c\<lparr>ct_step := ct_step c + 1\<rparr>)"
  by (simp add: cat_query_def cat_call_def Let_def)

lemma unlink_payloads_calm:
  assumes "hn_fails env = (\<lambda>_. None)"
  shows "\<exists>n d. count_over (unlink_one env i) ps c = (Inr n, d) \<and>
    ct_links d = filter (\<lambda>(s, p, _). \<not> (s = i \<and> p \<in> set ps)) (ct_links c)"
proof (induction ps arbitrary: c)
  case Nil
  then show ?case by (simp add: cat_return_def)
next
  case (Cons q qs)
  obtain n c1 where one: "unlink_one env i q c = (Inr n, c1)" "ct_links c1 = filter (\<lambda>(s, p, _). \<not> (s = i \<and> p = q)) (ct_links c)"
    using assms by (simp add: unlink_one_def cat_call_def Let_def case_prod_unfold)
  obtain m d where rest: "count_over (unlink_one env i) qs c1 = (Inr m, d)"
    "ct_links d = filter (\<lambda>(s, p, _). \<not> (s = i \<and> p \<in> set qs)) (ct_links c1)" using Cons by blast
  have "ct_links d = filter (\<lambda>(s, p, _). \<not> (s = i \<and> p \<in> set (q # qs))) (ct_links c)"
    unfolding rest(2) one(2) filter_filter by (rule filter_cong) auto
  then show ?case using one(1) rest(1) by (simp add: cat_bind_def cat_return_def)
qed

lemma unlink_satellites_calm:
  assumes "hn_fails env = (\<lambda>_. None)"
  shows "\<exists>n d. count_over (\<lambda>i. count_over (unlink_one env i) ps) is c = (Inr n, d) \<and>
    ct_links d = filter (\<lambda>(s, p, _). \<not> (s \<in> set is \<and> p \<in> set ps)) (ct_links c)"
proof (induction "is" arbitrary: c)
  case Nil
  then show ?case by (simp add: cat_return_def case_prod_unfold)
next
  case (Cons j js)
  obtain n c1 where one: "count_over (unlink_one env j) ps c = (Inr n, c1)"
    "ct_links c1 = filter (\<lambda>(s, p, _). \<not> (s = j \<and> p \<in> set ps)) (ct_links c)" using unlink_payloads_calm [OF assms] by blast
  obtain m d where rest: "count_over (\<lambda>i. count_over (unlink_one env i) ps) js c1 = (Inr m, d)"
    "ct_links d = filter (\<lambda>(s, p, _). \<not> (s \<in> set js \<and> p \<in> set ps)) (ct_links c1)" using Cons by blast
  have "ct_links d = filter (\<lambda>(s, p, _). \<not> (s \<in> set (j # js) \<and> p \<in> set ps)) (ct_links c)"
    unfolding rest(2) one(2) filter_filter by (rule filter_cong) auto
  then show ?case using one(1) rest(1) by (simp add: cat_bind_def cat_return_def)
qed

text \<open>C29: Unlinking a payload by name removes the links of the target satellites to every payload, up to ten,
  whose name merely contains the given one, without asking; where linking by the same name finds
  several payloads, it changes nothing and asks the reviewer which one is meant.\<close>

theorem unlink_removes_what_link_would_ask_about:
  assumes "hn_fails env = (\<lambda>_. None)" and "bigints ss = Inr is" "ss \<noteq> []" and "hx_selectors ctx = None"
    and "1 < length (best_names env name snd (ct_payloads c))"
  shows "(\<exists>r d. handle_action env ctx (UnlinkPayload (Some ss) name) c = (Inr r, d) \<and> hr_ok r \<and>
      ct_links d = filter (\<lambda>(s, p, _). \<not> (s \<in> set is \<and> p \<in> fst ` set (best_names env name snd (ct_payloads c)))) (ct_links c)) \<and>
    (\<exists>r d. handle_action env ctx (LinkPayload (Some ss) name role) c = (Inr r, d) \<and> hr_pending r \<noteq> None \<and> same_tables c d)"
proof
  let ?rows = "best_names env name snd (ct_payloads c)" and ?c1 = "c\<lparr>ct_step := ct_step c + 1\<rparr>"
  have "is \<noteq> []" using assms(2,3) by (cases ss) (auto split: sum.splits)
  have found: "findPayloadsByName env name c = (Inr ?rows, ?c1)" using assms(1) by (simp add: findPayloadsByName_def call_calm)
  obtain n d where u: "count_over (\<lambda>i. count_over (unlink_one env i) (map fst ?rows)) is ?c1 = (Inr n, d)"
    "ct_links d = filter (\<lambda>(s, p, _). \<not> (s \<in> set is \<and> p \<in> set (map fst ?rows))) (ct_links ?c1)"
    using unlink_satellites_calm [OF assms(1)] by blast
  have "?rows \<noteq> []" using assms(5) by auto
  then have "handle_action env ctx (UnlinkPayload (Some ss) name) c = (Inr (asResolutionResult n [] []), d)"
    using assms(2,3) \<open>is \<noteq> []\<close> found u(1)
    by (simp add: handle_unlink_payload_def resolveSatelliteIds_def cat_bind_def cat_lift_def cat_return_def)
  moreover have "ct_links d = filter (\<lambda>(s, p, _). \<not> (s \<in> set is \<and> p \<in> fst ` set ?rows)) (ct_links c)" using u(2) by simp
  ultimately show "\<exists>r d. handle_action env ctx (UnlinkPayload (Some ss) name) c = (Inr r, d) \<and> hr_ok r \<and>
      ct_links d = filter (\<lambda>(s, p, _). \<not> (s \<in> set is \<and> p \<in> fst ` set ?rows)) (ct_links c)"
    by (auto simp: asResolutionResult_def)
  obtain x y zs where rows: "?rows = x # y # zs" using assms(5) by (cases ?rows rule: remdups_adj.cases) auto
  have "selector ctx ''payload'' = None" using assms(4) by (simp add: selector_def)
  then show "\<exists>r d. handle_action env ctx (LinkPayload (Some ss) name role) c = (Inr r, d) \<and> hr_pending r \<noteq> None \<and> same_tables c d"
    using found rows
    by (simp add: handle_link_payload_def resolveOrPrompt_def cat_bind_def cat_return_def asResolutionResult_def same_tables_def)
qed

section \<open>Instances\<close>

definition demo_handlers :: handler_env where
  "demo_handlers = \<lparr>hn_fails = (\<lambda>_. None), hn_queue = True, hn_hook = True, hn_fold = id, hn_lower = id, hn_collation = id, hn_showNum = (\<lambda>_. ''NaN'')\<rparr>"

definition demo_catalogue :: catalogue where
  "demo_catalogue =
     \<lparr>ct_satellites = [\<lparr>hs_id = 7, hs_operator = Some 1, hs_regime = None, hs_platform = None, hs_fields = []\<rparr>,
                      \<lparr>hs_id = 8, hs_operator = Some 1, hs_regime = None, hs_platform = None, hs_fields = []\<rparr>],
      ct_payloads = [(2, ''SAR-2''), (1, ''SAR'')], ct_links = [(7, 2, None), (8, 1, None)], ct_countries = [(1, ''France'', None)],
      ct_regimes = [], ct_platforms = [], ct_queue = [], ct_accepted = [], ct_step = 0\<rparr>"

definition demo_ctx :: action_ctx where
  "demo_ctx = \<lparr>hx_operator = Some ''1'', hx_selectors = None\<rparr>"

lemma demo_unlink:
  "handle_action demo_handlers demo_ctx (UnlinkPayload (Some [''7'']) ''SAR-2'') demo_catalogue =
     (Inr (asResolutionResult 1 [] []), demo_catalogue\<lparr>ct_links := [(8, 1, None)], ct_step := 2\<rparr>)"
  by code_simp

theorem handlers_touch_only_their_targets_witness:
  "\<exists>ids. (ids = [] \<or> target_ids (Some [''7'']) (Some ''1'') demo_catalogue = Some ids) \<and>
     touches_only (set ids) demo_catalogue (demo_catalogue\<lparr>ct_links := [(8, 1, None)], ct_step := 2\<rparr>)"
  using handlers_touch_only_their_targets [OF demo_unlink] by (simp add: action_ids_def demo_ctx_def)

lemma demo_best: "best_names demo_handlers ''SAR'' snd (ct_payloads demo_catalogue) = [(1, ''SAR''), (2, ''SAR-2'')]"
  by code_simp

lemma demo_bigints: "bigints [''7''] = Inr [7]"
  by code_simp

theorem unlink_removes_what_link_would_ask_about_witness:
  "\<exists>r d. handle_action demo_handlers \<lparr>hx_operator = None, hx_selectors = None\<rparr> (UnlinkPayload (Some [''7'']) ''SAR'') demo_catalogue = (Inr r, d) \<and>
     hr_ok r \<and> ct_links d = [(8, 1, None)]"
proof -
  have "1 < length (best_names demo_handlers ''SAR'' snd (ct_payloads demo_catalogue))" by (simp add: demo_best)
  from unlink_removes_what_link_would_ask_about [where ctx = "\<lparr>hx_operator = None, hx_selectors = None\<rparr>" and role = None, OF _ demo_bigints _ _ this]
  obtain r d where "handle_action demo_handlers \<lparr>hx_operator = None, hx_selectors = None\<rparr> (UnlinkPayload (Some [''7'']) ''SAR'') demo_catalogue = (Inr r, d)"
    "hr_ok r" "ct_links d = filter (\<lambda>(s, p, _). \<not> (s \<in> set [7] \<and> p \<in> fst ` set [(1, ''SAR''), (2, ''SAR-2'')])) (ct_links demo_catalogue)"
    by (auto simp: demo_handlers_def [THEN arg_cong, of hn_fails] demo_best)
  then show ?thesis by (simp add: demo_catalogue_def)
qed


definition demo_sim_row :: sugg_row where
  "demo_sim_row =
     \<lparr>sg_id = ''1'', sg_domain = ''ssa'', sg_createdAt = ''t'', sg_accepted = Some True, sg_reviewedAt = None, sg_reviewerNote = None,
      sg_resolutionStatus = ''pending'', sg_resolvedAt = None, sg_resolutionErrors = None, sg_simSwarmId = Some ''4'',
      sg_simDistribution = None, sg_domainFields = [], sg_resolutionPayload = Some ''p''\<rparr>"

definition demo_power_action :: ssa_action where
  "demo_power_action = UpdateField (Some [''7'']) ''power_draw'' (JNum 12) None"

definition demo_field_env :: res_env where
  "demo_field_env = demo_res_env\<lparr>rv_parsePayload := \<lambda>_. PayloadActions [(''update_field'', JNull)],
     rv_handler := \<lambda>k. if k = ''update_field''
       then Some (\<lambda>_ _ sel. fst (handle_action demo_handlers \<lparr>hx_operator = None, hx_selectors = map_option (\<lambda>p. [p]) sel\<rparr>
              demo_power_action demo_catalogue)) else None\<rparr>"

theorem mapped_columns_resolve_without_writing_witness:
  "snd (handle_action demo_handlers demo_ctx demo_power_action demo_catalogue) = demo_catalogue \<and>
   rs_status (fst (resolveLoaded (repo_port demo_repo) demo_field_env ''1'' demo_sim_row None (empty_store, []))) = ''success''"
  unfolding demo_power_action_def
  by (rule mapped_columns_resolve_without_writing
      [where h = "\<lambda>_ _ sel. fst (handle_action demo_handlers \<lparr>hx_operator = None, hx_selectors = map_option (\<lambda>p. [p]) sel\<rparr>
              demo_power_action demo_catalogue)" and operator = None and obj = JNull and p = "''p''", OF _ _ _ demo_bigints])
    (simp_all add: FIELD_MAP_def demo_field_env_def demo_sim_row_def demo_power_action_def)

end
