(* ===== verification/Outcome.thy ===== *)
theory Outcome
  imports SimTurns "HOL-Library.Multiset" "HOL-Library.List_Lexorder" "HOL-Library.Char_ord"
begin

text \<open>
  What a swarm concludes: the schema of the space pack's turn actions
  (\<open>agent/ssa/sim/action-schema.ts\<close>), the statistics \<open>sweep/src/sim/utils/stats.ts\<close>, and the two
  numeric aggregators \<open>aggregators/telemetry.ts\<close> and \<open>aggregators/pc.ts\<close> over the simulation tables.
  Stored actions are read through the schema that admitted them when the agent answered.
\<close>

section \<open>Turn actions\<close>

definition TELEMETRY_SCALAR_KEYS :: "string list" where
  "TELEMETRY_SCALAR_KEYS =
     [''powerDraw'', ''thermalMargin'', ''pointingAccuracy'', ''attitudeRate'', ''linkBudget'', ''dataRate'',
      ''payloadDuty'', ''eclipseRatio'']"

definition PC_MODES :: "string list" where
  "PC_MODES = [''elliptical-overlap'', ''short-encounter'', ''long-encounter'', ''unknown'']"

definition PC_FLAGS :: "string list" where
  "PC_FLAGS = [''low-data'', ''high-uncertainty'', ''degraded-covariance'', ''field-required'']"

text \<open>The ten kinds, with the fields the aggregators and the promotion read.\<close>

datatype ssa_turn_action =
    Maneuver real real
  | ProposeSplit real real
  | Accept
  | Reject
  | Launch real "real option"
  | Retire real
  | Lobby string string
  | Hold
  | InferTelemetry real "(string \<times> real \<times> string) list" real
  | EstimatePc real real string "string list"

definition num_where :: "(real \<Rightarrow> bool) \<Rightarrow> jval \<Rightarrow> string \<Rightarrow> real option" where
  "num_where P a k = (case field_of a k of Some (JNum x) \<Rightarrow> if P x then Some x else None | _ \<Rightarrow> None)"

definition str_where :: "(string \<Rightarrow> bool) \<Rightarrow> jval \<Rightarrow> string \<Rightarrow> string option" where
  "str_where P a k = (case field_of a k of Some (JStr s) \<Rightarrow> if P s then Some s else None | _ \<Rightarrow> None)"

definition pos_int :: "real \<Rightarrow> bool" where "pos_int x = (0 < x \<and> x = of_int \<lfloor>x\<rfloor>)"
definition unit_interval :: "real \<Rightarrow> bool" where "unit_interval x = (0 \<le> x \<and> x \<le> 1)"

definition scalar_value :: "jval \<Rightarrow> string \<Rightarrow> (string \<times> real \<times> string) option" where
  "scalar_value scalars key =
     (case field_of scalars key of
        None \<Rightarrow> None
      | Some s \<Rightarrow>
          (case (num_where (\<lambda>_. True) s ''value'', str_where (\<lambda>u. 1 \<le> length u \<and> length u \<le> 16) s ''unit'') of
             (Some v, Some u) \<Rightarrow> Some (key, v, u)
           | _ \<Rightarrow> None))"

definition enum_list :: "string list \<Rightarrow> jval option \<Rightarrow> string list option" where
  "enum_list allowed v =
     (case v of
        None \<Rightarrow> Some []
      | Some JUndef \<Rightarrow> Some []
      | Some (JArr xs) \<Rightarrow> those (map (\<lambda>x. case x of JStr s \<Rightarrow> if s \<in> set allowed then Some s else None | _ \<Rightarrow> None) xs)
      | Some _ \<Rightarrow> None)"

definition optional_field :: "(jval \<Rightarrow> string \<Rightarrow> 'a option) \<Rightarrow> jval \<Rightarrow> string \<Rightarrow> 'a option option" where
  "optional_field get a k =
     (case field_of a k of None \<Rightarrow> Some None | Some JUndef \<Rightarrow> Some None | Some _ \<Rightarrow> map_option Some (get a k))"

definition non_empty :: "string \<Rightarrow> bool" where "non_empty s = (s \<noteq> [])"

text \<open>What \<open>estimate_pc\<close> must carry besides the fields that are read.\<close>

definition pc_details_ok :: "jval \<Rightarrow> bool" where
  "pc_details_ok a =
     (str_where (\<lambda>s. length s \<le> 600) a ''rationale'' \<noteq> None \<and>
      (case field_of a ''pcBand'' of
         None \<Rightarrow> False
       | Some b \<Rightarrow> num_where unit_interval b ''p5'' \<noteq> None \<and> num_where unit_interval b ''p50'' \<noteq> None \<and>
                  num_where unit_interval b ''p95'' \<noteq> None) \<and>
      (case field_of a ''assumptions'' of
         None \<Rightarrow> False
       | Some b \<Rightarrow> num_where (\<lambda>x. 0 < x) b ''hardBodyRadiusMeters'' \<noteq> None \<and>
                  str_where (\<lambda>s. s \<in> {''tight'', ''nominal'', ''loose''}) b ''covarianceScale'' \<noteq> None \<and>
                  str_where (\<lambda>s. length s \<le> 120) b ''conjunctionGeometry'' \<noteq> None))"

text \<open>\<open>turnActionSchema\<close>: by kind, every field with its constraints.\<close>

definition decode_fields :: "string \<Rightarrow> jval \<Rightarrow> ssa_turn_action option" where
  "decode_fields kind a =
     (if kind = ''maneuver''
      then (case (num_where pos_int a ''satelliteId'', num_where (\<lambda>x. 0 \<le> x) a ''deltaVmps'') of
              (Some i, Some v) \<Rightarrow> Some (Maneuver i v) | _ \<Rightarrow> None)
      else if kind = ''propose_split''
      then (case (num_where (\<lambda>x. 0 \<le> x) a ''ownShareDeltaV'', num_where (\<lambda>x. 0 \<le> x) a ''counterpartyShareDeltaV'') of
              (Some x, Some y) \<Rightarrow> Some (ProposeSplit x y) | _ \<Rightarrow> None)
      else if kind = ''accept'' then Some Accept
      else if kind = ''reject'' then Some Reject
      else if kind = ''launch''
      then (case (num_where pos_int a ''satelliteCount'', optional_field (num_where pos_int) a ''regimeId'') of
              (Some n, Some r) \<Rightarrow> Some (Launch n r) | _ \<Rightarrow> None)
      else if kind = ''retire'' then map_option Retire (num_where pos_int a ''satelliteId'')
      else if kind = ''lobby''
      then (case (str_where non_empty a ''policyTopic'', str_where (\<lambda>s. s \<in> {''support'', ''oppose''}) a ''stance'') of
              (Some t, Some s) \<Rightarrow> Some (Lobby t s) | _ \<Rightarrow> None)
      else if kind = ''hold'' then Some Hold
      else if kind = ''infer_telemetry''
      then (case (num_where pos_int a ''satelliteId'', field_of a ''scalars'', num_where unit_interval a ''confidence'') of
              (Some i, Some scalars, Some c) \<Rightarrow>
                map_option (\<lambda>ss. InferTelemetry i ss c) (those (map (scalar_value scalars) TELEMETRY_SCALAR_KEYS))
            | _ \<Rightarrow> None)
      else None)"

definition decode_action :: "turn_action \<Rightarrow> ssa_turn_action option" where
  "decode_action a =
     (case field_of a ''kind'' of
        Some (JStr kind) \<Rightarrow>
          if kind = ''estimate_pc''
          then (case (num_where pos_int a ''conjunctionId'', num_where unit_interval a ''pcEstimate'',
                      str_where (\<lambda>s. s \<in> set PC_MODES) a ''dominantMode'', enum_list PC_FLAGS (field_of a ''flags'')) of
                  (Some i, Some p, Some mode, Some flags) \<Rightarrow> if pc_details_ok a then Some (EstimatePc i p mode flags) else None
                | _ \<Rightarrow> None)
          else if str_where non_empty a ''reason'' \<noteq> None then decode_fields kind a else None
      | _ \<Rightarrow> None)"

section \<open>Statistics\<close>

definition average :: "real list \<Rightarrow> real" where
  "average xs = (if xs = [] then 0 else sum_list xs / of_nat (length xs))"

definition sampleStddev :: "real list \<Rightarrow> real \<Rightarrow> real" where
  "sampleStddev xs mean =
     (if length xs < 2 then 0 else sqrt (sum_list (map (\<lambda>x. (x - mean) * (x - mean)) xs) / (of_nat (length xs) - 1)))"

text \<open>For a \<open>p\<close> between 0 and 1, as in every call.\<close>

definition stats_percentile :: "real list \<Rightarrow> real \<Rightarrow> real" where
  "stats_percentile xs p =
     (if xs = [] then 0
      else if length xs = 1 then hd xs
      else (let idx = (of_nat (length xs) - 1) * p; lo = nat \<lfloor>idx\<rfloor>; hi = nat \<lceil>idx\<rceil> in
            if lo = hi then xs ! lo else xs ! lo + (xs ! hi - xs ! lo) * (idx - of_nat lo)))"

definition stats_clamp :: "real \<Rightarrow> real \<Rightarrow> real \<Rightarrow> real" where
  "stats_clamp v lo hi = min hi (max lo v)"

definition count_votes :: "string list \<Rightarrow> (string, nat) jsmap" where
  "count_votes xs = foldl (\<lambda>m x. AList.update x ((case map_of m x of Some n \<Rightarrow> n | None \<Rightarrow> 0) + 1) m) [] xs"

definition mostFrequent :: "string list \<Rightarrow> string" where
  "mostFrequent xs =
     fst (foldl (\<lambda>(best, n) (x, k). if k > n then (x, k) else (best, n)) (case xs of [] \<Rightarrow> [] | x # _ \<Rightarrow> x, 0) (count_votes xs))"

section \<open>The telemetry aggregator\<close>

record scalar_stats =
  sm_median :: real
  sm_sigma :: real
  sm_min :: real
  sm_max :: real
  sm_mean :: real
  sm_n :: nat
  sm_values :: "real list"
  sm_unit :: string
  sm_confidence :: real

record telemetry_aggregate =
  ta_swarm :: int
  ta_satellite :: real
  ta_total :: int
  ta_succeeded :: nat
  ta_failed :: nat
  ta_quorumMet :: bool
  ta_scalars :: "(string \<times> scalar_stats) list"
  ta_confidence :: real

text \<open>The actions of the finished fish, in the order of the rows.\<close>

definition done_actions :: "int \<Rightarrow> sim_db \<Rightarrow> (int \<times> int \<times> ssa_turn_action) list" where
  "done_actions swarm db =
     List.map_filter (\<lambda>(run, fish, status, action).
         if status = RunDone then map_option (\<lambda>a. (run, fish, a)) (Option.bind action decode_action) else None)
       (listTerminalActionsForSwarm swarm db)"

definition count_runs :: "run_status \<Rightarrow> int \<Rightarrow> sim_db \<Rightarrow> nat" where
  "count_runs st swarm db = length (filter (\<lambda>(_, _, status, _). status = st) (listTerminalActionsForSwarm swarm db))"

definition telemetry_points :: "string \<Rightarrow> ssa_turn_action list \<Rightarrow> (real \<times> string \<times> real) list" where
  "telemetry_points key actions =
     List.map_filter (\<lambda>a. case a of
         InferTelemetry _ scalars c \<Rightarrow> map_option (\<lambda>(v, u). (v, u, c)) (map_of scalars key)
       | _ \<Rightarrow> None) actions"

definition scalar_stats_of :: "(real \<times> string \<times> real) list \<Rightarrow> scalar_stats" where
  "scalar_stats_of pts =
     (let values = sort (map fst pts); mean = average values in
      \<lparr>sm_median = stats_percentile values (1 / 2), sm_sigma = sampleStddev values mean, sm_min = hd values, sm_max = last values,
       sm_mean = mean, sm_n = length values, sm_values = values, sm_unit = mostFrequent (map (fst \<circ> snd) pts),
       sm_confidence = average (map (snd \<circ> snd) pts)\<rparr>)"

definition telemetry_scalars :: "ssa_turn_action list \<Rightarrow> (string \<times> scalar_stats) list" where
  "telemetry_scalars actions =
     List.map_filter (\<lambda>key. let pts = telemetry_points key actions in if pts = [] then None else Some (key, scalar_stats_of pts))
       TELEMETRY_SCALAR_KEYS"

definition variation :: "scalar_stats \<Rightarrow> real" where
  "variation st = sm_sigma st / (if \<bar>sm_median st\<bar> > 1 / 10 ^ 9 then \<bar>sm_median st\<bar> else max 1 (sm_max st))"

definition sim_confidence :: "scalar_stats list \<Rightarrow> real" where
  "sim_confidence sts =
     (if sts = [] then 0
      else (let penalty = min (25 / 100) (average (map variation sts) * (1 / 2));
                raw = max 0 (average (map sm_confidence sts) - penalty)
            in stats_clamp raw (1 / 10) (35 / 100)))"

definition target_satellite :: "swarm_row option \<Rightarrow> real option" where
  "target_satellite s =
     (case s of
        None \<Rightarrow> None
      | Some r \<Rightarrow> (case map_of (sw_baseSeed r) ''telemetryTargetSatelliteId'' of Some (JNum x) \<Rightarrow> Some x | _ \<Rightarrow> None))"

definition telemetryAggregate :: "int \<Rightarrow> real option \<Rightarrow> sim_db \<Rightarrow> telemetry_aggregate option" where
  "telemetryAggregate swarm quorumPct db =
     (let s = swarm_findById swarm db; pct = (case quorumPct of Some q \<Rightarrow> q | None \<Rightarrow> 8 / 10) in
      case target_satellite s of
        None \<Rightarrow> None
      | Some sat \<Rightarrow>
          (let size = (case s of Some r \<Rightarrow> sw_size r | None \<Rightarrow> 0);
               finished = count_runs RunDone swarm db; failed = count_runs RunFailed swarm db;
               scalars = telemetry_scalars (map (snd \<circ> snd) (done_actions swarm db)) in
           Some (if int finished < \<lceil>of_int size * pct\<rceil>
                 then \<lparr>ta_swarm = swarm, ta_satellite = sat, ta_total = size, ta_succeeded = finished, ta_failed = failed,
                       ta_quorumMet = False, ta_scalars = [], ta_confidence = 0\<rparr>
                 else \<lparr>ta_swarm = swarm, ta_satellite = sat, ta_total = size, ta_succeeded = finished, ta_failed = failed,
                       ta_quorumMet = True, ta_scalars = scalars, ta_confidence = sim_confidence (map snd scalars)\<rparr>)))"

section \<open>The collision-probability aggregator\<close>

datatype pc_severity = PcHigh | PcMedium | PcInfo

record pc_sample =
  qs_conjunction :: real
  qs_estimate :: real
  qs_mode :: string
  qs_flags :: "string list"
  qs_fish :: int
  qs_run :: "int option"

record pc_cluster =
  qc_label :: string
  qc_members :: "int list"
  qc_fish :: int
  qc_run :: "int option"
  qc_mode :: string
  qc_flags :: "string list"
  qc_range :: "real \<times> real"
  qc_count :: nat

record pc_aggregate =
  qa_conjunction :: real
  qa_median :: real
  qa_sigma :: real
  qa_p5 :: real
  qa_p95 :: real
  qa_count :: nat
  qa_clusters :: "pc_cluster list"
  qa_samples :: "real list"
  qa_severity :: pc_severity

definition severityFromMedian :: "real \<Rightarrow> pc_severity" where
  "severityFromMedian m = (if m \<ge> 1 / 1000 then PcHigh else if m \<ge> 1 / 10000 then PcMedium else PcInfo)"

text \<open>Lines 99 to 118; the fish and the run come with the action, or are its position and nothing.\<close>

definition estimate_of :: "(int option \<times> int option) list \<Rightarrow> nat \<times> ssa_turn_action \<Rightarrow> pc_sample option" where
  "estimate_of metadata ia =
     (case snd ia of
        EstimatePc cid p mode flags \<Rightarrow>
          (let i = fst ia; (fish, run) = (if i < length metadata then metadata ! i else (None, None)) in
           Some \<lparr>qs_conjunction = cid, qs_estimate = p, qs_mode = mode, qs_flags = flags,
                 qs_fish = (case fish of Some f \<Rightarrow> f | None \<Rightarrow> int i), qs_run = run\<rparr>)
      | _ \<Rightarrow> None)"

definition pc_estimates :: "ssa_turn_action list \<Rightarrow> (int option \<times> int option) list \<Rightarrow> pc_sample list" where
  "pc_estimates actions metadata = List.map_filter (estimate_of metadata) (enumerate 0 actions)"

definition cluster_key :: "string \<Rightarrow> string list \<Rightarrow> string" where
  "cluster_key mode flags = mode @ ''|'' @ join '','' flags"

type_synonym pc_groups = "(string, string \<times> string list \<times> pc_sample list) jsmap"

definition add_sample :: "pc_groups \<Rightarrow> pc_sample \<Rightarrow> pc_groups" where
  "add_sample m e =
     (let flags = sort (qs_flags e); key = cluster_key (qs_mode e) flags;
          (mode, fs, samples) = (case map_of m key of Some g \<Rightarrow> g | None \<Rightarrow> (qs_mode e, flags, []))
      in AList.update key (mode, fs, samples @ [e]) m)"

definition clusterLabel :: "string \<Rightarrow> string list \<Rightarrow> string" where
  "clusterLabel mode flags = (if flags = [] then mode else mode @ '' / '' @ join ''+'' flags)"

definition pc_cluster_of :: "string \<times> string list \<times> pc_sample list \<Rightarrow> pc_cluster" where
  "pc_cluster_of g =
     (case g of
        (mode, flags, samples) \<Rightarrow>
          (let ordered = sort_key qs_estimate samples; exemplar = ordered ! ((length ordered - 1) div 2) in
           \<lparr>qc_label = clusterLabel mode flags, qc_members = sort (map qs_fish samples), qc_fish = qs_fish exemplar,
            qc_run = qs_run exemplar, qc_mode = mode, qc_flags = flags,
            qc_range = (qs_estimate (hd ordered), qs_estimate (last ordered)), qc_count = length samples\<rparr>))"

definition pc_clusters :: "pc_sample list \<Rightarrow> pc_cluster list" where
  "pc_clusters estimates =
     sort_key (\<lambda>c. - int (qc_count c))
       (map pc_cluster_of (filter (\<lambda>(_, _, samples). \<not> length samples < 2) (map snd (foldl add_sample [] estimates))))"

text \<open>The fallback conjunction is not read: a validated estimate has its own.\<close>

definition computePcAggregate :: "ssa_turn_action list \<Rightarrow> (int option \<times> int option) list \<Rightarrow> pc_aggregate option" where
  "computePcAggregate actions metadata =
     (let estimates = pc_estimates actions metadata; samples = sort (map qs_estimate estimates);
          median = stats_percentile samples (1 / 2) in
      if estimates = [] then None
      else Some
       \<lparr>qa_conjunction = qs_conjunction (hd estimates), qa_median = median, qa_sigma = sampleStddev samples (average samples),
        qa_p5 = stats_percentile samples (5 / 100), qa_p95 = stats_percentile samples (95 / 100), qa_count = length estimates,
        qa_clusters = pc_clusters estimates, qa_samples = samples, qa_severity = severityFromMedian median\<rparr>)"

definition pcAggregate :: "int \<Rightarrow> sim_db \<Rightarrow> pc_aggregate option" where
  "pcAggregate swarm db =
     (let rows = done_actions swarm db in
      computePcAggregate (map (snd \<circ> snd) rows) (map (\<lambda>(run, fish, _). (Some fish, Some run)) rows))"


section \<open>Averages and percentiles\<close>

lemma sum_list_bounds:
  "(\<And>x. x \<in> set xs \<Longrightarrow> lo \<le> x \<and> x \<le> hi) \<Longrightarrow> of_nat (length xs) * lo \<le> sum_list xs \<and> sum_list xs \<le> of_nat (length xs) * (hi :: real)"
  by (induction xs) (fastforce simp: algebra_simps)+

lemma average_bounds:
  assumes "xs \<noteq> []" and "\<And>x. x \<in> set xs \<Longrightarrow> lo \<le> x \<and> x \<le> hi"
  shows "lo \<le> average xs" "average xs \<le> hi"
  using assms sum_list_bounds [of xs lo hi] by (auto simp: average_def field_simps)

lemma sorted_bounds: "sorted xs \<Longrightarrow> xs \<noteq> [] \<Longrightarrow> x \<in> set xs \<Longrightarrow> hd xs \<le> x \<and> x \<le> (last xs :: 'a :: linorder)"
  by (induction xs) (auto split: if_splits)

lemma stddev_nonneg: "0 \<le> sampleStddev xs m"
proof (cases "length xs < 2")
  case False
  have "0 \<le> sum_list (map (\<lambda>x. (x - m) * (x - m)) xs)" by (rule sum_list_nonneg) auto
  then show ?thesis using False by (simp add: sampleStddev_def)
qed (simp add: sampleStddev_def)

lemma stddev_zero: "sampleStddev xs m = 0 \<longleftrightarrow> length xs < 2 \<or> (\<forall>x \<in> set xs. x = m)"
proof (cases "length xs < 2")
  case False
  have "sum_list (map (\<lambda>x. (x - m) * (x - m)) xs) = 0 \<longleftrightarrow> (\<forall>x \<in> set (map (\<lambda>x. (x - m) * (x - m)) xs). x = 0)"
    by (rule sum_list_nonneg_eq_0_iff) auto
  then show ?thesis using False by (auto simp: sampleStddev_def)
qed (simp add: sampleStddev_def)

text \<open>The value at a fractional position lies between its neighbours and grows with the position.\<close>

definition interpolate :: "real list \<Rightarrow> real \<Rightarrow> real" where
  "interpolate xs t =
     (let lo = nat \<lfloor>t\<rfloor>; hi = nat \<lceil>t\<rceil> in if lo = hi then xs ! lo else xs ! lo + (xs ! hi - xs ! lo) * (t - of_nat lo))"

lemma percentile_interpolate: "2 \<le> length xs \<Longrightarrow> stats_percentile xs p = interpolate xs ((of_nat (length xs) - 1) * p)"
  by (auto simp: stats_percentile_def interpolate_def Let_def)

lemma interpolate_between:
  assumes "sorted xs" and "0 \<le> t" and "t \<le> of_nat (length xs) - 1"
  shows "xs ! nat \<lfloor>t\<rfloor> \<le> interpolate xs t" "interpolate xs t \<le> xs ! nat \<lceil>t\<rceil>"
proof -
  have hi: "nat \<lceil>t\<rceil> < length xs" using assms(2,3) by linarith
  have le: "xs ! nat \<lfloor>t\<rfloor> \<le> xs ! nat \<lceil>t\<rceil>" using assms(2) hi by (intro sorted_nth_mono [OF assms(1)]) linarith+
  have frac: "0 \<le> t - of_nat (nat \<lfloor>t\<rfloor>)" "t - of_nat (nat \<lfloor>t\<rfloor>) \<le> 1" using assms(2) by linarith+
  have "(xs ! nat \<lceil>t\<rceil> - xs ! nat \<lfloor>t\<rfloor>) * (t - of_nat (nat \<lfloor>t\<rfloor>)) \<le> (xs ! nat \<lceil>t\<rceil> - xs ! nat \<lfloor>t\<rfloor>) * 1"
    using le frac by (intro mult_left_mono) auto
  moreover have "0 \<le> (xs ! nat \<lceil>t\<rceil> - xs ! nat \<lfloor>t\<rfloor>) * (t - of_nat (nat \<lfloor>t\<rfloor>))" using le frac by simp
  ultimately show "xs ! nat \<lfloor>t\<rfloor> \<le> interpolate xs t" "interpolate xs t \<le> xs ! nat \<lceil>t\<rceil>" by (auto simp: interpolate_def Let_def)
qed

lemma interpolate_mono:
  assumes "sorted xs" and "0 \<le> t" and "t \<le> u" and "u \<le> of_nat (length xs) - 1"
  shows "interpolate xs t \<le> interpolate xs u"
proof (cases "\<lceil>t\<rceil> \<le> \<lfloor>u\<rfloor>")
  case True
  have "interpolate xs t \<le> xs ! nat \<lceil>t\<rceil>" using assms by (intro interpolate_between) auto
  also have "\<dots> \<le> xs ! nat \<lfloor>u\<rfloor>" using True assms by (intro sorted_nth_mono) linarith+
  also have "\<dots> \<le> interpolate xs u" using assms by (intro interpolate_between) auto
  finally show ?thesis .
next
  case False
  have "\<lceil>t\<rceil> \<le> \<lfloor>t\<rfloor> + 1" "\<lceil>u\<rceil> \<le> \<lfloor>u\<rfloor> + 1" "\<lfloor>t\<rfloor> \<le> \<lfloor>u\<rfloor>" "\<lceil>t\<rceil> \<le> \<lceil>u\<rceil>"
    using assms(3) by (simp_all add: ceiling_le_iff floor_mono ceiling_mono) linarith+
  with False have same: "\<lfloor>u\<rfloor> = \<lfloor>t\<rfloor>" "\<lceil>u\<rceil> = \<lfloor>t\<rfloor> + 1" "\<lceil>t\<rceil> = \<lfloor>t\<rfloor> + 1" by linarith+
  have hi: "nat (\<lfloor>t\<rfloor> + 1) < length xs" using assms(2,4) same by linarith
  have le: "xs ! nat \<lfloor>t\<rfloor> \<le> xs ! nat (\<lfloor>t\<rfloor> + 1)" using assms(2) hi by (intro sorted_nth_mono [OF assms(1)]) linarith+
  have "(xs ! nat (\<lfloor>t\<rfloor> + 1) - xs ! nat \<lfloor>t\<rfloor>) * (t - of_nat (nat \<lfloor>t\<rfloor>)) \<le> (xs ! nat (\<lfloor>t\<rfloor> + 1) - xs ! nat \<lfloor>t\<rfloor>) * (u - of_nat (nat \<lfloor>t\<rfloor>))"
    using le assms(3) by (intro mult_left_mono) auto
  moreover have "nat \<lfloor>t\<rfloor> \<noteq> nat (\<lfloor>t\<rfloor> + 1)" using assms(2) by linarith
  ultimately show ?thesis by (simp add: interpolate_def Let_def same)
qed

lemma percentile_mono:
  assumes "sorted xs" and "xs \<noteq> []" and "0 \<le> p" "p \<le> q" "q \<le> 1"
  shows "stats_percentile xs p \<le> stats_percentile xs q"
proof (cases "length xs < 2")
  case True
  with assms(2) have "length xs = 1" by (cases xs) auto
  then show ?thesis using assms(2) by (simp add: stats_percentile_def)
next
  case False
  then have n: "0 \<le> real (length xs) - 1" by linarith
  have "(real (length xs) - 1) * q \<le> (real (length xs) - 1) * 1" using n assms(5) by (intro mult_left_mono) auto
  then show ?thesis using False n assms
    by (simp add: percentile_interpolate) (intro interpolate_mono mult_left_mono; auto)
qed

lemma percentile_ends: "xs \<noteq> [] \<Longrightarrow> stats_percentile xs 0 = hd xs" "xs \<noteq> [] \<Longrightarrow> stats_percentile xs 1 = last xs"
  by (auto simp: stats_percentile_def Let_def hd_conv_nth last_conv_nth nat_diff_distrib' of_nat_diff)

lemma percentile_bounds:
  assumes "sorted xs" and "xs \<noteq> []" and "0 \<le> p" "p \<le> 1"
  shows "hd xs \<le> stats_percentile xs p" "stats_percentile xs p \<le> last xs"
  using percentile_mono [of xs 0 p] percentile_mono [of xs p 1] percentile_ends [of xs] assms by auto

section \<open>The most frequent string\<close>

lemma count_votes_snoc:
  "count_votes (xs @ [x]) = AList.update x ((case map_of (count_votes xs) x of Some n \<Rightarrow> n | None \<Rightarrow> 0) + 1) (count_votes xs)"
  by (simp add: count_votes_def)

lemma map_of_count_votes: "map_of (count_votes xs) x = (if x \<in> set xs then Some (count_list xs x) else None)"
  by (induction xs arbitrary: x rule: rev_induct) (auto simp: count_votes_snoc update_conv, simp add: count_votes_def)

lemma distinct_count_votes: "distinct (map fst (count_votes xs))"
  by (induction xs rule: rev_induct) (simp_all add: count_votes_snoc distinct_update, simp add: count_votes_def)

lemma foldl_best:
  fixes m :: "('a \<times> nat) list"
  assumes "foldl (\<lambda>(best, n) (x, k). if k > n then (x, k) else (best, n)) (b, i) m = (c, j)"
  shows "i \<le> j \<and> (\<forall>x k. (x, k) \<in> set m \<longrightarrow> k \<le> j) \<and> ((c, j) = (b, i) \<or> (c, j) \<in> set m)"
  using assms
proof (induction m arbitrary: b i)
  case (Cons xk m)
  obtain x k where xk: "xk = (x, k)" by (cases xk)
  show ?case
  proof (cases "i < k")
    case True
    then show ?thesis using Cons.IH [of x k] Cons.prems xk by (auto intro: order.trans less_imp_le)
  next
    case False
    then show ?thesis using Cons.IH [of b i] Cons.prems xk by (auto intro: order.trans)
  qed
qed simp

lemma mostFrequent_most:
  assumes "x \<in> set xs"
  shows "mostFrequent xs \<in> set xs" "count_list xs x \<le> count_list xs (mostFrequent xs)"
proof -
  obtain c j where fold: "foldl (\<lambda>(best, n) (x, k). if k > n then (x, k) else (best, n)) (case xs of [] \<Rightarrow> [] | x # _ \<Rightarrow> x, 0) (count_votes xs) = (c, j)"
    by (rule prod.exhaust)
  have in_votes: "(y, k) \<in> set (count_votes xs) \<longleftrightarrow> y \<in> set xs \<and> k = count_list xs y" for y k
    using map_of_eq_Some_iff [OF distinct_count_votes, of xs y k] by (auto simp: map_of_count_votes split: if_splits)
  have c: "mostFrequent xs = c" using fold by (simp add: mostFrequent_def)
  have ge: "count_list xs x \<le> j" using foldl_best [OF fold] in_votes [of x "count_list xs x"] assms by simp
  moreover have "0 < count_list xs x" using assms by (metis count_list_0_iff neq0_conv)
  ultimately have "(c, j) \<in> set (count_votes xs)" using foldl_best [OF fold] by auto
  then show "mostFrequent xs \<in> set xs" "count_list xs x \<le> count_list xs (mostFrequent xs)" using in_votes c ge by auto
qed


section \<open>The telemetry aggregate\<close>

definition reading_ok :: "(real \<times> string \<times> real) list \<Rightarrow> scalar_stats \<Rightarrow> bool" where
  "reading_ok pts st =
     (sorted (sm_values st) \<and> mset (sm_values st) = mset (map fst pts) \<and> sm_n st = length pts \<and>
      sm_min st \<le> sm_median st \<and> sm_median st \<le> sm_max st \<and> sm_min st \<le> sm_mean st \<and> sm_mean st \<le> sm_max st \<and>
      (\<forall>x \<in> fst ` set pts. sm_min st \<le> x \<and> x \<le> sm_max st) \<and> sm_min st \<in> fst ` set pts \<and> sm_max st \<in> fst ` set pts \<and>
      0 \<le> sm_sigma st \<and> (sm_sigma st = 0 \<longleftrightarrow> sm_min st = sm_max st) \<and>
      sm_unit st \<in> (fst \<circ> snd) ` set pts \<and>
      (\<forall>u. count_list (map (fst \<circ> snd) pts) u \<le> count_list (map (fst \<circ> snd) pts) (sm_unit st)))"

lemma sigma_zero:
  assumes "sorted xs" and "xs \<noteq> []"
  shows "sampleStddev xs (average xs) = 0 \<longleftrightarrow> hd xs = last xs"
proof
  assume "sampleStddev xs (average xs) = 0"
  then consider "length xs < 2" | "\<forall>x \<in> set xs. x = average xs" by (auto simp: stddev_zero)
  then show "hd xs = last xs"
  proof cases
    case 1
    then have "length xs = 1" using assms(2) by (cases xs) auto
    then show ?thesis by (auto simp: length_Suc_conv)
  next
    case 2
    then show ?thesis using assms(2) by (metis hd_in_set last_in_set)
  qed
next
  assume ends: "hd xs = last xs"
  have "x = hd xs" if "x \<in> set xs" for x using sorted_bounds [OF assms that] ends by auto
  moreover from this have "hd xs \<le> average xs" "average xs \<le> hd xs"
    using average_bounds [OF assms(2), of "hd xs" "hd xs"] by auto
  ultimately show "sampleStddev xs (average xs) = 0" by (auto simp: stddev_zero)
qed

lemma scalar_stats_of_ok:
  assumes "pts \<noteq> []"
  shows "reading_ok pts (scalar_stats_of pts)"
proof -
  let ?vs = "sort (map fst pts)"
  have s: "sorted ?vs" and set: "set ?vs = fst ` set pts" by auto
  have "length ?vs \<noteq> 0" using assms by simp
  then have ne: "?vs \<noteq> []" by (metis list.size(3))
  have b: "\<And>x. x \<in> set ?vs \<Longrightarrow> hd ?vs \<le> x \<and> x \<le> last ?vs" using sorted_bounds [OF s ne] .
  have ends: "hd ?vs \<in> fst ` set pts" "last ?vs \<in> fst ` set pts" using hd_in_set [OF ne] last_in_set [OF ne] unfolding set by simp_all
  have med: "hd ?vs \<le> stats_percentile ?vs (1/2)" "stats_percentile ?vs (1/2) \<le> last ?vs" using percentile_bounds [OF s ne, of "1/2"] by simp_all
  have avg: "hd ?vs \<le> average ?vs" "average ?vs \<le> last ?vs" using average_bounds [OF ne b] by auto
  obtain p where p: "p \<in> set (map (fst \<circ> snd) pts)" using assms by (cases pts) auto
  have u: "count_list (map (fst \<circ> snd) pts) u \<le> count_list (map (fst \<circ> snd) pts) (mostFrequent (map (fst \<circ> snd) pts))" for u
    using mostFrequent_most(2) [of u "map (fst \<circ> snd) pts"] by (cases "u \<in> set (map (fst \<circ> snd) pts)") (auto simp: count_notin)
  have "mostFrequent (map (fst \<circ> snd) pts) \<in> (fst \<circ> snd) ` set pts" using mostFrequent_most(1) [OF p] by simp
  moreover have "\<forall>x \<in> fst ` set pts. hd ?vs \<le> x \<and> x \<le> last ?vs" using b unfolding set by blast
  ultimately show ?thesis unfolding reading_ok_def scalar_stats_of_def Let_def scalar_stats.simps
    using med avg u ends stddev_nonneg sigma_zero [OF s ne] by (intro conjI) (simp_all add: s del: comp_apply)
qed

lemma stats_clamp_bounds: "stats_clamp v (1/10) (35/100) \<ge> 1/10" "stats_clamp v (1/10) (35/100) \<le> 35/100"
  by (auto simp: stats_clamp_def)

lemma in_telemetry_scalars:
  "(key, st) \<in> set (telemetry_scalars actions) \<longleftrightarrow>
     key \<in> set TELEMETRY_SCALAR_KEYS \<and> telemetry_points key actions \<noteq> [] \<and> st = scalar_stats_of (telemetry_points key actions)"
  by (auto simp: telemetry_scalars_def map_filter_mem Let_def split: if_splits)

section \<open>The keys of the clusters\<close>

lemma join_injective:
  assumes "\<forall>x \<in> set xs. CHR '','' \<notin> set x \<and> x \<noteq> []" and "\<forall>x \<in> set ys. CHR '','' \<notin> set x \<and> x \<noteq> []"
    and "join '','' xs = join '','' ys"
  shows "xs = ys"
  using assms
proof (induction xs arbitrary: ys)
  case Nil
  then show ?case by (cases ys rule: remdups_adj.cases) auto
next
  case (Cons x xs)
  obtain y ys' where ys: "ys = y # ys'" using Cons.prems by (cases xs; cases ys) auto
  have head: "takeWhile (\<lambda>c. c \<noteq> CHR '','') (join '','' (z # zs)) = z" if "CHR '','' \<notin> set z" for z zs
    using that by (cases zs) (auto simp: takeWhile_append takeWhile_eq_all_conv)
  have eq: "x = y" using head [of x xs] head [of y ys'] Cons.prems ys by auto
  show ?case
  proof (cases xs; cases ys')
    assume "xs = []" "ys' = []"
    then show ?thesis using eq ys by simp
  next
    fix z zs w ws assume "xs = z # zs" "ys' = w # ws"
    then show ?thesis using Cons.IH [of ys'] Cons.prems eq ys by auto
  qed (use Cons.prems eq ys in auto)
qed

lemma cluster_key_injective:
  assumes "m \<in> set PC_MODES" "m' \<in> set PC_MODES" and "set fs \<subseteq> set PC_FLAGS" "set fs' \<subseteq> set PC_FLAGS"
    and "cluster_key m fs = cluster_key m' fs'"
  shows "m = m' \<and> fs = fs'"
proof -
  have bar: "CHR ''|'' \<notin> set m" "CHR ''|'' \<notin> set m'" using assms(1,2) by (auto simp: PC_MODES_def)
  have "takeWhile (\<lambda>c. c \<noteq> CHR ''|'') (cluster_key m fs) = m" "takeWhile (\<lambda>c. c \<noteq> CHR ''|'') (cluster_key m' fs') = m'"
    using bar by (auto simp: cluster_key_def takeWhile_append takeWhile_eq_all_conv)
  then have m: "m = m'" using assms(5) by simp
  have plain: "CHR '','' \<notin> set x \<and> x \<noteq> []" if "x \<in> set PC_FLAGS" for x using that by (auto simp: PC_FLAGS_def)
  have "fs = fs'" using assms(5) m plain assms(3,4) by (intro join_injective) (auto simp: cluster_key_def)
  with m show ?thesis by simp
qed

section \<open>The clusters\<close>

definition sample_key :: "pc_sample \<Rightarrow> string" where
  "sample_key e = cluster_key (qs_mode e) (sort (qs_flags e))"

definition groups_of :: "pc_sample list \<Rightarrow> pc_groups \<Rightarrow> bool" where
  "groups_of es m =
     (distinct (map fst m) \<and>
      (\<forall>k. map_of m k =
         (case filter (\<lambda>e. sample_key e = k) es of
            [] \<Rightarrow> None
          | e # rest \<Rightarrow> Some (qs_mode e, sort (qs_flags e), e # rest))))"

lemma add_sample_groups: "groups_of es m \<Longrightarrow> groups_of (es @ [e]) (add_sample m e)"
proof -
  assume g: "groups_of es m"
  have key: "cluster_key (qs_mode e) (sort (qs_flags e)) = sample_key e" by (simp add: sample_key_def)
  show ?thesis
  proof (cases "filter (\<lambda>x. sample_key x = sample_key e) es")
    case Nil
    then have "map_of m (sample_key e) = None" using g by (simp add: groups_of_def)
    then show ?thesis using g Nil unfolding groups_of_def add_sample_def Let_def key
      by (auto simp: distinct_update update_conv)
  next
    case (Cons x xs)
    then have "map_of m (sample_key e) = Some (qs_mode x, sort (qs_flags x), x # xs)" using g by (simp add: groups_of_def)
    then show ?thesis using g Cons unfolding groups_of_def add_sample_def Let_def key
      by (auto simp: distinct_update update_conv)
  qed
qed

lemma samples_grouped: "groups_of es (foldl add_sample [] es)"
  by (induction es rule: rev_induct) (auto simp: add_sample_groups, simp add: groups_of_def)


lemma those_mem: "those xs = Some ys \<Longrightarrow> y \<in> set ys \<Longrightarrow> Some y \<in> set xs"
  by (induction xs arbitrary: ys) (auto split: option.splits)

lemma enum_list_allowed: "enum_list allowed v = Some xs \<Longrightarrow> set xs \<subseteq> set allowed"
  by (auto simp: enum_list_def dest!: those_mem split: option.splits jval.splits if_splits)

definition is_estimate :: "ssa_turn_action \<Rightarrow> bool" where
  "is_estimate a = (case a of EstimatePc _ _ _ _ \<Rightarrow> True | _ \<Rightarrow> False)"

lemma decode_fields_other: "decode_fields k a = Some x \<Longrightarrow> \<not> is_estimate x"
  by (simp only: decode_fields_def split: if_split_asm) (auto simp: is_estimate_def split: option.splits)

lemma decoded_estimate:
  assumes "decode_action a = Some (EstimatePc i p mode flags)"
  shows "mode \<in> set PC_MODES" "set flags \<subseteq> set PC_FLAGS" "0 \<le> p" "p \<le> 1"
proof -
  have "decode_fields k a \<noteq> Some (EstimatePc i p mode flags)" for k
    using decode_fields_other [of k a] by (auto simp: is_estimate_def)
  moreover obtain kind where kind: "field_of a ''kind'' = Some (JStr kind)"
    using assms by (auto simp: decode_action_def split: option.splits jval.splits)
  ultimately have "kind = ''estimate_pc''" using assms by (auto simp: decode_action_def split: if_splits)
  then have "num_where unit_interval a ''pcEstimate'' = Some p \<and> str_where (\<lambda>s. s \<in> set PC_MODES) a ''dominantMode'' = Some mode \<and>
      enum_list PC_FLAGS (field_of a ''flags'') = Some flags"
    using assms kind by (auto simp: decode_action_def split: option.splits if_splits)
  then show "mode \<in> set PC_MODES" "set flags \<subseteq> set PC_FLAGS" "0 \<le> p" "p \<le> 1"
    by (auto simp: num_where_def str_where_def unit_interval_def dest: enum_list_allowed split: option.splits jval.splits if_splits)
qed

definition valid_sample :: "pc_sample \<Rightarrow> bool" where
  "valid_sample e = (qs_mode e \<in> set PC_MODES \<and> set (qs_flags e) \<subseteq> set PC_FLAGS \<and> 0 \<le> qs_estimate e \<and> qs_estimate e \<le> 1)"

lemma estimate_ofD:
  "estimate_of meta ia = Some e \<Longrightarrow>
     \<exists>cid. snd ia = EstimatePc cid (qs_estimate e) (qs_mode e) (qs_flags e)"
  by (cases "snd ia") (auto simp: estimate_of_def Let_def split: prod.splits)

lemma estimates_valid:
  assumes "e \<in> set (pc_estimates (map (snd \<circ> snd) (done_actions swarm db)) meta)"
  shows "valid_sample e"
proof -
  obtain i cid p mode flags where a: "(i, EstimatePc cid p mode flags) \<in> set (enumerate 0 (map (snd \<circ> snd) (done_actions swarm db)))"
    and e: "qs_estimate e = p" "qs_mode e = mode" "qs_flags e = flags"
    using assms by (auto simp: pc_estimates_def map_filter_mem dest!: estimate_ofD)
  have "EstimatePc cid p mode flags \<in> (snd \<circ> snd) ` set (done_actions swarm db)"
    using a by (auto simp: in_set_enumerate_eq image_iff intro!: bexI [OF _ nth_mem])
  then obtain x where "decode_action x = Some (EstimatePc cid p mode flags)"
    by (auto simp: done_actions_def map_filter_mem bind_eq_Some_conv case_prod_unfold split: if_splits)
  then show ?thesis using e decoded_estimate [of x cid p mode flags] by (simp add: valid_sample_def)
qed

lemma same_key:
  assumes "valid_sample e" "valid_sample f"
  shows "sample_key e = sample_key f \<longleftrightarrow> qs_mode e = qs_mode f \<and> mset (qs_flags e) = mset (qs_flags f)"
proof -
  have "sample_key e = sample_key f \<longleftrightarrow> qs_mode e = qs_mode f \<and> sort (qs_flags e) = sort (qs_flags f)"
    using assms cluster_key_injective [of "qs_mode e" "qs_mode f" "sort (qs_flags e)" "sort (qs_flags f)"]
    by (auto simp: sample_key_def valid_sample_def)
  moreover have "sort (qs_flags e) = sort (qs_flags f) \<longleftrightarrow> mset (qs_flags e) = mset (qs_flags f)"
    by (metis mset_sort properties_for_sort sorted_sort)
  ultimately show ?thesis by simp
qed

text \<open>The estimates that agree with a mode and a set of flags.\<close>

definition agreeing :: "string \<Rightarrow> string list \<Rightarrow> pc_sample list \<Rightarrow> pc_sample list" where
  "agreeing mode flags es = filter (\<lambda>e. qs_mode e = mode \<and> mset (qs_flags e) = mset flags) es"

lemma groupsD:
  assumes "groups_of es m" and "(k, mode, flags, ss) \<in> set m"
  shows "map_of m k = Some (mode, flags, ss)" "ss = filter (\<lambda>e. sample_key e = k) es"
    "\<exists>e \<in> set es. sample_key e = k \<and> mode = qs_mode e \<and> flags = sort (qs_flags e) \<and> e \<in> set ss"
proof -
  show m: "map_of m k = Some (mode, flags, ss)" using assms map_of_eq_Some_iff [of m k] by (simp add: groups_of_def)
  obtain e rest where f: "filter (\<lambda>e. sample_key e = k) es = e # rest" "mode = qs_mode e" "flags = sort (qs_flags e)" "ss = e # rest"
    using assms(1) m by (cases "filter (\<lambda>e. sample_key e = k) es") (auto simp: groups_of_def)
  show "ss = filter (\<lambda>e. sample_key e = k) es" using f by simp
  have "e \<in> set (filter (\<lambda>e. sample_key e = k) es)" using f by simp
  then have "e \<in> set es \<and> sample_key e = k" by (simp only: set_filter mem_Collect_eq)
  then show "\<exists>e \<in> set es. sample_key e = k \<and> mode = qs_mode e \<and> flags = sort (qs_flags e) \<and> e \<in> set ss" using f by auto
qed

lemma group_agreeing:
  assumes "groups_of es m" and "\<forall>e \<in> set es. valid_sample e" and "(mode, flags, ss) \<in> snd ` set m"
  shows "ss = agreeing mode flags es \<and> ss \<noteq> []"
proof -
  obtain k where k: "(k, mode, flags, ss) \<in> set m" using assms(3) by auto
  obtain e where e: "e \<in> set es" "sample_key e = k" "mode = qs_mode e" "flags = sort (qs_flags e)" "e \<in> set ss"
    using groupsD(3) [OF assms(1) k] by blast
  have "agreeing mode flags es = filter (\<lambda>e. sample_key e = k) es"
    unfolding agreeing_def e(3,4) e(2) [symmetric] using same_key assms(2) e(1) by (intro filter_cong) auto
  then have "ss = agreeing mode flags es" using groupsD(2) [OF assms(1) k] by simp
  then show ?thesis using e(5) by auto
qed

lemma agreeing_grouped:
  assumes "groups_of es m" and "\<forall>e \<in> set es. valid_sample e" and "e \<in> set es"
  shows "\<exists>flags. (qs_mode e, flags, agreeing (qs_mode e) (qs_flags e) es) \<in> snd ` set m \<and> mset flags = mset (qs_flags e)"
proof -
  have "e \<in> set (filter (\<lambda>x. sample_key x = sample_key e) es)" using assms(3) by simp
  then obtain x rest where f: "filter (\<lambda>x. sample_key x = sample_key e) es = x # rest"
    by (cases "filter (\<lambda>x. sample_key x = sample_key e) es") auto
  then have "x \<in> set (filter (\<lambda>x. sample_key x = sample_key e) es)" by simp
  then have x: "x \<in> set es" "sample_key x = sample_key e" by simp_all
  have "map_of m (sample_key e) = Some (qs_mode x, sort (qs_flags x), x # rest)" using assms(1) f by (simp add: groups_of_def)
  then have m: "(qs_mode x, sort (qs_flags x), x # rest) \<in> snd ` set m" by (metis map_of_SomeD image_eqI snd_conv)
  have agree: "qs_mode x = qs_mode e" "mset (qs_flags x) = mset (qs_flags e)" using same_key x assms(2,3) by auto
  from group_agreeing [OF assms(1,2) m] have "x # rest = agreeing (qs_mode e) (qs_flags e) es" using agree by (simp add: agreeing_def)
  then show ?thesis using m agree by (metis mset_sort)
qed

lemma groups_keys_distinct:
  assumes "groups_of es m"
  shows "distinct (map (\<lambda>(mode, flags, _). (mode, flags)) (map snd m))"
proof -
  have "inj_on (\<lambda>(k, mode, flags, ss). (mode, flags)) (set m)"
  proof (rule inj_onI)
    fix x y assume a: "x \<in> set m" "y \<in> set m" and eq: "(case x of (k, mode, flags, ss) \<Rightarrow> (mode, flags)) = (case y of (k, mode, flags, ss) \<Rightarrow> (mode, flags))"
    obtain k mode flags ss k' ss' where xy: "x = (k, mode, flags, ss)" "y = (k', mode, flags, ss')" using eq by (cases x; cases y) auto
    have "k = k'" using groupsD(3) [OF assms a(1) [unfolded xy]] groupsD(3) [OF assms a(2) [unfolded xy]] by (auto simp: sample_key_def)
    then show "x = y" using groupsD(1) [OF assms a(1) [unfolded xy]] groupsD(1) [OF assms a(2) [unfolded xy]] xy by simp
  qed
  moreover have "distinct m" using assms by (auto simp: groups_of_def distinct_map)
  ultimately show ?thesis by (simp add: distinct_map comp_def case_prod_unfold inj_on_def)
qed


lemma map_filter_keys_of:
  "map fst (List.map_filter (\<lambda>k. if P k then None else Some (k, f k)) ks) = filter (\<lambda>k. \<not> P k) ks"
  by (induction ks) auto

lemma telemetry_scalars_keys: "map fst (telemetry_scalars actions) = filter (\<lambda>k. telemetry_points k actions \<noteq> []) TELEMETRY_SCALAR_KEYS"
  by (simp add: telemetry_scalars_def Let_def map_filter_keys_of)

lemma sim_confidence_Nil: "sim_confidence [] = 0"
  by (simp add: sim_confidence_def)

lemma sim_confidence_bounds: "sts \<noteq> [] \<Longrightarrow> 1/10 \<le> sim_confidence sts \<and> sim_confidence sts \<le> 35/100"
  using stats_clamp_bounds by (simp add: sim_confidence_def Let_def)

lemma pc_cluster_of_props:
  assumes "ss \<noteq> []"
  shows "qc_mode (pc_cluster_of (mode, flags, ss)) = mode" "qc_flags (pc_cluster_of (mode, flags, ss)) = flags"
    "qc_count (pc_cluster_of (mode, flags, ss)) = length ss" "mset (qc_members (pc_cluster_of (mode, flags, ss))) = mset (map qs_fish ss)"
    "qc_fish (pc_cluster_of (mode, flags, ss)) \<in> qs_fish ` set ss"
    "fst (qc_range (pc_cluster_of (mode, flags, ss))) = Min (qs_estimate ` set ss)"
    "snd (qc_range (pc_cluster_of (mode, flags, ss))) = Max (qs_estimate ` set ss)"
proof -
  let ?o = "sort_key qs_estimate ss"
  have set: "set ?o = set ss" by simp
  have len: "length ?o = length ss" by simp
  have ne: "?o \<noteq> []" using assms len by (metis length_0_conv)
  have sorted: "sorted (map qs_estimate ?o)" by simp
  have b: "hd (map qs_estimate ?o) \<le> x \<and> x \<le> last (map qs_estimate ?o)" if "x \<in> qs_estimate ` set ss" for x
    using sorted_bounds [OF sorted] that ne by auto
  have ends: "hd (map qs_estimate ?o) \<in> qs_estimate ` set ss" "last (map qs_estimate ?o) \<in> qs_estimate ` set ss"
    using hd_in_set [of ?o] last_in_set [of ?o] ne set by (simp_all add: hd_map last_map)
  have "Min (qs_estimate ` set ss) = hd (map qs_estimate ?o)" using b ends by (intro Min_eqI) auto
  moreover have "Max (qs_estimate ` set ss) = last (map qs_estimate ?o)" using b ends by (intro Max_eqI) auto
  moreover have "?o ! ((length ?o - 1) div 2) \<in> set ss" unfolding set [symmetric] using ne by (intro nth_mem) (cases ss; auto)
  ultimately show "qc_mode (pc_cluster_of (mode, flags, ss)) = mode" "qc_flags (pc_cluster_of (mode, flags, ss)) = flags"
    "qc_count (pc_cluster_of (mode, flags, ss)) = length ss" "mset (qc_members (pc_cluster_of (mode, flags, ss))) = mset (map qs_fish ss)"
    "qc_fish (pc_cluster_of (mode, flags, ss)) \<in> qs_fish ` set ss"
    "fst (qc_range (pc_cluster_of (mode, flags, ss))) = Min (qs_estimate ` set ss)"
    "snd (qc_range (pc_cluster_of (mode, flags, ss))) = Max (qs_estimate ` set ss)"
    using ne by (simp_all add: pc_cluster_of_def Let_def hd_map last_map)
qed

text \<open>What a cluster says of the estimates it groups.\<close>

definition cluster_ok :: "pc_sample list \<Rightarrow> pc_cluster \<Rightarrow> bool" where
  "cluster_ok es c =
     (let ss = agreeing (qc_mode c) (qc_flags c) es in
      2 \<le> length ss \<and> qc_count c = length ss \<and> mset (qc_members c) = mset (map qs_fish ss) \<and> qc_fish c \<in> qs_fish ` set ss \<and>
      fst (qc_range c) = Min (qs_estimate ` set ss) \<and> snd (qc_range c) = Max (qs_estimate ` set ss))"

lemma pc_clusters_ok:
  assumes "\<forall>e \<in> set es. valid_sample e"
  shows "\<forall>c \<in> set (pc_clusters es). cluster_ok es c"
    "e \<in> set es \<Longrightarrow> 2 \<le> length (agreeing (qs_mode e) (qs_flags e) es) \<Longrightarrow>
       \<exists>c \<in> set (pc_clusters es). qc_mode c = qs_mode e \<and> mset (qc_flags c) = mset (qs_flags e)"
    "sorted (map (\<lambda>c. - int (qc_count c)) (pc_clusters es))"
proof -
  let ?m = "foldl add_sample [] es"
  have c: "c \<in> set (pc_clusters es) \<longleftrightarrow> (\<exists>mode flags ss. (mode, flags, ss) \<in> snd ` set ?m \<and> 2 \<le> length ss \<and> c = pc_cluster_of (mode, flags, ss))" for c
    by (force simp: pc_clusters_def)
  show "\<forall>c \<in> set (pc_clusters es). cluster_ok es c"
  proof
    fix c assume "c \<in> set (pc_clusters es)"
    then obtain mode flags ss where g: "(mode, flags, ss) \<in> snd ` set ?m" "2 \<le> length ss" "c = pc_cluster_of (mode, flags, ss)"
      unfolding c by blast
    have "ss = agreeing mode flags es" "ss \<noteq> []" using group_agreeing [OF samples_grouped assms g(1)] by blast+
    then show "cluster_ok es c" using pc_cluster_of_props [of ss mode flags] g(2,3) by (simp add: cluster_ok_def Let_def)
  qed
  show "\<exists>c \<in> set (pc_clusters es). qc_mode c = qs_mode e \<and> mset (qc_flags c) = mset (qs_flags e)"
    if e: "e \<in> set es" and two: "2 \<le> length (agreeing (qs_mode e) (qs_flags e) es)"
  proof -
    obtain flags where f: "(qs_mode e, flags, agreeing (qs_mode e) (qs_flags e) es) \<in> snd ` set ?m" "mset flags = mset (qs_flags e)"
      using agreeing_grouped [OF samples_grouped assms e] by blast
    let ?c = "pc_cluster_of (qs_mode e, flags, agreeing (qs_mode e) (qs_flags e) es)"
    have "agreeing (qs_mode e) (qs_flags e) es \<noteq> []" using two by auto
    from pc_cluster_of_props(1,2) [OF this] f(2) have "qc_mode ?c = qs_mode e" "mset (qc_flags ?c) = mset (qs_flags e)" by simp_all
    moreover have "?c \<in> set (pc_clusters es)" unfolding c using f(1) two by blast
    ultimately show ?thesis by blast
  qed
  show "sorted (map (\<lambda>c. - int (qc_count c)) (pc_clusters es))" by (simp add: pc_clusters_def)
qed

section \<open>Properties\<close>

text \<open>A telemetry aggregate that met its quorum has, for exactly the scalars some finished fish inferred, the
  exact statistics of the inferred values: the sorted sample, its bounds with the median and the mean between
  them, a deviation that is zero just when all values are equal, and a most frequent unit. Its confidence
  is 0 without scalars and otherwise between 0.1 and 0.35; below the quorum it is empty.\<close>

theorem telemetry_statistics_are_exact:
  fixes db :: sim_db
  defines "acts swarm \<equiv> map (snd \<circ> snd) (done_actions swarm db)"
  assumes "telemetryAggregate swarm pct db = Some agg"
  shows "(ta_quorumMet agg \<longrightarrow>
      map fst (ta_scalars agg) = filter (\<lambda>k. telemetry_points k (acts swarm) \<noteq> []) TELEMETRY_SCALAR_KEYS \<and>
      (\<forall>(k, st) \<in> set (ta_scalars agg). reading_ok (telemetry_points k (acts swarm)) st)) \<and>
    (\<not> ta_quorumMet agg \<longrightarrow> ta_scalars agg = []) \<and>
    (ta_quorumMet agg \<longleftrightarrow> of_int (ta_total agg) * (case pct of Some q \<Rightarrow> q | None \<Rightarrow> 8 / 10) \<le> of_nat (count_runs RunDone swarm db)) \<and>
    (if ta_scalars agg = [] then ta_confidence agg = 0 else 1/10 \<le> ta_confidence agg \<and> ta_confidence agg \<le> 35/100)"
proof -
  obtain sat s where s: "target_satellite (swarm_findById swarm db) = Some sat" "swarm_findById swarm db = Some s"
    using assms(2) by (auto simp: telemetryAggregate_def Let_def target_satellite_def split: option.splits)
  let ?short = "int (count_runs RunDone swarm db) < \<lceil>of_int (sw_size s) * (case pct of Some q \<Rightarrow> q | None \<Rightarrow> 8 / 10)\<rceil>"
  have agg: "ta_quorumMet agg = (\<not> ?short)" "ta_total agg = sw_size s"
    "ta_scalars agg = (if ?short then [] else telemetry_scalars (acts swarm))"
    "ta_confidence agg = sim_confidence (map snd (ta_scalars agg))"
    using assms(2) s sim_confidence_Nil by (cases ?short; force simp: telemetryAggregate_def Let_def acts_def)+
  have "\<forall>(k, st) \<in> set (telemetry_scalars (acts swarm)). reading_ok (telemetry_points k (acts swarm)) st"
    by (auto simp: in_telemetry_scalars intro: scalar_stats_of_ok)
  then have "ta_quorumMet agg \<longrightarrow>
      map fst (ta_scalars agg) = filter (\<lambda>k. telemetry_points k (acts swarm) \<noteq> []) TELEMETRY_SCALAR_KEYS \<and>
      (\<forall>(k, st) \<in> set (ta_scalars agg). reading_ok (telemetry_points k (acts swarm)) st)"
    using agg(1,3) telemetry_scalars_keys [of "acts swarm"] by simp
  moreover have "\<not> ta_quorumMet agg \<longrightarrow> ta_scalars agg = []" using agg(1,3) by simp
  moreover have "ta_quorumMet agg \<longleftrightarrow> of_int (ta_total agg) * (case pct of Some q \<Rightarrow> q | None \<Rightarrow> 8 / 10) \<le> of_nat (count_runs RunDone swarm db)"
    unfolding agg(1,2) by (simp add: not_less ceiling_le_iff)
  moreover have "if ta_scalars agg = [] then ta_confidence agg = 0 else 1/10 \<le> ta_confidence agg \<and> ta_confidence agg \<le> 35/100"
    using sim_confidence_bounds [of "map snd (ta_scalars agg)"] agg(4) by (simp add: sim_confidence_def)
  ultimately show ?thesis by blast
qed

text \<open>A collision-probability aggregate holds the sorted estimates of the finished fish with percentiles in
  order between the extremes, and its clusters are exactly the sets of at least two estimates that agree
  on the mode and on the flags in any order, each with its members, an exemplar among them and its range.\<close>

theorem pc_clusters_are_the_agreeing_estimates:
  fixes db :: sim_db
  defines "es swarm \<equiv> pc_estimates (map (snd \<circ> snd) (done_actions swarm db)) (map (\<lambda>(run, fish, _). (Some fish, Some run)) (done_actions swarm db))"
  assumes "pcAggregate swarm db = Some agg"
  shows "sorted (qa_samples agg) \<and> mset (qa_samples agg) = mset (map qs_estimate (es swarm)) \<and>
    hd (qa_samples agg) \<le> qa_p5 agg \<and> qa_p5 agg \<le> qa_median agg \<and> qa_median agg \<le> qa_p95 agg \<and> qa_p95 agg \<le> last (qa_samples agg) \<and>
    0 \<le> qa_p5 agg \<and> qa_p95 agg \<le> 1 \<and>
    (\<forall>c \<in> set (qa_clusters agg). cluster_ok (es swarm) c) \<and>
    (\<forall>e \<in> set (es swarm). 2 \<le> length (agreeing (qs_mode e) (qs_flags e) (es swarm)) \<longrightarrow>
       (\<exists>c \<in> set (qa_clusters agg). qc_mode c = qs_mode e \<and> mset (qc_flags c) = mset (qs_flags e)))"
proof -
  let ?xs = "sort (map qs_estimate (es swarm))"
  have valid: "\<forall>e \<in> set (es swarm). valid_sample e" unfolding es_def using estimates_valid by blast
  have "es swarm \<noteq> []" and agg: "qa_samples agg = ?xs" "qa_p5 agg = stats_percentile ?xs (5/100)" "qa_median agg = stats_percentile ?xs (1/2)"
    "qa_p95 agg = stats_percentile ?xs (95/100)" "qa_clusters agg = pc_clusters (es swarm)"
    using assms(2) by (auto simp: pcAggregate_def computePcAggregate_def es_def Let_def split: if_splits)
  then have "length ?xs \<noteq> 0" by simp
  then have ne: "?xs \<noteq> []" by (metis list.size(3))
  have unit: "0 \<le> x \<and> x \<le> 1" if "x \<in> set ?xs" for x using that valid by (auto simp: valid_sample_def)
  have p: "hd ?xs \<le> stats_percentile ?xs (5/100)" "stats_percentile ?xs (5/100) \<le> stats_percentile ?xs (1/2)" "stats_percentile ?xs (1/2) \<le> stats_percentile ?xs (95/100)"
    "stats_percentile ?xs (95/100) \<le> last ?xs"
    using ne by (auto intro!: percentile_bounds percentile_mono)
  have "0 \<le> hd ?xs" "last ?xs \<le> 1" using unit hd_in_set [OF ne] last_in_set [OF ne] by blast+
  then have "0 \<le> stats_percentile ?xs (5/100)" "stats_percentile ?xs (95/100) \<le> 1" using p by linarith+
  then show ?thesis unfolding agg using p pc_clusters_ok [OF valid] by auto
qed


section \<open>Demonstrations\<close>

definition demo_reading :: "real \<Rightarrow> turn_action" where
  "demo_reading x =
     JObj [(''kind'', JStr ''infer_telemetry''), (''reason'', JStr ''r''), (''satelliteId'', JNum 7), (''confidence'', JNum (1/2)),
           (''scalars'', JObj (map (\<lambda>k. (k, JObj [(''value'', JNum x), (''unit'', JStr ''W'')])) TELEMETRY_SCALAR_KEYS))]"

definition demo_estimate :: "real \<Rightarrow> turn_action" where
  "demo_estimate p =
     JObj [(''kind'', JStr ''estimate_pc''), (''conjunctionId'', JNum 3), (''pcEstimate'', JNum p), (''dominantMode'', JStr ''unknown''),
           (''flags'', JArr [JStr ''low-data'']), (''rationale'', JStr []),
           (''pcBand'', JObj [(''p5'', JNum 0), (''p50'', JNum p), (''p95'', JNum 1)]),
           (''assumptions'', JObj [(''hardBodyRadiusMeters'', JNum 10), (''covarianceScale'', JStr ''tight''),
                                 (''conjunctionGeometry'', JStr [])])]"

definition outcome_db :: "turn_action list \<Rightarrow> sim_db" where
  "outcome_db acts =
     \<lparr>db_swarms = [\<lparr>sw_id = 1, sw_kind = ''k'', sw_title = [], sw_baseSeed = [(''telemetryTargetSatelliteId'', JNum 7)],
        sw_perturbations = [], sw_size = 2,
        sw_config = \<lparr>wc_llmMode = [], wc_quorumPct = None, wc_perFishTimeoutMs = Fin 0, wc_fishConcurrency = Fin 1,
          wc_nanoModel = [], wc_seed = 0, wc_aggregates = []\<rparr>, sw_status = SwarmRunning, sw_reportFindingId = None,
        sw_suggestionId = None, sw_completedAt = None, sw_createdBy = None\<rparr>],
      db_runs = map (\<lambda>i. \<lparr>rn_id = i, rn_swarm = 1, rn_fish = i, rn_kind = [], rn_seed = [], rn_perturbation = [],
        rn_config = \<lparr>gc_turnsPerDay = 1, gc_maxTurns = 1, gc_llmMode = [], gc_seed = 0, gc_nanoModel = [], gc_perFishTimeoutMs = None\<rparr>,
        rn_status = RunDone, rn_completedAt = None\<rparr>) [1, 2],
      db_agents = [],
      db_turns = map (\<lambda>(i, a). \<lparr>tn_id = i, tn_run = i, tn_index = 0, tn_actor = AgentActor, tn_agent = None,
        tn_action = a, tn_rationale = [], tn_summary = ''s'', tn_createdAt = 0\<rparr>) (zip [1, 2] acts),
      db_memories = []\<rparr>"

lemma outcome_rows: "listTerminalActionsForSwarm 1 (outcome_db [a, b]) = [(1, 1, RunDone, Some a), (2, 2, RunDone, Some b)]"
  by (simp add: listTerminalActionsForSwarm_def outcome_db_def latest_agent_turn_def turns_of_def order_desc_def)

lemma reading_decoded:
  "decode_action (demo_reading x) = Some (InferTelemetry 7 (map (\<lambda>k. (k, x, ''W'')) TELEMETRY_SCALAR_KEYS) (1/2))"
  by (simp add: decode_action_def demo_reading_def decode_fields_def num_where_def str_where_def non_empty_def pos_int_def unit_interval_def
      TELEMETRY_SCALAR_KEYS_def scalar_value_def)

lemma estimate_decoded: "0 \<le> p \<Longrightarrow> p \<le> 1 \<Longrightarrow> decode_action (demo_estimate p) = Some (EstimatePc 3 p ''unknown'' [''low-data''])"
  by (simp add: decode_action_def demo_estimate_def num_where_def str_where_def pos_int_def unit_interval_def PC_MODES_def PC_FLAGS_def
      enum_list_def pc_details_ok_def)

theorem telemetry_statistics_are_exact_witness:
  "\<exists>agg. telemetryAggregate 1 None (outcome_db [demo_reading 3, demo_reading 5]) = Some agg \<and>
     map fst (ta_scalars agg) = TELEMETRY_SCALAR_KEYS \<and> 1/10 \<le> ta_confidence agg"
proof -
  let ?db = "outcome_db [demo_reading 3, demo_reading 5]"
  have "swarm_findById 1 ?db = Some (hd (db_swarms ?db))" "target_satellite (Some (hd (db_swarms ?db))) = Some 7"
    by (simp_all add: outcome_db_def swarm_findById_def target_satellite_def)
  then obtain agg where agg: "telemetryAggregate 1 None ?db = Some agg" "ta_total agg = 2"
    by (simp add: telemetryAggregate_def Let_def) (simp add: outcome_db_def)
  have points: "telemetry_points k (map (snd \<circ> snd) (done_actions 1 ?db)) \<noteq> []" if "k \<in> set TELEMETRY_SCALAR_KEYS" for k
    using that by (auto simp: done_actions_def outcome_rows reading_decoded telemetry_points_def TELEMETRY_SCALAR_KEYS_def)
  have "count_runs RunDone 1 ?db = 2" by (simp add: count_runs_def outcome_rows)
  then have met: "ta_quorumMet agg" using telemetry_statistics_are_exact [OF agg(1)] agg(2) by simp
  then have keys: "map fst (ta_scalars agg) = TELEMETRY_SCALAR_KEYS"
    using telemetry_statistics_are_exact [OF agg(1)] filter_True [of TELEMETRY_SCALAR_KEYS, OF ballI, OF points] by auto
  then have "ta_scalars agg \<noteq> []" by (auto simp: TELEMETRY_SCALAR_KEYS_def)
  then have "1/10 \<le> ta_confidence agg" using telemetry_statistics_are_exact [OF agg(1)] by simp
  then show ?thesis using agg(1) keys by blast
qed

theorem pc_clusters_are_the_agreeing_estimates_witness:
  "\<exists>agg c. pcAggregate 1 (outcome_db [demo_estimate (1/2), demo_estimate (1/4)]) = Some agg \<and> c \<in> set (qa_clusters agg) \<and>
     qc_mode c = ''unknown'' \<and> qa_p95 agg \<le> 1"
proof -
  let ?db = "outcome_db [demo_estimate (1/2), demo_estimate (1/4)]"
  let ?e = "\<lambda>i p. \<lparr>qs_conjunction = 3, qs_estimate = p, qs_mode = ''unknown'', qs_flags = [''low-data''], qs_fish = i, qs_run = Some i\<rparr>"
  have rows: "done_actions 1 ?db = [(1, 1, EstimatePc 3 (1/2) ''unknown'' [''low-data'']), (2, 2, EstimatePc 3 (1/4) ''unknown'' [''low-data''])]"
    by (simp add: done_actions_def outcome_rows estimate_decoded)
  have es: "pc_estimates (map (snd \<circ> snd) (done_actions 1 ?db)) (map (\<lambda>(run, fish, _). (Some fish, Some run)) (done_actions 1 ?db)) =
      [?e 1 (1/2), ?e 2 (1/4)]" by (simp add: rows pc_estimates_def estimate_of_def)
  then obtain agg where agg: "pcAggregate 1 ?db = Some agg" by (simp add: pcAggregate_def computePcAggregate_def Let_def)
  have "2 \<le> length (agreeing (qs_mode (?e 1 (1/2))) (qs_flags (?e 1 (1/2))) [?e 1 (1/2), ?e 2 (1/4)])" by (simp add: agreeing_def)
  moreover have "?e 1 (1/2) \<in> set [?e 1 (1/2), ?e 2 (1/4)]" by simp
  ultimately have "\<exists>c \<in> set (qa_clusters agg). qc_mode c = qs_mode (?e 1 (1/2))"
    using pc_clusters_are_the_agreeing_estimates [OF agg, unfolded es] by blast
  moreover have "qa_p95 agg \<le> 1" using pc_clusters_are_the_agreeing_estimates [OF agg] by blast
  ultimately show ?thesis using agg by auto
qed

end
