(* ===== verification/Promotion.thy ===== *)
theory Promotion
  imports Outcome Aggregator Swarm Knowledge SweepResolution
begin

text \<open>
  The promotion of what a swarm concluded: \<open>ssa-sim-outcome-resolver.service.ts\<close> picks the aggregator by the kind of the
  swarm, \<open>telemetry-scalar-promoter.service.ts\<close> and \<open>modal-suggestion-composer.service.ts\<close> turn aggregates into
  suggestions, research findings and the link from the swarm, with the helpers of \<open>sim-promotion-helpers.ts\<close>. The
  three stores are those of the simulation, the research graph and the suggestions; nothing joins them in
  a transaction. Titles other than the swarm's, descriptions and JSON texts are arguments.
\<close>

section \<open>World\<close>

record outcome_world =
  oz_sim :: sim_db
  oz_sweep :: store
  oz_kg :: kg_state
  oz_step :: nat

record sat_info =
  ja_name :: string
  ja_operatorName :: "string option"
  ja_country :: "int option"
  ja_countryName :: "string option"

text \<open>
  Which read, insert or link fails; the clock; the satellite rows and their empty telemetry columns; the
  texts; \<open>JSON.stringify\<close> and the snapshots' JSON.
\<close>

record promotion_env =
  oe_fails :: "nat \<Rightarrow> exn option"
  oe_now :: int
  oe_repo :: repo_env
  oe_kg :: kg_env
  oe_satellite :: "int \<Rightarrow> sat_info option"
  oe_nullColumns :: "int \<Rightarrow> string list"
  oe_embed :: "(string \<Rightarrow> jsnum list option throws) option"
  oe_json :: "jval \<Rightarrow> string"
  oe_number :: "real \<Rightarrow> string"
  oe_describe :: "swarm_aggregate \<Rightarrow> string option \<Rightarrow> string"
  oe_telemetryText :: "string \<Rightarrow> scalar_stats \<Rightarrow> real \<Rightarrow> string \<times> string \<times> string"

type_synonym 'a outcome = "outcome_world \<Rightarrow> 'a throws \<times> outcome_world"

definition oc_return :: "'a \<Rightarrow> 'a outcome" where
  [js_defs]: "oc_return x = (\<lambda>w. (Inr x, w))"

definition oc_bind :: "'a outcome \<Rightarrow> ('a \<Rightarrow> 'b outcome) \<Rightarrow> 'b outcome" where
  [js_defs]: "oc_bind m f = (\<lambda>w. case m w of (Inl e, v) \<Rightarrow> (Inl e, v) | (Inr x, v) \<Rightarrow> f x v)"

definition oc_lift :: "'a throws \<Rightarrow> 'a outcome" where
  [js_defs]: "oc_lift r = (\<lambda>w. (r, w))"

text \<open>A call of a database or of Redis: it fails, or does its work, which may throw after some effect.\<close>

definition oc_call :: "promotion_env \<Rightarrow> (outcome_world \<Rightarrow> 'a throws \<times> outcome_world) \<Rightarrow> 'a outcome" where
  [js_defs]: "oc_call env f =
     (\<lambda>w. let v = w\<lparr>oz_step := oz_step w + 1\<rparr> in
       case oe_fails env (oz_step w) of Some e \<Rightarrow> (Inl e, v) | None \<Rightarrow> f v)"

definition oc_read :: "promotion_env \<Rightarrow> (outcome_world \<Rightarrow> 'a) \<Rightarrow> 'a outcome" where
  [js_defs]: "oc_read env f = oc_call env (\<lambda>w. (Inr (f w), w))"

definition oc_kg :: "'a kg \<Rightarrow> 'a outcome" where
  [js_defs]: "oc_kg m = (\<lambda>w. case m (oz_kg w) of (r, k) \<Rightarrow> (r, w\<lparr>oz_kg := k\<rparr>))"

text \<open>\<open>insertGeneric\<close> and \<open>Number\<close> of the id it returns.\<close>

definition oc_insert :: "promotion_env \<Rightarrow> insert_suggestion \<Rightarrow> int outcome" where
  "oc_insert env sug =
     oc_call env (\<lambda>w. case insertGeneric (oe_repo env) sug (oe_now env) (oz_sweep w) of
         (Inl e, s) \<Rightarrow> (Inl e, w\<lparr>oz_sweep := s\<rparr>)
       | (Inr i, s) \<Rightarrow> (Inr (int (dec_value i)), w\<lparr>oz_sweep := s\<rparr>))"

definition oc_linkOutcome :: "promotion_env \<Rightarrow> int \<Rightarrow> int option option \<Rightarrow> int \<Rightarrow> unit outcome" where
  "oc_linkOutcome env swarm finding suggestion =
     oc_call env (\<lambda>w. (Inr (), w\<lparr>oz_sim := linkOutcome swarm finding (Some (Some suggestion)) (oz_sim w)\<rparr>))"

section \<open>Helpers\<close>

definition telemetryColumn :: "string \<Rightarrow> string option" where
  "telemetryColumn key =
     map_of [(''powerDraw'', ''power_draw''), (''thermalMargin'', ''thermal_margin''), (''pointingAccuracy'', ''pointing_accuracy''),
             (''attitudeRate'', ''attitude_rate''), (''linkBudget'', ''link_budget''), (''dataRate'', ''data_rate''),
             (''payloadDuty'', ''payload_duty''), (''eclipseRatio'', ''eclipse_ratio'')] key"

definition round_to :: "real \<Rightarrow> nat \<Rightarrow> real" where
  "round_to x digits = of_int (js_round (x * 10 ^ digits)) / 10 ^ digits"

definition scoreScalar :: "scalar_stats \<Rightarrow> real \<Rightarrow> string \<times> string" where
  "scoreScalar st confidence =
     (let cv = (if \<bar>sm_median st\<bar> > 1 / 10 ^ 9 then sm_sigma st / \<bar>sm_median st\<bar> else 1);
          enough = 5 \<le> sm_n st;
          tight = cv < 1 / 5 \<and> confidence \<ge> 1 / 5 \<and> enough;
          wide = cv \<ge> 1 / 2 \<and> enough
      in (if tight \<or> wide then ''warning'' else ''info'', ''SIM_UNCORROBORATED''))"

text \<open>The texts of an action; a kind outside the switch is \<open>undefined\<close>.\<close>

definition describeAction :: "promotion_env \<Rightarrow> ssa_turn_action option \<Rightarrow> string option" where
  "describeAction env a =
     (case a of
        Some (Maneuver i v) \<Rightarrow> Some (''maneuver satellite #'' @ oe_number env i @ '' (delta-v ~= '' @ to_fixed 1 v @ '' m/s)'')
      | Some (ProposeSplit x y) \<Rightarrow>
          Some (''propose split (own delta-v='' @ to_fixed 0 x @ '' / counterparty='' @ to_fixed 0 y @ '')'')
      | Some Accept \<Rightarrow> Some ''accept counterparty proposal''
      | Some Reject \<Rightarrow> Some ''reject counterparty proposal''
      | Some (Launch n r) \<Rightarrow>
          Some (''launch +'' @ oe_number env n @ (case r of Some i \<Rightarrow> '' into regime '' @ oe_number env i | None \<Rightarrow> []))
      | Some (Retire i) \<Rightarrow> Some (''retire satellite #'' @ oe_number env i)
      | Some (Lobby t s) \<Rightarrow> Some (''lobby '' @ t @ '' ('' @ s @ '')'')
      | Some Hold \<Rightarrow> Some ''hold''
      | _ \<Rightarrow> None)"

definition text_of :: "string option \<Rightarrow> string" where
  "text_of s = (case s of Some t \<Rightarrow> t | None \<Rightarrow> ''undefined'')"

definition composeTitle :: "promotion_env \<Rightarrow> int \<Rightarrow> swarm_aggregate \<Rightarrow> string" where
  "composeTitle env swarm agg =
     (case ga_modal agg of
        None \<Rightarrow> ''Swarm '' @ show_int swarm @ '': no modal''
      | Some m \<Rightarrow>
          ''Swarm '' @ show_int swarm @ '' consensus ('' @ show_int (js_round (gk_fraction m * 100)) @ ''% of '' @
          show_nat (ga_succeeded agg) @ ''): '' @ text_of (describeAction env (decode_action (gk_action m))))"

definition action_satellite :: "ssa_turn_action option \<Rightarrow> real option" where
  "action_satellite a = (case a of Some (Maneuver i _) \<Rightarrow> Some i | Some (Retire i) \<Rightarrow> Some i | _ \<Rightarrow> None)"

section \<open>Telemetry\<close>

definition telemetry_payload :: "telemetry_aggregate \<Rightarrow> string \<Rightarrow> real \<Rightarrow> string \<Rightarrow> jval" where
  "telemetry_payload agg column median source =
     JObj [(''kind'', JStr ''update_field''), (''satelliteIds'', JArr [JNum (ta_satellite agg)]), (''field'', JStr column),
           (''value'', JNum median),
           (''provenance'', JObj [(''source'', JStr ''sim_swarm_telemetry''), (''swarmId'', JNum (of_int (ta_swarm agg))),
                                 (''sourceClass'', JStr source)])]"

definition telemetry_distribution :: "telemetry_aggregate \<Rightarrow> string \<Rightarrow> string \<Rightarrow> scalar_stats \<Rightarrow> string \<Rightarrow> jval" where
  "telemetry_distribution agg key column st source =
     JObj [(''swarmId'', JNum (of_int (ta_swarm agg))), (''satelliteId'', JNum (ta_satellite agg)), (''scalar'', JStr key), (''column'', JStr column),
           (''stats'', JObj [(''median'', JNum (round_to (sm_median st) 6)), (''mean'', JNum (round_to (sm_mean st) 6)),
              (''sigma'', JNum (round_to (sm_sigma st) 6)), (''min'', JNum (round_to (sm_min st) 6)), (''max'', JNum (round_to (sm_max st) 6)),
              (''n'', JNum (of_nat (sm_n st))), (''unit'', JStr (sm_unit st)), (''avgFishConfidence'', JNum (round_to (sm_confidence st) 4)),
              (''values'', JArr (map (\<lambda>v. JNum (round_to v 6)) (sm_values st)))]),
           (''simConfidence'', JNum (round_to (ta_confidence agg) 4)), (''sourceClass'', JStr source)]"

definition country_fields :: "int option \<Rightarrow> string \<Rightarrow> (string \<times> jval) list" where
  "country_fields i name =
     [(''operatorCountryId'', case i of Some k \<Rightarrow> JBig k | None \<Rightarrow> JNull), (''operatorCountryName'', JStr name)]"

definition telemetry_suggestion :: "promotion_env \<Rightarrow> telemetry_aggregate \<Rightarrow> sat_info \<Rightarrow> string \<Rightarrow> string \<Rightarrow> scalar_stats \<Rightarrow> insert_suggestion" where
  "telemetry_suggestion env agg sat key column st =
     (let (severity, source) = scoreScalar st (ta_confidence agg); median = round_to (sm_median st) 6;
          (title, description, action) = oe_telemetryText env key st (ta_confidence agg) in
      \<lparr>is_domain = ''ssa'',
       is_domainFields = country_fields (ja_country sat) (case ja_countryName sat of Some n \<Rightarrow> n | None \<Rightarrow> ''(no country)'') @
         [(''category'', JStr ''enrichment''), (''severity'', JStr severity), (''title'', JStr title), (''description'', JStr description),
          (''affectedSatellites'', JNum 1), (''suggestedAction'', JStr action), (''webEvidence'', JNull)],
       is_resolutionPayload = Some (oe_json env (telemetry_payload agg column median source)),
       is_simSwarmId = Some (show_int (ta_swarm agg)),
       is_simDistribution = Some (oe_json env (telemetry_distribution agg key column st source))\<rparr>)"

fun emit_scalars :: "promotion_env \<Rightarrow> telemetry_aggregate \<Rightarrow> sat_info \<Rightarrow> string list \<Rightarrow> (string \<times> scalar_stats) list \<Rightarrow> int list outcome" where
  "emit_scalars env agg sat nulls [] = oc_return []"
| "emit_scalars env agg sat nulls ((key, st) # rest) =
     (case telemetryColumn key of
        None \<Rightarrow> emit_scalars env agg sat nulls rest
      | Some column \<Rightarrow>
          if column \<notin> set nulls then emit_scalars env agg sat nulls rest
          else oc_bind (oc_insert env (telemetry_suggestion env agg sat key column st)) (\<lambda>i.
                 oc_bind (emit_scalars env agg sat nulls rest) (\<lambda>is. oc_return (i # is))))"

definition emitTelemetrySuggestions :: "promotion_env \<Rightarrow> telemetry_aggregate \<Rightarrow> int list outcome" where
  "emitTelemetrySuggestions env agg =
     (if \<not> ta_quorumMet agg then oc_return []
      else oc_bind (oc_lift (js_bigint (Fin (ta_satellite agg)))) (\<lambda>sid.
        oc_bind (oc_read env (\<lambda>_. oe_satellite env sid)) (\<lambda>found.
          case found of
            None \<Rightarrow> oc_return []
          | Some sat \<Rightarrow>
              oc_bind (oc_read env (\<lambda>_. oe_nullColumns env sid)) (\<lambda>nulls.
                oc_bind (emit_scalars env agg sat nulls (ta_scalars agg)) (\<lambda>is.
                  case is of
                    [] \<Rightarrow> oc_return []
                  | i # _ \<Rightarrow> oc_bind (oc_linkOutcome env (ta_swarm agg) None i) (\<lambda>_. oc_return is))))))"

section \<open>The modal outcome\<close>

definition modal_cycle :: "promotion_env \<Rightarrow> int \<Rightarrow> kg_cycle" where
  "modal_cycle env swarm =
     \<lparr>ky_id = 0, ky_trigger = TriggerSystem, ky_source = ''sim_swarm:'' @ show_int swarm, ky_userId = None,
      ky_cortices = [''conjunction_analysis''], ky_status = CycleCompleted, ky_findingsCount = 0, ky_totalCost = None,
      ky_error = None, ky_completedAt = Some (oe_now env)\<rparr>"

definition cluster_json :: "swarm_cluster \<Rightarrow> (string \<times> jval) list" where
  "cluster_json c =
     [(''label'', JStr (gg_label c)), (''fraction'', JNum (gg_fraction c)), (''memberFishIndexes'', JArr (map (\<lambda>i. JNum (of_int i)) (gg_members c)))]"

definition modal_json :: "swarm_modal \<Rightarrow> real \<Rightarrow> jval" where
  "modal_json m fraction =
     JObj [(''actionKind'', JStr (gk_kind m)), (''fraction'', JNum fraction), (''exemplarSimRunId'', JNum (of_int (gk_run m)))]"

definition modal_finding :: "promotion_env \<Rightarrow> int \<Rightarrow> swarm_aggregate \<Rightarrow> swarm_modal \<Rightarrow> int \<Rightarrow> string \<Rightarrow> jsnum list option \<Rightarrow> kg_finding" where
  "modal_finding env swarm agg m cycle title embedding =
     \<lparr>kf_id = 0, kf_cycle = cycle, kf_cortex = ''conjunction_analysis'', kf_type = Strategy, kf_status = FindingActive,
      kf_urgency = (if gk_fraction m \<ge> 8 / 10 then Critical else High), kf_title = title,
      kf_summary = text_of (describeAction env (decode_action (gk_action m))),
      kf_evidence = [\<lparr>ev_source = ''sim_swarm'',
        ev_data = JObj [(''swarmId'', JNum (of_int swarm)), (''totalFish'', JNum (of_int (ga_total agg))),
                       (''succeededFish'', JNum (of_nat (ga_succeeded agg))), (''modal'', modal_json m (gk_fraction m)),
                       (''clusters'', JArr (map (\<lambda>c. JObj (cluster_json c)) (ga_clusters agg)))],
        ev_weight = gk_fraction m\<rparr>],
      kf_confidence = gk_fraction m, kf_impact = gk_fraction m, kf_extensions = None, kf_iteration = 0, kf_hash = None,
      kf_embedding = embedding, kf_expiresAt = None\<rparr>"

text \<open>An embedder that throws gives no vector.\<close>

definition safeEmbed :: "promotion_env \<Rightarrow> string \<Rightarrow> jsnum list option" where
  "safeEmbed env t =
     (case oe_embed env of None \<Rightarrow> None | Some f \<Rightarrow> (case f t of Inl _ \<Rightarrow> None | Inr v \<Rightarrow> v))"

definition modal_edge :: "int \<Rightarrow> swarm_modal \<Rightarrow> int \<Rightarrow> int \<Rightarrow> kg_edge" where
  "modal_edge swarm m finding sat =
     \<lparr>kd_finding = finding, kd_entityType = ''satellite'', kd_entityId = sat, kd_relation = Affects, kd_weight = 1,
      kd_context = Some (JObj [(''swarmId'', JNum (of_int swarm)), (''simRunId'', JNum (of_int (gk_run m))), (''source'', JStr ''sim_swarm_modal'')])\<rparr>"

text \<open>Lines 103 to 172: the finding of a promotable action, its link and its edge, one statement each.\<close>

definition promote_to_kg :: "promotion_env \<Rightarrow> int \<Rightarrow> swarm_aggregate \<Rightarrow> swarm_modal \<Rightarrow> int \<Rightarrow> string \<Rightarrow> string \<Rightarrow> int outcome" where
  "promote_to_kg env swarm agg m cycle title description =
     oc_bind (oc_kg (createFinding (oe_kg env)
                (modal_finding env swarm agg m cycle title (safeEmbed env (title @ [CHR 0x0A, CHR 0x0A] @ description))))) (\<lambda>f.
     oc_bind (oc_kg (linkFindingToCycle (oe_kg env) \<lparr>kc_cycle = cycle, kc_finding = kf_id f, kc_iteration = 0, kc_dedupHit = False\<rparr>)) (\<lambda>_.
     oc_bind (case action_satellite (decode_action (gk_action m)) of
                None \<Rightarrow> oc_return ()
              | Some x \<Rightarrow> oc_bind (oc_lift (js_bigint (Fin x))) (\<lambda>sat. oc_kg (createEdges (oe_kg env) [modal_edge swarm m (kf_id f) sat]))) (\<lambda>_.
     oc_bind (oc_kg (updateCycleFindingsCount (oe_kg env) cycle 1)) (\<lambda>_.
     oc_return (kf_id f)))))"

definition modal_payload :: "int \<Rightarrow> swarm_modal \<Rightarrow> int option \<Rightarrow> jval" where
  "modal_payload swarm m finding =
     JObj [(''kind'', JStr ''sim_swarm_modal''), (''swarmId'', JNum (of_int swarm)), (''action'', gk_action m),
           (''researchFindingId'', case finding of Some i \<Rightarrow> JNum (of_int i) | None \<Rightarrow> JNull)]"


definition modal_distribution :: "int \<Rightarrow> swarm_aggregate \<Rightarrow> swarm_modal \<Rightarrow> int \<Rightarrow> int option \<Rightarrow> jval" where
  "modal_distribution swarm agg m cycle finding =
     JObj [(''swarmId'', JNum (of_int swarm)), (''totalFish'', JNum (of_int (ga_total agg))), (''succeededFish'', JNum (of_nat (ga_succeeded agg))),
           (''failedFish'', JNum (of_nat (ga_failed agg))), (''quorumMet'', JBool (ga_quorumMet agg)),
           (''divergenceScore'', JNum (fixed_number 4 (ga_divergence agg))), (''modal'', modal_json m (fixed_number 4 (gk_fraction m))),
           (''clusters'', JArr (map (\<lambda>c. JObj (cluster_json (c\<lparr>gg_fraction := fixed_number 4 (gg_fraction c)\<rparr>) @
              [(''exemplarSimRunId'', JNum (of_int (gg_run c))), (''exemplarAction'', gg_action c)])) (ga_clusters agg))),
           (''researchCycleId'', JNum (of_int cycle)),
           (''researchFindingId'', case finding of Some i \<Rightarrow> JNum (of_int i) | None \<Rightarrow> JNull)]"

definition modal_suggestion ::
  "promotion_env \<Rightarrow> int \<Rightarrow> swarm_aggregate \<Rightarrow> swarm_modal \<Rightarrow> sat_info option \<Rightarrow> bool \<Rightarrow> string \<Rightarrow> string \<Rightarrow> int \<Rightarrow> int option \<Rightarrow> insert_suggestion" where
  "modal_suggestion env swarm agg m sat targeted title description cycle finding =
     \<lparr>is_domain = ''ssa'',
      is_domainFields = country_fields (Option.bind sat ja_country)
          (case Option.bind sat ja_countryName of Some n \<Rightarrow> if n = [] then ''swarm-consensus'' else n | None \<Rightarrow> ''swarm-consensus'') @
        [(''category'', JStr ''relationship_error''), (''severity'', JStr (if gk_fraction m \<ge> 8 / 10 then ''critical'' else ''warning'')),
         (''title'', JStr title), (''description'', JStr description), (''affectedSatellites'', JNum (if targeted then 1 else 0)),
         (''suggestedAction'', JStr (text_of (describeAction env (decode_action (gk_action m))))), (''webEvidence'', JNull)],
      is_resolutionPayload = Some (oe_json env (modal_payload swarm m finding)),
      is_simSwarmId = Some (show_int swarm),
      is_simDistribution = Some (oe_json env (modal_distribution swarm agg m cycle finding))\<rparr>"

definition find_target :: "promotion_env \<Rightarrow> ssa_turn_action option \<Rightarrow> sat_info option outcome" where
  "find_target env a =
     (case action_satellite a of
        None \<Rightarrow> oc_return None
      | Some x \<Rightarrow> oc_bind (oc_lift (js_bigint (Fin x))) (\<lambda>i. oc_read env (\<lambda>_. oe_satellite env i)))"

text \<open>Where the action of the modal cluster is promoted, a finding, else none.\<close>

definition modal_finding_id :: "promotion_env \<Rightarrow> int \<Rightarrow> swarm_aggregate \<Rightarrow> swarm_modal \<Rightarrow> int \<Rightarrow> string \<Rightarrow> string \<Rightarrow> int option outcome" where
  "modal_finding_id env swarm agg m cycle title description =
     (if isKgPromotable (gk_action m) then oc_bind (promote_to_kg env swarm agg m cycle title description) (\<lambda>i. oc_return (Some i))
      else oc_return None)"

definition emitSuggestionFromModal :: "promotion_env \<Rightarrow> int \<Rightarrow> swarm_aggregate \<Rightarrow> int option outcome" where
  "emitSuggestionFromModal env swarm agg =
     (case ga_modal agg of
        None \<Rightarrow> oc_return None
      | Some m \<Rightarrow>
          oc_bind (find_target env (decode_action (gk_action m))) (\<lambda>sat.
          let title = composeTitle env swarm agg; description = oe_describe env agg (Option.bind sat ja_operatorName) in
          oc_bind (oc_kg (createCycle (oe_kg env) (modal_cycle env swarm))) (\<lambda>cycle.
          oc_bind (modal_finding_id env swarm agg m (ky_id cycle) title description) (\<lambda>finding.
          oc_bind (oc_insert env (modal_suggestion env swarm agg m sat (action_satellite (decode_action (gk_action m)) \<noteq> None)
                                    title description (ky_id cycle) finding)) (\<lambda>i.
          oc_bind (oc_linkOutcome env swarm (case finding of None \<Rightarrow> None | Some f \<Rightarrow> Some (Some f)) i) (\<lambda>_.
          oc_return (Some i)))))))"

section \<open>The outcome resolver\<close>

datatype sim_snapshot =
    NarrativeSnapshot swarm_aggregate
  | TelemetrySnapshot telemetry_aggregate
  | PcSnapshot pc_aggregate bool nat nat

record sim_resolution =
  zr_status :: swarm_status
  zr_snapshot :: "(string \<times> sim_snapshot) option"

definition MODAL_SUGGESTION_THRESHOLD :: real where "MODAL_SUGGESTION_THRESHOLD = 1 / 2"

definition emitNarrativeSuggestion :: "promotion_env \<Rightarrow> int \<Rightarrow> swarm_aggregate \<Rightarrow> unit outcome" where
  "emitNarrativeSuggestion env swarm agg =
     (case ga_modal agg of
        None \<Rightarrow> oc_return ()
      | Some m \<Rightarrow>
          if gk_fraction m < MODAL_SUGGESTION_THRESHOLD \<or> gk_kind m \<notin> {''accept'', ''maneuver''} then oc_return ()
          else oc_bind (emitSuggestionFromModal env swarm agg) (\<lambda>_. oc_return ()))"

definition resolveNarrative :: "promotion_env \<Rightarrow> aggregator_env \<Rightarrow> int \<Rightarrow> sim_resolution outcome" where
  "resolveNarrative env aenv swarm =
     oc_bind (oc_call env (\<lambda>w. (aggregate aenv swarm (oz_sim w), w))) (\<lambda>agg.
       oc_bind (emitNarrativeSuggestion env swarm agg) (\<lambda>_.
         oc_return \<lparr>zr_status = (if ga_quorumMet agg then SwarmDone else SwarmFailed), zr_snapshot = Some (''aggregate'', NarrativeSnapshot agg)\<rparr>))"

text \<open>The quorum of the swarm's configuration is not passed on: the aggregator uses its default.\<close>

definition resolveTelemetry :: "promotion_env \<Rightarrow> int \<Rightarrow> sim_resolution outcome" where
  "resolveTelemetry env swarm =
     oc_bind (oc_read env (\<lambda>w. telemetryAggregate swarm None (oz_sim w))) (\<lambda>found.
       case found of
         None \<Rightarrow> oc_return \<lparr>zr_status = SwarmFailed, zr_snapshot = None\<rparr>
       | Some agg \<Rightarrow>
           oc_bind (if ta_quorumMet agg then oc_bind (emitTelemetrySuggestions env agg) (\<lambda>_. oc_return ()) else oc_return ()) (\<lambda>_.
             oc_return \<lparr>zr_status = (if ta_quorumMet agg then SwarmDone else SwarmFailed),
                        zr_snapshot = Some (''telemetryAggregate'', TelemetrySnapshot agg)\<rparr>))"

definition resolvePc :: "promotion_env \<Rightarrow> swarm_row \<Rightarrow> terminal_row list \<Rightarrow> sim_resolution outcome" where
  "resolvePc env s terminals =
     oc_bind (oc_read env (\<lambda>w. pcAggregate (sw_id s) (oz_sim w))) (\<lambda>found.
       let finished = length (filter (\<lambda>t. tr_status t = RunDone) terminals);
           failed = length (filter (\<lambda>t. tr_status t = RunFailed) terminals);
           met = quorum_required (sw_size s) (wc_quorumPct (sw_config s)) \<le> int finished in
       oc_return \<lparr>zr_status = (if met \<and> found \<noteq> None then SwarmDone else SwarmFailed),
                  zr_snapshot = map_option (\<lambda>a. (''pcAggregate'', PcSnapshot a met finished failed)) found\<rparr>)"

definition resolve_outcome :: "promotion_env \<Rightarrow> aggregator_env \<Rightarrow> swarm_row \<Rightarrow> terminal_row list \<Rightarrow> sim_resolution outcome" where
  "resolve_outcome env aenv s terminals =
     (if sw_kind s = ''uc_telemetry_inference'' then resolveTelemetry env (sw_id s)
      else if sw_kind s = ''uc_pc_estimator'' then resolvePc env s terminals
      else resolveNarrative env aenv (sw_id s))"

section \<open>The payload the resolution service accepts\<close>

text \<open>
  \<open>resolutionPayloadSchema\<close> of \<open>packages/sweep/src/dto/sweep.dto.ts\<close>: an optional type, and a list of at least one
  action, each an object with a kind. The text of a refusal is an argument.
\<close>

definition payload_action :: "jval \<Rightarrow> res_action option" where
  "payload_action v =
     (case field_of v ''kind'' of Some (JStr k) \<Rightarrow> if k = [] then None else Some (k, v) | _ \<Rightarrow> None)"

definition parse_payload :: "(jval \<Rightarrow> string) \<Rightarrow> jval \<Rightarrow> payload_parse" where
  "parse_payload message v =
     (let type_ok = (case field_of v ''type'' of None \<Rightarrow> True | Some JUndef \<Rightarrow> True | Some (JStr t) \<Rightarrow> t \<noteq> [] | _ \<Rightarrow> False) in
      case field_of v ''actions'' of
        Some (JArr xs) \<Rightarrow>
          (case those (map payload_action xs) of
             Some as \<Rightarrow> if as \<noteq> [] \<and> type_ok then PayloadActions as else InvalidPayload (message v)
           | None \<Rightarrow> InvalidPayload (message v))
      | _ \<Rightarrow> InvalidPayload (message v))"

lemma sim_payloads_invalid:
  "parse_payload msg (telemetry_payload agg column median source) = InvalidPayload (msg (telemetry_payload agg column median source))"
  "parse_payload msg (modal_payload swarm m finding) = InvalidPayload (msg (modal_payload swarm m finding))"
  by (simp_all add: parse_payload_def telemetry_payload_def modal_payload_def)


section \<open>A suggestion that cannot be resolved\<close>

lemma insert_effect:
  assumes "store_ok env s" and "insertGeneric env sug now s = (r, s')"
  shows "store_ok env s'"
    "\<forall>i. hgetall s' i = hgetall s i \<or>
       hgetall s i = [] \<and> hfield (hgetall s' i) ''id'' \<noteq> [] \<and> hfield (hgetall s' i) ''accepted'' = [] \<and>
       hfield (hgetall s' i) ''resolutionStatus'' = [] \<and>
       hfield (hgetall s' i) ''resolutionPayload'' = opt_string (is_resolutionPayload sug)"
proof -
  show "store_ok env s'" using insertGeneric_ok [OF assms(1), of sug now] assms(2) by simp
  let ?n = "ss_counter s + 1" and ?s1 = "s\<lparr>ss_counter := ss_counter s + 1\<rparr>"
  have "show_nat ?n \<notin> fst ` set (ss_hash s)" using fresh_id [OF assms(1), of ?n] by simp
  then have none: "map_of (ss_hash s) (show_nat ?n) = None" by (simp add: map_of_eq_None_iff)
  show "\<forall>i. hgetall s' i = hgetall s i \<or>
       hgetall s i = [] \<and> hfield (hgetall s' i) ''id'' \<noteq> [] \<and> hfield (hgetall s' i) ''accepted'' = [] \<and>
       hfield (hgetall s' i) ''resolutionStatus'' = [] \<and>
       hfield (hgetall s' i) ''resolutionPayload'' = opt_string (is_resolutionPayload sug)"
  proof (cases "toHash env sug ?n (re_iso env now)")
    case (Inl e)
    then have "s' = ?s1" using assms(2) by (auto simp: insertGeneric_def enqueueWrite_def Let_def)
    then show ?thesis by (simp add: hgetall_def)
  next
    case (Inr d)
    have "spread (hgetall ?s1 (show_nat ?n)) d = d" using none toHash_distinct [OF Inr] by (simp add: hgetall_def spread_Nil)
    then have "ss_hash s' = AList.update (show_nat ?n) d (ss_hash s)"
      using assms(2) Inr by (auto simp: insertGeneric_def enqueueWrite_def Let_def)
    then have "hgetall s' i = (if i = show_nat ?n then d else hgetall s i)" for i by (simp add: hgetall_def update_conv)
    moreover have "hgetall s (show_nat ?n) = []" using none by (simp add: hgetall_def)
    moreover have "show_nat ?n \<noteq> []" by (rule show_nat_nonempty)
    ultimately show ?thesis using toHash_reserved [OF Inr] by simp
  qed
qed

text \<open>An open suggestion whose payload the schema refuses.\<close>

definition dead_payload :: "promotion_env \<Rightarrow> (jval \<Rightarrow> string) \<Rightarrow> rhash \<Rightarrow> bool" where
  "dead_payload env msg d =
     (hfield d ''id'' \<noteq> [] \<and> hfield d ''accepted'' = [] \<and> hfield d ''resolutionStatus'' = [] \<and>
      (\<exists>v. hfield d ''resolutionPayload'' = oe_json env v \<and> parse_payload msg v = InvalidPayload (msg v)))"

definition adds_dead :: "promotion_env \<Rightarrow> (jval \<Rightarrow> string) \<Rightarrow> outcome_world \<Rightarrow> outcome_world \<Rightarrow> bool" where
  "adds_dead env msg w v =
     (store_ok (oe_repo env) (oz_sweep w) \<longrightarrow>
        store_ok (oe_repo env) (oz_sweep v) \<and>
        (\<forall>i. hgetall (oz_sweep v) i = hgetall (oz_sweep w) i \<or>
             hgetall (oz_sweep w) i = [] \<and> dead_payload env msg (hgetall (oz_sweep v) i)))"

definition only_dead :: "promotion_env \<Rightarrow> (jval \<Rightarrow> string) \<Rightarrow> 'a outcome \<Rightarrow> bool" where
  "only_dead env msg m = (\<forall>w. adds_dead env msg w (snd (m w)))"

lemma dead_not_empty: "dead_payload env msg d \<Longrightarrow> d \<noteq> []"
  by (auto simp: dead_payload_def hfield_def)

lemma adds_dead_same: "oz_sweep v = oz_sweep w \<Longrightarrow> adds_dead env msg w v"
  by (simp add: adds_dead_def)

lemma adds_dead_trans: "adds_dead env msg a b \<Longrightarrow> adds_dead env msg b c \<Longrightarrow> adds_dead env msg a c"
  unfolding adds_dead_def using dead_not_empty by metis

lemma dead_return: "only_dead env msg (oc_return x)" "only_dead env msg (oc_lift r)" "only_dead env msg (oc_kg k)"
  by (auto simp: only_dead_def oc_return_def oc_lift_def oc_kg_def intro: adds_dead_same split: prod.split)

lemma dead_bind: "only_dead env msg m \<Longrightarrow> (\<And>x. only_dead env msg (f x)) \<Longrightarrow> only_dead env msg (oc_bind m f)"
  unfolding only_dead_def oc_bind_def by (auto split: prod.split sum.split) (metis snd_conv adds_dead_trans)+

lemma dead_call: "(\<And>w. oz_sweep (snd (f w)) = oz_sweep w) \<Longrightarrow> only_dead env msg (oc_call penv f)"
  by (auto simp: only_dead_def oc_call_def Let_def intro!: adds_dead_same split: option.split)

lemma dead_read: "only_dead env msg (oc_read penv f)"
  unfolding oc_read_def by (rule dead_call) simp

lemma dead_insert:
  assumes "is_resolutionPayload sug = Some (oe_json env v)" and "parse_payload msg v = InvalidPayload (msg v)"
  shows "only_dead env msg (oc_insert env sug)"
proof -
  have "adds_dead env msg w (snd (oc_insert env sug w))" for w
  proof (cases "oe_fails env (oz_step w)")
    case (Some e)
    then show ?thesis by (simp add: oc_insert_def oc_call_def Let_def adds_dead_same)
  next
    case None
    obtain r s where ins: "insertGeneric (oe_repo env) sug (oe_now env) (oz_sweep w) = (r, s)" by (metis prod.exhaust)
    then have "oz_sweep (snd (oc_insert env sug w)) = s" using None by (cases r) (simp_all add: oc_insert_def oc_call_def Let_def)
    then show ?thesis using insert_effect [OF _ ins] assms unfolding adds_dead_def dead_payload_def by (auto simp: opt_string_def)
  qed
  then show ?thesis by (simp add: only_dead_def)
qed

lemmas dead_rules = dead_return dead_bind dead_read

lemma telemetry_suggestion_payload:
  "is_resolutionPayload (telemetry_suggestion env agg sat key column st) =
     Some (oe_json env (telemetry_payload agg column (round_to (sm_median st) 6) (snd (scoreScalar st (ta_confidence agg)))))"
  by (simp add: telemetry_suggestion_def Let_def case_prod_unfold)

lemma dead_scalars: "only_dead env msg (emit_scalars env agg sat nulls sts)"
proof (induction sts)
  case (Cons x sts)
  obtain key st where x: "x = (key, st)" by (metis prod.exhaust)
  have "only_dead env msg (oc_insert env (telemetry_suggestion env agg sat key column st))" for column
    by (rule dead_insert [OF telemetry_suggestion_payload sim_payloads_invalid(1)])
  then show ?case unfolding x emit_scalars.simps using Cons by (auto intro!: dead_rules split: option.split)
qed (simp add: dead_return)

lemma dead_link: "only_dead env msg (oc_linkOutcome env swarm finding i)"
  unfolding oc_linkOutcome_def by (rule dead_call) simp

lemma dead_telemetry: "only_dead env msg (emitTelemetrySuggestions env agg)"
  unfolding emitTelemetrySuggestions_def by (auto intro!: dead_rules dead_scalars dead_link split: option.split list.split)

lemma dead_modal: "only_dead env msg (emitSuggestionFromModal env swarm agg)"
proof -
  have ins: "only_dead env msg (oc_insert env (modal_suggestion env swarm agg m sat t title description cycle finding))"
    for m sat t title description cycle finding
    by (rule dead_insert [OF _ sim_payloads_invalid(2)]) (simp add: modal_suggestion_def)
  show ?thesis unfolding emitSuggestionFromModal_def find_target_def modal_finding_id_def promote_to_kg_def Let_def
    by (auto intro!: dead_rules ins dead_link split: option.split)
qed

lemma dead_outcome: "only_dead env msg (resolve_outcome env aenv s terminals)"
proof -
  have "only_dead env msg (resolveTelemetry env i)" for i
    unfolding resolveTelemetry_def by (auto intro!: dead_rules dead_telemetry split: option.split)
  moreover have "only_dead env msg (resolveNarrative env aenv i)" for i
    unfolding resolveNarrative_def emitNarrativeSuggestion_def
    by (auto intro!: dead_rules dead_modal dead_call split: option.split)
  moreover have "only_dead env msg (resolvePc env s terminals)"
    unfolding resolvePc_def Let_def by (auto intro!: dead_rules)
  ultimately show ?thesis by (simp add: resolve_outcome_def)
qed

text \<open>Accepting it, then resolving it.\<close>

lemma resolve_dead:
  assumes "getById renv t i = Some row" and "sg_accepted row = Some True" and "sg_resolutionStatus row = ''pending''"
    and "sg_resolutionPayload row = Some p" "p \<noteq> []" and "rv_parsePayload env p = InvalidPayload m"
  shows "\<exists>res u. resolve (repo_port renv) env i sel token (t, lg) = (res, (u, lg)) \<and> rs_status res \<notin> {''success'', ''partial''} \<and>
    ss_hash u = ss_hash t"
proof -
  have pre: "preflightResolutionRow env row = None" using assms(2-5) by (simp add: preflightResolutionRow_def toTerminalResolutionResult_def)
  obtain c s1 where claim: "claimResolutionLock i token t = (c, s1)" by (metis prod.exhaust)
  then have hash: "ss_hash s1 = ss_hash t" by (auto simp: claimResolutionLock_def split: if_splits)
  then have get: "getById renv s1 i = Some row" using assms(1) by (simp add: getById_def hgetall_def)
  have rel: "ss_hash (releaseResolutionLock i token s1) = ss_hash t" using hash by (simp add: releaseResolutionLock_def)
  have loaded: "resolveLoaded (repo_port renv) env i row sel (s2, lg) = (failed_with (''Invalid payload: '' @ m), (s2, lg))" for s2
    using assms(4-6) by (simp add: resolveLoaded_def)
  show ?thesis
  proof (cases c)
    case True
    then show ?thesis using assms(1) pre claim get rel loaded by (simp add: resolve_def repo_port_def failed_with_def)
  next
    case False
    then show ?thesis using assms(1) pre claim hash by (simp add: resolve_def repo_port_def busy_result_def)
  qed
qed

lemma accept_dead:
  assumes "dead_payload env msg (hgetall s i)" and "\<And>v. oe_json env v \<noteq> []"
  shows "\<exists>row v. getById renv (snd (review renv i True note now s)) i = Some row \<and> sg_accepted row = Some True \<and>
    sg_resolutionStatus row = ''pending'' \<and> sg_resolutionPayload row = Some (oe_json env v) \<and> parse_payload msg v = InvalidPayload (msg v)"
proof -
  let ?d = "hgetall s i" and ?p = "[(''accepted'', ''true''), (''reviewerNote'', opt_string note), (''reviewedAt'', re_iso renv now)]"
  have "hfield ?d ''id'' \<noteq> []" using assms(1) by (simp add: dead_payload_def)
  then have "hgetall (snd (review renv i True note now s)) i = spread ?d ?p"
    by (simp add: review_def Let_def hgetall_def unindexSuggestion_def update_conv) 
  moreover have "hfield (spread ?d ?p) k = hfield ?d k" if "k \<in> {''id'', ''resolutionStatus'', ''resolutionPayload''}" for k
    using that by (intro hfield_spread_other) auto
  moreover have "hfield (spread ?d ?p) ''accepted'' = ''true''" by (simp add: hfield_def map_of_spread)
  moreover obtain v where v: "hfield ?d ''resolutionPayload'' = oe_json env v" "parse_payload msg v = InvalidPayload (msg v)"
    using assms(1) by (auto simp: dead_payload_def)
  moreover have "oe_json env v \<noteq> []" by (rule assms(2))
  ultimately show ?thesis using assms(1) by (auto simp: getById_def toRow_def dead_payload_def none_if_empty_def)
qed


section \<open>The suggestions of a telemetry swarm\<close>

definition open_scalar :: "string list \<Rightarrow> string \<times> scalar_stats \<Rightarrow> bool" where
  "open_scalar nulls x = (case telemetryColumn (fst x) of None \<Rightarrow> False | Some column \<Rightarrow> column \<in> set nulls)"

lemma insertGeneric_id: "insertGeneric env sug now s = (Inr i, s') \<Longrightarrow> i = show_nat (Suc (ss_counter s)) \<and> ss_counter s' = Suc (ss_counter s)"
  by (auto simp: insertGeneric_def enqueueWrite_def Let_def split: sum.splits)

lemma oc_insert_id:
  assumes "oc_insert env sug w = (Inr k, w')"
  shows "k = int (Suc (ss_counter (oz_sweep w)))" "ss_counter (oz_sweep w') = Suc (ss_counter (oz_sweep w))" "oz_sim w' = oz_sim w"
proof -
  obtain r s where ins: "insertGeneric (oe_repo env) sug (oe_now env) (oz_sweep w) = (r, s)" by (metis prod.exhaust)
  obtain i where i: "r = Inr i" "k = int (dec_value i)" "oz_sweep w' = s" "oz_sim w' = oz_sim w"
    using assms ins by (cases r) (auto simp: oc_insert_def oc_call_def Let_def split: option.splits)
  from insertGeneric_id [OF ins [unfolded i(1)]] i show "k = int (Suc (ss_counter (oz_sweep w)))"
    "ss_counter (oz_sweep w') = Suc (ss_counter (oz_sweep w))" "oz_sim w' = oz_sim w" by (simp_all add: dec_value_show_nat)
qed

lemma oc_bind_Inr: "oc_bind m f w = (Inr y, v) \<longleftrightarrow> (\<exists>x u. m w = (Inr x, u) \<and> f x u = (Inr y, v))"
  by (auto simp: oc_bind_def split: prod.splits sum.splits)

lemma emitted_ids:
  assumes "emit_scalars env agg sat nulls sts w = (Inr is, w')"
  shows "is = map int [Suc (ss_counter (oz_sweep w))..<Suc (ss_counter (oz_sweep w) + length (filter (open_scalar nulls) sts))] \<and> oz_sim w' = oz_sim w"
  using assms
proof (induction sts arbitrary: w "is" w')
  case Nil
  then show ?case by (simp add: oc_return_def)
next
  case (Cons x sts)
  obtain key st where x: "x = (key, st)" by (metis prod.exhaust)
  show ?case
  proof (cases "open_scalar nulls x")
    case False
    then have "emit_scalars env agg sat nulls sts w = (Inr is, w')"
      using Cons.prems x by (auto simp: open_scalar_def split: option.splits)
    then show ?thesis using Cons.IH False by simp
  next
    case True
    then obtain column where c: "telemetryColumn key = Some column" "column \<in> set nulls"
      using x by (auto simp: open_scalar_def split: option.splits)
    obtain i u js where run: "oc_insert env (telemetry_suggestion env agg sat key column st) w = (Inr i, u)"
      "emit_scalars env agg sat nulls sts u = (Inr js, w')" "is = i # js"
      using Cons.prems c x by (auto simp: oc_bind_Inr oc_return_def)
    show ?thesis using Cons.IH [OF run(2)] oc_insert_id [OF run(1)] run(3) True by (simp add: upt_conv_Cons del: upt_Suc)
  qed
qed

section \<open>Properties\<close>

text \<open>C27: Every suggestion that the promotion of a swarm's outcome adds, whatever the kind of the swarm and even if the
  promotion throws half way, is one that the resolution service can never carry out: once it is accepted, resolving
  it dispatches no action, changes no row and reports neither success nor partial success.\<close>

theorem simulation_suggestions_never_resolve:
  assumes "store_reach (oe_repo env) (oz_sweep w)" and "resolve_outcome env aenv s terminals w = (r, w')"
    and "hgetall (oz_sweep w) i = []" "hgetall (oz_sweep w') i \<noteq> []"
    and "\<And>v. oe_json env v \<noteq> []"
    and "\<And>v. parse_payload msg v = InvalidPayload (msg v) \<Longrightarrow> rv_parsePayload renv (oe_json env v) = InvalidPayload (msg v)"
  shows "\<exists>res u. resolve (repo_port (oe_repo env)) renv i sel token (snd (review (oe_repo env) i True remark now (oz_sweep w')), lg) = (res, (u, lg)) \<and>
    rs_status res \<notin> {''success'', ''partial''} \<and> ss_hash u = ss_hash (snd (review (oe_repo env) i True remark now (oz_sweep w')))"
proof -
  have "adds_dead env msg w w'" using dead_outcome [of env msg aenv s terminals] assms(2) unfolding only_dead_def by (metis snd_conv)
  then have "hgetall (oz_sweep w') i = hgetall (oz_sweep w) i \<or> dead_payload env msg (hgetall (oz_sweep w') i)"
    using store_reach_ok [OF assms(1)] unfolding adds_dead_def by blast
  then have "dead_payload env msg (hgetall (oz_sweep w') i)" using assms(3,4) by simp
  from accept_dead [OF this assms(5), of "oe_repo env" remark now] obtain row v
    where row: "getById (oe_repo env) (snd (review (oe_repo env) i True remark now (oz_sweep w'))) i = Some row" "sg_accepted row = Some True"
      "sg_resolutionStatus row = ''pending''" "sg_resolutionPayload row = Some (oe_json env v)" "parse_payload msg v = InvalidPayload (msg v)" by blast
  show ?thesis by (rule resolve_dead [OF row(1-4) assms(5) assms(6) [OF row(5)]])
qed

text \<open>The promotion of a telemetry aggregate that met its quorum adds exactly one suggestion for each inferred
  scalar whose column is empty on the satellite, numbered in order from the next free id, and links the swarm
  to the first of them; without such a scalar the swarm stays unlinked.\<close>

theorem telemetry_fills_only_empty_columns:
  assumes "emitTelemetrySuggestions env agg w = (Inr is, w')" and "ta_quorumMet agg"
    and "js_bigint (Fin (ta_satellite agg)) = Inr sid" and "oe_satellite env sid = Some sat"
  shows "is = map int [Suc (ss_counter (oz_sweep w))..<Suc (ss_counter (oz_sweep w) + length (filter (open_scalar (oe_nullColumns env sid)) (ta_scalars agg)))] \<and>
    oz_sim w' = (case is of [] \<Rightarrow> oz_sim w | i # _ \<Rightarrow> linkOutcome (ta_swarm agg) None (Some (Some i)) (oz_sim w))"
proof -
  obtain u js v where run: "emit_scalars env agg sat (oe_nullColumns env sid) (ta_scalars agg) u = (Inr js, v)"
    and u: "oz_sweep u = oz_sweep w" "oz_sim u = oz_sim w"
    and rest: "(case js of [] \<Rightarrow> oc_return [] | i # _ \<Rightarrow> oc_bind (oc_linkOutcome env (ta_swarm agg) None i) (\<lambda>_. oc_return js)) v = (Inr is, w')"
    using assms by (auto simp: emitTelemetrySuggestions_def oc_bind_Inr oc_lift_def oc_read_def oc_call_def Let_def split: option.splits)
  note ids = emitted_ids [OF run]
  show ?thesis
  proof (cases js)
    case Nil
    then show ?thesis using rest ids u by (simp add: oc_return_def)
  next
    case (Cons i is')
    then show ?thesis using rest ids u
      by (auto simp: oc_bind_Inr oc_return_def oc_linkOutcome_def oc_call_def Let_def split: option.splits)
  qed
qed


section \<open>Demonstrations\<close>

definition demo_promotion :: promotion_env where
  "demo_promotion =
     \<lparr>oe_fails = \<lambda>_. None, oe_now = 5, oe_repo = demo_repo,
      oe_kg = \<lparr>kz_fails = \<lambda>_. None, kz_now = \<lambda>_. 0, kz_embed = \<lambda>_. Inr None, kz_sha = id, kz_sim = \<lambda>_ _. 0, kz_embedder = []\<rparr>,
      oe_satellite = \<lambda>_. Some \<lparr>ja_name = ''SAT'', ja_operatorName = None, ja_country = Some 1, ja_countryName = None\<rparr>,
      oe_nullColumns = \<lambda>_. [''power_draw''], oe_embed = None, oe_json = \<lambda>_. ''{}'', oe_number = \<lambda>_. [], oe_describe = \<lambda>_ _. [],
      oe_telemetryText = \<lambda>_ _ _. ([], [], [])\<rparr>"

definition demo_world :: outcome_world where
  "demo_world =
     \<lparr>oz_sim = outcome_db [demo_reading 3, demo_reading 5], oz_sweep = empty_store,
      oz_kg = \<lparr>ks_db = \<lparr>kb_cycles = [], kb_findings = [], kb_edges = [], kb_links = [], kb_nextCycle = 1, kb_nextFinding = 1\<rparr>, ks_step = 0\<rparr>,
      oz_step = 0\<rparr>"

lemma demo_promotion_simps [simp]:
  "oe_fails demo_promotion = (\<lambda>_. None)" "oe_repo demo_promotion = demo_repo" "oe_now demo_promotion = 5" "oe_json demo_promotion = (\<lambda>_. ''{}'')"
  "oe_satellite demo_promotion = (\<lambda>_. Some \<lparr>ja_name = ''SAT'', ja_operatorName = None, ja_country = Some 1, ja_countryName = None\<rparr>)"
  "oe_nullColumns demo_promotion = (\<lambda>_. [''power_draw''])"
  by (simp_all add: demo_promotion_def)

lemma closed_scalars: "(\<forall>x \<in> set sts. \<not> open_scalar nulls x) \<Longrightarrow> emit_scalars env agg sat nulls sts w = (Inr [], w)"
  by (induction sts) (auto simp: oc_return_def open_scalar_def split: option.splits)

lemma demo_insert:
  assumes "oz_sweep w = empty_store"
  shows "\<exists>w'. oc_insert demo_promotion (telemetry_suggestion demo_promotion agg sat key column st) w = (Inr 1, w') \<and>
    hgetall (oz_sweep w') ''1'' \<noteq> [] \<and> oz_sim w' = oz_sim w"
proof -
  let ?sug = "telemetry_suggestion demo_promotion agg sat key column st"
  have one: "show_nat 1 = ''1''" by code_simp
  obtain d where d: "toHash demo_repo ?sug 1 (re_iso demo_repo 5) = Inr d"
    by (simp add: toHash_def serializeDomainFields_def telemetry_suggestion_def demo_repo_def fallbackSerialize_def case_prod_unfold Let_def
        demo_promotion_def country_fields_def RESERVED_HASH_KEYS_def DOMAIN_BLOB_def)
  then obtain s where ins: "insertGeneric demo_repo ?sug 5 empty_store = (Inr ''1'', s)" "hgetall s ''1'' = spread [] d"
    using one by (auto simp: insertGeneric_def enqueueWrite_def empty_store_def hgetall_def update_conv)
  moreover have "spread [] d \<noteq> []"
    using toHash_reserved(1) [OF d] one spread_Nil [OF toHash_distinct [OF d]] by (auto simp: hfield_def)
  moreover have "dec_value ''1'' = 1" using dec_value_show_nat [of 1] one by simp
  ultimately show ?thesis using assms by (simp add: oc_insert_def oc_call_def demo_promotion_def Let_def)
qed

lemma demo_telemetry:
  "\<exists>r w'. resolve_outcome demo_promotion aenv ((hd (db_swarms (oz_sim demo_world)))\<lparr>sw_kind := ''uc_telemetry_inference''\<rparr>) [] demo_world = (r, w') \<and>
     hgetall (oz_sweep w') ''1'' \<noteq> []"
proof -
  let ?db = "outcome_db [demo_reading 3, demo_reading 5]"
  have swarm: "swarm_findById 1 ?db = Some (hd (db_swarms ?db))" "target_satellite (Some (hd (db_swarms ?db))) = Some 7" "sw_size (hd (db_swarms ?db)) = 2"
    by (simp_all add: outcome_db_def swarm_findById_def target_satellite_def)
  have acts: "map (snd \<circ> snd) (done_actions 1 ?db) =
      map (\<lambda>x. InferTelemetry 7 (map (\<lambda>k. (k, x, ''W'')) TELEMETRY_SCALAR_KEYS) (1/2)) [3, 5]"
    by (simp add: done_actions_def outcome_rows reading_decoded)
  let ?scalars = "telemetry_scalars (map (snd \<circ> snd) (done_actions 1 ?db))"
  have "telemetry_points k (map (snd \<circ> snd) (done_actions 1 ?db)) \<noteq> []" if "k \<in> set TELEMETRY_SCALAR_KEYS" for k
    unfolding acts using that by (auto simp: telemetry_points_def TELEMETRY_SCALAR_KEYS_def)
  then have keys: "map fst ?scalars = TELEMETRY_SCALAR_KEYS" unfolding telemetry_scalars_keys by (intro filter_True) blast
  then obtain st rest where split: "?scalars = (''powerDraw'', st) # rest" "map fst rest = tl TELEMETRY_SCALAR_KEYS"
    by (cases ?scalars) (auto simp: TELEMETRY_SCALAR_KEYS_def)
  have closed: "\<forall>x \<in> set rest. \<not> open_scalar [''power_draw''] x"
  proof
    fix x assume "x \<in> set rest"
    then have "fst x \<in> set (tl TELEMETRY_SCALAR_KEYS)" unfolding split(2) [symmetric] by simp
    then show "\<not> open_scalar [''power_draw''] x" by (auto simp: TELEMETRY_SCALAR_KEYS_def open_scalar_def telemetryColumn_def)
  qed
  have "count_runs RunDone 1 ?db = 2" by (simp add: count_runs_def outcome_rows)
  then obtain agg where agg: "telemetryAggregate 1 None ?db = Some agg" "ta_quorumMet agg" "ta_satellite agg = 7"
    "ta_scalars agg = (''powerDraw'', st) # rest"
    using swarm split(1) by (simp add: telemetryAggregate_def Let_def)
  let ?sat = "\<lparr>ja_name = ''SAT'', ja_operatorName = None, ja_country = Some 1, ja_countryName = None\<rparr>"
  have "oz_sweep (demo_world\<lparr>oz_step := Suc (Suc (Suc 0))\<rparr>) = empty_store" by (simp add: demo_world_def)
  from demo_insert [OF this] obtain u where u: "oc_insert demo_promotion (telemetry_suggestion demo_promotion agg ?sat ''powerDraw'' ''power_draw'' st)
      (demo_world\<lparr>oz_step := Suc (Suc (Suc 0))\<rparr>) = (Inr 1, u)" "hgetall (oz_sweep u) ''1'' \<noteq> []" by blast
  have emitted: "emit_scalars demo_promotion agg ?sat [''power_draw''] (ta_scalars agg) (demo_world\<lparr>oz_step := Suc (Suc (Suc 0))\<rparr>) = (Inr [1], u)"
    using u(1) closed_scalars [OF closed] by (simp add: agg(4) telemetryColumn_def oc_bind_def oc_return_def)
  have "emitTelemetrySuggestions demo_promotion agg (demo_world\<lparr>oz_step := Suc 0\<rparr>) =
      (Inr [1], u\<lparr>oz_step := oz_step u + 1, oz_sim := linkOutcome (ta_swarm agg) None (Some (Some 1)) (oz_sim u)\<rparr>)"
    using agg(2,3) emitted js_bigint_of_int [of 7]
    by (simp add: emitTelemetrySuggestions_def oc_bind_def oc_lift_def oc_read_def oc_call_def oc_return_def oc_linkOutcome_def Let_def)
  moreover have step: "oz_step demo_world = 0" and world: "oz_sim demo_world = ?db" "sw_id (hd (db_swarms ?db)) = 1"
    by (simp_all add: demo_world_def outcome_db_def)
  ultimately show ?thesis using agg(1,2) u(2)
    by (simp add: resolve_outcome_def resolveTelemetry_def oc_bind_def oc_read_def oc_call_def oc_return_def Let_def step world)
qed


theorem simulation_suggestions_never_resolve_witness:
  "\<exists>s (w' :: outcome_world) res u. hgetall (oz_sweep w') ''1'' \<noteq> [] \<and> s = snd (review demo_repo ''1'' True None 7 (oz_sweep w')) \<and>
     resolve (repo_port demo_repo) (demo_res_env\<lparr>rv_parsePayload := \<lambda>_. InvalidPayload ''bad''\<rparr>) ''1'' None ''t'' (s, []) = (res, (u, [])) \<and>
     rs_status res \<notin> {''success'', ''partial''}"
proof -
  let ?s = "(hd (db_swarms (oz_sim demo_world)))\<lparr>sw_kind := ''uc_telemetry_inference''\<rparr>"
  obtain r w' where run: "resolve_outcome demo_promotion undefined ?s [] demo_world = (r, w')" "hgetall (oz_sweep w') ''1'' \<noteq> []"
    using demo_telemetry by blast
  have reach: "store_reach (oe_repo demo_promotion) (oz_sweep demo_world)" by (simp add: demo_world_def store_reach.empty)
  have fresh: "hgetall (oz_sweep demo_world) ''1'' = []" by (simp add: demo_world_def hgetall_def empty_store_def)
  have "\<exists>res u. resolve (repo_port (oe_repo demo_promotion)) (demo_res_env\<lparr>rv_parsePayload := \<lambda>_. InvalidPayload ''bad''\<rparr>) ''1'' None ''t''
      (snd (review (oe_repo demo_promotion) ''1'' True None 7 (oz_sweep w')), []) = (res, (u, [])) \<and> rs_status res \<notin> {''success'', ''partial''} \<and>
      ss_hash u = ss_hash (snd (review (oe_repo demo_promotion) ''1'' True None 7 (oz_sweep w')))"
    by (rule simulation_suggestions_never_resolve [OF reach run(1) fresh run(2), where msg = "\<lambda>_. ''bad''"]) simp_all
  then obtain res u where res: "resolve (repo_port demo_repo) (demo_res_env\<lparr>rv_parsePayload := \<lambda>_. InvalidPayload ''bad''\<rparr>) ''1'' None ''t''
      (snd (review demo_repo ''1'' True None 7 (oz_sweep w')), []) = (res, (u, []))" "rs_status res \<notin> {''success'', ''partial''}"
    unfolding demo_promotion_simps by blast
  show ?thesis using run(2) res by blast
qed

theorem telemetry_fills_only_empty_columns_witness:
  "\<exists>w' agg. emitTelemetrySuggestions demo_promotion agg demo_world = (Inr [1], w') \<and> ta_quorumMet agg \<and>
     oz_sim w' = linkOutcome 1 None (Some (Some 1)) (oz_sim demo_world)"
proof -
  let ?st = "\<lparr>sm_median = 4, sm_sigma = 1, sm_min = 3, sm_max = 5, sm_mean = 4, sm_n = 2, sm_values = [3, 5], sm_unit = ''W'', sm_confidence = 1\<rparr>"
  let ?agg = "\<lparr>ta_swarm = 1, ta_satellite = 7, ta_total = 2, ta_succeeded = 2, ta_failed = 0, ta_quorumMet = True,
      ta_scalars = [(''powerDraw'', ?st), (''dataRate'', ?st)], ta_confidence = 1/5\<rparr>"
  let ?sat = "\<lparr>ja_name = ''SAT'', ja_operatorName = None, ja_country = Some 1, ja_countryName = None\<rparr>"
  have "oz_sweep (demo_world\<lparr>oz_step := Suc (Suc 0)\<rparr>) = empty_store" by (simp add: demo_world_def)
  from demo_insert [OF this] obtain u where u: "oc_insert demo_promotion (telemetry_suggestion demo_promotion ?agg ?sat ''powerDraw'' ''power_draw'' ?st)
      (demo_world\<lparr>oz_step := Suc (Suc 0)\<rparr>) = (Inr 1, u)" by blast
  have id: "js_bigint (Fin 7) = Inr 7" using js_bigint_of_int [of 7] by simp
  have "oz_step demo_world = 0" by (simp add: demo_world_def)
  then obtain w' where run: "emitTelemetrySuggestions demo_promotion ?agg demo_world = (Inr [1], w')"
    using u id by (simp add: emitTelemetrySuggestions_def oc_bind_def oc_lift_def oc_read_def oc_call_def oc_return_def oc_linkOutcome_def
        Let_def telemetryColumn_def)
  have "ta_quorumMet ?agg" "js_bigint (Fin (ta_satellite ?agg)) = Inr 7" "oe_satellite demo_promotion 7 = Some ?sat" using id by simp_all
  from telemetry_fills_only_empty_columns [OF run this, THEN conjunct2]
  have "oz_sim w' = linkOutcome 1 None (Some (Some 1)) (oz_sim demo_world)" by simp
  then show ?thesis using run by (intro exI [of _ w'] exI [of _ ?agg]) simp
qed

end
