(* ===== verification/Spec2Isabelle.thy ===== *)
theory Spec2Isabelle
  imports CycleLoop Confidence SweepResolution Executor Planner TemporalLearning SwarmContract Transport Mission Autonomy Aggregator Thalamus Handlers Promotion
begin

text \<open>
  A model of the program's own logic: the research kernel Thalamus (\<open>packages/thalamus\<close>), the review and
  simulation kernel Sweep (\<open>packages/sweep\<close>), the temporal pattern learner (\<open>packages/temporal\<close>), and
  the services of the console API that drive them (\<open>apps/console-api\<close>). All paths are under \<open>src/\<close>.

  \<^bold>\<open>How the parts interact.\<close> A research cycle (\<open>thalamus.service.ts\<close>) asks the planner for a graph of
  cortices, runs it through the executor in a loop that stops on budget, novelty or the reflexion
  step, and persists the findings in the research graph. Findings raise or lower the confidence of
  graph edges, and become suggestions of the sweep store. A reviewer accepts a suggestion; the
  resolution service claims it, hands its actions to the handlers of the domain pack, which write the
  catalogue, and records the outcome. Independently, simulations run agents turn by turn over the
  simulation tables, alone or as the fish of a swarm whose last fish triggers the aggregation; what the swarm
  concluded is promoted into suggestions and findings.
  Missions and the autonomy loop fill catalogue fields and start cycles on timers. Every call of a
  language model goes through the chat transport.

  \<^bold>\<open>The theories.\<close>

  \<^item> \<open>Prelude\<close>, \<open>Runtime\<close>: the values, insertion-ordered maps, numbers, strings and sorting of the
    language, and the lemmas on them that the components share.
  \<^item> \<open>Dag\<close>: \<open>dag-validation.ts\<close> and the level scheduler. \<open>validateDag\<close> accepts exactly the graphs of
    known cortices with no duplicate, missing reference, self-reference or cycle (an equivalence with a
    relational reference), and the levels of an accepted graph exist, are disjoint and respect it.
  \<^item> \<open>Cortex\<close>: findings, their normalisation and the dispatcher (\<open>cortices/types.ts\<close>, \<open>executor.ts\<close>).
  \<^item> \<open>Executor\<close>, \<open>Planner\<close>, \<open>Budget\<close>, \<open>CycleLoop\<close>: the services of the same names in
    \<open>packages/thalamus/src/services\<close>; every node is computed once; the executor refuses a finalized plan only
    for a real defect, which neither the filters nor the clamp add; the loop ends within its iteration limit.
  \<^item> \<open>Knowledge\<close>, \<open>Thalamus\<close>: the research tables with the single writer \<open>research-write.service.ts\<close>, the
    finding store and persister, and the cycle service that composes all of the above. Storing is all or
    nothing, a batch accounts for every finding, a run leaves one exact record and overspends its cost limit
    by its last iteration at most. The rows of the raw similarity search carry column names, as the driver
    gives them.
  \<^item> \<open>Confidence\<close>: \<open>confidence.ts\<close> and \<open>field-correlation.ts\<close>. The locale \<open>edge_writer\<close> is the interface the
    correlator needs of the edge service, and the service interprets it.
  \<^item> \<open>SweepStore\<close>, \<open>SweepResolution\<close>, \<open>Handlers\<close>: suggestions in Redis and their indexes, the resolution
    service, the handlers. The locale \<open>resolution_store\<close> is what the service needs of a store; the
    repository interprets it. The locale \<open>effect_relation\<close> is a relation that the statements of a handler
    preserve; it is interpreted by "no table differs" and "only these satellites differ".
  \<^item> \<open>TemporalEvents\<close>, \<open>TemporalMining\<close>, \<open>TemporalLearning\<close>: \<open>packages/temporal/src\<close>. The miner finds
    exactly the sequences of the windows, and a learned hypothesis is backed by the events it counts.
  \<^item> \<open>SimStore\<close>, \<open>SimTurns\<close>, \<open>SimOrchestrator\<close>: the simulation tables (\<open>schema/sim.ts\<close>) with the six
    repositories, the two turn runners with the memory service, and the orchestrator with its worker.
    A turn writes exactly its rows; a standalone run of the accepted length completes. Rows are numbered
    without the gaps that a failed insert leaves in a \<open>bigserial\<close> column, and snapshots are kept apart from
    the configuration they are written into.
  \<^item> \<open>Swarm\<close>, \<open>SwarmMachine\<close>, \<open>SwarmContract\<close>: swarms. \<open>SwarmMachine\<close> interleaves the fish workers at their
    awaits, and the aggregation is queued at most once. \<open>SwarmContract\<close> states what a swarm owes its callers
    without workers and tables; every step of the machine is invisible or a step of the contract, and when
    all workers have finished the contract is fulfilled unless the swarm was aborted.
  \<^item> \<open>Aggregator\<close>, \<open>Outcome\<close>, \<open>Promotion\<close>: what a swarm concludes. The clustering of the answers, the statistics
    of the telemetry and collision aggregators (\<open>agent/ssa/sim/aggregators\<close>), and the outcome resolver with the
    promotion of its result (\<open>ssa-sim-outcome-resolver.service.ts\<close> and the services it calls), whose suggestions
    the resolution service can never carry out.
  \<^item> \<open>Transport\<close>: the provider chain, the retries and the circuit breaker of \<open>llm-chat.ts\<close>.
  \<^item> \<open>Enrichment\<close>, \<open>Mission\<close>, \<open>Autonomy\<close>: catalogue fills with their ranges, the voting missions and the
    autonomy loop with its spend ledger; the last two are machines of interleaved timers and requests. A
    mission ends on every schedule; the loop overspends by one action, and by one more for each start that
    found a cap exhausted.

  \<^bold>\<open>State and effects.\<close> A table is a list of rows in a record, a Redis structure an insertion-ordered map.
  An operation takes the state and returns it updated. What may throw returns \<open>exn + 'a\<close>, with the
  effects it had before it threw. Where awaits of concurrent calls interleave, the component is an
  inductive step relation with a program counter for each await, and safety is an invariant of its
  reachable states. Which statement fails, what a model answers, when a timer fires and what the clock reads are
  arguments, so the theorems hold for all of them.

  \<^bold>\<open>Bounds and fuel.\<close> Most loops recurse on a list or a counter the code bounds. \<open>run_loop\<close> of \<open>CycleLoop\<close> counts
  down from the iteration limit of the code. \<open>topologicalLevels\<close> takes as many rounds as there are nodes, which
  is enough because a round of an accepted graph places at least one node, and the theorem says that the
  result exists. The turn jobs of a standalone run and the fish jobs of a swarm are drained by a
  function with fuel; \<open>standalone_dag_run_completes\<close> and \<open>launched_swarm_drains\<close> state that it is enough.
  The k-means loop stops at the code's iteration limit.

  \<^bold>\<open>Numbers.\<close> A number is a real, with infinities and \<open>NaN\<close> where the code can meet them; rounding is not modelled.
  Integers of the tables are unbounded.

  \<^bold>\<open>Not modelled.\<close> Prompt texts, log lines and metrics; the HTTP layer, the schemas of requests and the
  read-only SQL of the console; the provider adapters, the web crawlers and the ingesters, which reach outside
  the program; the regular expressions of skill files and guardrails; the configuration registry;
  the React console, the command line client, the seeds and the scripts. The query planner of the database,
  isolation levels below serial statements and expiry of Redis keys other than the locks are left out too.
  JSON parsing, hashing, collation, embeddings and vector similarity are arguments.
\<close>

end
